(* ===== verification/Prelude.thy ===== *)
theory Prelude
  imports Main "HOL-Library.AList"
begin

text \<open>
  What the components share: the error values and the result type of operations that
  throw, JavaScript's insertion-ordered \<open>Map\<close> and \<open>Set\<close>, safe integers, and the
  worklist loop (a stack and a set of seen nodes) that the source writes out in every
  graph traversal, with its correctness lemma.
\<close>

named_theorems js_defs \<open>unfolding rules of the small JavaScript helpers\<close>

section \<open>Errors and results\<close>

text \<open>One constructor per kind of exception the modelled code throws.\<close>

datatype js_error =
    UnknownParent nat
  | NoSuchCommit nat
  | NoCommonAncestor nat nat
  | CrissCrossError "nat list"
  | TypeError string
  | RangeError string
  | Error string

type_synonym 'a res = "js_error + 'a"

definition rbind :: "'a res \<Rightarrow> ('a \<Rightarrow> 'b res) \<Rightarrow> 'b res" where
  "rbind r f = (case r of Inl e \<Rightarrow> Inl e | Inr x \<Rightarrow> f x)"

lemma rbind_simps [simp]:
  "rbind (Inl e) f = Inl e"
  "rbind (Inr x) f = f x"
  by (simp_all add: rbind_def)

lemma rbind_eq_Inr: "rbind r f = Inr y \<longleftrightarrow> (\<exists>x. r = Inr x \<and> f x = Inr y)"
  by (cases r) auto

lemma rbind_pair_Inr:
  "rbind r (\<lambda>(a, b). f a b) = Inr y \<longleftrightarrow> (\<exists>a b. r = Inr (a, b) \<and> f a b = Inr y)"
  by (cases r) auto

lemma rbind_cong [fundef_cong]:
  assumes "r = r'" and "\<And>x. r' = Inr x \<Longrightarrow> f x = g x"
  shows "rbind r f = rbind r' g"
  using assms by (cases r') auto

text \<open>A \<open>for\<close> loop whose body may throw: the first exception ends it.\<close>

fun foldM :: "('a \<Rightarrow> 's \<Rightarrow> 's res) \<Rightarrow> 'a list \<Rightarrow> 's \<Rightarrow> 's res" where
  "foldM f [] s = Inr s"
| "foldM f (x # xs) s = rbind (f x s) (foldM f xs)"

lemma foldM_append: "foldM f (xs @ ys) s = rbind (foldM f xs s) (foldM f ys)"
  by (induction xs arbitrary: s) (auto simp: rbind_def split: sum.split)

text \<open>An invariant of a throwing loop.\<close>

lemma foldM_invariant:
  assumes "foldM f xs s = Inr t" and "I s"
    and "\<And>x s s'. x \<in> set xs \<Longrightarrow> I s \<Longrightarrow> f x s = Inr s' \<Longrightarrow> I s'"
  shows "I t"
  using assms
proof (induction xs arbitrary: s)
  case Nil
  then show ?case by simp
next
  case (Cons x xs)
  then obtain s' where s': "f x s = Inr s'" and rest: "foldM f xs s' = Inr t"
    by (auto simp: rbind_eq_Inr)
  have "I s'" using Cons.prems(2,3) s' by auto
  with rest show ?case using Cons.IH Cons.prems(3) by auto
qed

text \<open>A loop whose body throws on the elements with a fault and otherwise folds.\<close>

lemma foldM_gate:
  assumes "\<And>x t. f x t = (if bad x then Inl e else Inr (g t x))"
  shows "foldM f xs t = (if \<exists>x \<in> set xs. bad x then Inl e else Inr (foldl g t xs))"
  by (induction xs arbitrary: t) (simp_all add: assms)

text \<open>A map whose body may throw.\<close>

fun mapM :: "('a \<Rightarrow> 'b res) \<Rightarrow> 'a list \<Rightarrow> 'b list res" where
  "mapM f [] = Inr []"
| "mapM f (x # xs) = rbind (f x) (\<lambda>y. rbind (mapM f xs) (\<lambda>ys. Inr (y # ys)))"

lemma mapM_Inr: "(\<And>x. x \<in> set xs \<Longrightarrow> f x = Inr (g x)) \<Longrightarrow> mapM f xs = Inr (map g xs)"
  by (induction xs) auto

lemma mapM_length: "mapM f xs = Inr ys \<Longrightarrow> length ys = length xs"
  by (induction xs arbitrary: ys) (auto simp: rbind_eq_Inr)

definition is_ok :: "'a res \<Rightarrow> bool" where
  "is_ok r = (case r of Inl _ \<Rightarrow> False | Inr _ \<Rightarrow> True)"

lemma is_ok_simps [simp]: "is_ok (Inr x)" "\<not> is_ok (Inl e)"
  by (simp_all add: is_ok_def)

lemma is_ok_iff: "is_ok r \<longleftrightarrow> (\<exists>x. r = Inr x)"
  by (cases r) auto

section \<open>Numbers\<close>

text \<open>\<open>Number.MAX_SAFE_INTEGER\<close> and the test \<open>Number.isSafeInteger\<close> on integral values.\<close>

definition max_safe :: int where
  "max_safe = 9007199254740991"

definition is_safe :: "int \<Rightarrow> bool" where
  "is_safe n \<longleftrightarrow> - max_safe \<le> n \<and> n \<le> max_safe"

section \<open>Insertion-ordered maps and sets\<close>

text \<open>
  A JavaScript \<open>Map\<close> keeps the insertion order of its keys; setting a present key keeps
  its position. This is \<^term>\<open>AList.update\<close> on an association list with distinct keys;
  deleting is \<^term>\<open>AList.delete\<close>, reading is \<^term>\<open>map_of\<close>. A \<open>Set\<close> is a list
  without duplicates.
\<close>

definition js_add :: "'a \<Rightarrow> 'a list \<Rightarrow> 'a list" where
  "js_add x xs = (if x \<in> set xs then xs else xs @ [x])"

lemma set_js_add [simp]: "set (js_add x xs) = insert x (set xs)"
  by (auto simp: js_add_def)

lemma distinct_js_add [simp]: "distinct (js_add x xs) = distinct xs"
  by (auto simp: js_add_def)

definition js_add_all :: "'a list \<Rightarrow> 'a list \<Rightarrow> 'a list" where
  "js_add_all ys xs = foldl (\<lambda>acc y. js_add y acc) xs ys"

lemma set_js_add_all [simp]: "set (js_add_all ys xs) = set xs \<union> set ys"
  unfolding js_add_all_def by (induction ys arbitrary: xs) auto

lemma distinct_js_add_all [simp]: "distinct (js_add_all ys xs) = distinct xs"
  unfolding js_add_all_def by (induction ys arbitrary: xs) auto

lemma update_new: "k \<notin> fst ` set al \<Longrightarrow> AList.update k v al = al @ [(k, v)]"
  by (induction al) auto

lemma map_of_map_values:
  "map_of (map (\<lambda>(k, v). (k, f k v)) m) k = map_option (f k) (map_of m k)"
  by (induction m) auto

lemma map_of_filter_key:
  "map_of (filter (\<lambda>(k, v). P k) m) k = (if P k then map_of m k else None)"
  by (induction m) auto

lemma filter_eq_id_of_length: "length (filter P xs) = length xs \<Longrightarrow> filter P xs = xs"
  by (metis filter_id_conv length_filter_less less_irrefl)

section \<open>Sorting with a comparator\<close>

text \<open>
  \<open>xs.sort(cmp)\<close> is stable; here \<open>lt x y\<close> is \<open>cmp(x, y) < 0\<close>.
\<close>

fun insort_by :: "('a \<Rightarrow> 'a \<Rightarrow> bool) \<Rightarrow> 'a \<Rightarrow> 'a list \<Rightarrow> 'a list" where
  "insort_by lt x [] = [x]"
| "insort_by lt x (y # ys) = (if lt y x then y # insort_by lt x ys else x # y # ys)"

definition sort_by :: "('a \<Rightarrow> 'a \<Rightarrow> bool) \<Rightarrow> 'a list \<Rightarrow> 'a list" where
  "sort_by lt xs = foldr (insort_by lt) xs []"

lemma set_insort_by [simp]: "set (insort_by lt x ys) = insert x (set ys)"
  by (induction ys) auto

lemma length_insort_by [simp]: "length (insort_by lt x ys) = Suc (length ys)"
  by (induction ys) auto

lemma distinct_insort_by [simp]: "distinct (insort_by lt x ys) \<longleftrightarrow> x \<notin> set ys \<and> distinct ys"
  by (induction ys) auto

lemma set_sort_by [simp]: "set (sort_by lt xs) = set xs"
  unfolding sort_by_def by (induction xs) auto

lemma length_sort_by [simp]: "length (sort_by lt xs) = length xs"
  unfolding sort_by_def by (induction xs) auto

lemma distinct_sort_by [simp]: "distinct (sort_by lt xs) = distinct xs"
proof -
  have "set (foldr (insort_by lt) xs []) = set xs" for xs by (induction xs) auto
  then show ?thesis unfolding sort_by_def by (induction xs) auto
qed

text \<open>A strict total order on the elements.\<close>

definition total_on :: "('a \<Rightarrow> 'a \<Rightarrow> bool) \<Rightarrow> 'a set \<Rightarrow> bool" where
  "total_on lt A \<longleftrightarrow> (\<forall>x \<in> A. \<forall>y \<in> A. x \<noteq> y \<longrightarrow> lt x y \<or> lt y x) \<and>
     (\<forall>x \<in> A. \<forall>y \<in> A. lt x y \<longrightarrow> \<not> lt y x) \<and>
     (\<forall>x \<in> A. \<forall>y \<in> A. \<forall>z \<in> A. lt x y \<longrightarrow> lt y z \<longrightarrow> lt x z)"

lemma total_on_subset: "total_on lt A \<Longrightarrow> B \<subseteq> A \<Longrightarrow> total_on lt B"
  unfolding total_on_def by (meson subsetD)

lemma total_onD:
  assumes "total_on lt A"
  shows "x \<in> A \<Longrightarrow> y \<in> A \<Longrightarrow> x \<noteq> y \<Longrightarrow> lt x y \<or> lt y x"
    and "x \<in> A \<Longrightarrow> y \<in> A \<Longrightarrow> lt x y \<Longrightarrow> \<not> lt y x"
    and "x \<in> A \<Longrightarrow> y \<in> A \<Longrightarrow> z \<in> A \<Longrightarrow> lt x y \<Longrightarrow> lt y z \<Longrightarrow> lt x z"
  using assms unfolding total_on_def by blast+

lemma sorted_insort_by:
  "total_on lt (insert x (set ys)) \<Longrightarrow> x \<notin> set ys \<Longrightarrow> sorted_wrt lt ys \<Longrightarrow> sorted_wrt lt (insort_by lt x ys)"
proof (induction ys)
  case (Cons y ys)
  note t = total_onD [OF Cons.prems(1)]
  have "total_on lt (insert x (set ys))" by (rule total_on_subset [OF Cons.prems(1)]) auto
  with Cons have "sorted_wrt lt (insort_by lt x ys)" by simp
  moreover have "lt x y \<and> (\<forall>z \<in> set ys. lt x z)" if n: "\<not> lt y x"
  proof -
    have xy: "lt x y" using t(1) [of x y] n Cons.prems(2) by auto
    have "lt x z" if "z \<in> set ys" for z using t(3) [of x y z] that xy Cons.prems(3) by auto
    with xy show ?thesis by blast
  qed
  ultimately show ?case using Cons.prems(3) by auto
qed simp

lemma sorted_sort_by: "total_on lt (set xs) \<Longrightarrow> distinct xs \<Longrightarrow> sorted_wrt lt (sort_by lt xs)"
proof (induction xs)
  case (Cons x xs)
  have "total_on lt (set xs)" by (rule total_on_subset [OF Cons.prems(1)]) auto
  with Cons have "sorted_wrt lt (sort_by lt xs)" by simp
  moreover have "sort_by lt (x # xs) = insort_by lt x (sort_by lt xs)" by (simp add: sort_by_def)
  ultimately show ?case using sorted_insort_by [of lt x "sort_by lt xs"] Cons.prems by simp
qed (simp add: sort_by_def)

text \<open>Only one list of the elements is sorted.\<close>

lemma sorted_unique:
  "total_on lt (set xs) \<Longrightarrow> sorted_wrt lt xs \<Longrightarrow> sorted_wrt lt ys \<Longrightarrow> set xs = set ys \<Longrightarrow>
   distinct xs \<Longrightarrow> distinct ys \<Longrightarrow> xs = ys"
proof (induction xs arbitrary: ys)
  case (Cons x xs)
  then obtain y zs where ys: "ys = y # zs" by (cases ys) auto
  note t = total_onD [OF Cons.prems(1)]
  have "x = y"
  proof (rule ccontr)
    assume "x \<noteq> y"
    then have "y \<in> set xs" "x \<in> set zs" using Cons.prems(4) ys by auto
    then have "lt x y" "lt y x" using Cons.prems(2,3) ys by auto
    with t(2) [of x y] \<open>y \<in> set xs\<close> show False by simp
  qed
  moreover have "total_on lt (set xs)" by (rule total_on_subset [OF Cons.prems(1)]) auto
  moreover have "set xs = set zs" using Cons.prems(4-6) ys \<open>x = y\<close> by auto
  ultimately show ?case using Cons.IH [of zs] Cons.prems ys by simp
qed simp

lemma sort_by_unique:
  assumes "total_on lt (set xs)" and "distinct xs" and "sorted_wrt lt ys" and "set ys = set xs" and "distinct ys"
  shows "sort_by lt xs = ys"
  using sorted_unique [of lt "sort_by lt xs" ys] sorted_sort_by [OF assms(1,2)] assms by simp

section \<open>The worklist loop\<close>

text \<open>
  \<^verbatim>\<open>
  const seen = new Set(start), stack = [...start];
  while (stack.length > 0) {
    for (const p of succ(stack.pop())) if (!seen.has(p) && U.has(p)) { seen.add(p); stack.push(p); }
  }
  \<close>
  \<open>U\<close> is the finite universe of nodes (the keys of the store); the head of the list is
  the top of the stack. Every push takes a node out of \<open>U - seen\<close>, every iteration pops
  one, so the sum of the two sizes decreases.
\<close>

fun wl_push :: "'a list \<Rightarrow> 'a list \<Rightarrow> 'a list \<Rightarrow> 'a list \<Rightarrow> 'a list \<times> 'a list" where
  "wl_push U [] seen stack = (seen, stack)"
| "wl_push U (p # ps) seen stack =
     (if p \<notin> set seen \<and> p \<in> set U then wl_push U ps (seen @ [p]) (p # stack)
      else wl_push U ps seen stack)"

lemma wl_push_measure:
  "wl_push U ps seen stack = (seen', stack') \<Longrightarrow>
   card (set U - set seen') + length stack' = card (set U - set seen) + length stack"
proof (induction ps arbitrary: seen stack)
  case Nil
  then show ?case by simp
next
  case (Cons p ps)
  show ?case
  proof (cases "p \<notin> set seen \<and> p \<in> set U")
    case True
    then have "set U - set seen = insert p (set U - set (seen @ [p]))" by auto
    then have c: "card (set U - set seen) = Suc (card (set U - set (seen @ [p])))"
      by (metis Diff_iff List.finite_set card_insert_disjoint finite_Diff in_set_conv_decomp)
    from True Cons.prems have "wl_push U ps (seen @ [p]) (p # stack) = (seen', stack')"
      by simp
    from Cons.IH [OF this] c show ?thesis by simp
  next
    case False
    then have "wl_push U (p # ps) seen stack = wl_push U ps seen stack"
      by (simp only: wl_push.simps if_False)
    with Cons show ?thesis by simp
  qed
qed

function worklist :: "'a list \<Rightarrow> ('a \<Rightarrow> 'a list) \<Rightarrow> 'a list \<Rightarrow> 'a list \<Rightarrow> 'a list" where
  "worklist U succ seen [] = seen"
| "worklist U succ seen (x # stack) =
     (case wl_push U (succ x) seen stack of
        (seen', stack') \<Rightarrow> worklist U succ seen' stack')"
  by pat_completeness auto
termination
  by (relation "measure (\<lambda>(U, succ, seen, stack). card (set U - set seen) + length stack)")
    (auto split: prod.splits dest: wl_push_measure)

declare worklist.simps(2) [simp del]

text \<open>The edges the loop follows.\<close>

definition wl_edges :: "'a list \<Rightarrow> ('a \<Rightarrow> 'a list) \<Rightarrow> ('a \<times> 'a) set" where
  "wl_edges U succ = {(x, y). y \<in> set (succ x) \<and> y \<in> set U}"

lemma wl_push_sets:
  "wl_push U ps seen stack = (seen', stack') \<Longrightarrow>
   set seen' = set seen \<union> (set ps \<inter> set U) \<and>
   set stack' = set stack \<union> (set ps \<inter> set U - set seen)"
proof (induction ps arbitrary: seen stack)
  case Nil
  then show ?case by auto
next
  case (Cons p ps)
  show ?case
  proof (cases "p \<notin> set seen \<and> p \<in> set U")
    case True
    then have "wl_push U ps (seen @ [p]) (p # stack) = (seen', stack')"
      using Cons.prems by simp
    from Cons.IH [OF this] True show ?thesis by auto
  next
    case False
    then have "wl_push U ps seen stack = (seen', stack')"
      using Cons.prems by (simp only: wl_push.simps if_False)
    from Cons.IH [OF this] False show ?thesis by auto
  qed
qed

lemma wl_push_distinct:
  "wl_push U ps seen stack = (seen', stack') \<Longrightarrow> distinct seen \<Longrightarrow> distinct seen'"
  by (induction ps arbitrary: seen stack) (auto split: if_splits)

lemma worklist_distinct: "distinct seen \<Longrightarrow> distinct (worklist U succ seen stack)"
  by (induction U succ seen stack rule: worklist.induct)
    (auto split: prod.split simp: wl_push_distinct worklist.simps(2))

lemma worklist_sound:
  "set stack \<subseteq> set seen \<Longrightarrow>
   set (worklist U succ seen stack) \<subseteq> (wl_edges U succ)\<^sup>* `` set seen"
proof (induction U succ seen stack rule: worklist.induct)
  case (1 U succ seen)
  then show ?case by auto
next
  case (2 U succ seen x stack)
  obtain seen' stack' where p: "wl_push U (succ x) seen stack = (seen', stack')"
    by force
  note s = wl_push_sets [OF p]
  have "set stack' \<subseteq> set seen'" using s "2.prems" by auto
  with "2.IH" p have *: "set (worklist U succ seen' stack') \<subseteq> (wl_edges U succ)\<^sup>* `` set seen'"
    by auto
  have "set seen' \<subseteq> (wl_edges U succ)\<^sup>* `` set seen"
  proof
    fix y
    assume "y \<in> set seen'"
    then consider "y \<in> set seen" | "y \<in> set (succ x) \<inter> set U" using s by auto
    then show "y \<in> (wl_edges U succ)\<^sup>* `` set seen"
    proof cases
      case 2
      then have "(x, y) \<in> wl_edges U succ" by (simp add: wl_edges_def)
      then show ?thesis using "2.prems" by auto
    qed auto
  qed
  then have "(wl_edges U succ)\<^sup>* `` set seen' \<subseteq> (wl_edges U succ)\<^sup>* `` set seen"
    by (auto dest!: subsetD intro: rtrancl_trans)
  with * p show ?case by (auto simp: worklist.simps(2))
qed

lemma worklist_closed:
  assumes "set stack \<subseteq> set seen"
    and "\<And>a b. a \<in> set seen - set stack \<Longrightarrow> (a, b) \<in> wl_edges U succ \<Longrightarrow> b \<in> set seen"
  shows "set seen \<subseteq> set (worklist U succ seen stack) \<and>
    (\<forall>a \<in> set (worklist U succ seen stack). \<forall>b. (a, b) \<in> wl_edges U succ \<longrightarrow>
       b \<in> set (worklist U succ seen stack))"
  using assms
proof (induction U succ seen stack rule: worklist.induct)
  case (1 U succ seen)
  then show ?case by auto
next
  case (2 U succ seen x stack)
  obtain seen' stack' where p: "wl_push U (succ x) seen stack = (seen', stack')"
    by force
  note s = wl_push_sets [OF p]
  have sub: "set stack' \<subseteq> set seen'" using s "2.prems"(1) by auto
  have closed: "b \<in> set seen'" if "a \<in> set seen' - set stack'" "(a, b) \<in> wl_edges U succ" for a b
  proof (cases "a = x")
    case True
    with that(2) s show ?thesis by (auto simp: wl_edges_def)
  next
    case False
    with that(1) s have "a \<in> set seen - set (x # stack)" by auto
    with "2.prems"(2) that(2) s show ?thesis by auto
  qed
  from "2.IH" [OF p [symmetric]] sub closed have
    "set seen' \<subseteq> set (worklist U succ seen' stack') \<and>
    (\<forall>a \<in> set (worklist U succ seen' stack'). \<forall>b. (a, b) \<in> wl_edges U succ \<longrightarrow>
       b \<in> set (worklist U succ seen' stack'))" by blast
  with s p show ?case by (auto simp: worklist.simps(2))
qed

lemma worklist_mono: "set seen \<subseteq> set (worklist U succ seen stack)"
proof (induction U succ seen stack rule: worklist.induct)
  case (2 U succ seen x stack)
  obtain seen' stack' where p: "wl_push U (succ x) seen stack = (seen', stack')" by force
  with "2.IH" have "set seen' \<subseteq> set (worklist U succ seen' stack')" by simp
  with p wl_push_sets [OF p] show ?case by (auto simp: worklist.simps(2))
qed simp

lemma rtrancl_closed_subset:
  assumes "x \<in> A" and "(x, y) \<in> r\<^sup>*" and "\<And>a b. a \<in> A \<Longrightarrow> (a, b) \<in> r \<Longrightarrow> b \<in> A"
  shows "y \<in> A"
  using assms(2,1,3) by (induction rule: rtrancl_induct) auto

text \<open>Started with an equal seen list and stack, the loop computes what they reach.\<close>

theorem worklist_set:
  assumes "set stack = set seen"
  shows "set (worklist U succ seen stack) = (wl_edges U succ)\<^sup>* `` set seen"
proof
  show "set (worklist U succ seen stack) \<subseteq> (wl_edges U succ)\<^sup>* `` set seen"
    using assms by (intro worklist_sound) simp
  have c: "set seen \<subseteq> set (worklist U succ seen stack) \<and>
    (\<forall>a \<in> set (worklist U succ seen stack). \<forall>b. (a, b) \<in> wl_edges U succ \<longrightarrow>
       b \<in> set (worklist U succ seen stack))"
    using assms by (intro worklist_closed) auto
  show "(wl_edges U succ)\<^sup>* `` set seen \<subseteq> set (worklist U succ seen stack)"
  proof
    fix y
    assume "y \<in> (wl_edges U succ)\<^sup>* `` set seen"
    then obtain x where "x \<in> set seen" and xy: "(x, y) \<in> (wl_edges U succ)\<^sup>*" by auto
    with c have "x \<in> set (worklist U succ seen stack)" by auto
    from this xy show "y \<in> set (worklist U succ seen stack)"
      by (rule rtrancl_closed_subset) (use c in blast)
  qed
qed

end
