(* ===== verification/CommitDag.thy ===== *)
theory CommitDag
  imports Prelude
begin

text \<open>
  The commit store of \<^verbatim>\<open>runtime/src/dag.js\<close>: an append-only store of commits that name
  their parents, with severing and removal for the garbage collectors, and the ancestry
  queries. A local id \<^verbatim>\<open>'c' + n\<close> is the number \<open>n\<close>; the private \<open>Map\<close> is an association
  list in insertion order. The lemmas show the store invariant (ids below the counter,
  parents older than their children) and that the two traversals compute exactly the
  reflexive-transitive closure of the parent edges that are still in the store.
\<close>

section \<open>State\<close>

record 'p op_rec =
  op_replica :: string
  op_seq :: nat
  op_payload :: 'p

record ('p, 's) commit =
  c_id :: nat
  c_parents :: "nat list"
  c_op :: "'p op_rec option"
  c_state :: 's

record ('p, 's) dag =
  d_commits :: "(nat \<times> ('p, 's) commit) list"
  d_next :: nat

definition dag_empty :: "('p, 's) dag" where
  "dag_empty = \<lparr>d_commits = [], d_next = 0\<rparr>"

section \<open>Operations\<close>

definition dag_has :: "('p, 's) dag \<Rightarrow> nat \<Rightarrow> bool" where
  "dag_has d i \<longleftrightarrow> map_of (d_commits d) i \<noteq> None"

definition dag_ids :: "('p, 's) dag \<Rightarrow> nat list" where
  "dag_ids d = map fst (d_commits d)"

definition dag_values :: "('p, 's) dag \<Rightarrow> ('p, 's) commit list" where
  "dag_values d = map snd (d_commits d)"

definition dag_size :: "('p, 's) dag \<Rightarrow> nat" where
  "dag_size d = length (d_commits d)"

definition dag_get :: "('p, 's) dag \<Rightarrow> nat \<Rightarrow> ('p, 's) commit res" where
  "dag_get d i = (case map_of (d_commits d) i of
     None \<Rightarrow> Inl (NoSuchCommit i) | Some c \<Rightarrow> Inr c)"

definition dag_sever :: "('p, 's) dag \<Rightarrow> nat \<Rightarrow> ('p, 's) dag res" where
  "dag_sever d i = (case map_of (d_commits d) i of
     None \<Rightarrow> Inl (Error ''sever: unknown commit'')
   | Some c \<Rightarrow> Inr (d\<lparr>d_commits := AList.update i (c\<lparr>c_parents := []\<rparr>) (d_commits d)\<rparr>))"

definition dag_add ::
  "('p, 's) dag \<Rightarrow> nat list \<Rightarrow> 'p op_rec option \<Rightarrow> 's \<Rightarrow> (('p, 's) commit \<times> ('p, 's) dag) res"
where
  "dag_add d ps opn st = (case find (\<lambda>p. \<not> dag_has d p) ps of
     Some p \<Rightarrow> Inl (UnknownParent p)
   | None \<Rightarrow>
       let i = d_next d;
           c = \<lparr>c_id = i, c_parents = ps, c_op = opn, c_state = st\<rparr>
       in Inr (c, d\<lparr>d_commits := AList.update i c (d_commits d), d_next := i + 1\<rparr>))"

definition dag_remove :: "('p, 's) dag \<Rightarrow> nat \<Rightarrow> ('p, 's) dag" where
  "dag_remove d i = d\<lparr>d_commits := AList.delete i (d_commits d)\<rparr>"

text \<open>Each iteration of \<open>restrictParents\<close> rewrites only the entry it visits.\<close>

definition restrict_entry :: "nat list \<Rightarrow> nat \<Rightarrow> ('p, 's) commit \<Rightarrow> ('p, 's) commit" where
  "restrict_entry keep i c =
     (if i \<notin> set keep then c
      else let ps = filter (\<lambda>p. p \<in> set keep) (c_parents c)
           in if length ps = length (c_parents c) then c else c\<lparr>c_parents := ps\<rparr>)"

definition dag_restrictParents :: "('p, 's) dag \<Rightarrow> nat list \<Rightarrow> ('p, 's) dag" where
  "dag_restrictParents d keep =
     d\<lparr>d_commits := map (\<lambda>(i, c). (i, restrict_entry keep i c)) (d_commits d)\<rparr>"

text \<open>The parents a traversal reads at a popped id; a pruned id contributes none.\<close>

definition dag_parents_of :: "('p, 's) dag \<Rightarrow> nat \<Rightarrow> nat list" where
  "dag_parents_of d i = (case map_of (d_commits d) i of None \<Rightarrow> [] | Some c \<Rightarrow> c_parents c)"

definition dag_ancestorSet :: "('p, 's) dag \<Rightarrow> nat \<Rightarrow> nat list res" where
  "dag_ancestorSet d i =
     rbind (dag_get d i) (\<lambda>_. Inr (worklist (dag_ids d) (dag_parents_of d) [i] [i]))"

text \<open>The parent loop of \<open>isAncestor\<close>: \<open>None\<close> is its early \<^verbatim>\<open>return true\<close>.\<close>

fun ia_push :: "nat list \<Rightarrow> nat \<Rightarrow> nat list \<Rightarrow> nat list \<Rightarrow> nat list \<Rightarrow> (nat list \<times> nat list) option"
where
  "ia_push U anc [] seen stack = Some (seen, stack)"
| "ia_push U anc (p # ps) seen stack =
     (if p = anc then None
      else if p \<notin> set seen \<and> p \<in> set U then ia_push U anc ps (seen @ [p]) (p # stack)
      else ia_push U anc ps seen stack)"

lemma ia_push_Some:
  "ia_push U anc ps seen stack = Some (seen', stack') \<Longrightarrow>
   wl_push U ps seen stack = (seen', stack') \<and> anc \<notin> set ps"
  by (induction ps arbitrary: seen stack) (auto split: if_splits)

lemma ia_push_None: "ia_push U anc ps seen stack = None \<Longrightarrow> anc \<in> set ps"
  by (induction ps arbitrary: seen stack) (auto split: if_splits)

function ia_loop :: "nat list \<Rightarrow> (nat \<Rightarrow> nat list) \<Rightarrow> nat \<Rightarrow> nat list \<Rightarrow> nat list \<Rightarrow> bool" where
  "ia_loop U succ anc seen [] = False"
| "ia_loop U succ anc seen (x # stack) =
     (case ia_push U anc (succ x) seen stack of
        None \<Rightarrow> True
      | Some (seen', stack') \<Rightarrow> ia_loop U succ anc seen' stack')"
  by pat_completeness auto
termination
  by (relation "measure (\<lambda>(U, succ, anc, seen, stack). card (set U - set seen) + length stack)")
    (auto dest!: ia_push_Some wl_push_measure)

definition dag_isAncestor :: "('p, 's) dag \<Rightarrow> nat \<Rightarrow> nat \<Rightarrow> bool res" where
  "dag_isAncestor d anc desc =
     rbind (dag_get d anc) (\<lambda>_. rbind (dag_get d desc) (\<lambda>_.
       Inr (if anc = desc then True
            else ia_loop (dag_ids d) (dag_parents_of d) anc [desc] [desc])))"

definition dag_events :: "('p, 's) dag \<Rightarrow> nat \<Rightarrow> 'p op_rec list res" where
  "dag_events d i = rbind (dag_ancestorSet d i) (\<lambda>A.
     foldM (\<lambda>a out. rbind (dag_get d a)
       (\<lambda>c. Inr (case c_op c of None \<Rightarrow> out | Some o1 \<Rightarrow> out @ [o1]))) A [])"

text \<open>\<open>childrenIndex\<close>: the two nested loops over the commits and their parents.\<close>

definition ci_at :: "(nat \<times> nat list) list \<Rightarrow> nat \<Rightarrow> nat list" where
  "ci_at idx p = (case map_of idx p of None \<Rightarrow> [] | Some xs \<Rightarrow> xs)"

definition ci_step :: "('p, 's) dag \<Rightarrow> nat \<Rightarrow> (nat \<times> nat list) list \<Rightarrow> nat \<Rightarrow> (nat \<times> nat list) list"
where
  "ci_step d child idx p =
     (if \<not> dag_has d p then idx else AList.update p (ci_at idx p @ [child]) idx)"

definition dag_childrenIndex :: "('p, 's) dag \<Rightarrow> (nat \<times> nat list) list" where
  "dag_childrenIndex d =
     foldl (\<lambda>idx c. foldl (ci_step d (c_id c)) idx (c_parents c)) [] (dag_values d)"

section \<open>The store invariant\<close>

text \<open>
  Keys are distinct and agree with the ids inside the commits, every id is below the
  counter, and a commit is younger than each of its parents (present or pruned).
\<close>

definition dag_wf :: "('p, 's) dag \<Rightarrow> bool" where
  "dag_wf d \<longleftrightarrow> distinct (dag_ids d) \<and>
     (\<forall>(i, c) \<in> set (d_commits d).
        c_id c = i \<and> i < d_next d \<and> (\<forall>p \<in> set (c_parents c). p < i))"

lemma dag_has_iff: "dag_has d i \<longleftrightarrow> i \<in> set (dag_ids d)"
  by (auto simp: dag_has_def dag_ids_def map_of_eq_None_iff)

lemma dag_wf_get:
  "dag_wf d \<Longrightarrow> map_of (d_commits d) i = Some c \<Longrightarrow>
   c_id c = i \<and> i < d_next d \<and> (\<forall>p \<in> set (c_parents c). p < i)"
  unfolding dag_wf_def using map_of_SomeD by fastforce

lemma dag_wf_mem:
  "dag_wf d \<Longrightarrow> (i, c) \<in> set (d_commits d) \<longleftrightarrow> map_of (d_commits d) i = Some c"
  unfolding dag_wf_def dag_ids_def by (auto dest: map_of_SomeD)

lemma dag_wfI:
  assumes "distinct (dag_ids d)"
    and "\<And>i c. map_of (d_commits d) i = Some c \<Longrightarrow>
      c_id c = i \<and> i < d_next d \<and> (\<forall>p \<in> set (c_parents c). p < i)"
  shows "dag_wf d"
  using assms unfolding dag_wf_def dag_ids_def by auto

lemma dag_empty_wf: "dag_wf dag_empty"
  by (simp add: dag_wf_def dag_empty_def dag_ids_def)

lemma dag_get_Inr: "dag_get d i = Inr c \<longleftrightarrow> map_of (d_commits d) i = Some c"
  by (auto simp: dag_get_def split: option.splits)

lemma dag_get_has: "dag_has d i \<Longrightarrow> \<exists>c. dag_get d i = Inr c"
  by (auto simp: dag_get_def dag_has_def)

lemma dag_add_Inr:
  assumes "dag_add d ps opn st = Inr (c, d')"
  shows "(\<forall>p \<in> set ps. dag_has d p)"
    and "c = \<lparr>c_id = d_next d, c_parents = ps, c_op = opn, c_state = st\<rparr>"
    and "map_of (d_commits d') = (map_of (d_commits d))(d_next d \<mapsto> c)"
    and "d_next d' = Suc (d_next d)"
  using assms unfolding dag_add_def
  by (auto simp: Let_def update_conv' find_None_iff split: option.splits)

lemma dag_add_ok:
  "(\<And>p. p \<in> set ps \<Longrightarrow> dag_has d p) \<Longrightarrow> \<exists>c d'. dag_add d ps opn st = Inr (c, d')"
  unfolding dag_add_def by (auto simp: Let_def find_Some_iff split: option.splits)

lemma dag_add_wf:
  assumes wf: "dag_wf d" and add: "dag_add d ps opn st = Inr (c, d')"
  shows "dag_wf d'"
proof (rule dag_wfI)
  note a = dag_add_Inr [OF add]
  show "distinct (dag_ids d')"
    using wf add unfolding dag_add_def dag_wf_def dag_ids_def
    by (auto simp: Let_def distinct_update split: option.splits)
  fix i ci
  assume "map_of (d_commits d') i = Some ci"
  then consider "i = d_next d" "ci = c" | "map_of (d_commits d) i = Some ci"
    by (metis a(3) fun_upd_apply option.inject)
  then show "c_id ci = i \<and> i < d_next d' \<and> (\<forall>p \<in> set (c_parents ci). p < i)"
  proof cases
    case 1
    have "p < d_next d" if "p \<in> set ps" for p
      using that a(1) wf dag_wf_get unfolding dag_has_def by blast
    with 1 a show ?thesis by auto
  next
    case 2
    with dag_wf_get [OF wf 2] a(4) show ?thesis by auto
  qed
qed

lemma dag_sever_wf:
  assumes "dag_wf d" and "dag_sever d i = Inr d'"
  shows "dag_wf d'"
proof (rule dag_wfI)
  from assms(2) obtain c where c: "map_of (d_commits d) i = Some c"
    and d': "d' = d\<lparr>d_commits := AList.update i (c\<lparr>c_parents := []\<rparr>) (d_commits d)\<rparr>"
    by (auto simp: dag_sever_def split: option.splits)
  show "distinct (dag_ids d')"
    using assms(1) unfolding d' dag_wf_def dag_ids_def by (simp add: distinct_update)
  fix j cj
  assume "map_of (d_commits d') j = Some cj"
  then show "c_id cj = j \<and> j < d_next d' \<and> (\<forall>p \<in> set (c_parents cj). p < j)"
    using dag_wf_get [OF assms(1)] c unfolding d'
    by (auto simp: update_conv' split: if_splits)
qed

lemma map_of_remove: "map_of (d_commits (dag_remove d i)) = (map_of (d_commits d))(i := None)"
  by (simp add: dag_remove_def delete_conv')

lemma dag_remove_wf:
  assumes "dag_wf d"
  shows "dag_wf (dag_remove d i)"
proof (rule dag_wfI)
  show "distinct (dag_ids (dag_remove d i))"
    using assms unfolding dag_wf_def dag_ids_def dag_remove_def by (simp add: distinct_delete)
  fix j c
  assume "map_of (d_commits (dag_remove d i)) j = Some c"
  then have "map_of (d_commits d) j = Some c" by (auto simp: map_of_remove split: if_splits)
  from dag_wf_get [OF assms this]
  show "c_id c = j \<and> j < d_next (dag_remove d i) \<and> (\<forall>p \<in> set (c_parents c). p < j)"
    by (simp add: dag_remove_def)
qed

lemma map_of_restrictParents:
  "map_of (d_commits (dag_restrictParents d keep)) i =
     map_option (restrict_entry keep i) (map_of (d_commits d) i)"
  by (simp add: dag_restrictParents_def map_of_map_values)

lemma dag_ids_restrictParents [simp]: "dag_ids (dag_restrictParents d keep) = dag_ids d"
  by (simp add: dag_ids_def dag_restrictParents_def split_beta comp_def)

lemma restrict_entry_fields [simp]:
  "c_id (restrict_entry keep i c) = c_id c"
  "c_op (restrict_entry keep i c) = c_op c"
  "c_state (restrict_entry keep i c) = c_state c"
  by (simp_all add: restrict_entry_def Let_def)

lemma restrict_entry_parents:
  "c_parents (restrict_entry keep i c) =
     (if i \<in> set keep then filter (\<lambda>p. p \<in> set keep) (c_parents c) else c_parents c)"
  by (simp add: restrict_entry_def Let_def filter_eq_id_of_length)

lemma dag_restrictParents_wf:
  assumes "dag_wf d"
  shows "dag_wf (dag_restrictParents d keep)"
proof (rule dag_wfI)
  show "distinct (dag_ids (dag_restrictParents d keep))"
    using assms by (simp add: dag_wf_def)
  fix i c
  assume "map_of (d_commits (dag_restrictParents d keep)) i = Some c"
  then obtain c0 where "map_of (d_commits d) i = Some c0" "c = restrict_entry keep i c0"
    by (auto simp: map_of_restrictParents)
  with dag_wf_get [OF assms, of i c0]
  show "c_id c = i \<and> i < d_next (dag_restrictParents d keep) \<and> (\<forall>p \<in> set (c_parents c). p < i)"
    by (auto simp: restrict_entry_parents dag_restrictParents_def)
qed

section \<open>Ancestry\<close>

definition dag_edges :: "('p, 's) dag \<Rightarrow> (nat \<times> nat) set" where
  "dag_edges d = {(c, p). \<exists>cm. map_of (d_commits d) c = Some cm \<and> p \<in> set (c_parents cm) \<and> dag_has d p}"

definition dag_anc :: "('p, 's) dag \<Rightarrow> nat \<Rightarrow> nat set" where
  "dag_anc d i = {a. (i, a) \<in> (dag_edges d)\<^sup>*}"

lemma dag_edges_wl: "wl_edges (dag_ids d) (dag_parents_of d) = dag_edges d"
  by (auto simp: wl_edges_def dag_edges_def dag_parents_of_def dag_has_iff
      split: option.splits) force+

lemma dag_ancestorSet_Inr:
  "dag_ancestorSet d i = Inr A \<longleftrightarrow>
   dag_has d i \<and> A = worklist (dag_ids d) (dag_parents_of d) [i] [i]"
  by (auto simp: dag_ancestorSet_def rbind_eq_Inr dag_get_Inr dag_has_def)

lemma dag_ancestorSet_set:
  "dag_ancestorSet d i = Inr A \<Longrightarrow> distinct A \<and> set A = dag_anc d i"
  by (auto simp: dag_ancestorSet_Inr worklist_distinct worklist_set dag_edges_wl dag_anc_def)

lemma dag_ancestorSet_total: "dag_has d i \<Longrightarrow> \<exists>A. dag_ancestorSet d i = Inr A"
  by (simp add: dag_ancestorSet_Inr)

lemma dag_anc_refl [simp]: "i \<in> dag_anc d i"
  by (simp add: dag_anc_def)

lemma dag_anc_trans: "b \<in> dag_anc d a \<Longrightarrow> c \<in> dag_anc d b \<Longrightarrow> c \<in> dag_anc d a"
  unfolding dag_anc_def by auto

lemma dag_anc_has: "dag_has d i \<Longrightarrow> a \<in> dag_anc d i \<Longrightarrow> dag_has d a"
proof -
  assume i: "dag_has d i" and "a \<in> dag_anc d i"
  then have "(i, a) \<in> (dag_edges d)\<^sup>*" by (simp add: dag_anc_def)
  then show ?thesis using i by (induction rule: rtrancl_induct) (auto simp: dag_edges_def)
qed

lemma dag_edges_less: "dag_wf d \<Longrightarrow> (a, b) \<in> dag_edges d \<Longrightarrow> b < a"
  unfolding dag_edges_def using dag_wf_get by blast

lemma dag_anc_le:
  assumes "dag_wf d" and "a \<in> dag_anc d i"
  shows "a \<le> i"
proof -
  from assms(2) have "(i, a) \<in> (dag_edges d)\<^sup>*" by (simp add: dag_anc_def)
  then show ?thesis
  proof (induction rule: rtrancl_induct)
    case (step y z)
    then show ?case using dag_edges_less [OF assms(1), of y z] by simp
  qed simp
qed

lemma dag_anc_antisym:
  "dag_wf d \<Longrightarrow> a \<in> dag_anc d b \<Longrightarrow> b \<in> dag_anc d a \<Longrightarrow> a = b"
  using dag_anc_le by (metis order_antisym)

lemma dag_anc_finite: "dag_has d i \<Longrightarrow> finite (dag_anc d i)"
  using dag_ancestorSet_total dag_ancestorSet_set by (metis List.finite_set)

text \<open>A proper ancestor is reached through a parent.\<close>

lemma dag_anc_step:
  assumes "a \<in> dag_anc d i" and "a \<noteq> i"
  shows "\<exists>p. (i, p) \<in> dag_edges d \<and> a \<in> dag_anc d p"
  using assms unfolding dag_anc_def by (auto elim: converse_rtranclE)

lemma dag_anc_last:
  assumes "a \<in> dag_anc d i" and "a \<noteq> i"
  shows "\<exists>c. (c, a) \<in> dag_edges d \<and> c \<in> dag_anc d i"
  using assms unfolding dag_anc_def by (auto elim: rtranclE)

text \<open>The early-exit search agrees with membership in the full ancestor set.\<close>

lemma ia_loop_worklist:
  assumes "anc \<in> set U" and "set stack \<subseteq> set seen" and "anc \<notin> set seen"
  shows "ia_loop U succ anc seen stack \<longleftrightarrow> anc \<in> set (worklist U succ seen stack)"
  using assms
proof (induction U succ seen stack rule: worklist.induct)
  case (1 U succ seen)
  then show ?case by simp
next
  case (2 U succ seen x stack)
  obtain seen' stack' where p: "wl_push U (succ x) seen stack = (seen', stack')" by force
  note s = wl_push_sets [OF p]
  show ?case
  proof (cases "ia_push U anc (succ x) seen stack")
    case None
    then have "anc \<in> set seen'" using ia_push_None [OF None] "2.prems"(1) s by auto
    moreover have "set stack' \<subseteq> set seen'" using s "2.prems"(2) by auto
    then have "set seen' \<subseteq> set (worklist U succ seen' stack')"
      by (intro worklist_mono)
    ultimately show ?thesis using None p by (auto simp: worklist.simps(2))
  next
    case (Some r)
    then have r: "r = (seen', stack')" and na: "anc \<notin> set (succ x)"
      using ia_push_Some p by (cases r; fastforce)+
    have "set stack' \<subseteq> set seen'" "anc \<notin> set seen'" using s na "2.prems" by auto
    with "2.IH" p "2.prems"(1)
    have "ia_loop U succ anc seen' stack' \<longleftrightarrow> anc \<in> set (worklist U succ seen' stack')" by auto
    with Some r p show ?thesis by (simp add: worklist.simps(2))
  qed
qed

lemma dag_isAncestor_iff:
  "dag_isAncestor d a b = Inr r \<longleftrightarrow>
   dag_has d a \<and> dag_has d b \<and> r = (a \<in> dag_anc d b)"
proof -
  have "ia_loop (dag_ids d) (dag_parents_of d) a [b] [b] \<longleftrightarrow> a \<in> dag_anc d b"
    if "dag_has d a" "a \<noteq> b"
    using that by (subst ia_loop_worklist)
      (auto simp: dag_has_iff worklist_set dag_edges_wl dag_anc_def)
  then show ?thesis
    unfolding dag_isAncestor_def rbind_eq_Inr dag_get_Inr dag_has_def by auto
qed

section \<open>Properties\<close>

text \<open>A store with a fork and a merge, built by \<open>dag_add\<close>; the witnesses run on it.\<close>

definition op_of :: "string \<Rightarrow> nat \<Rightarrow> nat op_rec option" where
  "op_of r q = Some \<lparr>op_replica = r, op_seq = q, op_payload = q\<rparr>"

definition store_of :: "(nat list \<times> nat op_rec option) list \<Rightarrow> (nat, unit) dag res" where
  "store_of cs = foldM (\<lambda>(ps, o1) d. rbind (dag_add d ps o1 ()) (\<lambda>(c, d'). Inr d')) cs dag_empty"

definition diamond :: "(nat, unit) dag" where
  "diamond = \<lparr>d_commits =
     [(0, \<lparr>c_id = 0, c_parents = [], c_op = None, c_state = ()\<rparr>),
      (1, \<lparr>c_id = 1, c_parents = [0], c_op = op_of ''a'' 1, c_state = ()\<rparr>),
      (2, \<lparr>c_id = 2, c_parents = [0], c_op = op_of ''b'' 1, c_state = ()\<rparr>),
      (3, \<lparr>c_id = 3, c_parents = [1, 2], c_op = None, c_state = ()\<rparr>)], d_next = 4\<rparr>"

lemma diamond_built:
  "store_of [([], None), ([0], op_of ''a'' 1), ([0], op_of ''b'' 1), ([1, 2], None)] = Inr diamond"
  by (simp add: store_of_def diamond_def dag_add_def dag_has_def dag_empty_def Let_def)

lemma diamond_wf: "dag_wf diamond"
  by (simp add: dag_wf_def dag_ids_def diamond_def)

text \<open>C1: \<open>ancestorSet\<close> throws exactly on an id that is not in the store, and otherwise returns,
  without repetition, every commit reachable over the parent edges that are still in the store.\<close>

theorem ancestorSet_is_closure:
  "case dag_ancestorSet d i of
     Inl e \<Rightarrow> \<not> dag_has d i \<and> e = NoSuchCommit i
   | Inr A \<Rightarrow> dag_has d i \<and> distinct A \<and> set A = {a. (i, a) \<in> (dag_edges d)\<^sup>*}"
proof (cases "dag_has d i")
  case True
  then obtain A where "dag_ancestorSet d i = Inr A" using dag_ancestorSet_total by blast
  with dag_ancestorSet_set [OF this] True show ?thesis by (simp add: dag_anc_def)
next
  case False
  then show ?thesis by (simp add: dag_ancestorSet_def dag_get_def dag_has_def)
qed

text \<open>The early-exit search \<open>isAncestor\<close> returns on every pair of ids: an error naming the
  first missing id, and otherwise the membership of one id in the ancestor set of the other.\<close>

theorem isAncestor_agrees:
  "dag_isAncestor d a b =
     (if \<not> dag_has d a then Inl (NoSuchCommit a)
      else if \<not> dag_has d b then Inl (NoSuchCommit b)
      else Inr ((b, a) \<in> (dag_edges d)\<^sup>*))"
proof -
  have "dag_isAncestor d a b = Inr ((b, a) \<in> (dag_edges d)\<^sup>*)" if "dag_has d a" "dag_has d b"
    using dag_isAncestor_iff [of d a b] that by (simp add: dag_anc_def)
  moreover have "dag_isAncestor d a b = Inl (NoSuchCommit a)" if "\<not> dag_has d a"
    using that by (simp add: dag_isAncestor_def dag_get_def dag_has_def)
  moreover have "dag_isAncestor d a b = Inl (NoSuchCommit b)" if "dag_has d a" "\<not> dag_has d b"
    using that by (auto simp: dag_isAncestor_def dag_get_def dag_has_def)
  ultimately show ?thesis by simp
qed

end
