(* ===== verification/Lca.thy ===== *)
theory Lca
  imports CommitDag
begin

text \<open>
  Maximal common ancestors and the criss-cross gate of \<^verbatim>\<open>runtime/src/lca.js\<close>. The order
  theory is stated once, in the locale of ranked edge relations, and interpreted on the
  parent edges of a well-formed store; the one-pass maximality test of the code is then
  exactly maximality under ancestry, and a unique maximal common ancestor is above every
  common ancestor.
\<close>

section \<open>The interface: a ranked ancestry relation\<close>

locale ranked_ancestry =
  fixes edges :: "('n \<times> 'n) set" and rank :: "'n \<Rightarrow> nat"
  assumes rank_edge: "(a, b) \<in> edges \<Longrightarrow> rank b < rank a"
begin

lemma rank_le: "(a, b) \<in> edges\<^sup>* \<Longrightarrow> rank b \<le> rank a"
proof (induction rule: rtrancl_induct)
  case (step y z)
  with rank_edge [of y z] show ?case by simp
qed simp

lemma rank_less: "(a, b) \<in> edges\<^sup>* \<Longrightarrow> a \<noteq> b \<Longrightarrow> rank b < rank a"
proof (erule converse_rtranclE)
  fix y
  assume "(a, y) \<in> edges" and "(y, b) \<in> edges\<^sup>*"
  with rank_edge [of a y] rank_le [of y b] show "rank b < rank a" by simp
qed simp

lemma anc_antisym: "(a, b) \<in> edges\<^sup>* \<Longrightarrow> (b, a) \<in> edges\<^sup>* \<Longrightarrow> a = b"
  using rank_less [of a b] rank_less [of b a] by fastforce

text \<open>
  In a set closed under ancestry, being below some other member and being an immediate
  parent of some member are the same.
\<close>

lemma dominated_iff_parent:
  assumes closed: "\<And>x y. x \<in> S \<Longrightarrow> (x, y) \<in> edges \<Longrightarrow> y \<in> S"
  shows "(\<exists>c \<in> S. (c, x) \<in> edges) \<longleftrightarrow> (\<exists>c \<in> S. c \<noteq> x \<and> (c, x) \<in> edges\<^sup>*)"
proof
  assume "\<exists>c \<in> S. (c, x) \<in> edges"
  then obtain c where "c \<in> S" "(c, x) \<in> edges" ..
  with rank_edge [of c x] have "c \<noteq> x" by auto
  with \<open>c \<in> S\<close> \<open>(c, x) \<in> edges\<close> show "\<exists>c \<in> S. c \<noteq> x \<and> (c, x) \<in> edges\<^sup>*" by auto
next
  assume "\<exists>c \<in> S. c \<noteq> x \<and> (c, x) \<in> edges\<^sup>*"
  then obtain c y where c: "c \<in> S" "(c, y) \<in> edges\<^sup>*" "(y, x) \<in> edges"
    by (auto elim: rtranclE)
  have "y \<in> S" using c(2,1) by (induction rule: rtrancl_induct) (auto intro: closed)
  with c(3) show "\<exists>c \<in> S. (c, x) \<in> edges" ..
qed

text \<open>Every member of a finite set lies below a maximal one.\<close>

lemma ranked_finite_max:
  assumes "finite U" and "U \<noteq> {}"
  shows "\<exists>m \<in> U. \<forall>c \<in> U. rank c \<le> rank m"
proof -
  have "Max (rank ` U) \<in> rank ` U" using assms by (intro Max_in) auto
  then obtain m where "m \<in> U" "rank m = Max (rank ` U)" by force
  with assms(1) show ?thesis by (metis Max_ge finite_imageI imageI)
qed

lemma above_maximal:
  assumes "finite S" and "x \<in> S"
  shows "\<exists>m \<in> S. (m, x) \<in> edges\<^sup>* \<and> (\<forall>c \<in> S. (c, m) \<in> edges\<^sup>* \<longrightarrow> c = m)"
proof -
  let ?U = "{m \<in> S. (m, x) \<in> edges\<^sup>*}"
  have "finite ?U" "?U \<noteq> {}" using assms by auto
  then obtain m where m: "m \<in> ?U" "\<And>c. c \<in> ?U \<Longrightarrow> rank c \<le> rank m"
    using ranked_finite_max [of ?U] by auto
  have "c = m" if "c \<in> S" "(c, m) \<in> edges\<^sup>*" for c
  proof (rule ccontr)
    assume "c \<noteq> m"
    with that(2) have "rank m < rank c" by (rule rank_less [of c m])
    moreover have "c \<in> ?U" using that m(1) by auto
    ultimately show False using m(2) [of c] by simp
  qed
  with m(1) show ?thesis by auto
qed

lemma unique_maximal_greatest:
  assumes "finite S" and "{m \<in> S. \<forall>c \<in> S. (c, m) \<in> edges\<^sup>* \<longrightarrow> c = m} = {l}" and "x \<in> S"
  shows "(l, x) \<in> edges\<^sup>*"
proof -
  from above_maximal [OF assms(1,3)] obtain m where
    m: "m \<in> S" "(m, x) \<in> edges\<^sup>*" "\<forall>c \<in> S. (c, m) \<in> edges\<^sup>* \<longrightarrow> c = m" by blast
  then have "m \<in> {l}" unfolding assms(2) [symmetric] by simp
  with m(2) show ?thesis by simp
qed

end

text \<open>
  The parent edges of a store, restricted to well-formed stores so that the interpretation
  has no premise. On a well-formed store they are all its edges.
\<close>

definition wf_edges :: "('p, 's) dag \<Rightarrow> (nat \<times> nat) set" where
  "wf_edges d = (if dag_wf d then dag_edges d else {})"

lemma wf_edges_eq [simp]: "dag_wf d \<Longrightarrow> wf_edges d = dag_edges d"
  by (simp add: wf_edges_def)

interpretation dag_order: ranked_ancestry "wf_edges d" id for d
  by unfold_locales (auto simp: wf_edges_def dag_edges_less split: if_splits)

section \<open>Operations\<close>

definition nonmax_step ::
  "('p, 's) dag \<Rightarrow> nat list \<Rightarrow> nat \<Rightarrow> nat list \<Rightarrow> nat list res"
where
  "nonmax_step d ca c nonMax =
     rbind (dag_get d c) (\<lambda>cm. Inr (js_add_all (filter (\<lambda>p. p \<in> set ca) (c_parents cm)) nonMax))"

text \<open>The last four lines of \<open>mcas\<close>: drop the members some member lists as a parent.\<close>

definition maximal_of :: "('p, 's) dag \<Rightarrow> nat list \<Rightarrow> nat list res" where
  "maximal_of d ca = rbind (foldM (nonmax_step d ca) ca [])
     (\<lambda>nonMax. Inr (filter (\<lambda>c. c \<notin> set nonMax) ca))"

definition mcas :: "('p, 's) dag \<Rightarrow> nat \<Rightarrow> nat \<Rightarrow> nat list res" where
  "mcas d aId bId =
     rbind (dag_ancestorSet d aId) (\<lambda>A.
     rbind (dag_ancestorSet d bId) (\<lambda>B.
       maximal_of d (filter (\<lambda>x. x \<in> set B) A)))"

definition lca :: "('p, 's) dag \<Rightarrow> nat \<Rightarrow> nat \<Rightarrow> nat res" where
  "lca d aId bId = rbind (mcas d aId bId) (\<lambda>m.
     if length m = 1 then Inr (hd m)
     else if length m = 0 then Inl (NoCommonAncestor aId bId)
     else Inl (CrissCrossError m))"

section \<open>Correctness\<close>

definition common_anc :: "('p, 's) dag \<Rightarrow> nat \<Rightarrow> nat \<Rightarrow> nat set" where
  "common_anc d a b = dag_anc d a \<inter> dag_anc d b"

definition maximal_in :: "('p, 's) dag \<Rightarrow> nat set \<Rightarrow> nat set" where
  "maximal_in d S = {m \<in> S. \<forall>c \<in> S. m \<in> dag_anc d c \<longrightarrow> c = m}"

lemma nonmax_fold:
  assumes "foldM (nonmax_step d ca) cs nm = Inr r"
  shows "set r = set nm \<union> {p \<in> set ca. \<exists>c \<in> set cs. p \<in> set (dag_parents_of d c)}"
  using assms
proof (induction cs arbitrary: nm)
  case Nil
  then show ?case by simp
next
  case (Cons c cs)
  then obtain nm' where n: "nonmax_step d ca c nm = Inr nm'"
    and r: "foldM (nonmax_step d ca) cs nm' = Inr r"
    by (auto simp: rbind_eq_Inr)
  from n obtain cm where g: "dag_get d c = Inr cm"
    and nm': "nm' = js_add_all (filter (\<lambda>p. p \<in> set ca) (c_parents cm)) nm"
    by (auto simp: rbind_eq_Inr nonmax_step_def)
  have "dag_parents_of d c = c_parents cm"
    using g by (simp add: dag_get_Inr dag_parents_of_def)
  with Cons.IH [OF r] nm' show ?case by auto
qed

lemma nonmax_fold_ok:
  assumes "\<And>c. c \<in> set cs \<Longrightarrow> dag_has d c"
  shows "\<exists>r. foldM (nonmax_step d ca) cs nm = Inr r"
  using assms
proof (induction cs arbitrary: nm)
  case (Cons c cs)
  then obtain cm where "dag_get d c = Inr cm" using dag_get_has by force
  with Cons show ?case by (auto simp: nonmax_step_def)
qed simp

lemma maximal_of_correct:
  assumes wf: "dag_wf d" and has: "\<And>c. c \<in> set ca \<Longrightarrow> dag_has d c"
    and closed: "\<And>x y. x \<in> set ca \<Longrightarrow> (x, y) \<in> dag_edges d \<Longrightarrow> y \<in> set ca"
  shows "\<exists>m. maximal_of d ca = Inr m \<and> set m = maximal_in d (set ca) \<and>
    (distinct ca \<longrightarrow> distinct m)"
proof -
  obtain r where r: "foldM (nonmax_step d ca) ca [] = Inr r"
    using nonmax_fold_ok [of ca d ca "[]"] has by auto
  have edge: "p \<in> set ca \<Longrightarrow> p \<in> set (dag_parents_of d c) \<longleftrightarrow> (c, p) \<in> dag_edges d" for c p
    using has [of p] by (cases "map_of (d_commits d) c") (auto simp: dag_edges_def dag_parents_of_def)
  have dom: "(\<exists>c \<in> set ca. (c, x) \<in> dag_edges d) \<longleftrightarrow>
      (\<exists>c \<in> set ca. c \<noteq> x \<and> (c, x) \<in> (dag_edges d)\<^sup>*)" for x
    using dag_order.dominated_iff_parent [where d = d and S = "set ca"] closed wf by simp
  have "set (filter (\<lambda>c. c \<notin> set r) ca) = maximal_in d (set ca)"
  proof (intro set_eqI)
    fix x
    have "x \<in> set r \<longleftrightarrow> (\<exists>c \<in> set ca. c \<noteq> x \<and> x \<in> dag_anc d c)" if "x \<in> set ca"
      using nonmax_fold [OF r] edge [OF that] dom [of x] that by (simp add: dag_anc_def)
    then show "x \<in> set (filter (\<lambda>c. c \<notin> set r) ca) \<longleftrightarrow> x \<in> maximal_in d (set ca)"
      by (auto simp: maximal_in_def)
  qed
  then show ?thesis by (simp add: maximal_of_def r)
qed

lemma mcas_correct:
  assumes wf: "dag_wf d" and has: "dag_has d a" "dag_has d b"
  shows "\<exists>m. mcas d a b = Inr m \<and> distinct m \<and> set m = maximal_in d (common_anc d a b)"
proof -
  obtain A B where A: "dag_ancestorSet d a = Inr A" and B: "dag_ancestorSet d b = Inr B"
    using has dag_ancestorSet_total by blast
  let ?ca = "filter (\<lambda>x. x \<in> set B) A"
  have ca: "set ?ca = common_anc d a b" "distinct ?ca"
    using dag_ancestorSet_set [OF A] dag_ancestorSet_set [OF B] by (auto simp: common_anc_def)
  have closed: "y \<in> set ?ca" if "x \<in> set ?ca" "(x, y) \<in> dag_edges d" for x y
    using that unfolding ca by (auto simp: common_anc_def dag_anc_def)
  have "dag_has d c" if "c \<in> set ?ca" for c
    using that has dag_anc_has unfolding ca by (auto simp: common_anc_def)
  with closed obtain m where "maximal_of d ?ca = Inr m" "set m = maximal_in d (set ?ca)" "distinct m"
    using maximal_of_correct [OF wf, of ?ca] ca(2) by blast
  then show ?thesis unfolding mcas_def A B ca(1) by simp
qed

lemma mcas_Inr:
  assumes "dag_wf d" and "mcas d a b = Inr m"
  shows "dag_has d a \<and> dag_has d b \<and> distinct m \<and> set m = maximal_in d (common_anc d a b)"
proof -
  have "dag_has d a" "dag_has d b"
    using assms(2) by (auto simp: mcas_def rbind_eq_Inr dag_ancestorSet_Inr)
  with mcas_correct [OF assms(1) this] assms(2) show ?thesis by auto
qed

lemma common_anc_finite: "dag_has d a \<Longrightarrow> finite (common_anc d a b)"
  by (simp add: common_anc_def dag_anc_finite)

lemma common_anc_self [simp]: "common_anc d a a = dag_anc d a"
  by (simp add: common_anc_def)

lemma maximal_in_self: "dag_wf d \<Longrightarrow> maximal_in d (dag_anc d a) = {a}"
  unfolding maximal_in_def using dag_anc_antisym [of d] by (blast intro: dag_anc_refl)

lemma lca_Inr:
  assumes "dag_wf d" and "lca d a b = Inr l"
  shows "maximal_in d (common_anc d a b) = {l}"
proof -
  obtain m where m: "mcas d a b = Inr m" and l: "length m = 1" "l = hd m"
    using assms(2) by (auto simp: lca_def rbind_eq_Inr split: if_splits)
  then have "m = [l]" by (cases m) auto
  with mcas_Inr [OF assms(1) m] show ?thesis by simp
qed

lemma lca_greatest_common:
  assumes wf: "dag_wf d" and l: "lca d a b = Inr l"
  shows "l \<in> common_anc d a b" and "x \<in> common_anc d a b \<Longrightarrow> x \<in> dag_anc d l"
proof -
  have has: "dag_has d a" using l wf by (auto simp: lca_def rbind_eq_Inr dest: mcas_Inr)
  note max = lca_Inr [OF wf l]
  then show "l \<in> common_anc d a b" by (auto simp: maximal_in_def)
  assume "x \<in> common_anc d a b"
  moreover have "{m \<in> common_anc d a b. \<forall>c \<in> common_anc d a b.
      (c, m) \<in> (dag_edges d)\<^sup>* \<longrightarrow> c = m} = {l}"
    using max by (simp add: maximal_in_def dag_anc_def)
  ultimately have "(l, x) \<in> (dag_edges d)\<^sup>*"
    using dag_order.unique_maximal_greatest [where d = d, OF common_anc_finite [OF has]] wf by simp
  then show "x \<in> dag_anc d l" by (simp add: dag_anc_def)
qed

section \<open>Properties\<close>

lemma dag_has_diamond: "dag_has diamond i \<longleftrightarrow> i < 4"
proof -
  have "i = 0 \<or> i = 1 \<or> i = 2 \<or> i = 3 \<or> 4 \<le> i" by linarith
  then show ?thesis by (auto simp: dag_has_def diamond_def)
qed

text \<open>C3: the one-pass test of \<open>mcas\<close> is right: on a well-formed store it returns, without
  repetition, exactly the common ancestors that lie below no other common ancestor, and it does
  not fail on commits of the store.\<close>

theorem mcas_maximal:
  assumes "dag_wf d" and "dag_has d a" and "dag_has d b"
  shows "\<exists>m. mcas d a b = Inr m \<and> distinct m \<and>
    set m = {x \<in> dag_anc d a \<inter> dag_anc d b. \<forall>c \<in> dag_anc d a \<inter> dag_anc d b.
       x \<in> dag_anc d c \<longrightarrow> c = x}"
  using mcas_correct [OF assms] by (simp add: maximal_in_def common_anc_def)

theorem mcas_maximal_witness:
  "\<exists>m. mcas diamond 3 2 = Inr m \<and> distinct m \<and>
    set m = {x \<in> dag_anc diamond 3 \<inter> dag_anc diamond 2. \<forall>c \<in> dag_anc diamond 3 \<inter> dag_anc diamond 2.
       x \<in> dag_anc diamond c \<longrightarrow> c = x}"
  by (rule mcas_maximal [OF diamond_wf]) (simp_all add: dag_has_diamond)

text \<open>C4: \<open>lca\<close> is a gate. A returned commit is a common ancestor and every common ancestor lies
  below it; a criss-cross error carries at least two distinct maximal common ancestors; the
  no-common-ancestor error means that there is none.\<close>

theorem lca_gate:
  assumes wf: "dag_wf d" and has: "dag_has d a" "dag_has d b"
  shows "case lca d a b of
     Inr l \<Rightarrow> l \<in> common_anc d a b \<and> (\<forall>x \<in> common_anc d a b. x \<in> dag_anc d l)
   | Inl (CrissCrossError m) \<Rightarrow> distinct m \<and> 2 \<le> length m \<and>
       set m = maximal_in d (common_anc d a b)
   | Inl e \<Rightarrow> e = NoCommonAncestor a b \<and> common_anc d a b = {}"
proof -
  obtain m where m: "mcas d a b = Inr m" "distinct m" "set m = maximal_in d (common_anc d a b)"
    using mcas_correct [OF wf has] by blast
  consider "length m = 1" | "m = []" | "2 \<le> length m" by (cases m; cases "tl m") auto
  then show ?thesis
  proof cases
    case 1
    then have "lca d a b = Inr (hd m)" using m(1) by (simp add: lca_def)
    with lca_greatest_common [OF wf this] show ?thesis by simp
  next
    case 2
    have "common_anc d a b = {}"
    proof (rule ccontr)
      assume "common_anc d a b \<noteq> {}"
      then obtain x where "x \<in> common_anc d a b" by blast
      from dag_order.above_maximal [where d = d, OF common_anc_finite [OF has(1)] this]
      obtain y where "y \<in> maximal_in d (common_anc d a b)"
        using wf by (auto simp: maximal_in_def dag_anc_def)
      with m 2 show False by simp
    qed
    with 2 m(1) show ?thesis by (simp add: lca_def)
  next
    case 3
    then have "length m \<noteq> 1" "length m \<noteq> 0" by linarith+
    then have "lca d a b = Inl (CrissCrossError m)" using m(1) by (simp only: lca_def rbind_simps if_False)
    with 3 m show ?thesis by simp
  qed
qed

theorem lca_gate_witness:
  "lca diamond 1 2 = Inr 0 \<and>
   (case lca diamond 1 2 of
     Inr l \<Rightarrow> l \<in> common_anc diamond 1 2 \<and> (\<forall>x \<in> common_anc diamond 1 2. x \<in> dag_anc diamond l)
   | Inl (CrissCrossError m) \<Rightarrow> distinct m \<and> 2 \<le> length m \<and>
       set m = maximal_in diamond (common_anc diamond 1 2)
   | Inl e \<Rightarrow> e = NoCommonAncestor 1 2 \<and> common_anc diamond 1 2 = {})"
proof
  show "lca diamond 1 2 = Inr 0"
    by (simp add: lca_def mcas_def maximal_of_def nonmax_step_def dag_ancestorSet_def dag_get_def
        dag_ids_def dag_parents_of_def diamond_def worklist.simps(2) js_add_all_def js_add_def)
qed (rule lca_gate [OF diamond_wf], simp_all add: dag_has_diamond)

end
