(* ===== verification/CommitGc.thy ===== *)
theory CommitGc
  imports Lca
begin

text \<open>
  The commit garbage collector of \<^verbatim>\<open>runtime/src/gc.js\<close>: the closure of the heads under
  pairwise maximal common ancestors, its upward (descendant) closure, and the removal of
  everything else. The lemmas show that the kept store is the old store restricted to an
  upward-closed set, that ancestry between kept commits is unchanged, and that so are the
  maximal common ancestors of every two kept commits whose maximal common ancestors are
  kept.
\<close>

section \<open>Operations\<close>

text \<open>The two index loops \<^verbatim>\<open>for i, for j = i\<close> over the snapshot of the seeds.\<close>

fun pairs_from :: "'a list \<Rightarrow> ('a \<times> 'a) list" where
  "pairs_from [] = []"
| "pairs_from (x # xs) = map (Pair x) (x # xs) @ pairs_from xs"

definition seed_step :: "('p, 's) dag \<Rightarrow> nat \<times> nat \<Rightarrow> nat list \<Rightarrow> nat list res" where
  "seed_step d xy seeds =
     rbind (mcas d (fst xy) (snd xy)) (\<lambda>ms. Inr (js_add_all ms seeds))"

definition seed_pass :: "('p, 's) dag \<Rightarrow> nat list \<Rightarrow> nat list res" where
  "seed_pass d seeds = foldM (seed_step d) (pairs_from seeds) seeds"

lemma mcas_subset_ids: "mcas d a b = Inr m \<Longrightarrow> set m \<subseteq> set (dag_ids d)"
proof -
  assume "mcas d a b = Inr m"
  then obtain A B where A: "dag_ancestorSet d a = Inr A" and
    m: "maximal_of d (filter (\<lambda>x. x \<in> set B) A) = Inr m"
    by (auto simp: mcas_def rbind_eq_Inr)
  from m have "set m \<subseteq> set A" by (auto simp: maximal_of_def rbind_eq_Inr)
  moreover have "dag_has d a" using A by (simp add: dag_ancestorSet_Inr)
  ultimately show ?thesis
    using dag_ancestorSet_set [OF A] dag_anc_has by (fastforce simp: dag_has_iff)
qed

lemma js_add_all_grows: "\<exists>zs. js_add_all ys xs = xs @ zs \<and> set zs \<subseteq> set ys - set xs"
proof (induction ys arbitrary: xs)
  case (Cons y ys)
  show ?case
  proof (cases "y \<in> set xs")
    case True
    then have "js_add_all (y # ys) xs = js_add_all ys xs"
      by (simp add: js_add_all_def js_add_def)
    with Cons.IH [of xs] show ?thesis by auto
  next
    case False
    then have "js_add_all (y # ys) xs = js_add_all ys (xs @ [y])"
      by (simp add: js_add_all_def js_add_def)
    with Cons.IH [of "xs @ [y]"] False show ?thesis by fastforce
  qed
qed (simp add: js_add_all_def)

lemma seed_step_Inr:
  "seed_step d xy s = Inr s' \<longleftrightarrow>
   (\<exists>ms. mcas d (fst xy) (snd xy) = Inr ms \<and> s' = js_add_all ms s)"
  by (auto simp: seed_step_def rbind_eq_Inr)

lemma seed_fold_grows:
  "foldM (seed_step d) prs seeds = Inr seeds' \<Longrightarrow>
   \<exists>zs. seeds' = seeds @ zs \<and> set zs \<subseteq> set (dag_ids d) - set seeds"
proof (induction prs arbitrary: seeds)
  case (Cons xy prs)
  then obtain ms where ms: "mcas d (fst xy) (snd xy) = Inr ms"
    and rest: "foldM (seed_step d) prs (js_add_all ms seeds) = Inr seeds'"
    by (auto simp: rbind_eq_Inr seed_step_Inr)
  obtain zs where zs: "js_add_all ms seeds = seeds @ zs" "set zs \<subseteq> set ms - set seeds"
    using js_add_all_grows [of ms seeds] by blast
  from Cons.IH [OF rest] obtain zs2 where
    zs2: "seeds' = js_add_all ms seeds @ zs2" "set zs2 \<subseteq> set (dag_ids d) - set (js_add_all ms seeds)"
    by blast
  have "seeds' = seeds @ (zs @ zs2)" using zs2(1) zs(1) by simp
  moreover have "set (zs @ zs2) \<subseteq> set (dag_ids d) - set seeds"
    using zs(2) zs2(2) mcas_subset_ids [OF ms] by (simp add: subset_iff)
  ultimately show ?case by blast
qed simp

function seed_loop :: "('p, 's) dag \<Rightarrow> nat list \<Rightarrow> nat list res" where
  "seed_loop d seeds = (case seed_pass d seeds of
     Inl e \<Rightarrow> Inl e
   | Inr seeds' \<Rightarrow> if length seeds' = length seeds then Inr seeds else seed_loop d seeds')"
  by pat_completeness auto
termination
proof (relation "measure (\<lambda>(d, seeds). card (set (dag_ids d) - set seeds))")
  fix d :: "('p, 's) dag" and seeds seeds'
  assume "seed_pass d seeds = Inr seeds'" and ne: "length seeds' \<noteq> length seeds"
  then obtain zs where zs: "seeds' = seeds @ zs" "set zs \<subseteq> set (dag_ids d) - set seeds"
    using seed_fold_grows unfolding seed_pass_def by blast
  with ne have "zs \<noteq> []" by auto
  with zs have "set (dag_ids d) - set seeds' \<subset> set (dag_ids d) - set seeds"
    by (cases zs) auto
  then show "((d, seeds'), (d, seeds)) \<in> measure (\<lambda>(d, seeds). card (set (dag_ids d) - set seeds))"
    by (simp add: psubset_card_mono)
qed simp

declare seed_loop.simps [simp del]

definition keepSet :: "('p, 's) dag \<Rightarrow> nat list \<Rightarrow> nat list res" where
  "keepSet d headIds = rbind (seed_loop d (js_add_all headIds [])) (\<lambda>seeds.
     let children = dag_childrenIndex d
     in Inr (worklist (dag_ids d) (ci_at children) seeds (rev seeds)))"

definition gc_drop :: "nat list \<Rightarrow> ('p, 's) dag \<times> nat \<Rightarrow> nat \<Rightarrow> ('p, 's) dag \<times> nat" where
  "gc_drop keep dn i =
     (if i \<notin> set keep then (dag_remove (fst dn) i, snd dn + 1) else dn)"

record gc_result =
  gc_kept :: nat
  gc_dropped :: nat

definition runGc :: "('p, 's) dag \<Rightarrow> nat list \<Rightarrow> (gc_result \<times> ('p, 's) dag) res" where
  "runGc d headIds = rbind (keepSet d headIds) (\<lambda>keep.
     let (d1, dropped) = foldl (gc_drop keep) (d, 0) (dag_ids d)
     in Inr (\<lparr>gc_kept = length keep, gc_dropped = dropped\<rparr>, dag_restrictParents d1 keep))"

section \<open>The seeds and the kept set\<close>

definition mca_closed :: "('p, 's) dag \<Rightarrow> nat set \<Rightarrow> bool" where
  "mca_closed d S \<longleftrightarrow> (\<forall>a \<in> S. \<forall>b \<in> S. maximal_in d (common_anc d a b) \<subseteq> S)"

lemma common_anc_commute: "common_anc d a b = common_anc d b a"
  by (auto simp: common_anc_def)

lemma seed_fold_contains:
  assumes wf: "dag_wf d"
  shows "foldM (seed_step d) prs seeds = Inr seeds' \<Longrightarrow> (a, b) \<in> set prs \<Longrightarrow>
    maximal_in d (common_anc d a b) \<subseteq> set seeds'"
proof (induction prs arbitrary: seeds)
  case (Cons xy prs)
  then obtain ms where ms: "mcas d (fst xy) (snd xy) = Inr ms"
    and rest: "foldM (seed_step d) prs (js_add_all ms seeds) = Inr seeds'"
    by (auto simp: rbind_eq_Inr seed_step_Inr)
  show ?case
  proof (cases "(a, b) = xy")
    case True
    then have "fst xy = a" "snd xy = b" by auto
    with mcas_Inr [OF wf ms] have "set ms = maximal_in d (common_anc d a b)" by simp
    moreover obtain zs where "seeds' = js_add_all ms seeds @ zs"
      using seed_fold_grows [OF rest] by blast
    ultimately show ?thesis by auto
  next
    case False
    with Cons rest show ?thesis by auto
  qed
qed simp

lemma pairs_from_cover:
  "a \<in> set xs \<Longrightarrow> b \<in> set xs \<Longrightarrow> (a, b) \<in> set (pairs_from xs) \<or> (b, a) \<in> set (pairs_from xs)"
  by (induction xs) auto

lemma pairs_from_mem: "(a, b) \<in> set (pairs_from xs) \<Longrightarrow> a \<in> set xs \<and> b \<in> set xs"
  by (induction xs) auto

lemma seed_loop_spec:
  assumes "dag_wf d" and "seed_loop d seeds = Inr r"
  shows "set seeds \<subseteq> set r \<and> set r \<subseteq> set seeds \<union> set (dag_ids d) \<and>
    mca_closed d (set r) \<and> (distinct seeds \<longrightarrow> distinct r)"
  using assms
proof (induction d seeds rule: seed_loop.induct)
  case (1 d seeds)
  from "1.prems"(2) obtain s' where s': "seed_pass d seeds = Inr s'"
    by (auto simp: seed_loop.simps [of d seeds] split: sum.splits)
  obtain zs where zs: "s' = seeds @ zs" "set zs \<subseteq> set (dag_ids d) - set seeds"
    using seed_fold_grows s' unfolding seed_pass_def by blast
  have dist: "distinct s'" if "distinct seeds"
    by (rule foldM_invariant [where I = distinct, OF s' [unfolded seed_pass_def] that])
      (auto simp: seed_step_Inr)
  show ?case
  proof (cases "length s' = length seeds")
    case True
    then have r: "r = seeds" "s' = seeds"
      using "1.prems"(2) s' zs by (auto simp: seed_loop.simps [of d seeds])
    have "mca_closed d (set seeds)"
      unfolding mca_closed_def
      using seed_fold_contains [OF "1.prems"(1) s' [unfolded seed_pass_def]] r(2)
        pairs_from_cover common_anc_commute by metis
    with r show ?thesis by auto
  next
    case False
    with "1.prems"(2) s' have "seed_loop d s' = Inr r"
      by (simp add: seed_loop.simps [of d seeds])
    from "1.IH" [OF s' False "1.prems"(1) this] zs dist show ?thesis by auto
  qed
qed

lemma seed_pass_ok:
  assumes wf: "dag_wf d"
  shows "(\<And>a b. (a, b) \<in> set prs \<Longrightarrow> dag_has d a \<and> dag_has d b) \<Longrightarrow>
    \<exists>r. foldM (seed_step d) prs seeds = Inr r"
proof (induction prs arbitrary: seeds)
  case (Cons xy prs)
  then obtain ms where "mcas d (fst xy) (snd xy) = Inr ms"
    using mcas_correct [OF wf, of "fst xy" "snd xy"] by (cases xy) auto
  then have "seed_step d xy seeds = Inr (js_add_all ms seeds)"
    by (simp add: seed_step_def)
  with Cons show ?case by auto
qed simp

lemma seed_loop_ok:
  assumes "dag_wf d" and "\<forall>h \<in> set seeds. dag_has d h"
  shows "\<exists>r. seed_loop d seeds = Inr r"
  using assms
proof (induction d seeds rule: seed_loop.induct)
  case (1 d seeds)
  obtain s' where s': "seed_pass d seeds = Inr s'"
    unfolding seed_pass_def using seed_pass_ok [OF "1.prems"(1)] "1.prems"(2) pairs_from_mem
    by meson
  obtain zs where zs: "s' = seeds @ zs" "set zs \<subseteq> set (dag_ids d) - set seeds"
    using seed_fold_grows s' unfolding seed_pass_def by blast
  then have "\<forall>h \<in> set s'. dag_has d h" using "1.prems"(2) by (auto simp: dag_has_iff)
  with "1.IH" [OF s'] "1.prems"(1) s' show ?case
    by (cases "length s' = length seeds") (auto simp: seed_loop.simps [of d seeds])
qed

text \<open>The children index is the converse of the parent edges.\<close>

lemma ci_inner:
  "set (ci_at (foldl (ci_step d ch) idx ps) p) =
   set (ci_at idx p) \<union> (if p \<in> set ps \<and> dag_has d p then {ch} else {})"
proof (induction ps arbitrary: idx)
  case (Cons q ps)
  have "set (ci_at (ci_step d ch idx q) p) =
      set (ci_at idx p) \<union> (if p = q \<and> dag_has d p then {ch} else {})"
    by (auto simp: ci_step_def ci_at_def update_conv' split: option.splits)
  then show ?case by (auto simp: Cons.IH)
qed simp

lemma ci_outer:
  "set (ci_at (foldl (\<lambda>idx c. foldl (ci_step d (c_id c)) idx (c_parents c)) idx cs) p) =
   set (ci_at idx p) \<union> {c_id c |c. c \<in> set cs \<and> p \<in> set (c_parents c) \<and> dag_has d p}"
  by (induction cs arbitrary: idx) (auto simp: ci_inner)

lemma childrenIndex_edges:
  assumes "dag_wf d"
  shows "y \<in> set (ci_at (dag_childrenIndex d) x) \<longleftrightarrow> (y, x) \<in> dag_edges d"
proof -
  have "y \<in> set (ci_at (dag_childrenIndex d) x) \<longleftrightarrow>
      (\<exists>c. (c_id c, c) \<in> set (d_commits d) \<and> y = c_id c \<and> x \<in> set (c_parents c) \<and> dag_has d x)"
    using assms unfolding dag_childrenIndex_def ci_outer dag_values_def dag_wf_def
    by (fastforce simp: ci_at_def)
  then show ?thesis
    using dag_wf_mem [OF assms] dag_wf_get [OF assms] by (auto simp: dag_edges_def)
qed

lemma wl_edges_children:
  assumes "dag_wf d"
  shows "wl_edges (dag_ids d) (ci_at (dag_childrenIndex d)) = (dag_edges d)\<inverse>"
  using childrenIndex_edges [OF assms]
  by (auto simp: wl_edges_def dag_edges_def dag_has_iff [symmetric] dag_has_def)

lemma keepSet_spec:
  assumes wf: "dag_wf d" and k: "keepSet d hs = Inr keep"
  shows "\<exists>S. set hs \<subseteq> S \<and> S \<subseteq> set hs \<union> set (dag_ids d) \<and> mca_closed d S \<and>
    set keep = {x. \<exists>s \<in> S. s \<in> dag_anc d x} \<and> distinct keep"
proof -
  from k obtain seeds where seeds: "seed_loop d (js_add_all hs []) = Inr seeds"
    and keep: "keep = worklist (dag_ids d) (ci_at (dag_childrenIndex d)) seeds (rev seeds)"
    by (auto simp: keepSet_def rbind_eq_Inr Let_def)
  note s = seed_loop_spec [OF wf seeds]
  have "set keep = ((dag_edges d)\<inverse>)\<^sup>* `` set seeds"
    unfolding keep by (simp add: worklist_set wl_edges_children [OF wf])
  then have "set keep = {x. \<exists>s \<in> set seeds. s \<in> dag_anc d x}"
    by (auto simp: dag_anc_def rtrancl_converse)
  moreover have "distinct keep"
    unfolding keep using s by (intro worklist_distinct) simp
  ultimately show ?thesis using s by (intro exI [of _ "set seeds"]) simp
qed

lemma keepSet_ok:
  assumes "dag_wf d" and "\<forall>h \<in> set hs. dag_has d h"
  shows "\<exists>keep. keepSet d hs = Inr keep"
proof -
  have "\<forall>h \<in> set (js_add_all hs []). dag_has d h" using assms(2) by simp
  from seed_loop_ok [OF assms(1) this] show ?thesis by (auto simp: keepSet_def Let_def)
qed

section \<open>Restriction to an upward-closed set\<close>

definition upclosed :: "('p, 's) dag \<Rightarrow> nat set \<Rightarrow> bool" where
  "upclosed d K \<longleftrightarrow> (\<forall>(c, p) \<in> dag_edges d. p \<in> K \<longrightarrow> c \<in> K)"

definition restricted_to :: "('p, 's) dag \<Rightarrow> nat set \<Rightarrow> ('p, 's) dag \<Rightarrow> bool" where
  "restricted_to d K d' \<longleftrightarrow> d_next d' = d_next d \<and>
     (\<forall>i. map_of (d_commits d') i = (if i \<in> K
        then map_option (\<lambda>c. c\<lparr>c_parents := filter (\<lambda>p. p \<in> K) (c_parents c)\<rparr>)
               (map_of (d_commits d) i)
        else None))"

lemma restricted_has: "restricted_to d K d' \<Longrightarrow> dag_has d' i \<longleftrightarrow> i \<in> K \<and> dag_has d i"
  by (auto simp: restricted_to_def dag_has_def)

lemma restricted_edges:
  assumes "restricted_to d K d'"
  shows "dag_edges d' = dag_edges d \<inter> K \<times> K"
proof -
  have "(c, p) \<in> dag_edges d' \<longleftrightarrow> (c, p) \<in> dag_edges d \<inter> K \<times> K" for c p
    using restricted_has [OF assms, of p] assms
    by (auto simp: dag_edges_def restricted_to_def split: if_splits)
  then show ?thesis by auto
qed

lemma upclosed_anc: "upclosed d K \<Longrightarrow> a \<in> K \<Longrightarrow> a \<in> dag_anc d x \<Longrightarrow> x \<in> K"
proof -
  assume up: "upclosed d K" and "a \<in> K" and "a \<in> dag_anc d x"
  then have "(x, a) \<in> (dag_edges d)\<^sup>*" by (simp add: dag_anc_def)
  then show "x \<in> K" using \<open>a \<in> K\<close>
    by (induction rule: converse_rtrancl_induct) (use up in \<open>auto simp: upclosed_def\<close>)
qed

lemma restricted_anc:
  assumes r: "restricted_to d K d'" and up: "upclosed d K" and x: "x \<in> K"
  shows "dag_anc d' x = dag_anc d x \<inter> K"
proof (intro equalityI subsetI)
  fix a
  assume "a \<in> dag_anc d' x"
  then have "(x, a) \<in> (dag_edges d')\<^sup>*" by (simp add: dag_anc_def)
  then show "a \<in> dag_anc d x \<inter> K"
    using x by (induction rule: rtrancl_induct)
      (auto simp: restricted_edges [OF r] dag_anc_def)
next
  fix a
  assume a: "a \<in> dag_anc d x \<inter> K"
  then have "(x, a) \<in> (dag_edges d)\<^sup>*" by (simp add: dag_anc_def)
  then have "(x, a) \<in> (dag_edges d')\<^sup>*"
  proof (induction rule: converse_rtrancl_induct)
    case (step y z)
    have "z \<in> K" using upclosed_anc [OF up, of a z] a step(2) by (simp add: dag_anc_def)
    moreover from this step(1) have "y \<in> K" using up by (auto simp: upclosed_def)
    ultimately have "(y, z) \<in> dag_edges d'" using step(1) by (simp add: restricted_edges [OF r])
    with step(3) show ?case by (rule converse_rtrancl_into_rtrancl [rotated])
  qed simp
  then show "a \<in> dag_anc d' x" by (simp add: dag_anc_def)
qed

text \<open>Maximal common ancestors survive the restriction when they are kept.\<close>

lemma restricted_maximal:
  assumes r: "restricted_to d K d'" and up: "upclosed d K" and ab: "a \<in> K" "b \<in> K"
    and fin: "finite (common_anc d a b)" and wf: "dag_wf d"
    and m: "maximal_in d (common_anc d a b) \<subseteq> K"
  shows "maximal_in d' (common_anc d' a b) = maximal_in d (common_anc d a b)"
proof -
  have ca: "common_anc d' a b = common_anc d a b \<inter> K"
    using restricted_anc [OF r up] ab by (auto simp: common_anc_def)
  have anc: "x \<in> dag_anc d' c \<longleftrightarrow> x \<in> dag_anc d c" if "x \<in> K" "c \<in> K" for x c
    using restricted_anc [OF r up that(2)] that by auto
  show ?thesis
  proof (intro equalityI subsetI)
    fix x
    assume "x \<in> maximal_in d' (common_anc d' a b)"
    then have x: "x \<in> common_anc d a b" "x \<in> K"
      and mx: "\<And>c. c \<in> common_anc d a b \<Longrightarrow> c \<in> K \<Longrightarrow> x \<in> dag_anc d c \<Longrightarrow> c = x"
      using anc unfolding maximal_in_def ca by auto
    have "c = x" if "c \<in> common_anc d a b" "x \<in> dag_anc d c" for c
      using mx [OF that(1) upclosed_anc [OF up x(2) that(2)] that(2)] .
    with x show "x \<in> maximal_in d (common_anc d a b)" by (simp add: maximal_in_def)
  next
    fix x
    assume x: "x \<in> maximal_in d (common_anc d a b)"
    with m have "x \<in> K" by auto
    with x show "x \<in> maximal_in d' (common_anc d' a b)"
      using anc unfolding maximal_in_def ca by auto
  qed
qed

section \<open>What a collection does\<close>

lemma dag_ids_remove: "dag_ids (dag_remove d i) = filter (\<lambda>j. j \<noteq> i) (dag_ids d)"
  by (simp add: dag_ids_def dag_remove_def AList.delete_keys removeAll_filter_not_eq eq_commute)

lemma d_next_remove: "d_next (dag_remove d i) = d_next d"
  by (simp add: dag_remove_def)

lemma gc_drop_fold:
  assumes "foldl (gc_drop keep) (d, n) is = (d1, n1)"
  shows "map_of (d_commits d1) =
      (\<lambda>i. if i \<in> set is \<and> i \<notin> set keep then None else map_of (d_commits d) i)"
    and "d_next d1 = d_next d"
    and "n1 = n + length (filter (\<lambda>i. i \<notin> set keep) is)"
    and "dag_ids d1 = filter (\<lambda>i. \<not> (i \<in> set is \<and> i \<notin> set keep)) (dag_ids d)"
proof (atomize (full), use assms in \<open>induction "is" arbitrary: d n\<close>)
  case Nil
  then show ?case by simp
next
  case (Cons i js)
  obtain d2 n2 where s: "gc_drop keep (d, n) i = (d2, n2)" by force
  have d2: "map_of (d_commits d2) = (if i \<in> set keep then map_of (d_commits d)
        else (map_of (d_commits d))(i := None))"
    "d_next d2 = d_next d" "n2 = (if i \<in> set keep then n else n + 1)"
    "dag_ids d2 = filter (\<lambda>j. \<not> (j = i \<and> i \<notin> set keep)) (dag_ids d)"
    using s by (auto simp: gc_drop_def map_of_remove dag_ids_remove d_next_remove split: if_splits)
  have "foldl (gc_drop keep) (d2, n2) js = (d1, n1)" using Cons.prems s by simp
  from Cons.IH [OF this] d2 show ?case
    by (auto simp: fun_eq_iff intro!: filter_cong)
qed

lemma runGc_Inr:
  assumes wf: "dag_wf d" and g: "runGc d hs = Inr (res, d')"
  obtains keep where "keepSet d hs = Inr keep" and "restricted_to d (set keep) d'"
    and "upclosed d (set keep)" and "gc_kept res = length keep"
    and "gc_dropped res = length (filter (\<lambda>i. i \<notin> set keep) (dag_ids d))"
    and "dag_ids d' = filter (\<lambda>i. i \<in> set keep) (dag_ids d)"
proof -
  from g obtain keep where k: "keepSet d hs = Inr keep"
    by (auto simp: runGc_def rbind_eq_Inr)
  obtain d1 n1 where f: "foldl (gc_drop keep) (d, 0) (dag_ids d) = (d1, n1)" by force
  with g k have d': "d' = dag_restrictParents d1 keep"
    and res: "res = \<lparr>gc_kept = length keep, gc_dropped = n1\<rparr>"
    by (auto simp: runGc_def)
  note gf = gc_drop_fold [OF f]
  have m1: "map_of (d_commits d1) = (\<lambda>i. if i \<in> set keep then map_of (d_commits d) i else None)"
    unfolding gf(1) by (auto simp: fun_eq_iff dag_has_iff [symmetric] dag_has_def)
  have entry: "restrict_entry keep i c = c\<lparr>c_parents := filter (\<lambda>p. p \<in> set keep) (c_parents c)\<rparr>"
    if "i \<in> set keep" for i and c :: "('a, 'b) commit"
  proof (cases "length (filter (\<lambda>p. p \<in> set keep) (c_parents c)) = length (c_parents c)")
    case True
    then have "filter (\<lambda>p. p \<in> set keep) (c_parents c) = c_parents c"
      by (rule filter_eq_id_of_length)
    with that show ?thesis by (simp add: restrict_entry_def)
  qed (use that in \<open>simp add: restrict_entry_def\<close>)
  have r: "restricted_to d (set keep) d'"
    unfolding restricted_to_def d' map_of_restrictParents m1
  proof (intro conjI allI)
    show "d_next (dag_restrictParents d1 keep) = d_next d"
      using gf(2) by (simp add: dag_restrictParents_def)
    fix i
    show "map_option (restrict_entry keep i)
        (if i \<in> set keep then map_of (d_commits d) i else None) =
      (if i \<in> set keep then map_option (\<lambda>c. c\<lparr>c_parents := filter (\<lambda>p. p \<in> set keep) (c_parents c)\<rparr>)
        (map_of (d_commits d) i) else None)"
      by (cases "map_of (d_commits d) i") (simp_all add: entry)
  qed
  obtain S where S: "set keep = {x. \<exists>s \<in> S. s \<in> dag_anc d x}"
    using keepSet_spec [OF wf k] by auto
  have "upclosed d (set keep)"
    unfolding upclosed_def S by (auto simp: dag_anc_def intro: converse_rtrancl_into_rtrancl)
  moreover have "dag_ids d' = filter (\<lambda>i. i \<in> set keep) (dag_ids d)"
    using gf(4) by (auto simp: d' intro: filter_cong)
  ultimately show thesis using that k r res gf(3) by simp
qed

lemma restricted_wf:
  assumes "dag_wf d" and "restricted_to d K d'" and "distinct (dag_ids d')"
  shows "dag_wf d'"
proof (rule dag_wfI [OF assms(3)])
  fix i c
  assume "map_of (d_commits d') i = Some c"
  then obtain c0 where "map_of (d_commits d) i = Some c0"
    "c = c0\<lparr>c_parents := filter (\<lambda>p. p \<in> K) (c_parents c0)\<rparr>"
    using assms(2) by (auto simp: restricted_to_def split: if_splits)
  with dag_wf_get [OF assms(1), of i c0] assms(2)
  show "c_id c = i \<and> i < d_next d' \<and> (\<forall>p \<in> set (c_parents c). p < i)"
    by (auto simp: restricted_to_def)
qed

lemma runGc_kept:
  assumes wf: "dag_wf e" and hs: "\<forall>h \<in> set hs. dag_has e h"
  obtains keep res e2 where "keepSet e hs = Inr keep" and "runGc e hs = Inr (res, e2)"
    and "restricted_to e (set keep) e2" and "upclosed e (set keep)" and "dag_wf e2"
    and "set hs \<subseteq> set keep" and "set keep \<subseteq> set (dag_ids e)" and "distinct keep"
    and "\<And>a b. a \<in> set hs \<Longrightarrow> b \<in> set hs \<Longrightarrow> maximal_in e (common_anc e a b) \<subseteq> set keep"
    and "gc_kept res = length keep"
    and "gc_dropped res = length (filter (\<lambda>i. i \<notin> set keep) (dag_ids e))"
    and "dag_ids e2 = filter (\<lambda>i. i \<in> set keep) (dag_ids e)"
proof -
  obtain keep where k: "keepSet e hs = Inr keep" using keepSet_ok [OF wf hs] ..
  then obtain res e2 where g: "runGc e hs = Inr (res, e2)"
    by (cases "foldl (gc_drop keep) (e, 0) (dag_ids e)") (auto simp: runGc_def)
  obtain keep' where k': "keepSet e hs = Inr keep'" "restricted_to e (set keep') e2" "upclosed e (set keep')"
    "gc_kept res = length keep'" "gc_dropped res = length (filter (\<lambda>i. i \<notin> set keep') (dag_ids e))"
    "dag_ids e2 = filter (\<lambda>i. i \<in> set keep') (dag_ids e)"
    by (rule runGc_Inr [OF wf g])
  have kk: "keep' = keep" using k k'(1) by simp
  obtain S where S: "set hs \<subseteq> S" "S \<subseteq> set hs \<union> set (dag_ids e)" "mca_closed e S"
    "set keep = {x. \<exists>s \<in> S. s \<in> dag_anc e x}" "distinct keep"
    using keepSet_spec [OF wf k] by blast
  have SK: "S \<subseteq> set keep" unfolding S(4) by (auto intro: dag_anc_refl)
  have sub: "set keep \<subseteq> set (dag_ids e)"
  proof
    fix x
    assume "x \<in> set keep"
    then obtain s where s: "s \<in> S" "s \<in> dag_anc e x" unfolding S(4) by blast
    have "dag_has e s" using s(1) S(2) hs by (auto simp: dag_has_iff)
    then show "x \<in> set (dag_ids e)"
      using s(2) dag_anc_step [of s e x] by (cases "s = x")
        (auto simp: dag_has_iff [symmetric] dag_edges_def dag_has_def)
  qed
  have max: "maximal_in e (common_anc e a b) \<subseteq> set keep" if "a \<in> set hs" "b \<in> set hs" for a b
    using S(1,3) SK that unfolding mca_closed_def by blast
  have "dag_wf e2"
    by (rule restricted_wf [OF wf k'(2)]) (use wf in \<open>simp add: k'(6) dag_wf_def\<close>)
  then show thesis
    using that [OF k g] k'(2-6) S(1,5) SK sub max unfolding kk by blast
qed

section \<open>Properties\<close>

text \<open>C5: a collection over heads in the store succeeds. It drops exactly the commits outside
  the keep-set, keeps every head, leaves ancestry between kept commits as it was, and leaves the
  maximal common ancestors of every two heads as they were, so the merges between current heads
  are not affected.\<close>

theorem runGc_preserves_merges:
  assumes wf: "dag_wf d" and hs: "\<forall>h \<in> set hs. dag_has d h"
  shows "\<exists>keep res d'. keepSet d hs = Inr keep \<and> runGc d hs = Inr (res, d') \<and> dag_wf d' \<and>
    gc_kept res = length keep \<and> gc_kept res + gc_dropped res = dag_size d \<and>
    (\<forall>i. dag_has d' i \<longleftrightarrow> i \<in> set keep) \<and> set hs \<subseteq> set keep \<and>
    (\<forall>a \<in> set keep. \<forall>b \<in> set keep. a \<in> dag_anc d' b \<longleftrightarrow> a \<in> dag_anc d b) \<and>
    (\<forall>a \<in> set hs. \<forall>b \<in> set hs.
       maximal_in d' (common_anc d' a b) = maximal_in d (common_anc d a b))"
proof -
  obtain keep res d' where k: "keepSet d hs = Inr keep" "runGc d hs = Inr (res, d')"
    and r: "restricted_to d (set keep) d'" "upclosed d (set keep)" "dag_wf d'"
    and hk: "set hs \<subseteq> set keep" "set keep \<subseteq> set (dag_ids d)" "distinct keep"
    and mk: "\<And>a b. a \<in> set hs \<Longrightarrow> b \<in> set hs \<Longrightarrow> maximal_in d (common_anc d a b) \<subseteq> set keep"
    and n: "gc_kept res = length keep"
      "gc_dropped res = length (filter (\<lambda>i. i \<notin> set keep) (dag_ids d))"
      "dag_ids d' = filter (\<lambda>i. i \<in> set keep) (dag_ids d)"
    by (rule runGc_kept [OF wf hs], rule that; blast)
  have dist: "distinct (dag_ids d)" using wf by (simp add: dag_wf_def)
  have "set keep = set (filter (\<lambda>i. i \<in> set keep) (dag_ids d))" using hk(2) by auto
  then have "length keep = length (filter (\<lambda>i. i \<in> set keep) (dag_ids d))"
    using distinct_card [OF hk(3)] distinct_card [OF distinct_filter [OF dist]] by metis
  then have size: "gc_kept res + gc_dropped res = dag_size d"
    using sum_length_filter_compl [of "\<lambda>i. i \<in> set keep" "dag_ids d"] n
    by (simp add: dag_size_def dag_ids_def)
  have has: "dag_has d' i \<longleftrightarrow> i \<in> set keep" for i
    using hk(2) unfolding restricted_has [OF r(1)] by (auto simp: dag_has_iff)
  have anc: "a \<in> dag_anc d' b \<longleftrightarrow> a \<in> dag_anc d b" if "a \<in> set keep" "b \<in> set keep" for a b
    using restricted_anc [OF r(1,2) that(2)] that(1) by simp
  have max: "maximal_in d' (common_anc d' a b) = maximal_in d (common_anc d a b)"
    if "a \<in> set hs" "b \<in> set hs" for a b
    using restricted_maximal [OF r(1,2) _ _ common_anc_finite wf mk] that hk(1) hs by blast
  show ?thesis using k r(3) n(1) size has hk(1) anc max by blast
qed

theorem runGc_preserves_merges_witness:
  "\<exists>keep res d'. keepSet diamond [1, 2] = Inr keep \<and> runGc diamond [1, 2] = Inr (res, d') \<and> dag_wf d' \<and>
    gc_kept res = length keep \<and> gc_kept res + gc_dropped res = dag_size diamond \<and>
    (\<forall>i. dag_has d' i \<longleftrightarrow> i \<in> set keep) \<and> set [1, 2] \<subseteq> set keep \<and>
    (\<forall>a \<in> set keep. \<forall>b \<in> set keep. a \<in> dag_anc d' b \<longleftrightarrow> a \<in> dag_anc diamond b) \<and>
    (\<forall>a \<in> set [1, 2]. \<forall>b \<in> set [1, 2].
       maximal_in d' (common_anc d' a b) = maximal_in diamond (common_anc diamond a b))"
  by (rule runGc_preserves_merges [OF diamond_wf]) (simp add: dag_has_diamond)

end
