(* ===== verification/Frontier.thy ===== *)
theory Frontier
  imports CommitDag
begin

text \<open>
  The evidence frontier and the certified stable cut of \<^verbatim>\<open>runtime/src/frontier.js\<close>. An
  event key \<^verbatim>\<open>replica + ':' + seq\<close> is the pair of the two (the part after the last colon
  is a decimal number, so the string determines the pair). The lemmas show that the
  frontier names, for every replica, its authored commit of greatest sequence number in
  the ancestry of the head; that an incomplete certificate certifies nothing; and that a
  complete one certifies exactly the events in the ancestry of every evidence commit.
\<close>

section \<open>The frontier\<close>

type_synonym frontier = "(string \<times> (nat \<times> nat)) list"

definition fr_set :: "nat \<Rightarrow> 'p op_rec \<Rightarrow> frontier \<Rightarrow> frontier" where
  "fr_set i o1 fr = AList.update (op_replica o1) (i, op_seq o1) fr"

definition fr_step :: "('p, 's) dag \<Rightarrow> nat \<Rightarrow> frontier \<Rightarrow> frontier res" where
  "fr_step d i fr = rbind (dag_get d i) (\<lambda>c. Inr (case c_op c of
       None \<Rightarrow> fr
     | Some o1 \<Rightarrow> (case map_of fr (op_replica o1) of
           None \<Rightarrow> fr_set i o1 fr
         | Some (_, q) \<Rightarrow> if op_seq o1 > q then fr_set i o1 fr else fr)))"

definition frontierOf :: "('p, 's) dag \<Rightarrow> nat \<Rightarrow> frontier res" where
  "frontierOf d headId = rbind (dag_ancestorSet d headId) (\<lambda>A. foldM (fr_step d) A [])"

section \<open>The event set of a commit\<close>

type_synonym 'p eventmap = "((string \<times> nat) \<times> 'p op_rec) list"

definition ev_step :: "('p, 's) dag \<Rightarrow> nat \<Rightarrow> 'p eventmap \<Rightarrow> 'p eventmap res" where
  "ev_step d i m = rbind (dag_get d i) (\<lambda>c. Inr (case c_op c of
       None \<Rightarrow> m
     | Some o1 \<Rightarrow> AList.update (op_replica o1, op_seq o1) o1 m))"

definition eventOps :: "('p, 's) dag \<Rightarrow> nat \<Rightarrow> 'p eventmap res" where
  "eventOps d i = rbind (dag_ancestorSet d i) (\<lambda>A. foldM (ev_step d) A [])"

section \<open>The certified stable cut\<close>

record 'p stable_cut =
  sc_complete :: bool
  sc_meet :: "'p eventmap"
  sc_missing :: "string list"
  sc_frontier :: frontier

text \<open>The loop over the registered names fills \<open>sets\<close> and \<open>missing\<close>.\<close>

definition sc_step ::
  "('p, 's) dag \<Rightarrow> frontier \<Rightarrow> string \<Rightarrow> string \<Rightarrow> 'p eventmap list \<times> string list \<Rightarrow>
   ('p eventmap list \<times> string list) res"
where
  "sc_step d fr self name st = (case st of (sets, missing) \<Rightarrow>
     if name = self then Inr (sets, missing)
     else case map_of fr name of
         Some (i, _) \<Rightarrow> rbind (eventOps d i) (\<lambda>m. Inr (sets @ [m], missing))
       | None \<Rightarrow> Inr (sets, missing @ [name]))"

definition has_key :: "('k \<times> 'v) list \<Rightarrow> 'k \<Rightarrow> bool" where
  "has_key m k \<longleftrightarrow> map_of m k \<noteq> None"

definition meet_sets :: "'p eventmap list \<Rightarrow> 'p eventmap" where
  "meet_sets sets = (case sort_key length sets of
     [] \<Rightarrow> []
   | s0 # rest \<Rightarrow>
       foldl (\<lambda>m (k, o1). if list_all (\<lambda>s. has_key s k) (s0 # rest) then AList.update k o1 m else m) [] s0)"

definition stableCut ::
  "('p, 's) dag \<Rightarrow> nat \<Rightarrow> string list \<Rightarrow> string \<Rightarrow> 'p stable_cut res"
where
  "stableCut d headId registered self =
     rbind (frontierOf d headId) (\<lambda>fr.
     rbind (foldM (sc_step d fr self) registered ([], [])) (\<lambda>(sets, missing).
     rbind (if missing \<noteq> [] then Inr []
            else if sets = [] then eventOps d headId
            else Inr (meet_sets sets)) (\<lambda>meet.
       Inr \<lparr>sc_complete = (missing = []), sc_meet = meet, sc_missing = missing,
            sc_frontier = fr\<rparr>)))"

text \<open>
  A commit's payload is one operation or, for a group commit, an array of them. Whether an
  operation is an insert, and of which id, is read off the operation by \<open>ins_of\<close>, which
  the datatype of operations provides.
\<close>

datatype 'o payload = Single 'o | Batch "'o list"

fun payload_ops :: "'o payload \<Rightarrow> 'o list" where
  "payload_ops (Single x) = [x]"
| "payload_ops (Batch xs) = xs"

definition add_ins :: "('o \<Rightarrow> int option) \<Rightarrow> int list \<Rightarrow> 'o \<Rightarrow> int list" where
  "add_ins ins_of ids x = (case ins_of x of None \<Rightarrow> ids | Some i \<Rightarrow> js_add i ids)"

definition insertIds :: "('o \<Rightarrow> int option) \<Rightarrow> 'o payload eventmap \<Rightarrow> int list" where
  "insertIds ins_of meet =
     foldl (\<lambda>ids kv. foldl (add_ins ins_of) ids (payload_ops (op_payload (snd kv)))) [] meet"

section \<open>The frontier is the latest authored commit\<close>

definition authored :: "('p, 's) dag \<Rightarrow> nat \<Rightarrow> string \<Rightarrow> nat \<Rightarrow> bool" where
  "authored d i r q \<longleftrightarrow> (\<exists>c o1. map_of (d_commits d) i = Some c \<and> c_op c = Some o1 \<and>
     op_replica o1 = r \<and> op_seq o1 = q)"

lemma fr_step_Inr:
  "fr_step d i fr = Inr fr' \<longleftrightarrow> (\<exists>c. map_of (d_commits d) i = Some c \<and>
     fr' = (case c_op c of None \<Rightarrow> fr
       | Some o1 \<Rightarrow> (case map_of fr (op_replica o1) of
           None \<Rightarrow> fr_set i o1 fr
         | Some (_, q) \<Rightarrow> if op_seq o1 > q then fr_set i o1 fr else fr)))"
  by (auto simp: fr_step_def rbind_eq_Inr dag_get_Inr)

definition fr_inv :: "('p, 's) dag \<Rightarrow> nat set \<Rightarrow> frontier \<Rightarrow> bool" where
  "fr_inv d S fr \<longleftrightarrow> (\<forall>r. case map_of fr r of
       None \<Rightarrow> (\<forall>i \<in> S. \<forall>q. \<not> authored d i r q)
     | Some (i, q) \<Rightarrow> i \<in> S \<and> authored d i r q \<and> (\<forall>j \<in> S. \<forall>q'. authored d j r q' \<longrightarrow> q' \<le> q))"

lemma fr_inv_step:
  assumes inv: "fr_inv d S fr" and st: "fr_step d i fr = Inr fr'"
  shows "fr_inv d (insert i S) fr'"
proof -
  from st obtain c where c: "map_of (d_commits d) i = Some c" and
    fr': "fr' = (case c_op c of None \<Rightarrow> fr
       | Some o1 \<Rightarrow> (case map_of fr (op_replica o1) of
           None \<Rightarrow> fr_set i o1 fr
         | Some (_, q) \<Rightarrow> if op_seq o1 > q then fr_set i o1 fr else fr))"
    by (auto simp: fr_step_Inr)
  show ?thesis
    unfolding fr_inv_def
  proof
    fix r
    have invr: "case map_of fr r of
       None \<Rightarrow> (\<forall>i \<in> S. \<forall>q. \<not> authored d i r q)
     | Some (i, q) \<Rightarrow> i \<in> S \<and> authored d i r q \<and> (\<forall>j \<in> S. \<forall>q'. authored d j r q' \<longrightarrow> q' \<le> q)"
      using inv unfolding fr_inv_def by blast
    show "case map_of fr' r of
       None \<Rightarrow> (\<forall>j \<in> insert i S. \<forall>q. \<not> authored d j r q)
     | Some (j, q) \<Rightarrow> j \<in> insert i S \<and> authored d j r q \<and>
         (\<forall>k \<in> insert i S. \<forall>q'. authored d k r q' \<longrightarrow> q' \<le> q)"
    proof (cases "\<exists>o1. c_op c = Some o1 \<and> op_replica o1 = r")
      case False
      then have "map_of fr' r = map_of fr r"
        unfolding fr' fr_set_def by (auto simp: update_conv' split: option.split)
      moreover have "\<not> authored d i r q" for q using False c by (auto simp: authored_def)
      ultimately show ?thesis using invr by (auto split: option.splits)
    next
      case True
      then obtain o1 where o1: "c_op c = Some o1" "op_replica o1 = r" by blast
      have auth: "authored d i r q \<longleftrightarrow> q = op_seq o1" for q
        using o1 c by (auto simp: authored_def)
      show ?thesis
        using invr o1 unfolding fr' fr_set_def
        by (auto simp: auth update_conv' split: option.splits)
          (meson le_trans less_imp_le_nat not_less)+
    qed
  qed
qed

lemma fr_inv_fold:
  "foldM (fr_step d) A fr = Inr fr' \<Longrightarrow> fr_inv d S fr \<Longrightarrow> fr_inv d (S \<union> set A) fr'"
proof (induction A arbitrary: S fr)
  case (Cons i A)
  then obtain fr1 where "fr_step d i fr = Inr fr1" and rest: "foldM (fr_step d) A fr1 = Inr fr'"
    by (auto simp: rbind_eq_Inr)
  with Cons have "fr_inv d (insert i S) fr1" by (blast intro: fr_inv_step)
  from Cons.IH [OF rest this] show ?case by simp
qed simp

lemma frontierOf_inv: "frontierOf d h = Inr fr \<Longrightarrow> fr_inv d (dag_anc d h) fr"
proof -
  assume "frontierOf d h = Inr fr"
  then obtain A where A: "dag_ancestorSet d h = Inr A" and f: "foldM (fr_step d) A [] = Inr fr"
    by (auto simp: frontierOf_def rbind_eq_Inr)
  have "fr_inv d {} []" by (simp add: fr_inv_def)
  from fr_inv_fold [OF f this] dag_ancestorSet_set [OF A] show ?thesis by simp
qed

lemma frontierOf_Some:
  assumes "frontierOf d h = Inr fr" and "map_of fr r = Some (i, q)"
  shows "i \<in> dag_anc d h \<and> authored d i r q \<and>
    (\<forall>j q'. j \<in> dag_anc d h \<longrightarrow> authored d j r q' \<longrightarrow> q' \<le> q)"
  using frontierOf_inv [OF assms(1)] assms(2) unfolding fr_inv_def
  by (auto dest!: spec [of _ r])

lemma frontierOf_None:
  assumes "frontierOf d h = Inr fr" and "map_of fr r = None"
  shows "i \<in> dag_anc d h \<Longrightarrow> \<not> authored d i r q"
  using frontierOf_inv [OF assms(1)] assms(2) unfolding fr_inv_def
  by (auto dest!: spec [of _ r])

lemma frontierOf_ok: "dag_has d h \<Longrightarrow> \<exists>fr. frontierOf d h = Inr fr"
proof -
  assume h: "dag_has d h"
  obtain A where A: "dag_ancestorSet d h = Inr A" using dag_ancestorSet_total [OF h] ..
  have "\<forall>a \<in> set A. dag_has d a" using dag_ancestorSet_set [OF A] dag_anc_has [OF h] by auto
  then have "\<exists>fr'. foldM (fr_step d) A fr = Inr fr'" for fr
  proof (induction A arbitrary: fr)
    case (Cons a A)
    then obtain c where "map_of (d_commits d) a = Some c" by (auto simp: dag_has_def)
    then have "\<exists>fr1. fr_step d a fr = Inr fr1" by (simp add: fr_step_Inr)
    with Cons show ?case by auto
  qed simp
  with A show ?thesis by (simp add: frontierOf_def)
qed

section \<open>The event set and the meet\<close>

definition event_in :: "('p, 's) dag \<Rightarrow> nat \<Rightarrow> string \<times> nat \<Rightarrow> bool" where
  "event_in d h k \<longleftrightarrow> (\<exists>i \<in> dag_anc d h. authored d i (fst k) (snd k))"

lemma ev_fold_dom:
  "foldM (ev_step d) A m = Inr m' \<Longrightarrow>
   has_key m' k \<longleftrightarrow> has_key m k \<or> (\<exists>i \<in> set A. authored d i (fst k) (snd k))"
proof (induction A arbitrary: m)
  case (Cons i A)
  then obtain m1 where m1: "ev_step d i m = Inr m1" and rest: "foldM (ev_step d) A m1 = Inr m'"
    by (auto simp: rbind_eq_Inr)
  from m1 obtain c where c: "map_of (d_commits d) i = Some c" and
    "m1 = (case c_op c of None \<Rightarrow> m | Some o1 \<Rightarrow> AList.update (op_replica o1, op_seq o1) o1 m)"
    by (auto simp: ev_step_def rbind_eq_Inr dag_get_Inr)
  then have "has_key m1 k \<longleftrightarrow> has_key m k \<or> authored d i (fst k) (snd k)"
    by (cases k; cases "c_op c") (auto simp: has_key_def authored_def update_conv')
  with Cons.IH [OF rest] show ?case by auto
qed simp

lemma eventOps_dom: "eventOps d h = Inr m \<Longrightarrow> has_key m k \<longleftrightarrow> event_in d h k"
proof -
  assume "eventOps d h = Inr m"
  then obtain A where A: "dag_ancestorSet d h = Inr A" and f: "foldM (ev_step d) A [] = Inr m"
    by (auto simp: eventOps_def rbind_eq_Inr)
  from ev_fold_dom [OF f, of k] dag_ancestorSet_set [OF A] show ?thesis
    by (auto simp: has_key_def event_in_def)
qed

lemma eventOps_ok: "dag_has d h \<Longrightarrow> \<exists>m. eventOps d h = Inr m"
proof -
  assume h: "dag_has d h"
  obtain A where A: "dag_ancestorSet d h = Inr A" using dag_ancestorSet_total [OF h] ..
  have "\<forall>a \<in> set A. dag_has d a" using dag_ancestorSet_set [OF A] dag_anc_has [OF h] by auto
  then have "\<exists>m'. foldM (ev_step d) A m = Inr m'" for m
  proof (induction A arbitrary: m)
    case (Cons a A)
    then obtain c where "dag_get d a = Inr c" using dag_get_has by force
    then have "\<exists>m1. ev_step d a m = Inr m1" by (simp add: ev_step_def)
    with Cons show ?case by auto
  qed simp
  with A show ?thesis by (simp add: eventOps_def)
qed

lemma meet_fold_dom:
  "has_key (foldl (\<lambda>m (k, o1). if P k then AList.update k o1 m else m) m xs) k \<longleftrightarrow>
   has_key m k \<or> (P k \<and> k \<in> fst ` set xs)"
  by (induction xs arbitrary: m) (auto simp: has_key_def update_conv' split: if_splits)

lemma meet_sets_dom:
  assumes "sets \<noteq> []"
  shows "has_key (meet_sets sets) k \<longleftrightarrow> (\<forall>s \<in> set sets. has_key s k)"
proof -
  obtain s0 rest where s: "sort_key length sets = s0 # rest"
    using assms by (cases "sort_key length sets") (auto dest: arg_cong [where f = length])
  then have "set sets = set (s0 # rest)" by (metis set_sort)
  then show ?thesis
    unfolding meet_sets_def s using meet_fold_dom [of "\<lambda>k. list_all (\<lambda>s. has_key s k) (s0 # rest)" "[]" s0 k]
    by (auto simp: list_all_iff has_key_def map_of_eq_None_iff)
qed

lemma sc_fold:
  assumes "foldM (sc_step d fr self) names (sets, missing) = Inr (sets', missing')"
  shows "missing' = missing @ filter (\<lambda>n. n \<noteq> self \<and> map_of fr n = None) names"
    and "\<exists>new. sets' = sets @ new \<and> length new = length (filter (\<lambda>n. n \<noteq> self \<and> map_of fr n \<noteq> None) names)
      \<and> (\<forall>s \<in> set new. \<exists>n \<in> set names. n \<noteq> self \<and> (\<exists>i q. map_of fr n = Some (i, q) \<and> eventOps d i = Inr s))
      \<and> (\<forall>n \<in> set names. n \<noteq> self \<longrightarrow> (\<forall>i q. map_of fr n = Some (i, q) \<longrightarrow>
           (\<exists>s \<in> set new. eventOps d i = Inr s)))"
proof (atomize (full), use assms in \<open>induction names arbitrary: sets missing\<close>)
  case Nil
  then show ?case by simp
next
  case (Cons n names)
  then obtain sets1 missing1 where s1: "sc_step d fr self n (sets, missing) = Inr (sets1, missing1)"
    and rest: "foldM (sc_step d fr self) names (sets1, missing1) = Inr (sets', missing')"
    by (auto simp: rbind_eq_Inr)
  from Cons.IH [OF rest] obtain new where
    m: "missing' = missing1 @ filter (\<lambda>n. n \<noteq> self \<and> map_of fr n = None) names" and
    new: "sets' = sets1 @ new" "length new = length (filter (\<lambda>n. n \<noteq> self \<and> map_of fr n \<noteq> None) names)"
      "\<forall>s \<in> set new. \<exists>n \<in> set names. n \<noteq> self \<and> (\<exists>i q. map_of fr n = Some (i, q) \<and> eventOps d i = Inr s)"
      "\<forall>n \<in> set names. n \<noteq> self \<longrightarrow> (\<forall>i q. map_of fr n = Some (i, q) \<longrightarrow>
           (\<exists>s \<in> set new. eventOps d i = Inr s))"
    by blast
  consider "n = self" | "n \<noteq> self" "map_of fr n = None"
    | i q where "n \<noteq> self" "map_of fr n = Some (i, q)" by (cases "map_of fr n") auto
  then show ?case
  proof cases
    case 1
    with s1 have "sets1 = sets" "missing1 = missing" by (auto simp: sc_step_def)
    with 1 m new show ?thesis by (intro conjI exI [of _ new]) auto
  next
    case 2
    with s1 have "sets1 = sets" "missing1 = missing @ [n]" by (auto simp: sc_step_def)
    with 2 m new show ?thesis by (intro conjI exI [of _ new]) auto
  next
    case 3
    with s1 obtain ev where "eventOps d i = Inr ev" "sets1 = sets @ [ev]" "missing1 = missing"
      by (auto simp: sc_step_def rbind_eq_Inr)
    with 3 m new show ?thesis by (intro conjI exI [of _ "ev # new"]) auto
  qed
qed

text \<open>What \<open>stableCut\<close> certifies.\<close>

lemma stableCut_Inr:
  assumes "stableCut d h names self = Inr sc"
  shows "frontierOf d h = Inr (sc_frontier sc)"
    and "sc_missing sc = filter (\<lambda>n. n \<noteq> self \<and> map_of (sc_frontier sc) n = None) names"
    and "sc_complete sc \<longleftrightarrow> sc_missing sc = []"
    and "\<not> sc_complete sc \<Longrightarrow> sc_meet sc = []"
    and "sc_complete sc \<Longrightarrow> has_key (sc_meet sc) k \<longleftrightarrow> event_in d h k \<and>
       (\<forall>n \<in> set names. n \<noteq> self \<longrightarrow>
          (\<exists>i q. map_of (sc_frontier sc) n = Some (i, q) \<and> event_in d i k))"
proof -
  obtain fr sets missing meet where fr: "frontierOf d h = Inr fr"
    and f: "foldM (sc_step d fr self) names ([], []) = Inr (sets, missing)"
    and meet: "(if missing \<noteq> [] then Inr [] else if sets = [] then eventOps d h
            else Inr (meet_sets sets)) = Inr meet"
    and sc: "sc = \<lparr>sc_complete = (missing = []), sc_meet = meet, sc_missing = missing, sc_frontier = fr\<rparr>"
  proof -
    from assms obtain fr p where "frontierOf d h = Inr fr"
      and p: "foldM (sc_step d fr self) names ([], []) = Inr p"
      and r: "(case p of (sets, missing) \<Rightarrow>
         rbind (if missing \<noteq> [] then Inr [] else if sets = [] then eventOps d h
            else Inr (meet_sets sets)) (\<lambda>meet. Inr \<lparr>sc_complete = (missing = []),
              sc_meet = meet, sc_missing = missing, sc_frontier = fr\<rparr>)) = Inr sc"
      unfolding stableCut_def rbind_eq_Inr by blast
    moreover obtain sets missing where "p = (sets, missing)" by force
    ultimately show thesis using that by (auto simp only: prod.case rbind_eq_Inr sum.inject)
  qed
  note sf = sc_fold [OF f]
  show "frontierOf d h = Inr (sc_frontier sc)"
    and "sc_complete sc \<longleftrightarrow> sc_missing sc = []" by (simp_all add: sc fr)
  show "sc_missing sc = filter (\<lambda>n. n \<noteq> self \<and> map_of (sc_frontier sc) n = None) names"
    using sf(1) by (simp add: sc)
  show "\<not> sc_complete sc \<Longrightarrow> sc_meet sc = []" using meet by (simp add: sc)
  show "sc_complete sc \<Longrightarrow> has_key (sc_meet sc) k \<longleftrightarrow> event_in d h k \<and>
       (\<forall>n \<in> set names. n \<noteq> self \<longrightarrow>
          (\<exists>i q. map_of (sc_frontier sc) n = Some (i, q) \<and> event_in d i k))"
  proof -
    assume "sc_complete sc"
    then have mi: "missing = []" by (simp add: sc)
    obtain new where new: "sets = new"
      "\<forall>s \<in> set new. \<exists>n \<in> set names. n \<noteq> self \<and> (\<exists>i q. map_of fr n = Some (i, q) \<and> eventOps d i = Inr s)"
      "\<forall>n \<in> set names. n \<noteq> self \<longrightarrow> (\<forall>i q. map_of fr n = Some (i, q) \<longrightarrow>
           (\<exists>s \<in> set new. eventOps d i = Inr s))"
      using sf(2) by auto
    have heard: "\<exists>i q. map_of fr n = Some (i, q)" if "n \<in> set names" "n \<noteq> self" for n
    proof -
      have "filter (\<lambda>n. n \<noteq> self \<and> map_of fr n = None) names = []" using sf(1) mi by simp
      then have "n \<in> set names \<Longrightarrow> \<not> (n \<noteq> self \<and> map_of fr n = None)"
        unfolding filter_empty_conv by (rule bspec)
      with that obtain y where "map_of fr n = Some y" by (cases "map_of fr n") simp_all
      then show ?thesis by (cases y) simp
    qed
    have below: "event_in d h k" if "map_of fr n = Some (i, q)" "event_in d i k" for n i q
      using frontierOf_Some [OF fr that(1)] that(2) dag_anc_trans unfolding event_in_def by blast
    show ?thesis
    proof (cases "sets = []")
      case True
      then have "\<forall>n \<in> set names. n = self" using new heard by fastforce
      moreover have "eventOps d h = Inr (sc_meet sc)" using meet mi True by (simp add: sc)
      ultimately show ?thesis using eventOps_dom [of d h "sc_meet sc" k] by auto
    next
      case False
      then have sm: "sc_meet sc = meet_sets sets" using meet mi by (simp add: sc)
      have "has_key (sc_meet sc) k \<longleftrightarrow> (\<forall>n \<in> set names. n \<noteq> self \<longrightarrow>
          (\<exists>i q. map_of fr n = Some (i, q) \<and> event_in d i k))"
        unfolding sm meet_sets_dom [OF False]
      proof (intro iffI ballI impI)
        fix n
        assume a: "\<forall>s \<in> set sets. has_key s k" and n: "n \<in> set names" "n \<noteq> self"
        obtain i q where iq: "map_of fr n = Some (i, q)" using heard [OF n] by auto
        with new(3) n obtain s where "s \<in> set sets" "eventOps d i = Inr s"
          unfolding new(1) by fastforce
        with a iq eventOps_dom [of d i s k]
        show "\<exists>i q. map_of fr n = Some (i, q) \<and> event_in d i k" by auto
      next
        fix s
        assume a: "\<forall>n \<in> set names. n \<noteq> self \<longrightarrow>
            (\<exists>i q. map_of fr n = Some (i, q) \<and> event_in d i k)" and s: "s \<in> set sets"
        then obtain n i q where "n \<in> set names" "n \<noteq> self"
          and i: "map_of fr n = Some (i, q)" "eventOps d i = Inr s"
          using new(2) unfolding new(1) by blast
        with a have "event_in d i k" by fastforce
        with eventOps_dom [OF i(2)] show "has_key s k" by simp
      qed
      moreover have "\<exists>n \<in> set names. n \<noteq> self" using False new by (cases new) auto
      ultimately show ?thesis using below by (auto simp: sc)
    qed
  qed
qed

lemma insertIds_set:
  "set (insertIds ins_of meet) =
   {i. \<exists>kv \<in> set meet. \<exists>x \<in> set (payload_ops (op_payload (snd kv))). ins_of x = Some i}"
proof -
  have inner: "set (foldl (add_ins ins_of) ids xs) = set ids \<union> {i. \<exists>x \<in> set xs. ins_of x = Some i}"
    for ids xs
    by (induction xs arbitrary: ids) (auto simp: add_ins_def split: option.splits)
  have "set (foldl (\<lambda>ids kv. foldl (add_ins ins_of) ids (payload_ops (op_payload (snd kv)))) ids m) =
    set ids \<union> {i. \<exists>kv \<in> set m. \<exists>x \<in> set (payload_ops (op_payload (snd kv))). ins_of x = Some i}"
    for ids and m :: "'a payload eventmap"
    by (induction m arbitrary: ids) (auto simp: inner)
  then show ?thesis by (simp add: insertIds_def)
qed

section \<open>Properties\<close>

text \<open>C6: the frontier at a head names, for every replica, an authored commit in the head's
  ancestry with the greatest sequence number there, and has no entry exactly for the replicas
  that authored nothing there.\<close>

theorem frontier_is_latest:
  assumes "dag_has d h"
  shows "\<exists>fr. frontierOf d h = Inr fr \<and> (\<forall>r. case map_of fr r of
       None \<Rightarrow> \<forall>i \<in> dag_anc d h. \<forall>q. \<not> authored d i r q
     | Some (i, q) \<Rightarrow> i \<in> dag_anc d h \<and> authored d i r q \<and>
         (\<forall>j \<in> dag_anc d h. \<forall>q'. authored d j r q' \<longrightarrow> q' \<le> q))"
proof -
  obtain fr where fr: "frontierOf d h = Inr fr" using frontierOf_ok [OF assms] ..
  with frontierOf_inv [OF fr] show ?thesis by (auto simp: fr_inv_def)
qed

theorem frontier_is_latest_witness:
  "\<exists>fr. frontierOf diamond 3 = Inr fr \<and> (\<forall>r. case map_of fr r of
       None \<Rightarrow> \<forall>i \<in> dag_anc diamond 3. \<forall>q. \<not> authored diamond i r q
     | Some (i, q) \<Rightarrow> i \<in> dag_anc diamond 3 \<and> authored diamond i r q \<and>
         (\<forall>j \<in> dag_anc diamond 3. \<forall>q'. authored diamond j r q' \<longrightarrow> q' \<le> q))"
  by (rule frontier_is_latest) (simp add: dag_has_def diamond_def)

text \<open>C7: the certificate of \<open>stableCut\<close>. A registered name other than the compacting replica
  that authored nothing in the head's ancestry is reported missing; with any name missing the cut
  is empty; with none missing the cut holds exactly the events that lie in the ancestry of the
  head and of the frontier commit of every other registered name.\<close>

theorem stableCut_certifies:
  assumes "stableCut d h names self = Inr sc"
  shows "(\<forall>n. n \<in> set (sc_missing sc) \<longleftrightarrow> n \<in> set names \<and> n \<noteq> self \<and>
      (\<forall>i \<in> dag_anc d h. \<forall>q. \<not> authored d i n q)) \<and>
    (sc_missing sc \<noteq> [] \<longrightarrow> \<not> sc_complete sc \<and> sc_meet sc = []) \<and>
    (sc_missing sc = [] \<longrightarrow> sc_complete sc \<and>
      (\<forall>k. has_key (sc_meet sc) k \<longleftrightarrow> event_in d h k \<and>
         (\<forall>n \<in> set names. n \<noteq> self \<longrightarrow>
            (\<exists>i q. map_of (sc_frontier sc) n = Some (i, q) \<and> event_in d i k))))"
proof -
  note s = stableCut_Inr [OF assms]
  have "map_of (sc_frontier sc) n = None \<longleftrightarrow> (\<forall>i \<in> dag_anc d h. \<forall>q. \<not> authored d i n q)" for n
    using frontierOf_inv [OF s(1)] unfolding fr_inv_def
    by (cases "map_of (sc_frontier sc) n") (fastforce dest!: spec [of _ n])+
  then have "n \<in> set (sc_missing sc) \<longleftrightarrow> n \<in> set names \<and> n \<noteq> self \<and>
      (\<forall>i \<in> dag_anc d h. \<forall>q. \<not> authored d i n q)" for n
    by (simp add: s(2))
  with s(3-5) show ?thesis by simp
qed

theorem stableCut_certifies_witness:
  "\<exists>sc. stableCut diamond 3 [''a'', ''b'', ''c''] ''a'' = Inr sc \<and> sc_missing sc = [''c''] \<and>
    (\<forall>n. n \<in> set (sc_missing sc) \<longleftrightarrow> n \<in> set [''a'', ''b'', ''c''] \<and> n \<noteq> ''a'' \<and>
      (\<forall>i \<in> dag_anc diamond 3. \<forall>q. \<not> authored diamond i n q)) \<and>
    (sc_missing sc \<noteq> [] \<longrightarrow> \<not> sc_complete sc \<and> sc_meet sc = []) \<and>
    (sc_missing sc = [] \<longrightarrow> sc_complete sc \<and>
      (\<forall>k. has_key (sc_meet sc) k \<longleftrightarrow> event_in diamond 3 k \<and>
         (\<forall>n \<in> set [''a'', ''b'', ''c'']. n \<noteq> ''a'' \<longrightarrow>
            (\<exists>i q. map_of (sc_frontier sc) n = Some (i, q) \<and> event_in diamond i k))))"
proof -
  have A: "dag_ancestorSet diamond 3 = Inr [3, 1, 2, 0]" "dag_ancestorSet diamond 2 = Inr [2, 0]"
    by (simp_all add: dag_ancestorSet_def dag_get_def dag_ids_def dag_parents_of_def diamond_def
        worklist.simps(2))
  have fr: "frontierOf diamond 3 = Inr [(''a'', (1, 1)), (''b'', (2, 1))]"
    unfolding frontierOf_def A
    by (simp add: fr_step_def fr_set_def dag_get_def diamond_def op_of_def)
  have ev: "eventOps diamond 2 = Inr [((''b'', 1), the (op_of ''b'' 1))]"
    unfolding eventOps_def A by (simp add: ev_step_def dag_get_def diamond_def op_of_def)
  have "\<exists>sc. stableCut diamond 3 [''a'', ''b'', ''c''] ''a'' = Inr sc \<and> sc_missing sc = [''c'']"
    unfolding stableCut_def fr by (simp add: sc_step_def ev)
  then obtain sc where sc: "stableCut diamond 3 [''a'', ''b'', ''c''] ''a'' = Inr sc"
    "sc_missing sc = [''c'']" by (elim exE conjE)
  show ?thesis by (rule exI [of _ sc], intro conjI sc stableCut_certifies [OF sc(1)])
qed

end
