(* ===== verification/Mint.thy ===== *)
theory Mint
  imports Prelude
begin

text \<open>
  The Lamport minting of \<^verbatim>\<open>runtime/src/mint.js\<close>: a clock owns a slot below the stride and
  hands out \<open>counter * stride + slot\<close>. Numbers are integral JavaScript numbers, modelled as
  unbounded integers with the \<open>isSafeInteger\<close> checks written out; while every value is safe
  the double arithmetic of the source is exact. The lemmas show that a clock's times
  strictly increase, exceed every observed time, stay safe, and never collide with the
  times of a clock on another slot.
\<close>

section \<open>The clock\<close>

record mint =
  m_slot :: int
  m_counter :: int
  m_stride :: int

definition DEFAULT_MINT_STRIDE :: int where
  "DEFAULT_MINT_STRIDE = 1000000"

definition natural :: "int \<Rightarrow> string \<Rightarrow> int res" where
  "natural n label =
     (if \<not> is_safe n \<or> n < 0 then Inl (TypeError (label @ '' must be a non-negative safe integer''))
      else Inr n)"

definition mk_mint :: "int \<Rightarrow> int \<Rightarrow> int \<Rightarrow> mint res" where
  "mk_mint slot counter stride =
     rbind (natural stride ''mint stride'') (\<lambda>_.
     if stride < 2 then Inl (RangeError ''mint stride must be at least 2'')
     else rbind (natural slot ''mint slot'') (\<lambda>_.
       if slot = 0 \<or> slot \<ge> stride then Inl (RangeError ''mint slot must be in [1, stride)'')
       else rbind (natural counter ''mint counter'') (\<lambda>c.
         Inr \<lparr>m_slot = slot, m_counter = c, m_stride = stride\<rparr>)))"

text \<open>\<open>observe\<close> ignores what is not a non-negative safe integer; \<open>None\<close> stands for
  \<^verbatim>\<open>undefined\<close> and \<^verbatim>\<open>null\<close>.\<close>

definition mint_observe :: "mint \<Rightarrow> int option \<Rightarrow> mint" where
  "mint_observe m time = (case time of
       None \<Rightarrow> m
     | Some t \<Rightarrow> if \<not> is_safe t \<or> t < 0 then m
         else m\<lparr>m_counter := max (m_counter m) (t div m_stride m)\<rparr>)"

definition mint_next :: "mint \<Rightarrow> (int \<times> mint) res" where
  "mint_next m = (let counter = m_counter m + 1;
                      time = counter * m_stride m + m_slot m
     in if \<not> is_safe time then Inl (RangeError ''Lamport mint exhausted JavaScript safe integers'')
        else Inr (time, m\<lparr>m_counter := counter\<rparr>))"

section \<open>Operations that carry a time\<close>

text \<open>
  The fields of an operation object that this module reads and writes; an absent field is
  \<open>None\<close>. The remaining fields are the datatype's and pass through.
\<close>

datatype op_type = TIns | TDel | TAddMark | TRemoveMark | TOther

record 'x timed_op =
  t_type :: op_type
  t_id :: "int option"
  t_time :: "int option"
  t_mid :: "int option"
  t_ts :: "int option"
  t_rest :: 'x

definition operationTime :: "'x timed_op \<Rightarrow> int option" where
  "operationTime op1 = (case t_type op1 of
       TIns \<Rightarrow> t_id op1
     | TAddMark \<Rightarrow> (case t_mid op1 of Some i \<Rightarrow> Some i | None \<Rightarrow> t_ts op1)
     | TRemoveMark \<Rightarrow> (case t_mid op1 of Some i \<Rightarrow> Some i | None \<Rightarrow> t_ts op1)
     | TDel \<Rightarrow> t_time op1
     | TOther \<Rightarrow> t_time op1)"

text \<open>A payload is a single operation or an array of them; both are observed in order.\<close>

definition observePayload :: "mint \<Rightarrow> 'x timed_op list \<Rightarrow> mint" where
  "observePayload m ops = foldl (\<lambda>m op1. mint_observe m (operationTime op1)) m ops"

definition stampOperation :: "mint \<Rightarrow> 'x timed_op \<Rightarrow> ('x timed_op \<times> mint) res" where
  "stampOperation m op1 = rbind (mint_next m) (\<lambda>(time, m').
     Inr (case t_type op1 of
         TIns \<Rightarrow> op1\<lparr>t_id := Some time\<rparr>
       | TDel \<Rightarrow> op1\<lparr>t_time := Some time\<rparr>
       | TAddMark \<Rightarrow> op1\<lparr>t_mid := Some time, t_ts := Some time\<rparr>
       | TRemoveMark \<Rightarrow> op1\<lparr>t_mid := Some time, t_ts := Some time\<rparr>
       | TOther \<Rightarrow> op1\<lparr>t_time := Some time\<rparr>, m'))"

section \<open>The clock invariant\<close>

definition mint_wf :: "mint \<Rightarrow> bool" where
  "mint_wf m \<longleftrightarrow> 1 \<le> m_slot m \<and> m_slot m < m_stride m \<and> 2 \<le> m_stride m \<and> 0 \<le> m_counter m"

lemma mk_mint_wf: "mk_mint slot counter stride = Inr m \<Longrightarrow> mint_wf m"
  by (auto simp: mk_mint_def natural_def mint_wf_def rbind_eq_Inr split: if_splits)

lemma mint_observe_fields [simp]:
  "m_slot (mint_observe m t) = m_slot m" "m_stride (mint_observe m t) = m_stride m"
  by (auto simp: mint_observe_def split: option.split)

lemma mint_observe_counter: "m_counter m \<le> m_counter (mint_observe m t)"
  by (auto simp: mint_observe_def split: option.split)

lemma mint_observe_wf: "mint_wf m \<Longrightarrow> mint_wf (mint_observe m t)"
  using mint_observe_counter [of m t] by (simp add: mint_wf_def)

lemma mint_next_Inr:
  "mint_next m = Inr (t, m') \<longleftrightarrow>
   t = (m_counter m + 1) * m_stride m + m_slot m \<and> is_safe t \<and>
   m' = m\<lparr>m_counter := m_counter m + 1\<rparr>"
  by (auto simp: mint_next_def Let_def)

lemma mint_next_wf: "mint_wf m \<Longrightarrow> mint_next m = Inr (t, m') \<Longrightarrow> mint_wf m'"
  by (auto simp: mint_next_Inr mint_wf_def)

text \<open>A run of a clock: observations interleaved with minted times.\<close>

datatype mint_event = Observe "int option" | Mint

fun mint_run :: "mint \<Rightarrow> mint_event list \<Rightarrow> (int list \<times> mint) res" where
  "mint_run m [] = Inr ([], m)"
| "mint_run m (Observe t # es) = mint_run (mint_observe m t) es"
| "mint_run m (Mint # es) =
     rbind (mint_next m) (\<lambda>(t, m'). rbind (mint_run m' es) (\<lambda>(ts, m''). Inr (t # ts, m'')))"

lemma mint_run_spec:
  assumes "mint_wf m" and "mint_run m es = Inr (ts, m')"
  shows "mint_wf m' \<and> m_slot m' = m_slot m \<and> m_stride m' = m_stride m \<and>
    m_counter m \<le> m_counter m' \<and> sorted_wrt (<) ts \<and>
    (\<forall>t \<in> set ts. m_counter m * m_stride m + m_slot m < t \<and> is_safe t \<and>
       t mod m_stride m = m_slot m \<and> t \<le> m_counter m' * m_stride m + m_slot m)"
  using assms
proof (induction m es arbitrary: ts rule: mint_run.induct)
  case (1 m)
  then show ?case by auto
next
  case (2 m t es)
  let ?m = "mint_observe m t"
  have "mint_wf ?m" using "2.prems"(1) by (rule mint_observe_wf)
  from "2.IH" [OF this] "2.prems"(2) have IH: "mint_wf m' \<and> m_slot m' = m_slot m \<and>
    m_stride m' = m_stride m \<and> m_counter ?m \<le> m_counter m' \<and> sorted_wrt (<) ts \<and>
    (\<forall>t \<in> set ts. m_counter ?m * m_stride m + m_slot m < t \<and> is_safe t \<and>
       t mod m_stride m = m_slot m \<and> t \<le> m_counter m' * m_stride m + m_slot m)" by simp
  have "m_counter m * m_stride m \<le> m_counter ?m * m_stride m"
    using mint_observe_counter "2.prems"(1) by (intro mult_right_mono) (auto simp: mint_wf_def)
  with IH mint_observe_counter [of m t] show ?case by fastforce
next
  case (3 m es)
  from "3.prems"(2) obtain t m1 ts1 where n: "mint_next m = Inr (t, m1)"
    and r: "mint_run m1 es = Inr (ts1, m')" and ts: "ts = t # ts1"
    by (auto simp: rbind_eq_Inr)
  have t: "t = (m_counter m + 1) * m_stride m + m_slot m" "is_safe t"
    "m_counter m1 = m_counter m + 1" "m_slot m1 = m_slot m" "m_stride m1 = m_stride m"
    using n by (auto simp: mint_next_Inr)
  have wf1: "mint_wf m1" using "3.prems"(1) n by (rule mint_next_wf)
  note IH = "3.IH" [OF n refl wf1 r]
  have "m_slot m mod m_stride m = m_slot m" using "3.prems"(1) by (simp add: mint_wf_def)
  then have "t mod m_stride m = m_slot m" by (simp add: t(1))
  moreover have "m_counter m * m_stride m + m_slot m < t"
    using "3.prems"(1) by (simp add: t(1) mint_wf_def distrib_right)
  moreover have "(m_counter m + 1) * m_stride m \<le> m_counter m' * m_stride m"
    using IH t(3) "3.prems"(1) by (intro mult_right_mono) (auto simp: mint_wf_def)
  ultimately show ?case using IH t by (auto simp: ts)
qed

lemma mint_next_after_observe:
  assumes "mint_wf m" and "is_safe t" and "0 \<le> t"
    and "mint_next (mint_observe m (Some t)) = Inr (t', m')"
  shows "t < t'"
proof -
  let ?m = "mint_observe m (Some t)"
  have s: "0 < m_stride m" using assms(1) by (simp add: mint_wf_def)
  have "t div m_stride m \<le> m_counter ?m" using assms(2,3) by (simp add: mint_observe_def)
  then have "(t div m_stride m + 1) * m_stride m \<le> (m_counter ?m + 1) * m_stride m"
    using s by (intro mult_right_mono) auto
  moreover have "t < (t div m_stride m + 1) * m_stride m"
  proof -
    have "t = t div m_stride m * m_stride m + t mod m_stride m" by simp
    moreover have "t mod m_stride m < m_stride m" using s by simp
    moreover have "(t div m_stride m + 1) * m_stride m = t div m_stride m * m_stride m + m_stride m"
      by (simp add: distrib_right)
    ultimately show ?thesis by linarith
  qed
  moreover have "1 \<le> m_slot m" using assms(1) by (simp add: mint_wf_def)
  ultimately show ?thesis using assms(4) by (auto simp: mint_next_Inr)
qed

text \<open>A time determines the slot it was minted on.\<close>

lemma mint_runs_disjoint:
  assumes "mint_wf m1" and "mint_wf m2" and "m_stride m1 = m_stride m2" and "m_slot m1 \<noteq> m_slot m2"
    and "mint_run m1 es1 = Inr (ts1, m1')" and "mint_run m2 es2 = Inr (ts2, m2')"
  shows "set ts1 \<inter> set ts2 = {}"
proof -
  from mint_run_spec [OF assms(1,5)] have "\<forall>t \<in> set ts1. t mod m_stride m1 = m_slot m1" by blast
  moreover from mint_run_spec [OF assms(2,6)] have "\<forall>t \<in> set ts2. t mod m_stride m2 = m_slot m2"
    by blast
  ultimately show ?thesis using assms(3,4) by auto
qed

lemma mint_observe_payload_wf: "mint_wf m \<Longrightarrow> mint_wf (observePayload m ops)"
  unfolding observePayload_def by (induction ops arbitrary: m) (auto intro: mint_observe_wf)

lemma stampOperation_time:
  "stampOperation m op1 = Inr (op2, m') \<Longrightarrow>
   \<exists>t. mint_next m = Inr (t, m') \<and> operationTime op2 = Some t \<and> t_type op2 = t_type op1 \<and>
     t_rest op2 = t_rest op1"
proof -
  assume a: "stampOperation m op1 = Inr (op2, m')"
  then obtain t where n: "mint_next m = Inr (t, m')"
    by (auto simp: stampOperation_def rbind_eq_Inr)
  with a show ?thesis
    by (cases "t_type op1") (auto simp: stampOperation_def operationTime_def)
qed

section \<open>Properties\<close>

text \<open>C8: times never collide. Over any interleaving of observations and mints, the times of one
  clock strictly increase, stay safe integers and exceed what the clock had seen; the times of two
  clocks of the same stride on different slots are disjoint.\<close>

theorem mint_times_unique:
  assumes "mk_mint s1 c1 k = Inr m1" and "mk_mint s2 c2 k = Inr m2" and "s1 \<noteq> s2"
    and "mint_run m1 es1 = Inr (ts1, m1')" and "mint_run m2 es2 = Inr (ts2, m2')"
  shows "sorted_wrt (<) ts1 \<and> (\<forall>t \<in> set ts1. is_safe t \<and> c1 * k + s1 < t) \<and>
    set ts1 \<inter> set ts2 = {}"
proof -
  have f: "m_slot m1 = s1" "m_slot m2 = s2" "m_stride m1 = k" "m_stride m2 = k" "m_counter m1 = c1"
    using assms(1,2) by (auto simp: mk_mint_def natural_def rbind_eq_Inr split: if_splits)
  have wf: "mint_wf m1" "mint_wf m2" using assms(1,2) mk_mint_wf by auto
  from mint_run_spec [OF wf(1) assms(4)] mint_runs_disjoint [OF wf _ _ assms(4,5)] f assms(3)
  show ?thesis by auto
qed

theorem mint_times_unique_witness:
  "\<exists>m1 m2 m1' m2'. mk_mint 1 0 10 = Inr m1 \<and> mk_mint 2 0 10 = Inr m2 \<and>
    mint_run m1 [Mint, Observe (Some 57), Mint] = Inr ([11, 61], m1') \<and>
    mint_run m2 [Mint, Mint] = Inr ([12, 22], m2') \<and>
    (sorted_wrt (<) [11, 61 :: int] \<and> (\<forall>t \<in> set [11, 61]. is_safe t \<and> 0 * 10 + 1 < t) \<and>
     set [11, 61] \<inter> set [12, 22 :: int] = {})"
proof -
  have e: "mk_mint 1 0 10 = Inr \<lparr>m_slot = 1, m_counter = 0, m_stride = 10\<rparr>"
    "mk_mint 2 0 10 = Inr \<lparr>m_slot = 2, m_counter = 0, m_stride = 10\<rparr>"
    "mint_run \<lparr>m_slot = 1, m_counter = 0, m_stride = 10\<rparr> [Mint, Observe (Some 57), Mint]
      = Inr ([11, 61], \<lparr>m_slot = 1, m_counter = 6, m_stride = 10\<rparr>)"
    "mint_run \<lparr>m_slot = 2, m_counter = 0, m_stride = 10\<rparr> [Mint, Mint]
      = Inr ([12, 22], \<lparr>m_slot = 2, m_counter = 2, m_stride = 10\<rparr>)"
    by (simp_all add: mk_mint_def natural_def mint_next_def mint_observe_def is_safe_def max_safe_def)
  show ?thesis using e mint_times_unique [OF e(1,2) _ e(3,4)] by simp
qed

lemma observePayload_counter:
  "m_counter m \<le> m_counter (observePayload m ops) \<and> m_stride (observePayload m ops) = m_stride m
   \<and> m_slot (observePayload m ops) = m_slot m"
proof (induction ops arbitrary: m)
  case (Cons x xs)
  from Cons.IH [of "mint_observe m (operationTime x)"] mint_observe_counter [of m "operationTime x"]
  show ?case by (auto simp: observePayload_def intro: order_trans)
qed (simp add: observePayload_def)

lemma observePayload_covers:
  assumes "mint_wf m" and "x \<in> set ops" and "operationTime x = Some t" and "is_safe t" and "0 \<le> t"
  shows "t div m_stride m \<le> m_counter (observePayload m ops)"
  using assms(1,2)
proof (induction ops arbitrary: m)
  case (Cons y ys)
  have o: "observePayload m (y # ys) = observePayload (mint_observe m (operationTime y)) ys"
    by (simp add: observePayload_def)
  show ?case
  proof (cases "x = y")
    case True
    then have "t div m_stride m \<le> m_counter (mint_observe m (operationTime y))"
      using assms(3-5) by (simp add: mint_observe_def)
    with observePayload_counter [of "mint_observe m (operationTime y)" ys] show ?thesis
      by (simp add: o)
  next
    case False
    with Cons.prems Cons.IH [of "mint_observe m (operationTime y)"] show ?thesis
      by (simp add: o mint_observe_wf)
  qed
qed simp

text \<open>A stamped operation is later than every time the clock has observed. After observing a
  payload, the time that \<open>stampOperation\<close> writes is read back by \<open>operationTime\<close> and exceeds every
  valid time in the payload, and the rest of the operation is untouched.\<close>

theorem stamp_after_observed:
  assumes wf: "mint_wf m" and st: "stampOperation (observePayload m ops) op1 = Inr (op2, m')"
  shows "\<exists>t. operationTime op2 = Some t \<and> is_safe t \<and> t_type op2 = t_type op1 \<and>
    t_rest op2 = t_rest op1 \<and>
    (\<forall>x \<in> set ops. \<forall>u. operationTime x = Some u \<longrightarrow> is_safe u \<longrightarrow> 0 \<le> u \<longrightarrow> u < t)"
proof -
  let ?m = "observePayload m ops"
  obtain t where n: "mint_next ?m = Inr (t, m')" and t: "operationTime op2 = Some t"
    "t_type op2 = t_type op1" "t_rest op2 = t_rest op1"
    using stampOperation_time [OF st] by blast
  have f: "m_stride ?m = m_stride m" "m_slot ?m = m_slot m" using observePayload_counter by auto
  have "u < t" if x: "x \<in> set ops" "operationTime x = Some u" "is_safe u" "0 \<le> u" for x u
  proof (rule mint_next_after_observe [OF mint_observe_payload_wf [OF wf] x(3,4)])
    have "u div m_stride m \<le> m_counter ?m" by (rule observePayload_covers [OF wf x])
    then have "mint_observe ?m (Some u) = ?m" using f by (simp add: mint_observe_def)
    then show "mint_next (mint_observe ?m (Some u)) = Inr (t, m')" using n by simp
  qed
  with t n show ?thesis by (auto simp: mint_next_Inr)
qed

theorem stamp_after_observed_witness:
  "\<exists>op2 m'. stampOperation (observePayload \<lparr>m_slot = 1, m_counter = 0, m_stride = 10\<rparr>
       [\<lparr>t_type = TIns, t_id = Some 57, t_time = None, t_mid = None, t_ts = None, t_rest = ()\<rparr>])
       \<lparr>t_type = TDel, t_id = None, t_time = None, t_mid = None, t_ts = None, t_rest = ()\<rparr> = Inr (op2, m') \<and>
     (\<exists>t. operationTime op2 = Some t \<and> is_safe t \<and> t_type op2 = TDel \<and> 57 < t)"
proof -
  let ?m = "\<lparr>m_slot = 1, m_counter = 0, m_stride = 10 :: int\<rparr>"
  let ?x = "\<lparr>t_type = TIns, t_id = Some 57, t_time = None, t_mid = None, t_ts = None, t_rest = ()\<rparr>"
  let ?y = "\<lparr>t_type = TDel, t_id = None, t_time = None, t_mid = None, t_ts = None, t_rest = ()\<rparr>"
  obtain op2 m' where s: "stampOperation (observePayload ?m [?x]) ?y = Inr (op2, m')"
    by (simp add: stampOperation_def observePayload_def operationTime_def mint_observe_def
        mint_next_def is_safe_def max_safe_def)
  have "mint_wf ?m" by (simp add: mint_wf_def)
  from stamp_after_observed [OF this s] s show ?thesis
    by (auto simp: operationTime_def is_safe_def max_safe_def)
qed

end
