(* ===== verification/PopCount.thy ===== *)
theory PopCount
  imports Main "HOL-Library.Word"
begin

unbundle bit_operations_syntax

text \<open>
  The bit-parallel \<open>popcount\<close> of \<^verbatim>\<open>runtime/src/pmap.js\<close> on 32-bit words, and the proof that
  it counts the set bits. A word is read as a list of fields in Horner form; masking,
  shifting and adding then act field by field.
\<close>

definition popcount :: "32 word \<Rightarrow> 32 word" where
  "popcount x =
     (let x1 = x - (drop_bit 1 x AND 0x55555555);
          x2 = (x1 AND 0x33333333) + (drop_bit 2 x1 AND 0x33333333);
          x3 = (x2 + drop_bit 4 x2) AND 0x0f0f0f0f
      in drop_bit 24 (x3 * 0x01010101))"

section \<open>Fields of a number\<close>

fun fields :: "nat \<Rightarrow> nat list \<Rightarrow> nat" where
  "fields w [] = 0"
| "fields w (d # ds) = d + 2 ^ w * fields w ds"

lemma fields_bound: "\<forall>d \<in> set ds. d < 2 ^ w \<Longrightarrow> fields w ds < 2 ^ (w * length ds)"
proof (induction ds)
  case (Cons d ds)
  then have "d < 2 ^ w" "fields w ds + 1 \<le> 2 ^ (w * length ds)" by auto
  then have "d + 2 ^ w * fields w ds < 2 ^ w * (fields w ds + 1)" by simp
  also have "\<dots> \<le> 2 ^ w * 2 ^ (w * length ds)"
    using \<open>fields w ds + 1 \<le> 2 ^ (w * length ds)\<close> by (intro mult_le_mono2)
  finally show ?case by (simp add: power_add)
qed simp

lemma fields_add:
  "length ds = length es \<Longrightarrow> fields w ds + fields w es = fields w (map2 (+) ds es)"
  by (induction ds es rule: list_induct2) (auto simp flip: distrib_left)

lemma fields_div: "d < 2 ^ w \<Longrightarrow> fields w (d # ds) div 2 ^ w = fields w ds"
  by simp

lemma and_split:
  fixes a c m n :: nat
  assumes "a < 2 ^ w" and "c < 2 ^ w"
  shows "(a + 2 ^ w * m) AND (c + 2 ^ w * n) = (a AND c) + 2 ^ w * (m AND n)"
proof -
  let ?x = "a + 2 ^ w * m" and ?y = "c + 2 ^ w * n"
  have tx: "take_bit w ?x = a" "drop_bit w ?x = m"
    using assms(1) by (simp_all add: take_bit_eq_mod drop_bit_eq_div)
  have ty: "take_bit w ?y = c" "drop_bit w ?y = n"
    using assms(2) by (simp_all add: take_bit_eq_mod drop_bit_eq_div)
  have "?x AND ?y = take_bit w (?x AND ?y) + push_bit w (drop_bit w (?x AND ?y))"
    by (rule bits_ident [symmetric, THEN trans]) (simp add: add.commute)
  also have "\<dots> = (a AND c) + 2 ^ w * (m AND n)"
    unfolding take_bit_and drop_bit_and tx ty push_bit_eq_mult by (simp add: mult.commute)
  finally show ?thesis .
qed

lemma and_keep: "(d::nat) < 2 ^ w \<Longrightarrow> d AND (2 ^ w - 1) = d"
  unfolding mask_eq_exp_minus_1 [symmetric] take_bit_eq_mask [symmetric]
  by (rule take_bit_nat_eq_self)

section \<open>The set bits of a word\<close>

definition bits :: "32 word \<Rightarrow> nat list" where
  "bits x = filter (bit x) [0..<32]"

definition bval :: "32 word \<Rightarrow> nat \<Rightarrow> nat" where
  "bval x i = of_bool (bit x i)"

lemma bval_le: "bval x i \<le> 1"
  by (simp add: bval_def)

lemma upt32: "[0..<32] = [0, 1, 2, 3, 4, 5, 6, 7, 8, 9, 10, 11, 12, 13, 14, 15, 16, 17, 18, 19,
    20, 21, 22, 23, 24, 25, 26, 27, 28, 29, 30, 31 :: nat]"
  by (simp add: upt_conv_Cons)

lemma length_bits: "length (bits x) = (\<Sum>i \<leftarrow> [0..<32]. bval x i)"
proof -
  have "length (filter P xs) = (\<Sum>i \<leftarrow> xs. of_bool (P i))" for P :: "nat \<Rightarrow> bool" and xs
    by (induction xs) auto
  then show ?thesis by (simp add: bits_def bval_def)
qed

lemma unat_fields: "unat x = fields 1 (map (bval x) [0..<32])"
proof -
  have h1: "horner_sum f 2 xs = fields 1 (map f xs)" for f :: "nat \<Rightarrow> nat" and xs
    by (induction xs) auto
  have "unat x = take_bit 32 (unat x)"
    by (rule take_bit_nat_eq_self [symmetric]) (use unsigned_less [of x, where 'a = nat] in simp)
  also have "\<dots> = horner_sum of_bool 2 (map (bit (unat x)) [0..<32])"
    by (rule horner_sum_bit_eq_take_bit [symmetric])
  also have "\<dots> = horner_sum (bval x) 2 [0..<32]"
    by (simp add: bval_def bit_unsigned_iff horner_sum_eq_sum)
  also have "\<dots> = fields 1 (map (bval x) [0..<32])"
    by (simp add: h1)
  finally show ?thesis .
qed

section \<open>Even and odd fields\<close>

fun evens :: "nat list \<Rightarrow> nat list" where
  "evens (a # b # ds) = a # evens ds"
| "evens ds = []"

fun odds :: "nat list \<Rightarrow> nat list" where
  "odds (a # b # ds) = b # odds ds"
| "odds ds = []"

definition halve :: "nat list \<Rightarrow> nat list" where
  "halve ds = map2 (+) (evens ds) (odds ds)"

lemma halve_simps [simp]:
  "halve [] = []" "halve (a # b # ds) = (a + b) # halve ds"
  by (simp_all add: halve_def)

lemma length_evens_odds [simp]: "length (evens ds) = length ds div 2" "length (odds ds) = length ds div 2"
  by (induction ds rule: evens.induct) auto

lemma length_halve [simp]: "length (halve ds) = length ds div 2"
  by (simp add: halve_def)

lemma halve_bound: "\<forall>d \<in> set ds. d \<le> n \<Longrightarrow> \<forall>d \<in> set (halve ds). d \<le> 2 * n"
  by (induction ds rule: evens.induct) (auto simp: halve_def)

lemma halve_sum: "even (length ds) \<Longrightarrow> sum_list (halve ds) = sum_list ds"
  by (induction ds rule: evens.induct) auto

lemma fields_evens_odds:
  "even (length ds) \<Longrightarrow> fields w ds = fields (2 * w) (evens ds) + 2 ^ w * fields (2 * w) (odds ds)"
proof (induction ds rule: evens.induct)
  case (1 a b ds)
  have "(2::nat) ^ (2 * w) = 2 ^ w * 2 ^ w" by (simp add: power_add mult_2)
  with 1 show ?case by (simp add: algebra_simps)
qed auto

lemma fields_halve:
  "fields w (evens ds) + fields w (odds ds) = fields w (halve ds)"
  by (simp add: halve_def fields_add)

lemma and_low: "(a + 2 ^ w * b) AND (2 ^ w - 1) = a" if "a < 2 ^ w" for a b :: nat
  using that unfolding mask_eq_exp_minus_1 [symmetric] take_bit_eq_mask [symmetric]
  by (simp add: take_bit_eq_mod)

lemma and_evens:
  assumes "length ds = 2 * n" and "\<forall>d \<in> set ds. d < 2 ^ w"
  shows "fields w ds AND fields (2 * w) (replicate n (2 ^ w - 1)) = fields (2 * w) (evens ds)"
  using assms
proof (induction ds arbitrary: n rule: evens.induct)
  case (1 a b ds)
  then obtain k where k: "n = Suc k" by (cases n) auto
  have sq: "(2::nat) ^ (2 * w) = 2 ^ w * 2 ^ w" by (simp add: power_add mult_2)
  have ab: "a < 2 ^ w" "b + 1 \<le> 2 ^ w" using 1 by auto
  have "a + 2 ^ w * b < 2 ^ w * (b + 1)" using ab by simp
  also have "\<dots> \<le> 2 ^ w * 2 ^ w" using ab(2) by (intro mult_le_mono2)
  finally have lt: "a + 2 ^ w * b < 2 ^ (2 * w)" by (simp add: sq)
  have lm: "2 ^ w - 1 < (2::nat) ^ (2 * w)"
    by (rule order_less_le_trans [of _ "2 ^ w"]) simp_all
  have "fields w (a # b # ds) = (a + 2 ^ w * b) + 2 ^ (2 * w) * fields w ds"
    unfolding sq by (simp add: algebra_simps)
  moreover have "fields w ds AND fields (2 * w) (replicate k (2 ^ w - 1)) = fields (2 * w) (evens ds)"
    using 1 k by auto
  moreover have "fields (2 * w) (replicate n (2 ^ w - 1))
      = (2 ^ w - 1) + 2 ^ (2 * w) * fields (2 * w) (replicate k (2 ^ w - 1))"
    by (simp only: k replicate_Suc fields.simps)
  ultimately show ?case
    by (simp only: and_split [OF lt lm] and_low [OF ab(1)] evens.simps fields.simps)
qed auto

lemma fields_hd: "fields w ds = hd (ds @ [0]) + 2 ^ w * fields w (tl ds)"
  by (cases ds) auto

lemma and_odds:
  assumes "length ds = 2 * n" and "\<forall>d \<in> set ds. d < 2 ^ w"
  shows "fields w ds div 2 ^ w AND fields (2 * w) (replicate n (2 ^ w - 1)) = fields (2 * w) (odds ds)"
proof -
  have "fields w (tl ds @ [0]) AND fields (2 * w) (replicate n (2 ^ w - 1)) = fields (2 * w) (evens (tl ds @ [0]))"
    if "n > 0" using that assms by (intro and_evens) (auto dest: list.set_sel(2) [rotated])
  moreover have "evens (tl ds @ [0]) = odds ds" if "n > 0"
    using that assms(1)
  proof (induction ds arbitrary: n rule: odds.induct)
    case (1 a b ds)
    show ?case
    proof (cases ds)
      case Nil
      then show ?thesis by simp
    next
      case (Cons c es)
      with 1(3) have "length ds = 2 * (n - 1)" "0 < n - 1" by auto
      from 1(1) [OF this(2) this(1)] Cons show ?thesis by simp
    qed
  qed auto
  moreover have "fields w (ds @ [0]) = fields w ds" for ds by (induction ds) auto
  moreover have "fields w ds div 2 ^ w = fields w (tl ds)"
    using assms(2) by (cases ds) auto
  ultimately show ?thesis using assms(1) by (cases n) auto
qed

section \<open>The count\<close>

lemma unat_drop: "unat (drop_bit n (x :: 32 word)) = unat x div 2 ^ n"
  by (simp only: unat_drop_bit_eq drop_bit_eq_div [where 'a = nat])

lemma unat_and: "unat (x AND y :: 32 word) = unat x AND unat y"
  by (rule unsigned_and_eq)

lemma rep:
  "replicate 16 x = [x, x, x, x, x, x, x, x, x, x, x, x, x, x, x, x]"
  "replicate 8 x = [x, x, x, x, x, x, x, x]"
  "replicate 4 x = [x, x, x, x]"
  by (simp_all add: numeral_eq_Suc)

lemma masks:
  "unat (0x55555555 :: 32 word) = fields (2 * 1) (replicate 16 (2 ^ 1 - 1))"
  "unat (0x33333333 :: 32 word) = fields (2 * 2) (replicate 8 (2 ^ 2 - 1))"
  "unat (0x0f0f0f0f :: 32 word) = fields (2 * 4) (replicate 4 (2 ^ 4 - 1))"
  by (simp_all add: rep)

lemma sum_top:
  fixes a b c d :: nat
  assumes "a + b + c + d < 256"
  shows "fields 8 [a, b, c, d] * 0x01010101 mod 2 ^ 32 div 2 ^ 24 = a + b + c + d"
proof -
  have "fields 8 [a, b, c, d] * 0x01010101
      = (a + b + c + d) * 2 ^ 24 + (a + (a + b) * 256 + (a + b + c) * 65536)
        + 2 ^ 32 * ((b + c + d) + (c + d) * 256 + d * 65536)" by simp
  then have "fields 8 [a, b, c, d] * 0x01010101 mod 2 ^ 32
      = ((a + b + c + d) * 2 ^ 24 + (a + (a + b) * 256 + (a + b + c) * 65536)) mod 2 ^ 32"
    by (simp only: mod_mult_self2)
  also have "\<dots> = (a + b + c + d) * 2 ^ 24 + (a + (a + b) * 256 + (a + b + c) * 65536)"
    using assms by (intro mod_less) simp
  finally show ?thesis using assms by simp
qed

lemma unat_mult32: "unat (x * y :: 32 word) = unat x * unat y mod 2 ^ 32"
  by (simp add: unat_word_ariths)

lemma unat_add32: "unat x + unat y < 2 ^ 32 \<Longrightarrow> unat (x + y :: 32 word) = unat x + unat y"
  by (simp add: unat_word_ariths)

lemma unat_sub32: "unat y \<le> unat x \<Longrightarrow> unat (x - y :: 32 word) = unat x - unat y"
  by (simp add: unat_sub_if_size)

lemma shifted_sum:
  assumes "length hs = 8" and "\<forall>d \<in> set hs. d \<le> 4"
  shows "(fields 4 hs + fields 4 hs div 16) AND fields 8 (replicate 4 15) = fields 8 (halve hs)"
proof -
  let ?zs = "map2 (+) hs (tl hs @ [0])"
  obtain a b c d e f g h where hs: "hs = [a, b, c, d, e, f, g, h]"
    using assms(1) by (auto simp: numeral_eq_Suc length_Suc_conv)
  have "fields 4 hs div 2 ^ 4 = fields 4 [b, c, d, e, f, g, h]"
    unfolding hs by (rule fields_div) (use assms(2) in \<open>simp add: hs\<close>)
  then have "fields 4 hs div 16 = fields 4 (tl hs @ [0])" by (simp add: hs)
  then have "fields 4 hs + fields 4 hs div 16 = fields 4 ?zs"
    using assms(1) by (simp add: fields_add)
  moreover have "fields 4 ?zs AND fields (2 * 4) (replicate 4 (2 ^ 4 - 1)) = fields (2 * 4) (evens ?zs)"
    by (rule and_evens) (use assms in \<open>auto simp: hs\<close>)
  moreover have "evens ?zs = halve hs" by (simp add: hs)
  ultimately show ?thesis by simp
qed

lemma popcount_eq: "unat (popcount x) = length (bits x)"
proof -
  define ds where "ds = map (bval x) [0..<32]"
  define h1 h2 where "h1 = halve ds" and "h2 = halve h1"
  have ds: "length ds = 2 * 16" "\<forall>d \<in> set ds. d \<le> 1" by (simp_all add: ds_def bval_def)
  have h1: "length h1 = 2 * 8" "\<forall>d \<in> set h1. d \<le> 2" "sum_list h1 = sum_list ds"
    using ds halve_bound [OF ds(2)] by (simp_all add: h1_def halve_sum)
  have h2: "length h2 = 8" "\<forall>d \<in> set h2. d \<le> 4" "sum_list h2 = sum_list ds"
    using h1 halve_bound [OF h1(2)] by (simp_all add: h2_def halve_sum)
  have s3: "sum_list (halve h2) = sum_list ds" using h2 by (simp add: halve_sum)
  define x1 where "x1 = x - (drop_bit 1 x AND 0x55555555)"
  define x2 where "x2 = (x1 AND 0x33333333) + (drop_bit 2 x1 AND 0x33333333)"
  define x3 where "x3 = (x2 + drop_bit 4 x2) AND 0x0f0f0f0f"
  have ux: "unat x = fields 2 (evens ds) + 2 * fields 2 (odds ds)"
    using fields_evens_odds [of ds 1] ds(1) by (simp add: unat_fields ds_def)
  have "unat (drop_bit 1 x AND 0x55555555) = fields (2 * 1) (odds ds)"
    unfolding unat_and unat_drop masks unat_fields [of x] ds_def [symmetric]
    by (rule and_odds) (use ds in auto)
  then have u1: "unat x1 = fields 2 h1"
    using ux fields_halve [of 2 ds] by (simp add: x1_def unat_sub32 h1_def)
  have e: "unat (x1 AND 0x33333333) = fields (2 * 2) (evens h1)"
    unfolding unat_and masks u1 by (rule and_evens) (use h1 in auto)
  have o: "unat (drop_bit 2 x1 AND 0x33333333) = fields (2 * 2) (odds h1)"
    unfolding unat_and unat_drop masks u1 by (rule and_odds) (use h1 in auto)
  have b2: "fields 4 h2 < 2 ^ 32"
    using fields_bound [of h2 4] h2(1,2) by (fastforce simp: Ball_def)
  have u2: "unat x2 = fields 4 h2"
    using e o fields_halve [of 4 h1] b2 by (simp add: x2_def unat_add32 h2_def)
  have h2e: "length h2 = 8" "h2 \<noteq> []" using h2 by auto
  have "unat x2 + unat x2 div 16 < 2 ^ 32"
  proof -
    obtain a b c d e f g h where hs: "h2 = [a, b, c, d, e, f, g, h]"
      using h2(1) by (auto simp: numeral_eq_Suc length_Suc_conv)
    have "fields 4 h2 \<le> 0x44444444" using h2(2) by (simp add: hs)
    then show ?thesis by (simp add: u2)
  qed
  then have "unat x3 = (fields 4 h2 + fields 4 h2 div 16) AND fields 8 (replicate 4 15)"
    using masks(3) by (simp add: x3_def unat_and unat_add32 unat_drop u2)
  then have u3: "unat x3 = fields 8 (halve h2)"
    using shifted_sum [OF h2(1,2)] by simp
  obtain a b c d where q: "halve h2 = [a, b, c, d]"
    using h2(1) by (auto simp: numeral_eq_Suc length_Suc_conv dest: length_halve [THEN trans, of h2 "Suc _", OF sym])
  have "sum_list ds \<le> 32"
    using sum_list_mono [of "[0..<32]" "bval x" "\<lambda>_. 1"] bval_le
    by (simp add: ds_def sum_list_triv del: upt_conv_Cons)
  then have sm: "a + b + c + d < 256" using s3 q by simp
  have "unat (popcount x) = unat (x3 * 0x01010101) div 2 ^ 24"
    by (simp only: popcount_def Let_def unat_drop x1_def x2_def x3_def)
  also have "\<dots> = fields 8 [a, b, c, d] * 0x01010101 mod 2 ^ 32 div 2 ^ 24"
    by (simp only: unat_mult32 u3 q) simp
  also have "\<dots> = a + b + c + d" by (rule sum_top [OF sm])
  finally show ?thesis using s3 q by (simp add: length_bits ds_def)
qed

end
