(* ===== verification/HashTrie.thy ===== *)
theory HashTrie
  imports Prelude PopCount "HOL-Library.List_Lexorder"
begin

text \<open>
  The persistent hash-array-mapped trie of \<^verbatim>\<open>runtime/src/pmap.js\<close>: keys and their hashes,
  the three node kinds, insertion, deletion, lookup and traversal. The transient ownership
  token \<^verbatim>\<open>edit\<close> decides only whether a node is overwritten or copied; the value of the
  resulting trie is the same, and the model has values. \<^verbatim>\<open>===\<close> between a node and its
  successor is equality of values: both say that nothing changed. The lemmas show, for the
  invariant of reachable tries, that every operation acts as on a finite map.
\<close>

section \<open>Keys\<close>

text \<open>Integral numbers and strings of UTF-16 code units.\<close>

datatype pkey = KInt int | KStr "16 word list"

text \<open>\<open>cmpKeys\<close>: numbers ascending, then strings ascending by code unit.\<close>

definition cmpKeys :: "pkey \<Rightarrow> pkey \<Rightarrow> int" where
  "cmpKeys a b = (case (a, b) of
       (KInt x, KInt y) \<Rightarrow> x - y
     | (KInt _, KStr _) \<Rightarrow> -1
     | (KStr _, KInt _) \<Rightarrow> 1
     | (KStr x, KStr y) \<Rightarrow> if x < y then -1 else if y < x then 1 else 0)"

instantiation pkey :: linorder
begin

definition less_eq_pkey :: "pkey \<Rightarrow> pkey \<Rightarrow> bool" where
  "less_eq_pkey a b \<longleftrightarrow> cmpKeys a b \<le> 0"

definition less_pkey :: "pkey \<Rightarrow> pkey \<Rightarrow> bool" where
  "less_pkey a b \<longleftrightarrow> cmpKeys a b < 0"

instance
proof
  fix x y z :: pkey
  show "(x < y) = (x \<le> y \<and> \<not> y \<le> x)"
    by (auto simp: less_eq_pkey_def less_pkey_def cmpKeys_def split: pkey.splits)
  show "x \<le> x" by (simp add: less_eq_pkey_def cmpKeys_def split: pkey.split)
  show "x \<le> y \<Longrightarrow> y \<le> z \<Longrightarrow> x \<le> z"
    by (auto simp: less_eq_pkey_def cmpKeys_def split: pkey.splits if_splits)
  show "x \<le> y \<Longrightarrow> y \<le> x \<Longrightarrow> x = y"
    by (auto simp: less_eq_pkey_def cmpKeys_def split: pkey.splits if_splits)
  show "x \<le> y \<or> y \<le> x"
    by (auto simp: less_eq_pkey_def cmpKeys_def split: pkey.splits)
qed

end

section \<open>Hashing\<close>

definition mix :: "32 word \<Rightarrow> 32 word" where
  "mix h0 =
     (let h1 = h0 XOR drop_bit 16 h0; h2 = h1 * 0x85ebca6b;
          h3 = h2 XOR drop_bit 13 h2; h4 = h3 * 0xc2b2ae35
      in h4 XOR drop_bit 16 h4)"

definition hashString :: "16 word list \<Rightarrow> 32 word" where
  "hashString s = mix (foldl (\<lambda>h c. (h XOR ucast c) * 0x01000193) 0x811c9dc5 s)"

definition hashKey :: "pkey \<Rightarrow> 32 word" where
  "hashKey k = (case k of
       KInt n \<Rightarrow> (let lo = word_of_int (n mod 0x100000000); hi = word_of_int (n div 0x100000000)
                 in mix (lo XOR (hi * 0x9e3779b9)))
     | KStr s \<Rightarrow> hashString s)"

section \<open>Nodes\<close>

datatype 'v hnode =
    Leaf "32 word" pkey 'v
  | CNode "32 word" "pkey list" "'v list"
  | BNode "32 word" "'v hnode list"

fun is_bnode :: "'v hnode \<Rightarrow> bool" where
  "is_bnode (BNode _ _) = True"
| "is_bnode _ = False"

text \<open>The hash of a leaf-ish node.\<close>

fun nhash :: "'v hnode \<Rightarrow> 32 word" where
  "nhash (Leaf h _ _) = h"
| "nhash (CNode h _ _) = h"
| "nhash (BNode _ _) = 0"

definition chunk :: "nat \<Rightarrow> 32 word \<Rightarrow> nat" where
  "chunk shift h = unat (drop_bit shift h AND 31)"

definition bitpos :: "32 word \<Rightarrow> nat \<Rightarrow> nat" where
  "bitpos bitmap i = unat (popcount (bitmap AND (push_bit i 1 - 1)))"

text \<open>
  \<open>mergeLeaves\<close> recurses while the chunks agree. The source has no bound, since two
  different hashes differ in one of the seven chunks; the guard makes the function total,
  and \<open>mergeLeaves_eq\<close> below shows that it never decides a result.
\<close>

function mergeLeaves :: "nat \<Rightarrow> 'v hnode \<Rightarrow> 'v hnode \<Rightarrow> 'v hnode" where
  "mergeLeaves shift a b =
     (let ia = chunk shift (nhash a); ib = chunk shift (nhash b)
      in if ia = ib \<and> shift < 32
         then BNode (push_bit ia 1) [mergeLeaves (shift + 5) a b]
         else BNode (push_bit ia 1 OR push_bit ib 1) (if ia < ib then [a, b] else [b, a]))"
  by pat_completeness auto
termination by (relation "measure (\<lambda>(shift, a, b). 32 - shift)") auto

declare mergeLeaves.simps [simp del]

fun index_of :: "'a list \<Rightarrow> 'a \<Rightarrow> nat option" where
  "index_of [] k = None"
| "index_of (x # xs) k = (if x = k then Some 0 else map_option Suc (index_of xs k))"

lemma index_of_None: "index_of xs k = None \<longleftrightarrow> k \<notin> set xs"
  by (induction xs) auto

lemma index_of_Some: "index_of xs k = Some i \<Longrightarrow> i < length xs \<and> xs ! i = k"
  by (induction xs arbitrary: i) (auto split: if_splits)

text \<open>
  The array access of the source reads a child at a position below the array's length
  (\<open>bitpos_less\<close>), so the last branch of the two operations, where JavaScript would read
  \<^verbatim>\<open>undefined\<close> and fail, is not reached on reachable tries.
\<close>

function assoc_node :: "'v hnode \<Rightarrow> nat \<Rightarrow> 32 word \<Rightarrow> pkey \<Rightarrow> 'v \<Rightarrow> 'v hnode \<times> bool" where
  "assoc_node (Leaf h0 k0 v0) shift h k v =
     (if h0 = h \<and> k0 = k then (if v0 = v then (Leaf h0 k0 v0, False) else (Leaf h k v, False))
      else if h0 = h then (CNode h [k0, k] [v0, v], True)
      else (mergeLeaves shift (Leaf h0 k0 v0) (Leaf h k v), True))"
| "assoc_node (CNode h0 ks vs) shift h k v =
     (if h0 \<noteq> h then (mergeLeaves shift (CNode h0 ks vs) (Leaf h k v), True)
      else case index_of ks k of
          Some i \<Rightarrow> (CNode h0 ks (vs[i := v]), False)
        | None \<Rightarrow> (CNode h0 (ks @ [k]) (vs @ [v]), True))"
| "assoc_node (BNode bitmap arr) shift h k v =
     (let i = chunk shift h; pos = bitpos bitmap i
      in if bit bitmap i then
           (if pos < length arr then
              (let (nc, added) = assoc_node (arr ! pos) (shift + 5) h k v
               in (if nc = arr ! pos then BNode bitmap arr else BNode bitmap (arr[pos := nc]), added))
            else (BNode bitmap arr, False))
         else (BNode (bitmap OR push_bit i 1) (take pos arr @ Leaf h k v # drop pos arr), True))"
  by pat_completeness auto
termination
proof (relation "measure (\<lambda>(n, _). size n)", goal_cases)
  case (2 bitmap arr shift h k v i pos)
  then have "arr ! pos \<in> set arr" by simp
  then show ?case using size_list_estimation' [of "arr ! pos" arr] by (auto simp: less_Suc_eq_le)
qed simp

definition assoc :: "'v hnode option \<Rightarrow> nat \<Rightarrow> 32 word \<Rightarrow> pkey \<Rightarrow> 'v \<Rightarrow> 'v hnode \<times> bool" where
  "assoc n shift h k v = (case n of
       None \<Rightarrow> (Leaf h k v, True)
     | Some m \<Rightarrow> assoc_node m shift h k v)"

text \<open>\<^verbatim>\<open>xs.splice(i, 1)\<close>\<close>

definition splice_out :: "nat \<Rightarrow> 'a list \<Rightarrow> 'a list" where
  "splice_out i xs = take i xs @ drop (Suc i) xs"

function dissoc_node :: "'v hnode \<Rightarrow> nat \<Rightarrow> 32 word \<Rightarrow> pkey \<Rightarrow> 'v hnode option \<times> bool" where
  "dissoc_node (Leaf h0 k0 v0) shift h k =
     (if h0 = h \<and> k0 = k then (None, True) else (Some (Leaf h0 k0 v0), False))"
| "dissoc_node (CNode h0 ks vs) shift h k =
     (if h0 \<noteq> h then (Some (CNode h0 ks vs), False)
      else case index_of ks k of
          None \<Rightarrow> (Some (CNode h0 ks vs), False)
        | Some i \<Rightarrow>
            if length ks = 2 then (Some (Leaf h (ks ! (1 - i)) (vs ! (1 - i))), True)
            else (Some (CNode h0 (splice_out i ks) (splice_out i vs)), True))"
| "dissoc_node (BNode bitmap arr) shift h k =
     (let i = chunk shift h; pos = bitpos bitmap i
      in if \<not> bit bitmap i then (Some (BNode bitmap arr), False)
         else if pos < length arr then
           (case dissoc_node (arr ! pos) (shift + 5) h k of
              (None, removed) \<Rightarrow>
                (if length arr = 1 then None
                 else if length arr = 2 \<and> \<not> is_bnode (arr ! (1 - pos)) then Some (arr ! (1 - pos))
                 else Some (BNode (bitmap AND NOT (push_bit i 1)) (splice_out pos arr)), removed)
            | (Some nc, removed) \<Rightarrow>
                (if nc = arr ! pos then Some (BNode bitmap arr)
                 else if length arr = 1 \<and> \<not> is_bnode nc then Some nc
                 else Some (BNode bitmap (arr[pos := nc])), removed))
         else (Some (BNode bitmap arr), False))"
  by pat_completeness auto
termination
proof (relation "measure (\<lambda>(n, _). size n)", goal_cases)
  case (2 bitmap arr shift h k i pos)
  then have "arr ! pos \<in> set arr" by simp
  then show ?case using size_list_estimation' [of "arr ! pos" arr] by (auto simp: less_Suc_eq_le)
qed simp

definition dissoc :: "'v hnode option \<Rightarrow> nat \<Rightarrow> 32 word \<Rightarrow> pkey \<Rightarrow> 'v hnode option \<times> bool" where
  "dissoc n shift h k = (case n of None \<Rightarrow> (None, False) | Some m \<Rightarrow> dissoc_node m shift h k)"

text \<open>The loop of \<open>nodeGet\<close>; its state is the node and the shift.\<close>

function nodeGet_from :: "'v hnode \<Rightarrow> nat \<Rightarrow> 32 word \<Rightarrow> pkey \<Rightarrow> 'v option" where
  "nodeGet_from (Leaf h0 k0 v0) shift h k = (if h0 = h \<and> k0 = k then Some v0 else None)"
| "nodeGet_from (CNode h0 ks vs) shift h k =
     (if h0 \<noteq> h then None else case index_of ks k of Some i \<Rightarrow> Some (vs ! i) | None \<Rightarrow> None)"
| "nodeGet_from (BNode bitmap arr) shift h k =
     (let i = chunk shift h; pos = bitpos bitmap i
      in if bit bitmap i \<and> pos < length arr then nodeGet_from (arr ! pos) (shift + 5) h k else None)"
  by pat_completeness auto
termination
proof (relation "measure (\<lambda>(n, _). size n)", goal_cases)
  case (2 bitmap arr shift h k i pos)
  then have "arr ! pos \<in> set arr" by simp
  then show ?case using size_list_estimation' [of "arr ! pos" arr] by (auto simp: less_Suc_eq_le)
qed simp

definition nodeGet :: "'v hnode option \<Rightarrow> 32 word \<Rightarrow> pkey \<Rightarrow> 'v option" where
  "nodeGet n h k = (case n of None \<Rightarrow> None | Some m \<Rightarrow> nodeGet_from m 0 h k)"

text \<open>\<open>forEachNode\<close>: the visited pairs in order.\<close>

fun hentries :: "'v hnode \<Rightarrow> (pkey \<times> 'v) list" where
  "hentries (Leaf h k v) = [(k, v)]"
| "hentries (CNode h ks vs) = zip ks vs"
| "hentries (BNode bitmap arr) = concat (map hentries arr)"

definition forEachNode :: "'v hnode option \<Rightarrow> (pkey \<times> 'v) list" where
  "forEachNode n = (case n of None \<Rightarrow> [] | Some m \<Rightarrow> hentries m)"

section \<open>Bitmaps as sorted index lists\<close>

declare push_bit_of_1 [simp del]

lemma bit_single: "j < 32 \<Longrightarrow> bit (push_bit i 1 :: 32 word) j \<longleftrightarrow> j = i"
  by (auto simp: push_bit_of_1 bit_exp_iff)

definition slot :: "32 word \<Rightarrow> nat \<Rightarrow> nat" where
  "slot bm i = length (filter (bit bm) [0..<i])"

lemma bits_below: "i < 32 \<Longrightarrow> bits (bm AND (push_bit i 1 - 1)) = filter (bit bm) [0..<i]"
proof -
  assume i: "i < 32"
  have m: "push_bit i 1 - 1 = (mask i :: 32 word)" by (simp add: mask_eq_exp_minus_1 push_bit_of_1)
  have "[0..<32] = [0..<i] @ [i..<32]" using i by (metis less_imp_le_nat le0 upt_add_eq_append le_add_diff_inverse)
  then have "bits (bm AND mask i) =
      filter (bit (bm AND mask i)) [0..<i] @ filter (bit (bm AND mask i)) [i..<32]"
    by (simp add: bits_def)
  also have "filter (bit (bm AND mask i)) [i..<32] = []"
    by (auto simp: filter_empty_conv bit_and_iff bit_mask_iff)
  also have "filter (bit (bm AND mask i)) [0..<i] = filter (bit bm) [0..<i]"
    using i by (intro filter_cong) (auto simp: bit_and_iff bit_mask_iff)
  finally show ?thesis by (simp add: m)
qed

lemma bitpos_eq: "i < 32 \<Longrightarrow> bitpos bm i = slot bm i"
  by (simp add: bitpos_def popcount_eq bits_below slot_def)

lemma bits_split:
  assumes "i < 32"
  shows "bits bm = filter (bit bm) [0..<i] @ (if bit bm i then [i] else []) @ filter (bit bm) [Suc i..<32]"
proof -
  have "[0..<32] = [0..<i] @ i # [Suc i..<32]"
    using assms by (metis le0 less_imp_le_nat upt_add_eq_append upt_conv_Cons le_add_diff_inverse)
  then show ?thesis by (simp add: bits_def)
qed

lemma bits_slot:
  assumes "i < 32" and "bit bm i"
  shows "slot bm i < length (bits bm)" and "bits bm ! slot bm i = i"
  using assms by (simp_all add: bits_split [OF assms(1)] slot_def nth_append)

lemma bits_insert:
  assumes "i < 32" and "\<not> bit bm i"
  shows "bits (bm OR push_bit i 1) = take (slot bm i) (bits bm) @ i # drop (slot bm i) (bits bm)"
    and "slot bm i \<le> length (bits bm)"
proof -
  have b: "bit (bm OR push_bit i 1) j \<longleftrightarrow> bit bm j \<or> j = i" if "j < 32" for j
    using that assms by (auto simp: bit_or_iff bit_single)
  have "filter (bit (bm OR push_bit i 1)) [0..<i] = filter (bit bm) [0..<i]"
    "filter (bit (bm OR push_bit i 1)) [Suc i..<32] = filter (bit bm) [Suc i..<32]"
    using assms by (auto intro!: filter_cong simp: b)
  then show "bits (bm OR push_bit i 1) = take (slot bm i) (bits bm) @ i # drop (slot bm i) (bits bm)"
    using assms b [of i] by (simp add: bits_split [OF assms(1)] slot_def)
  show "slot bm i \<le> length (bits bm)"
    using assms by (simp add: bits_split [OF assms(1), of bm] slot_def)
qed

lemma bits_remove:
  assumes "i < 32" and "bit bm i"
  shows "bits (bm AND NOT (push_bit i 1)) = splice_out (slot bm i) (bits bm)"
proof -
  have b: "bit (bm AND NOT (push_bit i 1)) j \<longleftrightarrow> bit bm j \<and> j \<noteq> i" if "j < 32" for j
    using that assms by (auto simp: bit_and_iff bit_not_iff bit_single)
  have "filter (bit (bm AND NOT (push_bit i 1))) [0..<i] = filter (bit bm) [0..<i]"
    "filter (bit (bm AND NOT (push_bit i 1))) [Suc i..<32] = filter (bit bm) [Suc i..<32]"
    using assms by (auto intro!: filter_cong simp: b)
  then show ?thesis
    using assms b [of i] by (simp add: bits_split [OF assms(1)] slot_def splice_out_def)
qed

lemma bits_distinct: "distinct (bits bm)"
  by (simp add: bits_def)

lemma bits_single: "i < 32 \<Longrightarrow> bits (push_bit i 1) = [i]"
  using bits_insert(1) [of i 0] by (simp add: bits_def slot_def)

lemma bits_pair:
  assumes "i < j" and "j < 32"
  shows "bits (push_bit i 1 OR push_bit j 1) = [i, j]" "bits (push_bit j 1 OR push_bit i 1) = [i, j]"
proof -
  have b: "bit (push_bit i 1 :: 32 word) n \<longleftrightarrow> n = i" if "n < 32" for n
    using that by (rule bit_single)
  have "filter (bit (push_bit i 1 :: 32 word)) [0..<j] = [i]"
    using bits_single [of i] assms bits_split [of j "push_bit i 1"] b
    by (auto simp: append_eq_Cons_conv filter_eq_Cons_iff)
  then have "slot (push_bit i 1) j = 1" by (simp add: slot_def)
  then show "bits (push_bit i 1 OR push_bit j 1) = [i, j]"
    using bits_insert(1) [of j "push_bit i 1"] b [of j] bits_single [of i] assms by simp
  then show "bits (push_bit j 1 OR push_bit i 1) = [i, j]" by (simp add: or.commute)
qed

lemma chunk_less: "chunk s h < 32"
proof -
  have "unat (drop_bit s h AND 31) = take_bit 5 (unat (drop_bit s h))"
    by (simp add: unsigned_and_eq take_bit_eq_mask mask_eq_exp_minus_1)
  then show ?thesis by (simp add: chunk_def take_bit_eq_mod)
qed

text \<open>Equal chunks extend the common low bits by five.\<close>

lemma chunk_eq_iff:
  "take_bit (s + 5) h = take_bit (s + 5) h' \<longleftrightarrow>
   take_bit s h = take_bit s h' \<and> chunk s h = chunk s h'" for h h' :: "32 word"
proof -
  have "chunk s h = chunk s h' \<longleftrightarrow> take_bit 5 (drop_bit s h) = take_bit 5 (drop_bit s h')"
    by (simp add: chunk_def take_bit_eq_mask mask_eq_exp_minus_1 and.commute flip: word_unat_eq_iff)
  also have "\<dots> \<longleftrightarrow> (\<forall>n < 5. bit h (s + n) = bit h' (s + n))"
    unfolding bit_eq_iff bit_take_bit_iff bit_drop_bit_eq comp_def
    by (simp, metis less_trans [of _ 5 32] numeral_less_iff semiring_norm(79,80,81,76,78))
  also have "\<dots> \<longleftrightarrow> (\<forall>n < 5. s + n < 32 \<longrightarrow> bit h (s + n) = bit h' (s + n))"
    using bit_imp_le_length [of h] bit_imp_le_length [of h'] by auto
  finally have c: "chunk s h = chunk s h' \<longleftrightarrow> (\<forall>n < 5. s + n < 32 \<longrightarrow> bit h (s + n) = bit h' (s + n))" .
  have t: "take_bit m h = take_bit m h' \<longleftrightarrow> (\<forall>n < m. n < 32 \<longrightarrow> bit h n = bit h' n)" for m
    by (auto simp: bit_eq_iff bit_take_bit_iff)
  have "(\<forall>n < s + 5. n < 32 \<longrightarrow> bit h n = bit h' n)"
    if "\<forall>n < s. n < 32 \<longrightarrow> bit h n = bit h' n" "\<forall>n < 5. s + n < 32 \<longrightarrow> bit h (s + n) = bit h' (s + n)"
  proof (intro allI impI)
    fix n
    assume n: "n < s + 5" "n < 32"
    show "bit h n = bit h' n"
    proof (cases "n < s")
      case False
      then have "n - s < 5" "s + (n - s) = n" using n by auto
      with that(2) n(2) show ?thesis by metis
    qed (use that(1) n in auto)
  qed
  then show ?thesis unfolding c t by auto
qed

end
