(* ===== verification/HashMap.thy ===== *)
theory HashMap
  imports HashTrie
begin

text \<open>
  The invariant of reachable tries, what each node operation does to the finite map a trie
  stands for, and on top of it the persistent map, its transient handle and the persistent
  set of \<^verbatim>\<open>runtime/src/pmap.js\<close>. The interface the rest of the runtime relies on is the
  locale \<open>persistent_map\<close>, interpreted on these definitions.
\<close>

section \<open>The children of a branch\<close>

definition hkeys :: "'v hnode \<Rightarrow> pkey set" where
  "hkeys n = fst ` set (hentries n)"

definition hmap :: "'v hnode \<Rightarrow> pkey \<rightharpoonup> 'v" where
  "hmap n = map_of (hentries n)"

lemma hkeys_dom: "hkeys n = dom (hmap n)"
  by (simp add: hkeys_def hmap_def dom_map_of_conv_image_fst)

lemma hkeys_simps [simp]:
  "hkeys (Leaf h k v) = {k}"
  "length ks = length vs \<Longrightarrow> hkeys (CNode h ks vs) = set ks"
  "hkeys (BNode bm arr) = (\<Union>c \<in> set arr. hkeys c)"
  by (auto simp: hkeys_def image_Union set_zip in_set_conv_nth) force

lemma hmap_simps [simp]:
  "hmap (Leaf h k v) = [k \<mapsto> v]"
  "hmap (CNode h ks vs) = map_of (zip ks vs)"
  by (simp_all add: hmap_def)

text \<open>A bitmap and its array are a partial function from chunks to children.\<close>

definition kids :: "32 word \<Rightarrow> 'v hnode list \<Rightarrow> nat \<rightharpoonup> 'v hnode" where
  "kids bm arr = map_of (zip (bits bm) arr)"

lemma kids_at:
  assumes "length arr = length (bits bm)" and "i < 32"
  shows "bit bm i \<Longrightarrow> slot bm i < length arr \<and> kids bm arr i = Some (arr ! slot bm i)"
    and "\<not> bit bm i \<Longrightarrow> kids bm arr i = None"
proof -
  assume "bit bm i"
  note s = bits_slot [OF assms(2) this]
  then show "slot bm i < length arr \<and> kids bm arr i = Some (arr ! slot bm i)"
    using assms(1) map_of_zip_nth [of "bits bm" arr "slot bm i"] bits_distinct
    by (simp add: kids_def)
next
  assume "\<not> bit bm i"
  then have "i \<notin> set (bits bm)" by (simp add: bits_def)
  then show "kids bm arr i = None"
    using assms(1) by (auto simp: kids_def map_of_eq_None_iff dest: set_zip_leftD)
qed

lemma kids_set_arr:
  "length arr = length (bits bm) \<Longrightarrow> c \<in> set arr \<longleftrightarrow> (\<exists>i. kids bm arr i = Some c)"
proof -
  assume l: "length arr = length (bits bm)"
  have "c \<in> set arr \<longleftrightarrow> (\<exists>i. (i, c) \<in> set (zip (bits bm) arr))"
    using l by (auto simp: set_zip in_set_conv_nth)
  then show ?thesis
    using l bits_distinct by (simp add: kids_def map_of_eq_Some_iff)
qed

lemma kids_less: "kids bm arr i = Some c \<Longrightarrow> i < 32"
  by (auto simp: kids_def bits_def dest!: map_of_SomeD set_zip_leftD)

lemma kids_None:
  assumes "length arr = length (bits bm)" and "\<not> (i < 32 \<and> bit bm i)"
  shows "kids bm arr i = None"
proof (rule ccontr)
  assume "kids bm arr i \<noteq> None"
  then obtain c where "kids bm arr i = Some c" by blast
  with kids_less [OF this] kids_at(2) [OF assms(1)] assms(2) show False by auto
qed

lemma kids_update:
  assumes "length arr = length (bits bm)" and "i < 32" and "bit bm i"
  shows "kids bm (arr[slot bm i := c]) = (kids bm arr)(i \<mapsto> c)"
proof
  fix j
  show "kids bm (arr[slot bm i := c]) j = ((kids bm arr)(i \<mapsto> c)) j"
  proof (cases "j < 32 \<and> bit bm j")
    case True
    have "slot bm j \<noteq> slot bm i" if "j \<noteq> i"
      using that True assms bits_slot by metis
    then show ?thesis
      using True assms kids_at(1) [of arr bm j] kids_at(1) [of "arr[slot bm i := c]" bm j] by auto
  next
    case False
    then have "j \<noteq> i" using assms by auto
    with False show ?thesis using assms by (simp add: kids_None)
  qed
qed

lemma map_of_insert_at:
  "x \<notin> fst ` set ps \<Longrightarrow> map_of (take n ps @ (x, y) # drop n ps) = (map_of ps)(x \<mapsto> y)"
proof -
  assume "x \<notin> fst ` set ps"
  moreover have "set (take n ps) \<subseteq> set ps" by (rule set_take_subset)
  ultimately have "x \<notin> fst ` set (take n ps)" by auto
  then have "x \<notin> dom (map_of (take n ps))" by (simp add: dom_map_of_conv_image_fst)
  then have "map_of (take n ps @ (x, y) # drop n ps) = (map_of (take n ps @ drop n ps))(x \<mapsto> y)"
    unfolding map_of_append map_of.simps fst_conv snd_conv by (rule map_add_upd_left)
  then show ?thesis by simp
qed

lemma kids_insert:
  assumes "length arr = length (bits bm)" and "i < 32" and "\<not> bit bm i"
  shows "kids (bm OR push_bit i 1) (take (slot bm i) arr @ c # drop (slot bm i) arr)
    = (kids bm arr)(i \<mapsto> c)"
    and "length (take (slot bm i) arr @ c # drop (slot bm i) arr) = length (bits (bm OR push_bit i 1))"
proof -
  note b = bits_insert [OF assms(2,3)]
  have z: "zip (bits (bm OR push_bit i 1)) (take (slot bm i) arr @ c # drop (slot bm i) arr)
      = take (slot bm i) (zip (bits bm) arr) @ (i, c) # drop (slot bm i) (zip (bits bm) arr)"
    using b assms(1) by (simp add: take_zip drop_zip)
  have "i \<notin> fst ` set (zip (bits bm) arr)"
    using assms by (auto simp: bits_def dest: set_zip_leftD)
  then show "kids (bm OR push_bit i 1) (take (slot bm i) arr @ c # drop (slot bm i) arr)
      = (kids bm arr)(i \<mapsto> c)"
    unfolding kids_def z by (rule map_of_insert_at)
  show "length (take (slot bm i) arr @ c # drop (slot bm i) arr) = length (bits (bm OR push_bit i 1))"
    using b assms(1) by simp
qed

lemma length_splice_out: "i < length xs \<Longrightarrow> length (splice_out i xs) = length xs - 1"
  by (simp add: splice_out_def)

lemma splice_out_zip:
  "length xs = length ys \<Longrightarrow> zip (splice_out i xs) (splice_out i ys) = splice_out i (zip xs ys)"
  by (simp add: splice_out_def take_zip drop_zip)

lemma map_of_splice_out:
  assumes "distinct (map fst ps)" and "i < length ps"
  shows "map_of (splice_out i ps) = (map_of ps)(fst (ps ! i) := None)"
  using assms
proof (induction ps arbitrary: i)
  case (Cons p ps)
  show ?case
  proof (cases i)
    case 0
    then show ?thesis using Cons.prems
      by (auto simp: splice_out_def fun_eq_iff map_of_eq_None_iff)
  next
    case (Suc j)
    then have "splice_out i (p # ps) = p # splice_out j ps" by (simp add: splice_out_def)
    moreover have "fst (ps ! j) \<in> fst ` set ps" using Cons.prems Suc by simp
    then have "fst (ps ! j) \<noteq> fst p"
      using Cons.prems(1) by (metis distinct.simps(2) list.simps(9) set_map)
    ultimately show ?thesis using Cons Suc by (auto simp: fun_eq_iff)
  qed
qed simp

lemma kids_remove:
  assumes "length arr = length (bits bm)" and "i < 32" and "bit bm i"
  shows "kids (bm AND NOT (push_bit i 1)) (splice_out (slot bm i) arr) = (kids bm arr)(i := None)"
    and "length (splice_out (slot bm i) arr) = length (bits (bm AND NOT (push_bit i 1)))"
proof -
  note s = bits_slot [OF assms(2,3)]
  have "map_of (splice_out (slot bm i) (zip (bits bm) arr)) = (kids bm arr)(i := None)"
    using map_of_splice_out [of "zip (bits bm) arr" "slot bm i"] assms(1) s bits_distinct
    by (simp add: kids_def)
  then show "kids (bm AND NOT (push_bit i 1)) (splice_out (slot bm i) arr) = (kids bm arr)(i := None)"
    using assms(1) by (simp add: kids_def bits_remove [OF assms(2,3)] splice_out_zip)
  show "length (splice_out (slot bm i) arr) = length (bits (bm AND NOT (push_bit i 1)))"
    using assms(1) s by (simp add: bits_remove [OF assms(2,3)] length_splice_out)
qed

section \<open>The invariant\<close>

inductive hwf :: "nat \<Rightarrow> 'v hnode \<Rightarrow> bool" where
  hwf_Leaf: "h = hashKey k \<Longrightarrow> hwf s (Leaf h k v)"
| hwf_CNode: "length ks = length vs \<Longrightarrow> 2 \<le> length ks \<Longrightarrow> distinct ks \<Longrightarrow>
    (\<And>k. k \<in> set ks \<Longrightarrow> hashKey k = h) \<Longrightarrow> hwf s (CNode h ks vs)"
| hwf_BNode: "s < 32 \<Longrightarrow> length arr = length (bits bm) \<Longrightarrow> arr \<noteq> [] \<Longrightarrow>
    (\<And>i c. kids bm arr i = Some c \<Longrightarrow> hwf (s + 5) c \<and> (\<forall>k \<in> hkeys c. chunk s (hashKey k) = i)) \<Longrightarrow>
    (length arr = 1 \<Longrightarrow> is_bnode (arr ! 0)) \<Longrightarrow> hwf s (BNode bm arr)"

inductive_simps hwf_LeafE [simp]: "hwf s (Leaf h k v)"
inductive_simps hwf_CNodeE [simp]: "hwf s (CNode h ks vs)"
inductive_cases hwf_BNodeE: "hwf s (BNode bm arr)"

lemma hwf_BNode_iff:
  "hwf s (BNode bm arr) \<longleftrightarrow> s < 32 \<and> length arr = length (bits bm) \<and> arr \<noteq> [] \<and>
    (\<forall>i c. kids bm arr i = Some c \<longrightarrow> hwf (s + 5) c \<and> (\<forall>k \<in> hkeys c. chunk s (hashKey k) = i)) \<and>
    (length arr = 1 \<longrightarrow> is_bnode (arr ! 0))"
  by (auto elim: hwf_BNodeE intro!: hwf_BNode)

lemma hwf_leafish: "\<not> is_bnode n \<Longrightarrow> hwf s n \<Longrightarrow> hwf s' n"
  by (cases n) auto

lemma hwf_nhash: "\<not> is_bnode n \<Longrightarrow> hwf s n \<Longrightarrow> k \<in> hkeys n \<Longrightarrow> hashKey k = nhash n"
  by (cases n) auto

lemma map_of_concat_at:
  assumes "p < length arr" and "\<And>j. j < length arr \<Longrightarrow> j \<noteq> p \<Longrightarrow> k \<notin> hkeys (arr ! j)"
  shows "map_of (concat (map hentries arr)) k = hmap (arr ! p) k"
  using assms
proof (induction arr arbitrary: p)
  case (Cons c arr)
  show ?case
  proof (cases p)
    case 0
    have "k \<notin> hkeys d" if "d \<in> set arr" for d
      using that Cons.prems(2) [of "Suc _"] 0 by (auto simp: in_set_conv_nth)
    then have "map_of (concat (map hentries arr)) k = None"
      by (auto simp: map_of_eq_None_iff hkeys_def)
    with 0 show ?thesis by (simp add: hmap_def map_add_def split: option.split)
  next
    case (Suc q)
    have "k \<notin> hkeys c" using Cons.prems(2) [of 0] Suc by simp
    then have "map_of (hentries c) k = None" by (simp add: map_of_eq_None_iff hkeys_def)
    moreover have "k \<notin> hkeys (arr ! j)" if "j < length arr" "j \<noteq> q" for j
      using Cons.prems(2) [of "Suc j"] that Suc by simp
    ultimately show ?thesis
      using Cons.IH [of q] Cons.prems(1) Suc by (simp add: map_add_def split: option.split)
  qed
qed simp

text \<open>The view of a branch: the map of the child that the key's chunk selects.\<close>

lemma hmap_BNode:
  assumes "hwf s (BNode bm arr)"
  shows "hmap (BNode bm arr) k =
    (case kids bm arr (chunk s (hashKey k)) of None \<Rightarrow> None | Some c \<Rightarrow> hmap c k)"
proof -
  let ?i = "chunk s (hashKey k)"
  from assms have l: "length arr = length (bits bm)"
    and kid: "\<And>i c. kids bm arr i = Some c \<Longrightarrow> (\<forall>k \<in> hkeys c. chunk s (hashKey k) = i)"
    by (auto simp: hwf_BNode_iff)
  have nth: "kids bm arr (bits bm ! j) = Some (arr ! j)" if "j < length arr" for j
    using that l bits_distinct by (simp add: kids_def map_of_zip_nth)
  show ?thesis
  proof (cases "kids bm arr ?i")
    case None
    have "k \<notin> hkeys c" if "c \<in> set arr" for c
      using that kid None unfolding kids_set_arr [OF l] by fastforce
    then show ?thesis using None by (auto simp: hmap_def map_of_eq_None_iff hkeys_def)
  next
    case (Some c)
    then have i: "bit bm ?i" using kids_at(2) [OF l chunk_less] by fastforce
    note at = kids_at(1) [OF l chunk_less i]
    have "map_of (concat (map hentries arr)) k = hmap (arr ! slot bm ?i) k"
    proof (rule map_of_concat_at)
      fix j
      assume j: "j < length arr" "j \<noteq> slot bm ?i"
      have "bits bm ! j \<noteq> ?i"
        using j l bits_slot [OF chunk_less i] bits_distinct nth_eq_iff_index_eq by metis
      then show "k \<notin> hkeys (arr ! j)" using kid [OF nth [OF j(1)]] by auto
    qed (use at in simp)
    with Some at show ?thesis by (simp add: hmap_def)
  qed
qed

section \<open>Merging two leaves\<close>

declare mergeLeaves.simps [simp]

lemma mergeLeaves_bnode: "is_bnode (mergeLeaves shift a b)"
  by (simp add: Let_def)

declare mergeLeaves.simps [simp del]

lemma bits_merged:
  assumes "i \<noteq> j" and "i < 32" and "j < 32"
  shows "bits (push_bit i 1 OR push_bit j 1) = (if i < j then [i, j] else [j, i])"
  using assms bits_pair [of i j] bits_pair [of j i] by auto

lemma take_bit_ge_32: "32 \<le> s \<Longrightarrow> take_bit s (h :: 32 word) = h"
  by (simp add: take_bit_word_eq_self)

lemma mergeLeaves_spec:
  assumes "\<not> is_bnode a" "\<not> is_bnode b" "hwf s a" "hwf s b"
    and "nhash a \<noteq> nhash b" and "take_bit s (nhash a) = take_bit s (nhash b)"
  shows "hwf s (mergeLeaves s a b) \<and> hmap (mergeLeaves s a b) = hmap a ++ hmap b"
  using assms
proof (induction s a b rule: mergeLeaves.induct)
  case (1 s a b)
  let ?ia = "chunk s (nhash a)" and ?ib = "chunk s (nhash b)"
  have s32: "s < 32"
    using "1.prems"(5,6) take_bit_ge_32 [of s] by (metis not_less)
  note lt = chunk_less [of s "nhash a"] chunk_less [of s "nhash b"]
  have ka: "\<And>k. k \<in> hkeys a \<Longrightarrow> hashKey k = nhash a" and kb: "\<And>k. k \<in> hkeys b \<Longrightarrow> hashKey k = nhash b"
    using "1.prems" hwf_nhash by auto
  show ?case
  proof (cases "?ia = ?ib")
    case True
    let ?m = "mergeLeaves (s + 5) a b"
    have eq: "mergeLeaves s a b = BNode (push_bit ?ia 1) [?m]"
      using True s32 by (simp add: mergeLeaves.simps [of s])
    have tb: "take_bit (s + 5) (nhash a) = take_bit (s + 5) (nhash b)"
      using True "1.prems"(6) by (simp add: chunk_eq_iff)
    have IH: "hwf (s + 5) ?m" "hmap ?m = hmap a ++ hmap b"
      using "1.IH" [OF refl refl] True s32 "1.prems" tb hwf_leafish [of a s "s + 5"]
        hwf_leafish [of b s "s + 5"] by auto
    have kids: "kids (push_bit ?ia 1) [?m] = [?ia \<mapsto> ?m]"
      using lt by (simp add: kids_def bits_single)
    have "hkeys ?m = hkeys a \<union> hkeys b" by (auto simp: hkeys_dom IH(2))
    then have "\<forall>k \<in> hkeys ?m. chunk s (hashKey k) = ?ia" using ka kb True by auto
    with IH have "hwf s (mergeLeaves s a b)"
      using s32 lt mergeLeaves_bnode unfolding eq hwf_BNode_iff kids by (auto simp: bits_single)
    moreover have "hmap (mergeLeaves s a b) = hmap ?m" unfolding eq by (simp add: hmap_def)
    ultimately show ?thesis using IH by simp
  next
    case False
    let ?arr = "if ?ia < ?ib then [a, b] else [b, a]"
    have eq: "mergeLeaves s a b = BNode (push_bit ?ia 1 OR push_bit ?ib 1) ?arr"
      using False by (simp add: mergeLeaves.simps [of s])
    have kids: "kids (push_bit ?ia 1 OR push_bit ?ib 1) ?arr = [?ia \<mapsto> a, ?ib \<mapsto> b]"
      using lt False by (auto simp: kids_def bits_merged fun_upd_twist)
    have hw: "hwf s (mergeLeaves s a b)"
      using s32 lt False "1.prems" hwf_leafish [of a s "s + 5"] hwf_leafish [of b s "s + 5"] ka kb
      unfolding eq hwf_BNode_iff kids by (auto simp: bits_merged)
    have "hmap (mergeLeaves s a b) k = (hmap a ++ hmap b) k" for k
    proof -
      have none: "hmap c k = None" if "k \<notin> hkeys c" for c :: "'a hnode"
        using that by (auto simp: hkeys_dom)
      have "hmap (mergeLeaves s a b) k =
          (case [?ia \<mapsto> a, ?ib \<mapsto> b] (chunk s (hashKey k)) of None \<Rightarrow> None | Some c \<Rightarrow> hmap c k)"
        using hmap_BNode [OF hw [unfolded eq]] unfolding eq kids .
      then show ?thesis
        using ka [of k] kb [of k] False none [of a] none [of b]
        by (cases "k \<in> hkeys a"; cases "k \<in> hkeys b") (auto simp: map_add_def split: option.split)
    qed
    with hw show ?thesis by auto
  qed
qed

text \<open>The guard of \<open>mergeLeaves\<close> never decides: on different hashes that agree below the
  shift, the source's own equation holds.\<close>

lemma mergeLeaves_eq:
  assumes "nhash a \<noteq> nhash b" and "take_bit s (nhash a) = take_bit s (nhash b)"
  shows "mergeLeaves s a b =
     (let ia = chunk s (nhash a); ib = chunk s (nhash b)
      in if ia = ib then BNode (push_bit ia 1) [mergeLeaves (s + 5) a b]
         else BNode (push_bit ia 1 OR push_bit ib 1) (if ia < ib then [a, b] else [b, a]))"
proof -
  have "s < 32" using assms take_bit_ge_32 [of s] by (metis not_less)
  then show ?thesis by (simp add: mergeLeaves.simps [of s])
qed

section \<open>Insertion, deletion and lookup\<close>

definition agree :: "nat \<Rightarrow> 32 word \<Rightarrow> 'v hnode \<Rightarrow> bool" where
  "agree s h n \<longleftrightarrow> (\<forall>k \<in> hkeys n. take_bit s (hashKey k) = take_bit s h)"

lemma agree_0: "agree 0 h n"
  by (simp add: agree_def)

lemma agree_kid:
  assumes "hwf s (BNode bm arr)" and "agree s h (BNode bm arr)" and "kids bm arr (chunk s h) = Some c"
  shows "agree (s + 5) h c"
proof -
  have "c \<in> set arr" using assms kids_set_arr [of arr bm c] by (auto simp: hwf_BNode_iff)
  then show ?thesis
    using assms unfolding agree_def hwf_BNode_iff by (auto simp: chunk_eq_iff)
qed

lemma nodeGet_hmap:
  "hwf s n \<Longrightarrow> nodeGet_from n s (hashKey k) k = hmap n k"
proof (induction n s "hashKey k" k rule: nodeGet_from.induct)
  case (1 h0 k0 v0 s k)
  then show ?case by auto
next
  case (2 h0 ks vs s k)
  then have l: "length ks = length vs" "distinct ks" "\<And>k. k \<in> set ks \<Longrightarrow> hashKey k = h0" by auto
  show ?case
  proof (cases "index_of ks k")
    case None
    then have "map_of (zip ks vs) k = None" using l by (simp add: index_of_None)
    then show ?thesis using None by simp
  next
    case (Some i)
    then have "i < length ks" "ks ! i = k" using index_of_Some by fastforce+
    then show ?thesis using l Some map_of_zip_nth [of ks vs i] by auto
  qed
next
  case (3 bm arr s k)
  let ?i = "chunk s (hashKey k)"
  have l: "length arr = length (bits bm)" using "3.prems" by (simp add: hwf_BNode_iff)
  show ?case
  proof (cases "bit bm ?i")
    case True
    note at = kids_at(1) [OF l chunk_less True]
    then have "hwf (s + 5) (arr ! slot bm ?i)" using "3.prems" by (auto simp: hwf_BNode_iff)
    with "3.hyps" [OF refl refl] True at hmap_BNode [OF "3.prems"] show ?thesis
      by (simp add: Let_def bitpos_eq chunk_less)
  next
    case False
    with kids_at(2) [OF l chunk_less False] hmap_BNode [OF "3.prems"] show ?thesis by simp
  qed
qed

lemma hwf_update:
  assumes hw: "hwf s (BNode bm arr)" and i: "i < 32" "bit bm i"
    and nc: "hwf (s + 5) nc" "\<forall>k \<in> hkeys nc. chunk s (hashKey k) = i"
    and one: "length arr = 1 \<Longrightarrow> is_bnode nc"
  shows "hwf s (BNode bm (arr[slot bm i := nc]))"
proof -
  have w: "s < 32" "length arr = length (bits bm)" "arr \<noteq> []"
    "\<And>i c. kids bm arr i = Some c \<Longrightarrow> hwf (s + 5) c \<and> (\<forall>k \<in> hkeys c. chunk s (hashKey k) = i)"
    using hw by (auto simp: hwf_BNode_iff)
  note at = kids_at(1) [OF w(2) i]
  show ?thesis
  proof (rule hwf_BNode)
    fix j c
    assume "kids bm (arr[slot bm i := nc]) j = Some c"
    then show "hwf (s + 5) c \<and> (\<forall>k \<in> hkeys c. chunk s (hashKey k) = j)"
      using nc w(4) [of j c] unfolding kids_update [OF w(2) i] by (cases "j = i") simp_all
  next
    assume "length (arr[slot bm i := nc]) = 1"
    then show "is_bnode (arr[slot bm i := nc] ! 0)" using one at by simp
  qed (use w in simp_all)
qed

lemma hmap_update:
  assumes hw: "hwf s (BNode bm arr)" and i: "i < 32" "bit bm i"
    and hw': "hwf s (BNode bm (arr[slot bm i := nc]))"
  shows "hmap (BNode bm (arr[slot bm i := nc])) k =
    (if chunk s (hashKey k) = i then hmap nc k else hmap (BNode bm arr) k)"
proof -
  have l: "length arr = length (bits bm)" using hw by (simp add: hwf_BNode_iff)
  show ?thesis
    unfolding hmap_BNode [OF hw'] hmap_BNode [OF hw] kids_update [OF l i] by simp
qed

lemma hmap_BNode_at:
  assumes "hwf s (BNode bm arr)" and "kids bm arr (chunk s (hashKey k)) = Some c"
  shows "hmap (BNode bm arr) k = hmap c k"
  using hmap_BNode [OF assms(1), of k] assms(2) by simp

lemma map_of_zip_update:
  "length ks = length vs \<Longrightarrow> distinct ks \<Longrightarrow> i < length ks \<Longrightarrow>
   map_of (zip ks (vs[i := v])) = (map_of (zip ks vs))(ks ! i \<mapsto> v)"
proof (induction ks vs arbitrary: i rule: list_induct2)
  case (Cons k ks w vs)
  show ?case
  proof (cases i)
    case (Suc j)
    then have "ks ! j \<noteq> k" using Cons.prems by auto
    with Suc Cons show ?thesis by (simp add: fun_eq_iff)
  qed (simp add: fun_eq_iff)
qed simp

lemma map_of_zip_snoc:
  assumes "length ks = length vs" and "k \<notin> set ks"
  shows "map_of (zip (ks @ [k]) (vs @ [v])) = (map_of (zip ks vs))(k \<mapsto> v)"
proof -
  have "k \<notin> fst ` set (zip ks vs)" using assms(2) by (auto dest: set_zip_leftD)
  from map_of_insert_at [OF this, of "length (zip ks vs)" v] assms(1) show ?thesis by simp
qed

lemma assoc_spec:
  assumes "hwf s n" and "agree s (hashKey k) n"
    and "assoc_node n s (hashKey k) k v = (n', added)"
  shows "hwf s n' \<and> hmap n' = (hmap n)(k \<mapsto> v) \<and> (added \<longleftrightarrow> k \<notin> hkeys n)
    \<and> (is_bnode n \<longrightarrow> is_bnode n')"
  using assms
proof (induction n s "hashKey k" k v arbitrary: n' added rule: assoc_node.induct)
  case (1 h0 k0 v0 s k v)
  show ?case
  proof (cases "h0 = hashKey k")
    case True
    have "n' = (if k0 = k then Leaf h0 k v else CNode h0 [k0, k] [v0, v])" "added \<longleftrightarrow> k0 \<noteq> k"
      using "1.prems"(3) unfolding True [symmetric] by (auto split: if_splits)
    moreover have "hashKey k0 = h0" using "1.prems"(1) by simp
    ultimately show ?thesis using True [symmetric] by (auto simp: fun_eq_iff)
  next
    case False
    have h: "hwf s (Leaf h0 k0 v0)" "hwf s (Leaf (hashKey k) k v)" "nhash (Leaf h0 k0 v0) \<noteq> nhash (Leaf (hashKey k) k v)"
      "take_bit s (nhash (Leaf h0 k0 v0)) = take_bit s (nhash (Leaf (hashKey k) k v))"
      using "1.prems" False by (auto simp: agree_def)
    from False "1.prems"(3) have "n' = mergeLeaves s (Leaf h0 k0 v0) (Leaf (hashKey k) k v)" "added"
      by auto
    moreover have "k \<noteq> k0" using False "1.prems"(1) by auto
    moreover note mergeLeaves_spec [OF _ _ h]
    ultimately show ?thesis by simp
  qed
next
  case (2 h0 ks vs s k v)
  then have l: "length ks = length vs" "distinct ks" "2 \<le> length ks" "\<And>k. k \<in> set ks \<Longrightarrow> hashKey k = h0" by auto
  show ?case
  proof (cases "h0 = hashKey k")
    case False
    have "ks \<noteq> []" using l(3) by auto
    then have t: "take_bit s h0 = take_bit s (hashKey k)"
      using "2.prems"(2) l by (auto simp: agree_def neq_Nil_conv)
    have "n' = mergeLeaves s (CNode h0 ks vs) (Leaf (hashKey k) k v)" "added"
      using False "2.prems"(3) by auto
    moreover have "k \<notin> set ks" using l(4) False by auto
    moreover note mergeLeaves_spec [of "CNode h0 ks vs" "Leaf (hashKey k) k v" s]
    ultimately show ?thesis using "2.prems"(1) False t l(1) by simp
  next
    case h0: True
    show ?thesis
    proof (cases "index_of ks k")
      case None
      then have "k \<notin> set ks" by (simp add: index_of_None)
      note map_of_zip_snoc [OF l(1) this, of v]
      moreover have "n' = CNode h0 (ks @ [k]) (vs @ [v])" "added"
        using None "2.prems"(3) h0 by auto
      moreover have "hashKey k' = h0" if "k' \<in> set (ks @ [k])" for k' using that l(4) h0 by auto
      ultimately show ?thesis using \<open>k \<notin> set ks\<close> l by simp
    next
      case (Some i)
      then have i: "i < length ks" "ks ! i = k" using index_of_Some by fastforce+
      then have "map_of (zip ks (vs[i := v])) = (map_of (zip ks vs))(k \<mapsto> v)"
        using map_of_zip_update [of ks vs i v] l by simp
      moreover have "n' = CNode h0 ks (vs[i := v])" "\<not> added"
        using Some "2.prems"(3) h0 by auto
      ultimately show ?thesis using i l "2.prems"(1) by auto
    qed
  qed
next
  case (3 bm arr s k v)
  let ?i = "chunk s (hashKey k)"
  note w = "3.prems"(1) [unfolded hwf_BNode_iff]
  then have l: "length arr = length (bits bm)" by simp
  show ?case
  proof (cases "bit bm ?i")
    case True
    note at = kids_at(1) [OF l chunk_less True]
    let ?c = "arr ! slot bm ?i"
    obtain nc ad where nc: "assoc_node ?c (s + 5) (hashKey k) k v = (nc, ad)" by force
    have c: "hwf (s + 5) ?c" "agree (s + 5) (hashKey k) ?c"
      "\<forall>k \<in> hkeys ?c. chunk s (hashKey k) = ?i"
      using at w agree_kid [OF "3.prems"(1,2)] by auto
    have IH: "hwf (s + 5) nc" "hmap nc = (hmap ?c)(k \<mapsto> v)" "ad \<longleftrightarrow> k \<notin> hkeys ?c"
      "is_bnode ?c \<longrightarrow> is_bnode nc"
      using "3.hyps" [OF refl refl True] at c nc by (auto simp: bitpos_eq chunk_less)
    have n': "n' = BNode bm (arr[slot bm ?i := nc])" "added = ad"
      using "3.prems"(3) True at nc by (auto simp: Let_def bitpos_eq chunk_less split: if_splits)
    have "hkeys nc = insert k (hkeys ?c)" by (simp add: hkeys_dom IH(2))
    moreover have "length arr = 1 \<Longrightarrow> is_bnode nc" using w at IH(4) by auto
    ultimately have hw: "hwf s (BNode bm (arr[slot bm ?i := nc]))"
      using hwf_update [OF "3.prems"(1) chunk_less True IH(1)] c(3) by auto
    have sel: "hmap (BNode bm arr) k' = hmap ?c k'" if "chunk s (hashKey k') = ?i" for k'
      by (rule hmap_BNode_at [OF "3.prems"(1)]) (simp add: at that)
    have "hmap (BNode bm (arr[slot bm ?i := nc])) = (hmap (BNode bm arr))(k \<mapsto> v)"
      using hmap_update [OF "3.prems"(1) chunk_less True hw] sel IH(2) by (auto simp: fun_eq_iff)
    moreover have "k \<in> hkeys ?c \<longleftrightarrow> k \<in> hkeys (BNode bm arr)"
      unfolding hkeys_dom dom_def using sel [of k] by simp
    ultimately show ?thesis using hw IH(3) unfolding n' by simp
  next
    case False
    let ?leaf = "Leaf (hashKey k) k v"
    let ?arr = "take (slot bm ?i) arr @ ?leaf # drop (slot bm ?i) arr"
    have n': "n' = BNode (bm OR push_bit ?i 1) ?arr" "added"
      using "3.prems"(3) False by (auto simp: Let_def bitpos_eq chunk_less)
    note kd = kids_insert [OF l chunk_less False, of ?leaf]
    note kn = kids_at(2) [OF l chunk_less False]
    have hw: "hwf s n'"
      using w kd(2) kn unfolding n' hwf_BNode_iff kd(1) by auto
    have "hmap n' k' = ((hmap (BNode bm arr))(k \<mapsto> v)) k'" for k'
      using hmap_BNode [OF hw [unfolded n'], of k'] hmap_BNode [OF "3.prems"(1), of k'] kn
      unfolding n' kd(1) by auto
    moreover have "k \<notin> hkeys (BNode bm arr)"
      using hmap_BNode [OF "3.prems"(1), of k] kn by (auto simp: hkeys_dom simp del: hkeys_simps)
    ultimately show ?thesis using hw n' by auto
  qed
qed

text \<open>What an optional node stands for.\<close>

definition omap :: "'v hnode option \<Rightarrow> pkey \<rightharpoonup> 'v" where
  "omap n = (case n of None \<Rightarrow> Map.empty | Some m \<Rightarrow> hmap m)"

lemma omap_simps [simp]: "omap None = Map.empty" "omap (Some m) = hmap m"
  by (simp_all add: omap_def)

lemma hkeys_nonempty: "hwf s n \<Longrightarrow> hkeys n \<noteq> {}"
proof (induction s n rule: hwf.induct)
  case (hwf_BNode s arr bm)
  then obtain c where "c \<in> set arr" by (cases arr) auto
  moreover from this obtain i where "kids bm arr i = Some c"
    using kids_set_arr [OF hwf_BNode.hyps(2)] by blast
  ultimately show ?case using hwf_BNode.IH by fastforce
qed auto

lemma set_splice_out: "set (splice_out i xs) \<subseteq> set xs"
  by (auto simp: splice_out_def dest: in_set_takeD in_set_dropD)

lemma map_of_zip_splice:
  assumes "length ks = length vs" "distinct ks" "i < length ks"
  shows "map_of (zip (splice_out i ks) (splice_out i vs)) = (map_of (zip ks vs))(ks ! i := None)"
  using map_of_splice_out [of "zip ks vs" i] assms by (simp add: splice_out_zip)

lemma distinct_splice_out: "distinct xs \<Longrightarrow> distinct (splice_out i xs)"
  unfolding splice_out_def by (metis distinct_append distinct_take distinct_drop
      set_take_disj_set_drop_if_distinct le_SucI order_refl)

lemma dissoc_CNode:
  assumes l: "length ks = length vs" "distinct ks" "2 \<le> length ks" "\<And>k. k \<in> set ks \<Longrightarrow> hashKey k = h"
    and i: "i < length ks"
  shows "hwf s (if length ks = 2 then Leaf h (ks ! (1 - i)) (vs ! (1 - i))
           else CNode h (splice_out i ks) (splice_out i vs)) \<and>
    hmap (if length ks = 2 then Leaf h (ks ! (1 - i)) (vs ! (1 - i))
           else CNode h (splice_out i ks) (splice_out i vs)) = (map_of (zip ks vs))(ks ! i := None)"
proof (cases "length ks = 2")
  case True
  then obtain a b where ks: "ks = [a, b]" by (auto simp: numeral_2_eq_2 length_Suc_conv)
  moreover obtain x y where "vs = [x, y]" using True l(1) by (auto simp: numeral_2_eq_2 length_Suc_conv)
  moreover have "i = 0 \<or> i = 1" using i True by auto
  moreover have "hashKey a = h" "hashKey b = h" "a \<noteq> b" using l(2,4) ks by simp_all
  ultimately show ?thesis by (elim disjE) (simp_all add: fun_eq_iff)
next
  case False
  have "hwf s (CNode h (splice_out i ks) (splice_out i vs))"
  proof (rule hwf_CNode)
    fix k
    assume "k \<in> set (splice_out i ks)"
    with set_splice_out [of i ks] have "k \<in> set ks" by blast
    then show "hashKey k = h" by (rule l(4))
  next
    show "length (splice_out i ks) = length (splice_out i vs)" "2 \<le> length (splice_out i ks)"
      using False i l(1,3) by (simp_all add: length_splice_out)
    show "distinct (splice_out i ks)" using l(2) by (rule distinct_splice_out)
  qed
  note wf = this
  have mp: "hmap (CNode h (splice_out i ks) (splice_out i vs)) = (map_of (zip ks vs))(ks ! i := None)"
    unfolding hmap_simps by (rule map_of_zip_splice [OF l(1,2) i])
  show ?thesis
    unfolding if_not_P [OF False] by (rule conjI [OF wf mp])
qed

lemma slot_inj:
  assumes "i < 32" "bit bm i" "j < 32" "bit bm j" and "slot bm i = slot bm j"
  shows "i = j"
  using bits_slot(2) [OF assms(1,2)] bits_slot(2) [OF assms(3,4)] assms(5) by metis

lemma kids_bit:
  "length arr = length (bits bm) \<Longrightarrow> kids bm arr i = Some c \<Longrightarrow>
   i < 32 \<and> bit bm i \<and> slot bm i < length arr \<and> c = arr ! slot bm i"
  using kids_None [of arr bm i] kids_at(1) [of arr bm i] by fastforce

lemma hwf_remove:
  assumes hw: "hwf s (BNode bm arr)" and i: "i < 32" "bit bm i"
    and two: "2 \<le> length arr" "length arr = 2 \<Longrightarrow> is_bnode (arr ! (1 - slot bm i))"
  shows "hwf s (BNode (bm AND NOT (push_bit i 1)) (splice_out (slot bm i) arr))"
proof -
  have w: "s < 32" "length arr = length (bits bm)"
    "\<And>i c. kids bm arr i = Some c \<Longrightarrow> hwf (s + 5) c \<and> (\<forall>k \<in> hkeys c. chunk s (hashKey k) = i)"
    using hw by (auto simp: hwf_BNode_iff)
  note at = kids_at(1) [OF w(2) i]
  note rem = kids_remove [OF w(2) i]
  have len: "length (splice_out (slot bm i) arr) = length arr - 1"
    using at by (simp add: length_splice_out)
  show ?thesis
  proof (rule hwf_BNode)
    fix j c
    assume "kids (bm AND NOT (push_bit i 1)) (splice_out (slot bm i) arr) j = Some c"
    then show "hwf (s + 5) c \<and> (\<forall>k \<in> hkeys c. chunk s (hashKey k) = j)"
      using w(3) [of j c] unfolding rem(1) by (cases "j = i") simp_all
  next
    show "splice_out (slot bm i) arr \<noteq> []" using len two(1) by auto
  next
    assume "length (splice_out (slot bm i) arr) = 1"
    then have 2: "length arr = 2" using len by simp
    then obtain a b where "arr = [a, b]" by (auto simp: numeral_2_eq_2 length_Suc_conv)
    with two(2) [OF 2] at show "is_bnode (splice_out (slot bm i) arr ! 0)"
      by (cases "slot bm i") (auto simp: splice_out_def)
  qed (use w rem in simp_all)
qed

lemma hmap_remove:
  assumes hw: "hwf s (BNode bm arr)" and i: "i < 32" "bit bm i"
    and hw': "hwf s (BNode (bm AND NOT (push_bit i 1)) (splice_out (slot bm i) arr))"
  shows "hmap (BNode (bm AND NOT (push_bit i 1)) (splice_out (slot bm i) arr)) k =
    (if chunk s (hashKey k) = i then None else hmap (BNode bm arr) k)"
proof -
  have l: "length arr = length (bits bm)" using hw by (simp add: hwf_BNode_iff)
  show ?thesis
    unfolding hmap_BNode [OF hw'] hmap_BNode [OF hw] kids_remove(1) [OF l i] by simp
qed

text \<open>With two children, the other one holds every key of another chunk; with one, none is left.\<close>

lemma hmap_other:
  assumes hw: "hwf s (BNode bm arr)" and i: "i < 32" "bit bm i" and two: "length arr = 2"
  shows "hmap (arr ! (1 - slot bm i)) k = (if chunk s (hashKey k) = i then None else hmap (BNode bm arr) k)"
proof -
  have l: "length arr = length (bits bm)"
    and kid: "\<And>i c. kids bm arr i = Some c \<Longrightarrow> (\<forall>k \<in> hkeys c. chunk s (hashKey k) = i)"
    using hw by (auto simp: hwf_BNode_iff)
  let ?p = "slot bm i"
  let ?j = "bits bm ! (1 - ?p)" and ?o = "arr ! (1 - ?p)"
  have p: "?p < 2" using kids_at(1) [OF l i] two by simp
  then have q: "1 - ?p < length (bits bm)" "1 - ?p \<noteq> ?p" using l two by arith+
  have "kids bm arr ?j = Some ?o"
    using q l bits_distinct by (simp add: kids_def map_of_zip_nth)
  have ji: "?j \<noteq> i"
    using q bits_slot [OF i] bits_distinct nth_eq_iff_index_eq by metis
  have "hmap ?o k = None" if "chunk s (hashKey k) \<noteq> ?j" for k
    using kid [OF \<open>kids bm arr ?j = Some ?o\<close>] that by (auto simp: hkeys_dom dom_def)
  moreover have "kids bm arr j = None" if "j \<noteq> i" "j \<noteq> ?j" for j
  proof (rule ccontr)
    assume "kids bm arr j \<noteq> None"
    then obtain c where "kids bm arr j = Some c" by blast
    from kids_bit [OF l this] have j: "j < 32" "bit bm j" "slot bm j < 2" using two by auto
    have "slot bm j = ?p \<or> slot bm j = 1 - ?p" using j(3) p by auto
    then show False
      using slot_inj [OF j(1,2) i] that bits_slot(2) [OF j(1,2)] by auto
  qed
  ultimately show ?thesis
    using hmap_BNode [OF hw, of k] \<open>kids bm arr ?j = Some ?o\<close> ji
    by (cases "chunk s (hashKey k) = ?j") auto
qed

lemma hmap_single:
  assumes hw: "hwf s (BNode bm arr)" and i: "i < 32" "bit bm i" and one: "length arr = 1"
    and ne: "chunk s (hashKey k) \<noteq> i"
  shows "hmap (BNode bm arr) k = None"
proof -
  have l: "length arr = length (bits bm)" using hw by (auto simp: hwf_BNode_iff)
  have "kids bm arr (chunk s (hashKey k)) = None"
  proof (rule ccontr)
    assume "kids bm arr (chunk s (hashKey k)) \<noteq> None"
    then obtain c where "kids bm arr (chunk s (hashKey k)) = Some c" by blast
    from kids_bit [OF l this] kids_at(1) [OF l i] one
    have "slot bm (chunk s (hashKey k)) = slot bm i" "bit bm (chunk s (hashKey k))" by auto
    with slot_inj [OF chunk_less _ i] ne show False by blast
  qed
  then show ?thesis using hmap_BNode [OF hw, of k] by simp
qed

lemma dissoc_spec:
  assumes "hwf s n" and "dissoc_node n s (hashKey k) k = (r, removed)"
  shows "(\<forall>m. r = Some m \<longrightarrow> hwf s m) \<and> omap r = (hmap n)(k := None) \<and>
    (removed \<longleftrightarrow> k \<in> hkeys n) \<and> (\<not> removed \<longrightarrow> r = Some n)"
  using assms
proof (induction n s "hashKey k" k arbitrary: r removed rule: dissoc_node.induct)
  case (1 h0 k0 v0 s k)
  then show ?case by (cases "k0 = k") (auto simp: fun_eq_iff)
next
  case (2 h0 ks vs s k)
  then have l: "length ks = length vs" "distinct ks" "2 \<le> length ks" "\<And>k. k \<in> set ks \<Longrightarrow> hashKey k = h0" by auto
  show ?case
  proof (cases "h0 = hashKey k \<and> k \<in> set ks")
    case True
    then obtain i where i: "index_of ks k = Some i" using index_of_None [of ks k]
      by (cases "index_of ks k") simp_all
    then have ik: "i < length ks" "ks ! i = k" using index_of_Some by fastforce+
    have h0: "hashKey k = h0" using True by simp
    have "r = Some (if length ks = 2 then Leaf h0 (ks ! (1 - i)) (vs ! (1 - i))
           else CNode h0 (splice_out i ks) (splice_out i vs))" "removed"
      using "2.prems"(2) i unfolding h0 by (auto split: if_splits)
    with dissoc_CNode [OF l ik(1), of s] ik True l(1) show ?thesis by simp
  next
    case False
    then have "k \<notin> set ks" using l(4) by auto
    moreover have "r = Some (CNode h0 ks vs)" "\<not> removed"
      using False "2.prems"(2) by (auto simp: index_of_None [THEN iffD2] split: if_splits)
    moreover have "map_of (zip ks vs) k = None" using \<open>k \<notin> set ks\<close> l(1) by simp
    ultimately show ?thesis using "2.prems"(1) l(1) by (simp add: fun_upd_idem)
  qed
next
  case (3 bm arr s k)
  let ?i = "chunk s (hashKey k)"
  note w = "3.prems"(1) [unfolded hwf_BNode_iff]
  then have l: "length arr = length (bits bm)" by simp
  show ?case
  proof (cases "bit bm ?i")
    case False
    have "r = Some (BNode bm arr)" "\<not> removed" using "3.prems"(2) False by (auto simp: Let_def)
    moreover have "hmap (BNode bm arr) k = None"
      using hmap_BNode [OF "3.prems"(1), of k] kids_at(2) [OF l chunk_less False] by simp
    ultimately show ?thesis using "3.prems"(1) by (simp add: fun_upd_idem hkeys_dom dom_def del: hkeys_simps)
  next
    case True
    note at = kids_at(1) [OF l chunk_less True]
    let ?c = "arr ! slot bm ?i"
    obtain nc rm where nc: "dissoc_node ?c (s + 5) (hashKey k) k = (nc, rm)" by force
    have c: "hwf (s + 5) ?c" "\<forall>k \<in> hkeys ?c. chunk s (hashKey k) = ?i" using at w by auto
    have IH: "\<forall>m. nc = Some m \<longrightarrow> hwf (s + 5) m" "omap nc = (hmap ?c)(k := None)"
      "rm \<longleftrightarrow> k \<in> hkeys ?c" "\<not> rm \<longrightarrow> nc = Some ?c"
      using "3.hyps" [OF refl refl] True at c nc by (auto simp: bitpos_eq chunk_less)
    have sel: "hmap (BNode bm arr) k' = hmap ?c k'" if "chunk s (hashKey k') = ?i" for k'
      by (rule hmap_BNode_at [OF "3.prems"(1)]) (simp add: at that)
    have inc: "k \<in> hkeys ?c \<longleftrightarrow> k \<in> hkeys (BNode bm arr)"
      unfolding hkeys_dom dom_def using sel [of k] by simp
    have rem: "removed = rm"
      using "3.prems"(2) True at nc
      by (auto simp: Let_def bitpos_eq chunk_less split: if_splits option.splits)
    show ?thesis
    proof (cases nc)
      case None
      have gone: "hmap (BNode bm arr) k' = None" if "chunk s (hashKey k') = ?i" "k' \<noteq> k" for k'
        using IH(2) None sel [OF that(1)] that(2) by (auto simp: fun_eq_iff split: if_splits)
      have rmd: "removed" using rem IH(4) None by auto
      consider "length arr = 1" | "length arr = 2" "\<not> is_bnode (arr ! (1 - slot bm ?i))"
        | "2 \<le> length arr" "length arr = 2 \<Longrightarrow> is_bnode (arr ! (1 - slot bm ?i))"
        using w by (cases "length arr = 0"; cases "length arr = 1") auto
      then show ?thesis
      proof cases
        case 1
        then have "r = None"
          using "3.prems"(2) True at nc None by (simp add: Let_def bitpos_eq chunk_less)
        moreover have "hmap (BNode bm arr) k' = None" if "k' \<noteq> k" for k'
          using gone [OF _ that] hmap_single [OF "3.prems"(1) chunk_less True 1] by blast
        ultimately show ?thesis using rmd rem IH(3) inc by (auto simp: fun_eq_iff simp del: hkeys_simps)
      next
        case 2
        let ?o = "arr ! (1 - slot bm ?i)"
        have r: "r = Some ?o"
          using "3.prems"(2) True at nc None 2 by (simp add: Let_def bitpos_eq chunk_less)
        have "1 - slot bm ?i < length arr" using 2 at by arith
        then have "?o \<in> set arr" by simp
        then have "hwf (s + 5) ?o" using w unfolding kids_set_arr [OF l] by blast
        then have "hwf s ?o" using hwf_leafish 2(2) by blast
        moreover have "hmap ?o k' = ((hmap (BNode bm arr))(k := None)) k'" for k'
          using hmap_other [OF "3.prems"(1) chunk_less True 2(1), of k'] gone [of k'] by auto
        ultimately show ?thesis using r rmd rem IH(3) inc by (auto simp: fun_eq_iff simp del: hkeys_simps)
      next
        case 3
        let ?n = "BNode (bm AND NOT (push_bit ?i 1)) (splice_out (slot bm ?i) arr)"
        have r: "r = Some ?n"
          using "3.prems"(2) True at nc None 3 by (auto simp: Let_def bitpos_eq chunk_less)
        have hw: "hwf s ?n" by (rule hwf_remove [OF "3.prems"(1) chunk_less True 3])
        moreover have "hmap ?n k' = ((hmap (BNode bm arr))(k := None)) k'" for k'
          using hmap_remove [OF "3.prems"(1) chunk_less True hw, of k'] gone [of k'] by auto
        ultimately show ?thesis using r rmd rem IH(3) inc by (auto simp: fun_eq_iff simp del: hkeys_simps)
      qed
    next
      case (Some m)
      have m: "hwf (s + 5) m" "hmap m = (hmap ?c)(k := None)" using IH Some by auto
      have hk: "hkeys m \<subseteq> hkeys ?c" by (auto simp: hkeys_dom m(2))
      have ne: "m \<noteq> ?c" if rm
      proof -
        have "hmap m k = None" "hmap ?c k \<noteq> None" using that IH(3) m(2) by (auto simp: hkeys_dom)
        then show ?thesis by auto
      qed
      consider "\<not> rm" | "rm" "length arr = 1" "\<not> is_bnode m" | "rm" "length arr = 1 \<Longrightarrow> is_bnode m"
        by blast
      then show ?thesis
      proof cases
        case 1
        then have "m = ?c" "k \<notin> hkeys (BNode bm arr)" using IH(3,4) Some inc by auto
        moreover have "r = Some (BNode bm arr)"
          using "3.prems"(2) True at nc Some \<open>m = ?c\<close> by (simp add: Let_def bitpos_eq chunk_less)
        ultimately show ?thesis using "3.prems"(1) 1 rem
          by (simp add: hkeys_dom dom_def fun_upd_idem del: hkeys_simps)
      next
        case 2
        have "r = Some m"
          using "3.prems"(2) True at nc Some 2 ne by (simp add: Let_def bitpos_eq chunk_less)
        moreover have "hwf s m" using hwf_leafish 2(3) m(1) by blast
        moreover have "hmap m k' = ((hmap (BNode bm arr))(k := None)) k'" for k'
        proof (cases "chunk s (hashKey k') = ?i")
          case True
          then show ?thesis using sel m(2) by simp
        next
          case False
          then have "k' \<notin> hkeys m" using hk c(2) by auto
          then show ?thesis
            using False hmap_single [OF "3.prems"(1) chunk_less \<open>bit bm ?i\<close> 2(2) False]
            by (auto simp: hkeys_dom dom_def)
        qed
        ultimately show ?thesis using 2 rem IH(3) inc by (auto simp: fun_eq_iff simp del: hkeys_simps)
      next
        case 3
        let ?n = "BNode bm (arr[slot bm ?i := m])"
        have r: "r = Some ?n"
          using "3.prems"(2) True at nc Some 3 ne by (auto simp: Let_def bitpos_eq chunk_less split: if_splits)
        have hw: "hwf s ?n"
          using hwf_update [OF "3.prems"(1) chunk_less True m(1)] hk c(2) 3(2) by auto
        moreover have "hmap ?n k' = ((hmap (BNode bm arr))(k := None)) k'" for k'
          using hmap_update [OF "3.prems"(1) chunk_less True hw, of k'] sel [of k'] m(2) by auto
        ultimately show ?thesis using r 3(1) rem IH(3) inc by (auto simp: fun_eq_iff simp del: hkeys_simps)
      qed
    qed
  qed
qed

end
