(* ===== verification/PersistentMap.thy ===== *)
theory PersistentMap
  imports HashMap "HOL-Library.Finite_Map"
begin

text \<open>
  The public classes of \<^verbatim>\<open>runtime/src/pmap.js\<close>: the persistent map, its transient handle and
  the persistent set. The locale \<open>persistent_map\<close> is the interface the datatypes rely on; it
  carries bulk building, twin determinism and the delta form of the ternary merge, proved once.
  It is interpreted on the trie, which discharges its laws for the code's own representation,
  and on the library's finite maps, which the datatype theories use as the states.
\<close>

section \<open>The interface\<close>

locale persistent_map =
  fixes empty :: 'm
    and get :: "'m \<Rightarrow> 'k::linorder \<Rightarrow> 'v option"
    and put :: "'m \<Rightarrow> 'k \<Rightarrow> 'v \<Rightarrow> 'm"
    and del :: "'m \<Rightarrow> 'k \<Rightarrow> 'm"
    and card_of :: "'m \<Rightarrow> nat"
    and entries :: "'m \<Rightarrow> ('k \<times> 'v) list"
    and inv :: "'m \<Rightarrow> bool"
  assumes inv_empty: "inv empty"
    and inv_put: "inv m \<Longrightarrow> inv (put m k v)"
    and inv_del: "inv m \<Longrightarrow> inv (del m k)"
    and get_empty: "get empty = Map.empty"
    and get_put: "inv m \<Longrightarrow> get (put m k v) = (get m)(k \<mapsto> v)"
    and get_del: "inv m \<Longrightarrow> get (del m k) = (get m)(k := None)"
    and card_dom: "inv m \<Longrightarrow> card_of m = card (dom (get m))"
    and entries_sorted: "inv m \<Longrightarrow> sorted_wrt (<) (map fst (entries m))"
    and entries_get: "inv m \<Longrightarrow> map_of (entries m) = get m"
begin

definition bulk :: "('k \<times> 'v) list \<Rightarrow> 'm \<Rightarrow> 'm" where
  "bulk kvs m = foldl (\<lambda>m (k, v). put m k v) m kvs"

lemma bulk_spec: "inv m \<Longrightarrow> inv (bulk kvs m) \<and> get (bulk kvs m) = get m ++ map_of (rev kvs)"
proof (induction kvs arbitrary: m)
  case (Cons kv kvs)
  obtain k v where "kv = (k, v)" by force
  with Cons.IH [of "put m k v"] Cons.prems show ?case
    by (auto simp: bulk_def inv_put get_put fun_eq_iff map_add_def split: option.split)
qed (simp add: bulk_def)

text \<open>Twins: maps with the same contents have the same entries, in the same order.\<close>

lemma entries_canonical:
  assumes "inv m" and "inv m'" and "get m = get m'"
  shows "entries m = entries m'"
proof -
  have d: "sorted (map fst (entries x)) \<and> distinct (map fst (entries x))" if "inv x" for x
    using entries_sorted [OF that] by (simp add: strict_sorted_iff)
  have k: "map fst (entries m) = map fst (entries m')"
    using d [OF assms(1)] d [OF assms(2)] entries_get [OF assms(1)] entries_get [OF assms(2)] assms(3)
    by (metis dom_map_of_conv_image_fst set_map sorted_distinct_set_unique)
  have "entries x = map (\<lambda>k. (k, the (get x k))) (map fst (entries x))" if "inv x" for x
    unfolding map_map
  proof (rule map_idI [symmetric])
    fix kv
    assume "kv \<in> set (entries x)"
    then have "map_of (entries x) (fst kv) = Some (snd kv)"
      using d [OF that] by simp
    then show "((\<lambda>k. (k, the (get x k))) \<circ> fst) kv = kv"
      by (simp add: entries_get [OF that])
  qed
  from this [OF assms(1)] this [OF assms(2)] show ?thesis by (simp only: k assms(3))
qed

text \<open>
  The delta form of the ternary merge: from \<open>a\<close>, delete the keys of \<open>l\<close> that \<open>b\<close> dropped and
  add the entries of \<open>b\<close> that neither \<open>a\<close> nor \<open>l\<close> has. The keys and entries may be visited in
  any order.
\<close>

definition drop_step :: "'m \<Rightarrow> 'm \<Rightarrow> 'k \<Rightarrow> 'm" where
  "drop_step b s k = (if get b k = None then del s k else s)"

definition add_step :: "'m \<Rightarrow> 'm \<Rightarrow> 'm \<Rightarrow> 'k \<times> 'v \<Rightarrow> 'm" where
  "add_step l a s kv = (if get a (fst kv) = None \<and> get l (fst kv) = None
     then put s (fst kv) (snd kv) else s)"

lemma drop_fold:
  "inv s \<Longrightarrow> inv (foldl (drop_step b) s ks) \<and>
   get (foldl (drop_step b) s ks) = (\<lambda>k. if k \<in> set ks \<and> get b k = None then None else get s k)"
proof (induction ks arbitrary: s)
  case (Cons k ks)
  have i: "inv (drop_step b s k)" using Cons.prems by (simp add: drop_step_def inv_del)
  have "get (drop_step b s k) = (\<lambda>k'. if k' = k \<and> get b k' = None then None else get s k')"
    using Cons.prems by (auto simp: drop_step_def get_del fun_eq_iff)
  with Cons.IH [OF i] show ?case by (auto simp: fun_eq_iff)
qed simp

lemma add_fold:
  "inv s \<Longrightarrow> distinct (map fst kvs) \<Longrightarrow> inv (foldl (add_step l a) s kvs) \<and>
   get (foldl (add_step l a) s kvs) = (\<lambda>k. if k \<in> fst ` set kvs \<and> get a k = None \<and> get l k = None
      then map_of kvs k else get s k)"
proof (induction kvs arbitrary: s)
  case (Cons kv kvs)
  have i: "inv (add_step l a s kv)" using Cons.prems by (simp add: add_step_def inv_put)
  have "get (add_step l a s kv) = (\<lambda>k. if k = fst kv \<and> get a k = None \<and> get l k = None
      then Some (snd kv) else get s k)"
    using Cons.prems by (auto simp: add_step_def get_put fun_eq_iff)
  moreover have "distinct (map fst kvs)" "fst kv \<notin> fst ` set kvs" using Cons.prems(2) by auto
  ultimately show ?case using Cons.IH [OF i] by (cases kv) (auto simp: fun_eq_iff)
qed simp

definition delta_merge :: "'m \<Rightarrow> 'm \<Rightarrow> 'm \<Rightarrow> 'k list \<Rightarrow> ('k \<times> 'v) list \<Rightarrow> 'm" where
  "delta_merge l a b lks bkvs = foldl (add_step l a) (foldl (drop_step b) a lks) bkvs"

lemma delta_merge_spec:
  assumes "inv a" and "set lks = dom (get l)" and "distinct (map fst bkvs)" and "map_of bkvs = get b"
  shows "inv (delta_merge l a b lks bkvs)"
    and "get (delta_merge l a b lks bkvs) = (\<lambda>k.
      case get a k of
        Some v \<Rightarrow> if get l k \<noteq> None \<and> get b k = None then None else Some v
      | None \<Rightarrow> if get l k = None then get b k else None)"
proof -
  note d = drop_fold [OF assms(1), of b lks]
  note ad = add_fold [OF conjunct1 [OF d] assms(3), of l a]
  show "inv (delta_merge l a b lks bkvs)" using ad by (simp add: delta_merge_def)
  have "fst ` set bkvs = dom (get b)" using assms(4) by (metis dom_map_of_conv_image_fst)
  then show "get (delta_merge l a b lks bkvs) = (\<lambda>k.
      case get a k of
        Some v \<Rightarrow> if get l k \<noteq> None \<and> get b k = None then None else Some v
      | None \<Rightarrow> if get l k = None then get b k else None)"
    using ad d assms(2,4) by (auto simp: delta_merge_def fun_eq_iff split: option.split)
qed

lemma delta_merge_dom:
  assumes "inv a" and "set lks = dom (get l)" and "distinct (map fst bkvs)" and "map_of bkvs = get b"
  shows "dom (get (delta_merge l a b lks bkvs)) =
    (dom (get a) \<inter> dom (get b)) \<union> (dom (get a) - dom (get l)) \<union> (dom (get b) - dom (get l))"
  unfolding delta_merge_spec(2) [OF assms] by (auto split: option.splits if_splits)

end

section \<open>The persistent map\<close>

record 'v pmap =
  p_root :: "'v hnode option"
  p_size :: nat

definition pmap_empty :: "'v pmap" where
  "pmap_empty = \<lparr>p_root = None, p_size = 0\<rparr>"

definition pmap_get :: "'v pmap \<Rightarrow> pkey \<Rightarrow> 'v option" where
  "pmap_get m k = nodeGet (p_root m) (hashKey k) k"

definition pmap_has :: "'v pmap \<Rightarrow> pkey \<Rightarrow> bool" where
  "pmap_has m k \<longleftrightarrow> nodeGet (p_root m) (hashKey k) k \<noteq> None"

definition pmap_set :: "'v pmap \<Rightarrow> pkey \<Rightarrow> 'v \<Rightarrow> 'v pmap" where
  "pmap_set m k v = (let (r, added) = assoc (p_root m) 0 (hashKey k) k v
     in if Some r = p_root m then m
        else \<lparr>p_root = Some r, p_size = p_size m + (if added then 1 else 0)\<rparr>)"

definition pmap_delete :: "'v pmap \<Rightarrow> pkey \<Rightarrow> 'v pmap" where
  "pmap_delete m k = (let (r, removed) = dissoc (p_root m) 0 (hashKey k) k
     in if \<not> removed then m else \<lparr>p_root = r, p_size = p_size m - 1\<rparr>)"

definition pmap_forEachRaw :: "'v pmap \<Rightarrow> (pkey \<times> 'v) list" where
  "pmap_forEachRaw m = forEachNode (p_root m)"

definition pmap_entries :: "'v pmap \<Rightarrow> (pkey \<times> 'v) list" where
  "pmap_entries m = sort_key fst (forEachNode (p_root m))"

definition pmap_keys :: "'v pmap \<Rightarrow> pkey list" where
  "pmap_keys m = map fst (pmap_entries m)"

definition pmap_values :: "'v pmap \<Rightarrow> 'v list" where
  "pmap_values m = map snd (pmap_entries m)"

section \<open>The transient handle\<close>

text \<open>\<open>tp_alive\<close> is \<^verbatim>\<open>#edit !== null\<close>.\<close>

record 'v tpmap =
  tp_alive :: bool
  tp_root :: "'v hnode option"
  tp_size :: nat

definition pmap_begin :: "'v pmap \<Rightarrow> 'v tpmap" where
  "pmap_begin m = \<lparr>tp_alive = True, tp_root = p_root m, tp_size = p_size m\<rparr>"

definition tp_check :: "'v tpmap \<Rightarrow> unit res" where
  "tp_check t = (if tp_alive t then Inr () else Inl (Error ''transient used after freeze()''))"

definition tp_get :: "'v tpmap \<Rightarrow> pkey \<Rightarrow> 'v option res" where
  "tp_get t k = rbind (tp_check t) (\<lambda>_. Inr (nodeGet (tp_root t) (hashKey k) k))"

definition tp_has :: "'v tpmap \<Rightarrow> pkey \<Rightarrow> bool res" where
  "tp_has t k = rbind (tp_check t) (\<lambda>_. Inr (nodeGet (tp_root t) (hashKey k) k \<noteq> None))"

definition tp_set :: "'v tpmap \<Rightarrow> pkey \<Rightarrow> 'v \<Rightarrow> 'v tpmap res" where
  "tp_set t k v = rbind (tp_check t) (\<lambda>_.
     let (r, added) = assoc (tp_root t) 0 (hashKey k) k v
     in Inr (t\<lparr>tp_root := Some r, tp_size := tp_size t + (if added then 1 else 0)\<rparr>))"

definition tp_delete :: "'v tpmap \<Rightarrow> pkey \<Rightarrow> 'v tpmap res" where
  "tp_delete t k = rbind (tp_check t) (\<lambda>_.
     let (r, removed) = dissoc (tp_root t) 0 (hashKey k) k
     in Inr (t\<lparr>tp_root := r, tp_size := tp_size t - (if removed then 1 else 0)\<rparr>))"

text \<open>\<open>freeze\<close> returns the map and leaves the handle dead.\<close>

definition tp_freeze :: "'v tpmap \<Rightarrow> ('v pmap \<times> 'v tpmap) res" where
  "tp_freeze t = rbind (tp_check t) (\<lambda>_.
     Inr (if tp_size t = 0 then pmap_empty else \<lparr>p_root = tp_root t, p_size = tp_size t\<rparr>,
          t\<lparr>tp_alive := False\<rparr>))"

definition pmap_from :: "(pkey \<times> 'v) list \<Rightarrow> 'v pmap res" where
  "pmap_from kvs = rbind (foldM (\<lambda>(k, v) t. tp_set t k v) kvs (pmap_begin pmap_empty))
     (\<lambda>t. rbind (tp_freeze t) (\<lambda>(m, _). Inr m))"

section \<open>The persistent set\<close>

type_synonym pset = "bool pmap"

definition pset_empty :: pset where "pset_empty = pmap_empty"

definition pset_has :: "pset \<Rightarrow> pkey \<Rightarrow> bool" where "pset_has s k = pmap_has s k"

definition pset_add :: "pset \<Rightarrow> pkey \<Rightarrow> pset" where "pset_add s k = pmap_set s k True"

definition pset_delete :: "pset \<Rightarrow> pkey \<Rightarrow> pset" where "pset_delete s k = pmap_delete s k"

definition pset_keys :: "pset \<Rightarrow> pkey list" where "pset_keys s = pmap_keys s"

definition pset_from :: "pkey list \<Rightarrow> pset res" where
  "pset_from ks = rbind (foldM (\<lambda>k t. tp_set t k True) ks (pmap_begin pmap_empty))
     (\<lambda>t. rbind (tp_freeze t) (\<lambda>(m, _). Inr m))"

section \<open>The trie is a persistent map\<close>

definition root_inv :: "'v hnode option \<Rightarrow> nat \<Rightarrow> bool" where
  "root_inv r n \<longleftrightarrow> (case r of None \<Rightarrow> True | Some m \<Rightarrow> hwf 0 m) \<and> n = card (dom (omap r))"

definition pmap_inv :: "'v pmap \<Rightarrow> bool" where
  "pmap_inv m \<longleftrightarrow> root_inv (p_root m) (p_size m)"

lemma finite_omap: "finite (dom (omap r))"
  by (cases r) (simp_all add: hmap_def finite_dom_map_of)

lemma assoc_omap:
  assumes "root_inv r n" and "assoc r 0 (hashKey k) k v = (m, added)"
  shows "root_inv (Some m) (n + (if added then 1 else 0)) \<and> omap (Some m) = (omap r)(k \<mapsto> v)"
proof -
  have "hwf 0 m \<and> hmap m = (omap r)(k \<mapsto> v) \<and> (added \<longleftrightarrow> k \<notin> dom (omap r))"
  proof (cases r)
    case None
    with assms(2) show ?thesis by (auto simp: assoc_def)
  next
    case (Some m0)
    with assms have "hwf 0 m0" "assoc_node m0 0 (hashKey k) k v = (m, added)"
      by (auto simp: root_inv_def assoc_def)
    from assoc_spec [OF this(1) agree_0 this(2)] Some show ?thesis by (simp add: hkeys_dom)
  qed
  with assms(1) finite_omap [of r] show ?thesis
    by (auto simp: root_inv_def insert_absorb)
qed

lemma dissoc_omap:
  assumes "root_inv r n" and "dissoc r 0 (hashKey k) k = (r', removed)"
  shows "root_inv r' (n - (if removed then 1 else 0)) \<and> omap r' = (omap r)(k := None) \<and>
    (\<not> removed \<longrightarrow> r' = r)"
proof -
  have "(\<forall>m. r' = Some m \<longrightarrow> hwf 0 m) \<and> omap r' = (omap r)(k := None) \<and>
      (removed \<longleftrightarrow> k \<in> dom (omap r)) \<and> (\<not> removed \<longrightarrow> r' = r)"
  proof (cases r)
    case None
    with assms(2) show ?thesis by (auto simp: dissoc_def)
  next
    case (Some m0)
    with assms have "hwf 0 m0" "dissoc_node m0 0 (hashKey k) k = (r', removed)"
      by (auto simp: root_inv_def dissoc_def)
    from dissoc_spec [OF this] Some show ?thesis by (simp add: hkeys_dom)
  qed
  with assms(1) finite_omap [of r] show ?thesis
    by (auto simp: root_inv_def card_Diff_singleton split: option.split)
qed

lemma nodeGet_omap: "root_inv r n \<Longrightarrow> nodeGet r (hashKey k) k = omap r k"
  by (cases r) (auto simp: nodeGet_def root_inv_def nodeGet_hmap)

lemma pmap_get_omap: "pmap_inv m \<Longrightarrow> pmap_get m = omap (p_root m)"
  by (auto simp: pmap_inv_def pmap_get_def nodeGet_omap)

lemma pmap_empty_inv: "pmap_inv pmap_empty"
  by (simp add: pmap_inv_def pmap_empty_def root_inv_def)

lemma pmap_set_inv: "pmap_inv m \<Longrightarrow> pmap_inv (pmap_set m k v)"
  and pmap_get_set: "pmap_inv m \<Longrightarrow> pmap_get (pmap_set m k v) = (pmap_get m)(k \<mapsto> v)"
proof -
  assume m: "pmap_inv m"
  obtain r added where a: "assoc (p_root m) 0 (hashKey k) k v = (r, added)" by force
  note s = assoc_omap [OF m [unfolded pmap_inv_def] a]
  show inv: "pmap_inv (pmap_set m k v)"
    using m s a by (auto simp: pmap_set_def pmap_inv_def)
  have "omap (p_root (pmap_set m k v)) = (omap (p_root m))(k \<mapsto> v)"
  proof (cases "Some r = p_root m")
    case True
    then show ?thesis using s a by (simp add: pmap_set_def)
  qed (use s a in \<open>simp add: pmap_set_def\<close>)
  then show "pmap_get (pmap_set m k v) = (pmap_get m)(k \<mapsto> v)"
    by (simp add: pmap_get_omap [OF m] pmap_get_omap [OF inv])
qed

lemma pmap_delete_inv: "pmap_inv m \<Longrightarrow> pmap_inv (pmap_delete m k)"
  and pmap_get_delete: "pmap_inv m \<Longrightarrow> pmap_get (pmap_delete m k) = (pmap_get m)(k := None)"
proof -
  assume m: "pmap_inv m"
  obtain r removed where a: "dissoc (p_root m) 0 (hashKey k) k = (r, removed)" by force
  note s = dissoc_omap [OF m [unfolded pmap_inv_def] a]
  show inv: "pmap_inv (pmap_delete m k)"
    using m s a by (auto simp: pmap_delete_def pmap_inv_def)
  have "omap (p_root (pmap_delete m k)) = (omap (p_root m))(k := None)"
    using s a by (auto simp: pmap_delete_def)
  then show "pmap_get (pmap_delete m k) = (pmap_get m)(k := None)"
    by (simp add: pmap_get_omap [OF m] pmap_get_omap [OF inv])
qed

text \<open>The entries visited by \<open>forEachNode\<close> have distinct keys.\<close>

lemma hentries_distinct: "hwf s n \<Longrightarrow> distinct (map fst (hentries n))"
proof (induction s n rule: hwf.induct)
  case (hwf_BNode s arr bm)
  have kid: "kids bm arr (bits bm ! j) = Some (arr ! j)" if "j < length arr" for j
    using that hwf_BNode.hyps(2) bits_distinct by (simp add: kids_def map_of_zip_nth)
  have one: "distinct (map fst (hentries c))" if "c \<in> set arr" for c
    using that hwf_BNode.IH kids_set_arr [OF hwf_BNode.hyps(2)] by blast
  have disj: "hkeys (arr ! i) \<inter> hkeys (arr ! j) = {}" if "i < length arr" "j < length arr" "i \<noteq> j" for i j
  proof -
    have "bits bm ! i \<noteq> bits bm ! j"
      using that hwf_BNode.hyps(2) bits_distinct by (simp add: nth_eq_iff_index_eq)
    then show ?thesis using hwf_BNode.IH [OF kid [OF that(1)]] hwf_BNode.IH [OF kid [OF that(2)]] by auto
  qed
  have "distinct (concat (map (\<lambda>c. map fst (hentries c)) arr))" if
    "\<And>c. c \<in> set arr \<Longrightarrow> distinct (map fst (hentries c))"
    "\<And>i j. i < length arr \<Longrightarrow> j < length arr \<Longrightarrow> i \<noteq> j \<Longrightarrow> hkeys (arr ! i) \<inter> hkeys (arr ! j) = {}" for arr
    using that
  proof (induction arr)
    case (Cons c arr)
    have "hkeys c \<inter> hkeys d = {}" if "d \<in> set arr" for d
      using that Cons.prems(2) [of 0 "Suc _"] by (auto simp: in_set_conv_nth)
    moreover have "hkeys (arr ! i) \<inter> hkeys (arr ! j) = {}" if "i < length arr" "j < length arr" "i \<noteq> j" for i j
      using Cons.prems(2) [of "Suc i" "Suc j"] that by simp
    ultimately show ?case using Cons by (auto simp: hkeys_def)
  qed simp
  from this [OF one disj] show ?case by (simp add: map_concat comp_def)
qed (simp_all add: distinct_map)

lemma forEachNode_spec:
  assumes "root_inv r n"
  shows "distinct (map fst (forEachNode r)) \<and> map_of (forEachNode r) = omap r"
  using assms hentries_distinct [of 0]
  by (cases r) (auto simp: root_inv_def forEachNode_def hmap_def)

lemma distinct_sort_key_fst: "distinct (map fst (sort_key f xs)) = distinct (map fst xs)"
  by (simp add: distinct_map)

lemma map_of_sort_key:
  "distinct (map fst xs) \<Longrightarrow> map_of (sort_key f xs) = map_of xs"
  by (rule map_of_inject_set [THEN iffD2]) (simp_all add: distinct_sort_key_fst)

lemma pmap_entries_spec:
  assumes "pmap_inv m"
  shows "sorted_wrt (<) (map fst (pmap_entries m)) \<and> map_of (pmap_entries m) = pmap_get m"
  using forEachNode_spec [OF assms [unfolded pmap_inv_def]]
  by (simp add: pmap_entries_def strict_sorted_iff distinct_sort_key_fst map_of_sort_key
      pmap_get_omap [OF assms])

lemma pmap_size_card: "pmap_inv m \<Longrightarrow> p_size m = card (dom (pmap_get m))"
  by (simp add: pmap_get_omap) (simp add: pmap_inv_def root_inv_def)

interpretation hamt: persistent_map pmap_empty pmap_get pmap_set pmap_delete p_size pmap_entries pmap_inv
  by unfold_locales (simp_all add: pmap_empty_inv pmap_set_inv pmap_delete_inv pmap_get_set
      pmap_get_delete pmap_size_card pmap_entries_spec pmap_get_omap [OF pmap_empty_inv]
      del: One_nat_def, simp add: pmap_empty_def)

section \<open>Transients agree with the persistent operations\<close>

datatype 'v pm_op = PmSet pkey 'v | PmDel pkey

fun pm_step :: "'v pm_op \<Rightarrow> 'v pmap \<Rightarrow> 'v pmap" where
  "pm_step (PmSet k v) m = pmap_set m k v"
| "pm_step (PmDel k) m = pmap_delete m k"

fun tp_step :: "'v pm_op \<Rightarrow> 'v tpmap \<Rightarrow> 'v tpmap res" where
  "tp_step (PmSet k v) t = tp_set t k v"
| "tp_step (PmDel k) t = tp_delete t k"

fun fun_step :: "'v pm_op \<Rightarrow> (pkey \<rightharpoonup> 'v) \<Rightarrow> (pkey \<rightharpoonup> 'v)" where
  "fun_step (PmSet k v) f = f(k \<mapsto> v)"
| "fun_step (PmDel k) f = f(k := None)"

definition pm_run :: "'v pm_op list \<Rightarrow> 'v pmap \<Rightarrow> 'v pmap" where
  "pm_run ops m = fold pm_step ops m"

lemma pm_run_spec: "pmap_inv m \<Longrightarrow> pmap_inv (pm_run ops m) \<and> pmap_get (pm_run ops m) = fold fun_step ops (pmap_get m)"
proof (induction ops arbitrary: m)
  case (Cons x ops)
  have "pmap_inv (pm_step x m)" "pmap_get (pm_step x m) = fun_step x (pmap_get m)"
    using Cons.prems by (cases x; simp add: hamt.inv_put hamt.inv_del hamt.get_put hamt.get_del)+
  with Cons.IH [of "pm_step x m"] show ?case by (simp add: pm_run_def)
qed (simp add: pm_run_def)

definition tp_view :: "'v tpmap \<Rightarrow> 'v pmap" where
  "tp_view t = \<lparr>p_root = tp_root t, p_size = tp_size t\<rparr>"

lemma tp_step_ok:
  assumes "tp_alive t" and "pmap_inv (tp_view t)"
  shows "\<exists>t'. tp_step x t = Inr t' \<and> tp_alive t' \<and> pmap_inv (tp_view t') \<and>
    pmap_get (tp_view t') = fun_step x (pmap_get (tp_view t))"
proof (cases x)
  case (PmSet k v)
  obtain r added where a: "assoc (tp_root t) 0 (hashKey k) k v = (r, added)" by force
  have ri: "root_inv (tp_root t) (tp_size t)" using assms(2) by (simp add: pmap_inv_def tp_view_def)
  let ?t = "t\<lparr>tp_root := Some r, tp_size := tp_size t + (if added then 1 else 0)\<rparr>"
  have "pmap_inv (tp_view ?t)" using assoc_omap [OF ri a] by (simp add: pmap_inv_def tp_view_def)
  then show ?thesis
    using assoc_omap [OF ri a] pmap_get_omap [OF assms(2)] pmap_get_omap [of "tp_view ?t"] PmSet a assms(1)
    by (simp add: tp_set_def tp_check_def) (simp add: tp_view_def)
next
  case (PmDel k)
  obtain r removed where a: "dissoc (tp_root t) 0 (hashKey k) k = (r, removed)" by force
  have ri: "root_inv (tp_root t) (tp_size t)" using assms(2) by (simp add: pmap_inv_def tp_view_def)
  let ?t = "t\<lparr>tp_root := r, tp_size := tp_size t - (if removed then 1 else 0)\<rparr>"
  have inv: "pmap_inv (tp_view ?t)" using dissoc_omap [OF ri a] by (simp add: pmap_inv_def tp_view_def)
  have "omap r = (omap (tp_root t))(k := None)" using dissoc_omap [OF ri a] by blast
  then have "pmap_get (tp_view ?t) = fun_step x (pmap_get (tp_view t))"
    unfolding pmap_get_omap [OF assms(2)] pmap_get_omap [OF inv] PmDel by (simp add: tp_view_def)
  moreover have "tp_step x t = Inr ?t" using PmDel a assms(1) by (simp add: tp_delete_def tp_check_def)
  ultimately show ?thesis using inv assms(1) by auto
qed

lemma tp_run_ok:
  assumes "tp_alive t" and "pmap_inv (tp_view t)"
  shows "\<exists>t'. foldM tp_step ops t = Inr t' \<and> tp_alive t' \<and> pmap_inv (tp_view t') \<and>
    pmap_get (tp_view t') = fold fun_step ops (pmap_get (tp_view t))"
  using assms
proof (induction ops arbitrary: t)
  case (Cons x ops)
  obtain t1 where t1: "tp_step x t = Inr t1" "tp_alive t1" "pmap_inv (tp_view t1)"
    "pmap_get (tp_view t1) = fun_step x (pmap_get (tp_view t))"
    using tp_step_ok [OF Cons.prems] by blast
  from Cons.IH [OF t1(2,3)] t1 show ?case by auto
qed auto

lemma tp_freeze_ok:
  assumes "tp_alive t" and "pmap_inv (tp_view t)"
  shows "\<exists>m. tp_freeze t = Inr (m, t\<lparr>tp_alive := False\<rparr>) \<and> pmap_inv m \<and> pmap_get m = pmap_get (tp_view t)"
proof (cases "tp_size t = 0")
  case True
  then have "dom (pmap_get (tp_view t)) = {}"
    using assms(2) card_0_eq [OF finite_omap]
    by (simp add: pmap_get_omap) (auto simp: pmap_inv_def root_inv_def tp_view_def)
  then have "pmap_get (tp_view t) = Map.empty" by (simp add: dom_eq_empty_conv)
  then show ?thesis using True assms(1) hamt.inv_empty hamt.get_empty
    by (simp add: tp_freeze_def tp_check_def)
next
  case False
  then show ?thesis using assms by (simp add: tp_freeze_def tp_check_def tp_view_def)
qed

lemma pmap_begin_ok: "pmap_inv m \<Longrightarrow> tp_alive (pmap_begin m) \<and> tp_view (pmap_begin m) = m"
  by (simp add: pmap_begin_def tp_view_def)

section \<open>Finite maps\<close>

definition fm_keys :: "('k::linorder, 'v) fmap \<Rightarrow> 'k list" where
  "fm_keys m = sorted_list_of_fset (fmdom m)"

definition fm_entries :: "('k::linorder, 'v) fmap \<Rightarrow> ('k \<times> 'v) list" where
  "fm_entries m = map (\<lambda>k. (k, the (fmlookup m k))) (fm_keys m)"

lemma set_fm_keys: "set (fm_keys m) = dom (fmlookup m)"
  by (auto simp: fm_keys_def fmdom.rep_eq)

lemma fm_keys_sorted: "sorted_wrt (<) (fm_keys m)"
  by (simp add: fm_keys_def sorted_list_of_fset.rep_eq)

lemma map_fst_fm_entries [simp]: "map fst (fm_entries m) = fm_keys m"
  by (simp add: fm_entries_def comp_def)

lemma map_of_fm_entries [simp]: "map_of (fm_entries m) = fmlookup m"
proof
  fix k
  show "map_of (fm_entries m) k = fmlookup m k"
    using set_fm_keys [of m] by (cases "k \<in> set (fm_keys m)")
      (auto simp: fm_entries_def map_of_map_keys map_of_eq_None_iff)
qed

interpretation fm: persistent_map fmempty fmlookup "\<lambda>m k v. fmupd k v m" "\<lambda>m k. fmdrop k m"
    "\<lambda>m. fcard (fmdom m)" fm_entries "\<lambda>_. True"
  by unfold_locales (auto simp: fun_eq_iff fm_keys_sorted fcard.rep_eq fmdom.rep_eq)

section \<open>Properties\<close>

text \<open>C10: the trie is a finite map. After any sequence of \<open>set\<close> and \<open>delete\<close> calls on the empty
  map, \<open>get\<close> answers as the function built by the same updates, \<open>has\<close> and \<open>size\<close> agree with it,
  and \<open>entries\<close> lists it in strictly ascending key order.\<close>

theorem pmap_is_finite_map:
  "pmap_get (pm_run ops pmap_empty) = fold fun_step ops Map.empty \<and>
   (\<forall>k. pmap_has (pm_run ops pmap_empty) k \<longleftrightarrow> k \<in> dom (fold fun_step ops Map.empty)) \<and>
   p_size (pm_run ops pmap_empty) = card (dom (fold fun_step ops Map.empty)) \<and>
   sorted_wrt (<) (pmap_keys (pm_run ops pmap_empty)) \<and>
   map_of (pmap_entries (pm_run ops pmap_empty)) = fold fun_step ops Map.empty"
proof -
  let ?m = "pm_run ops pmap_empty"
  have i: "pmap_inv ?m" and g: "pmap_get ?m = fold fun_step ops Map.empty"
    using pm_run_spec [OF pmap_empty_inv, of ops] by (auto simp: hamt.get_empty)
  have "pmap_has ?m k \<longleftrightarrow> k \<in> dom (pmap_get ?m)" for k by (simp add: pmap_has_def pmap_get_def dom_def)
  then show ?thesis
    using g hamt.card_dom [OF i] hamt.entries_sorted [OF i] hamt.entries_get [OF i]
    by (simp add: pmap_keys_def)
qed

text \<open>Batching is transparent. Running updates on the transient handle of any map built by
  updates and freezing it gives a map with the contents, size and entries of the persistent run;
  the handle is dead afterwards and every further use of it throws.\<close>

theorem transient_agrees:
  assumes "m = pm_run ops0 pmap_empty"
  shows "\<exists>t t' m'. foldM tp_step ops (pmap_begin m) = Inr t \<and> tp_freeze t = Inr (m', t') \<and>
    pmap_get m' = pmap_get (pm_run ops m) \<and> p_size m' = p_size (pm_run ops m) \<and>
    pmap_entries m' = pmap_entries (pm_run ops m) \<and>
    (\<forall>x. tp_step x t' = Inl (Error ''transient used after freeze()'')) \<and>
    tp_freeze t' = Inl (Error ''transient used after freeze()'')"
proof -
  have i: "pmap_inv m" unfolding assms by (rule conjunct1 [OF pm_run_spec [OF pmap_empty_inv]])
  obtain t where t: "foldM tp_step ops (pmap_begin m) = Inr t" "tp_alive t" "pmap_inv (tp_view t)"
    "pmap_get (tp_view t) = fold fun_step ops (pmap_get m)"
    using tp_run_ok [of "pmap_begin m" ops] pmap_begin_ok [OF i] i by auto
  obtain m' where m': "tp_freeze t = Inr (m', t\<lparr>tp_alive := False\<rparr>)" "pmap_inv m'"
    "pmap_get m' = pmap_get (tp_view t)"
    using tp_freeze_ok [OF t(2,3)] by blast
  note r = pm_run_spec [OF i, of ops]
  have g: "pmap_get m' = pmap_get (pm_run ops m)" using m'(3) t(4) r by simp
  moreover have "p_size m' = p_size (pm_run ops m)"
    using g hamt.card_dom m'(2) r by metis
  moreover have "pmap_entries m' = pmap_entries (pm_run ops m)"
    using hamt.entries_canonical [OF m'(2) _ g] r by simp
  moreover have "tp_step x (t\<lparr>tp_alive := False\<rparr>) = Inl (Error ''transient used after freeze()'')" for x
    by (cases x) (simp_all add: tp_set_def tp_delete_def tp_check_def)
  moreover have "tp_freeze (t\<lparr>tp_alive := False\<rparr>) = Inl (Error ''transient used after freeze()'')"
    by (simp add: tp_freeze_def tp_check_def)
  ultimately show ?thesis using t(1) m'(1) by blast
qed

theorem transient_agrees_witness:
  "\<exists>t t' m'. foldM tp_step [PmDel (KInt 1)] (pmap_begin (pm_run [PmSet (KInt 1) True] pmap_empty)) = Inr t \<and>
    tp_freeze t = Inr (m', t') \<and>
    pmap_get m' = pmap_get (pm_run [PmDel (KInt 1)] (pm_run [PmSet (KInt 1) True] pmap_empty)) \<and>
    p_size m' = p_size (pm_run [PmDel (KInt 1)] (pm_run [PmSet (KInt 1) True] pmap_empty)) \<and>
    pmap_entries m' = pmap_entries (pm_run [PmDel (KInt 1)] (pm_run [PmSet (KInt 1) True] pmap_empty)) \<and>
    (\<forall>x. tp_step x t' = Inl (Error ''transient used after freeze()'')) \<and>
    tp_freeze t' = Inl (Error ''transient used after freeze()'')"
  by (rule transient_agrees [OF refl])

end
