(* ===== verification/RuntimeCore.thy ===== *)
theory RuntimeCore
  imports CommitGc Frontier
begin

text \<open>
  The replica runtime of \<^verbatim>\<open>runtime/src/runtime.js\<close>: the registry of replicas over one commit
  store, commits on the own head, synchronisation of two current heads, epochs of state
  compaction, the certified compaction and the commit collection. The datatype is a record of
  functions, as the source takes an object of them. A replica is its index in the registry. An
  operation that throws leaves the runtime as it was, so the model returns either the error or
  the new runtime.
\<close>

section \<open>The datatype object\<close>

record cut =
  cut_settledIds :: "int list"
  cut_inflight :: "int list"

text \<open>
  \<open>dt_prepare\<close> and the pair of \<open>dt_compact\<close> and \<open>dt_remapState\<close> are optional methods.
  \<open>dt_ins_id\<close> reads \<^verbatim>\<open>p.type === 'ins'\<close> and \<^verbatim>\<open>p.id\<close> off an operation.
\<close>

record ('o, 's, 'x, 'r) dtype =
  dt_init :: 's
  dt_prepare :: "('s \<Rightarrow> 'o \<Rightarrow> 'o res) option"
  dt_apply :: "'s \<Rightarrow> 'o \<Rightarrow> 's res"
  dt_merge3 :: "'s \<Rightarrow> 's \<Rightarrow> 's \<Rightarrow> 's res"
  dt_read :: "'s \<Rightarrow> 'r"
  dt_compact :: "('s \<Rightarrow> cut \<Rightarrow> ('s \<times> 'x) res) option"
  dt_remapState :: "('s \<Rightarrow> 'x \<Rightarrow> 's res) option"
  dt_ins_id :: "'o \<Rightarrow> int option"

text \<open>\<^verbatim>\<open>typeof dt.prepare === 'function' ? dt.prepare(state, payload) : payload\<close>\<close>

definition dt_prepared :: "('o, 's, 'x, 'r) dtype \<Rightarrow> 's \<Rightarrow> 'o \<Rightarrow> 'o res" where
  "dt_prepared dt s x = (case dt_prepare dt of Some prep \<Rightarrow> prep s x | None \<Rightarrow> Inr x)"

section \<open>State\<close>

record ('o, 's) replica =
  r_name :: string
  r_head :: "('o payload, 's) commit"
  r_seq :: nat
  r_frontier :: frontier

record ('o, 's, 'x) runtime =
  rt_dag :: "('o payload, 's) dag"
  rt_root :: "('o payload, 's) commit"
  rt_replicas :: "('o, 's) replica list"
  rt_epochs :: "'x option list"
  rt_epochOf :: "(nat \<times> nat) list"

definition runtime_new :: "('o, 's, 'x, 'r) dtype \<Rightarrow> ('o, 's, 'x) runtime res" where
  "runtime_new dt = rbind (dag_add dag_empty [] None (dt_init dt)) (\<lambda>(root, d).
     Inr \<lparr>rt_dag = d, rt_root = root, rt_replicas = [], rt_epochs = [None],
          rt_epochOf = [(c_id root, 0)]\<rparr>)"

definition epoch_of :: "('o, 's, 'x) runtime \<Rightarrow> nat \<Rightarrow> nat res" where
  "epoch_of rt i = (case map_of (rt_epochOf rt) i of
     Some e \<Rightarrow> Inr e | None \<Rightarrow> Inl (TypeError ''epochOf''))"

definition lift_step :: "('o, 's, 'x, 'r) dtype \<Rightarrow> 'x option list \<Rightarrow> nat \<Rightarrow> 's \<Rightarrow> 's res" where
  "lift_step dt epochs e s = (case (dt_remapState dt, if e < length epochs then epochs ! e else None) of
       (Some remap, Some tr) \<Rightarrow> remap s tr
     | _ \<Rightarrow> Inl (TypeError ''remapState''))"

definition liftState ::
  "('o, 's, 'x, 'r) dtype \<Rightarrow> ('o, 's, 'x) runtime \<Rightarrow> 's \<Rightarrow> nat \<Rightarrow> nat \<Rightarrow> 's res"
where
  "liftState dt rt s from to1 = foldM (lift_step dt (rt_epochs rt)) [from + 1..<to1 + 1] s"

definition registeredNames :: "('o, 's, 'x) runtime \<Rightarrow> string list" where
  "registeredNames rt = map r_name (rt_replicas rt)"

text \<open>\<^verbatim>\<open>replica(name)\<close>: registration, refused once the root is gone.\<close>

definition rt_register :: "string \<Rightarrow> ('o, 's, 'x) runtime \<Rightarrow> ('o, 's, 'x) runtime res" where
  "rt_register name rt =
     (if \<not> dag_has (rt_dag rt) (c_id (rt_root rt))
      then Inl (Error ''cannot register a replica after gc pruned the root'')
      else rbind (frontierOf (rt_dag rt) (c_id (rt_root rt))) (\<lambda>fr.
        Inr (rt\<lparr>rt_replicas := rt_replicas rt @
          [\<lparr>r_name = name, r_head = rt_root rt, r_seq = 0, r_frontier = fr\<rparr>]\<rparr>)))"

definition rt_gc :: "('o, 's, 'x) runtime \<Rightarrow> (gc_result \<times> ('o, 's, 'x) runtime) res" where
  "rt_gc rt = rbind (runGc (rt_dag rt) (map (\<lambda>r. c_id (r_head r)) (rt_replicas rt)))
     (\<lambda>(res, d). Inr (res, rt\<lparr>rt_dag := d\<rparr>))"

section \<open>Replica operations\<close>

definition get_replica :: "('o, 's, 'x) runtime \<Rightarrow> nat \<Rightarrow> ('o, 's) replica res" where
  "get_replica rt i =
     (if i < length (rt_replicas rt) then Inr (rt_replicas rt ! i) else Inl (Error ''no such replica''))"

text \<open>Move a head and refresh the cached frontier.\<close>

definition set_head ::
  "nat \<Rightarrow> ('o payload, 's) commit \<Rightarrow> ('o, 's, 'x) runtime \<Rightarrow> ('o, 's, 'x) runtime res"
where
  "set_head i c rt = rbind (get_replica rt i) (\<lambda>r.
     rbind (frontierOf (rt_dag rt) (c_id c)) (\<lambda>fr.
       Inr (rt\<lparr>rt_replicas := (rt_replicas rt)[i := r\<lparr>r_head := c, r_frontier := fr\<rparr>]\<rparr>)))"

definition rt_commit ::
  "('o, 's, 'x, 'r) dtype \<Rightarrow> nat \<Rightarrow> 'o \<Rightarrow> ('o, 's, 'x) runtime \<Rightarrow> ('o, 's, 'x) runtime res"
where
  "rt_commit dt i payload rt =
     rbind (get_replica rt i) (\<lambda>r.
     rbind (dt_prepared dt (c_state (r_head r)) payload) (\<lambda>prepared.
     rbind (dt_apply dt (c_state (r_head r)) prepared) (\<lambda>state.
     rbind (epoch_of rt (c_id (r_head r))) (\<lambda>epoch.
     rbind (dag_add (rt_dag rt) [c_id (r_head r)]
         (Some \<lparr>op_replica = r_name r, op_seq = r_seq r, op_payload = Single prepared\<rparr>) state)
       (\<lambda>(c, d).
       set_head i c (rt\<lparr>rt_dag := d,
         rt_replicas := (rt_replicas rt)[i := r\<lparr>r_seq := r_seq r + 1\<rparr>],
         rt_epochOf := AList.update (c_id c) epoch (rt_epochOf rt)\<rparr>))))))"

definition rt_compact ::
  "('o, 's, 'x, 'r) dtype \<Rightarrow> nat \<Rightarrow> cut \<Rightarrow> ('o, 's, 'x) runtime \<Rightarrow> ('o, 's, 'x) runtime res"
where
  "rt_compact dt i ct rt = (case (dt_compact dt, dt_remapState dt) of
       (Some compact, Some _) \<Rightarrow>
         rbind (get_replica rt i) (\<lambda>r.
         rbind (epoch_of rt (c_id (r_head r))) (\<lambda>e.
         if e \<noteq> length (rt_epochs rt) - 1 then Inl (Error ''stale-epoch compaction refused'')
         else rbind (compact (c_state (r_head r)) ct) (\<lambda>(state, translate).
           rbind (dag_add (rt_dag rt) [c_id (r_head r)] None state) (\<lambda>(c, d).
             set_head i c (rt\<lparr>rt_dag := d, rt_epochs := rt_epochs rt @ [Some translate],
               rt_epochOf := AList.update (c_id c) (e + 1) (rt_epochOf rt)\<rparr>)))))
     | _ \<Rightarrow> Inl (Error ''datatype does not support state compaction''))"

text \<open>
  \<open>sync\<close>: the two fast-forward cases, then the merge of the current heads, which lifts the
  three states to the newer of the two epochs.
\<close>

definition rt_merge_heads ::
  "('o, 's, 'x, 'r) dtype \<Rightarrow> nat \<Rightarrow> nat \<Rightarrow> ('o payload, 's) commit \<Rightarrow> ('o payload, 's) commit \<Rightarrow>
   ('o, 's, 'x) runtime \<Rightarrow> ('o, 's, 'x) runtime res"
where
  "rt_merge_heads dt i j a b rt =
     rbind (lca (rt_dag rt) (c_id a) (c_id b)) (\<lambda>l.
     rbind (epoch_of rt (c_id a)) (\<lambda>eA. rbind (epoch_of rt (c_id b)) (\<lambda>eB.
     rbind (dag_get (rt_dag rt) l) (\<lambda>lc. rbind (epoch_of rt l) (\<lambda>eL.
     rbind (liftState dt rt (c_state lc) eL (max eA eB)) (\<lambda>lState.
     rbind (liftState dt rt (c_state a) eA (max eA eB)) (\<lambda>aState.
     rbind (liftState dt rt (c_state b) eB (max eA eB)) (\<lambda>bState.
     rbind (dt_merge3 dt lState aState bState) (\<lambda>merged.
     rbind (dag_add (rt_dag rt) [c_id a, c_id b] None merged) (\<lambda>(c, d).
     rbind (set_head i c (rt\<lparr>rt_dag := d,
         rt_epochOf := AList.update (c_id c) (max eA eB) (rt_epochOf rt)\<rparr>))
       (set_head j c)))))))))))"

definition rt_sync ::
  "('o, 's, 'x, 'r) dtype \<Rightarrow> nat \<Rightarrow> nat \<Rightarrow> ('o, 's, 'x) runtime \<Rightarrow> ('o, 's, 'x) runtime res"
where
  "rt_sync dt i j rt =
     rbind (get_replica rt i) (\<lambda>ri. rbind (get_replica rt j) (\<lambda>rj.
       let a = r_head ri; b = r_head rj in
       if c_id a = c_id b then Inr rt
       else rbind (dag_isAncestor (rt_dag rt) (c_id a) (c_id b)) (\<lambda>ab.
         if ab then set_head i b rt
         else rbind (dag_isAncestor (rt_dag rt) (c_id b) (c_id a)) (\<lambda>ba.
           if ba then set_head j a rt else rt_merge_heads dt i j a b rt))))"

definition rt_stableCut :: "nat \<Rightarrow> ('o, 's, 'x) runtime \<Rightarrow> 'o payload stable_cut res" where
  "rt_stableCut i rt = rbind (get_replica rt i) (\<lambda>r.
     stableCut (rt_dag rt) (c_id (r_head r)) (registeredNames rt) (r_name r))"

datatype compact_outcome = Compacted nat | Refused string "string list"

definition rt_compactStable ::
  "('o, 's, 'x, 'r) dtype \<Rightarrow> nat \<Rightarrow> ('o, 's, 'x) runtime \<Rightarrow>
   (compact_outcome \<times> ('o, 's, 'x) runtime) res"
where
  "rt_compactStable dt i rt =
     rbind (get_replica rt i) (\<lambda>r. rbind (epoch_of rt (c_id (r_head r))) (\<lambda>e.
     if e \<noteq> length (rt_epochs rt) - 1
     then Inr (Refused ''stale epoch; sync to the newest epoch first'' [], rt)
     else rbind (rt_stableCut i rt) (\<lambda>sc.
     if \<not> sc_complete sc then Inr (Refused ''certificate absent'' (sc_missing sc), rt)
     else let settledIds = insertIds (dt_ins_id dt) (sc_meet sc) in
       if settledIds = [] then Inr (Refused ''the certified stable cut is empty'' [], rt)
       else rbind (rt_compact dt i \<lparr>cut_settledIds = settledIds, cut_inflight = []\<rparr> rt) (\<lambda>rt'.
         Inr (Compacted (length settledIds), rt')))))"

definition rt_read :: "('o, 's, 'x, 'r) dtype \<Rightarrow> nat \<Rightarrow> ('o, 's, 'x) runtime \<Rightarrow> 'r res" where
  "rt_read dt i rt = rbind (get_replica rt i) (\<lambda>r. Inr (dt_read dt (c_state (r_head r))))"

section \<open>Steps of a run\<close>

datatype 'o rt_step = SRegister string | SCommit nat 'o | SSync nat nat | SGc

definition rt_exec ::
  "('o, 's, 'x, 'r) dtype \<Rightarrow> 'o rt_step \<Rightarrow> ('o, 's, 'x) runtime \<Rightarrow> ('o, 's, 'x) runtime res"
where
  "rt_exec dt st rt = (case st of
       SRegister name \<Rightarrow> rt_register name rt
     | SCommit i x \<Rightarrow> rt_commit dt i x rt
     | SSync i j \<Rightarrow> rt_sync dt i j rt
     | SGc \<Rightarrow> rbind (rt_gc rt) (\<lambda>(_, rt'). Inr rt'))"

end
