(* ===== verification/RuntimeGc.thy ===== *)
theory RuntimeGc
  imports RuntimeCore
begin

text \<open>
  Collection is invisible to merging: a runtime that runs the commit collector at any point is
  simulated by one that never does. The relation keeps the collected store as the restriction of
  the full one to an upward-closed set that holds every head and the maximal common ancestors of
  every two heads; every commit, synchronisation and collection preserves it, and fails on one
  side exactly when it fails on the other.
\<close>

section \<open>Ancestry after an append\<close>

lemma dag_add_edges:
  assumes wf: "dag_wf d" and add: "dag_add d ps o1 st = Inr (c, d')"
  shows "dag_edges d' = dag_edges d \<union> {d_next d} \<times> set ps"
proof -
  note a = dag_add_Inr [OF add]
  have has': "dag_has d' i \<longleftrightarrow> dag_has d i \<or> i = d_next d" for i using a(3) by (auto simp: dag_has_def)
  have new: "\<not> dag_has d (d_next d)" using dag_wf_get [OF wf] by (force simp: dag_has_def)
  have old: "d_next d \<notin> set (c_parents cm)" if "map_of (d_commits d) i = Some cm" for i cm
    using dag_wf_get [OF wf that] by auto
  show ?thesis
  proof (intro set_eqI)
    fix e :: "nat \<times> nat"
    obtain x y where e: "e = (x, y)" by force
    show "e \<in> dag_edges d' \<longleftrightarrow> e \<in> dag_edges d \<union> {d_next d} \<times> set ps"
    proof (cases "x = d_next d")
      case True
      then show ?thesis using a new has' by (auto simp: e dag_edges_def dag_has_def)
    next
      case False
      then show ?thesis using a(3) has' old by (auto simp: e dag_edges_def)
    qed
  qed
qed

lemma dag_add_anc:
  assumes wf: "dag_wf d" and add: "dag_add d ps o1 st = Inr (c, d')"
  shows "dag_has d i \<Longrightarrow> dag_anc d' i = dag_anc d i"
    and "dag_anc d' (d_next d) = insert (d_next d) (\<Union>p \<in> set ps. dag_anc d p)"
proof -
  note e = dag_add_edges [OF wf add]
  have new: "\<not> dag_has d (d_next d)" using dag_wf_get [OF wf] by (force simp: dag_has_def)
  show old: "dag_anc d' i = dag_anc d i" if i: "dag_has d i" for i
  proof (intro equalityI subsetI)
    fix x
    assume "x \<in> dag_anc d' i"
    then have "(i, x) \<in> (dag_edges d')\<^sup>*" by (simp add: dag_anc_def)
    then have "(i, x) \<in> (dag_edges d)\<^sup>* \<and> dag_has d x"
    proof (induction rule: rtrancl_induct)
      case (step y z)
      then have "(y, z) \<in> dag_edges d" using e new by auto
      with step show ?case by (auto simp: dag_edges_def intro: rtrancl_into_rtrancl)
    qed (simp add: i)
    then show "x \<in> dag_anc d i" by (simp add: dag_anc_def)
  next
    fix x
    assume "x \<in> dag_anc d i"
    moreover have "dag_edges d \<subseteq> dag_edges d'" using e by auto
    ultimately show "x \<in> dag_anc d' i" unfolding dag_anc_def using rtrancl_mono by blast
  qed
  show "dag_anc d' (d_next d) = insert (d_next d) (\<Union>p \<in> set ps. dag_anc d p)"
  proof (intro equalityI subsetI)
    fix x
    assume "x \<in> dag_anc d' (d_next d)"
    then consider "x = d_next d" | p where "(d_next d, p) \<in> dag_edges d'" "x \<in> dag_anc d' p"
      using dag_anc_step [of x d' "d_next d"] by blast
    then show "x \<in> insert (d_next d) (\<Union>p \<in> set ps. dag_anc d p)"
    proof cases
      case 2
      have "(d_next d, p) \<notin> dag_edges d" using new by (auto simp: dag_edges_def dag_has_def)
      then have p: "p \<in> set ps" using 2(1) unfolding e by simp
      with dag_add_Inr(1) [OF add] have "dag_has d p" by blast
      with old [OF this] 2 p show ?thesis by auto
    qed simp
  next
    fix x
    assume "x \<in> insert (d_next d) (\<Union>p \<in> set ps. dag_anc d p)"
    then consider "x = d_next d" | p where "p \<in> set ps" "x \<in> dag_anc d p" by auto
    then show "x \<in> dag_anc d' (d_next d)"
    proof cases
      case 2
      then have "(d_next d, p) \<in> dag_edges d'" using e by simp
      moreover have "dag_has d p" using dag_add_Inr(1) [OF add] 2 by blast
      then have "(p, x) \<in> (dag_edges d')\<^sup>*" using old [of p] 2 by (auto simp: dag_anc_def)
      ultimately show ?thesis by (simp add: dag_anc_def)
    qed simp
  qed
qed

section \<open>Heads whose meets are kept\<close>

definition heads_ok :: "('p, 's) dag \<Rightarrow> nat set \<Rightarrow> nat set \<Rightarrow> bool" where
  "heads_ok d K H \<longleftrightarrow> (\<forall>h \<in> H. dag_has d h) \<and> H \<subseteq> K \<and>
     (\<forall>a \<in> H. \<forall>b \<in> H. maximal_in d (common_anc d a b) \<subseteq> K)"

lemma heads_ok_mono: "heads_ok d K H \<Longrightarrow> H' \<subseteq> H \<Longrightarrow> heads_ok d K H'"
  unfolding heads_ok_def by blast

lemma maximal_in_mono:
  "x \<in> maximal_in d S \<Longrightarrow> x \<in> T \<Longrightarrow> T \<subseteq> S \<Longrightarrow> x \<in> maximal_in d T"
  by (auto simp: maximal_in_def)

lemma maximal_in_cong:
  "(\<And>c. c \<in> S \<Longrightarrow> dag_anc d' c = dag_anc d c) \<Longrightarrow> maximal_in d' S = maximal_in d S"
  by (auto simp: maximal_in_def)

lemma dag_add_has:
  assumes "dag_add d ps o1 st = Inr (c, d')"
  shows "dag_has d' i \<longleftrightarrow> dag_has d i \<or> i = d_next d"
  using dag_add_Inr(3) [OF assms] by (auto simp: dag_has_def)

lemma heads_ok_add:
  assumes wf: "dag_wf d" and add: "dag_add d ps o1 st = Inr (c, d')"
    and ok: "heads_ok d K H" and ps: "set ps \<subseteq> H"
  shows "heads_ok d' (insert (d_next d) K) (insert (d_next d) H)"
proof -
  let ?n = "d_next d"
  have wf': "dag_wf d'" by (rule dag_add_wf [OF wf add])
  note old = dag_add_anc(1) [OF wf add] and new = dag_add_anc(2) [OF wf add]
  have fresh: "\<not> dag_has d ?n" using dag_wf_get [OF wf] by (force simp: dag_has_def)
  have has: "dag_has d h" if "h \<in> H" for h using ok that by (simp add: heads_ok_def)
  have above: "dag_anc d' c = dag_anc d c" if "c \<in> common_anc d a b" "a \<in> H" for a b c
    using that dag_anc_has [OF has [OF that(2)]] by (intro old) (auto simp: common_anc_def)
  have oldmax: "maximal_in d' (common_anc d' a b) = maximal_in d (common_anc d a b)"
    if "a \<in> H" "b \<in> H" for a b
  proof -
    have "common_anc d' a b = common_anc d a b" using old has that by (simp add: common_anc_def)
    then show ?thesis using above that maximal_in_cong [of "common_anc d a b" d' d] by simp
  qed
  have newmax: "maximal_in d' (common_anc d' ?n h) \<subseteq> K" if h: "h \<in> H" for h
  proof
    fix x
    assume x: "x \<in> maximal_in d' (common_anc d' ?n h)"
    then have xh: "x \<in> dag_anc d h" using old [OF has [OF h]] by (auto simp: maximal_in_def common_anc_def)
    then have "x \<noteq> ?n" using fresh dag_anc_has [OF has [OF h]] by auto
    moreover have "x \<in> dag_anc d' ?n" using x by (auto simp: maximal_in_def common_anc_def)
    ultimately obtain p where p: "p \<in> set ps" "x \<in> dag_anc d p" using new by auto
    have "common_anc d' p h \<subseteq> common_anc d' ?n h"
      using p(1) ps has new old by (auto simp: common_anc_def)
    moreover have "x \<in> common_anc d' p h" using p ps xh h has old by (auto simp: common_anc_def)
    ultimately have "x \<in> maximal_in d' (common_anc d' p h)" using maximal_in_mono [OF x] by blast
    then have "x \<in> maximal_in d (common_anc d p h)" using oldmax [of p h] p(1) ps h by auto
    moreover have "maximal_in d (common_anc d p h) \<subseteq> K" using ok p(1) ps h unfolding heads_ok_def by blast
    ultimately show "x \<in> K" by blast
  qed
  have "maximal_in d' (common_anc d' a b) \<subseteq> insert ?n K" if ab: "a \<in> insert ?n H" "b \<in> insert ?n H" for a b
  proof -
    consider "a = ?n" "b = ?n" | "a = ?n" "b \<in> H" | "b = ?n" "a \<in> H" | "a \<in> H" "b \<in> H"
      using ab by auto
    then show ?thesis
    proof cases
      case 1
      then show ?thesis using maximal_in_self [OF wf'] by simp
    next
      case 2
      then show ?thesis using newmax by auto
    next
      case 3
      then show ?thesis using newmax common_anc_commute [of d' a b] by auto
    next
      case 4
      then show ?thesis using oldmax [OF 4] ok unfolding heads_ok_def by blast
    qed
  qed
  then show ?thesis
    using ok by (auto simp: heads_ok_def dag_add_has [OF add])
qed

lemma restricted_add:
  assumes wf: "dag_wf d" and r: "restricted_to d K e" and up: "upclosed d K" and ps: "set ps \<subseteq> K"
    and add: "dag_add d ps o1 st = Inr (c, d')"
  shows "\<exists>e'. dag_add e ps o1 st = Inr (c, e') \<and> restricted_to d' (insert (d_next d) K) e' \<and>
    upclosed d' (insert (d_next d) K)"
proof -
  note a = dag_add_Inr [OF add]
  have "\<And>p. p \<in> set ps \<Longrightarrow> dag_has e p" using a(1) ps restricted_has [OF r] by auto
  from dag_add_ok [OF this] obtain c2 e' where add2: "dag_add e ps o1 st = Inr (c2, e')" by blast
  note b = dag_add_Inr [OF add2]
  have nx: "d_next e = d_next d" using r by (simp add: restricted_to_def)
  have c2: "c2 = c" using a(2) b(2) nx by simp
  have new: "\<not> dag_has d (d_next d)" using dag_wf_get [OF wf] by (force simp: dag_has_def)
  have flt: "filter (\<lambda>p. p \<in> insert (d_next d) K) (c_parents cm) = filter (\<lambda>p. p \<in> K) (c_parents cm)"
    if "map_of (d_commits d) i = Some cm" for i cm
    using dag_wf_get [OF wf that] by (intro filter_cong) auto
  have "filter (\<lambda>p. p \<in> insert (d_next d) K) ps = ps" using ps by (intro filter_True) auto
  then have cself: "c\<lparr>c_parents := filter (\<lambda>p. p \<in> insert (d_next d) K) (c_parents c)\<rparr> = c"
    using a(2) by simp
  have "restricted_to d' (insert (d_next d) K) e'"
    unfolding restricted_to_def
  proof (intro conjI allI)
    show "d_next e' = d_next d'" using a(4) b(4) nx by simp
    fix i
    show "map_of (d_commits e') i = (if i \<in> insert (d_next d) K
        then map_option (\<lambda>c. c\<lparr>c_parents := filter (\<lambda>p. p \<in> insert (d_next d) K) (c_parents c)\<rparr>)
               (map_of (d_commits d') i) else None)"
    proof (cases "i = d_next d")
      case True
      then show ?thesis using a(3) b(3) nx c2 cself by simp
    next
      case False
      then have "map_of (d_commits e') i = map_of (d_commits e) i"
        "map_of (d_commits d') i = map_of (d_commits d) i" using a(3) b(3) nx by simp_all
      moreover have "map_of (d_commits e) i = (if i \<in> K
        then map_option (\<lambda>c. c\<lparr>c_parents := filter (\<lambda>p. p \<in> K) (c_parents c)\<rparr>)
               (map_of (d_commits d) i) else None)" using r by (simp add: restricted_to_def)
      ultimately show ?thesis
        using False flt by (cases "map_of (d_commits d) i") auto
    qed
  qed
  moreover have "upclosed d' (insert (d_next d) K)"
    using up new unfolding upclosed_def dag_add_edges [OF wf add] by (auto simp: dag_edges_def)
  ultimately show ?thesis using add2 c2 by blast
qed

section \<open>Queries on two kept commits\<close>

lemma restricted_wf_add: "dag_wf e \<Longrightarrow> dag_add e ps o1 st = Inr (c, e') \<Longrightarrow> dag_wf e'"
  by (rule dag_add_wf)

lemma restricted_isAncestor:
  assumes "restricted_to d K e" and "upclosed d K" and "a \<in> K" "b \<in> K" "dag_has d a" "dag_has d b"
  shows "dag_isAncestor e a b = dag_isAncestor d a b"
proof -
  have "dag_isAncestor x a b = Inr (a \<in> dag_anc x b)" if "dag_has x a" "dag_has x b" for x :: "('a, 'b) dag"
    using dag_isAncestor_iff [of x a b] that by simp
  then show ?thesis
    using restricted_has [OF assms(1)] restricted_anc [OF assms(1,2,4)] assms by auto
qed

lemma restricted_lca:
  assumes wf: "dag_wf d" "dag_wf e" and r: "restricted_to d K e" and up: "upclosed d K"
    and ok: "heads_ok d K H" and ab: "a \<in> H" "b \<in> H"
  shows "lca e a b = Inr l \<longleftrightarrow> lca d a b = Inr l"
proof -
  have has: "dag_has d a" "dag_has d b" "a \<in> K" "b \<in> K" and mk: "maximal_in d (common_anc d a b) \<subseteq> K"
    using ok ab by (auto simp: heads_ok_def)
  have has': "dag_has e a" "dag_has e b" using has restricted_has [OF r] by auto
  obtain m where m: "mcas d a b = Inr m" "distinct m" "set m = maximal_in d (common_anc d a b)"
    using mcas_correct [OF wf(1) has(1,2)] by blast
  obtain m' where m': "mcas e a b = Inr m'" "distinct m'" "set m' = maximal_in e (common_anc e a b)"
    using mcas_correct [OF wf(2) has'] by blast
  have "set m' = set m"
    using m(3) m'(3) restricted_maximal [OF r up has(3,4) common_anc_finite [OF has(1)] wf(1) mk] by simp
  have one: "lca x a b = Inr l \<longleftrightarrow> set ms = {l}" if "mcas x a b = Inr ms" "distinct ms" for x :: "('a, 'b) dag" and ms
  proof -
    have "set ms = {l} \<longleftrightarrow> length ms = 1 \<and> hd ms = l"
    proof (cases ms)
      case (Cons y ys)
      then show ?thesis using that(2) by (cases ys) auto
    qed simp
    then show ?thesis using that(1) by (auto simp: lca_def)
  qed
  show ?thesis using one [OF m(1,2)] one [OF m'(1,2)] \<open>set m' = set m\<close> by simp
qed

lemma restricted_get_state:
  assumes "restricted_to d K e" and "l \<in> K" and "dag_get d l = Inr c"
  shows "\<exists>c'. dag_get e l = Inr c' \<and> c_state c' = c_state c"
  using assms by (simp add: restricted_to_def dag_get_Inr)

section \<open>A collection step\<close>

lemma restricted_trans:
  assumes "restricted_to d K e" and "restricted_to e K2 e2" and "K2 \<subseteq> K"
  shows "restricted_to d K2 e2"
proof -
  have "filter (\<lambda>p. p \<in> K2) (filter (\<lambda>p. p \<in> K) ps) = filter (\<lambda>p. p \<in> K2) ps" for ps
    using assms(3) by (auto intro: filter_cong)
  then show ?thesis
    using assms unfolding restricted_to_def
    by (auto simp: option.map_comp comp_def subset_iff intro!: option.map_cong)
qed

lemma upclosed_trans:
  assumes "restricted_to d K e" and "upclosed d K" and "upclosed e K2" and "K2 \<subseteq> K"
  shows "upclosed d K2"
  using assms unfolding upclosed_def restricted_edges [OF assms(1)] by blast

section \<open>The simulation\<close>

definition res_rel :: "('a \<Rightarrow> 'b \<Rightarrow> bool) \<Rightarrow> 'a res \<Rightarrow> 'b res \<Rightarrow> bool" where
  "res_rel R x y = rel_sum (\<lambda>_ _. True) R x y"

lemma res_rel_simps [simp]:
  "res_rel R (Inl e) (Inl e')" "res_rel R (Inr a) (Inr b) = R a b"
  "\<not> res_rel R (Inl e) (Inr b)" "\<not> res_rel R (Inr a) (Inl e)"
  by (simp_all add: res_rel_def)

lemma res_rel_bind:
  assumes "res_rel R x y" and "\<And>a b. x = Inr a \<Longrightarrow> y = Inr b \<Longrightarrow> R a b \<Longrightarrow> res_rel S (f a) (g b)"
  shows "res_rel S (rbind x f) (rbind y g)"
  using assms by (cases x; cases y) auto

lemma res_rel_same: "(\<And>a. x = Inr a \<Longrightarrow> res_rel S (f a) (g a)) \<Longrightarrow> res_rel S (rbind x f) (rbind x g)"
  by (cases x) auto

definition rep_core :: "('o, 's) replica \<Rightarrow> ('o, 's) replica" where
  "rep_core r = r\<lparr>r_frontier := []\<rparr>"

definition head_ids :: "('o, 's, 'x) runtime \<Rightarrow> nat set" where
  "head_ids rt = (\<lambda>r. c_id (r_head r)) ` set (rt_replicas rt)"

definition gc_sim ::
  "nat set \<Rightarrow> ('o, 's, 'x) runtime \<Rightarrow> ('o, 's, 'x) runtime \<Rightarrow> bool"
where
  "gc_sim K F D \<longleftrightarrow> dag_wf (rt_dag F) \<and> dag_wf (rt_dag D) \<and>
     restricted_to (rt_dag F) K (rt_dag D) \<and> upclosed (rt_dag F) K \<and>
     heads_ok (rt_dag F) K (head_ids F) \<and>
     map rep_core (rt_replicas F) = map rep_core (rt_replicas D) \<and>
     rt_root F = rt_root D \<and> rt_epochs F = rt_epochs D \<and> rt_epochOf F = rt_epochOf D \<and>
     dag_has (rt_dag F) (c_id (rt_root F)) \<and>
     (\<forall>i. dag_has (rt_dag F) i \<longrightarrow> c_id (rt_root F) \<in> dag_anc (rt_dag F) i)"

lemma rep_core_eqD:
  "rep_core r = rep_core r' \<Longrightarrow> r_head r = r_head r' \<and> r_name r = r_name r' \<and> r_seq r = r_seq r'"
  unfolding rep_core_def by (cases r; cases r') simp

lemma gc_sim_replicas:
  assumes "gc_sim K F D"
  shows "length (rt_replicas D) = length (rt_replicas F)" and "head_ids D = head_ids F"
    and "i < length (rt_replicas F) \<Longrightarrow> rep_core (rt_replicas F ! i) = rep_core (rt_replicas D ! i)"
proof -
  have e: "map rep_core (rt_replicas F) = map rep_core (rt_replicas D)" using assms by (simp add: gc_sim_def)
  show l: "length (rt_replicas D) = length (rt_replicas F)" using arg_cong [OF e, of length] by simp
  show n: "rep_core (rt_replicas F ! i) = rep_core (rt_replicas D ! i)" if "i < length (rt_replicas F)" for i
    using arg_cong [OF e, of "\<lambda>xs. xs ! i"] that l by simp
  have "r_head (rt_replicas F ! i) = r_head (rt_replicas D ! i)" if "i < length (rt_replicas F)" for i
    using rep_core_eqD [OF n [OF that]] by simp
  then have "map r_head (rt_replicas F) = map r_head (rt_replicas D)"
    using l by (intro nth_equalityI) auto
  then have "r_head ` set (rt_replicas F) = r_head ` set (rt_replicas D)"
    by (metis set_map)
  then show "head_ids D = head_ids F"
    unfolding head_ids_def by (metis image_image)
qed

lemma head_in: "i < length (rt_replicas rt) \<Longrightarrow> c_id (r_head (rt_replicas rt ! i)) \<in> head_ids rt"
  by (auto simp: head_ids_def)

lemma set_head_Inr:
  assumes "i < length (rt_replicas rt)" and "dag_has (rt_dag rt) (c_id c)"
  shows "\<exists>fr. set_head i c rt = Inr (rt\<lparr>rt_replicas := (rt_replicas rt)[i := (rt_replicas rt ! i)
    \<lparr>r_head := c, r_frontier := fr\<rparr>]\<rparr>)"
  using frontierOf_ok [OF assms(2)] assms(1) by (auto simp: set_head_def get_replica_def)

lemma head_ids_update:
  "head_ids (rt\<lparr>rt_replicas := (rt_replicas rt)[i := r]\<rparr>) \<subseteq> insert (c_id (r_head r)) (head_ids rt)"
  by (auto simp: head_ids_def dest!: set_update_subset_insert [THEN subsetD])

text \<open>Moving a head on both sides, to a commit that already counts as a head.\<close>

lemma set_head_sim:
  assumes sim: "gc_sim K F D" and H: "heads_ok (rt_dag F) K (insert (c_id c) (head_ids F))"
    and i: "i < length (rt_replicas F)"
  shows "res_rel (gc_sim K) (set_head i c F) (set_head i c D)"
proof -
  have has: "dag_has (rt_dag F) (c_id c)" "c_id c \<in> K" using H by (auto simp: heads_ok_def)
  have r: "restricted_to (rt_dag F) K (rt_dag D)" using sim by (simp add: gc_sim_def)
  have iD: "i < length (rt_replicas D)" "dag_has (rt_dag D) (c_id c)"
    using i has gc_sim_replicas(1) [OF sim] restricted_has [OF r] by auto
  obtain fr where f: "set_head i c F = Inr (F\<lparr>rt_replicas := (rt_replicas F)[i := (rt_replicas F ! i)
    \<lparr>r_head := c, r_frontier := fr\<rparr>]\<rparr>)" using set_head_Inr [OF i has(1)] by blast
  obtain fr' where d: "set_head i c D = Inr (D\<lparr>rt_replicas := (rt_replicas D)[i := (rt_replicas D ! i)
    \<lparr>r_head := c, r_frontier := fr'\<rparr>]\<rparr>)" using set_head_Inr [OF iD] by blast
  have "rep_core ((rt_replicas F ! i)\<lparr>r_head := c, r_frontier := fr\<rparr>)
      = rep_core ((rt_replicas D ! i)\<lparr>r_head := c, r_frontier := fr'\<rparr>)"
    using rep_core_eqD [OF gc_sim_replicas(3) [OF sim i]]
    by (cases "rt_replicas F ! i"; cases "rt_replicas D ! i") (simp add: rep_core_def)
  then have core: "map rep_core ((rt_replicas F)[i := (rt_replicas F ! i)\<lparr>r_head := c, r_frontier := fr\<rparr>])
      = map rep_core ((rt_replicas D)[i := (rt_replicas D ! i)\<lparr>r_head := c, r_frontier := fr'\<rparr>])"
    using sim by (simp add: map_update gc_sim_def)
  have "heads_ok (rt_dag F) K (head_ids (F\<lparr>rt_replicas := (rt_replicas F)[i := (rt_replicas F ! i)
    \<lparr>r_head := c, r_frontier := fr\<rparr>]\<rparr>))"
    by (rule heads_ok_mono [OF H]) (use head_ids_update [of F i] in fastforce)
  with core sim f d show ?thesis by (auto simp: gc_sim_def)
qed

text \<open>Appending a commit whose parents are heads.\<close>

lemma append_sim:
  assumes sim: "gc_sim K F D" and ps: "set ps \<subseteq> head_ids F" "ps \<noteq> []"
  shows "res_rel (\<lambda>(c, d) (c', e). c' = c \<and> c_id c = d_next (rt_dag F) \<and>
      dag_wf d \<and> dag_wf e \<and> restricted_to d (insert (c_id c) K) e \<and> upclosed d (insert (c_id c) K) \<and>
      heads_ok d (insert (c_id c) K) (insert (c_id c) (head_ids F)) \<and>
      dag_has d (c_id (rt_root F)) \<and>
      (\<forall>i. dag_has d i \<longrightarrow> c_id (rt_root F) \<in> dag_anc d i))
    (dag_add (rt_dag F) ps o1 st) (dag_add (rt_dag D) ps o1 st)"
proof -
  have wf: "dag_wf (rt_dag F)" "dag_wf (rt_dag D)" and r: "restricted_to (rt_dag F) K (rt_dag D)"
    and up: "upclosed (rt_dag F) K" and H: "heads_ok (rt_dag F) K (head_ids F)"
    and root: "dag_has (rt_dag F) (c_id (rt_root F))"
      "\<And>i. dag_has (rt_dag F) i \<Longrightarrow> c_id (rt_root F) \<in> dag_anc (rt_dag F) i"
    using sim by (auto simp: gc_sim_def)
  have "\<And>p. p \<in> set ps \<Longrightarrow> dag_has (rt_dag F) p" using ps H by (auto simp: heads_ok_def)
  from dag_add_ok [OF this] obtain c d where add: "dag_add (rt_dag F) ps o1 st = Inr (c, d)" by blast
  have cid: "c_id c = d_next (rt_dag F)" using dag_add_Inr(2) [OF add] by simp
  have psK: "set ps \<subseteq> K" using ps H by (auto simp: heads_ok_def)
  obtain e where e: "dag_add (rt_dag D) ps o1 st = Inr (c, e)"
    "restricted_to d (insert (d_next (rt_dag F)) K) e" "upclosed d (insert (d_next (rt_dag F)) K)"
    using restricted_add [OF wf(1) r up psK add] by blast
  note anc = dag_add_anc [OF wf(1) add]
  have "c_id (rt_root F) \<in> dag_anc d i" if "dag_has d i" for i
  proof (cases "dag_has (rt_dag F) i")
    case True
    then show ?thesis using anc(1) root(2) by simp
  next
    case False
    then have i: "i = d_next (rt_dag F)" using that dag_add_has [OF add] by simp
    obtain p where p: "p \<in> set ps" using ps(2) by (cases ps) auto
    then have "dag_has (rt_dag F) p" using ps H by (auto simp: heads_ok_def)
    then show ?thesis using i anc(2) root(2) p by auto
  qed
  then show ?thesis
    using add e dag_add_wf [OF wf(1) add] dag_add_wf [OF wf(2) e(1)]
      heads_ok_add [OF wf(1) add H ps(1)] root(1) dag_add_has [OF add] cid by simp
qed

lemma res_rel_ex: "res_rel (gc_sim K) x y \<Longrightarrow> res_rel (\<lambda>F D. \<exists>K. gc_sim K F D) x y"
  by (cases x; cases y) auto

lemma commit_sim:
  fixes F D :: "('o, 's, 'x) runtime"
  assumes sim: "gc_sim K F D"
  shows "res_rel (\<lambda>F' D'. \<exists>K'. gc_sim K' F' D') (rt_commit dt i x F) (rt_commit dt i x D)"
proof (cases "i < length (rt_replicas F)")
  case False
  then have "get_replica F i = Inl (Error ''no such replica'')" "get_replica D i = Inl (Error ''no such replica'')"
    using gc_sim_replicas(1) [OF sim] by (simp_all add: get_replica_def)
  then show ?thesis by (simp only: rt_commit_def rbind_simps res_rel_simps)
next
  case True
  let ?r = "rt_replicas F ! i" and ?r' = "rt_replicas D ! i"
  note same = rep_core_eqD [OF gc_sim_replicas(3) [OF sim True]]
  have g: "get_replica F i = Inr ?r" "get_replica D i = Inr ?r'"
    using True gc_sim_replicas(1) [OF sim] by (simp_all add: get_replica_def)
  have ep: "epoch_of D k = epoch_of F k" for k using sim by (simp add: gc_sim_def epoch_of_def)
  have hd: "set [c_id (r_head ?r)] \<subseteq> head_ids F" using head_in [OF True] by simp
  show ?thesis
    unfolding rt_commit_def g rbind_simps same [THEN conjunct1, symmetric]
      same [THEN conjunct2, THEN conjunct1, symmetric] same [THEN conjunct2, THEN conjunct2, symmetric] ep
  proof (intro res_rel_same)
    fix prepared state epoch
    show "res_rel (\<lambda>F' D'. \<exists>K'. gc_sim K' F' D')
       (rbind (dag_add (rt_dag F) [c_id (r_head ?r)]
           (Some \<lparr>op_replica = r_name ?r, op_seq = r_seq ?r, op_payload = Single prepared\<rparr>) state)
         (\<lambda>(c, d). set_head i c (F\<lparr>rt_dag := d, rt_replicas := (rt_replicas F)[i := ?r\<lparr>r_seq := r_seq ?r + 1\<rparr>],
           rt_epochOf := AList.update (c_id c) epoch (rt_epochOf F)\<rparr>)))
       (rbind (dag_add (rt_dag D) [c_id (r_head ?r)]
           (Some \<lparr>op_replica = r_name ?r, op_seq = r_seq ?r, op_payload = Single prepared\<rparr>) state)
         (\<lambda>(c, d). set_head i c (D\<lparr>rt_dag := d, rt_replicas := (rt_replicas D)[i := ?r'\<lparr>r_seq := r_seq ?r + 1\<rparr>],
           rt_epochOf := AList.update (c_id c) epoch (rt_epochOf D)\<rparr>)))"
    proof (rule res_rel_bind [OF append_sim [OF sim hd]], simp)
      fix cd ce :: "('o payload, 's) commit \<times> ('o payload, 's) dag"
      assume "(\<lambda>(c, d) (c', e). c' = c \<and> c_id c = d_next (rt_dag F) \<and>
        dag_wf d \<and> dag_wf e \<and> restricted_to d (insert (c_id c) K) e \<and> upclosed d (insert (c_id c) K) \<and>
        heads_ok d (insert (c_id c) K) (insert (c_id c) (head_ids F)) \<and>
        dag_has d (c_id (rt_root F)) \<and>
        (\<forall>i. dag_has d i \<longrightarrow> c_id (rt_root F) \<in> dag_anc d i)) cd ce"
      then obtain c d e where cd: "cd = (c, d)" "ce = (c, e)" and
        rel: "dag_wf d" "dag_wf e" "restricted_to d (insert (c_id c) K) e"
        "upclosed d (insert (c_id c) K)" "heads_ok d (insert (c_id c) K) (insert (c_id c) (head_ids F))"
        "dag_has d (c_id (rt_root F))" "\<forall>i. dag_has d i \<longrightarrow> c_id (rt_root F) \<in> dag_anc d i"
        by (cases cd; cases ce) auto
      let ?F = "F\<lparr>rt_dag := d, rt_replicas := (rt_replicas F)[i := ?r\<lparr>r_seq := r_seq ?r + 1\<rparr>],
           rt_epochOf := AList.update (c_id c) epoch (rt_epochOf F)\<rparr>"
      let ?D = "D\<lparr>rt_dag := e, rt_replicas := (rt_replicas D)[i := ?r'\<lparr>r_seq := r_seq ?r + 1\<rparr>],
           rt_epochOf := AList.update (c_id c) epoch (rt_epochOf D)\<rparr>"
      have ids: "head_ids ?F \<subseteq> head_ids F"
        using head_ids_update [of F i "?r\<lparr>r_seq := r_seq ?r + 1\<rparr>"] head_in [OF True] by (auto simp: head_ids_def)
      have "rep_core (?r\<lparr>r_seq := r_seq ?r + 1\<rparr>) = rep_core (?r'\<lparr>r_seq := r_seq ?r + 1\<rparr>)"
        using gc_sim_replicas(3) [OF sim True] by (cases ?r; cases ?r') (simp add: rep_core_def)
      then have "gc_sim (insert (c_id c) K) ?F ?D"
        using sim rel heads_ok_mono [OF rel(5), of "head_ids ?F"] ids
        by (auto simp: gc_sim_def map_update)
      moreover have "heads_ok (rt_dag ?F) (insert (c_id c) K) (insert (c_id c) (head_ids ?F))"
        by (rule heads_ok_mono [of _ _ "insert (c_id c) (head_ids F)"]) (use rel ids in auto)
      ultimately have "res_rel (gc_sim (insert (c_id c) K)) (set_head i c ?F) (set_head i c ?D)"
        using True by (intro set_head_sim) auto
      then have "res_rel (\<lambda>F' D'. \<exists>K'. gc_sim K' F' D') (set_head i c ?F) (set_head i c ?D)"
        by (rule res_rel_ex)
      then show "res_rel (\<lambda>F' D'. \<exists>K'. gc_sim K' F' D')
         (case cd of (c, d) \<Rightarrow> set_head i c (F\<lparr>rt_dag := d, rt_replicas := (rt_replicas F)[i := ?r\<lparr>r_seq := r_seq ?r + 1\<rparr>],
           rt_epochOf := AList.update (c_id c) epoch (rt_epochOf F)\<rparr>))
         (case ce of (c, d) \<Rightarrow> set_head i c (D\<lparr>rt_dag := d, rt_replicas := (rt_replicas D)[i := ?r'\<lparr>r_seq := r_seq ?r + 1\<rparr>],
           rt_epochOf := AList.update (c_id c) epoch (rt_epochOf D)\<rparr>))"
        by (simp add: cd)
    qed
  qed
qed

lemma set_head_after:
  assumes "set_head i c rt = Inr rt'"
  shows "rt_dag rt' = rt_dag rt \<and> length (rt_replicas rt') = length (rt_replicas rt) \<and>
    c_id c \<in> head_ids rt' \<and> head_ids rt' \<subseteq> insert (c_id c) (head_ids rt)"
proof -
  from assms obtain fr where i: "i < length (rt_replicas rt)" and
    rt': "rt' = rt\<lparr>rt_replicas := (rt_replicas rt)[i := (rt_replicas rt ! i)\<lparr>r_head := c, r_frontier := fr\<rparr>]\<rparr>"
    by (auto simp: set_head_def get_replica_def rbind_eq_Inr split: if_splits)
  have "(rt_replicas rt ! i)\<lparr>r_head := c, r_frontier := fr\<rparr> \<in> set (rt_replicas rt')"
    using i by (simp add: rt' set_update_memI)
  then have "c_id c \<in> head_ids rt'" by (force simp: head_ids_def)
  then show ?thesis
    using head_ids_update [of rt i "(rt_replicas rt ! i)\<lparr>r_head := c, r_frontier := fr\<rparr>"]
    by (simp add: rt')
qed

lemma lca_kept:
  assumes "dag_wf d" and "heads_ok d K H" and "a \<in> H" "b \<in> H" and "lca d a b = Inr l"
  shows "l \<in> K \<and> dag_has d l"
proof -
  have "maximal_in d (common_anc d a b) = {l}" by (rule lca_Inr [OF assms(1,5)])
  moreover from this have "l \<in> dag_anc d a" by (auto simp: maximal_in_def common_anc_def)
  ultimately show ?thesis using assms(2-4) dag_anc_has [of d a l] unfolding heads_ok_def by blast
qed

lemma merge_sim:
  fixes F D :: "('o, 's, 'x) runtime"
  assumes sim: "gc_sim K F D" and i: "i < length (rt_replicas F)" "j < length (rt_replicas F)"
    and ab: "c_id a \<in> head_ids F" "c_id b \<in> head_ids F"
  shows "res_rel (\<lambda>F' D'. \<exists>K'. gc_sim K' F' D') (rt_merge_heads dt i j a b F) (rt_merge_heads dt i j a b D)"
proof -
  have wf: "dag_wf (rt_dag F)" "dag_wf (rt_dag D)" and r: "restricted_to (rt_dag F) K (rt_dag D)"
    and up: "upclosed (rt_dag F) K" and H: "heads_ok (rt_dag F) K (head_ids F)"
    using sim by (auto simp: gc_sim_def)
  have ep: "epoch_of D k = epoch_of F k" for k using sim by (simp add: gc_sim_def epoch_of_def)
  have lf: "liftState dt D = liftState dt F" using sim by (simp add: gc_sim_def liftState_def fun_eq_iff)
  have lc: "res_rel (\<lambda>l l'. l' = l \<and> lca (rt_dag F) (c_id a) (c_id b) = Inr l)
      (lca (rt_dag F) (c_id a) (c_id b)) (lca (rt_dag D) (c_id a) (c_id b))"
    using restricted_lca [OF wf r up H ab]
    by (cases "lca (rt_dag F) (c_id a) (c_id b)"; cases "lca (rt_dag D) (c_id a) (c_id b)") auto
  show ?thesis
    unfolding rt_merge_heads_def ep lf
  proof (rule res_rel_bind [OF lc], elim conjE, hypsubst, intro res_rel_same)
    fix l eA eB
    assume l: "lca (rt_dag F) (c_id a) (c_id b) = Inr l"
    note lk = lca_kept [OF wf(1) H ab l]
    obtain cl where cl: "dag_get (rt_dag F) l = Inr cl" using lk dag_get_has by blast
    obtain cl' where cl': "dag_get (rt_dag D) l = Inr cl'" "c_state cl' = c_state cl"
      using restricted_get_state [OF r _ cl] lk by blast
    show "res_rel (\<lambda>F' D'. \<exists>K'. gc_sim K' F' D')
     (rbind (dag_get (rt_dag F) l) (\<lambda>lc. rbind (epoch_of F l) (\<lambda>eL.
     rbind (liftState dt F (c_state lc) eL (max eA eB)) (\<lambda>lState.
     rbind (liftState dt F (c_state a) eA (max eA eB)) (\<lambda>aState.
     rbind (liftState dt F (c_state b) eB (max eA eB)) (\<lambda>bState.
     rbind (dt_merge3 dt lState aState bState) (\<lambda>merged.
     rbind (dag_add (rt_dag F) [c_id a, c_id b] None merged) (\<lambda>(c, d).
     rbind (set_head i c (F\<lparr>rt_dag := d,
         rt_epochOf := AList.update (c_id c) (max eA eB) (rt_epochOf F)\<rparr>))
       (set_head j c)))))))))
     (rbind (dag_get (rt_dag D) l) (\<lambda>lc. rbind (epoch_of F l) (\<lambda>eL.
     rbind (liftState dt F (c_state lc) eL (max eA eB)) (\<lambda>lState.
     rbind (liftState dt F (c_state a) eA (max eA eB)) (\<lambda>aState.
     rbind (liftState dt F (c_state b) eB (max eA eB)) (\<lambda>bState.
     rbind (dt_merge3 dt lState aState bState) (\<lambda>merged.
     rbind (dag_add (rt_dag D) [c_id a, c_id b] None merged) (\<lambda>(c, d).
     rbind (set_head i c (D\<lparr>rt_dag := d,
         rt_epochOf := AList.update (c_id c) (max eA eB) (rt_epochOf D)\<rparr>))
       (set_head j c)))))))))"
      unfolding cl cl' rbind_simps
    proof (intro res_rel_same)
      fix merged
      show "res_rel (\<lambda>F' D'. \<exists>K'. gc_sim K' F' D')
        (rbind (dag_add (rt_dag F) [c_id a, c_id b] None merged) (\<lambda>(c, d).
         rbind (set_head i c (F\<lparr>rt_dag := d,
         rt_epochOf := AList.update (c_id c) (max eA eB) (rt_epochOf F)\<rparr>)) (set_head j c)))
        (rbind (dag_add (rt_dag D) [c_id a, c_id b] None merged) (\<lambda>(c, d).
         rbind (set_head i c (D\<lparr>rt_dag := d,
         rt_epochOf := AList.update (c_id c) (max eA eB) (rt_epochOf D)\<rparr>)) (set_head j c)))"
      proof (rule res_rel_bind [OF append_sim [OF sim]], use ab in simp, simp)
        fix cd ce :: "('o payload, 's) commit \<times> ('o payload, 's) dag"
        assume "(\<lambda>(c, d) (c', e). c' = c \<and> c_id c = d_next (rt_dag F) \<and>
          dag_wf d \<and> dag_wf e \<and> restricted_to d (insert (c_id c) K) e \<and> upclosed d (insert (c_id c) K) \<and>
          heads_ok d (insert (c_id c) K) (insert (c_id c) (head_ids F)) \<and>
          dag_has d (c_id (rt_root F)) \<and>
          (\<forall>i. dag_has d i \<longrightarrow> c_id (rt_root F) \<in> dag_anc d i)) cd ce"
        then obtain c d e where cd: "cd = (c, d)" "ce = (c, e)" and
          rel: "dag_wf d" "dag_wf e" "restricted_to d (insert (c_id c) K) e"
          "upclosed d (insert (c_id c) K)" "heads_ok d (insert (c_id c) K) (insert (c_id c) (head_ids F))"
          "dag_has d (c_id (rt_root F))" "\<forall>i. dag_has d i \<longrightarrow> c_id (rt_root F) \<in> dag_anc d i"
          by (cases cd; cases ce) auto
        let ?K = "insert (c_id c) K"
        let ?F = "F\<lparr>rt_dag := d, rt_epochOf := AList.update (c_id c) (max eA eB) (rt_epochOf F)\<rparr>"
        let ?D = "D\<lparr>rt_dag := e, rt_epochOf := AList.update (c_id c) (max eA eB) (rt_epochOf D)\<rparr>"
        have ids: "head_ids ?F = head_ids F" by (simp add: head_ids_def)
        have sim1: "gc_sim ?K ?F ?D"
          using sim rel heads_ok_mono [OF rel(5), of "head_ids F"] unfolding gc_sim_def ids by auto
        have "res_rel (gc_sim ?K) (set_head i c ?F) (set_head i c ?D)"
          by (rule set_head_sim [OF sim1]) (use rel ids i in auto)
        then have "res_rel (\<lambda>F' D'. \<exists>K'. gc_sim K' F' D')
          (rbind (set_head i c ?F) (set_head j c)) (rbind (set_head i c ?D) (set_head j c))"
        proof (rule res_rel_bind)
          fix F1 D1
          assume F1: "set_head i c ?F = Inr F1" and sim2: "gc_sim ?K F1 D1"
          note af = set_head_after [OF F1]
          have "insert (c_id c) (head_ids F1) = head_ids F1" using af by auto
          then have "heads_ok (rt_dag F1) ?K (insert (c_id c) (head_ids F1))"
            using sim2 by (simp add: gc_sim_def)
          from set_head_sim [OF sim2 this] af i(2)
          show "res_rel (\<lambda>F' D'. \<exists>K'. gc_sim K' F' D') (set_head j c F1) (set_head j c D1)"
            by (intro res_rel_ex) simp
        qed
        then show "res_rel (\<lambda>F' D'. \<exists>K'. gc_sim K' F' D')
          (case cd of (c, d) \<Rightarrow> rbind (set_head i c (F\<lparr>rt_dag := d,
             rt_epochOf := AList.update (c_id c) (max eA eB) (rt_epochOf F)\<rparr>)) (set_head j c))
          (case ce of (c, d) \<Rightarrow> rbind (set_head i c (D\<lparr>rt_dag := d,
             rt_epochOf := AList.update (c_id c) (max eA eB) (rt_epochOf D)\<rparr>)) (set_head j c))"
          by (simp add: cd)
      qed
    qed
  qed
qed

lemma sync_sim:
  assumes sim: "gc_sim K F D"
  shows "res_rel (\<lambda>F' D'. \<exists>K'. gc_sim K' F' D') (rt_sync dt i j F) (rt_sync dt i j D)"
proof (cases "i < length (rt_replicas F) \<and> j < length (rt_replicas F)")
  case False
  have "get_replica x k = Inl (Error ''no such replica'')" if "\<not> k < length (rt_replicas x)" for x k
    using that by (simp add: get_replica_def)
  moreover have "length (rt_replicas D) = length (rt_replicas F)" by (rule gc_sim_replicas(1) [OF sim])
  ultimately show ?thesis
    using False by (cases "i < length (rt_replicas F)") (auto simp: rt_sync_def get_replica_def)
next
  case True
  let ?a = "r_head (rt_replicas F ! i)" and ?b = "r_head (rt_replicas F ! j)"
  have g: "get_replica F i = Inr (rt_replicas F ! i)" "get_replica F j = Inr (rt_replicas F ! j)"
    "get_replica D i = Inr (rt_replicas D ! i)" "get_replica D j = Inr (rt_replicas D ! j)"
    using True gc_sim_replicas(1) [OF sim] by (simp_all add: get_replica_def)
  have hd: "r_head (rt_replicas D ! i) = ?a" "r_head (rt_replicas D ! j) = ?b"
    using rep_core_eqD [OF gc_sim_replicas(3) [OF sim]] True by metis+
  have ab: "c_id ?a \<in> head_ids F" "c_id ?b \<in> head_ids F" using True head_in by blast+
  have H: "heads_ok (rt_dag F) K (head_ids F)" and r: "restricted_to (rt_dag F) K (rt_dag D)"
    and up: "upclosed (rt_dag F) K" using sim by (auto simp: gc_sim_def)
  have k: "c_id ?a \<in> K" "c_id ?b \<in> K" "dag_has (rt_dag F) (c_id ?a)" "dag_has (rt_dag F) (c_id ?b)"
    using H ab by (auto simp: heads_ok_def)
  have anc: "dag_isAncestor (rt_dag D) (c_id ?a) (c_id ?b) = dag_isAncestor (rt_dag F) (c_id ?a) (c_id ?b)"
    "dag_isAncestor (rt_dag D) (c_id ?b) (c_id ?a) = dag_isAncestor (rt_dag F) (c_id ?b) (c_id ?a)"
    using restricted_isAncestor [OF r up] k by blast+
  have ins: "insert (c_id ?a) (head_ids F) = head_ids F" "insert (c_id ?b) (head_ids F) = head_ids F"
    using ab by auto
  have mv: "res_rel (\<lambda>F' D'. \<exists>K'. gc_sim K' F' D') (set_head i ?b F) (set_head i ?b D)"
    "res_rel (\<lambda>F' D'. \<exists>K'. gc_sim K' F' D') (set_head j ?a F) (set_head j ?a D)"
    using True H ins by (auto intro!: res_rel_ex set_head_sim [OF sim])
  show ?thesis
    unfolding rt_sync_def g rbind_simps hd anc Let_def
    using mv merge_sim [OF sim conjunct1 [OF True] conjunct2 [OF True] ab] sim
    by (auto intro!: res_rel_same)
qed

lemma collect_sim:
  assumes sim: "gc_sim K F D"
  shows "\<exists>res D' K'. rt_gc D = Inr (res, D') \<and> gc_sim K' F D'"
proof -
  let ?hs = "map (\<lambda>r. c_id (r_head r)) (rt_replicas D)"
  have hs: "set ?hs = head_ids F" using gc_sim_replicas(2) [OF sim] by (auto simp: head_ids_def)
  have wf: "dag_wf (rt_dag F)" "dag_wf (rt_dag D)" and r: "restricted_to (rt_dag F) K (rt_dag D)"
    and up: "upclosed (rt_dag F) K" and H: "heads_ok (rt_dag F) K (head_ids F)"
    using sim by (auto simp: gc_sim_def)
  have "\<forall>h \<in> set ?hs. dag_has (rt_dag D) h"
    using H unfolding hs by (auto simp: heads_ok_def restricted_has [OF r])
  from runGc_kept [OF wf(2) this] obtain keep res e2 where k: "runGc (rt_dag D) ?hs = Inr (res, e2)"
    "restricted_to (rt_dag D) (set keep) e2" "upclosed (rt_dag D) (set keep)" "dag_wf e2"
    "set ?hs \<subseteq> set keep" "set keep \<subseteq> set (dag_ids (rt_dag D))"
    "\<And>a b. a \<in> set ?hs \<Longrightarrow> b \<in> set ?hs \<Longrightarrow>
       maximal_in (rt_dag D) (common_anc (rt_dag D) a b) \<subseteq> set keep" by metis
  have sub: "set keep \<subseteq> K" using k(6) restricted_has [OF r] by (auto simp: dag_has_iff [symmetric])
  have "maximal_in (rt_dag F) (common_anc (rt_dag F) a b) \<subseteq> set keep"
    if ab: "a \<in> head_ids F" "b \<in> head_ids F" for a b
  proof -
    have "a \<in> K" "b \<in> K" "dag_has (rt_dag F) a" "maximal_in (rt_dag F) (common_anc (rt_dag F) a b) \<subseteq> K"
      using H ab by (auto simp: heads_ok_def)
    from restricted_maximal [OF r up this(1,2) common_anc_finite [OF this(3)] wf(1) this(4)]
    show ?thesis using k(7) [of a b] ab unfolding hs by simp
  qed
  then have "heads_ok (rt_dag F) (set keep) (head_ids F)"
    using H k(5) unfolding hs heads_ok_def by blast
  then have "gc_sim (set keep) F (D\<lparr>rt_dag := e2\<rparr>)"
    using sim restricted_trans [OF r k(2) sub] upclosed_trans [OF r up k(3) sub] k(4)
    by (auto simp: gc_sim_def)
  then show ?thesis using k(1) by (auto simp: rt_gc_def)
qed

lemma register_sim:
  assumes sim: "gc_sim K F D" and root: "c_id (rt_root F) \<in> K"
  shows "res_rel (gc_sim K) (rt_register name F) (rt_register name D)"
proof -
  let ?root = "c_id (rt_root F)"
  have wf: "dag_wf (rt_dag F)" and r: "restricted_to (rt_dag F) K (rt_dag D)"
    and H: "heads_ok (rt_dag F) K (head_ids F)" and rt: "rt_root D = rt_root F"
    and hr: "dag_has (rt_dag F) ?root"
    and low: "\<And>i. dag_has (rt_dag F) i \<Longrightarrow> ?root \<in> dag_anc (rt_dag F) i"
    using sim by (auto simp: gc_sim_def)
  have hD: "dag_has (rt_dag D) ?root" using hr root restricted_has [OF r] by simp
  obtain fr where fr: "frontierOf (rt_dag F) ?root = Inr fr" using frontierOf_ok [OF hr] ..
  obtain fr' where fr': "frontierOf (rt_dag D) ?root = Inr fr'" using frontierOf_ok [OF hD] ..
  have up: "upclosed (rt_dag F) K" using sim by (simp add: gc_sim_def)
  have onlyroot: "maximal_in (rt_dag F) (common_anc (rt_dag F) ?root h) \<subseteq> {?root}"
    if h: "dag_has (rt_dag F) h" for h
  proof
    fix x
    assume x: "x \<in> maximal_in (rt_dag F) (common_anc (rt_dag F) ?root h)"
    then have "x \<in> dag_anc (rt_dag F) ?root" by (auto simp: maximal_in_def common_anc_def)
    then have "?root \<in> dag_anc (rt_dag F) x" using low dag_anc_has [OF hr] by blast
    then show "x \<in> {?root}" using dag_anc_antisym [OF wf] \<open>x \<in> dag_anc (rt_dag F) ?root\<close> by blast
  qed
  have "heads_ok (rt_dag F) K (insert ?root (head_ids F))"
    unfolding heads_ok_def
  proof (intro conjI ballI)
    fix a b
    assume ab: "a \<in> insert ?root (head_ids F)" "b \<in> insert ?root (head_ids F)"
    have has: "dag_has (rt_dag F) a" "dag_has (rt_dag F) b" using ab H hr by (auto simp: heads_ok_def)
    consider "a = ?root" | "b = ?root" | "a \<in> head_ids F" "b \<in> head_ids F" using ab by auto
    then show "maximal_in (rt_dag F) (common_anc (rt_dag F) a b) \<subseteq> K"
    proof cases
      case 1
      then show ?thesis using onlyroot [OF has(2)] root by auto
    next
      case 2
      then show ?thesis using onlyroot [OF has(1)] root common_anc_commute [of "rt_dag F" a b] by auto
    next
      case 3
      then show ?thesis using H unfolding heads_ok_def by blast
    qed
  qed (use H hr root in \<open>auto simp: heads_ok_def\<close>)
  then show ?thesis
    using sim hr hD fr fr' by (auto simp: rt_register_def rt gc_sim_def head_ids_def rep_core_def)
qed

section \<open>Runs\<close>

lemma gc_sim_self: "gc_sim K F D \<Longrightarrow> gc_sim UNIV F F"
  by (auto simp: gc_sim_def restricted_to_def upclosed_def heads_ok_def option.map_ident)

lemma runtime_new_Inr:
  assumes "runtime_new dt = Inr rt"
  shows "rt = \<lparr>rt_dag = \<lparr>d_commits = [(0, \<lparr>c_id = 0, c_parents = [], c_op = None, c_state = dt_init dt\<rparr>)],
      d_next = 1\<rparr>, rt_root = \<lparr>c_id = 0, c_parents = [], c_op = None, c_state = dt_init dt\<rparr>,
      rt_replicas = [], rt_epochs = [None], rt_epochOf = [(0, 0)]\<rparr>"
  using assms by (simp add: runtime_new_def dag_add_def dag_empty_def Let_def)

lemma runtime_new_sim:
  assumes "runtime_new dt = Inr rt"
  shows "gc_sim UNIV rt rt"
proof -
  note rt = runtime_new_Inr [OF assms]
  have "dag_wf (rt_dag rt)" by (simp add: rt dag_wf_def dag_ids_def)
  moreover have "dag_has (rt_dag rt) i \<longleftrightarrow> i = 0" for i by (simp add: rt dag_has_def)
  ultimately show ?thesis
    by (auto simp: gc_sim_def restricted_to_def upclosed_def heads_ok_def option.map_ident head_ids_def rt)
qed

definition rt_run ::
  "('o, 's, 'x, 'r) dtype \<Rightarrow> 'o rt_step list \<Rightarrow> ('o, 's, 'x) runtime \<Rightarrow> ('o, 's, 'x) runtime res"
where
  "rt_run dt steps rt = foldM (rt_exec dt) steps rt"

lemma rt_run_simps:
  "rt_run dt [] rt = Inr rt"
  "rt_run dt (st # steps) rt = rbind (rt_exec dt st rt) (rt_run dt steps)"
  by (simp_all add: rt_run_def [abs_def])

fun is_register :: "'o rt_step \<Rightarrow> bool" where
  "is_register (SRegister _) = True"
| "is_register _ = False"

lemma exec_sim:
  assumes sim: "gc_sim K F D" and "\<not> is_register st"
  shows "res_rel (\<lambda>F' D'. \<exists>K'. gc_sim K' F' D')
    (if st = SGc then Inr F else rt_exec dt st F) (rt_exec dt st D)"
proof (cases st)
  case (SCommit i x)
  then show ?thesis using commit_sim [OF sim] by (simp add: rt_exec_def)
next
  case (SSync i j)
  then show ?thesis using sync_sim [OF sim] by (simp add: rt_exec_def)
next
  case SGc
  then show ?thesis using collect_sim [OF sim] by (auto simp: rt_exec_def)
qed (use assms in simp)

lemma run_sim:
  assumes "gc_sim K F D" and "\<And>s. s \<in> set steps \<Longrightarrow> \<not> is_register s"
  shows "res_rel (\<lambda>F' D'. \<exists>K'. gc_sim K' F' D')
    (rt_run dt (filter (\<lambda>s. s \<noteq> SGc) steps) F) (rt_run dt steps D)"
  using assms
proof (induction steps arbitrary: F D K)
  case Nil
  then show ?case by (auto simp: rt_run_def)
next
  case (Cons st steps)
  have "res_rel (\<lambda>F' D'. \<exists>K'. gc_sim K' F' D')
      (rbind (if st = SGc then Inr F else rt_exec dt st F) (rt_run dt (filter (\<lambda>s. s \<noteq> SGc) steps)))
      (rbind (rt_exec dt st D) (rt_run dt steps))"
    by (rule res_rel_bind [OF exec_sim [OF Cons.prems(1)]]) (use Cons in auto)
  then show ?case by (cases "st = SGc") (simp_all add: rt_run_simps)
qed

lemma run_self:
  assumes "gc_sim UNIV F F" and "SGc \<notin> set steps" and "rt_run dt steps F = Inr F'"
  shows "gc_sim UNIV F' F'"
  using assms
proof (induction steps arbitrary: F)
  case Nil
  then show ?case by (simp add: rt_run_def)
next
  case (Cons st steps)
  from Cons.prems(3) obtain F1 where F1: "rt_exec dt st F = Inr F1" and r: "rt_run dt steps F1 = Inr F'"
    by (auto simp: rt_run_def rbind_eq_Inr)
  have "gc_sim UNIV F1 F1"
  proof (cases "is_register st")
    case True
    then obtain name where "st = SRegister name" by (cases st) auto
    then show ?thesis using register_sim [OF Cons.prems(1), of name] F1 by (simp add: rt_exec_def)
  next
    case False
    then show ?thesis using exec_sim [OF Cons.prems(1) False, of dt] F1 Cons.prems(2)
      by (auto split: if_splits intro: gc_sim_self)
  qed
  from Cons.IH [OF this _ r] Cons.prems(2) show ?case by simp
qed

lemma gc_sim_views:
  assumes "gc_sim K F D"
  shows "map (\<lambda>r. (r_name r, r_head r, r_seq r)) (rt_replicas D) =
      map (\<lambda>r. (r_name r, r_head r, r_seq r)) (rt_replicas F)"
    and "rt_read dt i D = rt_read dt i F"
proof -
  note l = gc_sim_replicas(1) [OF assms]
  show "map (\<lambda>r. (r_name r, r_head r, r_seq r)) (rt_replicas D) =
      map (\<lambda>r. (r_name r, r_head r, r_seq r)) (rt_replicas F)"
    using l rep_core_eqD [OF gc_sim_replicas(3) [OF assms]] by (intro nth_equalityI) auto
  show "rt_read dt i D = rt_read dt i F"
    using l rep_core_eqD [OF gc_sim_replicas(3) [OF assms], of i]
    by (simp add: rt_read_def get_replica_def)
qed

end
