(* ===== verification/Mrdt.thy ===== *)
theory Mrdt
  imports RuntimeGc
begin

text \<open>
  The contract a datatype owes the runtime, as a locale, and what the runtime owes in return:
  in every run of registrations, commits, synchronisations and collections, the state at a
  replica's head represents exactly the set of operations delivered to it, where a commit
  delivers its operation to the replica and a synchronisation gives both replicas the union.
  Replicas with the same delivered set therefore read the same. Each datatype theory interprets
  the locale on its own definitions.
\<close>

section \<open>Deliveries\<close>

text \<open>
  An event is a commit id with its prepared operation. \<open>honest U E x\<close> is the precondition under
  which the application may issue \<open>x\<close> at a replica with events \<open>E\<close>, when the events of all
  replicas are \<open>U\<close>.
\<close>

type_synonym 'o event = "nat \<times> 'o"

inductive delivery_run ::
  "('o, 's, 'x, 'r) dtype \<Rightarrow> ('o event set \<Rightarrow> 'o event set \<Rightarrow> 'o \<Rightarrow> bool) \<Rightarrow>
   ('o, 's, 'x) runtime \<Rightarrow> 'o event set \<Rightarrow> 'o event set list \<Rightarrow> bool"
  for dt honest
where
  start: "runtime_new dt = Inr rt \<Longrightarrow> delivery_run dt honest rt {} []"
| register: "delivery_run dt honest rt U Es \<Longrightarrow> rt_register name rt = Inr rt' \<Longrightarrow>
    delivery_run dt honest rt' U (Es @ [{}])"
| commit: "delivery_run dt honest rt U Es \<Longrightarrow> i < length Es \<Longrightarrow> honest U (Es ! i) x \<Longrightarrow>
    dt_prepared dt (c_state (r_head (rt_replicas rt ! i))) x = Inr y \<Longrightarrow>
    rt_commit dt i x rt = Inr rt' \<Longrightarrow> e = (d_next (rt_dag rt), y) \<Longrightarrow>
    delivery_run dt honest rt' (insert e U) (Es[i := insert e (Es ! i)])"
| sync: "delivery_run dt honest rt U Es \<Longrightarrow> i < length Es \<Longrightarrow> j < length Es \<Longrightarrow>
    rt_sync dt i j rt = Inr rt' \<Longrightarrow>
    delivery_run dt honest rt' U (Es[i := Es ! i \<union> Es ! j, j := Es ! i \<union> Es ! j])"
| collect: "delivery_run dt honest rt U Es \<Longrightarrow> rt_gc rt = Inr (res, rt') \<Longrightarrow>
    delivery_run dt honest rt' U Es"

section \<open>The events of a commit\<close>

fun op_events :: "nat \<Rightarrow> 'o payload op_rec option \<Rightarrow> 'o event set" where
  "op_events k None = {}"
| "op_events k (Some o1) = (\<lambda>x. (k, x)) ` set (payload_ops (op_payload o1))"

definition ev_at :: "('o payload, 's) dag \<Rightarrow> nat \<Rightarrow> 'o event set" where
  "ev_at d k = (case map_of (d_commits d) k of None \<Rightarrow> {} | Some c \<Rightarrow> op_events k (c_op c))"

definition evs :: "('o payload, 's) dag \<Rightarrow> nat \<Rightarrow> 'o event set" where
  "evs d i = (\<Union>k \<in> dag_anc d i. ev_at d k)"

definition all_evs :: "('o payload, 's) dag \<Rightarrow> 'o event set" where
  "all_evs d = (\<Union>k \<in> set (dag_ids d). ev_at d k)"

lemma op_events_fst: "e \<in> op_events k o1 \<Longrightarrow> fst e = k"
  by (cases o1) auto

lemma ev_at_fst: "e \<in> ev_at d k \<Longrightarrow> fst e = k"
  by (auto simp: ev_at_def split: option.splits dest: op_events_fst)

lemma evs_subset: "dag_has d i \<Longrightarrow> evs d i \<subseteq> all_evs d"
  using dag_anc_has by (fastforce simp: evs_def all_evs_def dag_has_iff)

lemma evs_mono: "a \<in> dag_anc d b \<Longrightarrow> evs d a \<subseteq> evs d b"
  by (auto simp: evs_def intro: dag_anc_trans)

lemma all_evs_fst: "k \<in> fst ` all_evs d \<Longrightarrow> dag_has d k"
  by (auto simp: all_evs_def dag_has_iff dest: ev_at_fst)

text \<open>The events of a lowest common ancestor are the common events.\<close>

lemma evs_lca:
  assumes "dag_wf d" and "lca d a b = Inr l"
  shows "evs d l = evs d a \<inter> evs d b"
proof (intro equalityI subsetI)
  have l: "l \<in> dag_anc d a" "l \<in> dag_anc d b"
    using lca_greatest_common(1) [OF assms] by (auto simp: common_anc_def)
  fix e
  show "e \<in> evs d l \<Longrightarrow> e \<in> evs d a \<inter> evs d b"
    using evs_mono [OF l(1)] evs_mono [OF l(2)] by blast
  assume "e \<in> evs d a \<inter> evs d b"
  then obtain k k' where "k \<in> dag_anc d a" "e \<in> ev_at d k" "k' \<in> dag_anc d b" "e \<in> ev_at d k'"
    by (auto simp: evs_def)
  then have "k \<in> common_anc d a b" using ev_at_fst by (metis IntI common_anc_def)
  then have "k \<in> dag_anc d l" by (rule lca_greatest_common(2) [OF assms])
  with \<open>e \<in> ev_at d k\<close> show "e \<in> evs d l" by (auto simp: evs_def)
qed

lemma evs_add:
  assumes wf: "dag_wf d" and add: "dag_add d ps o1 st = Inr (c, d')"
  shows "dag_has d i \<Longrightarrow> evs d' i = evs d i"
    and "evs d' (d_next d) = op_events (d_next d) o1 \<union> (\<Union>p \<in> set ps. evs d p)"
    and "all_evs d' = op_events (d_next d) o1 \<union> all_evs d"
proof -
  note a = dag_add_Inr [OF add] and anc = dag_add_anc [OF wf add]
  have fresh: "\<not> dag_has d (d_next d)" using dag_wf_get [OF wf] by (force simp: dag_has_def)
  have at: "ev_at d' k = (if k = d_next d then op_events k o1 else ev_at d k)" for k
    using a by (simp add: ev_at_def)
  have old: "ev_at d' k = ev_at d k" if "dag_has d k" for k using at fresh that by auto
  show "evs d' i = evs d i" if i: "dag_has d i" for i
    unfolding evs_def anc(1) [OF i] using old dag_anc_has [OF i] by (intro SUP_cong) auto
  have "k \<noteq> d_next d" if "p \<in> set ps" "k \<in> dag_anc d p" for p k
    using fresh dag_anc_has a(1) that by blast
  then show "evs d' (d_next d) = op_events (d_next d) o1 \<union> (\<Union>p \<in> set ps. evs d p)"
    unfolding evs_def anc(2) by (fastforce simp: at)
  have "set (dag_ids d') = insert (d_next d) (set (dag_ids d))"
    using dag_add_has [OF add] by (auto simp: dag_has_iff [symmetric])
  then have "all_evs d' = ev_at d' (d_next d) \<union> (\<Union>k \<in> set (dag_ids d). ev_at d' k)"
    by (simp add: all_evs_def)
  also have "(\<Union>k \<in> set (dag_ids d). ev_at d' k) = all_evs d"
    unfolding all_evs_def using old by (intro SUP_cong) (auto simp: dag_has_iff)
  finally show "all_evs d' = op_events (d_next d) o1 \<union> all_evs d" by (simp add: at)
qed

section \<open>The contract\<close>

locale mrdt =
  fixes dt :: "('o, 's, 'x, 'r) dtype"
    and rep :: "'o event set \<Rightarrow> 's \<Rightarrow> bool"
    and honest :: "'o event set \<Rightarrow> 'o event set \<Rightarrow> 'o \<Rightarrow> bool"
    and good :: "'o event set \<Rightarrow> bool"
  assumes good_empty: "good {}"
    and rep_init: "rep {} (dt_init dt)"
    and rep_apply: "good U \<Longrightarrow> E \<subseteq> U \<Longrightarrow> rep E s \<Longrightarrow> honest U E x \<Longrightarrow> k \<notin> fst ` U \<Longrightarrow>
      \<exists>y s'. dt_prepared dt s x = Inr y \<and> dt_apply dt s y = Inr s' \<and>
        rep (insert (k, y) E) s' \<and> good (insert (k, y) U)"
    and rep_merge: "good U \<Longrightarrow> A \<subseteq> U \<Longrightarrow> B \<subseteq> U \<Longrightarrow> rep A a \<Longrightarrow> rep B b \<Longrightarrow> rep (A \<inter> B) l \<Longrightarrow>
      \<exists>m. dt_merge3 dt l a b = Inr m \<and> rep (A \<union> B) m"
    and rep_read: "rep E s \<Longrightarrow> rep E s' \<Longrightarrow> dt_read dt s = dt_read dt s'"
begin

text \<open>The invariant of the runtime that never collects.\<close>

definition full_inv :: "('o, 's, 'x) runtime \<Rightarrow> 'o event set \<Rightarrow> 'o event set list \<Rightarrow> bool" where
  "full_inv F U Es \<longleftrightarrow> dag_wf (rt_dag F) \<and> U = all_evs (rt_dag F) \<and> good U \<and>
     (\<forall>i c. map_of (d_commits (rt_dag F)) i = Some c \<longrightarrow> rep (evs (rt_dag F) i) (c_state c)) \<and>
     (\<forall>i. dag_has (rt_dag F) i \<longrightarrow> map_of (rt_epochOf F) i = Some 0) \<and> length Es = length (rt_replicas F) \<and>
     (\<forall>i < length Es. map_of (d_commits (rt_dag F)) (c_id (r_head (rt_replicas F ! i)))
          = Some (r_head (rt_replicas F ! i)) \<and>
        Es ! i = evs (rt_dag F) (c_id (r_head (rt_replicas F ! i)))) \<and>
     map_of (d_commits (rt_dag F)) (c_id (rt_root F)) = Some (rt_root F) \<and>
     evs (rt_dag F) (c_id (rt_root F)) = {}"

lemma full_start: "runtime_new dt = Inr rt \<Longrightarrow> full_inv rt {} []"
proof -
  assume a: "runtime_new dt = Inr rt"
  note rt = runtime_new_Inr [OF a]
  have e: "ev_at (rt_dag rt) k = {}" for k by (simp add: rt ev_at_def)
  have "dag_wf (rt_dag rt)" by (simp add: rt dag_wf_def dag_ids_def)
  then show ?thesis
    using rep_init good_empty by (auto simp: full_inv_def e evs_def all_evs_def) (auto simp: rt dag_has_def split: if_splits)
qed

lemma full_register:
  assumes "full_inv F U Es" and "rt_register name F = Inr F'"
  shows "full_inv F' U (Es @ [{}])"
proof -
  from assms(2) obtain fr where "F' = F\<lparr>rt_replicas := rt_replicas F @
      [\<lparr>r_name = name, r_head = rt_root F, r_seq = 0, r_frontier = fr\<rparr>]\<rparr>"
    by (auto simp: rt_register_def rbind_eq_Inr split: if_splits)
  with assms(1) show ?thesis by (auto simp: full_inv_def nth_append less_Suc_eq)
qed

text \<open>Appending a commit whose state represents its events.\<close>

lemma full_append:
  assumes inv: "full_inv F U Es" and add: "dag_add (rt_dag F) ps o1 st = Inr (c, d)"
    and st: "rep (op_events (d_next (rt_dag F)) o1 \<union> (\<Union>p \<in> set ps. evs (rt_dag F) p)) st"
    and good: "good (op_events (d_next (rt_dag F)) o1 \<union> U)"
    and reps: "map r_head rs = map r_head (rt_replicas F)"
  shows "full_inv (F\<lparr>rt_dag := d, rt_replicas := rs, rt_epochOf := AList.update (c_id c) 0 (rt_epochOf F)\<rparr>)
      (op_events (d_next (rt_dag F)) o1 \<union> U) Es"
    and "map_of (d_commits d) (c_id c) = Some c" and "c_id c = d_next (rt_dag F)"
    and "evs d (c_id c) = op_events (d_next (rt_dag F)) o1 \<union> (\<Union>p \<in> set ps. evs (rt_dag F) p)"
proof -
  have wf: "dag_wf (rt_dag F)" using inv by (simp add: full_inv_def)
  note a = dag_add_Inr [OF add] and ev = evs_add [OF wf add]
  show cid: "c_id c = d_next (rt_dag F)" using a(2) by simp
  show "map_of (d_commits d) (c_id c) = Some c" using a(3) cid by simp
  show evc: "evs d (c_id c) = op_events (d_next (rt_dag F)) o1 \<union> (\<Union>p \<in> set ps. evs (rt_dag F) p)"
    using ev(2) cid by simp
  have len: "length rs = length (rt_replicas F)" using arg_cong [OF reps, of length] by simp
  have hd: "r_head (rs ! i) = r_head (rt_replicas F ! i)" if "i < length rs" for i
    using arg_cong [OF reps, of "\<lambda>xs. xs ! i"] that len by simp
  have keep: "map_of (d_commits d) j = Some cj \<and> evs d j = evs (rt_dag F) j"
    if "map_of (d_commits (rt_dag F)) j = Some cj" for j cj
    using that a(3) ev(1) [of j] dag_wf_get [OF wf that] by (auto simp: dag_has_def)
  have state: "rep (evs d i) (c_state ci)" if "map_of (d_commits d) i = Some ci" for i ci
  proof (cases "i = d_next (rt_dag F)")
    case True
    then have "ci = c" using that a(3) by simp
    then have "c_state ci = st" using a(2) by simp
    then show ?thesis using True st ev(2) by simp
  next
    case False
    then have "map_of (d_commits (rt_dag F)) i = Some ci" using that a(3) by simp
    with keep [OF this] inv show ?thesis by (simp add: full_inv_def)
  qed
  show "full_inv (F\<lparr>rt_dag := d, rt_replicas := rs, rt_epochOf := AList.update (c_id c) 0 (rt_epochOf F)\<rparr>)
      (op_events (d_next (rt_dag F)) o1 \<union> U) Es"
    using inv good dag_add_wf [OF wf add] ev(3) state keep len hd cid
    unfolding full_inv_def by (auto simp: update_conv' dag_add_has [OF add])
qed

text \<open>Moving a head to a commit of the store.\<close>

lemma full_set_head:
  assumes inv: "full_inv F U Es" and c: "map_of (d_commits (rt_dag F)) (c_id c) = Some c"
    and mv: "set_head i c F = Inr F'"
  shows "full_inv F' U (Es[i := evs (rt_dag F) (c_id c)]) \<and> rt_dag F' = rt_dag F"
proof -
  from mv obtain fr where i: "i < length (rt_replicas F)" and
    "F' = F\<lparr>rt_replicas := (rt_replicas F)[i := (rt_replicas F ! i)\<lparr>r_head := c, r_frontier := fr\<rparr>]\<rparr>"
    by (auto simp: set_head_def get_replica_def rbind_eq_Inr split: if_splits)
  with inv c show ?thesis by (auto simp: full_inv_def nth_list_update)
qed

lemma full_commit:
  assumes inv: "full_inv F U Es" and i: "i < length Es" and h: "honest U (Es ! i) x"
    and y: "dt_prepared dt (c_state (r_head (rt_replicas F ! i))) x = Inr y"
    and ex: "rt_commit dt i x F = Inr F'"
  shows "full_inv F' (insert (d_next (rt_dag F), y) U) (Es[i := insert (d_next (rt_dag F), y) (Es ! i)])"
proof -
  let ?r = "rt_replicas F ! i"
  have ir: "i < length (rt_replicas F)" using inv i by (simp add: full_inv_def)
  have wf: "dag_wf (rt_dag F)" using inv by (simp add: full_inv_def)
  have hd: "map_of (d_commits (rt_dag F)) (c_id (r_head ?r)) = Some (r_head ?r)"
    "Es ! i = evs (rt_dag F) (c_id (r_head ?r))" and U: "U = all_evs (rt_dag F)" "good U"
    using inv i by (auto simp: full_inv_def)
  have hh: "dag_has (rt_dag F) (c_id (r_head ?r))" using hd by (simp add: dag_has_def)
  have ep: "epoch_of F (c_id (r_head ?r)) = Inr 0" using inv hh by (simp add: epoch_of_def full_inv_def)
  have "rbind (dt_apply dt (c_state (r_head ?r)) y) (\<lambda>s'.
      rbind (dag_add (rt_dag F) [c_id (r_head ?r)]
        (Some \<lparr>op_replica = r_name ?r, op_seq = r_seq ?r, op_payload = Single y\<rparr>) s') (\<lambda>(c, d).
      set_head i c (F\<lparr>rt_dag := d, rt_replicas := (rt_replicas F)[i := ?r\<lparr>r_seq := r_seq ?r + 1\<rparr>],
         rt_epochOf := AList.update (c_id c) 0 (rt_epochOf F)\<rparr>))) = Inr F'"
    using ex by (simp only: rt_commit_def get_replica_def ir if_True rbind_simps y ep)
  then obtain s' where s': "dt_apply dt (c_state (r_head ?r)) y = Inr s'"
    and rest: "rbind (dag_add (rt_dag F) [c_id (r_head ?r)]
        (Some \<lparr>op_replica = r_name ?r, op_seq = r_seq ?r, op_payload = Single y\<rparr>) s') (\<lambda>(c, d).
      set_head i c (F\<lparr>rt_dag := d, rt_replicas := (rt_replicas F)[i := ?r\<lparr>r_seq := r_seq ?r + 1\<rparr>],
         rt_epochOf := AList.update (c_id c) 0 (rt_epochOf F)\<rparr>)) = Inr F'"
    unfolding rbind_eq_Inr [of "dt_apply dt _ y"] by blast
  from rest obtain c d where add: "dag_add (rt_dag F) [c_id (r_head ?r)]
      (Some \<lparr>op_replica = r_name ?r, op_seq = r_seq ?r, op_payload = Single y\<rparr>) s' = Inr (c, d)"
    and mv: "set_head i c (F\<lparr>rt_dag := d, rt_replicas := (rt_replicas F)[i := ?r\<lparr>r_seq := r_seq ?r + 1\<rparr>],
         rt_epochOf := AList.update (c_id c) 0 (rt_epochOf F)\<rparr>) = Inr F'"
    unfolding rbind_pair_Inr unfolding rbind_eq_Inr by blast
  let ?e = "(d_next (rt_dag F), y)"
  let ?F = "F\<lparr>rt_dag := d, rt_replicas := (rt_replicas F)[i := ?r\<lparr>r_seq := r_seq ?r + 1\<rparr>],
         rt_epochOf := AList.update (c_id c) 0 (rt_epochOf F)\<rparr>"
  have fresh: "d_next (rt_dag F) \<notin> fst ` U"
    using all_evs_fst [of "d_next (rt_dag F)" "rt_dag F"] dag_wf_get [OF wf, of "d_next (rt_dag F)"]
    unfolding U by (force simp: dag_has_def)
  have "rep (Es ! i) (c_state (r_head ?r))" using inv hd by (simp add: full_inv_def)
  moreover have "Es ! i \<subseteq> U" unfolding U hd(2) by (rule evs_subset [OF hh])
  ultimately have ra: "rep (insert ?e (Es ! i)) s'" "good (insert ?e U)"
    using rep_apply [OF U(2) _ _ h fresh] y s' by force+
  have "map r_head ((rt_replicas F)[i := ?r\<lparr>r_seq := r_seq ?r + 1\<rparr>]) = map r_head (rt_replicas F)"
    using ir by (simp add: map_update list_update_same_conv)
  note ap = full_append [OF inv add, where rs = "(rt_replicas F)[i := ?r\<lparr>r_seq := r_seq ?r + 1\<rparr>]", OF _ _ this]
  have inv1: "full_inv ?F (insert ?e U) Es" and c: "map_of (d_commits d) (c_id c) = Some c"
    "evs d (c_id c) = insert ?e (Es ! i)"
    using ap ra hd(2) by auto
  have "full_inv F' (insert ?e U) (Es[i := evs (rt_dag ?F) (c_id c)])"
    using full_set_head [OF inv1 _ mv] c by simp
  then show ?thesis using c(2) by simp
qed

lemma lift_same: "liftState dt F s e e = Inr s"
  by (simp add: liftState_def)

lemma full_merge:
  assumes inv: "full_inv F U Es" and i: "i < length Es" "j < length Es"
    and a: "a = r_head (rt_replicas F ! i)" and b: "b = r_head (rt_replicas F ! j)"
    and ex: "rt_merge_heads dt i j a b F = Inr F'"
  shows "full_inv F' U (Es[i := Es ! i \<union> Es ! j, j := Es ! i \<union> Es ! j])"
proof -
  have wf: "dag_wf (rt_dag F)" using inv by (simp add: full_inv_def)
  have hd: "map_of (d_commits (rt_dag F)) (c_id a) = Some a" "Es ! i = evs (rt_dag F) (c_id a)"
    "map_of (d_commits (rt_dag F)) (c_id b) = Some b" "Es ! j = evs (rt_dag F) (c_id b)"
    and U: "U = all_evs (rt_dag F)" "good U"
    using inv i by (auto simp: full_inv_def a b)
  have has: "dag_has (rt_dag F) (c_id a)" "dag_has (rt_dag F) (c_id b)" using hd by (auto simp: dag_has_def)
  have ep: "epoch_of F k = Inr 0" if "dag_has (rt_dag F) k" for k
    using inv that by (simp add: full_inv_def epoch_of_def)
  from ex obtain l where l: "lca (rt_dag F) (c_id a) (c_id b) = Inr l"
    unfolding rt_merge_heads_def rbind_eq_Inr by blast
  have hl: "dag_has (rt_dag F) l"
    using lca_greatest_common(1) [OF wf l] dag_anc_has [OF has(1)] by (auto simp: common_anc_def)
  then obtain lc where lc: "dag_get (rt_dag F) l = Inr lc" using dag_get_has by blast
  have "rbind (dt_merge3 dt (c_state lc) (c_state a) (c_state b)) (\<lambda>m.
      rbind (dag_add (rt_dag F) [c_id a, c_id b] None m) (\<lambda>(c, d).
      rbind (set_head i c (F\<lparr>rt_dag := d, rt_epochOf := AList.update (c_id c) 0 (rt_epochOf F)\<rparr>))
        (set_head j c))) = Inr F'"
    using ex by (simp only: rt_merge_heads_def l lc ep [OF has(1)] ep [OF has(2)] ep [OF hl]
        rbind_simps lift_same max.idem)
  then obtain m where m: "dt_merge3 dt (c_state lc) (c_state a) (c_state b) = Inr m"
    and rest: "rbind (dag_add (rt_dag F) [c_id a, c_id b] None m) (\<lambda>(c, d).
      rbind (set_head i c (F\<lparr>rt_dag := d, rt_epochOf := AList.update (c_id c) 0 (rt_epochOf F)\<rparr>))
        (set_head j c)) = Inr F'"
    unfolding rbind_eq_Inr [of "dt_merge3 dt _ _ _"] by blast
  from rest obtain c d F1 where add: "dag_add (rt_dag F) [c_id a, c_id b] None m = Inr (c, d)"
    and mv1: "set_head i c (F\<lparr>rt_dag := d, rt_epochOf := AList.update (c_id c) 0 (rt_epochOf F)\<rparr>) = Inr F1"
    and mv2: "set_head j c F1 = Inr F'"
    unfolding rbind_pair_Inr unfolding rbind_eq_Inr by blast
  let ?F = "F\<lparr>rt_dag := d, rt_replicas := rt_replicas F, rt_epochOf := AList.update (c_id c) 0 (rt_epochOf F)\<rparr>"
  have st: "rep (Es ! i) (c_state a)" "rep (Es ! j) (c_state b)" "rep (evs (rt_dag F) l) (c_state lc)"
    using inv hd lc by (auto simp: full_inv_def dag_get_Inr)
  have sub: "Es ! i \<subseteq> U" "Es ! j \<subseteq> U" unfolding U hd using evs_subset has by blast+
  have "rep (Es ! i \<inter> Es ! j) (c_state lc)" using st(3) evs_lca [OF wf l] hd by simp
  from rep_merge [OF U(2) sub st(1,2) this] m have rm: "rep (Es ! i \<union> Es ! j) m" by auto
  note ap = full_append [OF inv add, where rs = "rt_replicas F"]
  have inv1: "full_inv ?F U Es" and c: "map_of (d_commits d) (c_id c) = Some c"
    "evs d (c_id c) = Es ! i \<union> Es ! j"
    using ap rm U(2) hd by auto
  have "?F = F\<lparr>rt_dag := d, rt_epochOf := AList.update (c_id c) 0 (rt_epochOf F)\<rparr>" by simp
  note mv1' = mv1 [folded this]
  have F1: "full_inv F1 U (Es[i := Es ! i \<union> Es ! j])" "rt_dag F1 = d"
    using full_set_head [OF inv1 _ mv1'] c by auto
  have "full_inv F' U ((Es[i := Es ! i \<union> Es ! j])[j := evs (rt_dag F1) (c_id c)])"
    using full_set_head [OF F1(1) _ mv2] c F1(2) by simp
  then show ?thesis using F1(2) c(2) by simp
qed

lemma full_sync:
  assumes inv: "full_inv F U Es" and i: "i < length Es" "j < length Es"
    and ex: "rt_sync dt i j F = Inr F'"
  shows "full_inv F' U (Es[i := Es ! i \<union> Es ! j, j := Es ! i \<union> Es ! j])"
proof -
  let ?a = "r_head (rt_replicas F ! i)" and ?b = "r_head (rt_replicas F ! j)"
  have ir: "i < length (rt_replicas F)" "j < length (rt_replicas F)" using inv i by (auto simp: full_inv_def)
  have hd: "map_of (d_commits (rt_dag F)) (c_id ?a) = Some ?a" "Es ! i = evs (rt_dag F) (c_id ?a)"
    "map_of (d_commits (rt_dag F)) (c_id ?b) = Some ?b" "Es ! j = evs (rt_dag F) (c_id ?b)"
    using inv i by (auto simp: full_inv_def)
  have same: "Es[i := Es ! i, j := Es ! j] = Es" by simp
  have ex': "(if c_id ?a = c_id ?b then Inr F
       else rbind (dag_isAncestor (rt_dag F) (c_id ?a) (c_id ?b)) (\<lambda>ab.
         if ab then set_head i ?b F
         else rbind (dag_isAncestor (rt_dag F) (c_id ?b) (c_id ?a)) (\<lambda>ba.
           if ba then set_head j ?a F else rt_merge_heads dt i j ?a ?b F))) = Inr F'"
    using ex ir by (simp add: rt_sync_def get_replica_def Let_def)
  have isA: "dag_isAncestor (rt_dag F) (c_id ?a) (c_id ?b) = Inr (c_id ?a \<in> dag_anc (rt_dag F) (c_id ?b))"
    "dag_isAncestor (rt_dag F) (c_id ?b) (c_id ?a) = Inr (c_id ?b \<in> dag_anc (rt_dag F) (c_id ?a))"
    using hd by (auto simp: dag_isAncestor_iff dag_has_def)
  note ex2 = ex' [unfolded isA rbind_simps]
  consider (eq) "c_id ?a = c_id ?b" | (ab) "c_id ?a \<noteq> c_id ?b" "c_id ?a \<in> dag_anc (rt_dag F) (c_id ?b)"
    | (ba) "c_id ?a \<noteq> c_id ?b" "c_id ?a \<notin> dag_anc (rt_dag F) (c_id ?b)" "c_id ?b \<in> dag_anc (rt_dag F) (c_id ?a)"
    | (mg) "c_id ?a \<noteq> c_id ?b" "c_id ?a \<notin> dag_anc (rt_dag F) (c_id ?b)" "c_id ?b \<notin> dag_anc (rt_dag F) (c_id ?a)"
    by blast
  then show ?thesis
  proof cases
    case eq
    then have "Es ! i = Es ! j" unfolding hd(2,4) by (rule arg_cong)
    moreover have "F' = F" using ex2 unfolding if_P [OF eq] by simp
    moreover have "Es[i := Es ! i \<union> Es ! j, j := Es ! i \<union> Es ! j] = Es"
      using \<open>Es ! i = Es ! j\<close> by (metis Un_absorb list_update_id)
    ultimately show ?thesis using inv by simp
  next
    case ab
    have mv: "set_head i ?b F = Inr F'" using ex2 unfolding if_not_P [OF ab(1)] if_P [OF ab(2)] .
    from ab have u: "Es ! i \<union> Es ! j = Es ! j" using evs_mono hd by blast
    have "full_inv F' U (Es[i := Es ! j])" using full_set_head [OF inv hd(3) mv] hd(4) by simp
    then show ?thesis unfolding u by (metis list_update_id list_update_overwrite list_update_swap)
  next
    case ba
    have mv: "set_head j ?a F = Inr F'"
      using ex2 unfolding if_not_P [OF ba(1)] if_not_P [OF ba(2)] if_P [OF ba(3)] .
    from ba have u: "Es ! i \<union> Es ! j = Es ! i" using evs_mono hd by blast
    have "full_inv F' U (Es[j := Es ! i])" using full_set_head [OF inv hd(1) mv] hd(2) by simp
    then show ?thesis unfolding u by simp
  next
    case mg
    have "rt_merge_heads dt i j ?a ?b F = Inr F'"
      using ex2 unfolding if_not_P [OF mg(1)] if_not_P [OF mg(2)] if_not_P [OF mg(3)] .
    then show ?thesis by (rule full_merge [OF inv i refl refl])
  qed
qed

text \<open>Every run is simulated by one that never collects and satisfies the invariant.\<close>

lemma delivery_full:
  "delivery_run dt honest D U Es \<Longrightarrow> \<exists>F K. gc_sim K F D \<and> full_inv F U Es"
proof (induction rule: delivery_run.induct)
  case (start rt)
  then show ?case using runtime_new_sim full_start by blast
next
  case (register rt U Es name rt')
  then obtain F K where sim: "gc_sim K F rt" and inv: "full_inv F U Es" by blast
  have hr: "dag_has (rt_dag rt) (c_id (rt_root rt))"
    using register.hyps(2) by (auto simp: rt_register_def split: if_splits)
  have "c_id (rt_root F) \<in> K"
    using hr sim restricted_has [of "rt_dag F" K "rt_dag rt"] by (auto simp: gc_sim_def)
  from register_sim [OF sim this, of name] register.hyps(2) obtain F'
    where "rt_register name F = Inr F'" "gc_sim K F' rt'"
    by (cases "rt_register name F") auto
  with full_register [OF inv] show ?case by blast
next
  case (commit rt U Es i x y rt' e)
  then obtain F K where sim: "gc_sim K F rt" and inv: "full_inv F U Es" by blast
  have i: "i < length (rt_replicas F)" using inv commit.hyps(2) by (simp add: full_inv_def)
  have hd: "r_head (rt_replicas rt ! i) = r_head (rt_replicas F ! i)"
    using rep_core_eqD [OF gc_sim_replicas(3) [OF sim i]] by simp
  have nx: "d_next (rt_dag rt) = d_next (rt_dag F)" using sim by (simp add: gc_sim_def restricted_to_def)
  obtain F' K' where "rt_commit dt i x F = Inr F'" "gc_sim K' F' rt'"
    using commit_sim [OF sim, of dt i x] commit.hyps(5) by (cases "rt_commit dt i x F") auto
  with full_commit [OF inv commit.hyps(2,3)] commit.hyps(4) hd nx commit.hyps(6) show ?case by auto
next
  case (sync rt U Es i j rt')
  then obtain F K where sim: "gc_sim K F rt" and inv: "full_inv F U Es" by blast
  obtain F' K' where "rt_sync dt i j F = Inr F'" "gc_sim K' F' rt'"
    using sync_sim [OF sim, of dt i j] sync.hyps(4) by (cases "rt_sync dt i j F") auto
  with full_sync [OF inv sync.hyps(2,3)] show ?case by blast
next
  case (collect rt U Es res rt')
  then obtain F K where sim: "gc_sim K F rt" and inv: "full_inv F U Es" by blast
  from collect_sim [OF sim] collect.hyps(2) obtain K' where "gc_sim K' F rt'" by auto
  with inv show ?case by blast
qed

text \<open>The state at a head represents the events delivered to the replica.\<close>

lemma head_represents:
  assumes "delivery_run dt honest rt U Es" and i: "i < length Es"
  shows "i < length (rt_replicas rt) \<and> rep (Es ! i) (c_state (r_head (rt_replicas rt ! i))) \<and>
    Es ! i \<subseteq> U \<and> good U"
proof -
  obtain F K where sim: "gc_sim K F rt" and inv: "full_inv F U Es"
    using delivery_full [OF assms(1)] by blast
  have iF: "i < length (rt_replicas F)" using inv i by (simp add: full_inv_def)
  have "r_head (rt_replicas rt ! i) = r_head (rt_replicas F ! i)"
    using rep_core_eqD [OF gc_sim_replicas(3) [OF sim iF]] by simp
  moreover have "map_of (d_commits (rt_dag F)) (c_id (r_head (rt_replicas F ! i))) = Some (r_head (rt_replicas F ! i))"
    "Es ! i = evs (rt_dag F) (c_id (r_head (rt_replicas F ! i)))" using inv i by (auto simp: full_inv_def)
  moreover from this have "Es ! i \<subseteq> U"
    using inv evs_subset [of "rt_dag F"] by (simp add: full_inv_def dag_has_def)
  moreover have "good U" using inv unfolding full_inv_def by blast
  moreover have "rep (evs (rt_dag F) (c_id (r_head (rt_replicas F ! i)))) (c_state (r_head (rt_replicas F ! i)))"
    using inv calculation(2) unfolding full_inv_def by blast
  ultimately show ?thesis using iF gc_sim_replicas(1) [OF sim] by simp
qed

text \<open>Strong convergence: equal deliveries, equal reads.\<close>

lemma converge:
  assumes "delivery_run dt honest rt U Es" and "i < length Es" "j < length Es" and "Es ! i = Es ! j"
  shows "rt_read dt i rt = rt_read dt j rt"
proof -
  note i = head_represents [OF assms(1,2)] and j = head_represents [OF assms(1,3)]
  have "dt_read dt (c_state (r_head (rt_replicas rt ! i))) = dt_read dt (c_state (r_head (rt_replicas rt ! j)))"
    by (rule rep_read [of "Es ! i"]) (use i j assms(4) in auto)
  then show ?thesis using i j by (simp add: rt_read_def get_replica_def)
qed

text \<open>An honest commit does not fail, and a synchronisation fails only at the criss-cross gate.\<close>

lemma commit_succeeds:
  assumes run: "delivery_run dt honest rt U Es" and i: "i < length Es" and h: "honest U (Es ! i) x"
  shows "\<exists>y rt'. dt_prepared dt (c_state (r_head (rt_replicas rt ! i))) x = Inr y \<and> rt_commit dt i x rt = Inr rt'"
proof -
  obtain F K where sim: "gc_sim K F rt" and inv: "full_inv F U Es"
    using delivery_full [OF run] by blast
  let ?r = "rt_replicas F ! i"
  have iF: "i < length (rt_replicas F)" and wf: "dag_wf (rt_dag F)" and U: "U = all_evs (rt_dag F)" "good U"
    and hd: "map_of (d_commits (rt_dag F)) (c_id (r_head ?r)) = Some (r_head ?r)"
      "Es ! i = evs (rt_dag F) (c_id (r_head ?r))"
    using inv i by (auto simp: full_inv_def)
  have hh: "dag_has (rt_dag F) (c_id (r_head ?r))" using hd by (simp add: dag_has_def)
  have fresh: "d_next (rt_dag F) \<notin> fst ` U"
    using all_evs_fst [of "d_next (rt_dag F)" "rt_dag F"] dag_wf_get [OF wf, of "d_next (rt_dag F)"]
    unfolding U by (force simp: dag_has_def)
  have "rep (Es ! i) (c_state (r_head ?r))" "Es ! i \<subseteq> U"
    using inv hd evs_subset [OF hh] by (auto simp: full_inv_def)
  from rep_apply [OF U(2) this(2,1) h fresh] obtain y s' where
    y: "dt_prepared dt (c_state (r_head ?r)) x = Inr y" "dt_apply dt (c_state (r_head ?r)) y = Inr s'" by blast
  have ep: "epoch_of F (c_id (r_head ?r)) = Inr 0" using inv hh by (simp add: epoch_of_def full_inv_def)
  obtain c d where add: "dag_add (rt_dag F) [c_id (r_head ?r)]
      (Some \<lparr>op_replica = r_name ?r, op_seq = r_seq ?r, op_payload = Single y\<rparr>) s' = Inr (c, d)"
    using dag_add_ok [of "[c_id (r_head ?r)]" "rt_dag F"] hh by fastforce
  have "dag_has d (c_id c)" using dag_add_Inr [OF add] by (simp add: dag_has_def)
  then obtain F' where "rt_commit dt i x F = Inr F'"
    using set_head_Inr [of i "F\<lparr>rt_dag := d, rt_replicas := (rt_replicas F)[i := ?r\<lparr>r_seq := r_seq ?r + 1\<rparr>],
         rt_epochOf := AList.update (c_id c) 0 (rt_epochOf F)\<rparr>" c] iF
    by (auto simp: rt_commit_def get_replica_def y ep add)
  then obtain rt' where "rt_commit dt i x rt = Inr rt'"
    using commit_sim [OF sim, of dt i x] by (cases "rt_commit dt i x rt") auto
  moreover have "r_head (rt_replicas rt ! i) = r_head ?r"
    using rep_core_eqD [OF gc_sim_replicas(3) [OF sim iF]] by simp
  ultimately show ?thesis using y by auto
qed

text \<open>A run with one honest commit at the first of two replicas, then synchronised.\<close>

lemma demo_run:
  assumes h: "honest {} {} x"
  shows "\<exists>rt y. delivery_run dt honest rt {(1, y)} [{(1, y)}, {(1, y)}] \<and>
    dt_prepared dt (dt_init dt) x = Inr y"
proof -
  let ?root = "\<lparr>c_id = 0, c_parents = [], c_op = None, c_state = dt_init dt\<rparr>"
  let ?d0 = "\<lparr>d_commits = [(0, ?root)], d_next = 1\<rparr> :: ('o payload, 's) dag"
  let ?rep = "\<lambda>n. \<lparr>r_name = n, r_head = ?root, r_seq = 0, r_frontier = []\<rparr> :: ('o, 's) replica"
  define rt0 :: "('o, 's, 'x) runtime" where
    "rt0 = \<lparr>rt_dag = ?d0, rt_root = ?root, rt_replicas = [], rt_epochs = [None], rt_epochOf = [(0, 0)]\<rparr>"
  have r0: "delivery_run dt honest rt0 {} []"
    by (rule delivery_run.start) (simp add: rt0_def runtime_new_def dag_add_def dag_empty_def Let_def)
  have fr: "frontierOf ?d0 0 = Inr []"
    by (simp add: frontierOf_def dag_ancestorSet_def dag_get_def dag_ids_def dag_parents_of_def
        worklist.simps(2) fr_step_def)
  let ?rt1 = "rt0\<lparr>rt_replicas := [?rep ''a'']\<rparr>" and ?rt2 = "rt0\<lparr>rt_replicas := [?rep ''a'', ?rep ''b'']\<rparr>"
  have "rt_register ''a'' rt0 = Inr ?rt1" "rt_register ''b'' ?rt1 = Inr ?rt2"
    using fr by (simp_all add: rt_register_def rt0_def dag_has_def)
  with r0 have r2: "delivery_run dt honest ?rt2 {} [{}, {}]"
    by (metis append_Cons append_Nil delivery_run.register)
  have "honest {} ([{}, {}] ! 0) x" using h by simp
  from commit_succeeds [OF r2 _ this] obtain y rt3 where
    y: "dt_prepared dt (dt_init dt) x = Inr y" and c: "rt_commit dt 0 x ?rt2 = Inr rt3" by auto
  have r3: "delivery_run dt honest rt3 {(1, y)} [{(1, y)}, {}]"
    using delivery_run.commit [OF r2 _ _ _ c, of y] h y by (simp add: rt0_def)
  obtain F K where sim: "gc_sim K F rt3" and inv: "full_inv F {(1, y)} [{(1, y)}, {}]"
    using delivery_full [OF r3] by blast
  obtain s' fr1 where rt3: "rt3 = \<lparr>rt_dag = \<lparr>d_commits = [(0, ?root), (1, \<lparr>c_id = 1, c_parents = [0],
        c_op = Some \<lparr>op_replica = ''a'', op_seq = 0, op_payload = Single y\<rparr>, c_state = s'\<rparr>)], d_next = 2\<rparr>,
      rt_root = ?root, rt_replicas = [\<lparr>r_name = ''a'', r_head = \<lparr>c_id = 1, c_parents = [0],
        c_op = Some \<lparr>op_replica = ''a'', op_seq = 0, op_payload = Single y\<rparr>, c_state = s'\<rparr>,
        r_seq = 1, r_frontier = fr1\<rparr>, ?rep ''b''], rt_epochs = [None], rt_epochOf = [(0, 0), (1, 0)]\<rparr>"
    using c by (auto simp: rt_commit_def get_replica_def rt0_def y rbind_eq_Inr epoch_of_def
        dag_add_def dag_has_def set_head_def Let_def numeral_2_eq_2)
  have "\<exists>rt4. rt_sync dt 0 1 rt3 = Inr rt4"
    unfolding rt3
    by (simp add: rt_sync_def get_replica_def Let_def dag_isAncestor_def dag_get_def dag_ids_def
        dag_parents_of_def ia_loop.simps set_head_def frontierOf_def dag_ancestorSet_def worklist.simps(2)
        fr_step_def fr_set_def)
  then obtain rt4 where "rt_sync dt 0 1 rt3 = Inr rt4" ..
  from delivery_run.sync [OF r3 _ _ this] have "delivery_run dt honest rt4 {(1, y)} [{(1, y)}, {(1, y)}]"
    by simp
  with y show ?thesis by blast
qed

end

end
