(* ===== verification/LiveMap.thy ===== *)
theory LiveMap
  imports PersistentMap
begin

text \<open>
  Instances that are born once and die once, kept in a finite map: the state of the
  observed-remove set, of the sequences and of their snapshots. A state represents what was born
  and has not died, and the delta form of the ternary merge keeps this.
\<close>

definition live_rep :: "('k \<Rightarrow> 'v \<Rightarrow> bool) \<Rightarrow> ('k \<Rightarrow> bool) \<Rightarrow> ('k, 'v) fmap \<Rightarrow> bool" where
  "live_rep born dead s \<longleftrightarrow> (\<forall>k v. fmlookup s k = Some v \<longleftrightarrow> born k v \<and> \<not> dead k) \<and>
     (\<forall>k. dead k \<longrightarrow> (\<exists>v. born k v))"

lemma live_repI:
  assumes "\<And>k v. fmlookup s k = Some v \<longleftrightarrow> born k v \<and> \<not> dead k" and "\<And>k. dead k \<Longrightarrow> \<exists>v. born k v"
  shows "live_rep born dead s"
  using assms unfolding live_rep_def by blast

lemma live_rep_lookup:
  assumes "live_rep born dead s"
  shows "fmlookup s k = Some v \<longleftrightarrow> born k v \<and> \<not> dead k"
    and "fmlookup s k = None \<longleftrightarrow> dead k \<or> (\<forall>v. \<not> born k v)"
    and "dead k \<Longrightarrow> \<exists>v. born k v"
  using assms unfolding live_rep_def by (blast, metis not_Some_eq, blast)

lemma live_rep_unique: "live_rep born dead s \<Longrightarrow> live_rep born dead s' \<Longrightarrow> s = s'"
  by (rule fmap_ext) (metis live_rep_lookup(1) not_Some_eq)

text \<open>The contents of a ternary merge.\<close>

definition merged_lookup ::
  "('k, 'v) fmap \<Rightarrow> ('k, 'v) fmap \<Rightarrow> ('k, 'v) fmap \<Rightarrow> 'k \<Rightarrow> 'v option"
where
  "merged_lookup l a b k = (case fmlookup a k of
        Some v \<Rightarrow> if fmlookup l k \<noteq> None \<and> fmlookup b k = None then None else Some v
      | None \<Rightarrow> if fmlookup l k = None then fmlookup b k else None)"

lemma distinct_fm_keys [simp]: "distinct (fm_keys m)"
  using fm_keys_sorted [of m] by (simp add: strict_sorted_iff)

lemma fm_entries_iff: "(k, v) \<in> set (fm_entries m) \<longleftrightarrow> fmlookup m k = Some v"
proof -
  have "distinct (map fst (fm_entries m))" by simp
  from map_of_eq_Some_iff [OF this, of k v] show ?thesis unfolding map_of_fm_entries by (rule sym)
qed

lemma fm_keys_empty [simp]: "fm_keys fmempty = []"
  using set_fm_keys [of fmempty] by simp

lemma delta_merge_lookup:
  "fmlookup (fm.delta_merge l a b (fm_keys l) (fm_entries b)) k = merged_lookup l a b k"
  unfolding merged_lookup_def
  by (subst fm.delta_merge_spec(2)) (simp_all add: set_fm_keys)

lemma live_rep_merge:
  assumes a: "live_rep bornA deadA a" and b: "live_rep bornB deadB b" and l: "live_rep bornL deadL l"
    and common: "\<And>k v w. bornA k v \<Longrightarrow> bornB k w \<Longrightarrow> w = v \<and> bornL k v"
    and sub: "\<And>k v. bornL k v \<Longrightarrow> bornA k v \<and> bornB k v" "\<And>k. deadL k \<Longrightarrow> deadA k \<and> deadB k"
    and m: "\<And>k. fmlookup m k = merged_lookup l a b k"
  shows "live_rep (\<lambda>k v. bornA k v \<or> bornB k v) (\<lambda>k. deadA k \<or> deadB k) m"
proof (rule live_repI)
  fix k v
  note la = live_rep_lookup [OF a] and lb = live_rep_lookup [OF b] and ll = live_rep_lookup [OF l]
  show "fmlookup m k = Some v \<longleftrightarrow> (bornA k v \<or> bornB k v) \<and> \<not> (deadA k \<or> deadB k)"
  proof (cases "deadA k \<or> deadB k")
    case True
    have "merged_lookup l a b k = None"
    proof (cases "deadA k")
      case r: True
      then have "fmlookup a k = None" using la(2) by blast
      moreover have "fmlookup l k \<noteq> None" if "fmlookup b k \<noteq> None"
        using that lb(1,2) la(3) [OF r] common ll(2) sub by metis
      ultimately show ?thesis by (cases "fmlookup b k") (auto simp: merged_lookup_def)
    next
      case False
      with True have r: "deadB k" by blast
      then have "fmlookup b k = None" using lb(2) by blast
      moreover have "fmlookup l k \<noteq> None" if "fmlookup a k \<noteq> None"
        using that la(1,2) lb(3) [OF r] common ll(2) sub by metis
      ultimately show ?thesis by (auto simp: merged_lookup_def split: option.split)
    qed
    with True m show ?thesis by simp
  next
    case False
    then have xa: "fmlookup a k = Some w \<longleftrightarrow> bornA k w" and xb: "fmlookup b k = Some w \<longleftrightarrow> bornB k w" for w
      using la(1) lb(1) by auto
    have xl: "fmlookup l k = Some w \<longleftrightarrow> bornL k w" for w using ll(1) sub(2) False by blast
    show ?thesis
    proof (cases "fmlookup a k")
      case (Some w)
      then have w: "bornA k w" using xa by simp
      have "fmlookup l k = None \<or> fmlookup b k \<noteq> None" using xl xb sub(1) by (metis not_Some_eq)
      then have "fmlookup m k = Some w" using Some m by (auto simp: merged_lookup_def)
      moreover have "bornA k v \<or> bornB k v \<longleftrightarrow> w = v" using w common xa Some by (metis option.inject)
      ultimately show ?thesis using False by auto
    next
      case None
      then have na: "\<not> bornA k w" for w using xa [of w] by simp
      then have "fmlookup l k = None" using xl sub(1) by (metis not_Some_eq)
      then show ?thesis using None na xb False m by (auto simp: merged_lookup_def)
    qed
  qed
next
  fix k
  assume "deadA k \<or> deadB k"
  then show "\<exists>v. bornA k v \<or> bornB k v" using live_rep_lookup(3) [OF a] live_rep_lookup(3) [OF b] by blast
qed

end
