(* ===== verification/Orset.thy ===== *)
theory Orset
  imports Mrdt LiveMap
begin

text \<open>
  The observed-remove set of \<^verbatim>\<open>runtime/src/datatypes/orset.js\<close>. A state is a finite map from
  instance tags to elements; iteration is in ascending key order, as the public iteration of the
  persistent map is, and the merge is shown not to depend on it. The interpretation of the
  datatype contract proves that a state is the set of instances added and not removed by the
  delivered operations.
\<close>

section \<open>Operations\<close>

datatype ('t, 'e) orset_op = OAdd 't 'e | ORm "'t list"

type_synonym ('t, 'e) orset = "('t, 'e) fmap"

definition addTag :: "('t, 'e) orset \<Rightarrow> 't \<Rightarrow> 'e \<Rightarrow> 'e res" where
  "addTag state tag el =
     (if fmlookup state tag \<noteq> None then Inl (Error ''duplicate instance tag'') else Inr el)"

definition orset_init :: "('t, 'e) orset" where
  "orset_init = fmempty"

definition orset_rm :: "('t, 'e) orset \<Rightarrow> 't list \<Rightarrow> ('t, 'e) orset" where
  "orset_rm state tags = foldl (\<lambda>s t. fmdrop t s) state tags"

fun orset_apply :: "('t, 'e) orset \<Rightarrow> ('t, 'e) orset_op \<Rightarrow> ('t, 'e) orset res" where
  "orset_apply state (OAdd tag el) = rbind (addTag state tag el) (\<lambda>e. Inr (fmupd tag e state))"
| "orset_apply state (ORm tags) = Inr (orset_rm state tags)"

fun orset_batch_step :: "('t, 'e) orset_op \<Rightarrow> ('t, 'e) orset \<Rightarrow> ('t, 'e) orset res" where
  "orset_batch_step (OAdd tag el) t = rbind (addTag t tag el) (\<lambda>e. Inr (fmupd tag e t))"
| "orset_batch_step (ORm tags) t = Inr (foldl (\<lambda>t tag. fmdrop tag t) t tags)"

definition orset_applyBatch ::
  "('t, 'e) orset \<Rightarrow> ('t, 'e) orset_op list \<Rightarrow> ('t, 'e) orset res"
where
  "orset_applyBatch state ops = foldM orset_batch_step ops state"

definition orset_read :: "('t::linorder, 'e::linorder) orset \<Rightarrow> 'e list" where
  "orset_read state = sort (remdups (map snd (fm_entries state)))"

definition orset_observe :: "('t::linorder, 'e) orset \<Rightarrow> 'e \<Rightarrow> 't list" where
  "orset_observe state el = map fst (filter (\<lambda>(t, e). e = el) (fm_entries state))"

definition orset_merge3 ::
  "('t::linorder, 'e) orset \<Rightarrow> ('t, 'e) orset \<Rightarrow> ('t, 'e) orset \<Rightarrow> ('t, 'e) orset"
where
  "orset_merge3 l a b =
     (let s1 = foldl (\<lambda>s t. if fmlookup b t = None then fmdrop t s else s) a (fm_keys l)
      in foldl (\<lambda>s (t, e). if fmlookup a t = None \<and> fmlookup l t = None then fmupd t e s else s)
           s1 (fm_entries b))"

definition orset_dt :: "(('t::linorder, 'e::linorder) orset_op, ('t, 'e) orset, unit, 'e list) dtype" where
  "orset_dt = \<lparr>dt_init = orset_init, dt_prepare = None, dt_apply = orset_apply,
     dt_merge3 = (\<lambda>l a b. Inr (orset_merge3 l a b)), dt_read = orset_read,
     dt_compact = None, dt_remapState = None, dt_ins_id = (\<lambda>_. None)\<rparr>"

section \<open>Batches and merges\<close>

lemma orset_batch_step_apply: "orset_batch_step x t = orset_apply t x"
  by (cases x) (simp_all add: orset_rm_def)

lemma orset_rm_lookup: "fmlookup (orset_rm s ts) t = (if t \<in> set ts then None else fmlookup s t)"
  unfolding orset_rm_def by (induction ts arbitrary: s) auto

lemma orset_merge3_delta: "orset_merge3 l a b = fm.delta_merge l a b (fm_keys l) (fm_entries b)"
proof -
  have "(\<lambda>s t. if fmlookup b t = None then fmdrop t s else s) = fm.drop_step b"
    by (simp add: fun_eq_iff fm.drop_step_def)
  moreover have "(\<lambda>s (t, e). if fmlookup a t = None \<and> fmlookup l t = None then fmupd t e s else s)
      = fm.add_step l a" by (auto simp: fun_eq_iff fm.add_step_def)
  ultimately show ?thesis by (simp add: orset_merge3_def fm.delta_merge_def)
qed

lemma orset_merge3_lookup: "fmlookup (orset_merge3 l a b) t = merged_lookup l a b t"
  by (simp add: orset_merge3_delta delta_merge_lookup)

section \<open>The contract\<close>

definition added :: "('t, 'e) orset_op event set \<Rightarrow> 't \<Rightarrow> 'e \<Rightarrow> bool" where
  "added E t el \<longleftrightarrow> (\<exists>k. (k, OAdd t el) \<in> E)"

definition removed :: "('t, 'e) orset_op event set \<Rightarrow> 't \<Rightarrow> bool" where
  "removed E t \<longleftrightarrow> (\<exists>k ts. (k, ORm ts) \<in> E \<and> t \<in> set ts)"

text \<open>The instances alive after the events \<open>E\<close>; only observed instances are removed.\<close>

definition orset_rep :: "('t, 'e) orset_op event set \<Rightarrow> ('t, 'e) orset \<Rightarrow> bool" where
  "orset_rep E s \<longleftrightarrow> live_rep (added E) (removed E) s"

definition orset_good :: "('t, 'e) orset_op event set \<Rightarrow> bool" where
  "orset_good U \<longleftrightarrow> (\<forall>k k' t e e'. (k, OAdd t e) \<in> U \<longrightarrow> (k', OAdd t e') \<in> U \<longrightarrow> k = k' \<and> e = e')"

text \<open>An honest add mints a tag no event has used; an honest remove names observed tags.\<close>

fun orset_honest ::
  "('t, 'e) orset_op event set \<Rightarrow> ('t, 'e) orset_op event set \<Rightarrow> ('t, 'e) orset_op \<Rightarrow> bool"
where
  "orset_honest U E (OAdd t el) \<longleftrightarrow> (\<forall>e. \<not> added U t e)"
| "orset_honest U E (ORm ts) \<longleftrightarrow> (\<forall>t \<in> set ts. \<exists>e. added E t e)"

lemma added_insert [simp]:
  "added (insert (k, OAdd t' e') E) t e \<longleftrightarrow> (t = t' \<and> e = e') \<or> added E t e"
  "added (insert (k, ORm ts) E) t e \<longleftrightarrow> added E t e"
  by (auto simp: added_def)

lemma removed_insert [simp]:
  "removed (insert (k, OAdd t' e') E) t \<longleftrightarrow> removed E t"
  "removed (insert (k, ORm ts) E) t \<longleftrightarrow> t \<in> set ts \<or> removed E t"
  by (auto simp: removed_def)

lemma added_Un [simp]: "added (A \<union> B) t e \<longleftrightarrow> added A t e \<or> added B t e"
  by (auto simp: added_def)

lemma removed_Un [simp]: "removed (A \<union> B) t \<longleftrightarrow> removed A t \<or> removed B t"
  by (auto simp: removed_def)

lemma added_mono: "added A t e \<Longrightarrow> A \<subseteq> B \<Longrightarrow> added B t e"
  by (auto simp: added_def)

lemma removed_mono: "removed A t \<Longrightarrow> A \<subseteq> B \<Longrightarrow> removed B t"
  by (auto simp: removed_def)

lemma added_common:
  assumes "orset_good U" "A \<subseteq> U" "B \<subseteq> U" and "added A t e" "added B t e'"
  shows "added (A \<inter> B) t e \<and> e' = e"
proof -
  obtain k k' where k: "(k, OAdd t e) \<in> A" "(k', OAdd t e') \<in> B" using assms(4,5) by (auto simp: added_def)
  with assms(1-3) have "k = k' \<and> e = e'" unfolding orset_good_def by blast
  with k show ?thesis by (auto simp: added_def)
qed

lemmas rep_lookup = live_rep_lookup [where born = "added E" and dead = "removed E" for E, folded orset_rep_def]

lemma orset_rep_merge:
  assumes good: "orset_good U" "A \<subseteq> U" "B \<subseteq> U"
    and reps: "orset_rep A a" "orset_rep B b" "orset_rep (A \<inter> B) l"
  shows "orset_rep (A \<union> B) (orset_merge3 l a b)"
proof -
  have "live_rep (\<lambda>t e. added A t e \<or> added B t e) (\<lambda>t. removed A t \<or> removed B t) (orset_merge3 l a b)"
    using reps unfolding orset_rep_def
    by (rule live_rep_merge) (use added_common [OF good] in
      \<open>blast, auto simp: added_def removed_def orset_merge3_lookup\<close>)
  then show ?thesis by (simp add: orset_rep_def live_rep_def)
qed

lemma orset_rep_read: "orset_rep E s \<Longrightarrow> orset_rep E s' \<Longrightarrow> s = s'"
  unfolding orset_rep_def by (rule live_rep_unique)

interpretation orset: mrdt orset_dt orset_rep orset_honest orset_good
proof unfold_locales
  show "orset_good {}" by (simp add: orset_good_def)
  show "orset_rep {} (dt_init orset_dt)"
    by (simp add: orset_rep_def live_rep_def orset_dt_def orset_init_def added_def removed_def)
next
  fix U E :: "('a, 'b) orset_op event set" and s x k
  assume h: "orset_good U" "E \<subseteq> U" "orset_rep E s" "orset_honest U E x" "k \<notin> fst ` U"
  show "\<exists>y s'. dt_prepared orset_dt s x = Inr y \<and> dt_apply orset_dt s y = Inr s' \<and>
      orset_rep (insert (k, y) E) s' \<and> orset_good (insert (k, y) U)"
  proof (cases x)
    case (OAdd t el)
    have na: "\<not> added E t e" for e
    proof
      assume "added E t e"
      from added_mono [OF this h(2)] h(4) OAdd show False by simp
    qed
    then have "fmlookup s t = None" using rep_lookup(2) [OF h(3)] by blast
    moreover have "orset_rep (insert (k, x) E) (fmupd t el s)"
      unfolding orset_rep_def live_rep_def OAdd
    proof (intro conjI allI impI)
      fix t' e
      have "\<not> removed E t" using na rep_lookup(3) [OF h(3)] by blast
      then show "fmlookup (fmupd t el s) t' = Some e \<longleftrightarrow>
          added (insert (k, OAdd t el) E) t' e \<and> \<not> removed (insert (k, OAdd t el) E) t'"
        using na rep_lookup(1) [OF h(3), of t' e] by (cases "t' = t") auto
    next
      fix t'
      assume "removed (insert (k, OAdd t el) E) t'"
      then show "\<exists>e. added (insert (k, OAdd t el) E) t' e" using rep_lookup(3) [OF h(3), of t'] by auto
    qed
    moreover have "orset_good (insert (k, x) U)"
      using h(1,4) OAdd by (auto simp: orset_good_def added_def)
    ultimately show ?thesis
      using OAdd by (simp add: dt_prepared_def orset_dt_def addTag_def)
  next
    case (ORm ts)
    have "orset_rep (insert (k, x) E) (orset_rm s ts)"
      unfolding orset_rep_def live_rep_def ORm
    proof (intro conjI allI impI)
      fix t e
      show "fmlookup (orset_rm s ts) t = Some e \<longleftrightarrow>
          added (insert (k, ORm ts) E) t e \<and> \<not> removed (insert (k, ORm ts) E) t"
        using rep_lookup(1) [OF h(3), of t e] by (auto simp: orset_rm_lookup)
    next
      fix t
      assume "removed (insert (k, ORm ts) E) t"
      then show "\<exists>e. added (insert (k, ORm ts) E) t e"
        using rep_lookup(3) [OF h(3), of t] h(4) ORm by auto
    qed
    moreover have "orset_good (insert (k, x) U)" using h(1) ORm by (auto simp: orset_good_def)
    ultimately show ?thesis using ORm by (simp add: dt_prepared_def orset_dt_def)
  qed
next
  fix U A B :: "('a, 'b) orset_op event set" and a b l
  assume "orset_good U" "A \<subseteq> U" "B \<subseteq> U" "orset_rep A a" "orset_rep B b" "orset_rep (A \<inter> B) l"
  then show "\<exists>m. dt_merge3 orset_dt l a b = Inr m \<and> orset_rep (A \<union> B) m"
    using orset_rep_merge by (auto simp: orset_dt_def)
next
  fix E :: "('a, 'b) orset_op event set" and s s'
  assume "orset_rep E s" "orset_rep E s'"
  then show "dt_read orset_dt s = dt_read orset_dt s'" using orset_rep_read by metis
qed

section \<open>Properties\<close>

lemma orset_read_set: "set (orset_read s) = ran (fmlookup s)"
proof -
  have "snd ` set (fm_entries s) = ran (map_of (fm_entries s))"
    by (rule ran_distinct [symmetric]) (simp add: distinct_fm_keys)
  then show ?thesis by (simp add: orset_read_def)
qed

text \<open>C12: the collector is transparent. After an opening without collections, interleave commits
  and synchronisations with collections at any points: the run fails exactly when the same run
  without collections fails, and otherwise every replica has the same head commit, sequence number
  and read.\<close>

theorem gc_transparent:
  assumes "runtime_new dt = Inr rt0" and "SGc \<notin> set opening" and "\<forall>s \<in> set steps. \<not> is_register s"
  shows "case rt_run dt (opening @ filter (\<lambda>s. s \<noteq> SGc) steps) rt0 of
     Inl e \<Rightarrow> \<exists>e'. rt_run dt (opening @ steps) rt0 = Inl e'
   | Inr F \<Rightarrow> \<exists>D. rt_run dt (opening @ steps) rt0 = Inr D \<and>
       map (\<lambda>r. (r_name r, r_head r, r_seq r)) (rt_replicas D) =
         map (\<lambda>r. (r_name r, r_head r, r_seq r)) (rt_replicas F) \<and>
       (\<forall>i. rt_read dt i D = rt_read dt i F)"
proof (cases "rt_run dt opening rt0")
  case (Inl e)
  then show ?thesis by (simp add: rt_run_def foldM_append)
next
  case (Inr rt1)
  have self: "gc_sim UNIV rt1 rt1"
    by (rule run_self [OF runtime_new_sim [OF assms(1)] assms(2) Inr])
  have sp: "rt_run dt (opening @ xs) rt0 = rt_run dt xs rt1" for xs
    using Inr by (simp add: rt_run_def foldM_append)
  show ?thesis
    unfolding sp using run_sim [OF self, of steps dt] assms(3) gc_sim_views
    by (cases "rt_run dt (filter (\<lambda>s. s \<noteq> SGc) steps) rt1"; cases "rt_run dt steps rt1") fastforce+
qed

theorem gc_transparent_witness:
  "\<exists>rt0. runtime_new (orset_dt :: ((nat, nat) orset_op, (nat, nat) orset, unit, nat list) dtype) = Inr rt0 \<and>
   (case rt_run (orset_dt :: ((nat, nat) orset_op, (nat, nat) orset, unit, nat list) dtype)
       ([SRegister ''a'', SRegister ''b''] @ filter (\<lambda>s. s \<noteq> SGc) [SCommit 0 (OAdd 1 7), SGc, SSync 0 1, SGc]) rt0 of
     Inl e \<Rightarrow> \<exists>e'. rt_run orset_dt
       ([SRegister ''a'', SRegister ''b''] @ [SCommit 0 (OAdd 1 7), SGc, SSync 0 1, SGc]) rt0 = Inl e'
   | Inr F \<Rightarrow> \<exists>D. rt_run orset_dt
       ([SRegister ''a'', SRegister ''b''] @ [SCommit 0 (OAdd 1 7), SGc, SSync 0 1, SGc]) rt0 = Inr D \<and>
       map (\<lambda>r. (r_name r, r_head r, r_seq r)) (rt_replicas D) =
         map (\<lambda>r. (r_name r, r_head r, r_seq r)) (rt_replicas F) \<and>
       (\<forall>i. rt_read orset_dt i D = rt_read orset_dt i F))"
proof -
  obtain rt0 where rt0: "runtime_new (orset_dt :: ((nat, nat) orset_op, (nat, nat) orset, unit, nat list) dtype) = Inr rt0"
    by (simp add: runtime_new_def dag_add_def dag_empty_def Let_def)
  show ?thesis by (rule exI [of _ rt0], rule conjI [OF rt0], rule gc_transparent [OF rt0]) simp_all
qed

text \<open>C13: the observed-remove set over the runtime. In every run of registrations, honest commits,
  synchronisations and collections, a replica reads, sorted and without repetition, exactly the
  elements with an instance that some delivered operation added and no delivered operation removed:
  a concurrent add survives a remove that did not observe it.\<close>

theorem orset_reads_live_instances:
  assumes "delivery_run orset_dt orset_honest rt U Es" and "i < length Es"
  shows "\<exists>xs. rt_read orset_dt i rt = Inr xs \<and> sorted_wrt (<) xs \<and>
    set xs = {el. \<exists>t. added (Es ! i) t el \<and> \<not> removed (Es ! i) t}"
proof -
  let ?s = "c_state (r_head (rt_replicas rt ! i))"
  have r: "i < length (rt_replicas rt)" "orset_rep (Es ! i) ?s"
    using orset.head_represents [OF assms] by auto
  have "set (orset_read ?s) = {el. \<exists>t. added (Es ! i) t el \<and> \<not> removed (Es ! i) t}"
    unfolding orset_read_set ran_def using rep_lookup(1) [OF r(2)] by auto
  moreover have "sorted_wrt (<) (orset_read ?s)" by (simp add: orset_read_def strict_sorted_iff)
  ultimately show ?thesis using r(1) by (auto simp: rt_read_def get_replica_def orset_dt_def)
qed

theorem orset_reads_live_instances_witness:
  "\<exists>rt U Es. delivery_run orset_dt orset_honest (rt :: ((nat, nat) orset_op, (nat, nat) orset, unit) runtime) U Es \<and>
    1 < length Es \<and> added (Es ! 1) 1 7 \<and>
    (\<exists>xs. rt_read orset_dt 1 rt = Inr xs \<and> sorted_wrt (<) xs \<and>
      set xs = {el. \<exists>t. added (Es ! 1) t el \<and> \<not> removed (Es ! 1) t})"
proof -
  have "orset_honest {} {} (OAdd (1::nat) (7::nat))" by (simp add: added_def)
  from orset.demo_run [OF this] obtain rt where
    run: "delivery_run orset_dt orset_honest (rt :: ((nat, nat) orset_op, (nat, nat) orset, unit) runtime)
      {(1, OAdd 1 7)} [{(1, OAdd 1 7)}, {(1, OAdd 1 7)}]"
    by (auto simp: dt_prepared_def orset_dt_def)
  have "added ([{(1, OAdd 1 7)}, {(1, OAdd (1::nat) (7::nat))}] ! 1) 1 7" by (simp add: added_def)
  then show ?thesis using orset_reads_live_instances [OF run, of 1] run by fastforce
qed

text \<open>Strong convergence of the observed-remove set. Two replicas that have been delivered the
  same operations read the same, whatever the order of synchronisations and collections.\<close>

theorem orset_converges:
  assumes "delivery_run orset_dt orset_honest rt U Es" and "i < length Es" "j < length Es"
    and "Es ! i = Es ! j"
  shows "rt_read orset_dt i rt = rt_read orset_dt j rt"
  using assms by (rule orset.converge)

theorem orset_converges_witness:
  "\<exists>rt U Es. delivery_run orset_dt orset_honest (rt :: ((nat, nat) orset_op, (nat, nat) orset, unit) runtime) U Es \<and>
    length Es = 2 \<and> Es ! 0 = Es ! 1 \<and> rt_read orset_dt 0 rt = rt_read orset_dt 1 rt"
proof -
  have "orset_honest {} {} (OAdd (1::nat) (7::nat))" by (simp add: added_def)
  from orset.demo_run [OF this] obtain rt y where
    run: "delivery_run orset_dt orset_honest (rt :: ((nat, nat) orset_op, (nat, nat) orset, unit) runtime)
      {(1, y)} [{(1, y)}, {(1, y)}]" by blast
  have "rt_read orset_dt 0 rt = rt_read orset_dt 1 rt" by (rule orset_converges [OF run]) simp_all
  then show ?thesis using run by fastforce
qed

end
