(* ===== verification/DeltaCode.thy ===== *)
theory DeltaCode
  imports Prelude "HOL-Library.List_Lexorder" "HOL-Library.Sublist"
begin

text \<open>
  The delta codes of \<^verbatim>\<open>runtime/src/datatypes/embedRGA.js\<close> and the display order of chain
  coordinates. A codeword is a list of the digits 0 and 1 and the sentinel is the digit 2;
  JavaScript's string order on them is the lexicographic order. The interface a code owes the
  datatype, monotone and prefix-free, is the locale \<open>delta_code\<close>; inside it the order of
  coordinates is shown to be an order on the chains of deltas, whatever the code. Both codes of
  the source are interpretations.
\<close>

section \<open>The codes\<close>

text \<open>\<^verbatim>\<open>d.toString(2)\<close>\<close>

fun bin :: "nat \<Rightarrow> nat list" where
  "bin d = (if d < 2 then [d] else bin (d div 2) @ [d mod 2])"

declare bin.simps [simp del]

definition unaryEnc :: "nat \<Rightarrow> nat list" where
  "unaryEnc d = replicate d 1 @ [0]"

definition binEnc :: "nat \<Rightarrow> nat list" where
  "binEnc d = (let b = bin d in replicate (length b - 1) 1 @ 0 # drop 1 b)"

definition dEnc :: "nat \<Rightarrow> nat list" where
  "dEnc d = (let b = bin d in binEnc (length b) @ drop 1 b)"

text \<open>The display key: the coordinate with the sentinel above both digits.\<close>

definition dkey :: "nat list \<Rightarrow> nat list" where
  "dkey coord = coord @ [2]"

section \<open>The interface\<close>

locale delta_code =
  fixes enc :: "nat \<Rightarrow> nat list"
  assumes digits: "1 \<le> d \<Longrightarrow> set (enc d) \<subseteq> {0, 1}"
    and mono: "1 \<le> d \<Longrightarrow> d < e \<Longrightarrow> enc d < enc e"
    and prefix_free: "1 \<le> d \<Longrightarrow> 1 \<le> e \<Longrightarrow> prefix (enc d) (enc e) \<Longrightarrow> d = e"

text \<open>
  The order of chains of deltas: an ancestor (a prefix) comes before its descendants, and at the
  first difference the larger delta comes first.
\<close>

fun chain_before :: "'a::linorder list \<Rightarrow> 'a list \<Rightarrow> bool" where
  "chain_before [] [] = False"
| "chain_before [] (e # es) = True"
| "chain_before (d # ds) [] = False"
| "chain_before (d # ds) (e # es) = (if d = e then chain_before ds es else e < d)"

lemma chain_before_total: "chain_before ds es \<or> chain_before es ds \<or> ds = es"
  by (induction ds es rule: chain_before.induct) auto

definition positive :: "nat list \<Rightarrow> bool" where
  "positive ds \<longleftrightarrow> (\<forall>d \<in> set ds. 1 \<le> d)"

lemma positive_simps [simp]:
  "positive []" "positive (d # ds) \<longleftrightarrow> 1 \<le> d \<and> positive ds"
  "positive (ds @ es) \<longleftrightarrow> positive ds \<and> positive es"
  by (auto simp: positive_def)

lemma list_less_Cons: "(x # xs :: nat list) < y # ys \<longleftrightarrow> x < y \<or> (x = y \<and> xs < ys)"
  by (simp add: Cons_less_Cons)

text \<open>Two words that are not prefixes of each other are decided at a real difference.\<close>

lemma less_append:
  "xs < ys \<Longrightarrow> \<not> prefix xs ys \<Longrightarrow> xs @ us < ys @ vs" for xs ys :: "nat list"
proof (induction xs arbitrary: ys)
  case (Cons x xs)
  then show ?case by (cases ys) (auto simp: list_less_Cons)
qed simp

lemma prefix_same_length: "prefix xs ys \<Longrightarrow> length xs = length ys \<Longrightarrow> xs = ys"
  by (auto simp: prefix_def)

lemma less_common: "(zs @ xs < zs @ ys) = (xs < ys)" for xs ys zs :: "nat list"
  by (induction zs) (auto simp: list_less_Cons)

context delta_code
begin

definition cat :: "nat list \<Rightarrow> nat list" where
  "cat ds = concat (map enc ds)"

lemma cat_simps [simp]: "cat [] = []" "cat (d # ds) = enc d @ cat ds" "cat (ds @ es) = cat ds @ cat es"
  by (simp_all add: cat_def)

lemma enc_nonempty: "1 \<le> d \<Longrightarrow> enc d \<noteq> []"
  using prefix_free [of d "Suc d"] by auto

lemma enc_less_iff: "1 \<le> d \<Longrightarrow> 1 \<le> e \<Longrightarrow> enc d < enc e \<longleftrightarrow> d < e"
  using mono [of d e] mono [of e d] by (metis less_asym linorder_neqE_nat)

lemma sentinel_above: "1 \<le> e \<Longrightarrow> dkey (cat (e # es)) < [2]"
  using enc_nonempty [of e] digits [of e] by (cases "enc e") (auto simp: dkey_def list_less_Cons)

text \<open>Descending key order is the chain order.\<close>

lemma dkey_order:
  "positive ds \<Longrightarrow> positive es \<Longrightarrow> dkey (cat es) < dkey (cat ds) \<longleftrightarrow> chain_before ds es"
proof (induction ds es rule: chain_before.induct)
  case 1
  then show ?case by simp
next
  case (2 e es)
  then show ?case using sentinel_above [of e es] by (simp add: dkey_def)
next
  case (3 d ds)
  then have "dkey (cat (d # ds)) < dkey (cat [])" using sentinel_above [of d ds] by (simp add: dkey_def)
  then have "\<not> dkey (cat []) < dkey (cat (d # ds))" by (rule less_not_sym)
  then show ?case by simp
next
  case (4 d ds e es)
  show ?case
  proof (cases "d = e")
    case True
    then show ?thesis using 4 by (simp add: dkey_def less_common)
  next
    case False
    have less: "dkey (cat (x # xs)) < dkey (cat (y # ys))" if "x < y" "1 \<le> x" for x y xs ys
    proof -
      have "enc x < enc y" "\<not> prefix (enc x) (enc y)" using that mono [of x y] prefix_free [of x y] by auto
      from less_append [OF this] show ?thesis by (simp add: dkey_def)
    qed
    show ?thesis
      using False 4 less [of e d] less [of d e] by (metis chain_before.simps(4) less_asym linorder_neqE_nat positive_simps(2))
  qed
qed

text \<open>Coordinates determine their chains.\<close>

lemma cat_inj: "positive ds \<Longrightarrow> positive es \<Longrightarrow> cat ds = cat es \<Longrightarrow> ds = es"
  using dkey_order [of ds es] dkey_order [of es ds] chain_before_total [of ds es] by auto

end

lemma chain_before_irrefl: "\<not> chain_before ds ds"
  by (induction ds) auto

lemma chain_before_trans: "chain_before as bs \<Longrightarrow> chain_before bs cs \<Longrightarrow> chain_before as cs"
proof (induction as bs arbitrary: cs rule: chain_before.induct)
  case (2 e es)
  then show ?case by (cases cs) auto
next
  case (4 d ds e es)
  then show ?case by (cases cs) (auto split: if_splits)
qed auto

lemma chain_before_asym: "chain_before as bs \<Longrightarrow> \<not> chain_before bs as"
  using chain_before_trans chain_before_irrefl by blast

text \<open>
  Where a newest child goes. Let \<open>d\<close> exceed the delta of every descendant of \<open>as\<close> at that
  position. Then \<open>as @ [d]\<close> is next to \<open>as\<close>: a chain is before it exactly when it is \<open>as\<close> or
  before \<open>as\<close>, and after it exactly when it is after \<open>as\<close>.
\<close>

lemma chain_newest_child:
  assumes "\<And>c cs. es = as @ c # cs \<Longrightarrow> c < d"
  shows "chain_before es (as @ [d]) \<longleftrightarrow> es = as \<or> chain_before es as"
    and "chain_before (as @ [d]) es \<longleftrightarrow> chain_before as es"
proof (atomize (full), use assms in \<open>induction es as rule: chain_before.induct\<close>)
  case (3 x xs)
  then have "x < d" by simp
  then show ?case by auto
next
  case (4 x xs y ys)
  then show ?case by (auto split: if_splits)
qed auto

section \<open>Unary and binary codewords\<close>

interpretation unary: delta_code unaryEnc
proof
  fix d e :: nat
  assume "1 \<le> d"
  show "set (unaryEnc d) \<subseteq> {0, 1}" by (auto simp: unaryEnc_def)
  have lt: "unaryEnc d < unaryEnc e \<and> \<not> prefix (unaryEnc d) (unaryEnc e)" if "d < e" for d e
    using that
  proof (induction d arbitrary: e)
    case 0
    then show ?case by (cases e) (auto simp: unaryEnc_def list_less_Cons)
  next
    case (Suc d)
    then show ?case by (cases e) (auto simp: unaryEnc_def list_less_Cons)
  qed
  show "d < e \<Longrightarrow> unaryEnc d < unaryEnc e" using lt by blast
  have "\<not> prefix (unaryEnc d) (unaryEnc e)" if "e < d"
  proof
    assume "prefix (unaryEnc d) (unaryEnc e)"
    then have "length (unaryEnc d) \<le> length (unaryEnc e)" by (rule prefix_length_le)
    with that show False by (simp add: unaryEnc_def)
  qed
  then show "prefix (unaryEnc d) (unaryEnc e) \<Longrightarrow> d = e" using lt [of d e] by (cases d e rule: linorder_cases) auto
qed

definition bval2 :: "nat list \<Rightarrow> nat" where
  "bval2 xs = foldl (\<lambda>a x. 2 * a + x) 0 xs"

lemma bval2_append: "bval2 (xs @ [x]) = 2 * bval2 xs + x"
  by (simp add: bval2_def)

lemma bin_spec: "bval2 (bin d) = d \<and> set (bin d) \<subseteq> {0, 1} \<and> bin d \<noteq> [] \<and> (1 \<le> d \<longrightarrow> hd (bin d) = 1)"
proof (induction d rule: bin.induct)
  case (1 d)
  show ?case
  proof (cases "d < 2")
    case True
    then show ?thesis by (auto simp: bin.simps [of d] bval2_def)
  next
    case False
    have "d mod 2 < 2" by simp
    then have "d mod 2 = 0 \<or> d mod 2 = 1" by linarith
    moreover have "2 * (d div 2) + d mod 2 = d" by simp
    ultimately show ?thesis using 1 False by (auto simp: bin.simps [of d] bval2_append)
  qed
qed

lemma bval2_split: "bval2 (x # xs) = x * 2 ^ length xs + bval2 xs"
proof (induction xs rule: rev_induct)
  case (snoc y ys)
  then show ?case using bval2_append [of "x # ys" y] bval2_append [of ys y] by simp
qed (simp add: bval2_def)

lemma bval2_bound: "set xs \<subseteq> {0, 1} \<Longrightarrow> bval2 xs < 2 ^ length xs"
  by (induction xs) (auto simp: bval2_split, simp add: bval2_def)

text \<open>On words of equal length the numeric and the lexicographic order agree.\<close>

lemma bval2_less:
  assumes "length xs = length ys" and "set xs \<subseteq> {0, 1}" "set ys \<subseteq> {0, 1}"
  shows "bval2 xs < bval2 ys \<longleftrightarrow> xs < ys"
  using assms
proof (induction xs ys rule: list_induct2)
  case (Cons x xs y ys)
  note b = bval2_bound [of xs] bval2_bound [of ys]
  have "x = 0 \<or> x = 1" "y = 0 \<or> y = 1" using Cons.prems by auto
  then show ?case using Cons b by (auto simp: bval2_split list_less_Cons)
qed simp

lemma bin_less:
  assumes "1 \<le> d" "1 \<le> e" and "length (bin d) = length (bin e)"
  shows "drop 1 (bin d) < drop 1 (bin e) \<longleftrightarrow> d < e"
proof -
  obtain xs ys where xs: "bin d = 1 # xs" and ys: "bin e = 1 # ys"
    using bin_spec [of d] bin_spec [of e] assms by (metis list.collapse)
  have "bin d < bin e \<longleftrightarrow> d < e"
    using bval2_less [OF assms(3)] bin_spec [of d] bin_spec [of e] by simp
  then show ?thesis by (simp add: xs ys list_less_Cons)
qed

lemma bin_length_mono: "d \<le> e \<Longrightarrow> length (bin d) \<le> length (bin e)"
proof (rule ccontr)
  assume a: "d \<le> e" "\<not> length (bin d) \<le> length (bin e)"
  have be: "e < 2 ^ length (bin e)" using bval2_bound [of "bin e"] bin_spec [of e] by simp
  obtain x xs where x: "bin d = x # xs" using bin_spec [of d] by (cases "bin d") auto
  then have "length (bin e) \<le> length xs" using a(2) by simp
  then have le: "(2::nat) ^ length (bin e) \<le> 2 ^ length xs" by simp
  have "d = x * 2 ^ length xs + bval2 xs" using bin_spec [of d] x by (simp add: bval2_split)
  moreover have "x = 1" if "1 \<le> d" using bin_spec [of d] x that by simp
  ultimately have "2 ^ length xs \<le> d" if "1 \<le> d" using that by simp
  moreover have "1 \<le> d"
  proof (rule ccontr)
    assume "\<not> 1 \<le> d"
    then have "length (bin d) = 1" by (simp add: bin.simps)
    moreover have "1 \<le> length (bin e)" using bin_spec [of e] by (cases "bin e") auto
    ultimately show False using a(2) by simp
  qed
  ultimately show False using be le a(1) by linarith
qed

text \<open>Header and payload: a smaller size decides in the header, equal sizes in the payload.\<close>

lemma unary_header:
  "n < m \<Longrightarrow> replicate n 1 @ 0 # us < replicate m 1 @ 0 # (vs :: nat list) \<and>
    \<not> prefix (replicate n 1 @ 0 # us) (replicate m 1 @ 0 # vs)"
proof (induction n arbitrary: m)
  case 0
  then show ?case by (cases m) (auto simp: list_less_Cons)
next
  case (Suc n)
  then show ?case by (cases m) (auto simp: list_less_Cons)
qed

lemma binEnc_less:
  assumes "1 \<le> d" "d < e"
  shows "binEnc d < binEnc e \<and> \<not> prefix (binEnc d) (binEnc e)"
proof -
  obtain n m where n: "length (bin d) = Suc n" "length (bin e) = Suc m"
    using bin_spec [of d] bin_spec [of e] by (metis length_0_conv not0_implies_Suc)
  have "n \<le> m" using bin_length_mono [of d e] assms n by simp
  then consider "n < m" | "n = m" by linarith
  then show ?thesis
  proof cases
    case 1
    from unary_header [OF this, of "drop 1 (bin d)" "drop 1 (bin e)"] show ?thesis
      by (simp add: binEnc_def n Let_def)
  next
    case 2
    then have lt: "drop 1 (bin d) < drop 1 (bin e)" using bin_less [of d e] assms n by simp
    have "\<not> prefix (drop 1 (bin d)) (drop 1 (bin e))"
    proof
      assume "prefix (drop 1 (bin d)) (drop 1 (bin e))"
      then have "drop 1 (bin d) = drop 1 (bin e)"
        using n 2 by (intro prefix_same_length) auto
      with lt show False by simp
    qed
    then show ?thesis using lt 2 n by (simp add: binEnc_def Let_def less_common list_less_Cons)
  qed
qed

lemma binEnc_length: "length (binEnc d) = 2 * length (bin d) - 1"
  using bin_spec [of d] by (cases "bin d") (simp_all add: binEnc_def Let_def)

lemma dEnc_less:
  assumes "1 \<le> d" "d < e"
  shows "dEnc d < dEnc e \<and> \<not> prefix (dEnc d) (dEnc e)"
proof -
  have s: "1 \<le> length (bin d)" using bin_spec [of d] by (cases "bin d") auto
  have "length (bin d) \<le> length (bin e)" using bin_length_mono [of d e] assms by simp
  then consider "length (bin d) < length (bin e)" | "length (bin d) = length (bin e)" by linarith
  then show ?thesis
  proof cases
    case 1
    note h = binEnc_less [OF s 1]
    then have "\<not> prefix (binEnc (length (bin d)) @ drop 1 (bin d)) (binEnc (length (bin e)) @ drop 1 (bin e))"
      using less_append [of "binEnc (length (bin d))" "binEnc (length (bin e))"]
      by (metis append_prefixD less_append prefix_append prefix_def prefix_order.order_refl prefix_same_cases not_less_iff_gr_or_eq order.asym append_Nil2 less_common)
    then show ?thesis using less_append [of "binEnc (length (bin d))" "binEnc (length (bin e))"] h
      by (simp add: dEnc_def Let_def)
  next
    case 2
    then have lt: "drop 1 (bin d) < drop 1 (bin e)" using bin_less [of d e] assms by simp
    then have "\<not> prefix (drop 1 (bin d)) (drop 1 (bin e))"
      using 2 prefix_same_length [of "drop 1 (bin d)" "drop 1 (bin e)"] by auto
    then show ?thesis using lt 2 by (simp add: dEnc_def Let_def less_common)
  qed
qed

lemma code_from_less:
  assumes "\<And>d. set (enc d) \<subseteq> {0, 1 :: nat}"
    and "\<And>d e. 1 \<le> d \<Longrightarrow> d < e \<Longrightarrow> enc d < enc e \<and> \<not> prefix (enc d) (enc e)"
  shows "delta_code enc"
proof
  fix d e :: nat
  assume d: "1 \<le> d"
  show "set (enc d) \<subseteq> {0, 1}" by (rule assms(1))
  show "d < e \<Longrightarrow> enc d < enc e" using assms(2) d by blast
  assume e: "1 \<le> e" and p: "prefix (enc d) (enc e)"
  show "d = e"
  proof (cases d e rule: linorder_cases)
    case less
    then show ?thesis using assms(2) d p by blast
  next
    case greater
    from assms(2) [OF e this] p show ?thesis
      by (auto simp: prefix_def) (metis append_Nil2 less_common not_less_Nil)
  qed
qed

lemma bin_digits: "set (drop n (bin d)) \<subseteq> {0, 1}"
  using bin_spec [of d] set_drop_subset [of n "bin d"] by blast

lemma binEnc_digits: "set (binEnc d) \<subseteq> {0, 1}"
  using bin_digits [of 1 d] by (auto simp: binEnc_def Let_def)

lemma dEnc_digits: "set (dEnc d) \<subseteq> {0, 1}"
  using bin_digits [of 1 d] binEnc_digits by (auto simp: dEnc_def Let_def)

interpretation gamma: delta_code binEnc
  by (rule code_from_less) (use binEnc_digits binEnc_less in auto)

interpretation elias: delta_code dEnc
  by (rule code_from_less) (use dEnc_digits dEnc_less in auto)

section \<open>Properties\<close>

text \<open>C15: the comparator does not depend on the code. For chains of positive deltas, descending
  display-key order under the flipped Elias-delta code, and under the unary code, is the order of
  the chains themselves: an anchor before its descendants, the larger delta first. Equal
  coordinates come from equal chains, and an Elias-delta codeword of a delta with \<open>n\<close> bits has
  \<open>n + 2 * m - 2\<close> digits, where \<open>m\<close> is the number of bits of \<open>n\<close>.\<close>

theorem coordinate_order_is_chain_order:
  assumes "positive ds" and "positive es"
  shows "(dkey (concat (map dEnc es)) < dkey (concat (map dEnc ds)) \<longleftrightarrow> chain_before ds es) \<and>
    (dkey (concat (map unaryEnc es)) < dkey (concat (map unaryEnc ds)) \<longleftrightarrow> chain_before ds es) \<and>
    (concat (map dEnc ds) = concat (map dEnc es) \<longleftrightarrow> ds = es) \<and>
    (\<forall>d. length (dEnc d) = length (bin d) + 2 * length (bin (length (bin d))) - 2)"
proof (intro conjI allI)
  fix d
  have "1 \<le> length (bin d)" "1 \<le> length (bin (length (bin d)))"
    using bin_spec [of d] bin_spec [of "length (bin d)"] by (cases "bin d"; cases "bin (length (bin d))"; simp)+
  then show "length (dEnc d) = length (bin d) + 2 * length (bin (length (bin d))) - 2"
    by (simp add: dEnc_def Let_def binEnc_length)
qed (use elias.dkey_order [OF assms] unary.dkey_order [OF assms] elias.cat_inj [OF assms]
  in \<open>auto simp: elias.cat_def unary.cat_def\<close>)

theorem coordinate_order_is_chain_order_witness:
  "positive [3, 1] \<and> positive [2, 5] \<and> dEnc 5 = [1, 0, 1, 0, 1] \<and>
   (dkey (concat (map dEnc [2, 5])) < dkey (concat (map dEnc [3, 1])) \<longleftrightarrow> chain_before [3, 1] [2, 5 :: nat]) \<and>
    (dkey (concat (map unaryEnc [2, 5])) < dkey (concat (map unaryEnc [3, 1])) \<longleftrightarrow> chain_before [3, 1] [2, 5 :: nat]) \<and>
    (concat (map dEnc [3, 1]) = concat (map dEnc [2, 5]) \<longleftrightarrow> [3, 1] = [2, 5 :: nat]) \<and>
    (\<forall>d. length (dEnc d) = length (bin d) + 2 * length (bin (length (bin d))) - 2)"
proof -
  have p: "positive [3, 1]" "positive [2, 5]" by simp_all
  have b: "bin 1 = [1]" "bin 3 = [1, 1]" "bin 5 = [1, 0, 1]"
    by (simp_all add: bin.simps [of "Suc 0"] bin.simps [of 2] bin.simps [of 3] bin.simps [of 5])
  then have "dEnc 5 = [1, 0, 1, 0, 1]"
    by (simp add: dEnc_def binEnc_def Let_def eval_nat_numeral)
  with coordinate_order_is_chain_order [OF p] p show ?thesis by blast
qed

end
