(* ===== verification/EmbedRGA.thy ===== *)
theory EmbedRGA
  imports Mrdt LiveMap DeltaCode
begin

text \<open>
  The embedded replicated growable array of \<^verbatim>\<open>runtime/src/datatypes/embedRGA.js\<close>: a sequence
  whose state maps the id of a live element to its coordinate, the concatenation of the codewords
  of the id differences along its chain of anchors, and whose display order is descending
  coordinate order. The definitions take the delta code as an argument, as
  \<^verbatim>\<open>makeEmbedRGA\<close> does. Ids are integers; the payload of an unknown type is \<open>EOther\<close>.
\<close>

section \<open>Operations\<close>

record 'e erec =
  er_coord :: "nat list"
  er_el :: 'e

datatype 'e emb_op = EIns int 'e "int option" | EDel int | EOther string

type_synonym 'e emb = "(int, 'e erec) fmap"

definition emb_enc :: "(nat \<Rightarrow> nat list) \<Rightarrow> int \<Rightarrow> nat list res" where
  "emb_enc code d = (if d < 1 then Inl (Error ''delta must be a positive integer'') else Inr (code (nat d)))"

definition insRecord :: "(nat \<Rightarrow> nat list) \<Rightarrow> 'e emb \<Rightarrow> int \<Rightarrow> 'e \<Rightarrow> int option \<Rightarrow> 'e erec res" where
  "insRecord code state id1 el anchorId =
     (if fmlookup state id1 \<noteq> None then Inl (Error ''duplicate insert id'')
      else rbind (case anchorId of
          None \<Rightarrow> emb_enc code id1
        | Some anchor \<Rightarrow> (case fmlookup state anchor of
            None \<Rightarrow> Inl (Error ''anchor not live'')
          | Some a \<Rightarrow> rbind (emb_enc code (id1 - anchor)) (\<lambda>w. Inr (er_coord a @ w))))
        (\<lambda>coord. Inr \<lparr>er_coord = coord, er_el = el\<rparr>))"

definition emb_init :: "'e emb" where
  "emb_init = fmempty"

fun emb_apply :: "(nat \<Rightarrow> nat list) \<Rightarrow> 'e emb \<Rightarrow> 'e emb_op \<Rightarrow> 'e emb res" where
  "emb_apply code state (EIns id1 el anchorId) =
     rbind (insRecord code state id1 el anchorId) (\<lambda>r. Inr (fmupd id1 r state))"
| "emb_apply code state (EDel id1) = Inr (fmdrop id1 state)"
| "emb_apply code state (EOther ty) = Inl (Error ''unknown embedRGA op type'')"

fun emb_batch_step :: "(nat \<Rightarrow> nat list) \<Rightarrow> 'e emb_op \<Rightarrow> 'e emb \<Rightarrow> 'e emb res" where
  "emb_batch_step code (EIns id1 el anchorId) t =
     rbind (insRecord code t id1 el anchorId) (\<lambda>r. Inr (fmupd id1 r t))"
| "emb_batch_step code (EDel id1) t = Inr (fmdrop id1 t)"
| "emb_batch_step code (EOther ty) t = Inl (Error ''unknown embedRGA op type'')"

definition emb_applyBatch :: "(nat \<Rightarrow> nat list) \<Rightarrow> 'e emb \<Rightarrow> 'e emb_op list \<Rightarrow> 'e emb res" where
  "emb_applyBatch code state ops = foldM (emb_batch_step code) ops state"

text \<open>The comparator of the display order.\<close>

definition emb_before :: "int \<times> 'e erec \<Rightarrow> int \<times> 'e erec \<Rightarrow> bool" where
  "emb_before x y =
     (let ka = dkey (er_coord (snd x)); kb = dkey (er_coord (snd y))
      in if ka \<noteq> kb then kb < ka else fst x < fst y)"

definition emb_readEntries :: "'e emb \<Rightarrow> (int \<times> 'e erec) list" where
  "emb_readEntries state = sort_by emb_before (fm_entries state)"

definition emb_read :: "'e emb \<Rightarrow> 'e list" where
  "emb_read state = map (\<lambda>(_, r). er_el r) (emb_readEntries state)"

definition emb_readIds :: "'e emb \<Rightarrow> int list" where
  "emb_readIds state = map fst (emb_readEntries state)"

text \<open>
  The ternary merge. The exception is thrown for the first common id whose coordinates differ;
  which id comes first is the only thing that depends on the iteration order.
\<close>

definition emb_merge_step :: "'e emb \<Rightarrow> 'e emb \<Rightarrow> int \<times> 'e erec \<Rightarrow> 'e emb \<Rightarrow> 'e emb res" where
  "emb_merge_step l a x t = (case fmlookup a (fst x) of
       Some ra \<Rightarrow> if er_coord ra \<noteq> er_coord (snd x) then Inl (Error ''coordinate divergence'') else Inr t
     | None \<Rightarrow> if fmlookup l (fst x) = None then Inr (fmupd (fst x) (snd x) t) else Inr t)"

definition emb_merge3 :: "'e emb \<Rightarrow> 'e emb \<Rightarrow> 'e emb \<Rightarrow> 'e emb res" where
  "emb_merge3 l a b =
     (let t = foldl (\<lambda>t i. if fmlookup b i = None then fmdrop i t else t) a (fm_keys l)
      in foldM (emb_merge_step l a) (fm_entries b) t)"

definition symbolCount :: "'e emb \<Rightarrow> nat" where
  "symbolCount state = sum_list (map (\<lambda>(_, r). length (er_coord r)) (fm_entries state))"

text \<open>The value that \<open>fingerprint\<close> prints as JSON.\<close>

definition emb_fingerprint :: "'e emb \<Rightarrow> (int \<times> nat list \<times> 'e) list" where
  "emb_fingerprint state = map (\<lambda>(i, r). (i, er_coord r, er_el r)) (fm_entries state)"

definition emb_dt :: "(nat \<Rightarrow> nat list) \<Rightarrow> ('e emb_op, 'e emb, unit, 'e list) dtype" where
  "emb_dt code = \<lparr>dt_init = emb_init, dt_prepare = None, dt_apply = emb_apply code,
     dt_merge3 = emb_merge3, dt_read = emb_read, dt_compact = None, dt_remapState = None,
     dt_ins_id = (\<lambda>x. case x of EIns i _ _ \<Rightarrow> Some i | _ \<Rightarrow> None)\<rparr>"

lemma emb_batch_step_apply: "emb_batch_step code x t = emb_apply code t x"
  by (cases x) simp_all

section \<open>Merging\<close>

definition divergent :: "'e emb \<Rightarrow> 'e emb \<Rightarrow> bool" where
  "divergent a b \<longleftrightarrow> (\<exists>i ra rb. fmlookup a i = Some ra \<and> fmlookup b i = Some rb \<and> er_coord ra \<noteq> er_coord rb)"

definition clash :: "'e emb \<Rightarrow> int \<times> 'e erec \<Rightarrow> bool" where
  "clash a x \<longleftrightarrow> (\<exists>ra. fmlookup a (fst x) = Some ra \<and> er_coord ra \<noteq> er_coord (snd x))"

lemma emb_merge_step_eq:
  "emb_merge_step l a x t =
     (if clash a x then Inl (Error ''coordinate divergence'') else Inr (fm.add_step l a t x))"
  by (cases "fmlookup a (fst x)") (simp_all add: emb_merge_step_def fm.add_step_def clash_def)

lemma emb_merge_fold:
  "foldM (emb_merge_step l a) xs t =
     (if \<exists>x \<in> set xs. clash a x
      then Inl (Error ''coordinate divergence'') else Inr (foldl (fm.add_step l a) t xs))"
  by (rule foldM_gate) (rule emb_merge_step_eq)

lemma emb_merge3_eq:
  "emb_merge3 l a b = (if divergent a b then Inl (Error ''coordinate divergence'')
     else Inr (fm.delta_merge l a b (fm_keys l) (fm_entries b)))"
proof -
  have "(\<exists>x \<in> set (fm_entries b). clash a x) \<longleftrightarrow> divergent a b"
    unfolding divergent_def Bex_def clash_def split_paired_Ex fm_entries_iff fst_conv snd_conv by blast
  moreover have "(\<lambda>t i. if fmlookup b i = None then fmdrop i t else t) = fm.drop_step b"
    by (simp add: fun_eq_iff fm.drop_step_def)
  ultimately show ?thesis unfolding emb_merge3_def Let_def emb_merge_fold fm.delta_merge_def by presburger
qed

section \<open>Chains of anchors\<close>

inductive chain :: "'e emb_op event set \<Rightarrow> int \<Rightarrow> nat list \<Rightarrow> bool" for E where
  root: "(k, EIns i el None) \<in> E \<Longrightarrow> chain E i [nat i]"
| child: "(k, EIns i el (Some a)) \<in> E \<Longrightarrow> chain E a ds \<Longrightarrow> chain E i (ds @ [nat (i - a)])"

inductive_cases chain_cases: "chain E i ds"

definition inserted :: "'e emb_op event set \<Rightarrow> int \<Rightarrow> bool" where
  "inserted E i \<longleftrightarrow> (\<exists>k el anc. (k, EIns i el anc) \<in> E)"

definition deleted :: "'e emb_op event set \<Rightarrow> int \<Rightarrow> bool" where
  "deleted E i \<longleftrightarrow> (\<exists>k. (k, EDel i) \<in> E)"

definition born :: "(nat \<Rightarrow> nat list) \<Rightarrow> 'e emb_op event set \<Rightarrow> int \<Rightarrow> 'e erec \<Rightarrow> bool" where
  "born code E i r \<longleftrightarrow> (\<exists>k el anc ds. (k, EIns i el anc) \<in> E \<and> chain E i ds \<and>
     r = \<lparr>er_coord = concat (map code ds), er_el = el\<rparr>)"

text \<open>An id is inserted once, above its anchor.\<close>

definition emb_good :: "'e emb_op event set \<Rightarrow> bool" where
  "emb_good U \<longleftrightarrow>
     (\<forall>k k' i el el' anc anc'. (k, EIns i el anc) \<in> U \<longrightarrow> (k', EIns i el' anc') \<in> U \<longrightarrow>
        k = k' \<and> el = el' \<and> anc = anc') \<and>
     (\<forall>k i el. (k, EIns i el None) \<in> U \<longrightarrow> 1 \<le> i) \<and>
     (\<forall>k i el a. (k, EIns i el (Some a)) \<in> U \<longrightarrow> a < i)"

definition emb_rep :: "(nat \<Rightarrow> nat list) \<Rightarrow> 'e emb_op event set \<Rightarrow> 'e emb \<Rightarrow> bool" where
  "emb_rep code E s \<longleftrightarrow> live_rep (born code E) (deleted E) s \<and>
     (\<forall>i. inserted E i \<longrightarrow> (\<exists>ds. chain E i ds))"

text \<open>
  An honest insert mints a new id above a live anchor (or above 0 at the front); an honest delete
  names an id the replica has seen inserted.
\<close>

fun emb_honest :: "'e emb_op event set \<Rightarrow> 'e emb_op event set \<Rightarrow> 'e emb_op \<Rightarrow> bool" where
  "emb_honest U E (EIns i el None) \<longleftrightarrow> \<not> inserted U i \<and> 1 \<le> i"
| "emb_honest U E (EIns i el (Some a)) \<longleftrightarrow> \<not> inserted U i \<and> a < i \<and> inserted E a \<and> \<not> deleted E a"
| "emb_honest U E (EDel i) \<longleftrightarrow> inserted E i"
| "emb_honest U E (EOther ty) \<longleftrightarrow> False"

lemma chain_mono: "chain A i ds \<Longrightarrow> A \<subseteq> B \<Longrightarrow> chain B i ds"
  by (induction rule: chain.induct) (auto intro: chain.intros)

lemma chain_inserted: "chain E i ds \<Longrightarrow> inserted E i"
  by (induction rule: chain.induct) (auto simp: inserted_def)

lemma inserted_mono: "inserted A i \<Longrightarrow> A \<subseteq> B \<Longrightarrow> inserted B i"
  by (auto simp: inserted_def)

lemma good_unique:
  "emb_good U \<Longrightarrow> (k, EIns i el anc) \<in> U \<Longrightarrow> (k', EIns i el' anc') \<in> U \<Longrightarrow> k = k' \<and> el = el' \<and> anc = anc'"
  unfolding emb_good_def by blast

text \<open>The same id has the same chain everywhere, and the intersection already has it.\<close>

lemma chain_common:
  assumes good: "emb_good U" "A \<subseteq> U" "B \<subseteq> U"
  shows "chain A i ds \<Longrightarrow> chain B i es \<Longrightarrow> es = ds \<and> chain (A \<inter> B) i ds"
proof (induction arbitrary: es rule: chain.induct)
  case (root k i el)
  have same: "k' = k \<and> el' = el \<and> anc = None" if "(k', EIns i el' anc) \<in> B" for k' el' anc
    using good_unique [OF good(1), of k i el None k' el' anc] that root.hyps good(2,3) by auto
  from root.prems same root.hyps show ?case by (cases rule: chain_cases) (auto intro: chain.root)
next
  case (child k i el a ds)
  have same: "k' = k \<and> el' = el \<and> anc = Some a" if "(k', EIns i el' anc) \<in> B" for k' el' anc
    using good_unique [OF good(1), of k i el "Some a" k' el' anc] that child.hyps(1) good(2,3) by auto
  from child.prems obtain fs where "es = fs @ [nat (i - a)]" "chain B a fs" "(k, EIns i el (Some a)) \<in> B"
    using same by (cases rule: chain_cases) blast+
  with child.IH [of fs] child.hyps(1) show ?case by (auto intro: chain.child)
qed

lemma chain_fun: "emb_good U \<Longrightarrow> chain U i ds \<Longrightarrow> chain U i es \<Longrightarrow> es = ds"
  using chain_common [of U U U] by blast

lemma chain_shape:
  assumes "emb_good U"
  shows "chain U i ds \<Longrightarrow> positive ds \<and> int (sum_list ds) = i \<and> ds \<noteq> [] \<and> 1 \<le> i"
proof (induction rule: chain.induct)
  case (root k i el)
  then have "1 \<le> i" using assms unfolding emb_good_def by blast
  then show ?case by simp
next
  case (child k i el a ds)
  then have "a < i" using assms unfolding emb_good_def by blast
  with child.IH show ?case by auto
qed

lemma chain_inj: "emb_good U \<Longrightarrow> chain U i ds \<Longrightarrow> chain U j ds \<Longrightarrow> i = j"
  using chain_shape by metis

lemma good_subset: "emb_good U \<Longrightarrow> A \<subseteq> U \<Longrightarrow> emb_good A"
  unfolding emb_good_def by (meson subsetD)

lemma born_common:
  assumes "emb_good U" "A \<subseteq> U" "B \<subseteq> U" and "born code A i r" "born code B i r'"
  shows "r' = r \<and> born code (A \<inter> B) i r"
proof -
  obtain k el anc ds where a: "(k, EIns i el anc) \<in> A" "chain A i ds"
    "r = \<lparr>er_coord = concat (map code ds), er_el = el\<rparr>" using assms(4) by (auto simp: born_def)
  obtain k' el' anc' es where b: "(k', EIns i el' anc') \<in> B" "chain B i es"
    "r' = \<lparr>er_coord = concat (map code es), er_el = el'\<rparr>" using assms(5) by (auto simp: born_def)
  have "k = k' \<and> el = el' \<and> anc = anc'"
    by (rule good_unique [OF assms(1)]) (use a(1) b(1) assms(2,3) in auto)
  with chain_common [OF assms(1-3) a(2) b(2)] a b show ?thesis by (auto simp: born_def)
qed

lemma born_mono: "born code A i r \<Longrightarrow> A \<subseteq> B \<Longrightarrow> born code B i r"
  unfolding born_def using chain_mono by blast

text \<open>With every chain complete, adding events changes no record.\<close>

lemma born_extend:
  assumes "emb_good F" "A \<subseteq> F" and "\<forall>i. inserted A i \<longrightarrow> (\<exists>ds. chain A i ds)"
    and "(k, EIns i el anc) \<in> A" "born code F i r"
  shows "born code A i r"
proof -
  obtain ds where ds: "chain A i ds" using assms(3,4) unfolding inserted_def by blast
  then have "born code A i \<lparr>er_coord = concat (map code ds), er_el = el\<rparr>"
    using assms(4) by (auto simp: born_def)
  with born_common [OF assms(1,2) order_refl this assms(5)] show ?thesis by simp
qed

lemma emb_lookup:
  assumes "emb_rep code E s"
  shows "fmlookup s i = Some r \<longleftrightarrow> born code E i r \<and> \<not> deleted E i"
    and "fmlookup s i = None \<longleftrightarrow> deleted E i \<or> \<not> inserted E i"
    and "deleted E i \<Longrightarrow> inserted E i"
proof -
  have l: "live_rep (born code E) (deleted E) s" and c: "inserted E i \<Longrightarrow> \<exists>ds. chain E i ds"
    using assms by (auto simp: emb_rep_def)
  have ex: "(\<exists>r. born code E i r) \<longleftrightarrow> inserted E i"
    using c by (auto simp: born_def inserted_def)
  show "fmlookup s i = Some r \<longleftrightarrow> born code E i r \<and> \<not> deleted E i" by (rule live_rep_lookup(1) [OF l])
  show "fmlookup s i = None \<longleftrightarrow> deleted E i \<or> \<not> inserted E i"
    using live_rep_lookup(2) [OF l] ex by blast
  show "deleted E i \<Longrightarrow> inserted E i" using live_rep_lookup(3) [OF l] ex by blast
qed

lemma inserted_born:
  assumes "emb_rep code E s" and "inserted E i"
  shows "\<exists>r. born code E i r"
proof -
  obtain k el anc where e: "(k, EIns i el anc) \<in> E" using assms(2) unfolding inserted_def by blast
  moreover obtain ds where "chain E i ds" using assms unfolding emb_rep_def by blast
  ultimately show ?thesis unfolding born_def by blast
qed

section \<open>The contract\<close>

lemma born_inserted: "born code E i r \<Longrightarrow> inserted E i"
  by (auto simp: born_def inserted_def)

lemma inserted_insert [simp]:
  "inserted (insert (k, EIns i el anc) E) j \<longleftrightarrow> j = i \<or> inserted E j"
  "inserted (insert (k, EDel i) E) j \<longleftrightarrow> inserted E j"
  by (auto simp: inserted_def)

lemma deleted_insert [simp]:
  "deleted (insert (k, EIns i el anc) E) j \<longleftrightarrow> deleted E j"
  "deleted (insert (k, EDel i) E) j \<longleftrightarrow> j = i \<or> deleted E j"
  by (auto simp: deleted_def)

lemma good_insert:
  assumes "emb_good U" and "emb_honest U E x" "E \<subseteq> U" and "k \<notin> fst ` U"
  shows "emb_good (insert (k, x) U)"
  using assms by (cases "(U, E, x)" rule: emb_honest.cases) (auto simp: emb_good_def inserted_def)

lemma chain_del [simp]: "chain (insert (k, EDel j) E) i ds \<longleftrightarrow> chain E i ds"
proof
  show "chain (insert (k, EDel j) E) i ds \<Longrightarrow> chain E i ds"
    by (induction rule: chain.induct) (auto intro: chain.intros)
qed (auto intro: chain_mono)

lemma emb_rep_del:
  assumes "emb_rep code E s" and "inserted E i"
  shows "emb_rep code (insert (k, EDel i) E) (fmdrop i s)"
proof -
  have b: "born code (insert (k, EDel i) E) = born code E"
    by (auto simp: born_def fun_eq_iff)
  have "live_rep (born code E) (deleted (insert (k, EDel i) E)) (fmdrop i s)"
  proof (rule live_repI)
    fix j r
    show "fmlookup (fmdrop i s) j = Some r \<longleftrightarrow> born code E j r \<and> \<not> deleted (insert (k, EDel i) E) j"
      using emb_lookup(1) [OF assms(1), of j r] by auto
    show "deleted (insert (k, EDel i) E) j \<Longrightarrow> \<exists>r. born code E j r"
      using inserted_born [OF assms(1), of j] emb_lookup(3) [OF assms(1), of j] assms(2) by auto
  qed
  then show ?thesis using assms(1) by (simp add: emb_rep_def b)
qed

text \<open>The record an honest insert mints carries the coordinate of its chain.\<close>

lemma emb_ins_step:
  assumes good: "emb_good U" "E \<subseteq> U" and rep: "emb_rep code E s"
    and h: "emb_honest U E (EIns i el anc)" and k: "k \<notin> fst ` U"
  shows "\<exists>as ds. (case anc of None \<Rightarrow> as = [] \<and> ds = [nat i]
      | Some a \<Rightarrow> chain E a as \<and> ds = as @ [nat (i - a)]) \<and> chain (insert (k, EIns i el anc) E) i ds \<and>
    emb_apply code s (EIns i el anc) = Inr (fmupd i \<lparr>er_coord = concat (map code ds), er_el = el\<rparr> s)"
proof (cases anc)
  case None
  with h have n: "\<not> inserted U i" "1 \<le> i" by auto
  then have "fmlookup s i = None" using emb_lookup(2) [OF rep] inserted_mono [OF _ good(2)] by blast
  then show ?thesis using None n by (auto simp: insRecord_def emb_enc_def intro: chain.root)
next
  case (Some a)
  with h have n: "\<not> inserted U i" "a < i" "inserted E a" "\<not> deleted E a" by auto
  have i: "fmlookup s i = None" using emb_lookup(2) [OF rep] inserted_mono [OF _ good(2)] n(1) by blast
  obtain ra where ra: "fmlookup s a = Some ra" using emb_lookup(2) [OF rep, of a] n(3,4) by auto
  then obtain as where as: "chain E a as" "er_coord ra = concat (map code as)"
    using emb_lookup(1) [OF rep] by (auto simp: born_def)
  have "chain (insert (k, EIns i el anc) E) i (as @ [nat (i - a)])"
    using chain_mono [OF as(1)] Some by (blast intro: chain.child)
  moreover have "emb_apply code s (EIns i el anc)
      = Inr (fmupd i \<lparr>er_coord = concat (map code (as @ [nat (i - a)])), er_el = el\<rparr> s)"
    using Some n(2) i ra as(2) by (simp add: insRecord_def emb_enc_def)
  ultimately show ?thesis using Some as(1) by auto
qed

lemma emb_rep_ins:
  assumes good: "emb_good (insert (k, EIns i el anc) E)" and fresh: "\<not> inserted E i"
    and rep: "emb_rep code E s" and ch: "chain (insert (k, EIns i el anc) E) i ds"
  shows "emb_rep code (insert (k, EIns i el anc) E) (fmupd i \<lparr>er_coord = concat (map code ds), er_el = el\<rparr> s)"
    (is "emb_rep code ?E (fmupd i ?r s)")
proof -
  have closed: "\<forall>j. inserted E j \<longrightarrow> (\<exists>ds. chain E j ds)" using rep by (simp add: emb_rep_def)
  have new: "born code ?E i ?r" using ch by (auto simp: born_def)
  have born: "born code ?E j r \<longleftrightarrow> (if j = i then r = ?r else born code E j r)" for j r
  proof (cases "j = i")
    case True
    then have "born code ?E j r \<longleftrightarrow> r = ?r"
      using new born_common [OF good order_refl order_refl new] by blast
    with True show ?thesis by simp
  next
    case False
    have "born code E j r" if b: "born code ?E j r"
    proof -
      from b False obtain k' el' anc' where "(k', EIns j el' anc') \<in> E" by (auto simp: born_def)
      from born_extend [OF good subset_insertI closed this b] show ?thesis .
    qed
    then show ?thesis using False born_mono [of code E j r ?E] by auto
  qed
  have nd: "\<not> deleted E i" using fresh emb_lookup(3) [OF rep] by blast
  have "live_rep (born code ?E) (deleted ?E) (fmupd i ?r s)"
  proof (rule live_repI)
    fix j r
    show "fmlookup (fmupd i ?r s) j = Some r \<longleftrightarrow> born code ?E j r \<and> \<not> deleted ?E j"
      using nd emb_lookup(1) [OF rep, of j r] by (auto simp: born)
    show "deleted ?E j \<Longrightarrow> \<exists>r. born code ?E j r"
      using inserted_born [OF rep emb_lookup(3) [OF rep, of j]] by (auto simp: born)
  qed
  moreover have "\<forall>j. inserted ?E j \<longrightarrow> (\<exists>ds. chain ?E j ds)"
    using closed ch chain_mono [OF _ subset_insertI [of E "(k, EIns i el anc)"]]
    unfolding inserted_insert by blast
  ultimately show ?thesis by (simp add: emb_rep_def)
qed

lemma born_Un:
  assumes good: "emb_good U" "A \<subseteq> U" "B \<subseteq> U" and a: "emb_rep code A a" and b: "emb_rep code B b"
  shows "born code (A \<union> B) i r \<longleftrightarrow> born code A i r \<or> born code B i r"
proof
  have AB: "emb_good (A \<union> B)" by (rule good_subset [OF good(1)]) (use good(2,3) in blast)
  have ca: "\<forall>i. inserted A i \<longrightarrow> (\<exists>ds. chain A i ds)" and cb: "\<forall>i. inserted B i \<longrightarrow> (\<exists>ds. chain B i ds)"
    using a b unfolding emb_rep_def by blast+
  assume x: "born code (A \<union> B) i r"
  then obtain k el anc where "(k, EIns i el anc) \<in> A \<or> (k, EIns i el anc) \<in> B" by (auto simp: born_def)
  then show "born code A i r \<or> born code B i r"
    using born_extend [OF AB _ ca _ x] born_extend [OF AB _ cb _ x] by blast
qed (use born_mono in blast)

lemma not_divergent:
  assumes "emb_good U" "A \<subseteq> U" "B \<subseteq> U" and a: "emb_rep code A a" and b: "emb_rep code B b"
  shows "\<not> divergent a b"
proof
  assume "divergent a b"
  then obtain i ra rb where d: "fmlookup a i = Some ra" "fmlookup b i = Some rb" "er_coord ra \<noteq> er_coord rb"
    unfolding divergent_def by blast
  then have "born code A i ra" "born code B i rb" using emb_lookup(1) [OF a] emb_lookup(1) [OF b] by blast+
  from born_common [OF assms(1-3) this] d(3) show False by blast
qed

text \<open>Assembling the representation of a union from its lookups.\<close>

lemma emb_rep_UnI:
  assumes good: "emb_good U" "A \<subseteq> U" "B \<subseteq> U" and a: "emb_rep code A a" and b: "emb_rep code B b"
    and m: "live_rep (\<lambda>i r. born code A i r \<or> born code B i r) (\<lambda>i. deleted A i \<or> deleted B i) m"
  shows "emb_rep code (A \<union> B) m"
proof -
  have "born code (A \<union> B) = (\<lambda>i r. born code A i r \<or> born code B i r)"
    using born_Un [OF assms(1-5)] by (simp add: fun_eq_iff)
  moreover have "deleted (A \<union> B) = (\<lambda>i. deleted A i \<or> deleted B i)" by (auto simp: deleted_def fun_eq_iff)
  moreover have "\<exists>ds. chain (A \<union> B) i ds" if "inserted (A \<union> B) i" for i
  proof -
    have "inserted A i \<or> inserted B i" using that by (auto simp: inserted_def)
    then have "(\<exists>ds. chain A i ds) \<or> (\<exists>ds. chain B i ds)" using a b unfolding emb_rep_def by blast
    then show ?thesis using chain_mono by (metis sup_ge1 sup_ge2)
  qed
  ultimately show ?thesis using m unfolding emb_rep_def by simp
qed

lemma emb_rep_merge:
  assumes good: "emb_good U" "A \<subseteq> U" "B \<subseteq> U"
    and a: "emb_rep code A a" and b: "emb_rep code B b" and l: "emb_rep code (A \<inter> B) l"
  shows "\<exists>m. emb_merge3 l a b = Inr m \<and> emb_rep code (A \<union> B) m"
proof -
  let ?m = "fm.delta_merge l a b (fm_keys l) (fm_entries b)"
  have "live_rep (\<lambda>i r. born code A i r \<or> born code B i r) (\<lambda>i. deleted A i \<or> deleted B i) ?m"
  proof (rule live_rep_merge)
    show "live_rep (born code A) (deleted A) a" "live_rep (born code B) (deleted B) b"
      "live_rep (born code (A \<inter> B)) (deleted (A \<inter> B)) l" using a b l by (simp_all add: emb_rep_def)
    show "born code (A \<inter> B) i r \<Longrightarrow> born code A i r \<and> born code B i r" for i r
      using born_mono by (metis Int_lower1 Int_lower2)
  qed (use born_common [OF good] in \<open>auto simp: deleted_def delta_merge_lookup\<close>)
  from emb_rep_UnI [OF good a b this] not_divergent [OF good a b] show ?thesis by (simp add: emb_merge3_eq)
qed

text \<open>Insert-only states merge over the empty base.\<close>

lemma emb_union_merge:
  fixes a b :: "'e emb"
  assumes good: "emb_good U" "A \<subseteq> U" "B \<subseteq> U" and a: "emb_rep code A a" and b: "emb_rep code B b"
    and no_del: "\<And>i. \<not> deleted A i" "\<And>i. \<not> deleted B i"
  shows "\<exists>m. emb_merge3 emb_init a b = Inr m \<and> emb_rep code (A \<union> B) m"
proof -
  let ?e = "emb_init :: 'e emb"
  let ?m = "fm.delta_merge ?e a b (fm_keys ?e) (fm_entries b)"
  have look: "fmlookup ?m i = (case fmlookup a i of Some r \<Rightarrow> Some r | None \<Rightarrow> fmlookup b i)" for i
    unfolding delta_merge_lookup merged_lookup_def by (simp add: emb_init_def split: option.split)
  have "live_rep (\<lambda>i r. born code A i r \<or> born code B i r) (\<lambda>i. deleted A i \<or> deleted B i) ?m"
  proof (rule live_repI)
    fix i r
    have la: "fmlookup a i = Some v \<longleftrightarrow> born code A i v" and lb: "fmlookup b i = Some v \<longleftrightarrow> born code B i v" for v
      using emb_lookup(1) [OF a] emb_lookup(1) [OF b] no_del by blast+
    show "fmlookup ?m i = Some r \<longleftrightarrow> (born code A i r \<or> born code B i r) \<and> \<not> (deleted A i \<or> deleted B i)"
    proof (cases "fmlookup a i")
      case None
      then show ?thesis using la [of r] lb [of r] no_del by (simp add: look)
    next
      case (Some v)
      then have v: "born code A i v" using la by blast
      have "born code A i r \<or> born code B i r \<longleftrightarrow> v = r"
        using v Some la [of r] born_common [OF good v, of r] by auto
      then show ?thesis using Some no_del by (simp add: look)
    qed
  qed (use no_del in blast)
  from emb_rep_UnI [OF good a b this] not_divergent [OF good a b] show ?thesis by (simp add: emb_merge3_eq)
qed

lemma emb_readIds_set: "distinct (emb_readIds s) \<and> set (emb_readIds s) = dom (fmlookup s)"
proof -
  have "distinct (map fst (fm_entries s))" by simp
  then have "distinct (fm_entries s)" "inj_on fst (set (fm_entries s))" by (simp_all only: distinct_map)
  then have "distinct (emb_readIds s)"
    by (simp add: emb_readIds_def emb_readEntries_def distinct_map)
  moreover have "set (emb_readIds s) = dom (fmlookup s)"
    unfolding emb_readIds_def emb_readEntries_def set_map set_sort_by
      set_map [symmetric] map_fst_fm_entries by (rule set_fm_keys)
  ultimately show ?thesis by blast
qed

lemma emb_rep_read: "emb_rep code E s \<Longrightarrow> emb_rep code E s' \<Longrightarrow> s = s'"
  unfolding emb_rep_def using live_rep_unique by blast

lemma emb_init_rep: "emb_good {} \<and> emb_rep code {} emb_init"
  by (simp add: emb_good_def emb_rep_def live_rep_def emb_init_def born_def deleted_def inserted_def)

lemma emb_apply_rep:
  assumes good: "emb_good U" "E \<subseteq> U" and rep: "emb_rep code E s" and h: "emb_honest U E x"
    and k: "k \<notin> fst ` U"
  shows "\<exists>s'. emb_apply code s x = Inr s' \<and> emb_rep code (insert (k, x) E) s' \<and> emb_good (insert (k, x) U)"
proof -
  have g: "emb_good (insert (k, x) U)" by (rule good_insert [OF good(1) h good(2) k])
  show ?thesis
  proof (cases x)
    case (EIns i el anc)
    from emb_ins_step [OF good rep h [unfolded EIns] k] obtain ds where
      ds: "chain (insert (k, x) E) i ds"
      "emb_apply code s x = Inr (fmupd i \<lparr>er_coord = concat (map code ds), er_el = el\<rparr> s)"
      unfolding EIns by blast
    have "\<not> inserted U i" using h EIns by (cases anc) auto
    then have f: "\<not> inserted E i" using inserted_mono [OF _ good(2)] by blast
    have "insert (k, x) E \<subseteq> insert (k, x) U" using good(2) by blast
    then have "emb_good (insert (k, x) E)" by (rule good_subset [OF g])
    from emb_rep_ins [OF this [unfolded EIns] f rep ds(1) [unfolded EIns]] ds(2) g show ?thesis
      unfolding EIns by blast
  next
    case (EDel i)
    with emb_rep_del [OF rep] h g show ?thesis by simp
  next
    case (EOther ty)
    with h show ?thesis by simp
  qed
qed

interpretation emb: mrdt "emb_dt code" "emb_rep code" emb_honest emb_good for code
proof unfold_locales
  show "emb_good {}" by (simp add: emb_good_def)
  show "emb_rep code {} (dt_init (emb_dt code))" by (simp add: emb_dt_def emb_init_rep)
next
  fix U E :: "'a emb_op event set" and s x k
  assume "emb_good U" "E \<subseteq> U" "emb_rep code E s" "emb_honest U E x" "k \<notin> fst ` U"
  from emb_apply_rep [OF this]
  show "\<exists>y s'. dt_prepared (emb_dt code) s x = Inr y \<and> dt_apply (emb_dt code) s y = Inr s' \<and>
      emb_rep code (insert (k, y) E) s' \<and> emb_good (insert (k, y) U)"
    by (auto simp: dt_prepared_def emb_dt_def)
next
  fix U A B :: "'a emb_op event set" and a b l
  assume "emb_good U" "A \<subseteq> U" "B \<subseteq> U" "emb_rep code A a" "emb_rep code B b" "emb_rep code (A \<inter> B) l"
  from emb_rep_merge [OF this] show "\<exists>m. dt_merge3 (emb_dt code) l a b = Inr m \<and> emb_rep code (A \<union> B) m"
    by (auto simp: emb_dt_def)
next
  fix E :: "'a emb_op event set" and s s'
  assume "emb_rep code E s" "emb_rep code E s'"
  then show "dt_read (emb_dt code) s = dt_read (emb_dt code) s'" using emb_rep_read by metis
qed

section \<open>The display order\<close>

text \<open>The order of ids by their chains, the same at every replica.\<close>

definition id_before :: "'e emb_op event set \<Rightarrow> int \<Rightarrow> int \<Rightarrow> bool" where
  "id_before U i j \<longleftrightarrow> (\<exists>ds es. chain U i ds \<and> chain U j es \<and> chain_before ds es)"

lemma id_before_chains:
  assumes "emb_good U" and "chain U i ds" "chain U j es"
  shows "id_before U i j \<longleftrightarrow> chain_before ds es"
  unfolding id_before_def using chain_fun [OF assms(1)] assms(2,3) by blast

lemma id_before_total:
  assumes good: "emb_good U" and A: "\<And>i. i \<in> A \<Longrightarrow> \<exists>ds. chain U i ds"
  shows "total_on (id_before U) A"
  unfolding total_on_def
proof (intro conjI ballI impI)
  fix i j
  assume "i \<in> A" "j \<in> A"
  then obtain ds es where c: "chain U i ds" "chain U j es" using A by blast
  note o = id_before_chains [OF good c] id_before_chains [OF good c(2,1)]
  show "i \<noteq> j \<Longrightarrow> id_before U i j \<or> id_before U j i"
    unfolding o using chain_before_total [of ds es] chain_inj [OF good] c by blast
  show "id_before U i j \<Longrightarrow> \<not> id_before U j i" unfolding o by (rule chain_before_asym)
  fix k
  assume "k \<in> A" and ij: "id_before U i j" and jk: "id_before U j k"
  then obtain fs where k: "chain U k fs" using A by blast
  from ij jk show "id_before U i k"
    unfolding o(1) id_before_chains [OF good c(2) k] id_before_chains [OF good c(1) k]
    by (rule chain_before_trans)
qed

context delta_code
begin

text \<open>The comparator of the source is this order.\<close>

lemma comparator_is_id_before:
  assumes good: "emb_good U" and x: "chain U i ds" "er_coord r = concat (map enc ds)"
    and y: "chain U j es" "er_coord r' = concat (map enc es)"
  shows "emb_before (i, r) (j, r') \<longleftrightarrow> id_before U i j"
proof -
  have p: "positive ds" "positive es" using chain_shape [OF good] x(1) y(1) by blast+
  have key: "dkey (er_coord r) = dkey (er_coord r') \<longleftrightarrow> ds = es"
    using cat_inj [OF p] x(2) y(2) by (auto simp: dkey_def cat_def)
  have ord: "dkey (er_coord r') < dkey (er_coord r) \<longleftrightarrow> chain_before ds es"
    using dkey_order [OF p] x(2) y(2) by (simp add: cat_def)
  show ?thesis
  proof (cases "ds = es")
    case True
    then have "i = j" using chain_inj [OF good x(1)] y(1) by blast
    with True key show ?thesis
      using id_before_chains [OF good x(1) x(1)] by (simp add: emb_before_def chain_before_irrefl)
  next
    case False
    with key ord show ?thesis by (simp add: emb_before_def Let_def id_before_chains [OF good x(1) y(1)])
  qed
qed

lemma readIds_order:
  assumes good: "emb_good U" "E \<subseteq> U" and rep: "emb_rep enc E s"
  shows "distinct (emb_readIds s) \<and> set (emb_readIds s) = {i. inserted E i \<and> \<not> deleted E i} \<and>
    sorted_wrt (id_before U) (emb_readIds s)"
proof -
  have entry: "\<exists>ds. chain U i ds \<and> er_coord r = concat (map enc ds)" if "(i, r) \<in> set (fm_entries s)" for i r
    using that emb_lookup(1) [OF rep] chain_mono [OF _ good(2)] unfolding fm_entries_iff born_def by fastforce
  have cmp: "emb_before x y \<longleftrightarrow> id_before U (fst x) (fst y)"
    if "x \<in> set (fm_entries s)" "y \<in> set (fm_entries s)" for x y
  proof -
    obtain i r j r' where xy: "x = (i, r)" "y = (j, r')" by force
    with that entry obtain ds es where "chain U i ds" "er_coord r = concat (map enc ds)"
      "chain U j es" "er_coord r' = concat (map enc es)" by blast
    from comparator_is_id_before [OF good(1) this] show ?thesis by (simp add: xy)
  qed
  have d: "distinct (map fst (fm_entries s))" by simp
  then have de: "distinct (fm_entries s)" by (simp only: distinct_map)
  have inj: "x = y" if "x \<in> set (fm_entries s)" "y \<in> set (fm_entries s)" "fst x = fst y" for x y
    using d that unfolding distinct_map inj_on_def by blast
  have tot: "total_on (id_before U) (fst ` set (fm_entries s))"
    by (rule id_before_total [OF good(1)]) (use entry in force)
  have "total_on emb_before (set (fm_entries s))"
    unfolding total_on_def
  proof (intro conjI ballI impI)
    fix x y z
    assume xy: "x \<in> set (fm_entries s)" "y \<in> set (fm_entries s)"
    show "x \<noteq> y \<Longrightarrow> emb_before x y \<or> emb_before y x"
      using inj [OF xy] total_onD(1) [OF tot, of "fst x" "fst y"] cmp xy by blast
    show "emb_before x y \<Longrightarrow> \<not> emb_before y x"
      using total_onD(2) [OF tot, of "fst x" "fst y"] cmp xy by blast
    assume "z \<in> set (fm_entries s)" "emb_before x y" "emb_before y z"
    then show "emb_before x z"
      using total_onD(3) [OF tot, of "fst x" "fst y" "fst z"] cmp xy by blast
  qed
  from sorted_sort_by [OF this de] have "sorted_wrt (\<lambda>x y. id_before U (fst x) (fst y)) (emb_readEntries s)"
    unfolding emb_readEntries_def by (rule sorted_wrt_mono_rel [rotated]) (use cmp in simp)
  then have "sorted_wrt (id_before U) (emb_readIds s)" by (simp add: emb_readIds_def sorted_wrt_map)
  moreover have "dom (fmlookup s) = {i. inserted E i \<and> \<not> deleted E i}"
    unfolding dom_def emb_lookup(2) [OF rep] by blast
  ultimately show ?thesis using emb_readIds_set [of s] by metis
qed

end

section \<open>Where a newest element is displayed\<close>

lemma newest_neighbour:
  assumes good: "emb_good U" and c: "chain U i (as @ [d])" "chain U j es" and new: "j < i"
    and anc: "int (sum_list as) + int d = i"
  shows "chain_before es (as @ [d]) \<longleftrightarrow> es = as \<or> chain_before es as"
    and "chain_before (as @ [d]) es \<longleftrightarrow> chain_before as es"
proof -
  have "x < d" if "es = as @ x # cs" for x cs
    using chain_shape [OF good c(2)] that new anc by simp
  then show "chain_before es (as @ [d]) \<longleftrightarrow> es = as \<or> chain_before es as"
    "chain_before (as @ [d]) es \<longleftrightarrow> chain_before as es"
    using chain_newest_child by blast+
qed

lemma sorted_append_insert:
  assumes "sorted_wrt lt (p @ q)" and "\<And>x. x \<in> set p \<Longrightarrow> lt x y" and "\<And>x. x \<in> set q \<Longrightarrow> lt y x"
  shows "sorted_wrt lt (p @ y # q)"
  using assms by (auto simp: sorted_wrt_append)

context delta_code
begin

lemma newest_insert_place:
  assumes good: "emb_good U" "insert (k, EIns i el anc) E \<subseteq> U"
    and rep: "emb_rep enc E s" "emb_rep enc (insert (k, EIns i el anc) E) s'"
    and fresh: "\<not> inserted E i" and anc: "\<And>a. anc = Some a \<Longrightarrow> inserted E a \<and> \<not> deleted E a \<and> a < i"
    and newest: "\<And>j. inserted E j \<Longrightarrow> j < i"
  shows "\<exists>p q. emb_readIds s = p @ q \<and> emb_readIds s' = p @ i # q \<and>
    (case anc of None \<Rightarrow> p = [] | Some a \<Rightarrow> p \<noteq> [] \<and> last p = a)"
proof -
  let ?ids = "emb_readIds s" and ?lt = "id_before U" and ?L = "{j. inserted E j \<and> \<not> deleted E j}"
  have EU: "E \<subseteq> U" using good(2) by blast
  have ids: "distinct ?ids" "set ?ids = ?L" "sorted_wrt ?lt ?ids"
    using readIds_order [OF good(1) EU rep(1)] by blast+
  have nd: "\<not> deleted E i" using emb_lookup(3) [OF rep(1)] fresh by blast
  have ids': "distinct (emb_readIds s')" "set (emb_readIds s') = insert i ?L" "sorted_wrt ?lt (emb_readIds s')"
    using readIds_order [OF good rep(2)] nd by auto
  have chain: "\<exists>es. chain U j es" if "inserted E j" for j
    using that rep(1) chain_mono [OF _ EU] unfolding emb_rep_def by blast
  obtain as d where c: "chain U i (as @ [d])" "int (sum_list as) + int d = i"
    "case anc of None \<Rightarrow> as = [] | Some a \<Rightarrow> chain U a as"
  proof (cases anc)
    case None
    then have "(k, EIns i el None) \<in> U" using good(2) by auto
    then have "chain U i [nat i]" by (rule chain.root)
    with that [of "[]" "nat i"] chain_shape [OF good(1) this] None show ?thesis by simp
  next
    case (Some a)
    then have i: "(k, EIns i el (Some a)) \<in> U" using good(2) by auto
    obtain as where "chain U a as" using chain anc [OF Some] by blast
    with that [of as "nat (i - a)"] chain.child [OF i this] chain_shape [OF good(1) this] anc [OF Some] Some
    show ?thesis by simp
  qed
  have place: "(?lt x i \<longleftrightarrow> es = as \<or> chain_before es as) \<and> (?lt i x \<longleftrightarrow> chain_before as es)"
    if "inserted E x" "chain U x es" for x es
    using newest_neighbour [OF good(1) c(1) that(2) newest [OF that(1)] c(2)]
      id_before_chains [OF good(1) c(1) that(2)] id_before_chains [OF good(1) that(2) c(1)] by blast
  have tot: "total_on ?lt (set (emb_readIds s'))"
    by (rule id_before_total [OF good(1)]) (use ids'(2) chain c(1) in auto)
  have done1: ?thesis if "?ids = p @ q" "\<And>x. x \<in> set p \<Longrightarrow> ?lt x i" "\<And>x. x \<in> set q \<Longrightarrow> ?lt i x"
    "case anc of None \<Rightarrow> p = [] | Some a \<Rightarrow> p \<noteq> [] \<and> last p = a" for p q
  proof -
    have "sorted_wrt ?lt (p @ i # q)" by (rule sorted_append_insert) (use that ids(3) in auto)
    moreover have pq: "distinct (p @ q)" "set (p @ q) = ?L" using ids that(1) by auto
    have "i \<notin> set (p @ q)" unfolding pq(2) using fresh by blast
    then have "distinct (p @ i # q)" using pq(1) by auto
    moreover have "set (p @ i # q) = insert i ?L" unfolding pq(2) [symmetric] by auto
    ultimately have "emb_readIds s' = p @ i # q"
      using sorted_unique [OF tot ids'(3)] ids'(1,2) by simp
    with that show ?thesis by blast
  qed
  have live: "inserted E x" if "x \<in> set ?ids" for x using that ids(2) by blast
  show ?thesis
  proof (cases anc)
    case None
    have "?lt i x" if x: "x \<in> set ?ids" for x
    proof -
      obtain es where es: "chain U x es" using chain live [OF x] by blast
      have "chain_before [] es" using chain_shape [OF good(1) es] by (cases es) auto
      then show ?thesis using place [OF live [OF x] es] c(3) None by simp
    qed
    then show ?thesis by (intro done1 [of "[]" ?ids]) (auto simp: None)
  next
    case (Some a)
    then have as: "chain U a as" using c(3) by simp
    have "a \<in> set ?ids" using ids(2) anc [OF Some] by blast
    then obtain p q where pq: "?ids = p @ a # q" by (meson split_list)
    have "?lt x i" if x: "x \<in> set (p @ [a])" for x
    proof -
      have l: "inserted E x" using live x pq by auto
      then obtain es where es: "chain U x es" using chain by blast
      have "x = a \<or> ?lt x a" using x ids(3) pq by (auto simp: sorted_wrt_append)
      then have "es = as \<or> chain_before es as"
        using chain_fun [OF good(1) as] es id_before_chains [OF good(1) es as] by blast
      then show ?thesis using place [OF l es] by blast
    qed
    moreover have "?lt i x" if x: "x \<in> set q" for x
    proof -
      have l: "inserted E x" using live x pq by auto
      then obtain es where es: "chain U x es" using chain by blast
      have "?lt a x" using x ids(3) pq by (auto simp: sorted_wrt_append)
      then show ?thesis using place [OF l es] id_before_chains [OF good(1) as es] by blast
    qed
    ultimately show ?thesis by (intro done1 [of "p @ [a]" q]) (auto simp: Some pq)
  qed
qed

end

section \<open>Properties\<close>

abbreviation head_state :: "('o, 's, 'x) runtime \<Rightarrow> nat \<Rightarrow> 's" where
  "head_state rt i \<equiv> c_state (r_head (rt_replicas rt ! i))"

lemma code_cases:
  assumes "code \<in> {dEnc, unaryEnc}"
  shows "delta_code code"
  using assms elias.delta_code_axioms unary.delta_code_axioms by blast

text \<open>C16: what the embedded sequence shows. In every run of registrations, honest commits,
  synchronisations and collections, under either delta code, a replica reads the delivered and not
  deleted elements, each once, in the one order of ids that the anchor chains of all operations
  determine: any two replicas show their common elements in the same relative order.\<close>

theorem embed_reads_chain_order:
  assumes "code \<in> {dEnc, unaryEnc}" and "delivery_run (emb_dt code) emb_honest rt U Es" and "i < length Es"
  shows "rt_read (emb_dt code) i rt = Inr (emb_read (head_state rt i)) \<and>
    distinct (emb_readIds (head_state rt i)) \<and>
    set (emb_readIds (head_state rt i)) = {j. inserted (Es ! i) j \<and> \<not> deleted (Es ! i) j} \<and>
    sorted_wrt (id_before U) (emb_readIds (head_state rt i)) \<and>
    total_on (id_before U) (\<Union>E \<in> set Es. {j. inserted E j})"
proof -
  note hd = emb.head_represents [OF assms(2)]
  have "\<exists>ds. chain U j ds" if "E \<in> set Es" "inserted E j" for E j
  proof -
    obtain n where n: "n < length Es" "E = Es ! n" using \<open>E \<in> set Es\<close> by (auto simp: in_set_conv_nth)
    then have "\<exists>ds. chain E j ds" "E \<subseteq> U" using hd [OF n(1)] that(2) unfolding emb_rep_def by blast+
    then show ?thesis using chain_mono by blast
  qed
  then have t: "total_on (id_before U) (\<Union>E \<in> set Es. {j. inserted E j})"
    using hd [OF assms(3)] by (intro id_before_total) auto
  have r: "rt_read (emb_dt code) i rt = Inr (emb_read (head_state rt i))"
    using hd [OF assms(3)] by (simp add: rt_read_def get_replica_def emb_dt_def)
  show ?thesis using hd [OF assms(3)] delta_code.readIds_order [OF code_cases [OF assms(1)], of U "Es ! i" "head_state rt i"] t r by blast
qed

lemma embed_demo_run:
  "\<exists>rt. delivery_run (emb_dt dEnc) emb_honest rt {(1, EIns 1 True None)}
     [{(1, EIns 1 True None)}, {(1, EIns 1 True None)}]"
proof -
  have "emb_honest {} {} (EIns 1 True None)" by (simp add: inserted_def)
  from emb.demo_run [OF this, of dEnc] show ?thesis by (auto simp: dt_prepared_def emb_dt_def)
qed

theorem embed_reads_chain_order_witness:
  "\<exists>rt U Es. delivery_run (emb_dt dEnc) emb_honest rt U Es \<and> inserted (Es ! 1) 1 \<and>
    rt_read (emb_dt dEnc) 1 rt = Inr (emb_read (head_state rt 1)) \<and>
    distinct (emb_readIds (head_state rt 1)) \<and>
    set (emb_readIds (head_state rt 1)) = {j. inserted (Es ! 1) j \<and> \<not> deleted (Es ! 1) j} \<and>
    sorted_wrt (id_before (U :: bool emb_op event set)) (emb_readIds (head_state rt 1)) \<and>
    total_on (id_before U) (\<Union>E \<in> set Es. {j. inserted E j})"
proof -
  obtain rt where run: "delivery_run (emb_dt dEnc) emb_honest rt {(1, EIns 1 True None)}
     [{(1, EIns 1 True None)}, {(1, EIns 1 True None)}]" using embed_demo_run by blast
  have "inserted ([{(1, EIns 1 True None)}, {(1, EIns 1 True None)}] ! 1) 1"
    unfolding inserted_def by force
  then show ?thesis
    by (intro exI [of _ rt] exI [of _ "{(1, EIns 1 True None)}"]
        exI [of _ "[{(1, EIns 1 True None)}, {(1, EIns 1 True None)}]"] conjI run)
      (use embed_reads_chain_order [OF _ run, of 1] in simp_all)
qed

text \<open>C17: intention of an insert. An insert whose id exceeds every id the replica has seen commits,
  and its element is displayed directly after its anchor, or first when it has none; everything else
  keeps its place.\<close>

theorem embed_newest_after_anchor:
  assumes "delivery_run (emb_dt dEnc) emb_honest rt U Es" and "i < length Es"
    and "emb_honest U (Es ! i) (EIns n el anc)" and "\<forall>j. inserted (Es ! i) j \<longrightarrow> j < n"
  shows "\<exists>rt' p q. rt_commit (emb_dt dEnc) i (EIns n el anc) rt = Inr rt' \<and>
    emb_readIds (head_state rt i) = p @ q \<and> emb_readIds (head_state rt' i) = p @ n # q \<and>
    (case anc of None \<Rightarrow> p = [] | Some a \<Rightarrow> p \<noteq> [] \<and> last p = a)"
proof -
  let ?x = "EIns n el anc"
  have y: "dt_prepared (emb_dt dEnc) s ?x = Inr ?x" for s by (simp add: dt_prepared_def emb_dt_def)
  obtain rt' where rt': "rt_commit (emb_dt dEnc) i ?x rt = Inr rt'"
    using emb.commit_succeeds [OF assms(1-3)] by blast
  let ?e = "(d_next (rt_dag rt), ?x)"
  from delivery_run.commit [OF assms(1-3) y rt' refl]
  have run': "delivery_run (emb_dt dEnc) emb_honest rt' (insert ?e U) (Es[i := insert ?e (Es ! i)])" .
  note old = emb.head_represents [OF assms(1,2)] and new = emb.head_represents [OF run', of i]
  have "\<not> inserted U n" and anc: "\<And>a. anc = Some a \<Longrightarrow> inserted (Es ! i) a \<and> \<not> deleted (Es ! i) a \<and> a < n"
    using assms(3) by (cases anc; simp)+
  then have f: "\<not> inserted (Es ! i) n" using inserted_mono old by blast
  have "emb_good (insert ?e U)" "insert ?e (Es ! i) \<subseteq> insert ?e U" "emb_rep dEnc (Es ! i) (head_state rt i)"
    "emb_rep dEnc (insert ?e (Es ! i)) (head_state rt' i)" using old new assms(2) by simp_all
  from elias.newest_insert_place [OF this f anc] assms(4) rt' show ?thesis by blast
qed

theorem embed_newest_after_anchor_witness:
  "\<exists>rt U Es. delivery_run (emb_dt dEnc) emb_honest rt U Es \<and>
    (\<exists>rt' p q. rt_commit (emb_dt dEnc) 1 (EIns 5 False (Some 1)) rt = Inr rt' \<and>
      emb_readIds (head_state rt 1) = p @ q \<and> emb_readIds (head_state rt' 1) = p @ 5 # q \<and>
      p \<noteq> [] \<and> last p = 1)"
proof -
  obtain rt where run: "delivery_run (emb_dt dEnc) emb_honest rt {(1, EIns 1 True None)}
     [{(1, EIns 1 True None)}, {(1, EIns 1 True None)}]" using embed_demo_run by blast
  have "emb_honest {(1, EIns 1 True None)} ([{(1, EIns 1 True None)}, {(1, EIns 1 True None)}] ! 1) (EIns 5 False (Some 1))"
    "\<forall>j. inserted ([{(1, EIns 1 True None)}, {(1, EIns 1 True None)}] ! 1) j \<longrightarrow> j < 5"
    by (auto simp: inserted_def deleted_def)
  note after = embed_newest_after_anchor [OF run _ this]
  show ?thesis
    by (rule exI [of _ rt], rule exI [of _ "{(1, EIns 1 True None)}"],
        rule exI [of _ "[{(1, EIns 1 True None)}, {(1, EIns 1 True None)}]"], rule conjI [OF run]) (use after in simp)
qed

text \<open>The merge is a gated set formula. If some id in both branches has two coordinates the merge
  throws; otherwise it keeps the ids of both branches and those of either branch that the ancestor
  lacks, each with its record unchanged, the first branch's where both have one.\<close>

theorem emb_merge3_spec:
  "case emb_merge3 l a b of
     Inl e \<Rightarrow> e = Error ''coordinate divergence'' \<and> divergent a b
   | Inr m \<Rightarrow> \<not> divergent a b \<and>
      fmlookup m = (\<lambda>i. let inA = i \<in> dom (fmlookup a); inB = i \<in> dom (fmlookup b); inL = i \<in> dom (fmlookup l)
        in if inA \<and> inB \<or> inA \<and> \<not> inL \<or> inB \<and> \<not> inL
           then (if inA then fmlookup a i else fmlookup b i) else None)"
proof -
  have "fmlookup (fm.delta_merge l a b (fm_keys l) (fm_entries b)) =
     (\<lambda>i. let inA = i \<in> dom (fmlookup a); inB = i \<in> dom (fmlookup b); inL = i \<in> dom (fmlookup l)
        in if inA \<and> inB \<or> inA \<and> \<not> inL \<or> inB \<and> \<not> inL
           then (if inA then fmlookup a i else fmlookup b i) else None)"
    by (rule ext) (auto simp: delta_merge_lookup merged_lookup_def Let_def fmlookup_dom'_iff split: option.split)
  then show ?thesis by (simp add: emb_merge3_eq)
qed

end
