(* ===== verification/Rga.thy ===== *)
theory Rga
  imports Mrdt LiveMap DeltaCode
begin

text \<open>
  The tombstone sequence of \<^verbatim>\<open>runtime/src/datatypes/rga.js\<close>: a grow-only map of insertions and a
  grow-only set of removed ids. The display order is one traversal of the tree of anchors with an
  explicit stack. The traversal is given fuel, one unit per known id, and shown never to run out;
  its result is shown to be the reference fold that inserts ids in ascending order, each directly
  after its anchor.
\<close>

section \<open>Operations\<close>

record 'e rrec =
  rr_anchor :: "int option"
  rr_el :: 'e

record 'e rga_state =
  rs_adds :: "(int, 'e rrec) fmap"
  rs_grave :: "int fset"
  rs_order :: "int list option"

datatype 'e rga_op = RIns int 'e "int option" | RDel int | ROther string

definition rga_checkInsert ::
  "(int, 'e rrec) fmap \<Rightarrow> int fset \<Rightarrow> int \<Rightarrow> int option \<Rightarrow> int option res"
where
  "rga_checkInsert adds grave i anchorId =
     (if i < 1 then Inl (Error ''bad fresh id'')
      else if fmlookup adds i \<noteq> None then Inl (Error ''duplicate id/timestamp'')
      else if i |\<in>| grave then Inl (Error ''resurrection'')
      else (case anchorId of
          None \<Rightarrow> Inr None
        | Some a \<Rightarrow>
            if fmlookup adds a = None then Inl (Error ''anchor not known'')
            else if a |\<in>| grave then Inl (Error ''anchor is not live'')
            else if i \<le> a then Inl (Error ''anchor must precede'')
            else Inr (Some a)))"

definition rga_checkDelete :: "(int, 'e rrec) fmap \<Rightarrow> int fset \<Rightarrow> int \<Rightarrow> unit res" where
  "rga_checkDelete adds grave i =
     (if fmlookup adds i = None then Inl (Error ''remove before insertion'')
      else if i |\<in>| grave then Inl (Error ''remove is not live'')
      else Inr ())"

fun rgaApplicable :: "'e rga_state \<Rightarrow> 'e rga_op \<Rightarrow> bool" where
  "rgaApplicable s (RIns i el anc) = is_ok (rga_checkInsert (rs_adds s) (rs_grave s) i anc)"
| "rgaApplicable s (RDel i) = is_ok (rga_checkDelete (rs_adds s) (rs_grave s) i)"
| "rgaApplicable s (ROther ty) = False"

text \<open>Siblings newest first, then a depth-first traversal with a stack.\<close>

definition rga_children :: "(int, 'e rrec) fmap \<Rightarrow> int option \<Rightarrow> int list" where
  "rga_children adds anc =
     sort_by (\<lambda>x y. y < x) (map fst (filter (\<lambda>(_, r). rr_anchor r = anc) (fm_entries adds)))"

fun rga_walk :: "nat \<Rightarrow> (int option \<Rightarrow> int list) \<Rightarrow> int list \<Rightarrow> int list option" where
  "rga_walk fuel ch [] = Some []"
| "rga_walk 0 ch (i # stack) = None"
| "rga_walk (Suc fuel) ch (i # stack) = map_option ((#) i) (rga_walk fuel ch (ch (Some i) @ stack))"

definition orderedIds :: "(int, 'e rrec) fmap \<Rightarrow> int list res" where
  "orderedIds adds =
     (let ch = rga_children adds in
      case rga_walk (fcard (fmdom adds)) ch (ch None) of
        None \<Rightarrow> Inl (Error ''out of fuel'')
      | Some out \<Rightarrow> if length out \<noteq> fcard (fmdom adds)
          then Inl (Error ''RGA state contains an unreachable anchor'') else Inr out)"

definition rga_add_step :: "(int, 'e rrec) fmap \<Rightarrow> int \<times> 'e rrec \<Rightarrow> (int, 'e rrec) fmap \<Rightarrow> (int, 'e rrec) fmap res" where
  "rga_add_step x ir t = (case fmlookup x (fst ir) of
       Some ra \<Rightarrow> if rr_anchor ra \<noteq> rr_anchor (snd ir) \<or> rr_el ra \<noteq> rr_el (snd ir)
         then Inl (Error ''RGA insertion divergence'') else Inr t
     | None \<Rightarrow> Inr (fmupd (fst ir) (snd ir) t))"

definition mergeAdds :: "(int, 'e rrec) fmap \<Rightarrow> (int, 'e rrec) fmap \<Rightarrow> (int, 'e rrec) fmap res" where
  "mergeAdds a b = foldM (rga_add_step a) (fm_entries b) a"

definition mergeGrave :: "int fset \<Rightarrow> int fset \<Rightarrow> int fset" where
  "mergeGrave a b = foldl (\<lambda>t i. finsert i t) a (sorted_list_of_fset b)"

definition rga_init :: "'e rga_state" where
  "rga_init = \<lparr>rs_adds = fmempty, rs_grave = {||}, rs_order = None\<rparr>"

fun rga_prepare :: "'e rga_state \<Rightarrow> 'e rga_op \<Rightarrow> 'e rga_op res" where
  "rga_prepare s (RIns i el anc) =
     rbind (rga_checkInsert (rs_adds s) (rs_grave s) i anc) (\<lambda>anchorId. Inr (RIns i el anchorId))"
| "rga_prepare s (RDel i) = rbind (rga_checkDelete (rs_adds s) (rs_grave s) i) (\<lambda>_. Inr (RDel i))"
| "rga_prepare s (ROther ty) = Inl (Error ''unknown RGA op'')"

definition rga_apply :: "'e rga_state \<Rightarrow> 'e rga_op \<Rightarrow> 'e rga_state res" where
  "rga_apply s raw = rbind (rga_prepare s raw) (\<lambda>op. case op of
       RIns i el anc \<Rightarrow> Inr \<lparr>rs_adds = fmupd i \<lparr>rr_anchor = anc, rr_el = el\<rparr> (rs_adds s),
         rs_grave = rs_grave s, rs_order = None\<rparr>
     | RDel i \<Rightarrow> Inr \<lparr>rs_adds = rs_adds s, rs_grave = finsert i (rs_grave s), rs_order = rs_order s\<rparr>
     | ROther ty \<Rightarrow> Inl (Error ''unknown RGA op''))"

fun rga_batch_step :: "'e rga_op \<Rightarrow> (int, 'e rrec) fmap \<times> int fset \<Rightarrow> ((int, 'e rrec) fmap \<times> int fset) res" where
  "rga_batch_step (RIns i el anc) (adds, grave) =
     rbind (rga_checkInsert adds grave i anc) (\<lambda>anchorId.
       Inr (fmupd i \<lparr>rr_anchor = anchorId, rr_el = el\<rparr> adds, grave))"
| "rga_batch_step (RDel i) (adds, grave) =
     rbind (rga_checkDelete adds grave i) (\<lambda>_. Inr (adds, finsert i grave))"
| "rga_batch_step (ROther ty) t = Inl (Error ''unknown RGA op'')"

definition rga_applyBatch :: "'e rga_state \<Rightarrow> 'e rga_op list \<Rightarrow> 'e rga_state res" where
  "rga_applyBatch s ops = rbind (foldM rga_batch_step ops (rs_adds s, rs_grave s)) (\<lambda>(adds, grave).
     Inr \<lparr>rs_adds = adds, rs_grave = grave, rs_order = None\<rparr>)"

definition rga_merge3 :: "'e rga_state \<Rightarrow> 'e rga_state \<Rightarrow> 'e rga_state \<Rightarrow> 'e rga_state res" where
  "rga_merge3 l a b = rbind (mergeAdds (rs_adds a) (rs_adds b)) (\<lambda>adds.
     Inr \<lparr>rs_adds = adds, rs_grave = mergeGrave (rs_grave a) (rs_grave b), rs_order = None\<rparr>)"

definition rga_readEntries :: "'e rga_state \<Rightarrow> (int \<times> 'e rrec) list res" where
  "rga_readEntries s =
     rbind (case rs_order s of Some order \<Rightarrow> Inr order | None \<Rightarrow> orderedIds (rs_adds s)) (\<lambda>order.
       Inr (map (\<lambda>i. (i, the (fmlookup (rs_adds s) i))) (filter (\<lambda>i. i |\<notin>| rs_grave s) order)))"

definition rga_readIds :: "'e rga_state \<Rightarrow> int list res" where
  "rga_readIds s = rbind (rga_readEntries s) (\<lambda>es. Inr (map fst es))"

definition rga_read :: "'e rga_state \<Rightarrow> 'e list res" where
  "rga_read s = rbind (rga_readEntries s) (\<lambda>es. Inr (map (\<lambda>(_, r). rr_el r) es))"

definition rga_has :: "'e rga_state \<Rightarrow> int \<Rightarrow> bool" where
  "rga_has s i \<longleftrightarrow> fmlookup (rs_adds s) i \<noteq> None \<and> i |\<notin>| rs_grave s"

definition rga_symbolCount :: "'e rga_state \<Rightarrow> nat" where
  "rga_symbolCount s = fcard (fmdom (rs_adds s)) + fcard (rs_grave s)"

definition rga_liveCount :: "'e rga_state \<Rightarrow> int" where
  "rga_liveCount s = int (fcard (fmdom (rs_adds s))) - int (fcard (rs_grave s))"

definition rga_dt :: "('e rga_op, 'e rga_state, unit, 'e list res) dtype" where
  "rga_dt = \<lparr>dt_init = rga_init, dt_prepare = Some rga_prepare, dt_apply = rga_apply,
     dt_merge3 = rga_merge3, dt_read = rga_read, dt_compact = None, dt_remapState = None,
     dt_ins_id = (\<lambda>x. case x of RIns i _ _ \<Rightarrow> Some i | _ \<Rightarrow> None)\<rparr>"

section \<open>The traversal\<close>

text \<open>The path of an id from the root, and the order of paths.\<close>

inductive apath :: "(int, 'e rrec) fmap \<Rightarrow> int \<Rightarrow> int list \<Rightarrow> bool" for adds where
  root: "fmlookup adds i = Some r \<Longrightarrow> rr_anchor r = None \<Longrightarrow> apath adds i [i]"
| child: "fmlookup adds i = Some r \<Longrightarrow> rr_anchor r = Some a \<Longrightarrow> apath adds a p \<Longrightarrow> apath adds i (p @ [i])"

inductive_cases apath_cases: "apath adds i p"

lemma apath_fun: "apath adds i p \<Longrightarrow> apath adds i q \<Longrightarrow> q = p"
proof (induction arbitrary: q rule: apath.induct)
  case (root i r)
  then show ?case by (auto elim: apath_cases)
next
  case (child i r a p)
  from child.prems obtain p' where "apath adds a p'" "q = p' @ [i]"
    using child.hyps by (cases rule: apath_cases) auto
  with child.IH show ?case by simp
qed

lemma apath_last: "apath adds i p \<Longrightarrow> p \<noteq> [] \<and> last p = i"
  by (induction rule: apath.induct) auto

lemma apath_known: "apath adds i p \<Longrightarrow> \<exists>r. fmlookup adds i = Some r"
  by (induction rule: apath.induct) auto

lemma rga_children_spec:
  shows "set (rga_children adds anc) = {i. \<exists>r. fmlookup adds i = Some r \<and> rr_anchor r = anc}"
    and "distinct (rga_children adds anc)" and "sorted_wrt (\<lambda>x y. y < x) (rga_children adds anc)"
proof -
  let ?xs = "filter (\<lambda>(_, r). rr_anchor r = anc) (fm_entries adds)"
  have "distinct (map fst ?xs)" by (rule distinct_map_filter) simp
  then show d: "distinct (rga_children adds anc)" by (simp add: rga_children_def)
  have "total_on (\<lambda>x y. y < x) A" for A :: "int set" by (auto simp: total_on_def)
  with \<open>distinct (map fst ?xs)\<close> show "sorted_wrt (\<lambda>x y. y < x) (rga_children adds anc)"
    unfolding rga_children_def by (intro sorted_sort_by)
  have e: "x \<in> set (fm_entries adds) \<longleftrightarrow> fmlookup adds (fst x) = Some (snd x)" for x
    using fm_entries_iff [of "fst x" "snd x" adds] by simp
  show "set (rga_children adds anc) = {i. \<exists>r. fmlookup adds i = Some r \<and> rr_anchor r = anc}"
    unfolding rga_children_def set_sort_by by (auto simp: e image_iff)
qed

text \<open>
  The invariant of the loop, with \<open>out\<close> the ids already written: nothing is repeated, an id
  is reached through its anchor, and every child of a written id is on the stack or written.
\<close>

definition walk_inv :: "(int, 'e rrec) fmap \<Rightarrow> int list \<Rightarrow> int list \<Rightarrow> bool" where
  "walk_inv adds out stack \<longleftrightarrow> distinct (out @ stack) \<and>
     (\<forall>i \<in> set (out @ stack). \<exists>r. fmlookup adds i = Some r \<and>
        (case rr_anchor r of None \<Rightarrow> True | Some a \<Rightarrow> a \<in> set out) \<and> (\<exists>p. apath adds i p)) \<and>
     (\<forall>i r. fmlookup adds i = Some r \<longrightarrow>
        (case rr_anchor r of None \<Rightarrow> True | Some a \<Rightarrow> a \<in> set out) \<longrightarrow> i \<in> set (out @ stack))"

lemma walk_inv_start: "walk_inv adds [] (rga_children adds None)"
  unfolding walk_inv_def
proof (intro conjI ballI allI impI)
  show "distinct ([] @ rga_children adds None)" by (simp add: rga_children_spec)
next
  fix i
  assume "i \<in> set ([] @ rga_children adds None)"
  then obtain r where r: "fmlookup adds i = Some r" "rr_anchor r = None" by (auto simp: rga_children_spec)
  then have "apath adds i [i]" by (rule apath.root)
  with r show "\<exists>r. fmlookup adds i = Some r \<and>
        (case rr_anchor r of None \<Rightarrow> True | Some a \<Rightarrow> a \<in> set []) \<and> (\<exists>p. apath adds i p)" by auto
next
  fix i r
  assume "fmlookup adds i = Some r" "case rr_anchor r of None \<Rightarrow> True | Some a \<Rightarrow> a \<in> set []"
  then show "i \<in> set ([] @ rga_children adds None)"
    by (auto simp: rga_children_spec split: option.splits)
qed

lemma walk_inv_step:
  assumes inv: "walk_inv adds out (i # stack)"
  shows "walk_inv adds (out @ [i]) (rga_children adds (Some i) @ stack)"
proof -
  let ?ch = "rga_children adds (Some i)"
  have d: "distinct (out @ i # stack)"
    and known: "\<And>j. j \<in> set (out @ i # stack) \<Longrightarrow> \<exists>r. fmlookup adds j = Some r \<and>
        (case rr_anchor r of None \<Rightarrow> True | Some a \<Rightarrow> a \<in> set out) \<and> (\<exists>p. apath adds j p)"
    and closed: "\<And>j r. fmlookup adds j = Some r \<Longrightarrow>
        (case rr_anchor r of None \<Rightarrow> True | Some a \<Rightarrow> a \<in> set out) \<Longrightarrow> j \<in> set (out @ i # stack)"
    using inv unfolding walk_inv_def by blast+
  have new: "j \<notin> set (out @ i # stack)" if j: "j \<in> set ?ch" for j
  proof
    assume "j \<in> set (out @ i # stack)"
    with known obtain r where "fmlookup adds j = Some r"
      "case rr_anchor r of None \<Rightarrow> True | Some a \<Rightarrow> a \<in> set out" by blast
    with j d show False by (auto simp: rga_children_spec)
  qed
  obtain p where p: "apath adds i p" using known [of i] by auto
  show ?thesis
    unfolding walk_inv_def
  proof (intro conjI ballI allI impI)
    show "distinct ((out @ [i]) @ ?ch @ stack)"
      using d new by (auto simp: rga_children_spec(2))
  next
    fix j
    assume j: "j \<in> set ((out @ [i]) @ ?ch @ stack)"
    show "\<exists>r. fmlookup adds j = Some r \<and>
        (case rr_anchor r of None \<Rightarrow> True | Some a \<Rightarrow> a \<in> set (out @ [i])) \<and> (\<exists>p. apath adds j p)"
    proof (cases "j \<in> set ?ch")
      case True
      then obtain r where r: "fmlookup adds j = Some r" "rr_anchor r = Some i" by (auto simp: rga_children_spec)
      from apath.child [OF r p] r show ?thesis by auto
    next
      case False
      with j have "j \<in> set (out @ i # stack)" by auto
      from known [OF this] show ?thesis by (fastforce split: option.splits)
    qed
  next
    fix j r
    assume r: "fmlookup adds j = Some r" "case rr_anchor r of None \<Rightarrow> True | Some a \<Rightarrow> a \<in> set (out @ [i])"
    show "j \<in> set ((out @ [i]) @ ?ch @ stack)"
    proof (cases "rr_anchor r = Some i")
      case True
      with r(1) show ?thesis by (auto simp: rga_children_spec)
    next
      case False
      with r have "case rr_anchor r of None \<Rightarrow> True | Some a \<Rightarrow> a \<in> set out" by (auto split: option.splits)
      from closed [OF r(1) this] show ?thesis by auto
    qed
  qed
qed

text \<open>The fuel is enough, and the traversal writes exactly the ids that hang off the root.\<close>

lemma walk_inv_length:
  assumes "walk_inv adds out stack"
  shows "length (out @ stack) \<le> fcard (fmdom adds)"
proof -
  have "set (out @ stack) \<subseteq> fset (fmdom adds)"
  proof
    fix x
    assume "x \<in> set (out @ stack)"
    then obtain r where "fmlookup adds x = Some r" using assms unfolding walk_inv_def by blast
    then show "x \<in> fset (fmdom adds)" by (rule fmdomI)
  qed
  then have "card (set (out @ stack)) \<le> card (fset (fmdom adds))" by (simp add: card_mono)
  then show ?thesis using assms unfolding walk_inv_def fcard.rep_eq by (metis distinct_card)
qed

lemma rga_walk_inv:
  "walk_inv adds out stack \<Longrightarrow> fcard (fmdom adds) \<le> fuel + length out \<Longrightarrow>
   \<exists>xs. rga_walk fuel (rga_children adds) stack = Some xs \<and> walk_inv adds (out @ xs) []"
proof (induction fuel "rga_children adds" stack arbitrary: out rule: rga_walk.induct)
  case (1 fuel)
  then show ?case by (intro exI [of _ "[]"]) simp
next
  case (2 i stack)
  with walk_inv_length [OF 2(1)] show ?case by simp
next
  case (3 fuel i stack)
  have "fcard (fmdom adds) \<le> fuel + length (out @ [i])" using 3(3) by simp
  from 3(1) [OF walk_inv_step [OF 3(2)] this] show ?case by auto
qed

definition hangs :: "(int, 'e rrec) fmap \<Rightarrow> int \<Rightarrow> bool" where
  "hangs adds i \<longleftrightarrow> (\<exists>p. apath adds i p)"

lemma walk_inv_end: "walk_inv adds xs [] \<Longrightarrow> set xs = {i. hangs adds i}"
proof (intro equalityI subsetI)
  fix i
  assume inv: "walk_inv adds xs []"
  show "i \<in> set xs \<Longrightarrow> i \<in> {i. hangs adds i}" using inv unfolding walk_inv_def hangs_def by auto
  assume "i \<in> {i. hangs adds i}"
  then obtain p where "apath adds i p" by (auto simp: hangs_def)
  then show "i \<in> set xs"
    by (induction rule: apath.induct) (use inv in \<open>auto simp: walk_inv_def\<close>)
qed

section \<open>The order of the traversal\<close>

definition on_paths :: "(int, 'e rrec) fmap \<Rightarrow> (int list \<Rightarrow> int list \<Rightarrow> bool) \<Rightarrow> int \<Rightarrow> int \<Rightarrow> bool" where
  "on_paths adds R i j \<longleftrightarrow> (\<exists>p q. apath adds i p \<and> apath adds j q \<and> R p q)"

abbreviation displayed_before :: "(int, 'e rrec) fmap \<Rightarrow> int \<Rightarrow> int \<Rightarrow> bool" where
  "displayed_before adds \<equiv> on_paths adds chain_before"

definition diverge :: "'a::linorder list \<Rightarrow> 'a list \<Rightarrow> bool" where
  "diverge p q \<longleftrightarrow> (\<exists>c a b p' q'. p = c @ a # p' \<and> q = c @ b # q' \<and> b < a)"

lemma diverge_append: "diverge p q \<Longrightarrow> diverge (p @ u) (q @ v)"
  unfolding diverge_def by (metis append_Cons append_assoc)

lemma diverge_appendL: "diverge p q \<Longrightarrow> diverge (p @ u) q"
  using diverge_append [of p q u "[]"] by simp

lemma diverge_appendR: "diverge p q \<Longrightarrow> diverge p (q @ v)"
  using diverge_append [of p q "[]" v] by simp

lemma diverge_before: "diverge p q \<Longrightarrow> chain_before p q"
proof -
  have "chain_before (c @ a # p') (c @ b # q')" if "b < a" for c p' q' :: "'a list" and a b
    using that by (induction c) auto
  then show "diverge p q \<Longrightarrow> chain_before p q" by (auto simp: diverge_def)
qed

definition above :: "'a::linorder list \<Rightarrow> 'a list \<Rightarrow> bool" where
  "above p q \<longleftrightarrow> strict_prefix p q \<or> diverge p q"

lemma prefix_before: "strict_prefix p q \<Longrightarrow> chain_before p q"
proof -
  have "chain_before c (c @ a # p')" for c p' :: "'a::linorder list" and a by (induction c) auto
  moreover assume "strict_prefix p q"
  then obtain z zs where "q = p @ z # zs" by (metis strict_prefixE')
  ultimately show "chain_before p q" by simp
qed

lemma above_before: "above p q \<Longrightarrow> chain_before p q"
  using diverge_before prefix_before by (auto simp: above_def)

lemma above_append: "above p q \<Longrightarrow> above p (q @ v)"
  using diverge_append [of p q "[]" v]
  by (auto simp: above_def strict_prefix_def prefix_def)

lemma on_paths_mono: "on_paths adds R i j \<Longrightarrow> (\<And>p q. R p q \<Longrightarrow> S p q) \<Longrightarrow> on_paths adds S i j"
  unfolding on_paths_def by blast

lemma on_paths_iff:
  "apath adds i p \<Longrightarrow> apath adds j q \<Longrightarrow> on_paths adds R i j \<longleftrightarrow> R p q"
  unfolding on_paths_def using apath_fun by blast

definition walk_order :: "(int, 'e rrec) fmap \<Rightarrow> int list \<Rightarrow> int list \<Rightarrow> bool" where
  "walk_order adds out stack \<longleftrightarrow> sorted_wrt (displayed_before adds) out \<and>
     (\<forall>x \<in> set out. \<forall>y \<in> set stack. on_paths adds above x y) \<and>
     sorted_wrt (on_paths adds diverge) stack"

lemma children_path:
  "apath adds i p \<Longrightarrow> j \<in> set (rga_children adds (Some i)) \<Longrightarrow> apath adds j (p @ [j])"
  by (auto simp: rga_children_spec intro: apath.child)

lemma siblings_diverge:
  assumes "\<And>j. j \<in> set xs \<Longrightarrow> apath adds j (p @ [j])" and "sorted_wrt (\<lambda>x y. y < x) xs"
  shows "sorted_wrt (on_paths adds diverge) xs"
  using assms(2)
proof (rule sorted_wrt_mono_rel [rotated])
  fix x y
  assume "x \<in> set xs" "y \<in> set xs" "y < x"
  moreover from this have "diverge (p @ [x]) (p @ [y])" unfolding diverge_def by blast
  ultimately show "on_paths adds diverge x y" using assms(1) unfolding on_paths_def by blast
qed

lemma walk_order_step:
  assumes inv: "walk_inv adds out (i # stack)" and ord: "walk_order adds out (i # stack)"
  shows "walk_order adds (out @ [i]) (rga_children adds (Some i) @ stack)"
proof -
  let ?ch = "rga_children adds (Some i)"
  obtain p where p: "apath adds i p" using inv unfolding walk_inv_def by auto
  have ch: "apath adds j (p @ [j])" if "j \<in> set ?ch" for j by (rule children_path [OF p that])
  have o: "sorted_wrt (displayed_before adds) out" "\<And>x y. x \<in> set out \<Longrightarrow> y \<in> set (i # stack) \<Longrightarrow> on_paths adds above x y"
    "\<And>y. y \<in> set stack \<Longrightarrow> on_paths adds diverge i y" "sorted_wrt (on_paths adds diverge) stack"
    using ord unfolding walk_order_def by auto
  show ?thesis
    unfolding walk_order_def
  proof (intro conjI ballI)
    show "sorted_wrt (displayed_before adds) (out @ [i])"
    proof -
      have "displayed_before adds x i" if "x \<in> set out" for x
        by (rule on_paths_mono [OF o(2) [OF that]]) (simp, erule above_before)
      then show ?thesis using o(1) by (simp add: sorted_wrt_append)
    qed
  next
    fix x y
    assume x: "x \<in> set (out @ [i])" and y: "y \<in> set (?ch @ stack)"
    show "on_paths adds above x y"
    proof (cases "x = i")
      case True
      then show ?thesis
        using y ch on_paths_iff [OF p ch] on_paths_mono [OF o(3), of y above]
        by (auto simp: above_def strict_prefix_def)
    next
      case False
      with x have x: "x \<in> set out" by auto
      show ?thesis
      proof (cases "y \<in> set ?ch")
        case True
        obtain px where px: "apath adds x px" "above px p"
        proof -
          obtain px q where "apath adds x px" "apath adds i q" "above px q"
            using o(2) [OF x, of i] unfolding on_paths_def by (meson list.set_intros(1))
          with that apath_fun [OF p] show ?thesis by blast
        qed
        then show ?thesis unfolding on_paths_iff [OF px(1) ch [OF True]] by (intro above_append)
      next
        case False
        with y o(2) [OF x] show ?thesis by auto
      qed
    qed
  next
    have "sorted_wrt (on_paths adds diverge) ?ch"
      by (rule siblings_diverge [OF ch]) (simp_all add: rga_children_spec)
    moreover have "on_paths adds diverge x y" if xc: "x \<in> set ?ch" and ys: "y \<in> set stack" for x y
    proof -
      obtain q where q: "apath adds y q" "diverge p q"
        using o(3) [OF ys] apath_fun [OF p] unfolding on_paths_def by blast
      then show ?thesis unfolding on_paths_iff [OF ch [OF xc] q(1)] by (intro diverge_appendL)
    qed
    ultimately show "sorted_wrt (on_paths adds diverge) (?ch @ stack)"
      using o(4) by (auto simp: sorted_wrt_append)
  qed
qed

lemma rga_walk_order:
  "walk_inv adds out stack \<Longrightarrow> walk_order adds out stack \<Longrightarrow> rga_walk fuel (rga_children adds) stack = Some xs \<Longrightarrow>
   sorted_wrt (displayed_before adds) (out @ xs)"
proof (induction fuel "rga_children adds" stack arbitrary: out xs rule: rga_walk.induct)
  case (1 fuel)
  then show ?case by (simp add: walk_order_def)
next
  case (3 fuel i stack)
  then obtain ys where ys: "rga_walk fuel (rga_children adds) (rga_children adds (Some i) @ stack) = Some ys"
    "xs = i # ys" by auto
  from 3(1) [OF walk_inv_step [OF 3(2)] walk_order_step [OF 3(2,3)] ys(1)] ys(2) show ?case by simp
qed simp

lemma walk_order_start: "walk_order adds [] (rga_children adds None)"
proof -
  have "apath adds j ([] @ [j])" if "j \<in> set (rga_children adds None)" for j
    using that by (auto simp: rga_children_spec intro: apath.root)
  then have "sorted_wrt (on_paths adds diverge) (rga_children adds None)"
    by (rule siblings_diverge) (assumption | rule rga_children_spec(3))+
  then show ?thesis by (simp add: walk_order_def)
qed

text \<open>What \<open>orderedIds\<close> returns.\<close>

lemma orderedIds_cases:
  obtains xs where "rga_walk (fcard (fmdom adds)) (rga_children adds) (rga_children adds None) = Some xs"
    "distinct xs" "set xs = {i. hangs adds i}" "sorted_wrt (displayed_before adds) xs"
    "orderedIds adds = (if \<forall>i \<in> dom (fmlookup adds). hangs adds i then Inr xs
       else Inl (Error ''RGA state contains an unreachable anchor''))"
proof -
  obtain xs where xs: "rga_walk (fcard (fmdom adds)) (rga_children adds) (rga_children adds None) = Some xs"
    "walk_inv adds xs []"
    using rga_walk_inv [OF walk_inv_start, of adds "fcard (fmdom adds)"] by auto
  have d: "distinct xs" using xs(2) by (simp add: walk_inv_def)
  have s: "set xs = {i. hangs adds i}" by (rule walk_inv_end [OF xs(2)])
  have sub: "set xs \<subseteq> fset (fmdom adds)"
    unfolding s hangs_def using apath_known by (fastforce intro: fmdomI)
  have "length xs = fcard (fmdom adds) \<longleftrightarrow> set xs = fset (fmdom adds)"
    using d sub by (metis card_subset_eq distinct_card fcard.rep_eq finite_fset)
  also have "\<dots> \<longleftrightarrow> (\<forall>i \<in> fset (fmdom adds). hangs adds i)" using s sub by blast
  finally have "orderedIds adds = (if \<forall>i \<in> dom (fmlookup adds). hangs adds i then Inr xs
       else Inl (Error ''RGA state contains an unreachable anchor''))"
    using xs(1) by (simp add: orderedIds_def Let_def fmdom.rep_eq)
  with that [OF xs(1) d s] rga_walk_order [OF walk_inv_start walk_order_start xs(1)] show ?thesis by simp
qed

section \<open>The reference fold\<close>

text \<open>
  The ids in ascending order, each inserted directly after its anchor, or in front.
\<close>

fun insert_after :: "int option \<Rightarrow> int \<Rightarrow> int list \<Rightarrow> int list" where
  "insert_after None i xs = i # xs"
| "insert_after (Some a) i [] = []"
| "insert_after (Some a) i (x # xs) = (if x = a then x # i # xs else x # insert_after (Some a) i xs)"

definition reference_order :: "(int, 'e rrec) fmap \<Rightarrow> int list" where
  "reference_order adds =
     foldl (\<lambda>xs (i, r). insert_after (rr_anchor r) i xs) [] (fm_entries adds)"

text \<open>Every anchor is known and precedes its child.\<close>

definition anchored :: "(int, 'e rrec) fmap \<Rightarrow> bool" where
  "anchored adds \<longleftrightarrow> (\<forall>i r a. fmlookup adds i = Some r \<longrightarrow> rr_anchor r = Some a \<longrightarrow>
     a < i \<and> fmlookup adds a \<noteq> None) \<and> (\<forall>i r. fmlookup adds i = Some r \<longrightarrow> 1 \<le> i)"

lemma anchored_hangs:
  assumes "anchored adds" and "fmlookup adds i = Some r"
  shows "\<exists>p. apath adds i p \<and> (\<forall>x \<in> set p. x \<le> i)"
  using assms(2)
proof (induction "nat i" arbitrary: i r rule: less_induct)
  case less
  show ?case
  proof (cases "rr_anchor r")
    case None
    with apath.root [OF less.prems] show ?thesis by auto
  next
    case (Some a)
    then obtain r' where a: "a < i" "fmlookup adds a = Some r'" "1 \<le> i"
      using assms(1) less.prems unfolding anchored_def by blast
    then obtain p where p: "apath adds a p" "\<forall>x \<in> set p. x \<le> a" using less.hyps [of a r'] by auto
    with apath.child [OF less.prems Some p(1)] a(1) show ?thesis by fastforce
  qed
qed

lemma insert_after_split:
  assumes "a \<notin> set p"
  shows "insert_after (Some a) i (p @ a # q) = p @ a # i # q"
  using assms by (induction p) auto

lemma displayed_total:
  assumes "\<And>i. i \<in> A \<Longrightarrow> hangs adds i"
  shows "total_on (displayed_before adds) A"
  unfolding total_on_def
proof (intro conjI ballI impI)
  fix i j
  assume ij: "i \<in> A" "j \<in> A"
  then obtain p q where pq: "apath adds i p" "apath adds j q" using assms unfolding hangs_def by blast
  note o = on_paths_iff [OF pq] on_paths_iff [OF pq(2,1)]
  show "i \<noteq> j \<Longrightarrow> displayed_before adds i j \<or> displayed_before adds j i"
    unfolding o using chain_before_total [of p q] apath_last pq by blast
  show "displayed_before adds i j \<Longrightarrow> \<not> displayed_before adds j i" unfolding o by (rule chain_before_asym)
  fix k
  assume "k \<in> A" "displayed_before adds i j" "displayed_before adds j k"
  then show "displayed_before adds i k"
    unfolding on_paths_def using chain_before_trans apath_fun by blast
qed

text \<open>Inserting a largest id after its anchor keeps the display order.\<close>

lemma insert_newest:
  assumes adds: "fmlookup adds i = Some r" "anchored adds"
    and xs: "sorted_wrt (displayed_before adds) xs" "distinct xs"
    and small: "\<And>x. x \<in> set xs \<Longrightarrow> x < i \<and> fmlookup adds x \<noteq> None"
    and anc: "\<And>a. rr_anchor r = Some a \<Longrightarrow> a \<in> set xs"
  shows "sorted_wrt (displayed_before adds) (insert_after (rr_anchor r) i xs) \<and>
    set (insert_after (rr_anchor r) i xs) = insert i (set xs) \<and> distinct (insert_after (rr_anchor r) i xs)"
proof -
  have path: "\<exists>q. apath adds x q \<and> (\<forall>y \<in> set q. y < i)" if "x \<in> set xs" for x
    using anchored_hangs [OF adds(2)] small [OF that] by fastforce
  have place: "(displayed_before adds x i \<longleftrightarrow> q = as \<or> chain_before q as) \<and> (displayed_before adds i x \<longleftrightarrow> chain_before as q)"
    if x: "x \<in> set xs" "apath adds x q" and i: "apath adds i (as @ [i])" for x q as
  proof -
    have "\<forall>y \<in> set q. y < i" using path [OF x(1)] apath_fun [OF x(2)] by blast
    then have n: "c < i" if "q = as @ c # cs" for c cs using that by simp
    show ?thesis
      unfolding on_paths_iff [OF x(2) i] on_paths_iff [OF i x(2)] by (intro conjI chain_newest_child n)
  qed
  have ix: "i \<notin> set xs" using small by blast
  show ?thesis
  proof (cases "rr_anchor r")
    case None
    then have i: "apath adds i ([] @ [i])" using apath.root [OF adds(1)] by simp
    have "displayed_before adds i x" if x: "x \<in> set xs" for x
    proof -
      obtain q where q: "apath adds x q" using path [OF x] by blast
      then have "chain_before [] q" using apath_last [OF q] by (cases q) auto
      then show ?thesis using place [OF x q i] by blast
    qed
    then show ?thesis using None xs ix by simp
  next
    case (Some a)
    then have a: "a \<in> set xs" by (rule anc)
    then obtain as where as: "apath adds a as" using path by blast
    have i: "apath adds i (as @ [i])" by (rule apath.child [OF adds(1) Some as])
    obtain p q where pq: "xs = p @ a # q" "a \<notin> set p" using a by (meson split_list_first)
    have "displayed_before adds x i" if x: "x \<in> set (p @ [a])" for x
    proof -
      have l: "x \<in> set xs" using x pq by auto
      then obtain qx where qx: "apath adds x qx" using path by blast
      have "x = a \<or> displayed_before adds x a" using x xs(1) pq by (auto simp: sorted_wrt_append)
      then have "qx = as \<or> chain_before qx as"
        using apath_fun [OF as] qx on_paths_iff [OF qx as, of chain_before] by blast
      then show ?thesis using place [OF l qx i] by blast
    qed
    moreover have "displayed_before adds i x" if x: "x \<in> set q" for x
    proof -
      have l: "x \<in> set xs" using x pq by auto
      then obtain qx where qx: "apath adds x qx" using path by blast
      have "displayed_before adds a x" using x xs(1) pq by (auto simp: sorted_wrt_append)
      then show ?thesis using place [OF l qx i] on_paths_iff [OF as qx, of chain_before] by blast
    qed
    moreover have "insert_after (Some a) i xs = p @ a # i # q" using insert_after_split [OF pq(2)] pq(1) by simp
    ultimately show ?thesis using Some xs pq(1) ix by (auto simp: sorted_wrt_append)
  qed
qed

lemma reference_fold:
  assumes adds: "anchored adds"
  shows "es @ rest = fm_entries adds \<Longrightarrow>
    sorted_wrt (displayed_before adds) (foldl (\<lambda>xs (i, r). insert_after (rr_anchor r) i xs) [] es) \<and>
    set (foldl (\<lambda>xs (i, r). insert_after (rr_anchor r) i xs) [] es) = fst ` set es \<and>
    distinct (foldl (\<lambda>xs (i, r). insert_after (rr_anchor r) i xs) [] es)"
proof (induction es arbitrary: rest rule: rev_induct)
  case (snoc ir es)
  obtain i r where ir: "ir = (i, r)" by force
  let ?xs = "foldl (\<lambda>xs (i, r). insert_after (rr_anchor r) i xs) [] es"
  have IH: "sorted_wrt (displayed_before adds) ?xs" "set ?xs = fst ` set es" "distinct ?xs"
    using snoc.IH [of "ir # rest"] snoc.prems by simp_all
  have srt: "sorted_wrt (<) (map fst (es @ ir # rest))"
    using snoc.prems by (simp add: fm_keys_sorted)
  have keys: "set (map fst (es @ ir # rest)) = dom (fmlookup adds)"
    using snoc.prems by (simp add: set_fm_keys)
  have lk: "fmlookup adds i = Some r"
    using snoc.prems ir fm_entries_iff [of i r adds] by (metis append_assoc append_Cons append_Nil in_set_conv_decomp)
  have small: "x < i \<and> fmlookup adds x \<noteq> None" if "x \<in> set ?xs" for x
  proof -
    have "x \<in> dom (fmlookup adds)" unfolding keys [symmetric] using that IH(2) by auto
    moreover have "x < i" using that srt IH(2) ir by (auto simp: sorted_wrt_append)
    ultimately show ?thesis unfolding domIff by blast
  qed
  have anc: "a \<in> set ?xs" if "rr_anchor r = Some a" for a
  proof -
    from adds lk that have "a < i" "a \<in> dom (fmlookup adds)" unfolding anchored_def domIff by blast+
    then have "a \<in> set (map fst (es @ ir # rest))" unfolding keys by blast
    with \<open>a < i\<close> srt ir IH(2) show ?thesis by (auto simp: sorted_wrt_append)
  qed
  from insert_newest [OF lk adds IH(1,3) small anc] IH(2) show ?case by (simp add: ir)
qed simp

lemma orderedIds_reference:
  assumes "anchored adds"
  shows "orderedIds adds = Inr (reference_order adds) \<and> sorted_wrt (displayed_before adds) (reference_order adds) \<and>
    set (reference_order adds) = dom (fmlookup adds) \<and> distinct (reference_order adds)"
proof -
  have h: "\<forall>i \<in> dom (fmlookup adds). hangs adds i"
    using anchored_hangs [OF assms] unfolding hangs_def by blast
  have "fst ` set (fm_entries adds) = dom (fmlookup adds)"
    unfolding set_map [symmetric] map_fst_fm_entries by (rule set_fm_keys)
  then have r: "sorted_wrt (displayed_before adds) (reference_order adds)"
    "set (reference_order adds) = dom (fmlookup adds)" "distinct (reference_order adds)"
    using reference_fold [OF assms, of "fm_entries adds" "[]"] unfolding reference_order_def append_Nil2 by metis+
  from orderedIds_cases obtain xs where xs: "distinct xs" "set xs = {i. hangs adds i}"
    "sorted_wrt (displayed_before adds) xs"
    "orderedIds adds = (if \<forall>i \<in> dom (fmlookup adds). hangs adds i then Inr xs
       else Inl (Error ''RGA state contains an unreachable anchor''))" by blast
  have "{i. hangs adds i} = dom (fmlookup adds)"
    using h apath_known unfolding hangs_def by blast
  then have "xs = reference_order adds"
    by (intro sorted_unique [OF displayed_total [of _ adds] xs(3) r(1) _ xs(1) r(3)]) (use xs(2) r(2) in auto)
  with xs(4) h r show ?thesis by simp
qed

section \<open>The contract\<close>

definition rga_ins :: "'e rga_op event set \<Rightarrow> int \<Rightarrow> 'e rrec \<Rightarrow> bool" where
  "rga_ins E i r \<longleftrightarrow> (\<exists>k. (k, RIns i (rr_el r) (rr_anchor r)) \<in> E)"

definition rga_del :: "'e rga_op event set \<Rightarrow> int \<Rightarrow> bool" where
  "rga_del E i \<longleftrightarrow> (\<exists>k. (k, RDel i) \<in> E)"

definition rga_good :: "'e rga_op event set \<Rightarrow> bool" where
  "rga_good U \<longleftrightarrow> (\<forall>i r r'. rga_ins U i r \<longrightarrow> rga_ins U i r' \<longrightarrow> r = r')"

definition rga_rep :: "'e rga_op event set \<Rightarrow> 'e rga_state \<Rightarrow> bool" where
  "rga_rep E s \<longleftrightarrow> (\<forall>i r. fmlookup (rs_adds s) i = Some r \<longleftrightarrow> rga_ins E i r) \<and>
     (\<forall>i. i |\<in>| rs_grave s \<longleftrightarrow> rga_del E i) \<and> (\<forall>i. rga_del E i \<longrightarrow> (\<exists>r. rga_ins E i r)) \<and>
     anchored (rs_adds s) \<and> rs_order s = None"

text \<open>
  An honest insert mints an id no replica has inserted, above a live anchor; an honest removal
  names a live id. These are the source's own guards, with the freshness taken over all replicas.
\<close>

fun rga_honest :: "'e rga_op event set \<Rightarrow> 'e rga_op event set \<Rightarrow> 'e rga_op \<Rightarrow> bool" where
  "rga_honest U E (RIns i el anc) \<longleftrightarrow> 1 \<le> i \<and> (\<forall>r. \<not> rga_ins U i r) \<and>
     (case anc of None \<Rightarrow> True | Some a \<Rightarrow> a < i \<and> (\<exists>r. rga_ins E a r) \<and> \<not> rga_del E a)"
| "rga_honest U E (RDel i) \<longleftrightarrow> (\<exists>r. rga_ins E i r) \<and> \<not> rga_del E i"
| "rga_honest U E (ROther ty) \<longleftrightarrow> False"

lemma rga_events_insert [simp]:
  "rga_ins (insert (k, RIns i el anc) E) j r \<longleftrightarrow> (j = i \<and> r = \<lparr>rr_anchor = anc, rr_el = el\<rparr>) \<or> rga_ins E j r"
  "rga_ins (insert (k, RDel i) E) j r \<longleftrightarrow> rga_ins E j r"
  "rga_del (insert (k, RIns i el anc) E) j \<longleftrightarrow> rga_del E j"
  "rga_del (insert (k, RDel i) E) j \<longleftrightarrow> j = i \<or> rga_del E j"
  by (cases r; auto simp: rga_ins_def rga_del_def)+

lemma rga_events_Un [simp]:
  "rga_ins (A \<union> B) i r \<longleftrightarrow> rga_ins A i r \<or> rga_ins B i r" "rga_del (A \<union> B) i \<longleftrightarrow> rga_del A i \<or> rga_del B i"
  by (auto simp: rga_ins_def rga_del_def)

lemma rga_events_mono:
  "A \<subseteq> B \<Longrightarrow> rga_ins A i r \<Longrightarrow> rga_ins B i r" "A \<subseteq> B \<Longrightarrow> rga_del A i \<Longrightarrow> rga_del B i"
  by (auto simp: rga_ins_def rga_del_def)

lemma rga_repD:
  assumes "rga_rep E s"
  shows "fmlookup (rs_adds s) i = Some r \<longleftrightarrow> rga_ins E i r"
    and "fmlookup (rs_adds s) i = None \<longleftrightarrow> (\<forall>r. \<not> rga_ins E i r)"
    and "i |\<in>| rs_grave s \<longleftrightarrow> rga_del E i" and "rga_del E i \<Longrightarrow> \<exists>r. rga_ins E i r"
    and "anchored (rs_adds s)" and "rs_order s = None"
  using assms unfolding rga_rep_def by (blast, metis not_Some_eq, blast+)

text \<open>The guards of the source accept an honest operation.\<close>

lemma rga_honest_applies:
  assumes good: "rga_good U" "E \<subseteq> U" and rep: "rga_rep E s" and h: "rga_honest U E x"
  shows "rgaApplicable s x \<and> rga_prepare s x = Inr x"
proof -
  note r = rga_repD [OF rep]
  show ?thesis
  proof (cases x)
    case (RIns i el anc)
    with h have n: "1 \<le> i" "fmlookup (rs_adds s) i = None"
      using r(2) rga_events_mono(1) [OF good(2)] by auto
    then have g: "i |\<notin>| rs_grave s" using r(2,3,4) by blast
    have "rga_checkInsert (rs_adds s) (rs_grave s) i anc = Inr anc"
    proof (cases anc)
      case None
      with n g show ?thesis by (simp add: rga_checkInsert_def)
    next
      case (Some a)
      with h RIns have "a < i" "fmlookup (rs_adds s) a \<noteq> None" "a |\<notin>| rs_grave s" using r(2,3) by auto
      with Some n g show ?thesis by (simp add: rga_checkInsert_def)
    qed
    with RIns show ?thesis by simp
  next
    case (RDel i)
    with h have "fmlookup (rs_adds s) i \<noteq> None" "i |\<notin>| rs_grave s" using r(2,3) by auto
    with RDel show ?thesis by (simp add: rga_checkDelete_def)
  next
    case (ROther ty)
    with h show ?thesis by simp
  qed
qed

lemma anchored_insert:
  assumes "anchored adds" and "1 \<le> i" and "\<And>a. anc = Some a \<Longrightarrow> a < i \<and> fmlookup adds a \<noteq> None"
  shows "anchored (fmupd i \<lparr>rr_anchor = anc, rr_el = el\<rparr> adds)"
  using assms unfolding anchored_def by (auto split: if_splits)

lemma rga_apply_rep:
  assumes good: "rga_good U" "E \<subseteq> U" and rep: "rga_rep E s" and h: "rga_honest U E x"
  shows "\<exists>s'. rga_apply s x = Inr s' \<and> rga_rep (insert (k, x) E) s' \<and> rga_good (insert (k, x) U)"
proof -
  note r = rga_repD [OF rep] and p = conjunct2 [OF rga_honest_applies [OF assms]]
  show ?thesis
  proof (cases x)
    case (RIns i el anc)
    have fresh: "\<not> rga_ins U i r" "\<not> rga_ins E i r" "1 \<le> i" for r
      using h RIns rga_events_mono(1) [OF good(2)] by auto
    have "anchored (fmupd i \<lparr>rr_anchor = anc, rr_el = el\<rparr> (rs_adds s))"
      by (rule anchored_insert [OF r(5) fresh(3)]) (use h RIns r(2) in auto)
    then have "rga_rep (insert (k, x) E) \<lparr>rs_adds = fmupd i \<lparr>rr_anchor = anc, rr_el = el\<rparr> (rs_adds s),
        rs_grave = rs_grave s, rs_order = None\<rparr>"
      unfolding rga_rep_def RIns
    proof (intro conjI allI impI)
      fix j r'
      show "fmlookup (rs_adds \<lparr>rs_adds = fmupd i \<lparr>rr_anchor = anc, rr_el = el\<rparr> (rs_adds s),
          rs_grave = rs_grave s, rs_order = None\<rparr>) j = Some r' \<longleftrightarrow> rga_ins (insert (k, RIns i el anc) E) j r'"
        using r(1) [of j r'] fresh(2) by auto
    next
      fix j
      assume "rga_del (insert (k, RIns i el anc) E) j"
      then show "\<exists>r. rga_ins (insert (k, RIns i el anc) E) j r"
        using r(4) [of j] unfolding rga_events_insert by blast
    qed (simp_all add: r(3))
    moreover have "rga_good (insert (k, x) U)" using good(1) fresh RIns by (auto simp: rga_good_def)
    ultimately show ?thesis using p RIns by (simp add: rga_apply_def)
  next
    case (RDel i)
    have "rga_rep (insert (k, x) E) \<lparr>rs_adds = rs_adds s, rs_grave = finsert i (rs_grave s), rs_order = rs_order s\<rparr>"
      using r h RDel unfolding rga_rep_def RDel rga_events_insert by auto
    moreover have "rga_good (insert (k, x) U)" using good(1) RDel by (auto simp: rga_good_def)
    ultimately show ?thesis using p RDel by (simp add: rga_apply_def)
  next
    case (ROther ty)
    with h show ?thesis by simp
  qed
qed

definition rga_clash :: "(int, 'e rrec) fmap \<Rightarrow> int \<times> 'e rrec \<Rightarrow> bool" where
  "rga_clash a x \<longleftrightarrow> (\<exists>ra. fmlookup a (fst x) = Some ra \<and> ra \<noteq> snd x)"

lemma mergeAdds_eq:
  "mergeAdds a b = (if \<exists>x \<in> set (fm_entries b). rga_clash a x then Inl (Error ''RGA insertion divergence'')
     else Inr (fm.delta_merge fmempty a b [] (fm_entries b)))"
proof -
  have "rga_add_step a x t = (if rga_clash a x then Inl (Error ''RGA insertion divergence'')
      else Inr (fm.add_step fmempty a t x))" for x t
    by (cases "fmlookup a (fst x)"; cases x)
      (auto simp: rga_add_step_def fm.add_step_def rga_clash_def)
  then have "foldM (rga_add_step a) xs t = (if \<exists>x \<in> set xs. rga_clash a x
      then Inl (Error ''RGA insertion divergence'') else Inr (foldl (fm.add_step fmempty a) t xs))" for xs t
    by (rule foldM_gate)
  then show ?thesis by (simp add: mergeAdds_def fm.delta_merge_def)
qed

lemma mergeAdds_lookup:
  "fmlookup (fm.delta_merge fmempty a b [] (fm_entries b)) i =
     (case fmlookup a i of Some v \<Rightarrow> Some v | None \<Rightarrow> fmlookup b i)" for i :: "'k::linorder"
  using delta_merge_lookup [of fmempty a b i] by (simp add: merged_lookup_def split: option.splits)

lemma mergeGrave_iff [simp]: "i |\<in>| mergeGrave a b \<longleftrightarrow> i |\<in>| a \<or> i |\<in>| b"
proof -
  have "i |\<in>| foldl (\<lambda>t i. finsert i t) a xs \<longleftrightarrow> i |\<in>| a \<or> i \<in> set xs" for xs
    by (induction xs arbitrary: a) auto
  then show ?thesis by (simp add: mergeGrave_def sorted_list_of_fset.rep_eq)
qed

lemma rga_merge_rep:
  fixes a b l :: "'e rga_state"
  assumes good: "rga_good U" "A \<subseteq> U" "B \<subseteq> U" and a: "rga_rep A a" and b: "rga_rep B b"
  shows "\<exists>m. rga_merge3 l a b = Inr m \<and> rga_rep (A \<union> B) m"
proof -
  note ra = rga_repD [OF a] and rb = rga_repD [OF b]
  have same: "r' = r" if "rga_ins A i r" "rga_ins B i r'" for i r r'
    using that good rga_events_mono(1) unfolding rga_good_def by blast
  let ?m = "fm.delta_merge fmempty (rs_adds a) (rs_adds b) [] (fm_entries (rs_adds b))"
  have "\<not> rga_clash (rs_adds a) x" if "x \<in> set (fm_entries (rs_adds b))" for x
    using that same ra(1) rb(1) unfolding rga_clash_def
    by (metis fm_entries_iff surjective_pairing)
  then have "\<not> (\<exists>x \<in> set (fm_entries (rs_adds b)). rga_clash (rs_adds a) x)" by blast
  then have m: "mergeAdds (rs_adds a) (rs_adds b) = Inr ?m" by (simp only: mergeAdds_eq if_False)
  note lk = mergeAdds_lookup [of "rs_adds a" "rs_adds b"]
  have look: "fmlookup ?m i = Some r \<longleftrightarrow> rga_ins (A \<union> B) i r" for i r
  proof (cases "fmlookup (rs_adds a) i")
    case None
    then show ?thesis using ra(2) [of i] rb(1) [of i r] by (simp add: lk)
  next
    case (Some v)
    then have "rga_ins A i v" using ra(1) by blast
    then show ?thesis using Some same [of i v r] ra(1) [of i r] by (auto simp: lk)
  qed
  have "anchored ?m"
    unfolding anchored_def
  proof (intro conjI allI impI)
    fix i r c
    assume i: "fmlookup ?m i = Some r" "rr_anchor r = Some c"
    then have "fmlookup (rs_adds a) i = Some r \<or> fmlookup (rs_adds b) i = Some r"
      using look ra(1) rb(1) by simp
    with i(2) ra(5) rb(5) have "c < i \<and> (fmlookup (rs_adds a) c \<noteq> None \<or> fmlookup (rs_adds b) c \<noteq> None)"
      unfolding anchored_def by blast
    then show "c < i" "fmlookup ?m c \<noteq> None" unfolding lk by (auto split: option.split)
  next
    fix i r
    assume "fmlookup ?m i = Some r"
    then have "fmlookup (rs_adds a) i = Some r \<or> fmlookup (rs_adds b) i = Some r"
      using look ra(1) rb(1) by simp
    then show "1 \<le> i" using ra(5) rb(5) unfolding anchored_def by blast
  qed
  moreover have "\<exists>r. rga_ins (A \<union> B) i r" if "rga_del (A \<union> B) i" for i
    using that ra(4) [of i] rb(4) [of i] unfolding rga_events_Un by blast
  moreover have "i |\<in>| mergeGrave (rs_grave a) (rs_grave b) \<longleftrightarrow> rga_del (A \<union> B) i" for i
    by (simp add: ra(3) rb(3))
  ultimately have "rga_rep (A \<union> B) \<lparr>rs_adds = ?m, rs_grave = mergeGrave (rs_grave a) (rs_grave b), rs_order = None\<rparr>"
    using look unfolding rga_rep_def rga_state.simps by blast
  with m show ?thesis by (simp add: rga_merge3_def)
qed

lemma rga_rep_read: "rga_rep E s \<Longrightarrow> rga_rep E s' \<Longrightarrow> s = s'"
proof -
  assume s: "rga_rep E s" "rga_rep E s'"
  have "rs_adds s = rs_adds s'" by (rule fmap_ext) (metis rga_repD(1) s not_Some_eq)
  moreover have "rs_grave s = rs_grave s'" using rga_repD(3) s by blast
  ultimately show ?thesis using rga_repD(6) s by (metis (full_types) rga_state.equality unit.exhaust)
qed

interpretation rga: mrdt rga_dt rga_rep rga_honest rga_good
proof unfold_locales
  show "rga_good {}" by (simp add: rga_good_def rga_ins_def)
  show "rga_rep {} (dt_init rga_dt)"
    by (simp add: rga_dt_def rga_rep_def rga_init_def rga_ins_def rga_del_def anchored_def)
next
  fix U E :: "'a rga_op event set" and s x k
  assume h: "rga_good U" "E \<subseteq> U" "rga_rep E s" "rga_honest U E x" "k \<notin> fst ` U"
  from rga_apply_rep [OF h(1-4)] rga_honest_applies [OF h(1-4)]
  show "\<exists>y s'. dt_prepared rga_dt s x = Inr y \<and> dt_apply rga_dt s y = Inr s' \<and>
      rga_rep (insert (k, y) E) s' \<and> rga_good (insert (k, y) U)"
    by (auto simp: dt_prepared_def rga_dt_def)
next
  fix U A B :: "'a rga_op event set" and a b l
  assume "rga_good U" "A \<subseteq> U" "B \<subseteq> U" "rga_rep A a" "rga_rep B b" "rga_rep (A \<inter> B) l"
  from rga_merge_rep [OF this(1-5)] show "\<exists>m. dt_merge3 rga_dt l a b = Inr m \<and> rga_rep (A \<union> B) m"
    by (simp add: rga_dt_def)
next
  fix E :: "'a rga_op event set" and s s'
  assume "rga_rep E s" "rga_rep E s'"
  then show "dt_read rga_dt s = dt_read rga_dt s'" using rga_rep_read by metis
qed

section \<open>Properties\<close>

text \<open>C19: the traversal terminates on every map of insertions, cyclic anchors included: it never runs
  out of its fuel of one step per id. It throws exactly when some id does not hang off the root;
  otherwise it lists every id once, in the order of the paths from the root: an anchor before
  its descendants, newer siblings with all their descendants first.\<close>

theorem orderedIds_total:
  "case orderedIds adds of
     Inl e \<Rightarrow> e = Error ''RGA state contains an unreachable anchor'' \<and> (\<exists>i. fmlookup adds i \<noteq> None \<and> \<not> hangs adds i)
   | Inr xs \<Rightarrow> distinct xs \<and> (\<forall>i. i \<in> set xs \<longleftrightarrow> fmlookup adds i \<noteq> None) \<and>
       sorted_wrt (displayed_before adds) xs \<and> total_on (displayed_before adds) (set xs)"
proof -
  from orderedIds_cases obtain xs where xs: "distinct xs" "set xs = {i. hangs adds i}"
    "sorted_wrt (displayed_before adds) xs"
    "orderedIds adds = (if \<forall>i \<in> dom (fmlookup adds). hangs adds i then Inr xs
       else Inl (Error ''RGA state contains an unreachable anchor''))" by blast
  have "total_on (displayed_before adds) (set xs)" by (rule displayed_total) (simp add: xs(2))
  moreover have "hangs adds i \<Longrightarrow> fmlookup adds i \<noteq> None" for i
    using apath_known unfolding hangs_def by fastforce
  ultimately show ?thesis
    using xs by (cases "\<forall>i \<in> dom (fmlookup adds). hangs adds i") (auto simp: fmlookup_dom'_iff)
qed

text \<open>C20: the optimised order is the reference order. When every anchor is known and precedes its
  child, the traversal returns the fold that takes the ids in ascending order and inserts each
  directly after its anchor, or in front when it has none.\<close>

theorem orderedIds_is_reference:
  assumes "anchored adds"
  shows "orderedIds adds = Inr (reference_order adds)"
  using orderedIds_reference [OF assms] by blast

theorem orderedIds_is_reference_witness:
  "anchored (fmupd 2 \<lparr>rr_anchor = Some 1, rr_el = True\<rparr> (fmupd 1 \<lparr>rr_anchor = None, rr_el = False\<rparr> fmempty)) \<and>
   orderedIds (fmupd 2 \<lparr>rr_anchor = Some 1, rr_el = True\<rparr> (fmupd 1 \<lparr>rr_anchor = None, rr_el = False\<rparr> fmempty)) =
   Inr (reference_order (fmupd 2 \<lparr>rr_anchor = Some 1, rr_el = True\<rparr> (fmupd 1 \<lparr>rr_anchor = None, rr_el = False\<rparr> fmempty)))"
proof -
  have "anchored (fmupd 2 \<lparr>rr_anchor = Some 1, rr_el = True\<rparr> (fmupd 1 \<lparr>rr_anchor = None, rr_el = False\<rparr> fmempty))"
    by (auto simp: anchored_def split: if_splits)
  with orderedIds_is_reference [OF this] show ?thesis by blast
qed

text \<open>C21: the tombstone sequence over the runtime. In every run of registrations, honest commits,
  synchronisations and collections, a replica's read returns and is the reference order of all
  delivered insertions with the delivered removals filtered out; replicas with the same deliveries
  have the same state, and every honest operation passes the source's guards.\<close>

theorem rga_reads_reference:
  assumes "delivery_run rga_dt rga_honest rt U Es" and "i < length Es"
  shows "\<exists>s. s = c_state (r_head (rt_replicas rt ! i)) \<and>
    (\<forall>j r. fmlookup (rs_adds s) j = Some r \<longleftrightarrow> rga_ins (Es ! i) j r) \<and>
    rt_read rga_dt i rt = Inr (Inr (map (\<lambda>j. rr_el (the (fmlookup (rs_adds s) j)))
      (filter (\<lambda>j. \<not> rga_del (Es ! i) j) (reference_order (rs_adds s))))) \<and>
    (\<forall>x. rga_honest U (Es ! i) x \<longrightarrow> rgaApplicable s x) \<and>
    (\<forall>j < length Es. Es ! j = Es ! i \<longrightarrow> c_state (r_head (rt_replicas rt ! j)) = s)"
proof -
  let ?s = "c_state (r_head (rt_replicas rt ! i))"
  note hd = rga.head_represents [OF assms(1)]
  have rep: "rga_rep (Es ! i) ?s" "i < length (rt_replicas rt)" "Es ! i \<subseteq> U" "rga_good U"
    using hd [OF assms(2)] by blast+
  note r = rga_repD [OF rep(1)]
  have "rga_read ?s = Inr (map (\<lambda>j. rr_el (the (fmlookup (rs_adds ?s) j)))
      (filter (\<lambda>j. \<not> rga_del (Es ! i) j) (reference_order (rs_adds ?s))))"
    using orderedIds_reference [OF r(5)] by (simp add: rga_read_def rga_readEntries_def r(3,6) comp_def)
  then have "rt_read rga_dt i rt = Inr (Inr (map (\<lambda>j. rr_el (the (fmlookup (rs_adds ?s) j)))
      (filter (\<lambda>j. \<not> rga_del (Es ! i) j) (reference_order (rs_adds ?s)))))"
    using rep(2) by (simp add: rt_read_def get_replica_def rga_dt_def)
  moreover have "c_state (r_head (rt_replicas rt ! j)) = ?s" if "j < length Es" "Es ! j = Es ! i" for j
    using hd [OF that(1)] rep(1) rga_rep_read that(2) by metis
  ultimately show ?thesis using r(1) rga_honest_applies [OF rep(4,3,1)] by blast
qed

theorem rga_reads_reference_witness:
  "\<exists>rt. delivery_run rga_dt rga_honest (rt :: (bool rga_op, bool rga_state, unit) runtime)
      {(1, RIns 1 True None)} [{(1, RIns 1 True None)}, {(1, RIns 1 True None)}] \<and>
    (\<exists>s. s = c_state (r_head (rt_replicas rt ! 1)) \<and>
    (\<forall>j r. fmlookup (rs_adds s) j = Some r \<longleftrightarrow> rga_ins {(1, RIns 1 True None)} j r) \<and>
    rt_read rga_dt 1 rt = Inr (Inr (map (\<lambda>j. rr_el (the (fmlookup (rs_adds s) j)))
      (filter (\<lambda>j. \<not> rga_del {(1, RIns 1 True None)} j) (reference_order (rs_adds s))))))"
proof -
  have "rga_honest {} {} (RIns 1 True None)" by (simp add: rga_ins_def)
  from rga.demo_run [OF this] obtain rt where
    run: "delivery_run rga_dt rga_honest (rt :: (bool rga_op, bool rga_state, unit) runtime)
      {(1, RIns 1 True None)} [{(1, RIns 1 True None)}, {(1, RIns 1 True None)}]"
    by (auto simp: dt_prepared_def rga_dt_def rga_init_def rga_checkInsert_def)
  show ?thesis
  proof (rule exI [of _ rt], rule conjI [OF run])
    have "[{(1, RIns 1 True None)}, {(1, RIns 1 True None)}] ! 1 = {(1, RIns 1 True None)}" by simp
    note read = rga_reads_reference [OF run, of 1, unfolded this]
    have "1 < length [{(1, RIns 1 True None)}, {(1, RIns 1 True None)}]" by simp
    from read [OF this] show "\<exists>s. s = c_state (r_head (rt_replicas rt ! 1)) \<and>
      (\<forall>j r. fmlookup (rs_adds s) j = Some r \<longleftrightarrow> rga_ins {(1, RIns 1 True None)} j r) \<and>
      rt_read rga_dt 1 rt = Inr (Inr (map (\<lambda>j. rr_el (the (fmlookup (rs_adds s) j)))
        (filter (\<lambda>j. \<not> rga_del {(1, RIns 1 True None)} j) (reference_order (rs_adds s)))))" by blast
  qed
qed

end
