(* ===== verification/RgaSnapshot.thy ===== *)
theory RgaSnapshot
  imports Rga
begin

text \<open>
  The binary snapshot of the tombstone sequence (\<^verbatim>\<open>encodeSnapshot\<close> and \<^verbatim>\<open>decodeSnapshot\<close> of
  \<^verbatim>\<open>runtime/src/datatypes/rga.js\<close>): varints in base 128, ids as differences, elements as the
  UTF-8 bytes of their JSON text. A byte is a natural number; the read cursor is the list of
  the bytes still to read. The JSON text of an element is an argument: \<open>json\<close> is
  \<^verbatim>\<open>JSON.stringify\<close> followed by the UTF-8 encoder and \<open>unjson\<close> the decoder followed by
  \<^verbatim>\<open>JSON.parse\<close>; likewise the base-64 functions of the outer wrapper.
\<close>

section \<open>Varints\<close>

function var_digits :: "nat \<Rightarrow> nat list" where
  "var_digits n = (if n < 128 then [n] else (n mod 128 + 128) # var_digits (n div 128))"
  by auto
termination by (relation "measure id") auto

declare var_digits.simps [simp del]

definition putVar :: "nat list \<Rightarrow> int \<Rightarrow> nat list res" where
  "putVar out n = (if \<not> is_safe n \<or> n < 0 then Inl (Error ''bad RGA varint'')
     else Inr (out @ var_digits (nat n)))"

fun getVar_loop :: "nat \<Rightarrow> nat \<Rightarrow> nat \<Rightarrow> nat list \<Rightarrow> (nat \<times> nat list) res" where
  "getVar_loop 0 n mul bs = Inl (Error ''oversized RGA varint'')"
| "getVar_loop (Suc k) n mul [] = Inl (Error ''truncated RGA varint'')"
| "getVar_loop (Suc k) n mul (b # bs) =
     (let n' = n + (b mod 128) * mul in
      if \<not> is_safe (int n') then Inl (Error ''RGA varint overflow'')
      else if b div 128 mod 2 = 0 then Inr (n', bs)
      else getVar_loop k n' (mul * 128) bs)"

definition getVar :: "nat list \<Rightarrow> (nat \<times> nat list) res" where
  "getVar bs = getVar_loop 8 0 1 bs"

section \<open>Encoding\<close>

fun enc_add_step :: "('e \<Rightarrow> nat list option) \<Rightarrow> int \<times> 'e rrec \<Rightarrow> nat list \<times> int \<Rightarrow> (nat list \<times> int) res" where
  "enc_add_step json (i, r) (out, prev) =
     rbind (putVar out (i - prev)) (\<lambda>out.
     rbind (putVar out (case rr_anchor r of None \<Rightarrow> 0 | Some a \<Rightarrow> i - a)) (\<lambda>out.
     case json (rr_el r) of
       None \<Rightarrow> Inl (Error ''RGA element is not JSON-serializable'')
     | Some bytes \<Rightarrow> rbind (putVar out (int (length bytes))) (\<lambda>out. Inr (out @ bytes, i))))"

fun enc_grave_step :: "int \<Rightarrow> nat list \<times> int \<Rightarrow> (nat list \<times> int) res" where
  "enc_grave_step i (out, prev) = rbind (putVar out (i - prev)) (\<lambda>out. Inr (out, i))"

definition encodeSnapshot :: "('e \<Rightarrow> nat list option) \<Rightarrow> 'e rga_state \<Rightarrow> nat list res" where
  "encodeSnapshot json s =
     (let adds = fm_entries (rs_adds s); grave = sorted_list_of_fset (rs_grave s) in
      rbind (putVar [2] (int (length adds))) (\<lambda>out.
      rbind (foldM (enc_add_step json) adds (out, 0)) (\<lambda>(out, _).
      rbind (putVar out (int (length grave))) (\<lambda>out.
      rbind (foldM enc_grave_step grave (out, 0)) (\<lambda>(out, _). Inr out)))))"

section \<open>Decoding\<close>

fun dec_adds ::
  "(nat list \<Rightarrow> 'e res) \<Rightarrow> nat \<Rightarrow> int \<Rightarrow> nat list \<Rightarrow> (int, 'e rrec) fmap \<Rightarrow>
   ((int, 'e rrec) fmap \<times> nat list) res"
where
  "dec_adds unjson 0 prev bs at1 = Inr (at1, bs)"
| "dec_adds unjson (Suc n) prev bs at1 =
     rbind (getVar bs) (\<lambda>(d, bs).
     rbind (getVar bs) (\<lambda>(distance, bs).
     let i = prev + int d; anchorId = (if distance = 0 then None else Some (i - int distance)) in
     if i < 1 \<or> (case anchorId of None \<Rightarrow> False | Some a \<Rightarrow> a < 1 \<or> i \<le> a)
     then Inl (Error ''invalid RGA anchor encoding'')
     else rbind (getVar bs) (\<lambda>(len, bs).
       if length bs < len then Inl (Error ''truncated RGA element'')
       else rbind (unjson (take len bs)) (\<lambda>el.
         dec_adds unjson n i (drop len bs) (fmupd i \<lparr>rr_anchor = anchorId, rr_el = el\<rparr> at1)))))"

fun dec_grave :: "nat \<Rightarrow> int \<Rightarrow> nat list \<Rightarrow> int fset \<Rightarrow> (int fset \<times> nat list) res" where
  "dec_grave 0 prev bs gt = Inr (gt, bs)"
| "dec_grave (Suc n) prev bs gt =
     rbind (getVar bs) (\<lambda>(d, bs). dec_grave n (prev + int d) bs (finsert (prev + int d) gt))"

definition check_snapshot :: "(int, 'e rrec) fmap \<Rightarrow> int fset \<Rightarrow> 'e rga_state res" where
  "check_snapshot adds grave = rbind (orderedIds adds) (\<lambda>_.
     if \<exists>i \<in> set (sorted_list_of_fset grave). fmlookup adds i = None
     then Inl (Error ''RGA tombstone has no insertion'')
     else Inr \<lparr>rs_adds = adds, rs_grave = grave, rs_order = None\<rparr>)"

definition decodeSnapshot :: "(nat list \<Rightarrow> 'e res) \<Rightarrow> nat list \<Rightarrow> 'e rga_state res" where
  "decodeSnapshot unjson u8 = (case u8 of
       [] \<Rightarrow> Inl (Error ''unsupported RGA binary snapshot version'')
     | v # bs \<Rightarrow>
       if v \<noteq> 2 then Inl (Error ''unsupported RGA binary snapshot version'')
       else rbind (getVar bs) (\<lambda>(n, bs).
         rbind (dec_adds unjson n 0 bs fmempty) (\<lambda>(adds, bs).
         rbind (getVar bs) (\<lambda>(gn, bs).
         rbind (dec_grave gn 0 bs {||}) (\<lambda>(grave, bs).
         if bs \<noteq> [] then Inl (Error ''trailing RGA snapshot bytes'')
         else check_snapshot adds grave)))))"

text \<open>The wrapper: version 2 carries the bytes in base 64, version 1 the lists themselves.\<close>

datatype 'e snap_enc = SnapV1 "(int \<times> int option \<times> 'e) list" "int list" | SnapV2 string | SnapOther

definition rga_encodeState :: "(nat list \<Rightarrow> string) \<Rightarrow> ('e \<Rightarrow> nat list option) \<Rightarrow> 'e rga_state \<Rightarrow> 'e snap_enc res" where
  "rga_encodeState b64encode json s = rbind (encodeSnapshot json s) (\<lambda>bs. Inr (SnapV2 (b64encode bs)))"

fun rga_decodeState :: "(string \<Rightarrow> nat list) \<Rightarrow> (nat list \<Rightarrow> 'e res) \<Rightarrow> 'e snap_enc \<Rightarrow> 'e rga_state res" where
  "rga_decodeState b64decode unjson (SnapV1 adds grave) =
     check_snapshot (foldl (\<lambda>m (i, anc, el). fmupd i \<lparr>rr_anchor = anc, rr_el = el\<rparr> m) fmempty adds)
       (foldl (\<lambda>g i. finsert i g) {||} grave)"
| "rga_decodeState b64decode unjson (SnapV2 data) = decodeSnapshot unjson (b64decode data)"
| "rga_decodeState b64decode unjson SnapOther = Inl (Error ''unsupported RGA snapshot version'')"

section \<open>Reading back\<close>

lemma getVar_digits_loop:
  "n < 128 ^ k \<Longrightarrow> 0 < k \<Longrightarrow> is_safe (int (acc + n * mul)) \<Longrightarrow>
   getVar_loop k acc mul (var_digits n @ rest) = Inr (acc + n * mul, rest)"
proof (induction k arbitrary: n acc mul)
  case (Suc k)
  show ?case
  proof (cases "n < 128")
    case True
    then have "n div 128 = 0" "n mod 128 = n" by simp_all
    with True Suc.prems(3) show ?thesis by (simp add: var_digits.simps [of n] Let_def)
  next
    case False
    let ?b = "n mod 128 + 128"
    have split: "acc + n * mul = (acc + n mod 128 * mul) + n div 128 * (mul * 128)"
      by (metis add.assoc add_mult_distrib mod_div_mult_eq mult.assoc mult.commute)
    have "acc + n mod 128 * mul \<le> acc + n * mul" by (simp add: split)
    then have safe: "is_safe (int (acc + n mod 128 * mul))"
      using Suc.prems(3) unfolding is_safe_def max_safe_def by linarith
    have "n div 128 < 128 ^ k" using Suc.prems(1) by (simp add: less_mult_imp_div_less mult.commute)
    moreover from this have "0 < k" using False by (cases k) auto
    ultimately have "getVar_loop k (acc + n mod 128 * mul) (mul * 128) (var_digits (n div 128) @ rest) =
        Inr (acc + n * mul, rest)"
      using Suc.IH [of "n div 128" "acc + n mod 128 * mul" "mul * 128"] Suc.prems(3) split by simp
    moreover have "?b mod 128 = n mod 128" "?b div 128 mod 2 = 1" by simp_all
    ultimately show ?thesis using False safe by (simp add: var_digits.simps [of n] Let_def)
  qed
qed simp

lemma getVar_digits [simp]: "is_safe (int n) \<Longrightarrow> getVar (var_digits n @ rest) = Inr (n, rest)"
proof -
  assume s: "is_safe (int n)"
  then have "n < 128 ^ 8" by (simp add: is_safe_def max_safe_def)
  from getVar_digits_loop [OF this, of 0 1] s show ?thesis by (simp add: getVar_def)
qed

lemma var_digits_bytes: "set (var_digits n) \<subseteq> {0..<256}"
proof (induction n rule: var_digits.induct)
  case (1 n)
  have "n mod 128 < 128" by simp
  then show ?case using 1 by (subst var_digits.simps) auto
qed

lemma putVar_ok: "0 \<le> n \<Longrightarrow> n \<le> max_safe \<Longrightarrow> putVar out n = Inr (out @ var_digits (nat n))"
  by (simp add: putVar_def is_safe_def max_safe_def)

text \<open>The bytes of the two lists.\<close>

fun add_bytes :: "('e \<Rightarrow> nat list) \<Rightarrow> int \<Rightarrow> (int \<times> 'e rrec) list \<Rightarrow> nat list" where
  "add_bytes js prev [] = []"
| "add_bytes js prev ((i, r) # es) = var_digits (nat (i - prev)) @
     var_digits (nat (case rr_anchor r of None \<Rightarrow> 0 | Some a \<Rightarrow> i - a)) @
     var_digits (length (js (rr_el r))) @ js (rr_el r) @ add_bytes js i es"

fun grave_bytes :: "int \<Rightarrow> int list \<Rightarrow> nat list" where
  "grave_bytes prev [] = []"
| "grave_bytes prev (i # is) = var_digits (nat (i - prev)) @ grave_bytes i is"

fun entry_ok :: "('e \<Rightarrow> nat list option) \<Rightarrow> (nat list \<Rightarrow> 'e res) \<Rightarrow> int \<times> 'e rrec \<Rightarrow> bool" where
  "entry_ok json unjson (i, r) \<longleftrightarrow> 1 \<le> i \<and> i \<le> max_safe \<and>
     (case rr_anchor r of None \<Rightarrow> True | Some a \<Rightarrow> 1 \<le> a \<and> a < i) \<and>
     (\<exists>bytes. json (rr_el r) = Some bytes \<and> unjson bytes = Inr (rr_el r) \<and>
        int (length bytes) \<le> max_safe \<and> set bytes \<subseteq> {0..<256})"

lemma enc_adds:
  "sorted_wrt (<) (prev # map fst es) \<Longrightarrow> 0 \<le> prev \<Longrightarrow> (\<And>x. x \<in> set es \<Longrightarrow> entry_ok json unjson x) \<Longrightarrow>
   \<exists>p. foldM (enc_add_step json) es (out, prev) = Inr (out @ add_bytes (\<lambda>e. the (json e)) prev es, p) \<and>
     set (add_bytes (\<lambda>e. the (json e)) prev es) \<subseteq> {0..<256}"
proof (induction es arbitrary: out prev)
  case (Cons x es)
  obtain i r where x: "x = (i, r)" by force
  from Cons.prems(3) [of x] x obtain bytes where ok: "1 \<le> i" "i \<le> max_safe"
    "case rr_anchor r of None \<Rightarrow> True | Some a \<Rightarrow> 1 \<le> a \<and> a < i" "json (rr_el r) = Some bytes"
    "int (length bytes) \<le> max_safe" "set bytes \<subseteq> {0..<256}" by auto
  have p: "0 \<le> i - prev" "i - prev \<le> max_safe" using Cons.prems(1,2) ok(2) x by auto
  have a: "0 \<le> (case rr_anchor r of None \<Rightarrow> 0 | Some a \<Rightarrow> i - a)"
    "(case rr_anchor r of None \<Rightarrow> 0 | Some a \<Rightarrow> i - a) \<le> max_safe"
    using ok(2,3) by (auto simp: max_safe_def split: option.splits)
  have "sorted_wrt (<) (i # map fst es)" using Cons.prems(1) x by simp
  moreover have "0 \<le> i" using ok(1) by simp
  ultimately obtain q where
    "foldM (enc_add_step json) es (out @ var_digits (nat (i - prev)) @
     var_digits (nat (case rr_anchor r of None \<Rightarrow> 0 | Some a \<Rightarrow> i - a)) @
     var_digits (length bytes) @ bytes, i) = Inr ((out @ var_digits (nat (i - prev)) @
     var_digits (nat (case rr_anchor r of None \<Rightarrow> 0 | Some a \<Rightarrow> i - a)) @
     var_digits (length bytes) @ bytes) @ add_bytes (\<lambda>e. the (json e)) i es, q)"
    "set (add_bytes (\<lambda>e. the (json e)) i es) \<subseteq> {0..<256}"
    using Cons.IH Cons.prems(3) by (metis list.set_intros(2))
  then show ?case
    using var_digits_bytes ok(6) unfolding x
    by (simp add: putVar_ok [OF p] putVar_ok [OF a] putVar_ok ok(4,5) subset_eq ball_Un)
qed simp

lemma dec_adds_bytes:
  "sorted_wrt (<) (prev # map fst es) \<Longrightarrow> 0 \<le> prev \<Longrightarrow> (\<And>x. x \<in> set es \<Longrightarrow> entry_ok json unjson x) \<Longrightarrow>
   dec_adds unjson (length es) prev (add_bytes (\<lambda>e. the (json e)) prev es @ rest) m =
     Inr (foldl (\<lambda>m (i, r). fmupd i r m) m es, rest)"
proof (induction es arbitrary: prev m)
  case (Cons x es)
  obtain i r where x: "x = (i, r)" by force
  from Cons.prems(3) [of x] x obtain bytes where ok: "1 \<le> i" "i \<le> max_safe"
    "case rr_anchor r of None \<Rightarrow> True | Some a \<Rightarrow> 1 \<le> a \<and> a < i" "json (rr_el r) = Some bytes"
    "unjson bytes = Inr (rr_el r)" "int (length bytes) \<le> max_safe" by auto
  let ?dist = "nat (case rr_anchor r of None \<Rightarrow> 0 | Some a \<Rightarrow> i - a)"
  have p: "is_safe (int (nat (i - prev)))" "prev + int (nat (i - prev)) = i"
    using Cons.prems(1,2) ok(2) x by (auto simp: is_safe_def max_safe_def)
  have a: "is_safe (int ?dist)"
    "(if ?dist = 0 then None else Some (i - int ?dist)) = rr_anchor r"
    using ok(2,3) by (auto simp: max_safe_def is_safe_def split: option.splits)
  have eta: "\<lparr>rr_anchor = rr_anchor r, rr_el = rr_el r\<rparr> = r" by (cases r) simp
  have l: "is_safe (int (length bytes))" using ok(6) by (simp add: is_safe_def max_safe_def)
  have "sorted_wrt (<) (i # map fst es)" using Cons.prems(1) x by simp
  then have IH: "dec_adds unjson (length es) i (add_bytes (\<lambda>e. the (json e)) i es @ rest) (fmupd i r m) =
      Inr (foldl (\<lambda>m (i, r). fmupd i r m) (fmupd i r m) es, rest)"
    using Cons.IH [of i "fmupd i r m"] Cons.prems(3) ok(1) by simp
  have g: "\<not> (i < 1 \<or> (case rr_anchor r of None \<Rightarrow> False | Some a \<Rightarrow> a < 1 \<or> i \<le> a))"
    using ok(1,3) by (auto split: option.splits)
  show ?case
    unfolding x add_bytes.simps append_assoc list.size add_0_right add_Suc_right dec_adds.simps
      getVar_digits [OF p(1)] rbind_simps prod.case getVar_digits [OF a(1)] Let_def p(2) a(2)
      if_not_P [OF g] ok(4) option.sel getVar_digits [OF l]
    using IH by (simp add: ok(5) eta)
qed simp

lemma enc_grave:
  "sorted_wrt (<) (prev # is) \<Longrightarrow> 0 \<le> prev \<Longrightarrow> (\<And>i. i \<in> set is \<Longrightarrow> i \<le> max_safe) \<Longrightarrow>
   \<exists>p. foldM enc_grave_step is (out, prev) = Inr (out @ grave_bytes prev is, p) \<and> set (grave_bytes prev is) \<subseteq> {0..<256}"
proof (induction "is" arbitrary: out prev)
  case (Cons i "is")
  have "i \<le> max_safe" using Cons.prems(3) by simp
  then have p: "0 \<le> i - prev" "i - prev \<le> max_safe" using Cons.prems(1,2) by auto
  from Cons.IH [of i "out @ var_digits (nat (i - prev))"] Cons.prems
  show ?case using var_digits_bytes by (auto simp: putVar_ok [OF p] subset_eq)
qed simp

lemma dec_grave_bytes:
  "sorted_wrt (<) (prev # is) \<Longrightarrow> 0 \<le> prev \<Longrightarrow> (\<And>i. i \<in> set is \<Longrightarrow> i \<le> max_safe) \<Longrightarrow>
   dec_grave (length is) prev (grave_bytes prev is @ rest) g = Inr (foldl (\<lambda>g i. finsert i g) g is, rest)"
proof (induction "is" arbitrary: prev g)
  case (Cons i "is")
  have "i \<le> max_safe" using Cons.prems(3) by simp
  then have "is_safe (int (nat (i - prev)))" "prev + int (nat (i - prev)) = i"
    using Cons.prems(1,2) by (auto simp: is_safe_def max_safe_def)
  with Cons.IH [of i] Cons.prems show ?case by simp
qed simp

lemma foldl_fmupd: "foldl (\<lambda>m (i, r). fmupd i r m) fmempty (fm_entries m) = m"
proof (rule fmap_ext)
  fix k
  have "fm.bulk (fm_entries m) fmempty = foldl (\<lambda>m (i, r). fmupd i r m) fmempty (fm_entries m)"
    by (simp add: fm.bulk_def)
  moreover have "fmlookup (fm.bulk (fm_entries m) fmempty) = map_of (rev (fm_entries m))"
    using fm.bulk_spec [of "fm_entries m" fmempty] by (simp add: fm.get_empty)
  moreover have "map_of (rev (fm_entries m)) = map_of (fm_entries m)"
    by (intro map_of_inject_set [THEN iffD2]) (simp_all add: rev_map [symmetric])
  ultimately show "fmlookup (foldl (\<lambda>m (i, r). fmupd i r m) fmempty (fm_entries m)) k = fmlookup m k" by simp
qed

lemma foldl_finsert: "foldl (\<lambda>g i. finsert i g) {||} (sorted_list_of_fset g) = g"
proof -
  have "i |\<in>| foldl (\<lambda>g i. finsert i g) a xs \<longleftrightarrow> i |\<in>| a \<or> i \<in> set xs" for i a and xs :: "'a list"
    by (induction xs arbitrary: a) auto
  then show ?thesis by (intro fset_eqI) (simp add: sorted_list_of_fset.rep_eq)
qed

section \<open>Properties\<close>

text \<open>Snapshots round-trip. For a state whose ids are positive safe integers, whose anchors are
  known and earlier, whose tombstones name insertions, and whose elements survive the JSON codec,
  encoding succeeds with proper bytes and decoding them gives the state back: every check of the
  decoder passes and no byte is left over.\<close>

theorem snapshot_roundtrip:
  assumes "anchored (rs_adds s)" and "rs_order s = None"
    and "\<forall>ir \<in> set (fm_entries (rs_adds s)). entry_ok json unjson ir"
    and "\<forall>i \<in> set (sorted_list_of_fset (rs_grave s)). fmlookup (rs_adds s) i \<noteq> None"
    and "int (length (fm_entries (rs_adds s))) \<le> max_safe"
  shows "\<exists>bs. encodeSnapshot json s = Inr bs \<and> set bs \<subseteq> {0..<256} \<and> decodeSnapshot unjson bs = Inr s"
proof -
  let ?es = "fm_entries (rs_adds s)" and ?gs = "sorted_list_of_fset (rs_grave s)"
  let ?js = "\<lambda>e. the (json e)"
  have bound: "1 \<le> i \<and> i \<le> max_safe" if "i \<in> set (fm_keys (rs_adds s))" for i
  proof -
    from that obtain r where "(i, r) \<in> set ?es" by (metis map_fst_fm_entries imageE set_map surjective_pairing)
    with assms(3) show ?thesis by fastforce
  qed
  have sub: "set ?gs \<subseteq> set (fm_keys (rs_adds s))"
    using assms(4) unfolding set_fm_keys by (auto simp: fmlookup_dom'_iff)
  have es: "sorted_wrt (<) (0 # map fst ?es)" using bound fm_keys_sorted [of "rs_adds s"] by fastforce
  have gs: "sorted_wrt (<) (0 # ?gs)" "\<And>i. i \<in> set ?gs \<Longrightarrow> i \<le> max_safe"
    using bound sub by (fastforce simp: sorted_list_of_fset.rep_eq)+
  have glen: "int (length ?gs) \<le> max_safe"
  proof -
    have "length ?gs = card (set ?gs)" by (simp add: sorted_list_of_fset.rep_eq)
    also have "\<dots> \<le> card (set (fm_keys (rs_adds s)))" using sub by (rule card_mono [OF finite_set])
    also have "\<dots> = length ?es" by (simp add: distinct_card fm_entries_def)
    finally show ?thesis using assms(5) by linarith
  qed
  let ?h = "[2] @ var_digits (length ?es)"
  obtain p where p: "foldM (enc_add_step json) ?es (?h, 0) = Inr (?h @ add_bytes ?js 0 ?es, p)"
    "set (add_bytes ?js 0 ?es) \<subseteq> {0..<256}"
    using enc_adds [OF es, of json unjson ?h] assms(3) by auto
  let ?h2 = "?h @ add_bytes ?js 0 ?es @ var_digits (length ?gs)"
  obtain q where q: "foldM enc_grave_step ?gs (?h2, 0) = Inr (?h2 @ grave_bytes 0 ?gs, q)"
    "set (grave_bytes 0 ?gs) \<subseteq> {0..<256}"
    using enc_grave [OF gs(1) _ gs(2), of ?h2] by auto
  have enc: "encodeSnapshot json s = Inr (?h2 @ grave_bytes 0 ?gs)"
    using p(1) q(1) assms(5) glen by (simp add: encodeSnapshot_def Let_def putVar_ok)
  have bytes: "set (?h2 @ grave_bytes 0 ?gs) \<subseteq> {0..<256}"
    using p(2) q(2) var_digits_bytes by (auto simp: subset_eq)
  have n: "is_safe (int (length ?es))" "is_safe (int (length ?gs))"
    using assms(5) glen by (simp_all add: is_safe_def max_safe_def)
  have a: "dec_adds unjson (length ?es) 0 (add_bytes ?js 0 ?es @ rest) fmempty = Inr (rs_adds s, rest)" for rest
    using dec_adds_bytes [OF es _, of json unjson] assms(3) by (simp add: foldl_fmupd)
  have g: "dec_grave (length ?gs) 0 (grave_bytes 0 ?gs) {||} = Inr (rs_grave s, [])"
    using dec_grave_bytes [OF gs(1) _ gs(2), of "[]"] by (simp add: foldl_finsert)
  have "check_snapshot (rs_adds s) (rs_grave s) = Inr s"
    using orderedIds_reference [OF assms(1)] assms(2,4) by (auto simp: check_snapshot_def)
  then have "decodeSnapshot unjson (?h2 @ grave_bytes 0 ?gs) = Inr s"
    using n a g by (simp add: decodeSnapshot_def)
  with enc bytes show ?thesis by blast
qed

theorem snapshot_roundtrip_witness:
  "\<exists>bs. encodeSnapshot (\<lambda>e. Some [e]) \<lparr>rs_adds = fmupd 1 \<lparr>rr_anchor = None, rr_el = 7 :: nat\<rparr> fmempty,
      rs_grave = {|1|}, rs_order = None\<rparr> = Inr bs \<and> set bs \<subseteq> {0..<256} \<and>
    decodeSnapshot (\<lambda>b. Inr (hd b)) bs = Inr \<lparr>rs_adds = fmupd 1 \<lparr>rr_anchor = None, rr_el = 7 :: nat\<rparr> fmempty,
      rs_grave = {|1|}, rs_order = None\<rparr>"
proof (rule snapshot_roundtrip)
  have k: "fm_entries (fmupd 1 \<lparr>rr_anchor = None, rr_el = 7 :: nat\<rparr> fmempty) = [(1 :: int, \<lparr>rr_anchor = None, rr_el = 7\<rparr>)]"
    by (simp add: fm_entries_def fm_keys_def sorted_list_of_fset.rep_eq)
  show "\<forall>ir \<in> set (fm_entries (rs_adds \<lparr>rs_adds = fmupd 1 \<lparr>rr_anchor = None, rr_el = 7 :: nat\<rparr> fmempty,
      rs_grave = {|1|}, rs_order = None\<rparr>)). entry_ok (\<lambda>e. Some [e]) (\<lambda>b. Inr (hd b)) ir"
    using k by (simp add: max_safe_def)
  show "int (length (fm_entries (rs_adds \<lparr>rs_adds = fmupd 1 \<lparr>rr_anchor = None, rr_el = 7 :: nat\<rparr> fmempty,
      rs_grave = {|1|}, rs_order = None\<rparr>))) \<le> max_safe"
    using k by (simp add: max_safe_def)
qed (auto simp: anchored_def sorted_list_of_fset.rep_eq split: if_splits)

end
