(* ===== verification/Peritext.thy ===== *)
theory Peritext
  imports EmbedRGA Rga
begin

text \<open>
  The rich-text datatype of \<^verbatim>\<open>runtime/src/datatypes/peritext.js\<close> over any insertion-order kernel:
  the births of all characters in the kernel, a grow-only set of deleted ids and a map of marks.
  The reading resolves each mark to an interval of the live characters in document order and
  shows, per character and mark type, the covering mark with the highest id. Kernels are records of
  functions; the interface a kernel owes is the locale \<open>text_kernel\<close>, interpreted on the embedded
  and on the tombstone sequence.
\<close>

section \<open>Operations\<close>

record ('k, 'i, 'e) kernel =
  k_init :: 'k
  k_prepare :: "('k \<Rightarrow> 'i \<Rightarrow> 'i res) option"
  k_apply :: "'k \<Rightarrow> 'i \<Rightarrow> 'k res"
  k_applyBatch :: "'k \<Rightarrow> 'i list \<Rightarrow> 'k res"
  k_merge3 :: "'k \<Rightarrow> 'k \<Rightarrow> 'k \<Rightarrow> 'k res"
  k_readEntries :: "'k \<Rightarrow> (int \<times> 'e) list res"
  k_has :: "'k \<Rightarrow> int \<Rightarrow> bool"
  k_ins_id :: "'i \<Rightarrow> int"

datatype side = Before | After

record ('t, 'v) mark =
  mk_mid :: int
  mk_mtype :: 't
  mk_value :: "'v option"
  mk_startId :: int
  mk_endId :: int
  mk_startSide :: side
  mk_endSide :: side
  mk_ts :: int
  mk_removed :: bool

text \<open>The optional fields of a mark operation.\<close>

record ('t, 'v) mark_op =
  mo_mid :: int
  mo_mtype :: 't
  mo_value :: "'v option"
  mo_startId :: int
  mo_endId :: int
  mo_startSide :: "side option"
  mo_endSide :: "side option"
  mo_ts :: "int option"

datatype ('i, 't, 'v) peri_op =
  PIns 'i | PDel int | PAddMark "('t, 'v) mark_op" | PRemoveMark "('t, 'v) mark_op" | POther string

record ('k, 't, 'v) peri =
  ps_shadow :: 'k
  ps_deleted :: "int fset"
  ps_marks :: "(int, ('t, 'v) mark) fmap"

definition frozenMark :: "bool \<Rightarrow> ('t, 'v) mark_op \<Rightarrow> ('t, 'v) mark" where
  "frozenMark removed op = \<lparr>mk_mid = mo_mid op, mk_mtype = mo_mtype op, mk_value = mo_value op,
     mk_startId = mo_startId op, mk_endId = mo_endId op,
     mk_startSide = (case mo_startSide op of Some s \<Rightarrow> s | None \<Rightarrow> Before),
     mk_endSide = (case mo_endSide op of Some s \<Rightarrow> s | None \<Rightarrow> After),
     mk_ts = (case mo_ts op of Some t \<Rightarrow> t | None \<Rightarrow> mo_mid op), mk_removed = removed\<rparr>"

definition peri_init :: "('k, 'i, 'e) kernel \<Rightarrow> ('k, 't, 'v) peri" where
  "peri_init K = \<lparr>ps_shadow = k_init K, ps_deleted = {||}, ps_marks = fmempty\<rparr>"

definition peri_prepare ::
  "('k, 'i, 'e) kernel \<Rightarrow> ('k, 't, 'v) peri \<Rightarrow> ('i, 't, 'v) peri_op \<Rightarrow> ('i, 't, 'v) peri_op res"
where
  "peri_prepare K state op = (case (op, k_prepare K) of
       (PIns x, Some prep) \<Rightarrow> rbind (prep (ps_shadow state) x) (\<lambda>y. Inr (PIns y))
     | _ \<Rightarrow> Inr op)"

fun peri_apply ::
  "('k, 'i, 'e) kernel \<Rightarrow> ('k, 't, 'v) peri \<Rightarrow> ('i, 't, 'v) peri_op \<Rightarrow> ('k, 't, 'v) peri res"
where
  "peri_apply K state (PIns x) =
     rbind (k_apply K (ps_shadow state) x) (\<lambda>shadow. Inr (state\<lparr>ps_shadow := shadow\<rparr>))"
| "peri_apply K state (PDel i) = Inr (state\<lparr>ps_deleted := finsert i (ps_deleted state)\<rparr>)"
| "peri_apply K state (PAddMark m) =
     Inr (state\<lparr>ps_marks := fmupd (mo_mid m) (frozenMark False m) (ps_marks state)\<rparr>)"
| "peri_apply K state (PRemoveMark m) =
     Inr (state\<lparr>ps_marks := fmupd (mo_mid m) (frozenMark True m) (ps_marks state)\<rparr>)"
| "peri_apply K state (POther ty) = Inl (Error ''unknown peritext op type'')"

text \<open>The batch collects the inserts and applies them to the kernel at the end.\<close>

fun peri_batch_step ::
  "('i, 't, 'v) peri_op \<Rightarrow> 'i list \<times> int fset \<times> (int, ('t, 'v) mark) fmap \<Rightarrow>
   ('i list \<times> int fset \<times> (int, ('t, 'v) mark) fmap) res"
where
  "peri_batch_step (PIns x) (insOps, dels, marks) = Inr (insOps @ [x], dels, marks)"
| "peri_batch_step (PDel i) (insOps, dels, marks) = Inr (insOps, finsert i dels, marks)"
| "peri_batch_step (PAddMark m) (insOps, dels, marks) =
     Inr (insOps, dels, fmupd (mo_mid m) (frozenMark False m) marks)"
| "peri_batch_step (PRemoveMark m) (insOps, dels, marks) =
     Inr (insOps, dels, fmupd (mo_mid m) (frozenMark True m) marks)"
| "peri_batch_step (POther ty) t = Inl (Error ''unknown peritext op type'')"

definition peri_applyBatch ::
  "('k, 'i, 'e) kernel \<Rightarrow> ('k, 't, 'v) peri \<Rightarrow> ('i, 't, 'v) peri_op list \<Rightarrow> ('k, 't, 'v) peri res"
where
  "peri_applyBatch K state ops =
     rbind (foldM peri_batch_step ops ([], ps_deleted state, ps_marks state)) (\<lambda>(insOps, dels, marks).
     rbind (if insOps \<noteq> [] then k_applyBatch K (ps_shadow state) insOps else Inr (ps_shadow state)) (\<lambda>shadow.
       Inr \<lparr>ps_shadow = shadow, ps_deleted = dels, ps_marks = marks\<rparr>))"

text \<open>Unions; a mark already present is never overwritten.\<close>

definition add_members :: "int fset \<Rightarrow> int fset \<Rightarrow> int fset" where
  "add_members t s = foldl (\<lambda>t i. finsert i t) t (sorted_list_of_fset s)"

definition add_marks :: "(int, 'm) fmap \<Rightarrow> (int, 'm) fmap \<Rightarrow> (int, 'm) fmap" where
  "add_marks t s = foldl (\<lambda>t (mid, m). if fmlookup t mid = None then fmupd mid m t else t) t (fm_entries s)"

definition peri_merge3 ::
  "('k, 'i, 'e) kernel \<Rightarrow> ('k, 't, 'v) peri \<Rightarrow> ('k, 't, 'v) peri \<Rightarrow> ('k, 't, 'v) peri \<Rightarrow> ('k, 't, 'v) peri res"
where
  "peri_merge3 K l a b =
     rbind (k_merge3 K (k_init K) (ps_shadow a) (ps_shadow b)) (\<lambda>shadow.
       Inr \<lparr>ps_shadow = shadow,
         ps_deleted = add_members (add_members (ps_deleted a) (ps_deleted l)) (ps_deleted b),
         ps_marks = add_marks (add_marks (ps_marks a) (ps_marks l)) (ps_marks b)\<rparr>)"

section \<open>The resolver\<close>

record 'e ctx =
  cx_birth :: "int list"
  cx_live :: "int list"
  cx_cp :: "(int \<times> 'e) list"
  cx_deleted :: "int fset"
  cx_hasBirth :: "int \<Rightarrow> bool"

definition buildCtx :: "('k, 'i, 'e) kernel \<Rightarrow> ('k, 't, 'v) peri \<Rightarrow> 'e ctx res" where
  "buildCtx K state = rbind (k_readEntries K (ps_shadow state)) (\<lambda>entries.
     let birth = map fst entries in
     Inr \<lparr>cx_birth = birth, cx_live = filter (\<lambda>c. c |\<notin>| ps_deleted state) birth, cx_cp = entries,
       cx_deleted = ps_deleted state, cx_hasBirth = k_has K (ps_shadow state)\<rparr>)"

definition isLive :: "'e ctx \<Rightarrow> int \<Rightarrow> bool" where
  "isLive ctx a \<longleftrightarrow> cx_hasBirth ctx a \<and> a |\<notin>| cx_deleted ctx"

text \<open>
  The position of an id in a list of distinct ids, and the nearest live id strictly to the right
  (\<open>fwd\<close>) or left of a birth index. An id without a birth has no index, and the source then
  compares with an undefined index and finds nothing.
\<close>

fun pos_of :: "int list \<Rightarrow> int \<Rightarrow> nat option" where
  "pos_of [] a = None"
| "pos_of (x # xs) a = (if x = a then Some 0 else map_option Suc (pos_of xs a))"

definition scan :: "int list \<Rightarrow> int fset \<Rightarrow> nat option \<Rightarrow> bool \<Rightarrow> int option" where
  "scan birth dels i fwd = (case i of None \<Rightarrow> None
     | Some i \<Rightarrow> find (\<lambda>b. b |\<notin>| dels) (if fwd then drop (i + 1) birth else rev (take i birth)))"

definition rehome :: "'e ctx \<Rightarrow> int \<Rightarrow> bool \<Rightarrow> int option" where
  "rehome ctx a fwd = (if isLive ctx a then Some a
     else scan (cx_birth ctx) (cx_deleted ctx) (pos_of (cx_birth ctx) a) fwd)"

definition newer_run :: "int \<Rightarrow> int list \<Rightarrow> nat" where
  "newer_run ts xs = length (takeWhile (\<lambda>c. ts < c) xs)"

definition startIndex :: "('t, 'v) mark \<Rightarrow> 'e ctx \<Rightarrow> nat option" where
  "startIndex m ctx = (case rehome ctx (mk_startId m) (mk_startSide m = Before) of
       None \<Rightarrow> if mk_startSide m = Before then None else Some 0
     | Some a \<Rightarrow> (case pos_of (cx_live ctx) a of None \<Rightarrow> None
         | Some i \<Rightarrow> if mk_startSide m = Before then Some i
             else Some (i + 1 + newer_run (mk_ts m) (drop (i + 1) (cx_live ctx)))))"

definition endIndex :: "('t, 'v) mark \<Rightarrow> 'e ctx \<Rightarrow> int option" where
  "endIndex m ctx = (case rehome ctx (mk_endId m) (mk_endSide m \<noteq> After) of
       None \<Rightarrow> if mk_endSide m = After then None else Some (int (length (cx_live ctx)) - 1)
     | Some a \<Rightarrow> (case pos_of (cx_live ctx) a of None \<Rightarrow> None
         | Some i \<Rightarrow> if mk_endSide m = After
             then Some (int (i + newer_run (mk_ts m) (drop (i + 1) (cx_live ctx))))
             else Some (int i - 1 - int (newer_run (mk_ts m) (rev (take i (cx_live ctx)))))))"

definition coveredIds :: "('t, 'v) mark \<Rightarrow> 'e ctx \<Rightarrow> int list" where
  "coveredIds m ctx = (case (startIndex m ctx, endIndex m ctx) of
       (Some lo, Some hi) \<Rightarrow>
         if hi < int lo then [] else take (nat hi + 1 - lo) (drop lo (cx_live ctx))
     | _ \<Rightarrow> [])"

text \<open>The best mark per character and type.\<close>

record 'v winner =
  w_mid :: int
  w_removed :: bool
  w_value :: "'v option"

definition best_step ::
  "('t, 'v) mark \<Rightarrow> (int \<times> ('t \<times> 'v winner) list) list \<Rightarrow> int \<Rightarrow> (int \<times> ('t \<times> 'v winner) list) list"
where
  "best_step m best c = (case map_of best c of None \<Rightarrow> best
     | Some bc \<Rightarrow>
         (case map_of bc (mk_mtype m) of
            Some cur \<Rightarrow> if w_mid cur < mk_mid m
              then AList.update c (AList.update (mk_mtype m)
                \<lparr>w_mid = mk_mid m, w_removed = mk_removed m, w_value = mk_value m\<rparr> bc) best
              else best
          | None \<Rightarrow> AList.update c (AList.update (mk_mtype m)
                \<lparr>w_mid = mk_mid m, w_removed = mk_removed m, w_value = mk_value m\<rparr> bc) best))"

definition best_marks :: "'e ctx \<Rightarrow> ('t, 'v) mark list \<Rightarrow> (int \<times> ('t \<times> 'v winner) list) list" where
  "best_marks ctx ms = foldl (\<lambda>best m. foldl (best_step m) best (coveredIds m ctx))
     (map (\<lambda>c. (c, [])) (cx_live ctx)) ms"

record ('e, 't, 'v) rendered =
  re_id :: int
  re_char :: "'e option"
  re_marks :: "('t \<times> 'v option) list"

definition active_marks :: "('t::linorder \<times> 'v winner) list \<Rightarrow> ('t \<times> 'v option) list" where
  "active_marks bc = sort_by (\<lambda>x y. fst x < fst y)
     (map (\<lambda>(t, w). (t, w_value w)) (filter (\<lambda>(t, w). \<not> w_removed w) bc))"

definition renderDoc ::
  "('k, 'i, 'e) kernel \<Rightarrow> ('k, 't::linorder, 'v) peri \<Rightarrow> ('e, 't, 'v) rendered list res"
where
  "renderDoc K state = rbind (buildCtx K state) (\<lambda>ctx.
     let best = best_marks ctx (map snd (fm_entries (ps_marks state))) in
     Inr (map (\<lambda>c. \<lparr>re_id = c, re_char = map_of (cx_cp ctx) c,
       re_marks = active_marks (case map_of best c of Some bc \<Rightarrow> bc | None \<Rightarrow> [])\<rparr>) (cx_live ctx)))"

definition peri_flags ::
  "('k, 'i, 'e) kernel \<Rightarrow> ('k, 't::linorder, 'v) peri \<Rightarrow> 't \<Rightarrow> ('e option \<times> bool) list res"
where
  "peri_flags K state mtype = rbind (renderDoc K state) (\<lambda>doc.
     Inr (map (\<lambda>e. (re_char e, \<exists>x \<in> set (re_marks e). fst x = mtype)) doc))"

definition peri_coveredIds :: "('k, 'i, 'e) kernel \<Rightarrow> ('k, 't, 'v) peri \<Rightarrow> ('t, 'v) mark \<Rightarrow> int list res" where
  "peri_coveredIds K state m = rbind (buildCtx K state) (\<lambda>ctx. Inr (coveredIds m ctx))"

section \<open>The audit of a merge\<close>

record audit =
  au_ok :: bool
  au_missing :: "(int \<times> int) list"
  au_mismatches :: "int list"

definition auditMergeCoverage ::
  "('k, 'i, 'e) kernel \<Rightarrow> ('k, 't, 'v) peri \<Rightarrow> ('k, 't, 'v) peri \<Rightarrow> ('k, 't, 'v) peri \<Rightarrow> ('k, 't, 'v) peri \<Rightarrow> audit res"
where
  "auditMergeCoverage K l a b merged = rbind (buildCtx K merged) (\<lambda>ctx.
     let expected = ps_deleted l |\<union>| ps_deleted a |\<union>| ps_deleted b;
       missing = concat (map (\<lambda>(mid, m). map (\<lambda>i. (mid, i))
         (filter (\<lambda>i. \<not> cx_hasBirth ctx i) [mk_startId m, mk_endId m])) (fm_entries (ps_marks merged)));
       mismatches = filter (\<lambda>i. (i |\<in>| ps_deleted merged) \<noteq> (i |\<in>| expected)) (cx_birth ctx)
     in Inr \<lparr>au_ok = (missing = [] \<and> mismatches = []), au_missing = missing, au_mismatches = mismatches\<rparr>)"

section \<open>Serialisation\<close>

text \<open>\<open>kenc\<close> and \<open>kdec\<close> write and read the kernel's state.\<close>

definition peri_encodeState ::
  "('k \<Rightarrow> 'b) \<Rightarrow> ('k, 't, 'v) peri \<Rightarrow> 'b \<times> int list \<times> ('t, 'v) mark list"
where
  "peri_encodeState kenc state =
     (kenc (ps_shadow state), sorted_list_of_fset (ps_deleted state), map snd (fm_entries (ps_marks state)))"

definition peri_decodeState ::
  "('b \<Rightarrow> 'k) \<Rightarrow> 'b \<times> int list \<times> ('t, 'v) mark list \<Rightarrow> ('k, 't, 'v) peri"
where
  "peri_decodeState kdec enc = (case enc of (sh, dels, marks) \<Rightarrow>
     \<lparr>ps_shadow = kdec sh, ps_deleted = foldl (\<lambda>g i. finsert i g) {||} dels,
       ps_marks = foldl (\<lambda>m k. fmupd (mk_mid k) k m) fmempty marks\<rparr>)"

definition emb_encode_shadow :: "'e emb \<Rightarrow> (int \<times> nat list \<times> 'e) list" where
  "emb_encode_shadow s = map (\<lambda>(i, r). (i, er_coord r, er_el r)) (fm_entries s)"

definition emb_decode_shadow :: "(int \<times> nat list \<times> 'e) list \<Rightarrow> 'e emb" where
  "emb_decode_shadow xs = foldl (\<lambda>m (i, coord, el). fmupd i \<lparr>er_coord = coord, er_el = el\<rparr> m) fmempty xs"

section \<open>The kernels and the datatype\<close>

definition emb_kernel :: "(nat \<Rightarrow> nat list) \<Rightarrow> ('e emb, int \<times> 'e \<times> int option, 'e) kernel" where
  "emb_kernel code = \<lparr>k_init = emb_init, k_prepare = None,
     k_apply = (\<lambda>s (i, el, anc). emb_apply code s (EIns i el anc)),
     k_applyBatch = (\<lambda>s ops. emb_applyBatch code s (map (\<lambda>(i, el, anc). EIns i el anc) ops)),
     k_merge3 = emb_merge3,
     k_readEntries = (\<lambda>s. Inr (map (\<lambda>(i, r). (i, er_el r)) (emb_readEntries s))),
     k_has = (\<lambda>s i. fmlookup s i \<noteq> None), k_ins_id = fst\<rparr>"

definition rga_kernel :: "('e rga_state, int \<times> 'e \<times> int option, 'e) kernel" where
  "rga_kernel = \<lparr>k_init = rga_init,
     k_prepare = Some (\<lambda>s (i, el, anc). rbind (rga_prepare s (RIns i el anc)) (\<lambda>op. Inr (i, el, anc))),
     k_apply = (\<lambda>s (i, el, anc). rga_apply s (RIns i el anc)),
     k_applyBatch = (\<lambda>s ops. rga_applyBatch s (map (\<lambda>(i, el, anc). RIns i el anc) ops)),
     k_merge3 = rga_merge3,
     k_readEntries = (\<lambda>s. rbind (rga_readEntries s) (\<lambda>es. Inr (map (\<lambda>(i, r). (i, rr_el r)) es))),
     k_has = rga_has, k_ins_id = fst\<rparr>"

definition peri_dt ::
  "('k, 'i, 'e) kernel \<Rightarrow> (('i, 't::linorder, 'v) peri_op, ('k, 't, 'v) peri, unit, ('e, 't, 'v) rendered list res) dtype"
where
  "peri_dt K = \<lparr>dt_init = peri_init K, dt_prepare = Some (peri_prepare K), dt_apply = peri_apply K,
     dt_merge3 = peri_merge3 K, dt_read = renderDoc K, dt_compact = None, dt_remapState = None,
     dt_ins_id = (\<lambda>x. case x of PIns i \<Rightarrow> Some (k_ins_id K i) | _ \<Rightarrow> None)\<rparr>"

end
