(* ===== verification/PeritextRender.thy ===== *)
theory PeritextRender
  imports Peritext
begin

text \<open>
  What the resolver of \<^theory_text>\<open>Peritext\<close> computes: the interval of a mark with the default sides, and the
  last-writer-wins choice of the mark shown for each character and type.
\<close>

section \<open>Positions\<close>

lemma pos_of_Some: "pos_of xs a = Some i \<Longrightarrow> i < length xs \<and> xs ! i = a"
  by (induction xs arbitrary: i) (auto split: if_splits)

lemma pos_of_None: "pos_of xs a = None \<longleftrightarrow> a \<notin> set xs"
  by (induction xs) auto

lemma pos_of_append: "a \<notin> set p \<Longrightarrow> pos_of (p @ a # q) a = Some (length p)"
  by (induction p) auto

lemma find_filter: "find P xs = (case filter P xs of [] \<Rightarrow> None | x # _ \<Rightarrow> Some x)"
  by (induction xs) auto

section \<open>The interval of a mark\<close>

text \<open>The context of a document whose births are the list \<open>birth\<close>.\<close>

definition ctx_ok :: "'e ctx \<Rightarrow> bool" where
  "ctx_ok ctx \<longleftrightarrow> distinct (cx_birth ctx) \<and> (\<forall>i. cx_hasBirth ctx i \<longleftrightarrow> i \<in> set (cx_birth ctx)) \<and>
     cx_live ctx = filter (\<lambda>c. c |\<notin>| cx_deleted ctx) (cx_birth ctx)"

abbreviation survivors :: "'e ctx \<Rightarrow> int list \<Rightarrow> int list" where
  "survivors ctx xs \<equiv> filter (\<lambda>c. c |\<notin>| cx_deleted ctx) xs"

lemma isLive_iff: "ctx_ok ctx \<Longrightarrow> isLive ctx a \<longleftrightarrow> a \<in> set (cx_live ctx)"
  by (auto simp: isLive_def ctx_ok_def)

lemma rehome_fwd:
  assumes ok: "ctx_ok ctx" and b: "cx_birth ctx = p @ a # q"
  shows "rehome ctx a True = (case survivors ctx (a # q) of [] \<Rightarrow> None | x # _ \<Rightarrow> Some x)"
proof -
  have a: "a \<notin> set p" using ok b by (auto simp: ctx_ok_def)
  then have i: "pos_of (cx_birth ctx) a = Some (length p)" by (simp add: b pos_of_append)
  have "isLive ctx a \<longleftrightarrow> a |\<notin>| cx_deleted ctx" using ok b by (auto simp: isLive_def ctx_ok_def)
  with i show ?thesis by (simp add: rehome_def scan_def b find_filter split: list.split)
qed

lemma rehome_bwd:
  assumes ok: "ctx_ok ctx" and b: "cx_birth ctx = p @ a # q"
  shows "rehome ctx a False = (if survivors ctx (p @ [a]) = [] then None else Some (last (survivors ctx (p @ [a]))))"
proof -
  have a: "a \<notin> set p" using ok b by (auto simp: ctx_ok_def)
  then have i: "pos_of (cx_birth ctx) a = Some (length p)" by (simp add: b pos_of_append)
  have l: "isLive ctx a \<longleftrightarrow> a |\<notin>| cx_deleted ctx" using ok b by (auto simp: isLive_def ctx_ok_def)
  have f: "find P (rev xs) = (if filter P xs = [] then None else Some (last (filter P xs)))" for P and xs :: "int list"
    unfolding find_filter rev_filter [symmetric]
    by (cases "filter P xs" rule: rev_cases) simp_all
  show ?thesis using i l f [of "\<lambda>c. c |\<notin>| cx_deleted ctx" p] by (simp add: rehome_def scan_def b)
qed

lemma slice: "take (n + k - n) (drop n (xs @ ys)) = take k ys" if "length xs = n"
  using that by simp

text \<open>
  A mark with the default sides over the births \<open>mid\<close>, from its first to its last, with \<open>p\<close>
  before and \<open>q\<close> after: it covers the survivors of \<open>mid\<close> and the run of newer ids that follows.
\<close>

lemma default_span_covers:
  assumes ok: "ctx_ok ctx" and b: "cx_birth ctx = p @ mid @ q" and mid: "mid \<noteq> []"
    and m: "mk_startId m = hd mid" "mk_endId m = last mid" "mk_startSide m = Before" "mk_endSide m = After"
  shows "coveredIds m ctx = (if survivors ctx (p @ mid) = [] then []
    else survivors ctx mid @ takeWhile (\<lambda>c. mk_ts m < c) (survivors ctx q))"
proof -
  let ?S = "survivors ctx"
  have live: "cx_live ctx = ?S p @ ?S mid @ ?S q" and d: "distinct (p @ mid @ q)"
    using ok b by (simp_all add: ctx_ok_def)
  obtain s mid' where s: "mid = s # mid'" using mid by (cases mid) auto
  obtain mid'' e where e: "mid = mid'' @ [e]" using mid by (cases mid rule: rev_cases) auto
  have hs: "hd mid = s" by (simp add: s)
  have le: "last mid = e" by (simp add: e)
  have fwd: "rehome ctx s True = (case ?S (mid @ q) of [] \<Rightarrow> None | x # _ \<Rightarrow> Some x)"
    using rehome_fwd [OF ok, of p s "mid' @ q"] b by (simp add: s)
  have bwd: "rehome ctx e False = (if ?S (p @ mid) = [] then None else Some (last (?S (p @ mid))))"
    using rehome_bwd [OF ok, of "p @ mid''" e q] b by (simp add: e)
  have dl: "distinct (?S p @ ?S mid @ ?S q)"
    using d by auto
  have start: "startIndex m ctx = (if ?S (mid @ q) = [] then None else Some (length (?S p)))"
  proof (cases "?S (mid @ q)")
    case Nil
    then show ?thesis unfolding startIndex_def m hs using fwd by simp
  next
    case (Cons x xs)
    have "?S p @ ?S mid @ ?S q = ?S p @ x # xs" using Cons by simp
    then have "x \<notin> set (?S p)" using dl by simp
    then have "pos_of (cx_live ctx) x = Some (length (?S p))"
      using Cons pos_of_append [of x "?S p" xs] by (simp add: live)
    with Cons show ?thesis unfolding startIndex_def m hs using fwd by simp
  qed
  have stop: "endIndex m ctx = (if ?S (p @ mid) = [] then None
      else Some (int (length (?S (p @ mid)) - 1 + newer_run (mk_ts m) (?S q))))"
  proof (cases "?S (p @ mid)" rule: rev_cases)
    case Nil
    then show ?thesis unfolding endIndex_def m le using bwd by simp
  next
    case (snoc xs x)
    have l2: "cx_live ctx = xs @ x # ?S q" using snoc live by simp
    have "?S p @ ?S mid @ ?S q = xs @ x # ?S q" using snoc by simp
    with dl have "distinct (xs @ x # ?S q)" by (simp only:)
    moreover have "distinct (xs @ x # ys) \<Longrightarrow> x \<notin> set xs" for ys by simp
    ultimately have "x \<notin> set xs" by blast
    then have "pos_of (cx_live ctx) x = Some (length xs)" by (simp add: l2 pos_of_append)
    with snoc show ?thesis unfolding endIndex_def m le using bwd by (simp add: l2)
  qed
  have tw: "take (newer_run (mk_ts m) ys) ys = takeWhile (\<lambda>c. mk_ts m < c) ys" for ys
    unfolding newer_run_def by (rule takeWhile_eq_take [symmetric])
  let ?n = "newer_run (mk_ts m) (?S q)"
  show ?thesis
  proof (cases "?S (p @ mid) = []")
    case True
    then show ?thesis unfolding coveredIds_def stop by (simp split: option.split)
  next
    case pm: False
    show ?thesis
    proof (cases "?S (mid @ q) = []")
      case True
      then show ?thesis using pm unfolding coveredIds_def start by simp
    next
      case False
      have drop: "drop (length (?S p)) (cx_live ctx) = ?S mid @ ?S q" by (simp add: live)
      have len: "length (?S (p @ mid)) = length (?S p) + length (?S mid)" by simp
      then have pos: "0 < length (?S p) + length (?S mid)" using pm by auto
      show ?thesis
      proof (cases "length (?S mid) + ?n = 0")
        case True
        then have z: "?S mid = []" "takeWhile (\<lambda>c. mk_ts m < c) (?S q) = []"
          by (simp_all add: newer_run_def)
        have "int (length (?S (p @ mid)) - 1 + ?n) < int (length (?S p))" using True pos len by simp
        then show ?thesis unfolding coveredIds_def start stop using pm False z by simp
      next
        case nz: False
        have ge: "\<not> int (length (?S (p @ mid)) - 1 + ?n) < int (length (?S p))" using nz pos len by linarith
        have size: "nat (int (length (?S (p @ mid)) - 1 + ?n)) + 1 - length (?S p) = length (?S mid) + ?n"
          using pos len by linarith
        have "coveredIds m ctx = take (nat (int (length (?S (p @ mid)) - 1 + ?n)) + 1 - length (?S p))
            (drop (length (?S p)) (cx_live ctx))"
          unfolding coveredIds_def start stop using pm False ge by (simp only: if_False prod.case option.case)
        then show ?thesis using pm unfolding size drop by (auto simp: tw)
      qed
    qed
  qed
qed

section \<open>The shown marks\<close>

definition win :: "('t, 'v) mark \<Rightarrow> 'v winner" where
  "win m = \<lparr>w_mid = mk_mid m, w_removed = mk_removed m, w_value = mk_value m\<rparr>"

definition upd :: "('t, 'v) mark \<Rightarrow> ('t \<times> 'v winner) list \<Rightarrow> ('t \<times> 'v winner) list" where
  "upd m bc = (case map_of bc (mk_mtype m) of
     Some cur \<Rightarrow> if w_mid cur < mk_mid m then AList.update (mk_mtype m) (win m) bc else bc
   | None \<Rightarrow> AList.update (mk_mtype m) (win m) bc)"

lemma best_step_lookup:
  "map_of (best_step m best c') c = (if c = c' then map_option (upd m) (map_of best c) else map_of best c)"
  by (auto simp: best_step_def upd_def win_def update_conv' split: option.split)

lemma best_step_fold:
  "distinct xs \<Longrightarrow> map_of (foldl (best_step m) best xs) c =
     (if c \<in> set xs then map_option (upd m) (map_of best c) else map_of best c)"
  by (induction xs arbitrary: best) (auto simp: best_step_lookup)

lemma coveredIds_sub: "set (coveredIds m ctx) \<subseteq> set (cx_live ctx)"
  by (auto simp: coveredIds_def split: option.splits dest!: in_set_takeD in_set_dropD)

lemma coveredIds_distinct: "distinct (cx_live ctx) \<Longrightarrow> distinct (coveredIds m ctx)"
  by (auto simp: coveredIds_def split: option.splits intro: distinct_take distinct_drop)

lemma best_marks_lookup:
  fixes ms :: "('t, 'v) mark list"
  assumes "distinct (cx_live ctx)" and "c \<in> set (cx_live ctx)"
  shows "map_of (best_marks ctx ms) c = Some (foldl (\<lambda>bc m. upd m bc) [] (filter (\<lambda>m. c \<in> set (coveredIds m ctx)) ms))"
proof -
  have "map_of (foldl (\<lambda>best m. foldl (best_step m) best (coveredIds m ctx)) best ms) c =
      map_option (\<lambda>bc. foldl (\<lambda>bc m. upd m bc) bc (filter (\<lambda>m. c \<in> set (coveredIds m ctx)) ms)) (map_of best c)" for best
    by (induction ms arbitrary: best)
      (auto simp: best_step_fold [OF coveredIds_distinct [OF assms(1)]] option.map_comp comp_def option.map_ident)
  moreover have "map_of (map (\<lambda>c. (c, [])) (cx_live ctx)) c = Some ([] :: ('t \<times> 'v winner) list)"
  proof -
    have "c \<in> set xs \<Longrightarrow> map_of (map (\<lambda>c. (c, [])) xs) c = Some ([] :: ('t \<times> 'v winner) list)" for xs by (induction xs) auto
    then show ?thesis using assms(2) .
  qed
  ultimately show ?thesis by (simp add: best_marks_def)
qed

definition wins :: "('t, 'v) mark set \<Rightarrow> ('t, 'v) mark \<Rightarrow> bool" where
  "wins M m \<longleftrightarrow> m \<in> M \<and> (\<forall>m' \<in> M. mk_mtype m' = mk_mtype m \<longrightarrow> mk_mid m' \<le> mk_mid m)"

lemma unique_choice:
  assumes "\<And>m. P m \<and> Q m \<longleftrightarrow> m = y" and "l = Some (f y)"
  shows "l = Some w \<longleftrightarrow> (\<exists>m. P m \<and> Q m \<and> w = f m)"
  using assms(1) [of y] assms by (metis option.inject)

lemma upd_fold:
  "distinct (map mk_mid ms) \<Longrightarrow> distinct (map fst (foldl (\<lambda>bc m. upd m bc) [] ms)) \<and>
   (\<forall>t w. map_of (foldl (\<lambda>bc m. upd m bc) [] ms) t = Some w \<longleftrightarrow> (\<exists>m. wins (set ms) m \<and> mk_mtype m = t \<and> w = win m))"
proof (induction ms rule: rev_induct)
  case Nil
  then show ?case by (simp add: wins_def)
next
  case (snoc n ms)
  let ?bc = "foldl (\<lambda>bc m. upd m bc) [] ms"
  have IH: "distinct (map fst ?bc)"
    "\<And>t w. map_of ?bc t = Some w \<longleftrightarrow> (\<exists>m. wins (set ms) m \<and> mk_mtype m = t \<and> w = win m)"
    using snoc by auto
  have new: "mk_mid m \<noteq> mk_mid n" if "m \<in> set ms" for m
  proof -
    have "mk_mid n \<notin> mk_mid ` set ms" using snoc.prems by simp
    then show ?thesis using that by (metis image_eqI)
  qed
  have d: "distinct (map fst (upd n ?bc))"
    using IH(1) by (auto simp: upd_def distinct_update split: option.split)
  have look: "map_of (upd n ?bc) t = Some w \<longleftrightarrow> (\<exists>m. wins (set (ms @ [n])) m \<and> mk_mtype m = t \<and> w = win m)" for t w
  proof (cases "t = mk_mtype n")
    case False
    then have "map_of (upd n ?bc) t = map_of ?bc t" by (auto simp: upd_def update_conv' split: option.split)
    moreover have "wins (set (ms @ [n])) m \<and> mk_mtype m = t \<and> w = win m \<longleftrightarrow>
        wins (set ms) m \<and> mk_mtype m = t \<and> w = win m" for m
      using False by (auto simp: wins_def)
    ultimately show ?thesis by (simp only: IH(2))
  next
    case True
    show ?thesis
    proof (cases "map_of ?bc t")
      case None
      then have none: "\<not> (\<exists>m. wins (set ms) m \<and> mk_mtype m = t)" using IH(2) [of t] by auto
      have "m \<notin> set ms" if "mk_mtype m = t" for m
      proof
        assume "m \<in> set ms"
        with that have ne: "Set.filter (\<lambda>m. mk_mtype m = t) (set ms) \<noteq> {}" by auto
        let ?T = "Set.filter (\<lambda>m. mk_mtype m = t) (set ms)"
        have fin: "finite ?T" by simp
        obtain x where x: "x \<in> ?T" "mk_mid x = Max (mk_mid ` ?T)"
          using Max_in [of "mk_mid ` ?T"] fin ne by (metis (no_types, lifting) finite_imageI image_iff image_is_empty)
        have "mk_mid m' \<le> mk_mid x" if "m' \<in> ?T" for m' using x(2) fin that by simp
        with x(1) have "wins (set ms) x \<and> mk_mtype x = t" by (auto simp: wins_def)
        with none show False by blast
      qed
      then have "wins (set (ms @ [n])) m \<and> mk_mtype m = t \<longleftrightarrow> m = n" for m
        using True by (auto simp: wins_def)
      moreover have "map_of (upd n ?bc) t = Some (win n)" using None True by (simp add: upd_def update_conv')
      ultimately show ?thesis by (rule unique_choice)
    next
      case (Some cur)
      then obtain x where x: "wins (set ms) x" "mk_mtype x = t" "cur = win x" using IH(2) by blast
      have xin: "x \<in> set ms" using x(1) by (simp add: wins_def)
      have "wins (set (ms @ [n])) m \<and> mk_mtype m = t \<longleftrightarrow> m = (if mk_mid x < mk_mid n then n else x)" for m
      proof -
        have uniq: "m = m'" if "m \<in> set (ms @ [n])" "m' \<in> set (ms @ [n])" "mk_mid m = mk_mid m'" for m m'
          using snoc.prems that by (metis distinct_map inj_onD)
        have le: "mk_mid m' \<le> mk_mid x" if "m' \<in> set ms" "mk_mtype m' = t" for m'
          using x that by (auto simp: wins_def)
        show ?thesis
        proof
          assume m: "wins (set (ms @ [n])) m \<and> mk_mtype m = t"
          then have "mk_mid x \<le> mk_mid m" "mk_mid n \<le> mk_mid m" "m \<in> set (ms @ [n])"
            using xin x(2) True by (auto simp: wins_def)
          moreover have "m = n \<or> mk_mid m \<le> mk_mid x" using le m \<open>m \<in> set (ms @ [n])\<close> by auto
          ultimately have "mk_mid m = mk_mid (if mk_mid x < mk_mid n then n else x)" using new [OF xin] by auto
          then show "m = (if mk_mid x < mk_mid n then n else x)"
            using uniq [OF \<open>m \<in> set (ms @ [n])\<close>] xin by (metis Un_iff list.set_intros(1) set_append)
        next
          assume m: "m = (if mk_mid x < mk_mid n then n else x)"
          then show "wins (set (ms @ [n])) m \<and> mk_mtype m = t"
            using le xin x(2) True by (fastforce simp: wins_def)
        qed
      qed
      moreover have "map_of (upd n ?bc) t = Some (win (if mk_mid x < mk_mid n then n else x))"
        using Some True x(3) by (simp add: upd_def update_conv' win_def)
      ultimately show ?thesis by (rule unique_choice)
    qed
  qed
  from d look show ?case by simp
qed

lemma active_marks_spec:
  assumes "distinct (map fst bc)"
  shows "sorted_wrt (<) (map fst (active_marks bc)) \<and>
    (\<forall>t v. (t, v) \<in> set (active_marks bc) \<longleftrightarrow> (\<exists>w. map_of bc t = Some w \<and> \<not> w_removed w \<and> w_value w = v))"
proof -
  let ?xs = "map (\<lambda>(t, w). (t, w_value w)) (filter (\<lambda>(t, w). \<not> w_removed w) bc)"
  have "map fst ?xs = map fst (filter (\<lambda>(t, w). \<not> w_removed w) bc)" by (induction bc) auto
  then have d: "distinct (map fst ?xs)" by (simp only: distinct_map_filter [OF assms])
  then have dx: "distinct ?xs" "inj_on fst (set ?xs)" by (simp_all only: distinct_map)
  have "total_on (\<lambda>x y. fst x < fst y) (set ?xs)"
    unfolding total_on_def
  proof (intro conjI ballI impI)
    fix x y
    assume "x \<in> set ?xs" "y \<in> set ?xs" "x \<noteq> y"
    then have "fst x \<noteq> fst y" using dx(2) by (meson inj_onD)
    then show "fst x < fst y \<or> fst y < fst x" by (rule neqE) simp_all
  qed auto
  from sorted_sort_by [OF this dx(1)] have "sorted_wrt (<) (map fst (active_marks bc))"
    by (simp add: active_marks_def sorted_wrt_map)
  moreover have "(t, v) \<in> set (active_marks bc) \<longleftrightarrow> (\<exists>w. map_of bc t = Some w \<and> \<not> w_removed w \<and> w_value w = v)" for t v
    using map_of_eq_Some_iff [OF assms] by (force simp: active_marks_def)
  ultimately show ?thesis by blast
qed

lemma fm_values: "m \<in> set (map snd (fm_entries f)) \<longleftrightarrow> (\<exists>k. fmlookup f k = Some m)"
  by (auto simp: fm_entries_iff image_iff) (metis fm_entries_iff snd_conv)

lemma render_spec:
  assumes "buildCtx K s = Inr ctx" and "distinct (cx_live ctx)"
    and "\<forall>k m. fmlookup (ps_marks s) k = Some m \<longrightarrow> mk_mid m = k"
  shows "\<exists>doc. renderDoc K s = Inr doc \<and> map re_id doc = cx_live ctx \<and>
    (\<forall>e \<in> set doc. sorted_wrt (<) (map fst (re_marks e)) \<and>
      (\<forall>t v. (t, v) \<in> set (re_marks e) \<longleftrightarrow>
        (\<exists>m. wins {m. (\<exists>k. fmlookup (ps_marks s) k = Some m) \<and> re_id e \<in> set (coveredIds m ctx)} m \<and>
          mk_mtype m = t \<and> \<not> mk_removed m \<and> mk_value m = v)))"
proof -
  let ?ms = "map snd (fm_entries (ps_marks s))"
  let ?best = "best_marks ctx ?ms"
  let ?show = "\<lambda>c. \<lparr>re_id = c, re_char = map_of (cx_cp ctx) c,
       re_marks = active_marks (case map_of ?best c of Some bc \<Rightarrow> bc | None \<Rightarrow> [])\<rparr>"
  have mids: "distinct (map mk_mid ?ms)"
  proof -
    have "mk_mid (snd x) = fst x" if "x \<in> set (fm_entries (ps_marks s))" for x
      using that assms(3) fm_entries_iff by (metis surjective_pairing)
    then have "map mk_mid ?ms = fm_keys (ps_marks s)"
      unfolding map_map map_fst_fm_entries [symmetric] by (intro map_cong) auto
    then show ?thesis by (simp only: distinct_fm_keys)
  qed
  have r: "renderDoc K s = Inr (map ?show (cx_live ctx))"
    by (simp add: renderDoc_def assms(1) Let_def)
  have shown: "sorted_wrt (<) (map fst (re_marks (?show c))) \<and>
      (\<forall>t v. (t, v) \<in> set (re_marks (?show c)) \<longleftrightarrow>
        (\<exists>m. wins {m. (\<exists>k. fmlookup (ps_marks s) k = Some m) \<and> c \<in> set (coveredIds m ctx)} m \<and>
          mk_mtype m = t \<and> \<not> mk_removed m \<and> mk_value m = v))" if c: "c \<in> set (cx_live ctx)" for c
  proof -
    let ?f = "filter (\<lambda>m. c \<in> set (coveredIds m ctx)) ?ms"
    let ?bc = "foldl (\<lambda>bc m. upd m bc) [] ?f"
    have b: "map_of ?best c = Some ?bc" by (rule best_marks_lookup [OF assms(2) c])
    have u: "distinct (map fst ?bc)"
      "\<And>t w. map_of ?bc t = Some w \<longleftrightarrow> (\<exists>m. wins (set ?f) m \<and> mk_mtype m = t \<and> w = win m)"
      using upd_fold [OF distinct_map_filter [OF mids]] by blast+
    have f: "set ?f = {m. (\<exists>k. fmlookup (ps_marks s) k = Some m) \<and> c \<in> set (coveredIds m ctx)}"
      unfolding set_filter fm_values by blast
    have "(\<exists>w. map_of ?bc t = Some w \<and> \<not> w_removed w \<and> w_value w = v) \<longleftrightarrow>
        (\<exists>m. wins (set ?f) m \<and> mk_mtype m = t \<and> \<not> mk_removed m \<and> mk_value m = v)" for t v
      unfolding u(2) by (auto simp: win_def)
    then show ?thesis using active_marks_spec [OF u(1)] unfolding f by (simp add: b)
  qed
  show ?thesis
  proof (rule exI [of _ "map ?show (cx_live ctx)"], intro conjI ballI)
    show "renderDoc K s = Inr (map ?show (cx_live ctx))" by (rule r)
    show "map re_id (map ?show (cx_live ctx)) = cx_live ctx" by (simp add: comp_def)
    fix e
    assume "e \<in> set (map ?show (cx_live ctx))"
    then obtain c where c: "c \<in> set (cx_live ctx)" and e: "e = ?show c" by auto
    have id: "re_id e = c" by (simp add: e)
    show "sorted_wrt (<) (map fst (re_marks e))" unfolding e by (rule conjunct1 [OF shown [OF c]])
    show "\<forall>t v. (t, v) \<in> set (re_marks e) \<longleftrightarrow>
        (\<exists>m. wins {m. (\<exists>k. fmlookup (ps_marks s) k = Some m) \<and> re_id e \<in> set (coveredIds m ctx)} m \<and>
          mk_mtype m = t \<and> \<not> mk_removed m \<and> mk_value m = v)"
      unfolding id unfolding e by (rule conjunct2 [OF shown [OF c]])
  qed
qed

section \<open>Properties\<close>

text \<open>C23: last writer wins, per character and type. When the kernel lists its ids without repetition
  and marks are filed under their own ids, the reading shows each surviving character once, in
  document order, with strictly ascending mark types; a type is shown with a value exactly when the
  mark with the highest id among those of the type that cover the character is an added mark with
  that value.\<close>

theorem render_last_writer_wins:
  assumes "buildCtx K s = Inr ctx" and "distinct (cx_live ctx)"
    and "\<forall>k m. fmlookup (ps_marks s) k = Some m \<longrightarrow> mk_mid m = k"
  shows "\<exists>doc. renderDoc K s = Inr doc \<and> map re_id doc = cx_live ctx \<and>
    (\<forall>e \<in> set doc. sorted_wrt (<) (map fst (re_marks e)) \<and>
      (\<forall>t v. (t, v) \<in> set (re_marks e) \<longleftrightarrow>
        (\<exists>m. wins {m. (\<exists>k. fmlookup (ps_marks s) k = Some m) \<and> re_id e \<in> set (coveredIds m ctx)} m \<and>
          mk_mtype m = t \<and> \<not> mk_removed m \<and> mk_value m = v)))"
  using assms by (rule render_spec)

text \<open>C24: where a mark with the default sides reaches. Given by its first and last character in birth
  order, it covers the survivors among them and then the run of following survivors with ids newer
  than the mark; boundary characters that were deleted make no difference. It covers nothing when
  no character up to its end survives.\<close>

theorem default_mark_interval:
  assumes "ctx_ok ctx" and "cx_birth ctx = p @ mid @ q" and "mid \<noteq> []"
    and "mk_startId m = hd mid \<and> mk_endId m = last mid \<and> mk_startSide m = Before \<and> mk_endSide m = After"
  shows "coveredIds m ctx = (if survivors ctx (p @ mid) = [] then []
    else survivors ctx mid @ takeWhile (\<lambda>c. mk_ts m < c) (survivors ctx q))"
  using assms by (intro default_span_covers) simp_all

definition demo_mark :: "(nat, nat) mark" where
  "demo_mark = \<lparr>mk_mid = 4, mk_mtype = 0, mk_value = Some 7, mk_startId = 1, mk_endId = 2,
     mk_startSide = Before, mk_endSide = After, mk_ts = 4, mk_removed = False\<rparr>"

definition demo_ctx :: "nat ctx" where
  "demo_ctx = \<lparr>cx_birth = [1, 2, 5, 3], cx_live = [1, 5, 3], cx_cp = [(1, 10), (2, 11), (5, 12), (3, 13)],
     cx_deleted = {|2|}, cx_hasBirth = (\<lambda>i. i \<in> {1, 2, 3, 5})\<rparr>"

theorem default_mark_interval_witness:
  "ctx_ok demo_ctx \<and> coveredIds demo_mark demo_ctx = [1, 5]"
proof -
  have ok: "ctx_ok demo_ctx" by (auto simp: ctx_ok_def demo_ctx_def)
  have "coveredIds demo_mark demo_ctx = (if survivors demo_ctx ([] @ [1, 2]) = [] then []
    else survivors demo_ctx [1, 2] @ takeWhile (\<lambda>c. mk_ts demo_mark < c) (survivors demo_ctx [5, 3]))"
    by (rule default_mark_interval [OF ok]) (simp_all add: demo_ctx_def demo_mark_def)
  then show ?thesis using ok by (simp add: demo_ctx_def demo_mark_def)
qed

definition list_kernel :: "((int \<times> nat) list, int \<times> nat, nat) kernel" where
  "list_kernel = \<lparr>k_init = [], k_prepare = None, k_apply = (\<lambda>s x. Inr (s @ [x])),
     k_applyBatch = (\<lambda>s xs. Inr (s @ xs)), k_merge3 = (\<lambda>l a b. Inr a), k_readEntries = Inr,
     k_has = (\<lambda>s i. i \<in> fst ` set s), k_ins_id = fst\<rparr>"

theorem render_last_writer_wins_witness:
  "\<exists>doc. renderDoc list_kernel \<lparr>ps_shadow = [(1, 10), (2 :: int, 11 :: nat)], ps_deleted = {||}, ps_marks = fmupd 4 demo_mark fmempty\<rparr> = Inr doc \<and>
    map re_id doc = [1, 2]"
proof -
  let ?s = "\<lparr>ps_shadow = [(1, 10), (2 :: int, 11 :: nat)], ps_deleted = {||}, ps_marks = fmupd 4 demo_mark fmempty\<rparr>"
  let ?ctx = "\<lparr>cx_birth = [1, 2], cx_live = [1, 2], cx_cp = [(1, 10), (2, 11 :: nat)], cx_deleted = {||},
    cx_hasBirth = (\<lambda>i. i \<in> fst ` set [(1, 10), (2, 11 :: nat)])\<rparr>"
  have "buildCtx list_kernel ?s = Inr ?ctx" by (simp add: buildCtx_def list_kernel_def Let_def)
  moreover have "distinct (cx_live ?ctx)" by simp
  moreover have "\<forall>k m. fmlookup (ps_marks ?s) k = Some m \<longrightarrow> mk_mid m = k"
    by (simp add: demo_mark_def)
  ultimately obtain doc where "renderDoc list_kernel ?s = Inr doc" "map re_id doc = cx_live ?ctx"
    using render_last_writer_wins by blast
  then show ?thesis by simp
qed

end
