(* ===== verification/PeritextKernels.thy ===== *)
theory PeritextKernels
  imports PeritextRender
begin

text \<open>
  The interface a text kernel owes the rich-text datatype, as the locale \<open>text_kernel\<close>: insert
  events are represented, the union of two insert-only states merges over the empty base, and the
  reading lists the births once. Inside it the rich text meets the datatype contract of
  \<^theory_text>\<open>Mrdt\<close>; the embedded and the tombstone sequence are interpretations.
\<close>

section \<open>Events of a document\<close>

definition ins_of :: "('i, 't, 'v) peri_op event set \<Rightarrow> 'i event set" where
  "ins_of E = {(k, x). (k, PIns x) \<in> E}"

definition peri_del :: "('i, 't, 'v) peri_op event set \<Rightarrow> int \<Rightarrow> bool" where
  "peri_del E i \<longleftrightarrow> (\<exists>k. (k, PDel i) \<in> E)"

definition marked :: "('i, 't, 'v) peri_op event set \<Rightarrow> int \<Rightarrow> ('t, 'v) mark \<Rightarrow> bool" where
  "marked E mid m \<longleftrightarrow> (\<exists>k mo. mo_mid mo = mid \<and>
     ((k, PAddMark mo) \<in> E \<and> m = frozenMark False mo \<or> (k, PRemoveMark mo) \<in> E \<and> m = frozenMark True mo))"

definition births :: "('i \<Rightarrow> int) \<Rightarrow> 'i event set \<Rightarrow> int set" where
  "births ids E = ids ` snd ` E"

definition peri_good :: "('i event set \<Rightarrow> bool) \<Rightarrow> ('i, 't, 'v) peri_op event set \<Rightarrow> bool" where
  "peri_good kgood U \<longleftrightarrow> kgood (ins_of U) \<and> (\<forall>mid m m'. marked U mid m \<longrightarrow> marked U mid m' \<longrightarrow> m = m')"

definition peri_rep ::
  "('k, 'i, 'e) kernel \<Rightarrow> ('i event set \<Rightarrow> 'k \<Rightarrow> bool) \<Rightarrow> ('i, 't, 'v) peri_op event set \<Rightarrow> ('k, 't, 'v) peri \<Rightarrow> bool"
where
  "peri_rep K krep E s \<longleftrightarrow> krep (ins_of E) (ps_shadow s) \<and>
     (\<forall>i. i |\<in>| ps_deleted s \<longleftrightarrow> peri_del E i) \<and>
     (\<forall>mid m. fmlookup (ps_marks s) mid = Some m \<longleftrightarrow> marked E mid m) \<and>
     (\<forall>mid m. marked E mid m \<longrightarrow> {mk_startId m, mk_endId m} \<subseteq> births (k_ins_id K) (ins_of E))"

text \<open>
  An honest insert is honest for the kernel; an honest mark has a fresh id and endpoints among the
  delivered births; a delete may name any id.
\<close>

definition honest_mark ::
  "('k, 'i, 'e) kernel \<Rightarrow> ('i, 't, 'v) peri_op event set \<Rightarrow> ('i, 't, 'v) peri_op event set \<Rightarrow> ('t, 'v) mark_op \<Rightarrow> bool"
where
  "honest_mark K U E mo \<longleftrightarrow> (\<forall>m. \<not> marked U (mo_mid mo) m) \<and>
     {mo_startId mo, mo_endId mo} \<subseteq> births (k_ins_id K) (ins_of E)"

fun peri_honest ::
  "('k, 'i, 'e) kernel \<Rightarrow> ('i event set \<Rightarrow> 'i event set \<Rightarrow> 'i \<Rightarrow> bool) \<Rightarrow>
   ('i, 't, 'v) peri_op event set \<Rightarrow> ('i, 't, 'v) peri_op event set \<Rightarrow> ('i, 't, 'v) peri_op \<Rightarrow> bool"
where
  "peri_honest K khonest U E (PIns x) \<longleftrightarrow> khonest (ins_of U) (ins_of E) x"
| "peri_honest K khonest U E (PDel i) \<longleftrightarrow> True"
| "peri_honest K khonest U E (PAddMark mo) \<longleftrightarrow> honest_mark K U E mo"
| "peri_honest K khonest U E (PRemoveMark mo) \<longleftrightarrow> honest_mark K U E mo"
| "peri_honest K khonest U E (POther ty) \<longleftrightarrow> False"

lemma ins_of_simps [simp]:
  "ins_of (insert (k, PIns x) E) = insert (k, x) (ins_of E)"
  "ins_of (insert (k, PDel i) E) = ins_of E" "ins_of (insert (k, PAddMark m) E) = ins_of E"
  "ins_of (insert (k, PRemoveMark m) E) = ins_of E"
  "ins_of (A \<union> B) = ins_of A \<union> ins_of B" "ins_of {} = {}"
  by (auto simp: ins_of_def)

lemma ins_of_mono: "A \<subseteq> B \<Longrightarrow> ins_of A \<subseteq> ins_of B"
  by (auto simp: ins_of_def)

lemma ins_of_fst: "k \<notin> fst ` U \<Longrightarrow> k \<notin> fst ` ins_of U"
  by (force simp: ins_of_def)

lemma peri_del_simps [simp]:
  "peri_del (insert (k, PIns x) E) i \<longleftrightarrow> peri_del E i" "peri_del (insert (k, PDel j) E) i \<longleftrightarrow> i = j \<or> peri_del E i"
  "peri_del (insert (k, PAddMark m) E) i \<longleftrightarrow> peri_del E i" "peri_del (insert (k, PRemoveMark m) E) i \<longleftrightarrow> peri_del E i"
  "peri_del (A \<union> B) i \<longleftrightarrow> peri_del A i \<or> peri_del B i"
  by (auto simp: peri_del_def)

lemma marked_simps [simp]:
  "marked (insert (k, PIns x) E) mid m \<longleftrightarrow> marked E mid m" "marked (insert (k, PDel j) E) mid m \<longleftrightarrow> marked E mid m"
  "marked (insert (k, PAddMark mo) E) mid m \<longleftrightarrow> mo_mid mo = mid \<and> m = frozenMark False mo \<or> marked E mid m"
  "marked (insert (k, PRemoveMark mo) E) mid m \<longleftrightarrow> mo_mid mo = mid \<and> m = frozenMark True mo \<or> marked E mid m"
  "marked (A \<union> B) mid m \<longleftrightarrow> marked A mid m \<or> marked B mid m"
  by (auto simp: marked_def)

lemma peri_mono:
  "A \<subseteq> B \<Longrightarrow> peri_del A i \<Longrightarrow> peri_del B i" "A \<subseteq> B \<Longrightarrow> marked A mid m \<Longrightarrow> marked B mid m"
  unfolding peri_del_def marked_def by blast+

lemma births_simps [simp]:
  "births ids (insert (k, x) E) = insert (ids x) (births ids E)" "births ids (A \<union> B) = births ids A \<union> births ids B"
  by (auto simp: births_def)

lemma frozenMark_fields [simp]:
  "mk_mid (frozenMark b mo) = mo_mid mo" "mk_startId (frozenMark b mo) = mo_startId mo" "mk_endId (frozenMark b mo) = mo_endId mo"
  by (simp_all add: frozenMark_def)

lemma marked_mid: "marked E mid m \<Longrightarrow> mk_mid m = mid"
  by (auto simp: marked_def)

lemma peri_repD:
  assumes "peri_rep K krep E s"
  shows "krep (ins_of E) (ps_shadow s)" and "i |\<in>| ps_deleted s \<longleftrightarrow> peri_del E i"
    and "fmlookup (ps_marks s) mid = Some m \<longleftrightarrow> marked E mid m"
    and "fmlookup (ps_marks s) mid = None \<longleftrightarrow> (\<forall>m. \<not> marked E mid m)"
    and "marked E mid m \<Longrightarrow> {mk_startId m, mk_endId m} \<subseteq> births (k_ins_id K) (ins_of E)"
  using assms unfolding peri_rep_def by (blast, blast, blast, metis not_Some_eq, blast)

lemma add_members_iff [simp]: "i |\<in>| add_members t s \<longleftrightarrow> i |\<in>| t \<or> i |\<in>| s"
proof -
  have "i |\<in>| foldl (\<lambda>t i. finsert i t) t xs \<longleftrightarrow> i |\<in>| t \<or> i \<in> set xs" for xs
    by (induction xs arbitrary: t) auto
  then show ?thesis by (simp add: add_members_def sorted_list_of_fset.rep_eq)
qed

lemma add_marks_lookup:
  "fmlookup (add_marks t s) k = (case fmlookup t k of Some m \<Rightarrow> Some m | None \<Rightarrow> fmlookup s k)"
proof -
  have "fmlookup (foldl (\<lambda>t (mid, m). if fmlookup t mid = None then fmupd mid m t else t) t xs) k =
      (case fmlookup t k of Some m \<Rightarrow> Some m | None \<Rightarrow> map_of xs k)" for xs
    by (induction xs arbitrary: t) (auto split: option.split if_splits)
  from this [of "fm_entries s"] show ?thesis by (simp only: add_marks_def map_of_fm_entries)
qed

section \<open>The interface\<close>

locale text_kernel =
  fixes K :: "('k, 'i, 'e) kernel"
    and krep :: "'i event set \<Rightarrow> 'k \<Rightarrow> bool"
    and khonest :: "'i event set \<Rightarrow> 'i event set \<Rightarrow> 'i \<Rightarrow> bool"
    and kgood :: "'i event set \<Rightarrow> bool"
  assumes k_good_empty: "kgood {}"
    and k_rep_init: "krep {} (k_init K)"
    and k_rep_apply: "kgood U \<Longrightarrow> E \<subseteq> U \<Longrightarrow> krep E s \<Longrightarrow> khonest U E x \<Longrightarrow> k \<notin> fst ` U \<Longrightarrow>
      \<exists>s'. (case k_prepare K of None \<Rightarrow> True | Some prep \<Rightarrow> prep s x = Inr x) \<and>
        k_apply K s x = Inr s' \<and> krep (insert (k, x) E) s' \<and> kgood (insert (k, x) U)"
    and k_rep_merge: "kgood U \<Longrightarrow> A \<subseteq> U \<Longrightarrow> B \<subseteq> U \<Longrightarrow> krep A a \<Longrightarrow> krep B b \<Longrightarrow>
      \<exists>m. k_merge3 K (k_init K) a b = Inr m \<and> krep (A \<union> B) m"
    and k_rep_unique: "krep E s \<Longrightarrow> krep E s' \<Longrightarrow> s = s'"
    and k_entries: "krep E s \<Longrightarrow> \<exists>es. k_readEntries K s = Inr es \<and> distinct (map fst es) \<and>
      set (map fst es) = births (k_ins_id K) E \<and> (\<forall>i. k_has K s i \<longleftrightarrow> i \<in> births (k_ins_id K) E)"
begin

lemma rep_ctx:
  assumes "peri_rep K krep E s"
  obtains ctx where "buildCtx K s = Inr ctx" "ctx_ok ctx" "set (cx_birth ctx) = births (k_ins_id K) (ins_of E)"
    "cx_deleted ctx = ps_deleted s"
proof -
  obtain es where es: "k_readEntries K (ps_shadow s) = Inr es" "distinct (map fst es)"
    "set (map fst es) = births (k_ins_id K) (ins_of E)"
    "\<forall>i. k_has K (ps_shadow s) i \<longleftrightarrow> i \<in> births (k_ins_id K) (ins_of E)"
    using k_entries [OF peri_repD(1) [OF assms]] by blast
  show thesis
    by (rule that, simp add: buildCtx_def es(1) Let_def) (use es in \<open>auto simp: ctx_ok_def\<close>)
qed

lemma peri_apply_rep:
  assumes good: "peri_good kgood U" "E \<subseteq> U" and rep: "peri_rep K krep E s"
    and h: "peri_honest K khonest U E x" and k: "k \<notin> fst ` U"
  shows "\<exists>s'. peri_prepare K s x = Inr x \<and> peri_apply K s x = Inr s' \<and>
    peri_rep K krep (insert (k, x) E) s' \<and> peri_good kgood (insert (k, x) U)"
proof -
  note r = peri_repD [OF rep]
  have prep: "peri_prepare K s x = Inr x" if "\<And>i. x \<noteq> PIns i"
    using that by (cases x) (auto simp: peri_prepare_def)
  have mark: "peri_rep K krep (insert (k, y) E) (s\<lparr>ps_marks := fmupd (mo_mid mo) (frozenMark b mo) (ps_marks s)\<rparr>) \<and>
      peri_good kgood (insert (k, y) U)"
    if y: "y = (if b then PRemoveMark mo else PAddMark mo)" and hm: "honest_mark K U E mo" for y b mo
  proof -
    have nU: "\<not> marked U (mo_mid mo) m" for m using hm by (simp add: honest_mark_def)
    then have nE: "\<not> marked E (mo_mid mo) m" for m using peri_mono(2) [OF good(2)] by blast
    have mk: "marked (insert (k, y) F) mid m \<longleftrightarrow> mo_mid mo = mid \<and> m = frozenMark b mo \<or> marked F mid m" for F mid m
      by (simp add: y)
    have i: "ins_of (insert (k, y) F) = ins_of F" "peri_del (insert (k, y) F) j \<longleftrightarrow> peri_del F j" for F j
      by (simp_all add: y)
    have "fmlookup (fmupd (mo_mid mo) (frozenMark b mo) (ps_marks s)) mid = Some m \<longleftrightarrow> marked (insert (k, y) E) mid m" for mid m
      unfolding mk using r(3) nE by auto
    moreover have "marked (insert (k, y) E) mid m \<Longrightarrow> {mk_startId m, mk_endId m} \<subseteq> births (k_ins_id K) (ins_of E)" for mid m
      unfolding mk using r(5) [of mid m] hm by (auto simp: honest_mark_def)
    ultimately have "peri_rep K krep (insert (k, y) E) (s\<lparr>ps_marks := fmupd (mo_mid mo) (frozenMark b mo) (ps_marks s)\<rparr>)"
      unfolding peri_rep_def i using r(1,2) by simp
    moreover have "peri_good kgood (insert (k, y) U)"
      using good(1) nU unfolding peri_good_def i mk by metis
    ultimately show ?thesis by blast
  qed
  show ?thesis
  proof (cases x)
    case (PIns y)
    have g: "kgood (ins_of U)" "ins_of E \<subseteq> ins_of U" "khonest (ins_of U) (ins_of E) y"
      using good h PIns by (simp_all add: peri_good_def ins_of_mono)
    from k_rep_apply [OF g(1,2) r(1) g(3) ins_of_fst [OF k]] obtain s' where
      s': "case k_prepare K of None \<Rightarrow> True | Some prep \<Rightarrow> prep (ps_shadow s) y = Inr y"
      "k_apply K (ps_shadow s) y = Inr s'" "krep (insert (k, y) (ins_of E)) s'" "kgood (insert (k, y) (ins_of U))"
      by blast
    have "peri_rep K krep (insert (k, x) E) (s\<lparr>ps_shadow := s'\<rparr>)"
      using s'(3) r(2,3,5) PIns by (auto simp: peri_rep_def)
    moreover have "peri_prepare K s x = Inr x"
      using s'(1) PIns by (auto simp: peri_prepare_def split: option.splits)
    moreover have "peri_good kgood (insert (k, x) U)"
      using s'(4) good(1) PIns by (simp add: peri_good_def)
    ultimately show ?thesis using s'(2) PIns by simp
  next
    case (PDel i)
    have "peri_rep K krep (insert (k, x) E) (s\<lparr>ps_deleted := finsert i (ps_deleted s)\<rparr>)"
      using r PDel by (auto simp: peri_rep_def)
    moreover have "peri_good kgood (insert (k, x) U)" using good(1) PDel by (simp add: peri_good_def)
    ultimately show ?thesis using prep PDel by simp
  next
    case (PAddMark mo)
    then show ?thesis using mark [of x False mo] h prep by simp
  next
    case (PRemoveMark mo)
    then show ?thesis using mark [of x True mo] h prep by simp
  next
    case (POther ty)
    then show ?thesis using h by simp
  qed
qed

text \<open>The merge represents the union, for any base whose events are in the union.\<close>

lemma peri_merge_rep:
  assumes good: "peri_good kgood U" "A \<subseteq> U" "B \<subseteq> U" and L: "L \<subseteq> A \<union> B"
    and a: "peri_rep K krep A a" and b: "peri_rep K krep B b" and l: "peri_rep K krep L l"
  shows "\<exists>m. peri_merge3 K l a b = Inr m \<and> peri_rep K krep (A \<union> B) m"
proof -
  note ra = peri_repD [OF a] and rb = peri_repD [OF b] and rl = peri_repD [OF l]
  obtain sh where sh: "k_merge3 K (k_init K) (ps_shadow a) (ps_shadow b) = Inr sh"
    "krep (ins_of A \<union> ins_of B) sh"
    using k_rep_merge [OF _ ins_of_mono [OF good(2)] ins_of_mono [OF good(3)] ra(1) rb(1)] good(1)
    unfolding peri_good_def by blast
  let ?m = "\<lparr>ps_shadow = sh,
         ps_deleted = add_members (add_members (ps_deleted a) (ps_deleted l)) (ps_deleted b),
         ps_marks = add_marks (add_marks (ps_marks a) (ps_marks l)) (ps_marks b)\<rparr>"
  have AB: "A \<union> B \<subseteq> U" using good(2,3) by blast
  have same: "m = m'" if x: "marked (A \<union> B) mid m" and y: "marked (A \<union> B) mid m'" for mid m m'
    using peri_mono(2) [OF AB x] peri_mono(2) [OF AB y] good(1) unfolding peri_good_def by blast
  have sub: "marked L mid m \<Longrightarrow> marked (A \<union> B) mid m" "peri_del L i \<Longrightarrow> peri_del (A \<union> B) i" for mid m i
    using peri_mono [OF L] by blast+
  have "fmlookup (ps_marks ?m) mid = Some m \<longleftrightarrow> marked (A \<union> B) mid m" for mid m
  proof (cases "fmlookup (ps_marks a) mid")
    case (Some n)
    then have "marked (A \<union> B) mid n" using ra(3) by simp
    then show ?thesis using Some same [of mid n m] by (auto simp: add_marks_lookup)
  next
    case None
    then have na: "\<not> marked A mid m" for m using ra(4) by blast
    show ?thesis
    proof (cases "fmlookup (ps_marks l) mid")
      case (Some n)
      then have "marked (A \<union> B) mid n" using rl(3) sub(1) by blast
      then show ?thesis using Some None same [of mid n m] by (auto simp: add_marks_lookup)
    next
      case l: None
      then show ?thesis using None na rb(3) by (simp add: add_marks_lookup)
    qed
  qed
  moreover have "i |\<in>| ps_deleted ?m \<longleftrightarrow> peri_del (A \<union> B) i" for i
    using sub(2) [of i] by (auto simp: ra(2) rb(2) rl(2))
  moreover have "marked (A \<union> B) mid m \<Longrightarrow> {mk_startId m, mk_endId m} \<subseteq> births (k_ins_id K) (ins_of (A \<union> B))" for mid m
    using ra(5) [of mid m] rb(5) [of mid m] by auto
  ultimately have "peri_rep K krep (A \<union> B) ?m"
    unfolding peri_rep_def using sh(2) by simp
  with sh(1) show ?thesis by (simp add: peri_merge3_def)
qed

lemma peri_unique:
  assumes "peri_rep K krep E s" and "peri_rep K krep E s'"
  shows "s = s'"
proof -
  note r = peri_repD [OF assms(1)] and r' = peri_repD [OF assms(2)]
  have "ps_marks s = ps_marks s'"
  proof (rule fmap_ext)
    fix k
    show "fmlookup (ps_marks s) k = fmlookup (ps_marks s') k"
    proof (cases "fmlookup (ps_marks s) k")
      case None
      then have "fmlookup (ps_marks s') k = None" using r(4) r'(4) by blast
      with None show ?thesis by simp
    next
      case (Some m)
      then have "fmlookup (ps_marks s') k = Some m" using r(3) r'(3) by blast
      with Some show ?thesis by simp
    qed
  qed
  moreover have "ps_deleted s = ps_deleted s'" by (rule fset_eqI) (simp add: r(2) r'(2))
  moreover have "ps_shadow s = ps_shadow s'" by (rule k_rep_unique [OF r(1) r'(1)])
  ultimately show ?thesis by (cases s; cases s') simp
qed

lemma peri_mrdt:
  "mrdt (peri_dt K :: (('i, 't::linorder, 'v) peri_op, ('k, 't, 'v) peri, unit, ('e, 't, 'v) rendered list res) dtype)
     (peri_rep K krep) (peri_honest K khonest) (peri_good kgood)"
proof unfold_locales
  show "peri_good kgood {}" using k_good_empty by (simp add: peri_good_def marked_def)
  show "peri_rep K krep {} (dt_init (peri_dt K))"
    using k_rep_init by (simp add: peri_rep_def peri_dt_def peri_init_def peri_del_def marked_def)
next
  fix U E :: "('i, 't, 'v) peri_op event set" and s x k
  assume "peri_good kgood U" "E \<subseteq> U" "peri_rep K krep E s" "peri_honest K khonest U E x" "k \<notin> fst ` U"
  from peri_apply_rep [OF this]
  show "\<exists>y s'. dt_prepared (peri_dt K) s x = Inr y \<and> dt_apply (peri_dt K) s y = Inr s' \<and>
      peri_rep K krep (insert (k, y) E) s' \<and> peri_good kgood (insert (k, y) U)"
    by (auto simp: dt_prepared_def peri_dt_def)
next
  fix U A B :: "('i, 't, 'v) peri_op event set" and a b l
  assume "peri_good kgood U" "A \<subseteq> U" "B \<subseteq> U" "peri_rep K krep A a" "peri_rep K krep B b" "peri_rep K krep (A \<inter> B) l"
  from peri_merge_rep [OF this(1-3) _ this(4-6)]
  show "\<exists>m. dt_merge3 (peri_dt K) l a b = Inr m \<and> peri_rep K krep (A \<union> B) m"
    by (auto simp: peri_dt_def)
next
  fix E :: "('i, 't, 'v) peri_op event set" and s s'
  assume "peri_rep K krep E s" "peri_rep K krep E s'"
  then show "dt_read (peri_dt K) s = dt_read (peri_dt K) s'" using peri_unique by metis
qed

text \<open>The audit accepts every such merge.\<close>

lemma audit_accepts:
  assumes good: "peri_good kgood U" "A \<subseteq> U" "B \<subseteq> U" and L: "L \<subseteq> A \<union> B"
    and a: "peri_rep K krep A a" and b: "peri_rep K krep B b" and l: "peri_rep K krep L l"
  shows "\<exists>m. peri_merge3 K l a b = Inr m \<and> auditMergeCoverage K l a b m = Inr \<lparr>au_ok = True, au_missing = [], au_mismatches = []\<rparr>"
proof -
  obtain m where m: "peri_merge3 K l a b = Inr m" "peri_rep K krep (A \<union> B) m"
    using peri_merge_rep [OF assms] by blast
  note rm = peri_repD [OF m(2)]
  obtain ctx where ctx: "buildCtx K m = Inr ctx" "ctx_ok ctx"
    "set (cx_birth ctx) = births (k_ins_id K) (ins_of (A \<union> B))" by (rule rep_ctx [OF m(2)])
  have hb: "cx_hasBirth ctx i" if "i \<in> births (k_ins_id K) (ins_of (A \<union> B))" for i
    using ctx(2,3) that by (simp add: ctx_ok_def)
  have "cx_hasBirth ctx (mk_startId n) \<and> cx_hasBirth ctx (mk_endId n)" if "(mid, n) \<in> set (fm_entries (ps_marks m))" for mid n
    using that rm(3,5) hb unfolding fm_entries_iff by blast
  then have missing: "concat (map (\<lambda>(mid, n). map (\<lambda>i. (mid, i))
         (filter (\<lambda>i. \<not> cx_hasBirth ctx i) [mk_startId n, mk_endId n])) (fm_entries (ps_marks m))) = []"
    by (auto simp: concat_eq_Nil_conv)
  have "i |\<in>| ps_deleted m \<longleftrightarrow> i |\<in>| ps_deleted l |\<union>| ps_deleted a |\<union>| ps_deleted b" for i
    using peri_repD(2) [OF a, of i] peri_repD(2) [OF b, of i] peri_repD(2) [OF l, of i] rm(2) [of i] peri_mono(1) [OF L, of i] by auto
  then have "filter (\<lambda>i. (i |\<in>| ps_deleted m) \<noteq> (i |\<in>| ps_deleted l |\<union>| ps_deleted a |\<union>| ps_deleted b)) (cx_birth ctx) = []"
    by simp
  with m(1) ctx(1) missing show ?thesis by (simp add: auditMergeCoverage_def Let_def)
qed

end

section \<open>The embedded sequence as a kernel\<close>

definition lift_emb :: "(int \<times> 'e \<times> int option) event set \<Rightarrow> 'e emb_op event set" where
  "lift_emb E = (\<lambda>(k, (i, el, anc)). (k, EIns i el anc)) ` E"

definition emb_krep :: "(nat \<Rightarrow> nat list) \<Rightarrow> (int \<times> 'e \<times> int option) event set \<Rightarrow> 'e emb \<Rightarrow> bool" where
  "emb_krep code E s \<longleftrightarrow> emb_rep code (lift_emb E) s"

definition emb_khonest ::
  "(int \<times> 'e \<times> int option) event set \<Rightarrow> (int \<times> 'e \<times> int option) event set \<Rightarrow> int \<times> 'e \<times> int option \<Rightarrow> bool"
where
  "emb_khonest U E x = (case x of (i, el, anc) \<Rightarrow> emb_honest (lift_emb U) (lift_emb E) (EIns i el anc))"

definition emb_kgood :: "(int \<times> 'e \<times> int option) event set \<Rightarrow> bool" where
  "emb_kgood U \<longleftrightarrow> emb_good (lift_emb U)"

lemma lift_emb_simps [simp]:
  "lift_emb (insert (k, (i, el, anc)) E) = insert (k, EIns i el anc) (lift_emb E)"
  "lift_emb {} = {}" "lift_emb (A \<union> B) = lift_emb A \<union> lift_emb B"
  by (simp_all add: lift_emb_def image_Un)

lemma lift_emb_facts:
  shows "A \<subseteq> B \<Longrightarrow> lift_emb A \<subseteq> lift_emb B" and "fst ` lift_emb E = fst ` E" and "\<not> deleted (lift_emb E) i"
    and "inserted (lift_emb E) i \<longleftrightarrow> i \<in> births fst E"
  by (force simp: lift_emb_def deleted_def inserted_def births_def)+

lemma emb_kernel_simps [simp]:
  "k_init (emb_kernel code) = emb_init" "k_prepare (emb_kernel code) = None"
  "k_apply (emb_kernel code) s (i, el, anc) = emb_apply code s (EIns i el anc)"
  "k_merge3 (emb_kernel code) = emb_merge3" "k_ins_id (emb_kernel code) = fst"
  by (simp_all add: emb_kernel_def)

interpretation emb_text: text_kernel "emb_kernel code" "emb_krep code" emb_khonest emb_kgood for code
proof unfold_locales
  show "emb_kgood {}" by (simp add: emb_kgood_def emb_good_def)
  show "emb_krep code {} (k_init (emb_kernel code))" by (simp add: emb_krep_def emb_init_rep)
next
  fix U E :: "(int \<times> 'a \<times> int option) event set" and s x k
  assume h: "emb_kgood U" "E \<subseteq> U" "emb_krep code E s" "emb_khonest U E x" "k \<notin> fst ` U"
  obtain i el anc where x: "x = (i, el, anc)" using prod_cases3 by blast
  have k: "k \<notin> fst ` lift_emb U" using h(5) unfolding lift_emb_facts(2) .
  from emb_apply_rep [OF _ lift_emb_facts(1) [OF h(2)] _ _ k, of code s "EIns i el anc"] h(1,3,4)
  show "\<exists>s'. (case k_prepare (emb_kernel code) of None \<Rightarrow> True | Some prep \<Rightarrow> prep s x = Inr x) \<and>
        k_apply (emb_kernel code) s x = Inr s' \<and> emb_krep code (insert (k, x) E) s' \<and> emb_kgood (insert (k, x) U)"
    unfolding x by (simp add: emb_kgood_def emb_krep_def emb_khonest_def)
next
  fix U A B :: "(int \<times> 'a \<times> int option) event set" and a b
  assume h: "emb_kgood U" "A \<subseteq> U" "B \<subseteq> U" "emb_krep code A a" "emb_krep code B b"
  from emb_union_merge [OF _ lift_emb_facts(1) [OF h(2)] lift_emb_facts(1) [OF h(3)] _ _ lift_emb_facts(3) lift_emb_facts(3)] h(1,4,5)
  show "\<exists>m. k_merge3 (emb_kernel code) (k_init (emb_kernel code)) a b = Inr m \<and> emb_krep code (A \<union> B) m"
    by (simp add: emb_kgood_def emb_krep_def)
next
  fix E :: "(int \<times> 'a \<times> int option) event set" and s s'
  assume "emb_krep code E s" "emb_krep code E s'"
  then show "s = s'" unfolding emb_krep_def by (rule emb_rep_read)
next
  fix E :: "(int \<times> 'a \<times> int option) event set" and s
  assume r: "emb_krep code E s"
  let ?es = "map (\<lambda>(i, r). (i, er_el r)) (emb_readEntries s)"
  have f: "map fst ?es = emb_readIds s" by (simp add: emb_readIds_def comp_def case_prod_unfold)
  have "fmlookup s i \<noteq> None \<longleftrightarrow> i \<in> births fst E" for i
    using emb_lookup(2) [OF r [unfolded emb_krep_def], of i] lift_emb_facts(3) [of E i] lift_emb_facts(4) [of E i]
    by metis
  then have "dom (fmlookup s) = births fst E" unfolding dom_def by blast
  then have "distinct (map fst ?es)" "set (map fst ?es) = births fst E"
    unfolding f using emb_readIds_set [of s] by simp_all
  with \<open>\<And>i. fmlookup s i \<noteq> None \<longleftrightarrow> i \<in> births fst E\<close>
  show "\<exists>es. k_readEntries (emb_kernel code) s = Inr es \<and> distinct (map fst es) \<and>
      set (map fst es) = births (k_ins_id (emb_kernel code)) E \<and>
      (\<forall>i. k_has (emb_kernel code) s i \<longleftrightarrow> i \<in> births (k_ins_id (emb_kernel code)) E)"
    by (intro exI [of _ ?es]) (simp add: emb_kernel_def)
qed

section \<open>The tombstone sequence as a kernel\<close>

definition lift_rga :: "(int \<times> 'e \<times> int option) event set \<Rightarrow> 'e rga_op event set" where
  "lift_rga E = (\<lambda>(k, (i, el, anc)). (k, RIns i el anc)) ` E"

definition rga_krep :: "(int \<times> 'e \<times> int option) event set \<Rightarrow> 'e rga_state \<Rightarrow> bool" where
  "rga_krep E s \<longleftrightarrow> rga_rep (lift_rga E) s"

definition rga_khonest ::
  "(int \<times> 'e \<times> int option) event set \<Rightarrow> (int \<times> 'e \<times> int option) event set \<Rightarrow> int \<times> 'e \<times> int option \<Rightarrow> bool"
where
  "rga_khonest U E x = (case x of (i, el, anc) \<Rightarrow> rga_honest (lift_rga U) (lift_rga E) (RIns i el anc))"

definition rga_kgood :: "(int \<times> 'e \<times> int option) event set \<Rightarrow> bool" where
  "rga_kgood U \<longleftrightarrow> rga_good (lift_rga U)"

lemma lift_rga_simps [simp]:
  "lift_rga (insert (k, (i, el, anc)) E) = insert (k, RIns i el anc) (lift_rga E)"
  "lift_rga {} = {}" "lift_rga (A \<union> B) = lift_rga A \<union> lift_rga B"
  by (simp_all add: lift_rga_def image_Un)

lemma lift_rga_facts:
  shows "A \<subseteq> B \<Longrightarrow> lift_rga A \<subseteq> lift_rga B" and "\<not> rga_del (lift_rga E) i"
  by (force simp: lift_rga_def rga_del_def)+

lemma lift_rga_births: "(\<exists>r. rga_ins (lift_rga E) i r) \<longleftrightarrow> i \<in> births fst E"
proof
  assume "i \<in> births fst E"
  then obtain k el anc where "(k, (i, el, anc)) \<in> E" by (auto simp: births_def)
  then have "rga_ins (lift_rga E) i \<lparr>rr_anchor = anc, rr_el = el\<rparr>" by (force simp: rga_ins_def lift_rga_def)
  then show "\<exists>r. rga_ins (lift_rga E) i r" by blast
qed (force simp: rga_ins_def lift_rga_def births_def)

lemma rga_kernel_simps [simp]:
  "k_init rga_kernel = rga_init" "k_apply rga_kernel s (i, el, anc) = rga_apply s (RIns i el anc)"
  "k_merge3 rga_kernel = rga_merge3" "k_ins_id rga_kernel = fst"
  by (simp_all add: rga_kernel_def)

interpretation rga_text: text_kernel rga_kernel rga_krep rga_khonest rga_kgood
proof unfold_locales
  show "rga_kgood {}" by (simp add: rga_kgood_def rga.good_empty)
  show "rga_krep {} (k_init rga_kernel)" using rga.rep_init by (simp add: rga_krep_def rga_dt_def)
next
  fix U E :: "(int \<times> 'a \<times> int option) event set" and s x k
  assume h: "rga_kgood U" "E \<subseteq> U" "rga_krep E s" "rga_khonest U E x" "k \<notin> fst ` U"
  obtain i el anc where x: "x = (i, el, anc)" using prod_cases3 by blast
  note h' = h(1) [unfolded rga_kgood_def] lift_rga_facts(1) [OF h(2)] h(3) [unfolded rga_krep_def]
    h(4) [unfolded rga_khonest_def x prod.case]
  show "\<exists>s'. (case k_prepare rga_kernel of None \<Rightarrow> True | Some prep \<Rightarrow> prep s x = Inr x) \<and>
        k_apply rga_kernel s x = Inr s' \<and> rga_krep (insert (k, x) E) s' \<and> rga_kgood (insert (k, x) U)"
    using rga_apply_rep [OF h', of k] rga_honest_applies [OF h']
    unfolding x by (simp add: rga_kgood_def rga_krep_def) (simp add: rga_kernel_def)
next
  fix U A B :: "(int \<times> 'a \<times> int option) event set" and a b
  assume h: "rga_kgood U" "A \<subseteq> U" "B \<subseteq> U" "rga_krep A a" "rga_krep B b"
  from rga_merge_rep [OF _ lift_rga_facts(1) [OF h(2)] lift_rga_facts(1) [OF h(3)]] h(1,4,5)
  show "\<exists>m. k_merge3 rga_kernel (k_init rga_kernel) a b = Inr m \<and> rga_krep (A \<union> B) m"
    by (simp add: rga_kgood_def rga_krep_def)
next
  fix E :: "(int \<times> 'a \<times> int option) event set" and s s'
  assume "rga_krep E s" "rga_krep E s'"
  then show "s = s'" unfolding rga_krep_def by (rule rga_rep_read)
next
  fix E :: "(int \<times> 'a \<times> int option) event set" and s
  assume r: "rga_krep E s"
  note rr = rga_repD [OF r [unfolded rga_krep_def]]
  have ng: "i |\<notin>| rs_grave s" for i using rr(3) lift_rga_facts(2) by blast
  let ?es = "map (\<lambda>i. (i, rr_el (the (fmlookup (rs_adds s) i)))) (reference_order (rs_adds s))"
  note o = orderedIds_reference [OF rr(5)]
  have "k_readEntries rga_kernel s = Inr ?es"
    using o ng by (simp add: rga_kernel_def rga_readEntries_def rr(6) comp_def)
  moreover have "map fst ?es = reference_order (rs_adds s)" by (simp add: comp_def)
  moreover have known: "fmlookup (rs_adds s) i \<noteq> None \<longleftrightarrow> i \<in> births fst E" for i
    using rr(2) [of i] lift_rga_births [of E i] by metis
  moreover have "dom (fmlookup (rs_adds s)) = births fst E" unfolding dom_def using known by blast
  moreover have "k_has rga_kernel s i \<longleftrightarrow> i \<in> births fst E" for i
    using known ng by (simp add: rga_kernel_def rga_has_def)
  ultimately show "\<exists>es. k_readEntries rga_kernel s = Inr es \<and> distinct (map fst es) \<and>
      set (map fst es) = births (k_ins_id rga_kernel) E \<and>
      (\<forall>i. k_has rga_kernel s i \<longleftrightarrow> i \<in> births (k_ins_id rga_kernel) E)"
    using o by (intro exI [of _ ?es]) simp
qed

end
