(* ===== verification/PeritextRuns.thy ===== *)
theory PeritextRuns
  imports PeritextKernels
begin

text \<open>
  Rich text over the runtime: what every run shows, that merges pass the source's own audit of
  their physical premises, and that a batch is the fold of its operations.
\<close>

interpretation emb_peri: mrdt
    "peri_dt (emb_kernel code) :: ((int \<times> 'e \<times> int option, 't::linorder, 'v) peri_op, ('e emb, 't, 'v) peri, unit, ('e, 't, 'v) rendered list res) dtype"
    "peri_rep (emb_kernel code) (emb_krep code)" "peri_honest (emb_kernel code) emb_khonest" "peri_good emb_kgood"
  for code
  by (rule emb_text.peri_mrdt)

interpretation rga_peri: mrdt
    "peri_dt rga_kernel :: ((int \<times> 'e \<times> int option, 't::linorder, 'v) peri_op, ('e rga_state, 't, 'v) peri, unit, ('e, 't, 'v) rendered list res) dtype"
    "peri_rep rga_kernel rga_krep" "peri_honest rga_kernel rga_khonest" "peri_good rga_kgood"
  by (rule rga_text.peri_mrdt)

section \<open>Batches\<close>

fun ins_list :: "('i, 't, 'v) peri_op list \<Rightarrow> 'i list" where
  "ins_list [] = []"
| "ins_list (PIns x # ops) = x # ins_list ops"
| "ins_list (op # ops) = ins_list ops"

fun del_fold :: "('i, 't, 'v) peri_op list \<Rightarrow> int fset \<Rightarrow> int fset" where
  "del_fold [] d = d"
| "del_fold (PDel i # ops) d = del_fold ops (finsert i d)"
| "del_fold (op # ops) d = del_fold ops d"

fun mark_fold :: "('i, 't, 'v) peri_op list \<Rightarrow> (int, ('t, 'v) mark) fmap \<Rightarrow> (int, ('t, 'v) mark) fmap" where
  "mark_fold [] m = m"
| "mark_fold (PAddMark mo # ops) m = mark_fold ops (fmupd (mo_mid mo) (frozenMark False mo) m)"
| "mark_fold (PRemoveMark mo # ops) m = mark_fold ops (fmupd (mo_mid mo) (frozenMark True mo) m)"
| "mark_fold (op # ops) m = mark_fold ops m"

fun known_op :: "('i, 't, 'v) peri_op \<Rightarrow> bool" where
  "known_op (POther ty) = False"
| "known_op op = True"

lemma batch_steps:
  "foldM peri_batch_step ops (acc, d, m) = (if list_all known_op ops
     then Inr (acc @ ins_list ops, del_fold ops d, mark_fold ops m) else Inl (Error ''unknown peritext op type''))"
proof (induction ops arbitrary: acc d m)
  case (Cons op ops)
  then show ?case by (cases op) simp_all
qed simp

lemma apply_steps:
  "foldM (\<lambda>op s. peri_apply K s op) ops s = Inr s' \<longleftrightarrow> list_all known_op ops \<and>
     (\<exists>sh. foldM (\<lambda>x s. k_apply K s x) (ins_list ops) (ps_shadow s) = Inr sh \<and>
       s' = \<lparr>ps_shadow = sh, ps_deleted = del_fold ops (ps_deleted s), ps_marks = mark_fold ops (ps_marks s)\<rparr>)"
proof (induction ops arbitrary: s)
  case Nil
  then show ?case by (cases s) auto
next
  case (Cons op ops)
  then show ?case
  proof (cases op)
    case (PIns x)
    then show ?thesis by (cases "k_apply K (ps_shadow s) x") (simp_all add: Cons)
  qed (simp_all add: Cons)
qed

lemma batch_is_fold:
  assumes law: "\<And>sh xs. xs \<noteq> [] \<Longrightarrow> k_applyBatch K sh xs = foldM (\<lambda>x s. k_apply K s x) xs sh"
  shows "peri_applyBatch K s ops = Inr s' \<longleftrightarrow> foldM (\<lambda>op s. peri_apply K s op) ops s = Inr s'"
proof -
  have "(if ins_list ops \<noteq> [] then k_applyBatch K sh (ins_list ops) else Inr sh) =
      foldM (\<lambda>x s. k_apply K s x) (ins_list ops) sh" for sh
    using law by (cases "ins_list ops") auto
  then show ?thesis
    unfolding peri_applyBatch_def batch_steps apply_steps by (auto simp: rbind_eq_Inr)
qed

lemma emb_batch_law:
  "k_applyBatch (emb_kernel code) sh xs = foldM (\<lambda>x s. k_apply (emb_kernel code) s x) xs sh"
proof -
  have "foldM (emb_batch_step code) (map (\<lambda>(i, el, anc). EIns i el anc) xs) sh =
      foldM (\<lambda>x s. case x of (i, el, anc) \<Rightarrow> emb_apply code s (EIns i el anc)) xs sh"
  proof (induction xs arbitrary: sh)
    case (Cons x xs)
    obtain i el anc where "x = (i, el, anc)" using prod_cases3 by blast
    with Cons show ?case by (simp add: comp_def cong: rbind_cong)
  qed simp
  then show ?thesis by (simp add: emb_kernel_def emb_applyBatch_def)
qed

text \<open>The tombstone sequence checks the same guards in a batch as one by one.\<close>

lemma rga_batch_law:
  "xs \<noteq> [] \<Longrightarrow> k_applyBatch rga_kernel sh xs = foldM (\<lambda>x s. k_apply rga_kernel s x) xs sh"
proof -
  have fold: "foldM (\<lambda>x s. case x of (i, el, anc) \<Rightarrow> rga_apply s (RIns i el anc)) xs s =
      rbind (foldM rga_batch_step (map (\<lambda>(i, el, anc). RIns i el anc) xs) (rs_adds s, rs_grave s))
        (\<lambda>(adds, grave). Inr \<lparr>rs_adds = adds, rs_grave = grave,
           rs_order = (if xs = [] then rs_order s else None)\<rparr>)" for xs :: "(int \<times> 'a \<times> int option) list" and s
  proof (induction xs arbitrary: s)
    case (Cons x xs)
    obtain i el anc where x: "x = (i, el, anc)" using prod_cases3 by blast
    show ?case
    proof (cases "rga_checkInsert (rs_adds s) (rs_grave s) i anc")
      case (Inl e)
      then show ?thesis by (simp add: x rga_apply_def)
    next
      case (Inr a)
      then have "rga_apply s (RIns i el anc) = Inr \<lparr>rs_adds = fmupd i \<lparr>rr_anchor = a, rr_el = el\<rparr> (rs_adds s),
          rs_grave = rs_grave s, rs_order = None\<rparr>" by (simp add: rga_apply_def)
      with Inr show ?thesis by (simp add: x Cons)
    qed
  qed simp
  assume "xs \<noteq> []"
  then show ?thesis
    unfolding rga_kernel_def kernel.simps fold by (simp add: rga_applyBatch_def)
qed

section \<open>Properties\<close>

text \<open>C25: the rich text every run shows. In every run of registrations, honest commits,
  synchronisations and collections, a replica's read succeeds; the births are the delivered
  inserts in the global order of anchor chains; the document shows exactly the births no
  delivered delete names, and each character carries the winning delivered mark of each type.\<close>

theorem peritext_document:
  assumes "delivery_run (peri_dt (emb_kernel dEnc)) (peri_honest (emb_kernel dEnc) emb_khonest) rt U Es"
    and "i < length Es"
  shows "\<exists>ctx doc. buildCtx (emb_kernel dEnc) (head_state rt i) = Inr ctx \<and> ctx_ok ctx \<and>
    set (cx_birth ctx) = births fst (ins_of (Es ! i)) \<and>
    sorted_wrt (id_before (lift_emb (ins_of U))) (cx_birth ctx) \<and>
    rt_read (peri_dt (emb_kernel dEnc)) i rt = Inr (Inr doc) \<and>
    map re_id doc = filter (\<lambda>c. \<not> peri_del (Es ! i) c) (cx_birth ctx) \<and>
    (\<forall>e \<in> set doc. \<forall>t v. (t, v) \<in> set (re_marks e) \<longleftrightarrow>
      (\<exists>m. wins {m. (\<exists>mid. marked (Es ! i) mid m) \<and> re_id e \<in> set (coveredIds m ctx)} m \<and>
        mk_mtype m = t \<and> \<not> mk_removed m \<and> mk_value m = v))"
proof -
  let ?K = "emb_kernel dEnc" and ?s = "head_state rt i"
  have hd: "i < length (rt_replicas rt)" "peri_rep ?K (emb_krep dEnc) (Es ! i) ?s" "Es ! i \<subseteq> U" "peri_good emb_kgood U"
    using emb_peri.head_represents [OF assms] by blast+
  note r = peri_repD [OF hd(2)]
  obtain ctx where ctx: "buildCtx ?K ?s = Inr ctx" "ctx_ok ctx"
    "set (cx_birth ctx) = births (k_ins_id ?K) (ins_of (Es ! i))" "cx_deleted ctx = ps_deleted ?s"
    by (rule emb_text.rep_ctx [OF hd(2)])
  have "emb_good (lift_emb (ins_of U))" using hd(4) by (simp add: peri_good_def emb_kgood_def)
  from elias.readIds_order [OF this lift_emb_facts(1) [OF ins_of_mono [OF hd(3)]] r(1) [unfolded emb_krep_def]]
  have "sorted_wrt (id_before (lift_emb (ins_of U))) (emb_readIds (ps_shadow ?s))" by blast
  moreover have "cx_birth ctx = emb_readIds (ps_shadow ?s)"
    using ctx(1) by (auto simp: buildCtx_def emb_kernel_def emb_readIds_def Let_def comp_def case_prod_unfold)
  ultimately have srt: "sorted_wrt (id_before (lift_emb (ins_of U))) (cx_birth ctx)" by simp
  have live: "cx_live ctx = filter (\<lambda>c. \<not> peri_del (Es ! i) c) (cx_birth ctx)"
    using ctx(2) by (simp add: ctx_ok_def ctx(4) r(2))
  have "distinct (cx_live ctx)" using ctx(2) by (simp add: ctx_ok_def)
  moreover have "\<forall>k m. fmlookup (ps_marks ?s) k = Some m \<longrightarrow> mk_mid m = k"
    using r(3) marked_mid by blast
  ultimately obtain doc where doc: "renderDoc ?K ?s = Inr doc" "map re_id doc = cx_live ctx"
    "\<forall>e \<in> set doc. sorted_wrt (<) (map fst (re_marks e)) \<and> (\<forall>t v. (t, v) \<in> set (re_marks e) \<longleftrightarrow>
        (\<exists>m. wins {m. (\<exists>k. fmlookup (ps_marks ?s) k = Some m) \<and> re_id e \<in> set (coveredIds m ctx)} m \<and>
          mk_mtype m = t \<and> \<not> mk_removed m \<and> mk_value m = v))"
    using render_spec [OF ctx(1)] by blast
  have "rt_read (peri_dt ?K) i rt = Inr (Inr doc)"
    using hd(1) doc(1) by (simp add: rt_read_def get_replica_def peri_dt_def)
  note parts = ctx(1,2) ctx(3) [unfolded emb_kernel_simps] srt this doc(2) [unfolded live]
  have "\<forall>e \<in> set doc. \<forall>t v. (t, v) \<in> set (re_marks e) \<longleftrightarrow>
        (\<exists>m. wins {m. (\<exists>mid. marked (Es ! i) mid m) \<and> re_id e \<in> set (coveredIds m ctx)} m \<and>
          mk_mtype m = t \<and> \<not> mk_removed m \<and> mk_value m = v)"
    using doc(3) unfolding r(3) by blast
  with parts show ?thesis by blast
qed

lemma peri_demo:
  "\<exists>rt. delivery_run (peri_dt (emb_kernel dEnc)) (peri_honest (emb_kernel dEnc) emb_khonest)
     (rt :: ((int \<times> bool \<times> int option, nat, nat) peri_op, (bool emb, nat, nat) peri, unit) runtime)
     {(1, PIns (1, True, None))} [{(1, PIns (1, True, None))}, {(1, PIns (1, True, None))}]"
proof -
  have "peri_honest (emb_kernel dEnc) emb_khonest {} {} (PIns (1, True, None))"
    by (simp add: emb_khonest_def inserted_def)
  from emb_peri.demo_run [OF this] show ?thesis
    by (auto simp: dt_prepared_def peri_dt_def peri_prepare_def)
qed

theorem peritext_document_witness:
  "\<exists>(rt :: ((int \<times> bool \<times> int option, nat, nat) peri_op, (bool emb, nat, nat) peri, unit) runtime) ctx doc.
    buildCtx (emb_kernel dEnc) (head_state rt 1) = Inr ctx \<and> set (cx_birth ctx) = {1} \<and>
    rt_read (peri_dt (emb_kernel dEnc)) 1 rt = Inr (Inr doc) \<and> map re_id doc = filter (\<lambda>c. True) (cx_birth ctx)"
proof -
  let ?E = "{(1, PIns (1, True, None))} :: (int \<times> bool \<times> int option, nat, nat) peri_op event set"
  obtain rt where run: "delivery_run (peri_dt (emb_kernel dEnc)) (peri_honest (emb_kernel dEnc) emb_khonest)
     (rt :: ((int \<times> bool \<times> int option, nat, nat) peri_op, (bool emb, nat, nat) peri, unit) runtime) ?E [?E, ?E]"
    using peri_demo by blast
  have e: "[?E, ?E] ! 1 = ?E" "births fst (ins_of ?E) = {1}" "\<not> peri_del ?E c" for c
    by (auto simp: births_def ins_of_def peri_del_def)
  have "1 < length [?E, ?E]" by simp
  from peritext_document [OF run this, unfolded e(1)] obtain ctx doc where
    "buildCtx (emb_kernel dEnc) (head_state rt 1) = Inr ctx" "set (cx_birth ctx) = births fst (ins_of ?E)"
    "rt_read (peri_dt (emb_kernel dEnc)) 1 rt = Inr (Inr doc)"
    "map re_id doc = filter (\<lambda>c. \<not> peri_del ?E c) (cx_birth ctx)" by blast
  moreover have "(\<lambda>c. \<not> peri_del ?E c) = (\<lambda>c. True)" using e(3) by blast
  ultimately show ?thesis unfolding e(2) by (intro exI [of _ rt] exI [of _ ctx] exI [of _ doc]) simp
qed

text \<open>C26: merges pass the audit. In every run, merging the states of two replicas over the state of
  any third whose deliveries the two cover succeeds, and the source's audit of the result finds no
  mark endpoint without a birth and no delete bit lost or gained.\<close>

theorem merges_pass_audit:
  assumes "delivery_run (peri_dt (emb_kernel dEnc)) (peri_honest (emb_kernel dEnc) emb_khonest) rt U Es"
    and "h < length Es" "i < length Es" "j < length Es" and "Es ! h \<subseteq> Es ! i \<union> Es ! j"
  shows "\<exists>m. peri_merge3 (emb_kernel dEnc) (head_state rt h) (head_state rt i) (head_state rt j) = Inr m \<and>
    auditMergeCoverage (emb_kernel dEnc) (head_state rt h) (head_state rt i) (head_state rt j) m =
      Inr \<lparr>au_ok = True, au_missing = [], au_mismatches = []\<rparr>"
proof -
  note hd = emb_peri.head_represents [OF assms(1)]
  show ?thesis
    by (rule emb_text.audit_accepts [of U "Es ! i" "Es ! j" "Es ! h"]) (use hd assms(2-5) in blast)+
qed

theorem merges_pass_audit_witness:
  "\<exists>(rt :: ((int \<times> bool \<times> int option, nat, nat) peri_op, (bool emb, nat, nat) peri, unit) runtime) m.
    peri_merge3 (emb_kernel dEnc) (head_state rt 0) (head_state rt 0) (head_state rt 1) = Inr m \<and>
    auditMergeCoverage (emb_kernel dEnc) (head_state rt 0) (head_state rt 0) (head_state rt 1) m =
      Inr \<lparr>au_ok = True, au_missing = [], au_mismatches = []\<rparr>"
proof -
  obtain rt where run: "delivery_run (peri_dt (emb_kernel dEnc)) (peri_honest (emb_kernel dEnc) emb_khonest)
     (rt :: ((int \<times> bool \<times> int option, nat, nat) peri_op, (bool emb, nat, nat) peri, unit) runtime)
     {(1, PIns (1, True, None))} [{(1, PIns (1, True, None))}, {(1, PIns (1, True, None))}]"
    using peri_demo by blast
  from merges_pass_audit [OF run, of 0 0 1] show ?thesis by (intro exI [of _ rt]) simp
qed

text \<open>A batch is the fold of its operations. Over the embedded kernel and over the tombstone
  kernel, applying a batch in one pass succeeds with a state exactly when applying its operations
  one by one does, with the same state.\<close>

theorem peri_batch_is_fold:
  "(peri_applyBatch (emb_kernel code) s ops = Inr s' \<longleftrightarrow> foldM (\<lambda>op s. peri_apply (emb_kernel code) s op) ops s = Inr s') \<and>
   (peri_applyBatch rga_kernel t ops = Inr t' \<longleftrightarrow> foldM (\<lambda>op s. peri_apply rga_kernel s op) ops t = Inr t')"
  by (intro conjI batch_is_fold emb_batch_law rga_batch_law)

end
