(* ===== verification/Json.thy ===== *)
theory Json
  imports Prelude "HOL-Library.List_Lexorder" "HOL-Library.Char_ord"
begin

text \<open>
  The JSON values that operations, states and messages are made of, and the text functions of the
  language the codecs use. A string is a list of 8-bit code units (the characters up to U+00FF);
  strings are ordered by code units, which is the default order of \<^verbatim>\<open>sort()\<close>. A number is a safe
  integer (\<open>JInt\<close>) or any other number, given by the eight little-endian bytes of its float64
  representation (\<open>JFloat\<close>). An object is the list of its own entries in enumeration order.
\<close>

datatype json =
    JNull
  | JBool bool
  | JInt int
  | JFloat "nat list"
  | JStr string
  | JArr "json list"
  | JObj "(string \<times> json) list"

section \<open>Equality up to the order of keys\<close>

lemma size_entry [termination_simp]: "(k, v) \<in> set kvs \<Longrightarrow> size (v::json) < Suc (size_list (size_prod (\<lambda>_. 0) size) kvs)"
  by (induction kvs) auto

lemma size_entry' [termination_simp]:
  "(k, v) \<in> set kvs \<Longrightarrow> size (v::json) < Suc (size_list (size_prod size size) kvs)"
  by (induction kvs) auto

fun canon :: "json \<Rightarrow> json" where
  "canon (JArr xs) = JArr (map canon xs)"
| "canon (JObj kvs) = JObj (sort_key fst (map (\<lambda>(k, v). (k, canon v)) kvs))"
| "canon v = v"

definition json_eq :: "json \<Rightarrow> json \<Rightarrow> bool" where
  "json_eq v w \<longleftrightarrow> canon v = canon w"

text \<open>Values as JavaScript has them: safe integers, eight bytes per float, distinct keys.\<close>

fun json_wf :: "json \<Rightarrow> bool" where
  "json_wf (JInt n) \<longleftrightarrow> is_safe n"
| "json_wf (JFloat bs) \<longleftrightarrow> length bs = 8"
| "json_wf (JArr xs) \<longleftrightarrow> (\<forall>x \<in> set xs. json_wf x)"
| "json_wf (JObj kvs) \<longleftrightarrow> distinct (map fst kvs) \<and> (\<forall>(k, v) \<in> set kvs. json_wf v)"
| "json_wf v \<longleftrightarrow> True"

fun json_get :: "json \<Rightarrow> string \<Rightarrow> json option" where
  "json_get (JObj kvs) k = map_of kvs k"
| "json_get v k = None"

section \<open>Texts of numbers\<close>

definition digit_char :: "nat \<Rightarrow> char" where
  "digit_char d = char_of (48 + d)"

definition char_digit :: "char \<Rightarrow> nat" where
  "char_digit c = of_char c - 48"

definition is_digit :: "char \<Rightarrow> bool" where
  "is_digit c \<longleftrightarrow> 48 \<le> (of_char c :: nat) \<and> (of_char c :: nat) < 58"

fun dec_text :: "nat \<Rightarrow> string" where
  "dec_text n = (if n < 10 then [digit_char n] else dec_text (n div 10) @ [digit_char (n mod 10)])"

declare dec_text.simps [simp del]

definition dec_value :: "string \<Rightarrow> nat" where
  "dec_value s = foldl (\<lambda>n c. 10 * n + char_digit c) 0 s"

definition int_text :: "int \<Rightarrow> string" where
  "int_text n = (if n < 0 then CHR ''-'' # dec_text (nat (- n)) else dec_text (nat n))"

definition hex_char :: "nat \<Rightarrow> char" where
  "hex_char d = char_of (if d < 10 then 48 + d else 87 + d)"

definition char_hex :: "char \<Rightarrow> nat" where
  "char_hex c = (if (of_char c :: nat) < 58 then of_char c - 48 else of_char c - 87)"

text \<open>The lower-case hexadecimal digits.\<close>

definition is_hex :: "char \<Rightarrow> bool" where
  "is_hex c \<longleftrightarrow> is_digit c \<or> (97 \<le> (of_char c :: nat) \<and> (of_char c :: nat) < 103)"

definition hex_byte :: "nat \<Rightarrow> string" where
  "hex_byte b = [hex_char (b div 16), hex_char (b mod 16)]"

lemma digit_lemmas [simp]:
  "d < 10 \<Longrightarrow> is_digit (digit_char d)" "d < 10 \<Longrightarrow> char_digit (digit_char d) = d"
  by (simp_all add: is_digit_def digit_char_def char_digit_def of_char_of)

lemma hex_lemmas [simp]:
  "d < 16 \<Longrightarrow> is_hex (hex_char d)" "d < 16 \<Longrightarrow> char_hex (hex_char d) = d"
  by (auto simp: is_hex_def is_digit_def hex_char_def char_hex_def of_char_of)

lemma hex_char_hex [simp]: "is_hex c \<Longrightarrow> hex_char (char_hex c) = c"
proof -
  assume h: "is_hex c"
  have "(of_char c :: nat) = of_char (hex_char (char_hex c))"
    using h by (auto simp: is_hex_def is_digit_def hex_char_def char_hex_def of_char_of)
  then show ?thesis by simp
qed

lemma char_hex_bound: "is_hex c \<Longrightarrow> char_hex c < 16"
  by (auto simp: is_hex_def is_digit_def char_hex_def)

lemma dec_text_digits: "list_all is_digit (dec_text n)" "dec_text n \<noteq> []"
proof -
  show "list_all is_digit (dec_text n)"
    by (induction n rule: dec_text.induct) (subst dec_text.simps, simp)
  show "dec_text n \<noteq> []" by (subst dec_text.simps) simp
qed

lemma dec_value_text [simp]: "dec_value (dec_text n) = n"
proof (induction n rule: dec_text.induct)
  case (1 n)
  then show ?case by (subst dec_text.simps) (simp add: dec_value_def)
qed

lemma dec_text_inject: "dec_text m = dec_text n \<longleftrightarrow> m = n"
  by (metis dec_value_text)

section \<open>UTF-8\<close>

definition utf8_char :: "char \<Rightarrow> nat list" where
  "utf8_char c = (let n = of_char c in if n < 128 then [n] else [192 + n div 64, 128 + n mod 64])"

definition utf8_encode :: "string \<Rightarrow> nat list" where
  "utf8_encode s = concat (map utf8_char s)"

text \<open>
  The fatal decoder. Sequences of three and four bytes stand for characters above U+00FF, which a
  model string cannot hold; they are refused like malformed input.
\<close>

fun utf8_decode :: "nat list \<Rightarrow> string res" where
  "utf8_decode [] = Inr []"
| "utf8_decode (b # bs) =
     (if b < 128 then rbind (utf8_decode bs) (\<lambda>s. Inr (char_of b # s))
      else if 194 \<le> b \<and> b < 196 then
        (case bs of
           [] \<Rightarrow> Inl (TypeError ''The encoded data was not valid'')
         | c # cs \<Rightarrow>
             if 128 \<le> c \<and> c < 192
             then rbind (utf8_decode cs) (\<lambda>s. Inr (char_of ((b - 192) * 64 + (c - 128)) # s))
             else Inl (TypeError ''The encoded data was not valid''))
      else Inl (TypeError ''The encoded data was not valid''))"

lemma utf8_roundtrip [simp]: "utf8_decode (utf8_encode s) = Inr s"
proof (induction s)
  case (Cons c s)
  have e: "utf8_encode (c # s) = utf8_char c @ utf8_encode s" by (simp add: utf8_encode_def)
  show ?case
  proof (cases "(of_char c :: nat) < 128")
    case True
    then show ?thesis using Cons by (simp add: e utf8_char_def)
  next
    case False
    let ?n = "of_char c :: nat"
    have "?n < 4 * 64" by simp
    then have "?n div 64 < 4" by (rule less_mult_imp_div_less)
    moreover have "2 \<le> ?n div 64" using False by simp
    ultimately have q: "2 \<le> ?n div 64" "?n div 64 < 4" by blast+
    have r: "?n mod 64 < 64" by simp
    have "?n div 64 * 64 + ?n mod 64 = ?n" by simp
    then have "char_of (?n div 64 * 64 + ?n mod 64) = c" by (metis char_of_char)
    then show ?thesis using Cons False q r by (simp add: e utf8_char_def Let_def)
  qed
qed (simp add: utf8_encode_def)

lemma utf8_encode_bytes: "set (utf8_encode s) \<subseteq> {0..<256}"
proof -
  have "set (utf8_char c) \<subseteq> {0..<256}" for c
  proof -
    have "(of_char c :: nat) < 4 * 64" by simp
    then have "(of_char c :: nat) div 64 < 4" by (rule less_mult_imp_div_less)
    moreover have "(of_char c :: nat) mod 64 < 64" by simp
    ultimately show ?thesis by (auto simp: utf8_char_def Let_def)
  qed
  then show ?thesis by (auto simp: utf8_encode_def subset_eq)
qed

end
