(* ===== verification/ContentHash.thy ===== *)
theory ContentHash
  imports Json CommitDag "HOL-Library.Word"
begin

unbundle bit_operations_syntax

text \<open>
  Content addressing (\<^verbatim>\<open>runtime/src/hash.js\<close>): SHA-256 over the UTF-8 bytes of a string, the JSON
  text with sorted keys, and the derivation of a commit's content id from its parents' ids. The text
  of a number that is no safe integer is an argument \<open>num\<close> (\<^verbatim>\<open>JSON.stringify\<close> of a float64, given by
  its bytes).
\<close>

section \<open>SHA-256\<close>

definition K_table :: "32 word list" where
  "K_table =
     [0x428a2f98, 0x71374491, 0xb5c0fbcf, 0xe9b5dba5, 0x3956c25b, 0x59f111f1, 0x923f82a4, 0xab1c5ed5]
   @ [0xd807aa98, 0x12835b01, 0x243185be, 0x550c7dc3, 0x72be5d74, 0x80deb1fe, 0x9bdc06a7, 0xc19bf174]
   @ [0xe49b69c1, 0xefbe4786, 0x0fc19dc6, 0x240ca1cc, 0x2de92c6f, 0x4a7484aa, 0x5cb0a9dc, 0x76f988da]
   @ [0x983e5152, 0xa831c66d, 0xb00327c8, 0xbf597fc7, 0xc6e00bf3, 0xd5a79147, 0x06ca6351, 0x14292967]
   @ [0x27b70a85, 0x2e1b2138, 0x4d2c6dfc, 0x53380d13, 0x650a7354, 0x766a0abb, 0x81c2c92e, 0x92722c85]
   @ [0xa2bfe8a1, 0xa81a664b, 0xc24b8b70, 0xc76c51a3, 0xd192e819, 0xd6990624, 0xf40e3585, 0x106aa070]
   @ [0x19a4c116, 0x1e376c08, 0x2748774c, 0x34b0bcb5, 0x391c0cb3, 0x4ed8aa4a, 0x5b9cca4f, 0x682e6ff3]
   @ [0x748f82ee, 0x78a5636f, 0x84c87814, 0x8cc70208, 0x90befffa, 0xa4506ceb, 0xbef9a3f7, 0xc67178f2]"

definition rotr :: "32 word \<Rightarrow> nat \<Rightarrow> 32 word" where
  "rotr x n = drop_bit n x OR push_bit (32 - n) x"

text \<open>The message, \<open>0x80\<close>, zeros, and the bit length in two big-endian 32-bit halves.\<close>

definition uint32_bytes :: "nat \<Rightarrow> nat list" where
  "uint32_bytes n = map (\<lambda>i. n div 256 ^ i mod 256) [3, 2, 1, 0]"

definition sha_total :: "nat \<Rightarrow> nat" where
  "sha_total len = (let withOne = len + 1 in withOne + (56 + 64 - withOne mod 64) mod 64 + 8)"

definition sha_buf :: "nat list \<Rightarrow> nat list" where
  "sha_buf msg = (let bitLen = length msg * 8; total = sha_total (length msg) in
     msg @ [0x80] @ replicate (total - 8 - (length msg + 1)) 0
       @ uint32_bytes (bitLen div 2 ^ 32) @ uint32_bytes (bitLen mod 2 ^ 32))"

fun getUint32 :: "nat list \<Rightarrow> nat \<Rightarrow> 32 word" where
  "getUint32 buf i = word_of_nat (((buf ! i * 256 + buf ! (i + 1)) * 256 + buf ! (i + 2)) * 256 + buf ! (i + 3))"

definition schedule_step :: "nat \<Rightarrow> 32 word list \<Rightarrow> 32 word list" where
  "schedule_step i w =
     (let s0 = rotr (w ! (i - 15)) 7 XOR rotr (w ! (i - 15)) 18 XOR drop_bit 3 (w ! (i - 15));
          s1 = rotr (w ! (i - 2)) 17 XOR rotr (w ! (i - 2)) 19 XOR drop_bit 10 (w ! (i - 2))
      in w @ [w ! (i - 16) + s0 + w ! (i - 7) + s1])"

definition schedule :: "nat list \<Rightarrow> nat \<Rightarrow> 32 word list" where
  "schedule buf off1 = fold schedule_step [16..<64] (map (\<lambda>i. getUint32 buf (off1 + i * 4)) [0..<16])"

record sha_regs =
  reg_a :: "32 word"
  reg_b :: "32 word"
  reg_c :: "32 word"
  reg_d :: "32 word"
  reg_e :: "32 word"
  reg_f :: "32 word"
  reg_g :: "32 word"
  reg_h :: "32 word"

definition sha_round :: "32 word list \<Rightarrow> nat \<Rightarrow> sha_regs \<Rightarrow> sha_regs" where
  "sha_round w i r =
     (let S1 = rotr (reg_e r) 6 XOR rotr (reg_e r) 11 XOR rotr (reg_e r) 25;
          ch = (reg_e r AND reg_f r) XOR (NOT (reg_e r) AND reg_g r);
          t1 = reg_h r + S1 + ch + K_table ! i + w ! i;
          S0 = rotr (reg_a r) 2 XOR rotr (reg_a r) 13 XOR rotr (reg_a r) 22;
          maj = (reg_a r AND reg_b r) XOR (reg_a r AND reg_c r) XOR (reg_b r AND reg_c r);
          t2 = S0 + maj
      in \<lparr>reg_a = t1 + t2, reg_b = reg_a r, reg_c = reg_b r, reg_d = reg_c r,
          reg_e = reg_d r + t1, reg_f = reg_e r, reg_g = reg_f r, reg_h = reg_g r\<rparr>)"

definition sha_block :: "nat list \<Rightarrow> nat \<Rightarrow> sha_regs \<Rightarrow> sha_regs" where
  "sha_block buf off1 h = (let w = schedule buf off1; r = fold (sha_round w) [0..<64] h in
     \<lparr>reg_a = reg_a h + reg_a r, reg_b = reg_b h + reg_b r, reg_c = reg_c h + reg_c r, reg_d = reg_d h + reg_d r,
      reg_e = reg_e h + reg_e r, reg_f = reg_f h + reg_f r, reg_g = reg_g h + reg_g r, reg_h = reg_h h + reg_h r\<rparr>)"

definition sha_init :: sha_regs where
  "sha_init = \<lparr>reg_a = 0x6a09e667, reg_b = 0xbb67ae85, reg_c = 0x3c6ef372, reg_d = 0xa54ff53a,
     reg_e = 0x510e527f, reg_f = 0x9b05688c, reg_g = 0x1f83d9ab, reg_h = 0x5be0cd19\<rparr>"

definition hex_word :: "32 word \<Rightarrow> string" where
  "hex_word x = concat (map hex_byte (uint32_bytes (unat x)))"

definition sha256hex :: "string \<Rightarrow> string" where
  "sha256hex str = (let buf = sha_buf (utf8_encode str);
       h = fold (\<lambda>k. sha_block buf (64 * k)) [0..<length buf div 64] sha_init in
     concat (map hex_word [reg_a h, reg_b h, reg_c h, reg_d h, reg_e h, reg_f h, reg_g h, reg_h h]))"

section \<open>Stable JSON text\<close>

text \<open>\<^verbatim>\<open>JSON.stringify\<close> of a string.\<close>

definition esc_char :: "char \<Rightarrow> string" where
  "esc_char c = (let n = of_char c :: nat in
     if c = CHR 0x22 \<or> c = CHR 0x5C then [CHR 0x5C, c]
     else if n = 8 then [CHR 0x5C, CHR ''b'']
     else if n = 9 then [CHR 0x5C, CHR ''t'']
     else if n = 10 then [CHR 0x5C, CHR ''n'']
     else if n = 12 then [CHR 0x5C, CHR ''f'']
     else if n = 13 then [CHR 0x5C, CHR ''r'']
     else if n < 32 then [CHR 0x5C, CHR ''u'', CHR ''0'', CHR ''0''] @ hex_byte n
     else [c])"

definition quote :: "string \<Rightarrow> string" where
  "quote s = CHR 0x22 # concat (map esc_char s) @ [CHR 0x22]"

fun join :: "string list \<Rightarrow> string" where
  "join [] = []"
| "join [x] = x"
| "join (x # xs) = x @ CHR '','' # join xs"

fun stableStringify :: "(nat list \<Rightarrow> string) \<Rightarrow> json \<Rightarrow> string" where
  "stableStringify num JNull = ''null''"
| "stableStringify num (JBool b) = (if b then ''true'' else ''false'')"
| "stableStringify num (JInt n) = int_text n"
| "stableStringify num (JFloat bs) = num bs"
| "stableStringify num (JStr s) = quote s"
| "stableStringify num (JArr xs) = ''['' @ join (map (stableStringify num) xs) @ '']''"
| "stableStringify num (JObj kvs) = ''{'' @ join (map snd (sort_key fst
     (map (\<lambda>(k, v). (k, quote k @ '':'' @ stableStringify num v)) kvs))) @ ''}''"

definition contentId :: "(nat list \<Rightarrow> string) \<Rightarrow> json \<Rightarrow> nat \<Rightarrow> string" where
  "contentId num obj n = take n (sha256hex (stableStringify num obj))"

section \<open>The content id of a commit\<close>

text \<open>
  \<open>np\<close> is the number of parents of the commit and \<open>parentGids\<close> their content ids; \<open>hash\<close> and
  \<open>fingerprint\<close> are the pluggable functions.
\<close>

definition commitContentId ::
  "(json \<Rightarrow> string) \<Rightarrow> ('s \<Rightarrow> json) option \<Rightarrow> nat \<Rightarrow> json op_rec option \<Rightarrow> 's \<Rightarrow> string list \<Rightarrow> string res"
where
  "commitContentId hash fingerprint np opn state parentGids =
     (if np = 0 then Inr (hash (JObj [(''root'', JBool True)]))
      else case opn of
        Some o1 \<Rightarrow> Inr (hash (JObj [(''p'', JArr (map JStr parentGids)), (''replica'', JStr (op_replica o1)),
          (''seq'', JInt (int (op_seq o1))), (''payload'', op_payload o1)]))
      | None \<Rightarrow>
          if np = 1 then (case fingerprint of
              None \<Rightarrow> Inl (Error ''commitContentId: a compaction commit needs a fingerprint function'')
            | Some fp \<Rightarrow> Inr (hash (JObj [(''compact'', JBool True), (''p'', JArr (map JStr parentGids)), (''fp'', fp state)])))
          else Inr (hash (JObj [(''p'', JArr (map JStr (sort parentGids)))])))"

end
