(* ===== verification/Wire.thy ===== *)
theory Wire
  imports Json RgaSnapshot
begin

text \<open>
  The binary codec of sync messages (\<^verbatim>\<open>runtime/src/wire.js\<close>): a header, a dictionary of the
  strings that occur more than once, and the value or the delta of commits. The writer is the list
  of bytes each call appends, the reader the list of the bytes still to read. \<open>lc\<close> is
  \<^verbatim>\<open>localeCompare\<close>, used to order the dictionary.
\<close>

section \<open>Writer and reader\<close>

definition wr_uint :: "int \<Rightarrow> nat list res" where
  "wr_uint n = (if \<not> is_safe n \<or> n < 0 then Inl (TypeError ''wire uint'') else Inr (var_digits (nat n)))"

definition wr_text :: "string \<Rightarrow> nat list res" where
  "wr_text s = (let b = utf8_encode s in rbind (wr_uint (int (length b))) (\<lambda>n. Inr (n @ b)))"

text \<open>Several writes in sequence.\<close>

fun wr_seq :: "nat list res list \<Rightarrow> nat list res" where
  "wr_seq [] = Inr []"
| "wr_seq (r # rs) = rbind r (\<lambda>b. rbind (wr_seq rs) (\<lambda>bs. Inr (b @ bs)))"

fun rd_byte :: "nat list \<Rightarrow> (nat \<times> nat list) res" where
  "rd_byte [] = Inl (Error ''wire: truncated input'')"
| "rd_byte (b # bs) = Inr (b, bs)"

definition rd_bytes :: "nat \<Rightarrow> nat list \<Rightarrow> (nat list \<times> nat list) res" where
  "rd_bytes n bs = (if length bs < n then Inl (Error ''wire: truncated input'') else Inr (take n bs, drop n bs))"

fun rd_uint_loop :: "nat \<Rightarrow> nat \<Rightarrow> nat \<Rightarrow> nat list \<Rightarrow> (nat \<times> nat list) res" where
  "rd_uint_loop 0 n scale bs = Inl (Error ''wire: invalid varint'')"
| "rd_uint_loop (Suc k) n scale bs = rbind (rd_byte bs) (\<lambda>(b, bs).
     let n' = n + b mod 128 * scale in
     if b div 128 mod 2 = 0
     then (if \<not> is_safe (int n') then Inl (Error ''wire: integer overflow'') else Inr (n', bs))
     else rd_uint_loop k n' (scale * 128) bs)"

definition rd_uint :: "nat list \<Rightarrow> (nat \<times> nat list) res" where
  "rd_uint bs = rd_uint_loop 8 0 1 bs"

definition rd_text :: "nat list \<Rightarrow> (string \<times> nat list) res" where
  "rd_text bs = rbind (rd_uint bs) (\<lambda>(n, bs). rbind (rd_bytes n bs) (\<lambda>(x, bs).
     rbind (utf8_decode x) (\<lambda>s. Inr (s, bs))))"

text \<open>The counted loops of the decoder.\<close>

fun rd_list :: "(nat list \<Rightarrow> ('a \<times> nat list) res) \<Rightarrow> nat \<Rightarrow> nat list \<Rightarrow> ('a list \<times> nat list) res" where
  "rd_list rd 0 bs = Inr ([], bs)"
| "rd_list rd (Suc n) bs = rbind (rd bs) (\<lambda>(x, bs). rbind (rd_list rd n bs) (\<lambda>(xs, bs). Inr (x # xs, bs)))"

section \<open>The dictionary\<close>

definition HASH_HEX :: "string \<Rightarrow> bool" where
  "HASH_HEX s \<longleftrightarrow> (length s = 40 \<or> length s = 64) \<and> list_all is_hex s"

fun LOCAL_COMMIT :: "string \<Rightarrow> bool" where
  "LOCAL_COMMIT [] \<longleftrightarrow> False"
| "LOCAL_COMMIT (c # ds) \<longleftrightarrow> c = CHR ''c'' \<and> ds \<noteq> [] \<and> list_all is_digit ds"

definition count_string :: "string \<Rightarrow> (string \<times> nat) list \<Rightarrow> (string \<times> nat) list" where
  "count_string s counts = AList.update s ((case map_of counts s of Some n \<Rightarrow> n | None \<Rightarrow> 0) + 1) counts"

text \<open>The strings of a value in the order of the walk, keys before their values.\<close>

fun visited :: "json \<Rightarrow> string list" where
  "visited (JStr s) = [s]"
| "visited (JArr xs) = concat (map visited xs)"
| "visited (JObj kvs) = concat (map (\<lambda>(k, v). k # visited v) kvs)"
| "visited v = []"

definition stringsIn :: "json \<Rightarrow> (string \<times> nat) list \<Rightarrow> (string \<times> nat) list" where
  "stringsIn v counts = fold count_string (visited v) counts"

definition dictionary :: "(string \<Rightarrow> string \<Rightarrow> bool) \<Rightarrow> json \<Rightarrow> string list" where
  "dictionary lc v = map fst (sort_by (\<lambda>(s, m) (t, n). n < m \<or> (m = n \<and> lc s t))
     (filter (\<lambda>(s, n). 1 < n \<and> \<not> HASH_HEX s \<and> \<not> LOCAL_COMMIT s) (stringsIn v [])))"

text \<open>\<^verbatim>\<open>dict.get(v)\<close>: the index of a string among the distinct entries.\<close>

fun dict_index :: "string list \<Rightarrow> string \<Rightarrow> nat option" where
  "dict_index [] s = None"
| "dict_index (x # xs) s = (if x = s then Some 0 else map_option Suc (dict_index xs s))"

section \<open>Values\<close>

fun hex_pairs :: "string \<Rightarrow> nat list" where
  "hex_pairs (a # b # s) = (char_hex a * 16 + char_hex b) # hex_pairs s"
| "hex_pairs s = []"

definition putString :: "string list \<Rightarrow> string \<Rightarrow> nat list res" where
  "putString dict s = (case dict_index dict s of
       Some di \<Rightarrow> rbind (wr_uint (int di)) (\<lambda>n. Inr (5 # n))
     | None \<Rightarrow>
         if HASH_HEX s then Inr (6 # (length s div 2) # hex_pairs s)
         else if LOCAL_COMMIT s then rbind (wr_uint (int (dec_value (tl s)))) (\<lambda>n. Inr (10 # n))
         else rbind (wr_text s) (\<lambda>b. Inr (7 # b)))"

fun putValue :: "string list \<Rightarrow> json \<Rightarrow> nat list res" where
  "putValue dict JNull = Inr [0]"
| "putValue dict (JBool b) = Inr [if b then 2 else 1]"
| "putValue dict (JInt n) =
     rbind (wr_uint (if 0 \<le> n then 2 * n else - 2 * n - 1)) (\<lambda>bs. Inr (3 # bs))"
| "putValue dict (JFloat bs) = Inr (4 # bs)"
| "putValue dict (JStr s) = putString dict s"
| "putValue dict (JArr xs) = rbind (wr_uint (int (length xs))) (\<lambda>n.
     rbind (wr_seq (map (putValue dict) xs)) (\<lambda>bs. Inr (8 # n @ bs)))"
| "putValue dict (JObj kvs) = rbind (wr_uint (int (length kvs))) (\<lambda>n.
     rbind (wr_seq (map snd (sort_key fst
         (map (\<lambda>(k, v). (k, wr_seq [putString dict k, putValue dict v])) kvs))))
       (\<lambda>bs. Inr (9 # n @ bs)))"

text \<open>
  \<^verbatim>\<open>o[k] = v\<close> on a plain object: setting the inherited \<^verbatim>\<open>__proto__\<close> adds no entry.
\<close>

definition set_key :: "(string \<times> json) list \<Rightarrow> string \<times> json \<Rightarrow> (string \<times> json) list" where
  "set_key kvs e = (if fst e = ''__proto__'' then kvs else AList.update (fst e) (snd e) kvs)"

definition rd_entry :: "(nat list \<Rightarrow> (json \<times> nat list) res) \<Rightarrow> nat list \<Rightarrow> ((string \<times> json) \<times> nat list) res" where
  "rd_entry rd bs = rbind (rd bs) (\<lambda>(k, bs). case k of
       JStr s \<Rightarrow> rbind (rd bs) (\<lambda>(v, bs). Inr ((s, v), bs))
     | _ \<Rightarrow> Inl (Error ''wire: non-string object key''))"

text \<open>
  The first argument bounds the nesting depth; every level of nesting reads a tag, so the number of
  bytes is enough (\<open>getValue_fuel\<close> below).
\<close>

fun getValue :: "nat \<Rightarrow> string list \<Rightarrow> nat list \<Rightarrow> (json \<times> nat list) res" where
  "getValue 0 dict bs = Inl (Error ''out of fuel'')"
| "getValue (Suc k) dict bs = rbind (rd_byte bs) (\<lambda>(t, bs).
     if t = 0 then Inr (JNull, bs)
     else if t = 1 then Inr (JBool False, bs)
     else if t = 2 then Inr (JBool True, bs)
     else if t = 3 then rbind (rd_uint bs) (\<lambda>(n, bs).
       Inr (JInt (if even n then int n div 2 else - ((int n + 1) div 2)), bs))
     else if t = 4 then rbind (rd_bytes 8 bs) (\<lambda>(x, bs). Inr (JFloat x, bs))
     else if t = 5 then rbind (rd_uint bs) (\<lambda>(i, bs).
       if length dict \<le> i then Inl (Error ''wire: bad dictionary reference'') else Inr (JStr (dict ! i), bs))
     else if t = 6 then rbind (rd_byte bs) (\<lambda>(n, bs). rbind (rd_bytes n bs) (\<lambda>(x, bs).
       Inr (JStr (concat (map hex_byte x)), bs)))
     else if t = 7 then rbind (rd_text bs) (\<lambda>(s, bs). Inr (JStr s, bs))
     else if t = 8 then rbind (rd_uint bs) (\<lambda>(n, bs). rbind (rd_list (getValue k dict) n bs) (\<lambda>(xs, bs).
       Inr (JArr xs, bs)))
     else if t = 9 then rbind (rd_uint bs) (\<lambda>(n, bs). rbind (rd_list (rd_entry (getValue k dict)) n bs) (\<lambda>(es, bs).
       Inr (JObj (foldl set_key [] es), bs)))
     else if t = 10 then rbind (rd_uint bs) (\<lambda>(n, bs). Inr (JStr (CHR ''c'' # dec_text n), bs))
     else Inl (Error ''wire: unknown value tag''))"

section \<open>Commits\<close>

text \<open>
  The bodies of wire commits: two shapes of the peer of \<^verbatim>\<open>sync.js\<close> and the four kinds of the
  replica of \<^verbatim>\<open>replica.js\<close>. The content ids are of type \<open>'g\<close>: strings on the way out; on the
  way in an elided id is \<^const>\<open>JNull\<close>.
\<close>

datatype wire_body =
    WNone
  | WAuthored json nat json
  | WOp json nat json
  | WMerge
  | WCompact json json
  | WBase json json json json json

record 'g wire_commit =
  wc_gid :: 'g
  wc_parents :: "'g list"
  wc_body :: wire_body

datatype 'g message = MValue json | MDelta "'g wire_commit list"

definition opt_put :: "string list \<Rightarrow> json option \<Rightarrow> nat list res" where
  "opt_put dict v = (case v of Some v \<Rightarrow> putValue dict v | None \<Rightarrow> Inl (TypeError ''wire: unsupported value undefined''))"

definition has_shape :: "json \<Rightarrow> string \<Rightarrow> string list \<Rightarrow> bool" where
  "has_shape p ty keys = (case p of
       JObj kvs \<Rightarrow> map_of kvs ''type'' = Some (JStr ty) \<and> list_all (\<lambda>k. k \<in> set keys) (map fst kvs)
     | _ \<Rightarrow> False)"

definition putPayload :: "string list \<Rightarrow> json \<Rightarrow> nat list res" where
  "putPayload dict p =
     (if has_shape p ''ins'' [''type'', ''id'', ''el'', ''anchorId''] then
        wr_seq [Inr [1], opt_put dict (json_get p ''id''), opt_put dict (json_get p ''el''),
          opt_put dict (json_get p ''anchorId'')]
      else if has_shape p ''del'' [''type'', ''id''] then
        wr_seq [Inr [2], opt_put dict (json_get p ''id'')]
      else wr_seq [Inr [0], putValue dict p])"

definition getPayload :: "nat \<Rightarrow> string list \<Rightarrow> nat list \<Rightarrow> (json \<times> nat list) res" where
  "getPayload k dict bs = rbind (rd_byte bs) (\<lambda>(t, bs).
     if t = 1 then
       rbind (getValue k dict bs) (\<lambda>(i, bs). rbind (getValue k dict bs) (\<lambda>(el, bs).
       rbind (getValue k dict bs) (\<lambda>(a, bs).
         Inr (JObj [(''type'', JStr ''ins''), (''id'', i), (''el'', el), (''anchorId'', a)], bs))))
     else if t = 2 then
       rbind (getValue k dict bs) (\<lambda>(i, bs). Inr (JObj [(''type'', JStr ''del''), (''id'', i)], bs))
     else if t = 0 then getValue k dict bs
     else Inl (Error ''wire: unknown payload tag''))"

fun putBody :: "string list \<Rightarrow> wire_body \<Rightarrow> nat list res" where
  "putBody dict (WCompact ct state) = wr_seq [Inr [4], putValue dict ct, putValue dict state]"
| "putBody dict (WBase epoch fp roster proof1 state) =
     wr_seq [Inr [5], putValue dict epoch, putValue dict fp, putValue dict roster, putValue dict proof1,
       putValue dict state]"
| "putBody dict WMerge = Inr [3]"
| "putBody dict (WOp replica sq payload) =
     wr_seq [Inr [2], putValue dict replica, wr_uint (int sq), putPayload dict payload]"
| "putBody dict WNone = Inr [0]"
| "putBody dict (WAuthored replica sq payload) =
     wr_seq [Inr [1], putValue dict replica, wr_uint (int sq), putPayload dict payload]"

definition getBody :: "nat \<Rightarrow> string list \<Rightarrow> nat list \<Rightarrow> (wire_body \<times> nat list) res" where
  "getBody k dict bs = rbind (rd_byte bs) (\<lambda>(shape, bs).
     if shape = 0 then Inr (WNone, bs)
     else if shape = 1 then
       rbind (getValue k dict bs) (\<lambda>(r, bs). rbind (rd_uint bs) (\<lambda>(n, bs).
       rbind (getPayload k dict bs) (\<lambda>(p, bs). Inr (WAuthored r n p, bs))))
     else if shape = 2 then
       rbind (getValue k dict bs) (\<lambda>(r, bs). rbind (rd_uint bs) (\<lambda>(n, bs).
       rbind (getPayload k dict bs) (\<lambda>(p, bs). Inr (WOp r n p, bs))))
     else if shape = 3 then Inr (WMerge, bs)
     else if shape = 4 then
       rbind (getValue k dict bs) (\<lambda>(c, bs). rbind (getValue k dict bs) (\<lambda>(s, bs).
         Inr (WCompact c s, bs)))
     else if shape = 5 then
       rbind (getValue k dict bs) (\<lambda>(e, bs). rbind (getValue k dict bs) (\<lambda>(fp, bs).
       rbind (getValue k dict bs) (\<lambda>(ro, bs). rbind (getValue k dict bs) (\<lambda>(pr, bs).
       rbind (getValue k dict bs) (\<lambda>(s, bs). Inr (WBase e fp ro pr s, bs))))))
     else Inl (Error ''wire: unknown delta commit tag''))"

text \<open>An authored commit whose only use as a parent is the next commit of a run omits its id.\<close>

fun authored :: "wire_body \<Rightarrow> bool" where
  "authored (WOp r n p) \<longleftrightarrow> True"
| "authored (WAuthored r n p) \<longleftrightarrow> True"
| "authored b \<longleftrightarrow> False"

fun omitGid :: "string wire_commit \<Rightarrow> string wire_commit list \<Rightarrow> bool" where
  "omitGid c [] \<longleftrightarrow> False"
| "omitGid c (next # cs) \<longleftrightarrow> authored (wc_body c) \<and> wc_parents next = [wc_gid c]"

definition putParent :: "string list \<Rightarrow> string option \<Rightarrow> string \<Rightarrow> nat list res" where
  "putParent dict previous p = (if Some p = previous then Inr [0] else wr_seq [Inr [1], putString dict p])"

fun putCommits :: "string list \<Rightarrow> string option \<Rightarrow> string wire_commit list \<Rightarrow> nat list res" where
  "putCommits dict previous [] = Inr []"
| "putCommits dict previous (c # cs) = wr_seq [
     (if omitGid c cs then Inr [0] else wr_seq [Inr [1], putString dict (wc_gid c)]),
     wr_uint (int (length (wc_parents c))),
     wr_seq (map (putParent dict previous) (wc_parents c)),
     putBody dict (wc_body c),
     putCommits dict (Some (wc_gid c)) cs]"

definition putDelta :: "string list \<Rightarrow> string wire_commit list \<Rightarrow> nat list res" where
  "putDelta dict cs = wr_seq [wr_uint (int (length cs)), putCommits dict None cs]"

definition rd_parent :: "nat \<Rightarrow> string list \<Rightarrow> json \<Rightarrow> nat list \<Rightarrow> (json \<times> nat list) res" where
  "rd_parent k dict previous bs = rbind (rd_byte bs) (\<lambda>(t, bs).
     if t = 0 then Inr (previous, bs) else getValue k dict bs)"

fun getCommits :: "nat \<Rightarrow> string list \<Rightarrow> nat \<Rightarrow> json \<Rightarrow> nat list \<Rightarrow> (json wire_commit list \<times> nat list) res" where
  "getCommits k dict 0 previous bs = Inr ([], bs)"
| "getCommits k dict (Suc n) previous bs = rbind (rd_byte bs) (\<lambda>(t, bs).
     rbind (if t = 0 then Inr (JNull, bs) else getValue k dict bs) (\<lambda>(gid, bs).
     rbind (rd_uint bs) (\<lambda>(pn, bs).
     rbind (rd_list (rd_parent k dict previous) pn bs) (\<lambda>(ps, bs).
     rbind (getBody k dict bs) (\<lambda>(b, bs).
     rbind (getCommits k dict n gid bs) (\<lambda>(cs, bs).
       Inr (\<lparr>wc_gid = gid, wc_parents = ps, wc_body = b\<rparr> # cs, bs)))))))"

definition getDelta :: "nat \<Rightarrow> string list \<Rightarrow> nat list \<Rightarrow> (json wire_commit list \<times> nat list) res" where
  "getDelta k dict bs = rbind (rd_uint bs) (\<lambda>(n, bs). getCommits k dict n JNull bs)"

section \<open>Messages\<close>

text \<open>
  The message as the object the encoder scans for strings. \<^const>\<open>MDelta\<close> is a value of the shape
  \<^verbatim>\<open>isDelta\<close> tests for, \<^const>\<open>MValue\<close> any other value.
\<close>

fun body_json :: "wire_body \<Rightarrow> (string \<times> json) list \<times> (string \<times> json) list" where
  "body_json WNone = ([], [(''op'', JNull), (''payload'', JNull)])"
| "body_json (WAuthored r n p) = ([], [(''op'', JObj [(''replica'', r), (''seq'', JInt (int n))]), (''payload'', p)])"
| "body_json (WOp r n p) = ([(''kind'', JStr ''op'')],
     [(''op'', JObj [(''replica'', r), (''seq'', JInt (int n))]), (''payload'', p)])"
| "body_json WMerge = ([(''kind'', JStr ''merge'')], [])"
| "body_json (WCompact c s) = ([(''kind'', JStr ''compact'')], [(''cut'', c), (''state'', s)])"
| "body_json (WBase e fp ro pr s) = ([(''kind'', JStr ''base'')],
     [(''epoch'', e), (''fp'', fp), (''roster'', ro), (''proof'', pr), (''state'', s)])"

definition commit_json :: "string wire_commit \<Rightarrow> json" where
  "commit_json c = (case body_json (wc_body c) of (kind, rest) \<Rightarrow>
     JObj ([(''gid'', JStr (wc_gid c))] @ kind @ [(''parents'', JArr (map JStr (wc_parents c)))] @ rest))"

fun message_json :: "string message \<Rightarrow> json" where
  "message_json (MValue v) = v"
| "message_json (MDelta cs) = JObj [(''t'', JStr ''delta''), (''c'', JArr (map commit_json cs))]"

definition MAGIC :: "nat list" where
  "MAGIC = [0x53, 0x41, 0x4c, 0x01]"

definition putMessage :: "string list \<Rightarrow> string message \<Rightarrow> nat list res" where
  "putMessage dict m = (case m of MValue v \<Rightarrow> putValue dict v | MDelta cs \<Rightarrow> putDelta dict cs)"

definition encodeWire :: "(string \<Rightarrow> string \<Rightarrow> bool) \<Rightarrow> string message \<Rightarrow> nat list res" where
  "encodeWire lc m = (let entries = dictionary lc (message_json m) in
     wr_seq [Inr MAGIC, Inr [case m of MDelta _ \<Rightarrow> 1 | MValue _ \<Rightarrow> 0],
       wr_uint (int (length entries)), wr_seq (map wr_text entries), putMessage entries m])"

fun rd_magic :: "nat list \<Rightarrow> nat list \<Rightarrow> nat list res" where
  "rd_magic [] bs = Inr bs"
| "rd_magic (x # xs) bs = rbind (rd_byte bs) (\<lambda>(b, bs).
     if b \<noteq> x then Inl (Error ''wire: bad magic or version'') else rd_magic xs bs)"

definition getMessage :: "nat \<Rightarrow> string list \<Rightarrow> nat \<Rightarrow> nat list \<Rightarrow> (json message \<times> nat list) res" where
  "getMessage k dict mode bs =
     (if mode = 1 then rbind (getDelta k dict bs) (\<lambda>(cs, bs). Inr (MDelta cs, bs))
      else rbind (getValue k dict bs) (\<lambda>(v, bs). Inr (MValue v, bs)))"

definition decodeWire :: "nat list \<Rightarrow> json message res" where
  "decodeWire bytes = rbind (rd_magic MAGIC bytes) (\<lambda>bs.
     rbind (rd_byte bs) (\<lambda>(mode, bs).
     if mode \<noteq> 0 \<and> mode \<noteq> 1 then Inl (Error ''wire: unknown message mode'')
     else rbind (rd_uint bs) (\<lambda>(n, bs).
       rbind (rd_list rd_text n bs) (\<lambda>(dict, bs).
       rbind (getMessage (length bytes) dict mode bs) (\<lambda>(v, bs).
         if bs \<noteq> [] then Inl (Error ''wire: trailing bytes'') else Inr v)))))"

definition binaryWireBytes :: "(string \<Rightarrow> string \<Rightarrow> bool) \<Rightarrow> string message \<Rightarrow> nat res" where
  "binaryWireBytes lc m = rbind (encodeWire lc m) (\<lambda>bs. Inr (length bs))"

end
