(* ===== verification/WireRoundtrip.thy ===== *)
theory WireRoundtrip
  imports Wire
begin

text \<open>
  Reading back what the codec of \<^verbatim>\<open>runtime/src/wire.js\<close> writes: first the primitives, then values by
  induction on the value, then commits and messages; and the fuel of the decoder.
\<close>

section \<open>Primitives\<close>

lemma wr_uint_Inr: "wr_uint n = Inr b \<longleftrightarrow> 0 \<le> n \<and> is_safe n \<and> b = var_digits (nat n)"
  by (auto simp: wr_uint_def)

lemma rd_uint_digits_loop:
  "n < 128 ^ k \<Longrightarrow> 0 < k \<Longrightarrow> is_safe (int (acc + n * scale)) \<Longrightarrow>
   rd_uint_loop k acc scale (var_digits n @ rest) = Inr (acc + n * scale, rest)"
proof (induction k arbitrary: n acc scale)
  case (Suc k)
  show ?case
  proof (cases "n < 128")
    case True
    then show ?thesis using Suc.prems(3) by (simp add: var_digits.simps [of n])
  next
    case False
    have split: "acc + n * scale = (acc + n mod 128 * scale) + n div 128 * (scale * 128)"
      by (metis add.assoc add_mult_distrib mod_div_mult_eq mult.assoc mult.commute)
    have "n div 128 < 128 ^ k" using Suc.prems(1) by (simp add: less_mult_imp_div_less mult.commute)
    moreover from this have "0 < k" using False by (cases k) auto
    ultimately have "rd_uint_loop k (acc + n mod 128 * scale) (scale * 128) (var_digits (n div 128) @ rest) =
        Inr (acc + n * scale, rest)"
      using Suc.IH [of "n div 128" "acc + n mod 128 * scale" "scale * 128"] Suc.prems(3) split by simp
    moreover have "(n mod 128 + 128) mod 128 = n mod 128" "(n mod 128 + 128) div 128 mod 2 = 1" by simp_all
    ultimately show ?thesis using False by (simp add: var_digits.simps [of n])
  qed
qed simp

lemma rd_uint_digits: "is_safe (int n) \<Longrightarrow> rd_uint (var_digits n @ rest) = Inr (n, rest)"
  unfolding rd_uint_def using rd_uint_digits_loop [of n 8 0 1 rest]
  by (simp add: is_safe_def max_safe_def)

lemma rd_uint_wr: "wr_uint n = Inr b \<Longrightarrow> rd_uint (b @ rest) = Inr (nat n, rest)"
  by (auto simp: wr_uint_Inr rd_uint_digits)

lemma rd_bytes_append [simp]: "length x = n \<Longrightarrow> rd_bytes n (x @ rest) = Inr (x, rest)"
  by (simp add: rd_bytes_def)

lemma rd_text_wr: "wr_text s = Inr b \<Longrightarrow> rd_text (b @ rest) = Inr (s, rest)"
  by (auto simp: wr_text_def rd_text_def rbind_eq_Inr Let_def rd_uint_wr)

lemma wr_seq_Inr [simp]:
  "wr_seq [] = Inr b \<longleftrightarrow> b = []"
  "wr_seq (r # rs) = Inr b \<longleftrightarrow> (\<exists>x y. r = Inr x \<and> wr_seq rs = Inr y \<and> b = x @ y)"
  by (auto simp: rbind_eq_Inr)

declare wr_seq.simps [simp del]

text \<open>A counted loop reads back a sequence of writes.\<close>

lemma rd_list_seq:
  assumes "wr_seq (map put xs) = Inr bs"
    and "\<And>x b rest. x \<in> set xs \<Longrightarrow> put x = Inr b \<Longrightarrow> length b \<le> length bs \<Longrightarrow>
      \<exists>w. rd (b @ rest) = Inr (w, rest) \<and> R x w"
  shows "\<exists>ws. rd_list rd (length xs) (bs @ rest) = Inr (ws, rest) \<and> list_all2 R xs ws"
  using assms
proof (induction xs arbitrary: bs)
  case (Cons x xs)
  from Cons.prems(1) obtain b y where b: "put x = Inr b" "wr_seq (map put xs) = Inr y" "bs = b @ y" by auto
  obtain w where w: "rd (b @ y @ rest) = Inr (w, y @ rest)" "R x w"
    using Cons.prems(2) [of x b "y @ rest"] b by auto
  have "\<exists>ws. rd_list rd (length xs) (y @ rest) = Inr (ws, rest) \<and> list_all2 R xs ws"
  proof (rule Cons.IH [OF b(2)])
    fix x' b' rest
    assume "x' \<in> set xs" "put x' = Inr b'" "length b' \<le> length y"
    then show "\<exists>w. rd (b' @ rest) = Inr (w, rest) \<and> R x' w" using b(3) by (intro Cons.prems(2)) auto
  qed
  with w b(3) show ?case by auto
qed simp

section \<open>Strings\<close>

text \<open>Strings the short codes represent: a local commit name is its number in plain decimal.\<close>

definition plain_string :: "string \<Rightarrow> bool" where
  "plain_string s \<longleftrightarrow> (if LOCAL_COMMIT s \<and> \<not> HASH_HEX s
     then s = CHR ''c'' # dec_text (dec_value (tl s)) else True)"

lemma hex_pairs_back:
  "list_all is_hex s \<Longrightarrow> even (length s) \<Longrightarrow> concat (map hex_byte (hex_pairs s)) = s \<and> length (hex_pairs s) = length s div 2"
proof (induction s rule: hex_pairs.induct)
  case (1 a b s)
  then have "char_hex b < 16" "is_hex a" "is_hex b" using char_hex_bound by auto
  with 1 show ?case by (simp add: hex_byte_def)
qed auto

lemma dict_index_Some: "dict_index dict s = Some i \<Longrightarrow> i < length dict \<and> dict ! i = s"
  by (induction dict arbitrary: i) (auto split: if_splits)

text \<open>What a string is read back as.\<close>

definition wire_string :: "string list \<Rightarrow> string \<Rightarrow> string" where
  "wire_string dict s = (if dict_index dict s = None \<and> \<not> HASH_HEX s \<and> LOCAL_COMMIT s
     then CHR ''c'' # dec_text (dec_value (tl s)) else s)"

lemma putString_back:
  assumes put: "putString dict s = Inr b"
  shows "getValue (Suc k) dict (b @ rest) = Inr (JStr (wire_string dict s), rest)"
proof (cases "dict_index dict s")
  case (Some di)
  from put Some obtain n where "wr_uint (int di) = Inr n" "b = 5 # n"
    by (auto simp: putString_def rbind_eq_Inr)
  then show ?thesis using dict_index_Some [OF Some] Some by (simp add: rd_uint_wr wire_string_def)
next
  case None
  show ?thesis
  proof (cases "HASH_HEX s")
    case True
    then have h: "list_all is_hex s" "even (length s)" by (auto simp: HASH_HEX_def)
    from put None True have "b = 6 # (length s div 2) # hex_pairs s" by (simp add: putString_def)
    moreover have "rd_bytes (length s div 2) (hex_pairs s @ rest) = Inr (hex_pairs s, rest)"
      using hex_pairs_back [OF h] by (intro rd_bytes_append) simp
    ultimately show ?thesis using hex_pairs_back [OF h] True by (simp add: wire_string_def)
  next
    case hash: False
    show ?thesis
    proof (cases "LOCAL_COMMIT s")
      case True
      then obtain n where "wr_uint (int (dec_value (tl s))) = Inr n" "b = 10 # n"
        using put None hash by (auto simp: putString_def rbind_eq_Inr)
      then show ?thesis using None True hash by (simp add: rd_uint_wr wire_string_def)
    next
      case False
      then obtain n where "wr_text s = Inr n" "b = 7 # n"
        using put None hash by (auto simp: putString_def rbind_eq_Inr)
      then show ?thesis using False by (simp add: rd_text_wr wire_string_def)
    qed
  qed
qed

lemma wire_string_plain: "plain_string s \<Longrightarrow> wire_string dict s = s"
  by (auto simp: plain_string_def wire_string_def split: if_splits)

section \<open>Values\<close>

fun json_plain :: "json \<Rightarrow> bool" where
  "json_plain (JStr s) \<longleftrightarrow> plain_string s"
| "json_plain (JArr xs) \<longleftrightarrow> (\<forall>x \<in> set xs. json_plain x)"
| "json_plain (JObj kvs) \<longleftrightarrow> (\<forall>(k, v) \<in> set kvs. plain_string k \<and> k \<noteq> ''__proto__'' \<and> json_plain v)"
| "json_plain v \<longleftrightarrow> True"

definition json_ok :: "json \<Rightarrow> bool" where
  "json_ok v \<longleftrightarrow> json_wf v \<and> json_plain v"

lemma json_ok_simps [simp]:
  "json_ok JNull" "json_ok (JBool b)"
  "json_ok (JInt n) \<longleftrightarrow> is_safe n" "json_ok (JFloat bs) \<longleftrightarrow> length bs = 8"
  "json_ok (JStr s) \<longleftrightarrow> plain_string s"
  "json_ok (JArr xs) \<longleftrightarrow> (\<forall>x \<in> set xs. json_ok x)"
  "json_ok (JObj kvs) \<longleftrightarrow> distinct (map fst kvs) \<and>
     (\<forall>(k, v) \<in> set kvs. plain_string k \<and> k \<noteq> ''__proto__'' \<and> json_ok v)"
  by (auto simp: json_ok_def)

lemma insort_key_map: "insort_key f (g x) (map g xs) = map g (insort_key (f \<circ> g) x xs)"
  by (induction xs) auto

lemma sort_key_map: "sort_key f (map g xs) = map g (sort_key (f \<circ> g) xs)"
  by (induction xs) (auto simp: insort_key_map comp_def)

lemma map_snd_sorted: "map snd (sort_key fst (map (\<lambda>(k, v). (k, f k v)) kvs)) = map (\<lambda>(k, v). f k v) (sort_key fst kvs)"
proof -
  have "fst \<circ> (\<lambda>(k, v). (k, f k v)) = fst" by auto
  then show ?thesis by (simp add: sort_key_map comp_def split_def)
qed

lemma foldl_set_key:
  "distinct (map fst (acc @ es)) \<Longrightarrow> ''__proto__'' \<notin> fst ` set es \<Longrightarrow> foldl set_key acc es = acc @ es"
proof (induction es arbitrary: acc)
  case (Cons e es)
  have "AList.update (fst e) (snd e) acc = acc @ [e]"
    using Cons.prems(1) by (cases e) (auto simp: update_new)
  moreover have "fst e \<noteq> ''__proto__''" using Cons.prems(2) by auto
  ultimately show ?case using Cons by (simp add: set_key_def)
qed simp


lemma distinct_keys_sort [simp]: "distinct (map f (sort_key f xs)) = distinct (map f xs)"
  by (simp add: distinct_map)

text \<open>Objects with the same entries under distinct keys have the same canonical form.\<close>

lemma sort_entries_unique:
  assumes "distinct (map fst xs)" and "distinct (map fst ys)" and "set xs = set ys"
  shows "sort_key fst xs = sort_key fst ys"
proof (rule map_sorted_distinct_set_unique [where f = fst])
  show "inj_on fst (set (sort_key fst xs) \<union> set (sort_key fst ys))"
    using assms by (simp add: distinct_map)
qed (use assms in simp_all)

lemma canon_obj_sorted:
  assumes es: "list_all2 (\<lambda>(k, v) (k', w). k' = k \<and> canon w = canon v) (sort_key fst kvs) es"
    and d: "distinct (map fst kvs)"
  shows "canon (JObj es) = canon (JObj kvs)" and "map fst es = map fst (sort_key fst kvs)"
proof -
  let ?c = "\<lambda>(k, v). (k, canon v)"
  from es show keys: "map fst es = map fst (sort_key fst kvs)"
    by (induction rule: list_all2_induct) (auto split: prod.splits)
  from es have eq: "map ?c es = map ?c (sort_key fst kvs)"
    by (induction rule: list_all2_induct) (auto split: prod.splits)
  have fst: "map fst (map ?c xs) = map fst xs" for xs :: "(string \<times> json) list"
    by (induction xs) auto
  have "distinct (map fst (sort_key fst kvs))" using d by simp
  then have "distinct (map fst (map ?c es))" unfolding fst keys .
  moreover have "distinct (map fst (map ?c kvs))" unfolding fst by (rule d)
  moreover have "set (map ?c es) = set (map ?c kvs)" unfolding eq by simp
  ultimately show "canon (JObj es) = canon (JObj kvs)" by (auto intro: sort_entries_unique)
qed

lemma putValue_back:
  "putValue dict v = Inr b \<Longrightarrow> json_ok v \<Longrightarrow> length b \<le> k \<Longrightarrow>
   \<exists>w. getValue k dict (b @ rest) = Inr (w, rest) \<and> canon w = canon v"
proof (induction v arbitrary: b k rest)
  case JNull
  then show ?case by (cases k) auto
next
  case (JBool x)
  then show ?case by (cases k) (auto split: if_splits)
next
  case (JInt n)
  then obtain j bs where b: "k = Suc j" "b = 3 # bs" "wr_uint (if 0 \<le> n then 2 * n else - 2 * n - 1) = Inr bs"
    by (cases k) (auto simp: rbind_eq_Inr)
  show ?case
  proof (cases "0 \<le> n")
    case True
    then show ?thesis using b by (simp add: rd_uint_wr even_nat_iff)
  next
    case False
    then have "odd (nat (- 2 * n - 1))" "(int (nat (- 2 * n - 1)) + 1) div 2 = - n"
      by (simp_all add: even_nat_iff)
    with False show ?thesis using b rd_uint_wr [of "- 2 * n - 1" bs rest] by simp
  qed
next
  case (JFloat x)
  then show ?case by (cases k) auto
next
  case (JStr s)
  then obtain j where "k = Suc j" by (cases k) (auto simp: putString_def rbind_eq_Inr split: option.splits if_splits)
  with JStr putString_back [of dict s b j rest] show ?case by (simp add: wire_string_plain)
next
  case (JArr xs)
  from JArr.prems obtain n bs j where b: "wr_uint (int (length xs)) = Inr n" "wr_seq (map (putValue dict) xs) = Inr bs"
    "b = 8 # n @ bs" "k = Suc j" by (cases k) (auto simp: rbind_eq_Inr)
  have "\<exists>ws. rd_list (getValue j dict) (length xs) (bs @ rest) = Inr (ws, rest) \<and>
      list_all2 (\<lambda>v w. canon w = canon v) xs ws"
    using JArr.IH JArr.prems(2,3) b(3,4) by (intro rd_list_seq [OF b(2)]) auto
  then obtain ws where ws: "rd_list (getValue j dict) (length xs) (bs @ rest) = Inr (ws, rest)"
    "list_all2 (\<lambda>v w. canon w = canon v) xs ws" by blast
  from ws(2) have "map canon ws = map canon xs" by (induction rule: list_all2_induct) auto
  then show ?case using ws(1) b by (simp add: rd_uint_wr)
next
  case (JObj kvs)
  let ?put = "\<lambda>(k, v). wr_seq [putString dict k, putValue dict v]"
  from JObj.prems obtain n bs j where b: "wr_uint (int (length kvs)) = Inr n"
    "wr_seq (map ?put (sort_key fst kvs)) = Inr bs" "b = 9 # n @ bs" "k = Suc j"
    by (cases k) (auto simp: rbind_eq_Inr map_snd_sorted)
  have "\<exists>es. rd_list (rd_entry (getValue j dict)) (length (sort_key fst kvs)) (bs @ rest) = Inr (es, rest) \<and>
      list_all2 (\<lambda>(k, v) (k', w). k' = k \<and> canon w = canon v) (sort_key fst kvs) es"
  proof (rule rd_list_seq [OF b(2)])
    fix e b' rest
    assume e: "e \<in> set (sort_key fst kvs)" "?put e = Inr b'" "length b' \<le> length bs"
    obtain key v where kv: "e = (key, v)" by force
    from e(2) kv obtain x y where xy: "putString dict key = Inr x" "putValue dict v = Inr y" "b' = x @ y" by auto
    have mem: "(key, v) \<in> set kvs" using e(1) kv by simp
    then have ok: "plain_string key" "json_ok v" using JObj.prems(2) by auto
    obtain i where i: "j = Suc i" using e(3) xy(3,1) b JObj.prems(3)
      by (cases j) (auto simp: putString_def rbind_eq_Inr split: option.splits if_splits)
    have "length y \<le> j" using xy(3) e(3) b(3,4) JObj.prems(3) by simp
    then obtain w where w: "getValue j dict (y @ rest) = Inr (w, rest)" "canon w = canon v"
      using JObj.IH [OF mem _ xy(2) ok(2)] by (auto simp: snds.simps)
    show "\<exists>w. rd_entry (getValue j dict) (b' @ rest) = Inr (w, rest) \<and>
        (case e of (k, v) \<Rightarrow> \<lambda>(k', w). k' = k \<and> canon w = canon v) w"
      using w putString_back [OF xy(1), of i "y @ rest"] ok(1) i
      by (simp add: kv xy(3) rd_entry_def wire_string_plain)
  qed
  then obtain es where es: "rd_list (rd_entry (getValue j dict)) (length kvs) (bs @ rest) = Inr (es, rest)"
    "list_all2 (\<lambda>(k, v) (k', w). k' = k \<and> canon w = canon v) (sort_key fst kvs) es" by auto
  have d: "distinct (map fst kvs)" using JObj.prems(2) by simp
  note c = canon_obj_sorted [OF es(2) d]
  have "distinct (map fst es)" unfolding c(2) using d by simp
  moreover have "fst ` set es = fst ` set kvs" using arg_cong [OF c(2), of set] by simp
  then have "''__proto__'' \<notin> fst ` set es" using JObj.prems(2) by auto
  ultimately have "foldl set_key [] es = es" using foldl_set_key [of "[]" es] by simp
  then show ?case using es(1) c(1) b by (simp add: rd_uint_wr del: canon.simps)
qed

section \<open>Payloads and commits\<close>

lemma canon_obj_lookup:
  assumes d: "distinct (map fst es)" "distinct (map fst kvs)"
    and eq: "\<And>k. map_option canon (map_of es k) = map_option canon (map_of kvs k)"
  shows "canon (JObj es) = canon (JObj kvs)"
proof -
  let ?c = "\<lambda>(k, v). (k, canon v)"
  have fst: "map fst (map ?c xs) = map fst xs" for xs :: "(string \<times> json) list" by (induction xs) auto
  have mem: "(k, w) \<in> set (map ?c xs) \<longleftrightarrow> map_option canon (map_of xs k) = Some w"
    if "distinct (map fst xs)" for k w and xs :: "(string \<times> json) list"
    using that by (auto simp: map_of_eq_Some_iff split_def intro: rev_image_eqI)
  have "x \<in> set (map ?c es) \<longleftrightarrow> x \<in> set (map ?c kvs)" for x
  proof (cases x)
    case (Pair k w)
    show ?thesis unfolding Pair mem [OF d(1)] mem [OF d(2)] eq by (rule refl)
  qed
  then have "set (map ?c es) = set (map ?c kvs)" by blast
  moreover have "distinct (map fst (map ?c es))" "distinct (map fst (map ?c kvs))" unfolding fst using d by auto
  ultimately show ?thesis by (auto intro: sort_entries_unique)
qed

lemma json_ok_get: "json_ok p \<Longrightarrow> json_get p k = Some x \<Longrightarrow> json_ok x"
  by (cases p) (auto dest: map_of_SomeD)

lemma opt_put_back:
  assumes "opt_put dict (json_get p key) = Inr b" and "json_ok p" and "length b \<le> k"
  shows "\<exists>x w. json_get p key = Some x \<and> getValue k dict (b @ rest) = Inr (w, rest) \<and> canon w = canon x"
proof (cases "json_get p key")
  case (Some x)
  then show ?thesis using putValue_back [of dict x b k rest] json_ok_get [OF assms(2)] assms(1,3)
    by (auto simp: opt_put_def)
qed (use assms(1) in \<open>simp add: opt_put_def\<close>)

lemma has_shapeD: "has_shape p ty keys \<Longrightarrow> \<exists>kvs. p = JObj kvs \<and> map_of kvs ''type'' = Some (JStr ty) \<and>
    (\<forall>k. k \<notin> set keys \<longrightarrow> map_of kvs k = None)"
  by (auto simp: has_shape_def list_all_iff map_of_eq_None_iff split: json.splits)

lemma putPayload_back:
  assumes put: "putPayload dict p = Inr b" and ok: "json_ok p" and k: "length b \<le> k"
  shows "\<exists>w. getPayload k dict (b @ rest) = Inr (w, rest) \<and> canon w = canon p"
proof -
  consider (ins) "has_shape p ''ins'' [''type'', ''id'', ''el'', ''anchorId'']"
    | (del) "\<not> has_shape p ''ins'' [''type'', ''id'', ''el'', ''anchorId'']" "has_shape p ''del'' [''type'', ''id'']"
    | (other) "\<not> has_shape p ''ins'' [''type'', ''id'', ''el'', ''anchorId'']" "\<not> has_shape p ''del'' [''type'', ''id'']"
    by blast
  then show ?thesis
  proof cases
    case ins
    from put ins obtain x y z where b: "opt_put dict (json_get p ''id'') = Inr x"
      "opt_put dict (json_get p ''el'') = Inr y" "opt_put dict (json_get p ''anchorId'') = Inr z" "b = 1 # x @ y @ z"
      by (auto simp: putPayload_def)
    have len: "length x \<le> k" "length y \<le> k" "length z \<le> k" using b(4) k by auto
    obtain i i' where i: "json_get p ''id'' = Some i" "getValue k dict (x @ y @ z @ rest) = Inr (i', y @ z @ rest)"
        "canon i' = canon i"
      using opt_put_back [OF b(1) ok len(1)] by blast
    obtain e e' where e: "json_get p ''el'' = Some e" "getValue k dict (y @ z @ rest) = Inr (e', z @ rest)"
        "canon e' = canon e"
      using opt_put_back [OF b(2) ok len(2)] by blast
    obtain a a' where a: "json_get p ''anchorId'' = Some a" "getValue k dict (z @ rest) = Inr (a', rest)"
        "canon a' = canon a"
      using opt_put_back [OF b(3) ok len(3)] by blast
    from has_shapeD [OF ins] obtain kvs where kvs: "p = JObj kvs" "map_of kvs ''type'' = Some (JStr ''ins'')"
      "\<And>k. k \<notin> {''type'', ''id'', ''el'', ''anchorId''} \<Longrightarrow> map_of kvs k = None" by auto
    have "canon (JObj [(''type'', JStr ''ins''), (''id'', i'), (''el'', e'), (''anchorId'', a')]) = canon (JObj kvs)"
      using ok i e a kvs by (intro canon_obj_lookup) auto
    then show ?thesis using i(2) e(2) a(2) b(4) kvs(1) by (simp add: getPayload_def del: canon.simps)
  next
    case del
    from put del obtain x where b: "opt_put dict (json_get p ''id'') = Inr x" "b = 2 # x"
      by (auto simp: putPayload_def)
    obtain i i' where i: "json_get p ''id'' = Some i" "getValue k dict (x @ rest) = Inr (i', rest)"
        "canon i' = canon i"
      using opt_put_back [OF b(1) ok, of k rest] b(2) k by auto
    from has_shapeD [OF del(2)] obtain kvs where kvs: "p = JObj kvs" "map_of kvs ''type'' = Some (JStr ''del'')"
      "\<And>k. k \<notin> {''type'', ''id''} \<Longrightarrow> map_of kvs k = None" by auto
    have "canon (JObj [(''type'', JStr ''del''), (''id'', i')]) = canon (JObj kvs)"
      using ok i kvs by (intro canon_obj_lookup) auto
    then show ?thesis using i(2) b(2) kvs(1) by (simp add: getPayload_def del: canon.simps)
  next
    case other
    then obtain x where "putValue dict p = Inr x" "b = 0 # x" using put by (auto simp: putPayload_def)
    then show ?thesis using putValue_back [of dict p x k rest] ok k by (auto simp: getPayload_def)
  qed
qed

fun canon_body :: "wire_body \<Rightarrow> wire_body" where
  "canon_body (WAuthored r n p) = WAuthored (canon r) n (canon p)"
| "canon_body (WOp r n p) = WOp (canon r) n (canon p)"
| "canon_body (WCompact c s) = WCompact (canon c) (canon s)"
| "canon_body (WBase e fp ro pr s) = WBase (canon e) (canon fp) (canon ro) (canon pr) (canon s)"
| "canon_body b = b"

fun body_ok :: "wire_body \<Rightarrow> bool" where
  "body_ok (WAuthored r n p) \<longleftrightarrow> json_ok r \<and> json_ok p"
| "body_ok (WOp r n p) \<longleftrightarrow> json_ok r \<and> json_ok p"
| "body_ok (WCompact c s) \<longleftrightarrow> json_ok c \<and> json_ok s"
| "body_ok (WBase e fp ro pr s) \<longleftrightarrow> json_ok e \<and> json_ok fp \<and> json_ok ro \<and> json_ok pr \<and> json_ok s"
| "body_ok b \<longleftrightarrow> True"

lemma putBody_back:
  assumes put: "putBody dict b = Inr bs" and ok: "body_ok b" and k: "length bs \<le> k"
  shows "\<exists>w. getBody k dict (bs @ rest) = Inr (w, rest) \<and> canon_body w = canon_body b"
proof (cases b)
  case (WAuthored r n p)
  with put obtain x y z where b: "putValue dict r = Inr x" "wr_uint (int n) = Inr y" "putPayload dict p = Inr z"
    "bs = 1 # x @ y @ z" by auto
  obtain r' where "getValue k dict (x @ y @ z @ rest) = Inr (r', y @ z @ rest)" "canon r' = canon r"
    using putValue_back [OF b(1), of k "y @ z @ rest"] ok k b(4) WAuthored by auto
  moreover obtain p' where "getPayload k dict (z @ rest) = Inr (p', rest)" "canon p' = canon p"
    using putPayload_back [OF b(3), of k rest] ok k b(4) WAuthored by auto
  ultimately show ?thesis using b(2,4) WAuthored by (simp add: getBody_def rd_uint_wr)
next
  case (WOp r n p)
  with put obtain x y z where b: "putValue dict r = Inr x" "wr_uint (int n) = Inr y" "putPayload dict p = Inr z"
    "bs = 2 # x @ y @ z" by auto
  obtain r' where "getValue k dict (x @ y @ z @ rest) = Inr (r', y @ z @ rest)" "canon r' = canon r"
    using putValue_back [OF b(1), of k "y @ z @ rest"] ok k b(4) WOp by auto
  moreover obtain p' where "getPayload k dict (z @ rest) = Inr (p', rest)" "canon p' = canon p"
    using putPayload_back [OF b(3), of k rest] ok k b(4) WOp by auto
  ultimately show ?thesis using b(2,4) WOp by (simp add: getBody_def rd_uint_wr)
next
  case (WCompact c s)
  with put obtain x y where b: "putValue dict c = Inr x" "putValue dict s = Inr y" "bs = 4 # x @ y" by auto
  obtain c' where "getValue k dict (x @ y @ rest) = Inr (c', y @ rest)" "canon c' = canon c"
    using putValue_back [OF b(1), of k "y @ rest"] ok k b(3) WCompact by auto
  moreover obtain s' where "getValue k dict (y @ rest) = Inr (s', rest)" "canon s' = canon s"
    using putValue_back [OF b(2), of k rest] ok k b(3) WCompact by auto
  ultimately show ?thesis using b(3) WCompact by (simp add: getBody_def)
next
  case (WBase e fp ro pr s)
  with put obtain b1 b2 b3 b4 b5 where b: "putValue dict e = Inr b1" "putValue dict fp = Inr b2"
    "putValue dict ro = Inr b3" "putValue dict pr = Inr b4" "putValue dict s = Inr b5"
    "bs = 5 # b1 @ b2 @ b3 @ b4 @ b5" by auto
  have ok': "json_ok e" "json_ok fp" "json_ok ro" "json_ok pr" "json_ok s" using ok WBase by auto
  have len: "length b1 \<le> k" "length b2 \<le> k" "length b3 \<le> k" "length b4 \<le> k" "length b5 \<le> k"
    using b(6) k by auto
  obtain e' where "getValue k dict (b1 @ b2 @ b3 @ b4 @ b5 @ rest) = Inr (e', b2 @ b3 @ b4 @ b5 @ rest)" "canon e' = canon e"
    using putValue_back [OF b(1) ok'(1) len(1)] by blast
  moreover obtain f' where "getValue k dict (b2 @ b3 @ b4 @ b5 @ rest) = Inr (f', b3 @ b4 @ b5 @ rest)" "canon f' = canon fp"
    using putValue_back [OF b(2) ok'(2) len(2)] by blast
  moreover obtain o' where "getValue k dict (b3 @ b4 @ b5 @ rest) = Inr (o', b4 @ b5 @ rest)" "canon o' = canon ro"
    using putValue_back [OF b(3) ok'(3) len(3)] by blast
  moreover obtain p' where "getValue k dict (b4 @ b5 @ rest) = Inr (p', b5 @ rest)" "canon p' = canon pr"
    using putValue_back [OF b(4) ok'(4) len(4)] by blast
  moreover obtain s' where "getValue k dict (b5 @ rest) = Inr (s', rest)" "canon s' = canon s"
    using putValue_back [OF b(5) ok'(5) len(5)] by blast
  ultimately show ?thesis using b(6) WBase by (simp add: getBody_def)
qed (use put in \<open>auto simp: getBody_def\<close>)

text \<open>
  What the receiver sees of a delta: the id of an elided run member is \<^const>\<open>JNull\<close>, and so is the
  reference of its only child to it.
\<close>

fun elide :: "string option \<Rightarrow> json \<Rightarrow> string wire_commit list \<Rightarrow> json wire_commit list" where
  "elide previous shown [] = []"
| "elide previous shown (c # cs) = (let g = if omitGid c cs then JNull else JStr (wc_gid c) in
     \<lparr>wc_gid = g, wc_parents = map (\<lambda>p. if Some p = previous then shown else JStr p) (wc_parents c),
       wc_body = wc_body c\<rparr> # elide (Some (wc_gid c)) g cs)"

definition canon_commit :: "json wire_commit \<Rightarrow> json wire_commit" where
  "canon_commit c = c\<lparr>wc_body := canon_body (wc_body c)\<rparr>"

lemma canon_commit_make [simp]: "canon_commit \<lparr>wc_gid = g, wc_parents = ps, wc_body = b\<rparr> =
    \<lparr>wc_gid = g, wc_parents = ps, wc_body = canon_body b\<rparr>"
  by (simp add: canon_commit_def)

definition commit_ok :: "string wire_commit \<Rightarrow> bool" where
  "commit_ok c \<longleftrightarrow> plain_string (wc_gid c) \<and> list_all plain_string (wc_parents c) \<and> body_ok (wc_body c)"

lemma putString_plain:
  "putString dict s = Inr b \<Longrightarrow> plain_string s \<Longrightarrow> length b \<le> k \<Longrightarrow> getValue k dict (b @ rest) = Inr (JStr s, rest)"
  using putString_back [of dict s b "k - 1" rest]
  by (cases k) (auto simp: wire_string_plain putString_def rbind_eq_Inr split: option.splits if_splits)

lemma putCommits_back:
  "putCommits dict previous cs = Inr b \<Longrightarrow> list_all commit_ok cs \<Longrightarrow> length b \<le> k \<Longrightarrow>
   \<exists>ws. getCommits k dict (length cs) shown (b @ rest) = Inr (ws, rest) \<and>
     map canon_commit ws = map canon_commit (elide previous shown cs)"
proof (induction cs arbitrary: previous shown b)
  case (Cons c cs)
  let ?g = "if omitGid c cs then JNull else JStr (wc_gid c)"
  let ?p = "\<lambda>p. if Some p = previous then shown else JStr p"
  from Cons.prems(1) obtain bg bn bp bb bc where b:
    "(if omitGid c cs then Inr [0] else wr_seq [Inr [1], putString dict (wc_gid c)]) = Inr bg"
    "wr_uint (int (length (wc_parents c))) = Inr bn"
    "wr_seq (map (putParent dict previous) (wc_parents c)) = Inr bp"
    "putBody dict (wc_body c) = Inr bb" "putCommits dict (Some (wc_gid c)) cs = Inr bc"
    "b = bg @ bn @ bp @ bb @ bc" by auto
  have ok: "plain_string (wc_gid c)" "list_all plain_string (wc_parents c)" "body_ok (wc_body c)"
    using Cons.prems(2) by (auto simp: commit_ok_def)
  have len: "length bg \<le> k" "length bp \<le> k" "length bb \<le> k" "length bc \<le> k" using Cons.prems(3) b(6) by auto
  have g: "rbind (rd_byte (bg @ r)) (\<lambda>(t, bs). if t = 0 then Inr (JNull, bs) else getValue k dict bs) = Inr (?g, r)" for r
  proof (cases "omitGid c cs")
    case False
    then obtain x where "putString dict (wc_gid c) = Inr x" "bg = 1 # x" using b(1) by auto
    then show ?thesis using False putString_plain [of dict "wc_gid c" x k r] ok(1) len(1) by simp
  qed (use b(1) in auto)
  have "\<exists>ps. rd_list (rd_parent k dict shown) (length (wc_parents c)) (bp @ bb @ bc @ rest) = Inr (ps, bb @ bc @ rest) \<and>
      list_all2 (\<lambda>p w. w = ?p p) (wc_parents c) ps"
  proof (rule rd_list_seq [OF b(3)])
    fix p x r
    assume p: "p \<in> set (wc_parents c)" "putParent dict previous p = Inr x" "length x \<le> length bp"
    show "\<exists>w. rd_parent k dict shown (x @ r) = Inr (w, r) \<and> w = ?p p"
    proof (cases "Some p = previous")
      case False
      then obtain y where "putString dict p = Inr y" "x = 1 # y" using p(2) by (auto simp: putParent_def)
      moreover have "plain_string p" using ok(2) p(1) by (simp add: list_all_iff)
      ultimately show ?thesis using False putString_plain [of dict p y k r] p(3) len(2)
        by (simp add: rd_parent_def)
    qed (use p(2) in \<open>auto simp: putParent_def rd_parent_def\<close>)
  qed
  then obtain ps where ps: "rd_list (rd_parent k dict shown) (length (wc_parents c)) (bp @ bb @ bc @ rest) = Inr (ps, bb @ bc @ rest)"
    "list_all2 (\<lambda>p w. w = ?p p) (wc_parents c) ps" by blast
  from ps(2) have ps': "ps = map ?p (wc_parents c)" by (induction rule: list_all2_induct) auto
  obtain w where w: "getBody k dict (bb @ bc @ rest) = Inr (w, bc @ rest)" "canon_body w = canon_body (wc_body c)"
    using putBody_back [OF b(4) ok(3) len(3)] by blast
  have "\<exists>ws. getCommits k dict (length cs) ?g (bc @ rest) = Inr (ws, rest) \<and>
      map canon_commit ws = map canon_commit (elide (Some (wc_gid c)) ?g cs)"
    using Cons.IH [OF b(5) _ len(4)] Cons.prems(2) by auto
  then obtain ws where ws: "getCommits k dict (length cs) ?g (bc @ rest) = Inr (ws, rest)"
    "map canon_commit ws = map canon_commit (elide (Some (wc_gid c)) ?g cs)" by blast
  obtain t bs where t: "rd_byte (b @ rest) = Inr (t, bs)"
    "(if t = 0 then Inr (JNull, bs) else getValue k dict bs) = Inr (?g, bn @ bp @ bb @ bc @ rest)"
    using g [of "bn @ bp @ bb @ bc @ rest"] b(6) by (auto simp: rbind_pair_Inr)
  have "getCommits k dict (length (c # cs)) shown (b @ rest) =
      Inr (\<lparr>wc_gid = ?g, wc_parents = ps, wc_body = w\<rparr> # ws, rest)"
    using rd_uint_wr [OF b(2)] by (simp only: length_Cons getCommits.simps t rbind_simps case_prod_conv ps w ws nat_int)
  then show ?case using ws(2) w(2)
    by (cases "omitGid c cs") (simp_all add: ps' Let_def del: getCommits.simps)
qed simp


section \<open>Messages\<close>

fun message_ok :: "string message \<Rightarrow> bool" where
  "message_ok (MValue v) \<longleftrightarrow> json_ok v"
| "message_ok (MDelta cs) \<longleftrightarrow> list_all commit_ok cs"

text \<open>The message the receiver is to see, and equality of messages up to the order of keys.\<close>

fun received :: "string message \<Rightarrow> json message" where
  "received (MValue v) = MValue v"
| "received (MDelta cs) = MDelta (elide None JNull cs)"

fun canon_message :: "json message \<Rightarrow> json message" where
  "canon_message (MValue v) = MValue (canon v)"
| "canon_message (MDelta cs) = MDelta (map canon_commit cs)"

lemma putMessage_back:
  assumes put: "putMessage dict m = Inr b" and ok: "message_ok m" and k: "length b \<le> k"
  shows "\<exists>w. getMessage k dict (case m of MDelta _ \<Rightarrow> 1 | MValue _ \<Rightarrow> 0) (b @ rest) = Inr (w, rest) \<and>
    canon_message w = canon_message (received m)"
proof (cases m)
  case (MValue v)
  with putValue_back [of dict v b k rest] assms show ?thesis by (auto simp: putMessage_def getMessage_def)
next
  case (MDelta cs)
  with put obtain x y where b: "wr_uint (int (length cs)) = Inr x" "putCommits dict None cs = Inr y" "b = x @ y"
    by (auto simp: putMessage_def putDelta_def)
  obtain ws where "getCommits k dict (length cs) JNull (y @ rest) = Inr (ws, rest)"
    "map canon_commit ws = map canon_commit (elide None JNull cs)"
    using putCommits_back [OF b(2), of k JNull rest] ok k b(3) MDelta by auto
  then show ?thesis using b MDelta by (simp add: getMessage_def getDelta_def rd_uint_wr)
qed



text \<open>A run of two authored commits: the first id is elided.\<close>

definition sample_delta :: "string message" where
  "sample_delta = MDelta [
     \<lparr>wc_gid = ''c1'', wc_parents = [''c0''], wc_body = WOp (JStr ''al'') 0
       (JObj [(''id'', JInt 7), (''type'', JStr ''ins''), (''el'', JStr ''x''), (''anchorId'', JNull)])\<rparr>,
     \<lparr>wc_gid = ''c2'', wc_parents = [''c1''], wc_body = WOp (JStr ''al'') 1
       (JObj [(''type'', JStr ''del''), (''id'', JInt 7)])\<rparr>]"

lemma sample_delta_ok: "message_ok sample_delta"
  by code_simp

lemma sample_delta_encoded: "is_ok (encodeWire (<) sample_delta)"
  by code_simp


section \<open>Bounds\<close>

text \<open>C29: the integers the wire carries. A safe integer is written exactly when it lies in the half-open
  interval from minus to plus 2 to the power 52, half of the safe range, because the sign is folded into the low bit
  before the range check; the encoder throws on the others.\<close>

theorem wire_integer_range:
  assumes "is_safe n"
  shows "is_ok (encodeWire lc (MValue (JInt n))) \<longleftrightarrow> - (2 ^ 52) \<le> n \<and> n < 2 ^ 52"
proof -
  have [simp]: "dictionary lc (JInt n) = []" by (simp add: dictionary_def sort_by_def stringsIn_def)
  have "is_ok (encodeWire lc (MValue (JInt n))) \<longleftrightarrow> is_safe (if 0 \<le> n then 2 * n else - 2 * n - 1)"
    by (auto simp: encodeWire_def is_ok_iff putMessage_def rbind_eq_Inr wr_uint_Inr is_safe_def max_safe_def)
  then show ?thesis using assms by (auto simp: is_safe_def max_safe_def)
qed

lemma wire_integer_range_witness:
  "\<not> is_ok (encodeWire (<) (MValue (JInt (2 ^ 52)))) \<and> is_ok (encodeWire (<) (MValue (JInt (2 ^ 52 - 1))))"
  using wire_integer_range [of "2 ^ 52" "(<)"] wire_integer_range [of "2 ^ 52 - 1" "(<)"]
  by (simp add: is_safe_def max_safe_def)

text \<open>A local commit name with leading zeros comes back as another string.\<close>

lemma leading_zeros_lost:
  "encodeWire (<) (MValue (JStr ''c007'')) = Inr [0x53, 0x41, 0x4c, 1, 0, 0, 10, 7]"
  "decodeWire [0x53, 0x41, 0x4c, 1, 0, 0, 10, 7] = Inr (MValue (JStr ''c7''))"
  by code_simp+

section \<open>Termination of the decoder\<close>

definition fuel_error :: js_error where
  "fuel_error = Error ''out of fuel''"

text \<open>A reader never reports that the fuel is gone and leaves at most the bytes it was given.\<close>

definition calm :: "nat \<Rightarrow> (nat list \<Rightarrow> ('a \<times> nat list) res) \<Rightarrow> bool" where
  "calm n rd \<longleftrightarrow> (\<forall>bs. length bs \<le> n \<longrightarrow> rd bs \<noteq> Inl fuel_error \<and> (\<forall>x bs'. rd bs = Inr (x, bs') \<longrightarrow> length bs' \<le> length bs))"

lemma calmI: "(\<And>bs. length bs \<le> n \<Longrightarrow> rd bs \<noteq> Inl fuel_error) \<Longrightarrow>
    (\<And>bs x bs'. length bs \<le> n \<Longrightarrow> rd bs = Inr (x, bs') \<Longrightarrow> length bs' \<le> length bs) \<Longrightarrow> calm n rd"
  by (auto simp: calm_def)

lemma calmD:
  "calm n rd \<Longrightarrow> length bs \<le> n \<Longrightarrow> rd bs \<noteq> Inl fuel_error"
  "calm n rd \<Longrightarrow> length bs \<le> n \<Longrightarrow> rd bs = Inr (x, bs') \<Longrightarrow> length bs' \<le> length bs"
  by (auto simp: calm_def)

lemma calm_bind:
  assumes "calm n rd" and "\<And>x. calm n (f x)"
  shows "calm n (\<lambda>bs. rbind (rd bs) (\<lambda>(x, bs). f x bs))"
proof (rule calmI)
  fix bs :: "nat list"
  assume "length bs \<le> n"
  note r = calmD [OF assms(1) this]
  show "rbind (rd bs) (\<lambda>(x, bs). f x bs) \<noteq> Inl fuel_error"
  proof (cases "rd bs")
    case (Inr p)
    then obtain x bs' where p: "rd bs = Inr (x, bs')" by (cases p) auto
    then show ?thesis using calmD(1) [OF assms(2)] r(2) \<open>length bs \<le> n\<close> by fastforce
  qed (use r(1) in auto)
  fix y bs''
  assume "rbind (rd bs) (\<lambda>(x, bs). f x bs) = Inr (y, bs'')"
  then obtain x bs' where "rd bs = Inr (x, bs')" "f x bs' = Inr (y, bs'')" by (auto simp: rbind_pair_Inr)
  then show "length bs'' \<le> length bs" using calmD(2) [OF assms(2)] r(2) \<open>length bs \<le> n\<close> by (meson le_trans)
qed

lemma calm_return [simp]: "calm n (\<lambda>bs. Inr (x, bs))"
  by (simp add: calm_def)

lemma calm_throw [simp]: "e \<noteq> fuel_error \<Longrightarrow> calm n (\<lambda>bs. Inl e)"
  by (simp add: calm_def)

lemma calm_byte: "calm n rd_byte"
proof (rule calmI)
  fix bs x bs'
  show "rd_byte bs \<noteq> Inl fuel_error" by (cases bs) (auto simp: fuel_error_def)
  show "rd_byte bs = Inr (x, bs') \<Longrightarrow> length bs' \<le> length bs" by (cases bs) auto
qed

lemma calm_uint: "calm n rd_uint"
proof -
  have "calm n (rd_uint_loop k m scale)" for k m scale
  proof (induction k arbitrary: m scale)
    case (Suc k)
    have "calm n (\<lambda>bs. let n' = m + b mod 128 * scale in
       if b div 128 mod 2 = 0
       then (if \<not> is_safe (int n') then Inl (Error ''wire: integer overflow'') else Inr (n', bs))
       else rd_uint_loop k n' (scale * 128) bs)" for b
      using Suc by (cases "b div 128 mod 2 = 0"; cases "is_safe (int (m + b mod 128 * scale))")
        (simp_all add: Let_def fuel_error_def)
    from calm_bind [OF calm_byte this] show ?case by simp
  qed (simp add: calm_def fuel_error_def)
  then show ?thesis by (simp add: rd_uint_def [abs_def])
qed

lemma calm_bytes: "calm n (rd_bytes m)"
  by (auto simp: calm_def rd_bytes_def fuel_error_def)

lemma rbind_error: "rbind r f = Inl e \<Longrightarrow> r = Inl e \<or> (\<exists>x. r = Inr x \<and> f x = Inl e)"
  by (cases r) auto

lemma utf8_decode_error: "utf8_decode bs \<noteq> Inl fuel_error"
proof (induction bs rule: utf8_decode.induct)
  case (2 b bs)
  show ?case
  proof (cases "b < 128")
    case True
    then show ?thesis using 2(1) by (auto dest!: rbind_error)
  next
    case False
    then show ?thesis using 2(2) by (cases bs) (auto simp: fuel_error_def dest!: rbind_error)
  qed
qed simp

lemma calm_text: "calm n rd_text"
proof -
  have "calm n (\<lambda>bs. rbind (utf8_decode x) (\<lambda>s. Inr (s, bs)))" for x
    using utf8_decode_error [of x] by (auto simp: calm_def rbind_def split: sum.splits)
  then show ?thesis unfolding rd_text_def [abs_def] by (intro calm_bind calm_uint calm_bytes)
qed

lemma calm_list: "calm n rd \<Longrightarrow> calm n (rd_list rd m)"
proof (induction m)
  case (Suc m)
  then have "calm n (\<lambda>bs. rbind (rd bs) (\<lambda>(x, bs). rbind (rd_list rd m bs) (\<lambda>(xs, bs). Inr (x # xs, bs))))"
    by (intro calm_bind calm_return)
  then show ?case by simp
qed (simp add: calm_def)

lemma calm_entry: "calm n rd \<Longrightarrow> calm n (rd_entry rd)"
proof -
  assume a: "calm n rd"
  have "calm n (\<lambda>bs. case k of JStr s \<Rightarrow> rbind (rd bs) (\<lambda>(v, bs). Inr ((s, v), bs))
      | _ \<Rightarrow> Inl (Error ''wire: non-string object key''))" for k
    by (cases k) (simp_all add: fuel_error_def calm_bind [OF a])
  then show ?thesis unfolding rd_entry_def [abs_def] by (intro calm_bind a)
qed


text \<open>One tag is read before the fuel goes down.\<close>

lemma calm_tag:
  assumes "\<And>t. calm n (f t)"
  shows "calm (Suc n) (\<lambda>bs. rbind (rd_byte bs) (\<lambda>(t, bs). f t bs))"
proof (rule calmI)
  fix bs bs' :: "nat list" and x
  assume len: "length bs \<le> Suc n"
  show "rbind (rd_byte bs) (\<lambda>(t, bs). f t bs) \<noteq> Inl fuel_error"
    using calmD(1) [OF assms] len by (cases bs) (auto simp: fuel_error_def)
  assume "rbind (rd_byte bs) (\<lambda>(t, bs). f t bs) = Inr (x, bs')"
  then show "length bs' \<le> length bs" using calmD(2) [OF assms, of _ _ x bs'] len by (cases bs) fastforce+
qed

lemma calm_if: "(P \<Longrightarrow> calm n f) \<Longrightarrow> (\<not> P \<Longrightarrow> calm n g) \<Longrightarrow> calm n (\<lambda>bs. if P then f bs else g bs)"
  by (cases P) auto

lemmas calm_intros = calm_bind calm_if calm_return calm_byte calm_uint calm_bytes calm_text calm_list calm_entry

lemma getValue_fuel: "n < k \<Longrightarrow> calm n (getValue k dict)"
proof (induction k arbitrary: n)
  case (Suc k)
  show ?case
  proof (cases n)
    case 0
    then show ?thesis by (auto simp: calm_def fuel_error_def)
  next
    case (Suc m)
    with Suc.IH [of m] Suc.prems have "calm m (getValue k dict)" by simp
    then show ?thesis unfolding Suc getValue.simps [abs_def]
      by (intro calm_tag calm_intros calm_throw) (auto simp: fuel_error_def)
  qed
qed simp

lemma calm_payload: "n < k \<Longrightarrow> calm n (getPayload k dict)"
  unfolding getPayload_def [abs_def]
  by (intro calm_intros calm_throw getValue_fuel) (auto simp: fuel_error_def)

lemma calm_body: "n < k \<Longrightarrow> calm n (getBody k dict)"
  unfolding getBody_def [abs_def]
  by (intro calm_intros calm_throw getValue_fuel calm_payload) (auto simp: fuel_error_def)

lemma calm_commits: "n < k \<Longrightarrow> calm n (getCommits k dict m previous)"
proof (induction m arbitrary: previous)
  case (Suc m)
  then have "calm n (rd_parent k dict previous)" for previous
    unfolding rd_parent_def [abs_def] by (intro calm_intros getValue_fuel)
  with Suc show ?case unfolding getCommits.simps [abs_def] by (intro calm_intros getValue_fuel calm_body) auto
qed (simp add: calm_def)

lemma calm_message: "n < k \<Longrightarrow> calm n (getMessage k dict mode)"
  unfolding getMessage_def [abs_def] getDelta_def [abs_def]
  by (intro calm_intros getValue_fuel calm_commits)

text \<open>C30: the decoder always ends. On every input, well formed or not, it returns a message or throws
  one of the errors of the source: the bound on the nesting depth, the number of bytes, is never met.\<close>

theorem decodeWire_total: "decodeWire bytes \<noteq> Inl (Error ''out of fuel'')"
proof
  assume a: "decodeWire bytes = Inl (Error ''out of fuel'')"
  have magic: "rd_magic xs bs \<noteq> Inl fuel_error \<and> (\<forall>bs'. rd_magic xs bs = Inr bs' \<longrightarrow> length bs' + length xs \<le> length bs)" for xs bs
  proof (induction xs arbitrary: bs)
    case (Cons x xs)
    show ?case
    proof (cases bs)
      case (Cons b bs')
      then show ?thesis using Cons.IH [of bs'] by (auto simp: fuel_error_def)
    qed (simp add: fuel_error_def)
  qed simp
  show False
  proof (cases "rd_magic MAGIC bytes")
    case (Inr bs)
    let ?n = "length bytes - 1"
    have len: "length bs \<le> ?n" "?n < length bytes" using magic [of MAGIC bytes] Inr by (auto simp: MAGIC_def)
    have c: "calm ?n (\<lambda>bs. rbind (rd_byte bs) (\<lambda>(mode, bs).
       if mode \<noteq> 0 \<and> mode \<noteq> 1 then Inl (Error ''wire: unknown message mode'')
       else rbind (rd_uint bs) (\<lambda>(n, bs).
         rbind (rd_list rd_text n bs) (\<lambda>(dict, bs).
         rbind (getMessage (length bytes) dict mode bs) (\<lambda>(v, bs). Inr ((v, bs), bs))))))"
      using len(2) by (intro calm_intros calm_message calm_throw) (auto simp: fuel_error_def calm_def)
    show ?thesis using calmD(1) [OF c len(1)] a Inr
      by (auto simp: decodeWire_def fuel_error_def rbind_def split: sum.splits if_splits)
  qed (use magic [of MAGIC bytes] a in \<open>auto simp: decodeWire_def fuel_error_def\<close>)
qed

end
