(* ===== verification/ContentId.thy ===== *)
theory ContentId
  imports ContentHash WireRoundtrip
begin

text \<open>
  What the content ids of \<^verbatim>\<open>runtime/src/hash.js\<close> guarantee: the digest is 64 lower-case hexadecimal
  digits, so that an id travels as raw bytes; the stable JSON text identifies a value up to the order
  of keys; and ids under a collision-free hash identify commits with their ancestry.
\<close>

section \<open>Shape of the digest\<close>

lemma sha_total_mult: "sha_total len mod 64 = 0" and sha_total_room: "len + 9 \<le> sha_total len"
  and sha_total_least: "sha_total len < len + 9 + 64"
proof -
  define q r where "q = (len + 1) div 64" and "r = (len + 1) mod 64"
  have len: "len + 1 = 64 * q + r" "r < 64" unfolding q_def r_def by simp_all
  have t: "sha_total len = 64 * q + r + (120 - r) mod 64 + 8"
    using len(1) by (simp add: sha_total_def Let_def r_def)
  show "sha_total len mod 64 = 0"
  proof (cases "r \<le> 56")
    case True
    then have "(120 - r) mod 64 = 56 - r" by (simp add: mod_if)
    with t True have "sha_total len = 64 * (q + 1)" by simp
    then show ?thesis by simp
  next
    case False
    then have "(120 - r) mod 64 = 120 - r" by simp
    with t False len(2) have "sha_total len = 64 * (q + 2)" by simp
    then show ?thesis by simp
  qed
  show "len + 9 \<le> sha_total len" by (simp add: sha_total_def Let_def)
  have "(56 + 64 - (len + 1) mod 64) mod 64 < 64" by simp
  then show "sha_total len < len + 9 + 64" by (simp add: sha_total_def Let_def)
qed

lemma sha_buf_blocks: "length (sha_buf msg) = sha_total (length msg)"
proof -
  have "length (uint32_bytes n) = 4" for n by (simp add: uint32_bytes_def)
  then show ?thesis using sha_total_room [of "length msg"] by (simp add: sha_buf_def Let_def)
qed

lemma hex_word_shape: "length (hex_word x) = 8 \<and> list_all is_hex (hex_word x)"
proof -
  have "b < 256 \<Longrightarrow> length (hex_byte b) = 2 \<and> list_all is_hex (hex_byte b)" for b
    by (simp add: hex_byte_def less_mult_imp_div_less)
  then have "list_all (\<lambda>s. length s = 2 \<and> list_all is_hex s) (map hex_byte (uint32_bytes (unat x)))"
    by (simp add: uint32_bytes_def)
  moreover have "list_all (\<lambda>s. length s = 2 \<and> list_all is_hex s) ss \<Longrightarrow>
      length (concat ss) = 2 * length ss \<and> list_all is_hex (concat ss)" for ss
    by (induction ss) auto
  ultimately show ?thesis unfolding hex_word_def by (simp add: uint32_bytes_def)
qed

lemma sha256hex_shape: "length (sha256hex s) = 64 \<and> list_all is_hex (sha256hex s)"
  using hex_word_shape by (simp add: sha256hex_def Let_def)

text \<open>An id travels as raw bytes. A default content id is 40 lower-case hexadecimal digits, so the wire
  codec recognises it, writes it, unless the dictionary has it, as a tag, a length and 20 raw bytes,
  and reads the same id back.\<close>

theorem content_id_on_wire:
  "length (contentId num v 40) = 40 \<and> HASH_HEX (contentId num v 40) \<and>
   (\<exists>raw. putString [] (contentId num v 40) = Inr (6 # 20 # raw) \<and> length raw = 20 \<and>
      getValue 1 [] (6 # 20 # raw) = Inr (JStr (contentId num v 40), []))"
proof -
  let ?i = "contentId num v 40"
  have i: "length ?i = 40" "list_all is_hex ?i"
    using sha256hex_shape [of "stableStringify num v"]
    by (auto simp: contentId_def list_all_iff dest: in_set_takeD)
  then have h: "HASH_HEX ?i" by (simp add: HASH_HEX_def)
  then have p: "putString [] ?i = Inr (6 # 20 # hex_pairs ?i)" by (simp add: putString_def i(1))
  have "wire_string [] ?i = ?i" using h by (simp add: wire_string_def)
  with putString_back [OF p, of 0 "[]"] have "getValue 1 [] (6 # 20 # hex_pairs ?i) = Inr (JStr ?i, [])"
    by simp
  moreover have "length (hex_pairs ?i) = 20" using hex_pairs_back [OF i(2)] i(1) by simp
  ultimately show ?thesis using i(1) h p by blast
qed

section \<open>The stable text depends on the value only\<close>

lemma sort_key_sorted: "sort_key f (sort_key f xs) = sort_key f xs"
  by (rule sort_key_id_if_sorted) simp

lemma stable_canon: "stableStringify num (canon v) = stableStringify num v"
proof (induction v)
  case (JArr xs)
  then show ?case by (simp add: comp_def cong: map_cong)
next
  case (JObj kvs)
  let ?t = "\<lambda>k v. quote k @ '':'' @ stableStringify num v" and ?c = "\<lambda>(k, v). (k, canon v)"
  have "map (\<lambda>(k, v). ?t k v) (sort_key fst (sort_key fst (map ?c kvs))) = map (\<lambda>(k, v). ?t k v) (map ?c (sort_key fst kvs))"
    by (simp add: sort_key_sorted) (simp add: sort_key_map comp_def split_def)
  also have "\<dots> = map (\<lambda>(k, v). ?t k v) (sort_key fst kvs)"
    using JObj by (auto simp: snds.simps)
  finally show ?case by (simp only: canon.simps stableStringify.simps map_snd_sorted)
qed auto

section \<open>The stable text determines the value\<close>

definition num_char :: "char \<Rightarrow> bool" where
  "num_char c \<longleftrightarrow> is_digit c \<or> c \<in> {CHR ''-'', CHR ''+'', CHR ''.'', CHR ''e''}"

text \<open>
  What \<^verbatim>\<open>JSON.stringify\<close> promises of the floats \<open>F\<close> a program uses (finite, not zero, no safe integer):
  a number text of its own for each.
\<close>

definition number_text :: "(nat list \<Rightarrow> string) \<Rightarrow> nat list set \<Rightarrow> bool" where
  "number_text num F \<longleftrightarrow> inj_on num F \<and>
     (\<forall>bs \<in> F. num bs \<noteq> [] \<and> list_all num_char (num bs) \<and> (\<forall>n. num bs \<noteq> int_text n))"

fun floats_in :: "nat list set \<Rightarrow> json \<Rightarrow> bool" where
  "floats_in F (JFloat bs) \<longleftrightarrow> bs \<in> F"
| "floats_in F (JArr xs) \<longleftrightarrow> (\<forall>x \<in> set xs. floats_in F x)"
| "floats_in F (JObj kvs) \<longleftrightarrow> (\<forall>(k, v) \<in> set kvs. floats_in F v)"
| "floats_in F v \<longleftrightarrow> True"

lemma int_text_chars: "int_text n \<noteq> []" "list_all num_char (int_text n)"
proof -
  have d: "list_all num_char (dec_text m)" for m
    using dec_text_digits(1) [of m] by (auto simp: list_all_iff num_char_def)
  then show "list_all num_char (int_text n)" by (simp add: int_text_def num_char_def)
  show "int_text n \<noteq> []" by (simp add: int_text_def dec_text_digits)
qed

lemma int_text_inject: "int_text m = int_text n \<longleftrightarrow> m = n"
proof -
  have "hd (dec_text k) \<noteq> CHR ''-''" for k
  proof -
    have "is_digit (hd (dec_text k))" using dec_text_digits [of k] by (cases "dec_text k") auto
    then show ?thesis by (auto simp: is_digit_def)
  qed
  then have "dec_text k \<noteq> CHR ''-'' # s" for k s by (metis list.sel(1))
  then show ?thesis by (auto simp: int_text_def dec_text_inject split: if_splits)
      (metis list.distinct)+
qed

definition ends :: "string \<Rightarrow> bool" where
  "ends r \<longleftrightarrow> r = [] \<or> hd r \<in> {CHR '','', CHR '']'', CHR ''}''}"

lemma number_split:
  assumes "list_all num_char s" "list_all num_char t" "ends r" "ends r'" "s @ r = t @ r'"
  shows "s = t \<and> r = r'"
proof -
  have "takeWhile num_char r = []" if "ends r" for r
    using that by (cases r) (auto simp: ends_def num_char_def is_digit_def)
  then have "takeWhile num_char (s @ r) = s" "takeWhile num_char (t @ r') = t"
    using assms(1-4) by (simp_all add: takeWhile_append list_all_iff)
  then show ?thesis using assms(5) by (metis same_append_eq)
qed

text \<open>A reader of one escaped character.\<close>

fun esc_read :: "string \<Rightarrow> char \<times> string" where
  "esc_read (c # d # s) =
     (if c \<noteq> CHR 0x5C then (c, d # s)
      else if d = CHR ''b'' then (char_of (8 :: nat), s)
      else if d = CHR ''t'' then (char_of (9 :: nat), s)
      else if d = CHR ''n'' then (char_of (10 :: nat), s)
      else if d = CHR ''f'' then (char_of (12 :: nat), s)
      else if d = CHR ''r'' then (char_of (13 :: nat), s)
      else if d = CHR ''u'' then (char_of (char_hex (s ! 2) * 16 + char_hex (s ! 3)), drop 4 s)
      else (d, s))"
| "esc_read s = (hd s, tl s)"

lemma esc_read_back: "esc_read (esc_char c @ s) = (c, s)"
proof -
  let ?n = "of_char c :: nat"
  have c: "char_of ?n = c" by simp
  consider "c = CHR 0x22 \<or> c = CHR 0x5C" | "c \<noteq> CHR 0x22" "c \<noteq> CHR 0x5C" "?n \<in> {8, 9, 10, 12, 13}"
    | "c \<noteq> CHR 0x22" "c \<noteq> CHR 0x5C" "?n \<notin> {8, 9, 10, 12, 13}" "?n < 32"
    | "c \<noteq> CHR 0x22" "c \<noteq> CHR 0x5C" "?n \<notin> {8, 9, 10, 12, 13}" "\<not> ?n < 32" by blast
  then show ?thesis
  proof cases
    case 1
    then show ?thesis by (auto simp: esc_char_def)
  next
    case 2
    then show ?thesis by (elim insertE emptyE) (simp_all add: esc_char_def Let_def char_of_eq_iff)
  next
    case 3
    then have "?n div 16 < 16" "?n mod 16 < 16" by simp_all
    with 3 show ?thesis using c by (simp add: esc_char_def Let_def hex_byte_def)
  next
    case 4
    then show ?thesis by (cases s) (auto simp: esc_char_def Let_def)
  qed
qed

lemma esc_char_hd: "hd (esc_char c @ s) \<noteq> CHR 0x22"
  by (simp add: esc_char_def Let_def)

lemma quote_split: "quote s @ r = quote t @ r' \<Longrightarrow> s = t \<and> r = r'"
proof -
  assume "quote s @ r = quote t @ r'"
  then have "concat (map esc_char s) @ CHR 0x22 # r = concat (map esc_char t) @ CHR 0x22 # r'"
    by (simp add: quote_def)
  then show ?thesis
  proof (induction s arbitrary: t)
    case Nil
    then show ?case using esc_char_hd by (cases t) (auto, metis list.sel(1))
  next
    case (Cons c s)
    then obtain d t' where t: "t = d # t'" using esc_char_hd by (cases t) (auto, metis list.sel(1))
    with Cons.prems have "esc_char c @ (concat (map esc_char s) @ CHR 0x22 # r) =
        esc_char d @ (concat (map esc_char t') @ CHR 0x22 # r')" by simp
    then have "c = d \<and> concat (map esc_char s) @ CHR 0x22 # r = concat (map esc_char t') @ CHR 0x22 # r'"
      using esc_read_back by (metis prod.inject)
    with Cons.IH t show ?case by blast
  qed
qed


text \<open>Joined texts of items that end at a comma or a closing bracket.\<close>

lemma join_split:
  assumes "join (map f xs) @ close # r = join (map f ys) @ close # r'" and "close \<in> {CHR '']'', CHR ''}''}"
    and "\<And>x y r r'. x \<in> set xs \<Longrightarrow> y \<in> set ys \<Longrightarrow> f x @ r = f y @ r' \<Longrightarrow> ends r \<Longrightarrow> ends r' \<Longrightarrow> R x y \<and> r = r'"
    and "\<And>x. x \<in> set xs \<union> set ys \<Longrightarrow> f x \<noteq> [] \<and> hd (f x) \<noteq> close"
  shows "list_all2 R xs ys \<and> r = r'"
  using assms
proof (induction xs arbitrary: ys)
  case Nil
  then show ?case
  proof (cases ys)
    case (Cons y ys')
    then have "f y \<noteq> []" "hd (f y) \<noteq> close" using Nil.prems(4) by auto
    moreover have "hd (join (map f ys) @ close # r') = hd (f y)" using Cons \<open>f y \<noteq> []\<close> by (cases ys') auto
    ultimately show ?thesis using Nil.prems(1) by (metis append_Nil join.simps(1) list.map(1) list.sel(1))
  qed simp
next
  case (Cons x xs)
  have x: "f x \<noteq> []" "hd (f x) \<noteq> close" using Cons.prems(4) by auto
  have tail: "join (map f (z # zs)) @ close # s = f z @ (if zs = [] then close # s else CHR '','' # join (map f zs) @ close # s)"
    for z zs s by (cases zs) auto
  show ?case
  proof (cases ys)
    case Nil
    have "hd (join (map f (x # xs)) @ close # r) = hd (f x)" using x(1) by (cases xs) auto
    then show ?thesis using Nil Cons.prems(1) x(2) by (metis append_Nil join.simps(1) list.map(1) list.sel(1))
  next
    case ys: (Cons y ys')
    let ?t = "\<lambda>zs s. if zs = [] then close # s else CHR '','' # join (map f zs) @ close # s"
    have "f x @ ?t xs r = f y @ ?t ys' r'" using Cons.prems(1) unfolding ys tail .
    moreover have "ends (?t zs s)" for zs s using Cons.prems(2) by (auto simp: ends_def)
    ultimately have xy: "R x y" "?t xs r = ?t ys' r'"
      using Cons.prems(3) [of x y "?t xs r" "?t ys' r'"] ys by auto
    have "close \<noteq> CHR '',''" using Cons.prems(2) by auto
    with xy(2) consider "xs = []" "ys' = []" "r = r'" | "join (map f xs) @ close # r = join (map f ys') @ close # r'" "xs \<noteq> []"
      by (auto split: if_splits)
    then show ?thesis
    proof cases
      case 2
      have "list_all2 R xs ys' \<and> r = r'"
        by (rule Cons.IH [OF 2(1) Cons.prems(2)]) (use Cons.prems(3,4) ys in auto)
      then show ?thesis using xy(1) ys by simp
    qed (use xy(1) ys in simp)
  qed
qed

text \<open>The first character tells the kind of value.\<close>

fun kind_of :: "json \<Rightarrow> nat" where
  "kind_of JNull = 0"
| "kind_of (JBool b) = (if b then 1 else 2)"
| "kind_of (JInt n) = 3"
| "kind_of (JFloat bs) = 3"
| "kind_of (JStr s) = 4"
| "kind_of (JArr xs) = 5"
| "kind_of (JObj kvs) = 6"

definition char_kind :: "char \<Rightarrow> nat" where
  "char_kind c = (if c = CHR ''n'' then 0 else if c = CHR ''t'' then 1 else if c = CHR ''f'' then 2
     else if num_char c then 3 else if c = CHR 0x22 then 4 else if c = CHR ''['' then 5
     else if c = CHR ''{'' then 6 else 7)"

lemma num_text_kind: "list_all num_char s \<Longrightarrow> s \<noteq> [] \<Longrightarrow> char_kind (hd s) = 3"
  by (cases s) (auto simp: char_kind_def num_char_def is_digit_def)

lemma stable_kind:
  assumes "number_text num F" and "floats_in F v"
  shows "stableStringify num v \<noteq> [] \<and> char_kind (hd (stableStringify num v)) = kind_of v"
proof (cases v)
  case (JInt n)
  then show ?thesis using int_text_chars [of n] num_text_kind [of "int_text n"] by simp
next
  case (JFloat bs)
  then show ?thesis using assms num_text_kind [of "num bs"] by (simp add: number_text_def)
qed (auto simp: char_kind_def num_char_def is_digit_def quote_def)

lemma kind_bound: "kind_of v \<le> 6"
  by (cases v) auto

lemma stable_split:
  "number_text num F \<Longrightarrow> floats_in F v \<Longrightarrow> floats_in F w \<Longrightarrow> ends r \<Longrightarrow> ends r' \<Longrightarrow>
   stableStringify num v @ r = stableStringify num w @ r' \<Longrightarrow> canon v = canon w \<and> r = r'"
proof (induction v arbitrary: w r r')
  case (JInt n)
  note k = stable_kind [OF JInt.prems(1,2)] stable_kind [OF JInt.prems(1,3)]
  have "kind_of w = 3" using k JInt.prems(6) by (metis hd_append2 kind_of.simps(3))
  then show ?case
  proof (cases w)
    case w: (JInt m)
    show ?thesis using number_split [of "int_text n" "int_text m" r r'] JInt.prems int_text_chars
      by (simp add: w int_text_inject)
  next
    case w: (JFloat bs)
    then have "list_all num_char (num bs)" "num bs \<noteq> int_text n"
      using JInt.prems(1,3) by (auto simp: number_text_def)
    then show ?thesis using number_split [of "int_text n" "num bs" r r'] JInt.prems int_text_chars by (simp add: w)
  qed (auto split: if_splits)
next
  case (JFloat bs)
  note k = stable_kind [OF JFloat.prems(1,2)] stable_kind [OF JFloat.prems(1,3)]
  have "kind_of w = 3" using k JFloat.prems(6) by (metis hd_append2 kind_of.simps(4))
  have bs: "list_all num_char (num bs)" "num bs \<noteq> int_text m" for m
    using JFloat.prems(1,2) by (auto simp: number_text_def)
  from \<open>kind_of w = 3\<close> show ?case
  proof (cases w)
    case w: (JInt m)
    then show ?thesis using number_split [of "num bs" "int_text m" r r'] JFloat.prems int_text_chars bs by simp
  next
    case w: (JFloat bs')
    then have "list_all num_char (num bs')" "num bs = num bs' \<Longrightarrow> bs = bs'"
      using JFloat.prems(1-3) by (auto simp: number_text_def dest: inj_onD)
    then show ?thesis using number_split [of "num bs" "num bs'" r r'] JFloat.prems bs by (simp add: w)
  qed (auto split: if_splits)
next
  case JNull
  note k = stable_kind [OF JNull.prems(1,2)] stable_kind [OF JNull.prems(1,3)]
  have "kind_of w = 0" using k JNull.prems(6) by (metis hd_append2 kind_of.simps(1))
  then show ?case using JNull.prems(6) by (cases w) (auto split: if_splits)
next
  case (JBool b)
  note k = stable_kind [OF JBool.prems(1,2)] stable_kind [OF JBool.prems(1,3)]
  have "kind_of w = kind_of (JBool b)" using k JBool.prems(6) by (metis hd_append2)
  then show ?case using JBool.prems(6) by (cases w) (auto split: if_splits)
next
  case (JStr s)
  note k = stable_kind [OF JStr.prems(1,2)] stable_kind [OF JStr.prems(1,3)]
  have "kind_of w = 4" using k JStr.prems(6) by (metis hd_append2 kind_of.simps(5))
  then obtain t where "w = JStr t" by (cases w) (auto split: if_splits)
  then show ?case using JStr.prems(6) quote_split [of s r t r'] by simp
next
  case (JArr xs)
  note k = stable_kind [OF JArr.prems(1,2)] stable_kind [OF JArr.prems(1,3)]
  have "kind_of w = 5" using k JArr.prems(6) by (metis hd_append2 kind_of.simps(6))
  then obtain ys where w: "w = JArr ys" by (cases w) (auto split: if_splits)
  have "list_all2 (\<lambda>x y. canon x = canon y) xs ys \<and> r = r'"
  proof (rule join_split [where close = "CHR '']''"])
    show "join (map (stableStringify num) xs) @ CHR '']'' # r = join (map (stableStringify num) ys) @ CHR '']'' # r'"
      using JArr.prems(6) by (simp add: w)
    show "canon x = canon y \<and> q = q'" if "x \<in> set xs" "y \<in> set ys"
        "stableStringify num x @ q = stableStringify num y @ q'" "ends q" "ends q'" for x y q q'
      using JArr.IH [OF that(1) JArr.prems(1) _ _ that(4,5,3)] JArr.prems(2,3) that(1,2) by (simp add: w)
    fix x
    assume "x \<in> set xs \<union> set ys"
    then have "floats_in F x" using JArr.prems(2,3) by (auto simp: w)
    from stable_kind [OF JArr.prems(1) this] kind_bound [of x]
    show "stableStringify num x \<noteq> [] \<and> hd (stableStringify num x) \<noteq> CHR '']''"
      by (auto simp: char_kind_def num_char_def is_digit_def)
  qed simp
  moreover from this have "map canon xs = map canon ys" by (metis (full_types) list.rel_map list_all2_mono list.rel_eq)
  ultimately show ?case by (simp add: w)
next
  case (JObj kvs)
  note k = stable_kind [OF JObj.prems(1,2)] stable_kind [OF JObj.prems(1,3)]
  have "kind_of w = 6" using k JObj.prems(6) by (metis hd_append2 kind_of.simps(7))
  then obtain kvs' where w: "w = JObj kvs'" by (cases w) (auto split: if_splits)
  let ?f = "\<lambda>(k, v). quote k @ '':'' @ stableStringify num v" and ?R = "\<lambda>(k, v) (k', w). k = k' \<and> canon v = canon w"
  have l: "list_all2 ?R (sort_key fst kvs) (sort_key fst kvs') \<and> r = r'"
  proof (rule join_split [where f = ?f and close = "CHR ''}''"])
    show "join (map ?f (sort_key fst kvs)) @ CHR ''}'' # r = join (map ?f (sort_key fst kvs')) @ CHR ''}'' # r'"
      using JObj.prems(6) by (simp add: w map_snd_sorted)
    fix e e' q q'
    assume a: "e \<in> set (sort_key fst kvs)" "e' \<in> set (sort_key fst kvs')" "?f e @ q = ?f e' @ q'" "ends q" "ends q'"
    obtain k v k' v' where e: "e = (k, v)" "e' = (k', v')" by force
    from a(3) have "k = k' \<and> '':'' @ stableStringify num v @ q = '':'' @ stableStringify num v' @ q'"
      unfolding e by (intro quote_split) simp
    moreover have mem: "(k, v) \<in> set kvs" "(k', v') \<in> set kvs'" using a(1,2) e by auto
    then have "floats_in F v" "floats_in F v'" using JObj.prems(2,3) by (auto simp: w)
    ultimately show "?R e e' \<and> q = q'"
      using JObj.IH [OF mem(1) _ JObj.prems(1), of v v' q q'] a(4,5) by (simp add: e snds.simps)
  qed (auto simp: quote_def)
  have m: "map (\<lambda>(k, v). (k, canon v)) as = map (\<lambda>(k, v). (k, canon v)) bs" if "list_all2 ?R as bs" for as bs
    using that by (induction rule: list_all2_induct) auto
  have n: "sort_key fst (map (\<lambda>(k, v). (k, canon v)) as) = map (\<lambda>(k, v). (k, canon v)) (sort_key fst as)" for as
    by (simp add: sort_key_map comp_def split_def)
  have "canon (JObj kvs) = canon (JObj kvs')" using m [OF conjunct1 [OF l]] by (simp add: n)
  then show ?case using l w by blast
qed

text \<open>C32: the stable text identifies a value. Two values with the same text differ at most in the order
  of object keys, and values that differ only so have the same text, provided \<^verbatim>\<open>JSON.stringify\<close> gives
  each non-integral number in them a number text of its own.\<close>

theorem stable_text_identifies:
  assumes "number_text num F" and "floats_in F v" and "floats_in F w"
  shows "stableStringify num v = stableStringify num w \<longleftrightarrow> json_eq v w"
proof
  assume "stableStringify num v = stableStringify num w"
  then show "json_eq v w" using stable_split [OF assms, of "[]" "[]"] by (simp add: ends_def json_eq_def)
next
  assume "json_eq v w"
  then show "stableStringify num v = stableStringify num w"
    by (metis json_eq_def stable_canon)
qed

lemma stable_text_identifies_witness:
  "number_text (\<lambda>_. ''0.5'') {[0, 0, 0, 0, 0, 0, 224, 63]} \<and>
   (stableStringify (\<lambda>_. ''0.5'') (JArr [JFloat [0, 0, 0, 0, 0, 0, 224, 63], JInt 5])
      = stableStringify (\<lambda>_. ''0.5'') (JArr [JInt 5])
    \<longleftrightarrow> json_eq (JArr [JFloat [0, 0, 0, 0, 0, 0, 224, 63], JInt 5]) (JArr [JInt 5]))"
proof -
  have "''0.5'' \<noteq> int_text n" for n
  proof
    assume a: "''0.5'' = int_text n"
    have "list_all is_digit (tl (int_text n))"
      using dec_text_digits [of "nat n"] dec_text_digits [of "nat (- n)"]
      by (cases "dec_text (nat n)") (auto simp: int_text_def)
    then show False unfolding a [symmetric] by (simp add: is_digit_def)
  qed
  then have n: "number_text (\<lambda>_. ''0.5'') {[0, 0, 0, 0, 0, 0, 224, 63]}"
    by (simp add: number_text_def num_char_def is_digit_def)
  show ?thesis using stable_text_identifies [OF n, of "JArr [JFloat [0, 0, 0, 0, 0, 0, 224, 63], JInt 5]" "JArr [JInt 5]"] n
    by simp
qed

section \<open>Content ids identify commits\<close>

text \<open>When two commits, given by parent count, operation, state and parent ids, are the same commit.\<close>

definition same_commit ::
  "('s \<Rightarrow> json) option \<Rightarrow> nat \<times> json op_rec option \<times> 's \<times> string list \<Rightarrow> nat \<times> json op_rec option \<times> 's \<times> string list \<Rightarrow> bool"
where
  "same_commit fingerprint x y \<longleftrightarrow> (case (x, y) of ((n, o1, s, ps), (n', o2, s', ps')) \<Rightarrow>
     if n = 0 \<or> n' = 0 then n = n'
     else case (o1, o2) of
       (Some a, Some b) \<Rightarrow> ps = ps' \<and> op_replica a = op_replica b \<and> op_seq a = op_seq b \<and>
         json_eq (op_payload a) (op_payload b)
     | (None, None) \<Rightarrow>
         if n = 1 \<or> n' = 1
         then n = n' \<and> ps = ps' \<and> json_eq ((the fingerprint) s) ((the fingerprint) s')
         else sort ps = sort ps'
     | _ \<Rightarrow> False)"

definition floats_in_commit :: "nat list set \<Rightarrow> ('s \<Rightarrow> json) option \<Rightarrow> json op_rec option \<Rightarrow> 's \<Rightarrow> bool" where
  "floats_in_commit F fingerprint o1 s \<longleftrightarrow>
     (\<forall>a. o1 = Some a \<longrightarrow> floats_in F (op_payload a)) \<and> (\<forall>fp. fingerprint = Some fp \<longrightarrow> floats_in F (fp s))"

definition collision_free :: "(json \<Rightarrow> string) \<Rightarrow> nat list set \<Rightarrow> bool" where
  "collision_free hash F \<longleftrightarrow> (\<forall>v w. floats_in F v \<longrightarrow> floats_in F w \<longrightarrow> (hash v = hash w \<longleftrightarrow> json_eq v w))"

text \<open>The object a commit's id is the hash of.\<close>

fun commit_preimage :: "('s \<Rightarrow> json) option \<Rightarrow> nat \<Rightarrow> json op_rec option \<Rightarrow> 's \<Rightarrow> string list \<Rightarrow> json" where
  "commit_preimage fingerprint 0 o1 s ps = JObj [(''root'', JBool True)]"
| "commit_preimage fingerprint (Suc n) (Some a) s ps = JObj [(''p'', JArr (map JStr ps)),
     (''replica'', JStr (op_replica a)), (''seq'', JInt (int (op_seq a))), (''payload'', op_payload a)]"
| "commit_preimage fingerprint (Suc 0) None s ps =
     JObj [(''compact'', JBool True), (''p'', JArr (map JStr ps)), (''fp'', (the fingerprint) s)]"
| "commit_preimage fingerprint (Suc (Suc n)) None s ps = JObj [(''p'', JArr (map JStr (sort ps)))]"

lemma commitContentId_preimage:
  assumes "commitContentId hash fingerprint n o1 s ps = Inr g"
  shows "g = hash (commit_preimage fingerprint n o1 s ps)"
    and "n = 1 \<and> o1 = None \<Longrightarrow> fingerprint \<noteq> None"
proof -
  show "g = hash (commit_preimage fingerprint n o1 s ps)" using assms
    by (cases "(fingerprint, n, o1, s, ps)" rule: commit_preimage.cases)
       (auto simp: commitContentId_def split: option.splits)
  show "n = 1 \<and> o1 = None \<Longrightarrow> fingerprint \<noteq> None" using assms
    by (auto simp: commitContentId_def split: option.splits)
qed

lemma map_JStr [simp]: "map canon (map JStr ps) = map JStr ps" "map JStr ps = map JStr qs \<longleftrightarrow> ps = qs"
  by (auto simp: inj_map_eq_map inj_def)

lemma canon_preimage:
  "canon (commit_preimage fp 0 o1 s ps) = JObj [(''root'', JBool True)]"
  "canon (commit_preimage fp (Suc n) (Some a) s ps) = JObj [(''p'', JArr (map JStr ps)), (''payload'', canon (op_payload a)),
     (''replica'', JStr (op_replica a)), (''seq'', JInt (int (op_seq a)))]"
  "canon (commit_preimage fp (Suc 0) None s ps) =
     JObj [(''compact'', JBool True), (''fp'', canon ((the fp) s)), (''p'', JArr (map JStr ps))]"
  "canon (commit_preimage fp (Suc (Suc n)) None s ps) = JObj [(''p'', JArr (map JStr (sort ps)))]"
  by (simp_all add: less_eq_char_def del: map_map)

lemma preimage_same:
  "json_eq (commit_preimage fp n o1 s ps) (commit_preimage fp n' o2 s' ps') \<longleftrightarrow>
   same_commit fp (n, o1, s, ps) (n', o2, s', ps')"
  unfolding json_eq_def
  by (cases "(fp, n, o1, s, ps)" rule: commit_preimage.cases;
      cases "(fp, n', o2, s', ps')" rule: commit_preimage.cases)
     (simp_all only: canon_preimage prod.inject, auto simp: same_commit_def json_eq_def)

lemma preimage_floats: "floats_in_commit F fp o1 s \<Longrightarrow> (n = 1 \<and> o1 = None \<longrightarrow> fp \<noteq> None) \<Longrightarrow>
   floats_in F (commit_preimage fp n o1 s ps)"
  by (cases "(fp, n, o1, s, ps)" rule: commit_preimage.cases) (auto simp: floats_in_commit_def)

text \<open>C33: a content id names one commit. Under a hash without collisions, two commits get the same id
  exactly when they are the same commit: the root, or the same operation of the same replica on the same
  parents, or a compaction of the same parent with the same fingerprint, or merges of the same parents in
  either order; the four kinds are never confused.\<close>

theorem content_id_identifies:
  assumes "collision_free hash F"
    and "commitContentId hash fp n o1 s ps = Inr g" and "floats_in_commit F fp o1 s"
    and "commitContentId hash fp n' o2 s' ps' = Inr g'" and "floats_in_commit F fp o2 s'"
  shows "g = g' \<longleftrightarrow> same_commit fp (n, o1, s, ps) (n', o2, s', ps')"
proof -
  note a = commitContentId_preimage [OF assms(2)] and b = commitContentId_preimage [OF assms(4)]
  have "floats_in F (commit_preimage fp n o1 s ps)" using preimage_floats [OF assms(3)] a(2) by blast
  moreover have "floats_in F (commit_preimage fp n' o2 s' ps')" using preimage_floats [OF assms(5)] b(2) by blast
  ultimately show ?thesis using assms(1) unfolding a(1) b(1) preimage_same [symmetric] collision_free_def by blast
qed

lemma content_id_identifies_witness:
  "\<exists>g. commitContentId (stableStringify (\<lambda>_. [])) None 2 None () [''a'', ''b''] = Inr g \<and>
     commitContentId (stableStringify (\<lambda>_. [])) None 2 None () [''b'', ''a''] = Inr g"
proof -
  let ?h = "stableStringify (\<lambda>_. [])"
  have n: "number_text (\<lambda>_. []) {}" by (simp add: number_text_def)
  have c: "collision_free ?h {}" using stable_text_identifies [OF n] by (simp add: collision_free_def)
  obtain g g' where g: "commitContentId ?h None 2 None () [''a'', ''b''] = Inr g"
    "commitContentId ?h None 2 None () [''b'', ''a''] = Inr g'" by (simp add: commitContentId_def)
  have "g = g' \<longleftrightarrow> same_commit None (2, None, (), [''a'', ''b'']) (2, None, (), [''b'', ''a''])"
    by (rule content_id_identifies [OF c g(1) _ g(2)]) (simp_all add: floats_in_commit_def)
  then show ?thesis using g by (simp add: same_commit_def less_eq_char_def)
qed

end
