(* ===== verification/Compact.thy ===== *)
theory Compact
  imports EmbedRGA
begin

text \<open>
  The compaction of the embedded sequence (\<^verbatim>\<open>runtime/src/compact.js\<close>): decode the coordinates into
  the tree of delta chains, find which nodes are settled, give every settled sibling group without a
  known in-flight member the ordinals 1, 2, ... as deltas, optionally fuse dead spines, and write the
  records back. A node carries its flags and its children by delta, in the order of their creation;
  where the source follows references and mutates nodes, the model rebuilds the path. A coordinate is
  its list of bits, read from the front.
\<close>

section \<open>Decoding\<close>

fun read_bits :: "nat \<Rightarrow> nat \<Rightarrow> nat list \<Rightarrow> (nat \<times> nat list) res" where
  "read_bits 0 v bs = Inr (v, bs)"
| "read_bits (Suc k) v [] = Inl (Error ''truncated eliasDelta codeword'')"
| "read_bits (Suc k) v (b # bs) = read_bits k (2 * v + (if b = 1 then 1 else 0)) bs"

definition decodeOne :: "nat list \<Rightarrow> (nat \<times> nat list) res" where
  "decodeOne coord = (let c = length (takeWhile (\<lambda>b. b = 1) coord) in
     case dropWhile (\<lambda>b. b = 1) coord of
       [] \<Rightarrow> Inl (Error ''bad eliasDelta codeword'')
     | b # bs \<Rightarrow>
         if b \<noteq> 0 then Inl (Error ''bad eliasDelta codeword'')
         else rbind (read_bits c 1 bs) (\<lambda>(L, bs). read_bits (L - 1) 1 bs))"

lemma read_bits_length: "read_bits k v bs = Inr (x, rest) \<Longrightarrow> length rest \<le> length bs"
  by (induction k v bs rule: read_bits.induct) auto

lemma decodeOne_length: "decodeOne coord = Inr (d, rest) \<Longrightarrow> length rest < length coord"
proof -
  assume a: "decodeOne coord = Inr (d, rest)"
  then obtain b bs L bs' where b: "dropWhile (\<lambda>b. b = 1) coord = b # bs"
    "read_bits (length (takeWhile (\<lambda>b. b = 1) coord)) 1 bs = Inr (L, bs')" "read_bits (L - 1) 1 bs' = Inr (d, rest)"
    by (auto simp: decodeOne_def Let_def rbind_pair_Inr split: list.splits if_splits)
  have "length (b # bs) \<le> length coord" unfolding b(1) [symmetric] by (rule length_dropWhile_le)
  then show ?thesis using read_bits_length [OF b(2)] read_bits_length [OF b(3)] by simp
qed

function decodeChain :: "nat list \<Rightarrow> nat list res" where
  "decodeChain coord = (if coord = [] then Inr []
     else rbind (decodeOne coord) (\<lambda>p. rbind (decodeChain (snd p)) (\<lambda>ds. Inr (fst p # ds))))"
  by auto
termination
  by (relation "measure length") (auto dest: decodeOne_length)

declare decodeChain.simps [simp del]

section \<open>The coordinate tree\<close>

record cinfo =
  n_id :: int
  n_recordId :: "int option"
  n_inflightChild :: bool
  n_inflightHere :: bool
  n_seedSettled :: bool
  n_evidence :: bool
  n_stable :: bool
  n_newCoord :: "nat list"

datatype cnode = CNode cinfo "(nat \<times> cnode) list"

fun info :: "cnode \<Rightarrow> cinfo" where
  "info (CNode i ks) = i"

fun children :: "cnode \<Rightarrow> (nat \<times> cnode) list" where
  "children (CNode i ks) = ks"

definition mkNode :: "int \<Rightarrow> cnode" where
  "mkNode i = CNode \<lparr>n_id = i, n_recordId = None, n_inflightChild = False, n_inflightHere = False,
     n_seedSettled = False, n_evidence = False, n_stable = False, n_newCoord = []\<rparr> []"

definition childOf :: "cinfo \<Rightarrow> (nat \<times> cnode) list \<Rightarrow> nat \<Rightarrow> cnode" where
  "childOf i ks d = (case map_of ks d of Some ch \<Rightarrow> ch | None \<Rightarrow> mkNode (n_id i + int d))"

text \<open>Walk along a chain, creating nodes; \<open>step\<close> is done to each node entered, \<open>fin\<close> to the last.\<close>

fun walk :: "(cinfo \<Rightarrow> cinfo) \<Rightarrow> (cinfo \<Rightarrow> cinfo) \<Rightarrow> nat list \<Rightarrow> cnode \<Rightarrow> cnode" where
  "walk step fin [] (CNode i ks) = CNode (fin i) ks"
| "walk step fin (d # ds) (CNode i ks) = CNode i (AList.update d
     (walk step fin ds (case childOf i ks d of CNode j ks' \<Rightarrow> CNode (step j) ks')) ks)"

definition add_record :: "int \<times> 'e erec \<Rightarrow> cnode \<Rightarrow> cnode res" where
  "add_record x root = rbind (decodeChain (er_coord (snd x))) (\<lambda>ds.
     Inr (walk (\<lambda>i. i) (\<lambda>i. i\<lparr>n_recordId := Some (fst x)\<rparr>) ds root))"

text \<open>
  The settled prefix of a coordinate, by telescoped ids, and whether an unsettled codeword ended it.
\<close>

function settled_prefix :: "int list \<Rightarrow> int \<Rightarrow> nat list \<Rightarrow> (nat list \<times> bool) res" where
  "settled_prefix settled i coord = (if coord = [] then Inr ([], False)
     else rbind (decodeOne coord) (\<lambda>p.
       if i + int (fst p) \<notin> set settled then Inr ([], True)
       else rbind (settled_prefix settled (i + int (fst p)) (snd p)) (\<lambda>q. Inr (fst p # fst q, snd q))))"
  by auto
termination
  by (relation "measure (\<lambda>(_, _, coord). length coord)") (auto dest: decodeOne_length)

declare settled_prefix.simps [simp del]

definition seed_inflight :: "int list \<Rightarrow> nat list \<Rightarrow> cnode \<Rightarrow> cnode res" where
  "seed_inflight settled c root = rbind (settled_prefix settled 0 c) (\<lambda>(ds, broke).
     Inr (walk (\<lambda>i. i\<lparr>n_seedSettled := True\<rparr>)
       (\<lambda>i. if broke then i\<lparr>n_inflightChild := True\<rparr>
            else if ds \<noteq> [] then i\<lparr>n_inflightHere := True\<rparr> else i) ds root))"

definition seed_frozen :: "nat list \<Rightarrow> cnode \<Rightarrow> cnode res" where
  "seed_frozen c root = rbind (decodeChain c) (\<lambda>ds.
     Inr (walk (\<lambda>i. i\<lparr>n_seedSettled := True\<rparr>) (\<lambda>i. i\<lparr>n_inflightChild := True\<rparr>) ds root))"

text \<open>Settled evidence, from the leaves up.\<close>

fun evidence :: "int list \<Rightarrow> cnode \<Rightarrow> cnode" where
  "evidence settled (CNode i ks) = (let ks' = map (\<lambda>(d, ch). (d, evidence settled ch)) ks in
     CNode (i\<lparr>n_evidence := n_seedSettled i
         \<or> (case n_recordId i of Some r \<Rightarrow> r \<in> set settled | None \<Rightarrow> False)
         \<or> list_ex (\<lambda>(d, ch). n_evidence (info ch)) ks'\<rparr>) ks')"

section \<open>Renumbering and fusion\<close>

record opts =
  op_unguarded :: bool
  op_fuse :: bool

text \<open>The position of a delta among its siblings, in ascending order.\<close>

fun index_in :: "nat list \<Rightarrow> nat \<Rightarrow> nat" where
  "index_in [] d = 0"
| "index_in (x # xs) d = (if x = d then 0 else Suc (index_in xs d))"

definition all_stable :: "cinfo \<Rightarrow> (nat \<times> cnode) list \<Rightarrow> bool" where
  "all_stable i ks \<longleftrightarrow> list_all (\<lambda>(d, ch). n_stable i \<and> n_evidence (info ch)) ks"

definition renumber :: "opts \<Rightarrow> cinfo \<Rightarrow> (nat \<times> cnode) list \<Rightarrow> bool" where
  "renumber opts i ks \<longleftrightarrow> all_stable i ks \<and> (\<not> n_inflightChild i \<or> op_unguarded opts)"

definition new_delta :: "opts \<Rightarrow> cinfo \<Rightarrow> (nat \<times> cnode) list \<Rightarrow> nat \<Rightarrow> nat" where
  "new_delta opts i ks d = (if renumber opts i ks then index_in (sort (map fst ks)) d + 1 else d)"

text \<open>
  A spine: a dead stable node with one child and no known in-flight operation, followed by another one.
\<close>

definition spineMember :: "cinfo \<Rightarrow> (nat \<times> cnode) list \<Rightarrow> bool" where
  "spineMember i ks \<longleftrightarrow> n_recordId i = None \<and> n_stable i \<and> length ks = 1"

definition inflightFree :: "cinfo \<Rightarrow> bool" where
  "inflightFree i \<longleftrightarrow> \<not> n_inflightChild i \<and> \<not> n_inflightHere i"

fun set_stable :: "bool \<Rightarrow> cnode \<Rightarrow> cinfo" where
  "set_stable st (CNode i ks) = i\<lparr>n_stable := st \<and> n_evidence i\<rparr>"

definition spine_step :: "opts \<Rightarrow> cinfo \<Rightarrow> (nat \<times> cnode) list \<Rightarrow> bool" where
  "spine_step opts i ks \<longleftrightarrow> op_fuse opts \<and> spineMember i ks \<and> inflightFree i \<and>
     list_all (\<lambda>(d, ch). spineMember (set_stable (n_stable i) ch) (children ch) \<and> inflightFree (info ch)) ks"

text \<open>
  Give a node its stability and its coordinate and go on below it: inside a spine the child takes the
  same coordinate, otherwise each child takes the coordinate extended by its new delta.
\<close>

fun place :: "opts \<Rightarrow> bool \<Rightarrow> nat list \<Rightarrow> cnode \<Rightarrow> cnode" where
  "place opts st c (CNode i ks) = (let i' = i\<lparr>n_stable := st \<and> n_evidence i, n_newCoord := c\<rparr> in
     CNode i' (if spine_step opts i' ks
       then map (\<lambda>(d, ch). (d, place opts (n_stable i') c ch)) ks
       else map (\<lambda>(d, ch). (d, place opts (n_stable i') (c @ dEnc (new_delta opts i' ks d)) ch)) ks))"

text \<open>The root is stable, has the empty coordinate and is never part of a spine.\<close>

definition place_root :: "opts \<Rightarrow> cnode \<Rightarrow> cnode" where
  "place_root opts root = (let i = (info root)\<lparr>n_stable := True\<rparr> in
     CNode i (map (\<lambda>(d, ch). (d, place opts True (n_newCoord i @ dEnc (new_delta opts i (children root) d)) ch))
       (children root)))"

text \<open>The counters of groups and spines.\<close>

record stats =
  st_symbolsBefore :: nat
  st_symbolsAfter :: nat
  st_groupsRenumbered :: nat
  st_groupsSkippedInflight :: nat
  st_groupsSkippedUnstable :: nat
  st_spinesFused :: nat
  st_levelsRemoved :: nat
  st_spinesSkippedInflight :: nat

definition count_group :: "opts \<Rightarrow> cinfo \<Rightarrow> (nat \<times> cnode) list \<Rightarrow> stats \<Rightarrow> stats" where
  "count_group opts i ks s =
     (if ks = [] then
        (if n_inflightChild i then s\<lparr>st_groupsSkippedInflight := st_groupsSkippedInflight s + 1\<rparr> else s)
      else if renumber opts i ks then s\<lparr>st_groupsRenumbered := st_groupsRenumbered s + 1\<rparr>
      else if all_stable i ks then s\<lparr>st_groupsSkippedInflight := st_groupsSkippedInflight s + 1\<rparr>
      else s\<lparr>st_groupsSkippedUnstable := st_groupsSkippedUnstable s + 1\<rparr>)"

text \<open>\<open>inside\<close>: the node was reached as a spine member rather than as the head of a possible spine.\<close>

fun tally :: "opts \<Rightarrow> bool \<Rightarrow> cnode \<Rightarrow> stats \<Rightarrow> stats" where
  "tally opts inside (CNode i ks) s =
     (if spine_step opts i ks
      then fold (\<lambda>(d, ch). tally opts True ch) ks (s\<lparr>st_spinesFused := st_spinesFused s + (if inside then 0 else 1),
        st_levelsRemoved := st_levelsRemoved s + 1\<rparr>)
      else fold (\<lambda>(d, ch). tally opts False ch) ks (count_group opts i ks
        (if op_fuse opts \<and> \<not> inside \<and> spineMember i ks \<and> \<not> inflightFree i
         then s\<lparr>st_spinesSkippedInflight := st_spinesSkippedInflight s + 1\<rparr> else s)))"

definition tally_root :: "opts \<Rightarrow> cnode \<Rightarrow> stats \<Rightarrow> stats" where
  "tally_root opts root s = fold (\<lambda>(d, ch). tally opts False ch) (children root)
     (count_group opts (info root) (children root) s)"

section \<open>Compaction\<close>

fun node_at :: "cnode \<Rightarrow> nat list \<Rightarrow> cnode option" where
  "node_at t [] = Some t"
| "node_at (CNode i ks) (d # ds) = (case map_of ks d of None \<Rightarrow> None | Some ch \<Rightarrow> node_at ch ds)"

text \<open>The lazy translation: the longest mapped prefix is replaced, the rest kept.\<close>

function translate :: "cnode \<Rightarrow> nat list \<Rightarrow> nat list res" where
  "translate node coord = (if coord = [] then Inr (n_newCoord (info node))
     else rbind (decodeOne coord) (\<lambda>p. case map_of (children node) (fst p) of
         None \<Rightarrow> Inr (n_newCoord (info node) @ coord)
       | Some ch \<Rightarrow> translate ch (snd p)))"
  by auto
termination
  by (relation "measure (\<lambda>(_, coord). length coord)") (auto dest: decodeOne_length)

declare translate.simps [simp del]

record ccut =
  cc_settledIds :: "int list"
  cc_inflight :: "nat list list"
  cc_frozenAnchorCoords :: "nat list list"

definition coord_tree :: "'e emb \<Rightarrow> ccut \<Rightarrow> cnode res" where
  "coord_tree state ct =
     rbind (foldM add_record (fm_entries state) (mkNode 0)) (\<lambda>root.
     rbind (foldM (seed_inflight (cc_settledIds ct)) (cc_inflight ct) root) (\<lambda>root.
       foldM seed_frozen (cc_frozenAnchorCoords ct) root))"

definition recode :: "cnode \<Rightarrow> int \<times> 'e erec \<Rightarrow> 'e emb \<Rightarrow> 'e emb res" where
  "recode root x s2 = rbind (decodeChain (er_coord (snd x))) (\<lambda>ds. case node_at root ds of
       None \<Rightarrow> Inl (TypeError ''newCoord'')
     | Some n \<Rightarrow> Inr (fmupd (fst x) \<lparr>er_coord = n_newCoord (info n), er_el = er_el (snd x)\<rparr> s2))"

definition compactEliasDelta :: "'e emb \<Rightarrow> ccut \<Rightarrow> opts \<Rightarrow> ('e emb \<times> cnode \<times> stats) res" where
  "compactEliasDelta state ct opts = rbind (coord_tree state ct) (\<lambda>tree.
     let root = place_root opts (evidence (cc_settledIds ct) tree) in
     rbind (foldM (recode root) (fm_entries state) fmempty) (\<lambda>s2.
       Inr (s2, root, tally_root opts root \<lparr>st_symbolsBefore = symbolCount state, st_symbolsAfter = symbolCount s2,
         st_groupsRenumbered = 0, st_groupsSkippedInflight = 0, st_groupsSkippedUnstable = 0,
         st_spinesFused = 0, st_levelsRemoved = 0, st_spinesSkippedInflight = 0\<rparr>)))"

definition remap_record :: "(nat list \<Rightarrow> nat list res) \<Rightarrow> int \<times> 'e erec \<Rightarrow> 'e emb \<Rightarrow> 'e emb res" where
  "remap_record tr x s = rbind (tr (er_coord (snd x))) (\<lambda>c.
     Inr (fmupd (fst x) \<lparr>er_coord = c, er_el = er_el (snd x)\<rparr> s))"

definition remapState :: "'e emb \<Rightarrow> (nat list \<Rightarrow> nat list res) \<Rightarrow> 'e emb res" where
  "remapState state tr = foldM (remap_record tr) (fm_entries state) fmempty"

end
