(* ===== verification/Epoch.thy ===== *)
theory Epoch
  imports Compact Json
begin

text \<open>
  The epochs of state compaction (\<^verbatim>\<open>runtime/src/epoch.js\<close>): the inverse of a compaction's translation,
  built from the states before and after it; the serialised cut; the cut-indexed epoch graph with its
  compaction and join nodes, the order of cuts, and the chain of maps that lifts a state; and the
  certificate for dropping a map. \<open>'x\<close> is the type of translation maps, \<open>'c\<close> of cuts.
\<close>

section \<open>The inverse translation\<close>

text \<open>\<open>codewordSegs\<close>: the codewords of a coordinate, not decoded.\<close>

function codewordSegs :: "nat list \<Rightarrow> nat list list res" where
  "codewordSegs coord = (if coord = [] then Inr []
     else rbind (decodeOne coord) (\<lambda>p. rbind (codewordSegs (snd p)) (\<lambda>segs.
       Inr (take (length coord - length (snd p)) coord # segs))))"
  by auto
termination
  by (relation "measure length") (auto dest: decodeOne_length)

declare codewordSegs.simps [simp del]

datatype itree = INode "nat list" "(nat list \<times> itree) list"

fun inv_insert :: "nat list list \<Rightarrow> nat list list \<Rightarrow> itree \<Rightarrow> itree" where
  "inv_insert [] preSegs t = t"
| "inv_insert (seg # segs) preSegs (INode pre ch) =
     INode pre (AList.update seg (inv_insert segs (tl preSegs) (case map_of ch seg of
        Some c \<Rightarrow> c
      | None \<Rightarrow> INode (pre @ (case preSegs of [] \<Rightarrow> seg | p # _ \<Rightarrow> p)) [])) ch)"

definition inv_step :: "'e emb \<Rightarrow> int \<times> 'e erec \<Rightarrow> itree \<Rightarrow> itree res" where
  "inv_step preState x root = (case fmlookup preState (fst x) of
       None \<Rightarrow> Inr root
     | Some r \<Rightarrow> rbind (codewordSegs (er_coord r)) (\<lambda>preSegs.
         rbind (codewordSegs (er_coord (snd x))) (\<lambda>segs. Inr (inv_insert segs preSegs root))))"

definition buildInverseTranslate :: "'e emb \<Rightarrow> 'e emb \<Rightarrow> itree res" where
  "buildInverseTranslate preState postState =
     foldM (inv_step preState) (fm_entries postState) (INode [] [])"

fun inode_pre :: "itree \<Rightarrow> nat list" where
  "inode_pre (INode pre ch) = pre"

fun inode_children :: "itree \<Rightarrow> (nat list \<times> itree) list" where
  "inode_children (INode pre ch) = ch"

text \<open>The returned function.\<close>

function inverse_translate :: "itree \<Rightarrow> nat list \<Rightarrow> nat list res" where
  "inverse_translate node coord = (if coord = [] then Inr (inode_pre node)
     else rbind (decodeOne coord) (\<lambda>p.
       case map_of (inode_children node) (take (length coord - length (snd p)) coord) of
         None \<Rightarrow> Inr (inode_pre node @ coord)
       | Some ch \<Rightarrow> inverse_translate ch (snd p)))"
  by auto
termination
  by (relation "measure (\<lambda>(_, coord). length coord)") (auto dest: decodeOne_length)

declare inverse_translate.simps [simp del]

section \<open>Cuts\<close>

fun comma_join :: "string list \<Rightarrow> string" where
  "comma_join [] = []"
| "comma_join [x] = x"
| "comma_join (x # xs) = x @ CHR '','' # comma_join xs"

definition EPOCH0 :: string where
  "EPOCH0 = ''''"

definition cutKey :: "int list \<Rightarrow> string" where
  "cutKey settledIds = comma_join (map int_text (sort settledIds))"

text \<open>
  A cut is an object whose fields are sets or other values. The members of the sets are integers, so
  the comparison of \<^verbatim>\<open>serializeCut\<close> is the numeric one.
\<close>

datatype cut_field = FSet "int list" | FVal json

definition serializeCut :: "(string \<times> cut_field) list \<Rightarrow> (string \<times> json) list" where
  "serializeCut ct = map (\<lambda>(k, v). (k, case v of FSet xs \<Rightarrow> JArr (map JInt (sort xs)) | FVal j \<Rightarrow> j)) ct"

definition set_fields :: "string list" where
  "set_fields = [''settledIds'', ''settledDelIds'', ''settledMarkMids'']"

fun json_int :: "json \<Rightarrow> int option" where
  "json_int (JInt n) = Some n"
| "json_int v = None"

text \<open>An array in a set field becomes a set; the model keeps one with a member that is no integer as it is.\<close>

definition deserializeCut :: "(string \<times> json) list \<Rightarrow> (string \<times> cut_field) list" where
  "deserializeCut ct = map (\<lambda>(k, v). (k, case v of
       JArr xs \<Rightarrow> if k \<in> set set_fields \<and> list_all (\<lambda>x. json_int x \<noteq> None) xs
         then FSet (js_add_all (map (\<lambda>x. the (json_int x)) xs) []) else FVal v
     | _ \<Rightarrow> FVal v)) ct"

section \<open>The epoch graph\<close>

record ('c, 'x) enode =
  en_key :: string
  en_num :: nat
  en_settledIds :: "int list"
  en_cut :: "'c option"
  en_translate :: "'x option"
  en_translateInv :: "'x option"
  en_parents :: "string list"
  en_mapDropped :: bool

type_synonym ('c, 'x) epochs = "(string \<times> ('c, 'x) enode) list"

definition epoch_dag :: "('c, 'x) epochs" where
  "epoch_dag = [(EPOCH0, \<lparr>en_key = EPOCH0, en_num = 0, en_settledIds = [], en_cut = None, en_translate = None,
     en_translateInv = None, en_parents = [], en_mapDropped = False\<rparr>)]"

definition ep_get :: "('c, 'x) epochs \<Rightarrow> string \<Rightarrow> ('c, 'x) enode option" where
  "ep_get ep key = map_of ep key"

definition ep_has :: "('c, 'x) epochs \<Rightarrow> string \<Rightarrow> bool" where
  "ep_has ep key \<longleftrightarrow> map_of ep key \<noteq> None"

definition or_else :: "'a option \<Rightarrow> 'a option \<Rightarrow> 'a option" where
  "or_else old new = (case old of Some x \<Rightarrow> Some x | None \<Rightarrow> new)"

definition ep_compaction ::
  "string \<Rightarrow> int list \<Rightarrow> 'c option \<Rightarrow> 'x option \<Rightarrow> 'x option \<Rightarrow> string \<Rightarrow> ('c, 'x) epochs \<Rightarrow> ('c, 'x) epochs"
where
  "ep_compaction key settledIds ct tr trInv parentKey ep = (case map_of ep key of
       None \<Rightarrow> AList.update key \<lparr>en_key = key,
         en_num = (case map_of ep parentKey of Some p \<Rightarrow> en_num p | None \<Rightarrow> 0) + 1,
         en_settledIds = js_add_all settledIds [], en_cut = ct, en_translate = tr,
         en_translateInv = trInv, en_parents = [parentKey], en_mapDropped = False\<rparr> ep
     | Some n \<Rightarrow> AList.update key (n\<lparr>en_translate := or_else (en_translate n) tr,
         en_translateInv := or_else (en_translateInv n) trInv, en_cut := or_else (en_cut n) ct\<rparr>) ep)"

definition ep_node :: "('c, 'x) epochs \<Rightarrow> string \<Rightarrow> ('c, 'x) enode res" where
  "ep_node ep key = (case map_of ep key of Some n \<Rightarrow> Inr n | None \<Rightarrow> Inl (TypeError ''epoch''))"

definition ep_join :: "string \<Rightarrow> string \<Rightarrow> ('c, 'x) epochs \<Rightarrow> (string \<times> ('c, 'x) epochs) res" where
  "ep_join keyU keyV ep = rbind (ep_node ep keyU) (\<lambda>U. rbind (ep_node ep keyV) (\<lambda>V.
     let settled = js_add_all (en_settledIds V) (en_settledIds U); key = cutKey settled in
     Inr (key, if ep_has ep key then ep
       else AList.update key \<lparr>en_key = key, en_num = max (en_num U) (en_num V) + 1, en_settledIds = settled,
         en_cut = None, en_translate = None, en_translateInv = None, en_parents = [keyU, keyV],
         en_mapDropped = False\<rparr> ep)))"

definition ep_subcut :: "('c, 'x) epochs \<Rightarrow> string \<Rightarrow> string \<Rightarrow> bool res" where
  "ep_subcut ep subKey supKey = rbind (ep_node ep subKey) (\<lambda>sub. rbind (ep_node ep supKey) (\<lambda>sup.
     Inr (if length (en_settledIds sup) < length (en_settledIds sub) then False
       else list_all (\<lambda>x. x \<in> set (en_settledIds sup)) (en_settledIds sub))))"

datatype verdict = VEq | VSub | VSup | VDivergent

definition ep_compare :: "('c, 'x) epochs \<Rightarrow> string \<Rightarrow> string \<Rightarrow> verdict res" where
  "ep_compare ep a b = (if a = b then Inr VEq
     else rbind (ep_subcut ep a b) (\<lambda>ab. rbind (ep_subcut ep b a) (\<lambda>ba.
       Inr (if ab \<and> ba then VEq else if ab then VSub else if ba then VSup else VDivergent))))"

text \<open>
  The chain of maps from the key back to \<open>fromKey\<close>. The loop takes one parent step per iteration; the
  first argument bounds them, and the number of epochs is enough when parents precede their children
  (\<open>liftChain_total\<close> in the next theory).
\<close>

fun lift_loop :: "nat \<Rightarrow> ('c, 'x) epochs \<Rightarrow> string \<Rightarrow> string \<Rightarrow> 'x list \<Rightarrow> 'x list option res" where
  "lift_loop 0 ep fromKey k maps = Inl (Error ''out of fuel'')"
| "lift_loop (Suc f) ep fromKey k maps =
     (if k = fromKey then Inr (Some (rev maps))
      else case map_of ep k of
        None \<Rightarrow> Inr None
      | Some n \<Rightarrow>
          (case (en_parents n, en_translate n) of
             ([p], Some tr) \<Rightarrow> if en_mapDropped n then Inr None else lift_loop f ep fromKey p (maps @ [tr])
           | _ \<Rightarrow> Inr None))"

definition ep_liftChain :: "('c, 'x) epochs \<Rightarrow> string \<Rightarrow> string \<Rightarrow> 'x list option res" where
  "ep_liftChain ep fromKey toKey =
     (if fromKey = toKey then Inr (Some []) else lift_loop (length ep + 1) ep fromKey toKey [])"

section \<open>Map collection\<close>

text \<open>The two halves of the certificate; an absent half is \<open>None\<close>.\<close>

record certificate =
  ce_everyoneAdvanced :: "bool option"
  ce_allHeardOverAckFrontier :: "bool option"

definition doubleCertificate :: "certificate \<Rightarrow> bool" where
  "doubleCertificate c \<longleftrightarrow> ce_everyoneAdvanced c = Some True \<and> ce_allHeardOverAckFrontier c = Some True"

definition ackOnlyCertificate :: "certificate \<Rightarrow> bool" where
  "ackOnlyCertificate c \<longleftrightarrow> ce_everyoneAdvanced c = Some True"

end
