(* ===== verification/CompactSound.thy ===== *)
theory CompactSound
  imports Compact
begin

text \<open>
  Compaction does not change what a sequence reads. The decoder inverts the Elias-delta code; the tree
  holds exactly the chains of the records; and the new coordinates are the codes of chains in the same
  order that are never longer. The translation maps every old coordinate to the new one.
\<close>

section \<open>The decoder inverts the code\<close>

lemma read_bits_append:
  "set xs \<subseteq> {0, 1} \<Longrightarrow> read_bits (length xs) v (xs @ r) = Inr (foldl (\<lambda>a x. 2 * a + x) v xs, r)"
  by (induction xs arbitrary: v) auto

lemma bin_shape: "1 \<le> d \<Longrightarrow> \<exists>xs. bin d = 1 # xs \<and> set xs \<subseteq> {0, 1} \<and> foldl (\<lambda>a x. 2 * a + x) 1 xs = d"
proof -
  assume "1 \<le> d"
  with bin_spec [of d] obtain xs where "bin d = 1 # xs" "set xs \<subseteq> {0, 1}" "bval2 (1 # xs) = d"
    by (metis insert_subset list.collapse list.simps(15))
  then show ?thesis by (simp add: bval2_def)
qed

lemma decodeOne_dEnc: "1 \<le> d \<Longrightarrow> decodeOne (dEnc d @ r) = Inr (d, r)"
proof -
  assume d: "1 \<le> d"
  then obtain xs where xs: "bin d = 1 # xs" "set xs \<subseteq> {0, 1}" "foldl (\<lambda>a x. 2 * a + x) 1 xs = d"
    using bin_shape by blast
  obtain ys where ys: "bin (length (bin d)) = 1 # ys" "set ys \<subseteq> {0, 1}" "foldl (\<lambda>a x. 2 * a + x) 1 ys = length (bin d)"
    using bin_shape [of "length (bin d)"] xs(1) by auto
  have e: "dEnc d @ r = replicate (length ys) 1 @ 0 # ys @ xs @ r"
    using xs(1) ys(1) by (simp add: dEnc_def binEnc_def Let_def)
  have t: "takeWhile (\<lambda>b. b = 1) (dEnc d @ r) = replicate (length ys) 1" "dropWhile (\<lambda>b. b = 1) (dEnc d @ r) = 0 # ys @ xs @ r"
    unfolding e by (simp_all add: takeWhile_append dropWhile_append)
  show ?thesis unfolding decodeOne_def t Let_def
    using read_bits_append [OF ys(2), of 1 "xs @ r"] read_bits_append [OF xs(2), of 1 r] xs ys(3) by simp
qed

lemma dEnc_nonempty: "1 \<le> d \<Longrightarrow> dEnc d \<noteq> []"
  by (rule elias.enc_nonempty)

lemma decodeChain_cat: "positive ds \<Longrightarrow> decodeChain (concat (map dEnc ds)) = Inr ds"
proof (induction ds)
  case (Cons d ds)
  then show ?case using decodeOne_dEnc [of d "concat (map dEnc ds)"] dEnc_nonempty [of d]
    by (simp add: decodeChain.simps [of "dEnc d @ concat (map dEnc ds)"])
qed (simp add: decodeChain.simps)

lemma settled_prefix_cat: "positive ds \<Longrightarrow> \<exists>n b. settled_prefix settled i (concat (map dEnc ds)) = Inr (take n ds, b)"
proof (induction ds arbitrary: i)
  case (Cons d ds)
  then obtain n b where n: "settled_prefix settled (i + int d) (concat (map dEnc ds)) = Inr (take n ds, b)" by fastforce
  have "take (Suc n) (d # ds) = d # take n ds" by simp
  then show ?case using decodeOne_dEnc [of d "concat (map dEnc ds)"] dEnc_nonempty [of d] Cons.prems n
    by (auto simp: settled_prefix.simps [of settled i "dEnc d @ concat (map dEnc ds)"] intro: exI [of _ 0] exI [of _ "Suc n"])
qed (auto simp: settled_prefix.simps intro: exI [of _ False])

section \<open>The tree holds the chains of the records\<close>

definition rec_at :: "cnode \<Rightarrow> nat list \<Rightarrow> int option" where
  "rec_at t p = (case node_at t p of None \<Rightarrow> None | Some n \<Rightarrow> n_recordId (info n))"

fun tree_ok :: "cnode \<Rightarrow> bool" where
  "tree_ok (CNode i ks) \<longleftrightarrow> distinct (map fst ks) \<and> (\<forall>(d, ch) \<in> set ks. 1 \<le> d \<and> tree_ok ch)"

lemma rec_at_simps [simp]:
  "rec_at (CNode i ks) [] = n_recordId i"
  "rec_at (CNode i ks) (d # p) = (case map_of ks d of None \<Rightarrow> None | Some ch \<Rightarrow> rec_at ch p)"
  by (simp_all add: rec_at_def split: option.split)

lemma rec_at_new: "rec_at (mkNode j) p = None"
  by (cases p) (simp_all add: mkNode_def)

lemma rec_at_walk:
  assumes "\<And>i. n_recordId (step i) = n_recordId i" and "\<And>i. n_recordId (fin i) = g (n_recordId i)"
  shows "rec_at (walk step fin ds t) p = (if p = ds then g (rec_at t p) else rec_at t p)"
proof (induction ds arbitrary: t p)
  case Nil
  then show ?case using assms(2) by (cases t; cases p) auto
next
  case (Cons d ds)
  obtain i ks where t: "t = CNode i ks" by (cases t)
  define ch where "ch = (case childOf i ks d of CNode j ks' \<Rightarrow> CNode (step j) ks')"
  have ch: "rec_at ch q = (case map_of ks d of None \<Rightarrow> None | Some ch \<Rightarrow> rec_at ch q)" for q
  proof (cases "map_of ks d")
    case None
    then have "rec_at ch q = rec_at (mkNode (n_id i + int d)) q"
      using assms(1) by (cases q) (simp_all add: ch_def childOf_def mkNode_def)
    with None show ?thesis by (simp add: rec_at_new)
  next
    case (Some x)
    then show ?thesis using assms(1) by (cases x; cases q) (simp_all add: ch_def childOf_def)
  qed
  show ?case
  proof (cases p)
    case (Cons e q)
    then show ?thesis by (simp add: t ch_def [symmetric] update_conv' Cons.IH ch split: option.split)
  qed (simp add: t)
qed

lemma walk_ok: "tree_ok t \<Longrightarrow> positive ds \<Longrightarrow> tree_ok (walk step fin ds t)"
proof (induction ds arbitrary: t)
  case Nil
  then show ?case by (cases t) auto
next
  case (Cons d ds)
  obtain i ks where t: "t = CNode i ks" by (cases t)
  define ch where "ch = (case childOf i ks d of CNode j ks' \<Rightarrow> CNode (step j) ks')"
  have "tree_ok (childOf i ks d)"
    using Cons.prems(1) t by (auto simp: childOf_def mkNode_def split: option.split dest: map_of_SomeD)
  then have "tree_ok ch" by (cases "childOf i ks d") (auto simp: ch_def)
  then have w: "tree_ok (walk step fin ds ch)" using Cons.IH Cons.prems(2) by simp
  have d: "distinct (map fst ks)" "\<And>e x. (e, x) \<in> set ks \<Longrightarrow> 1 \<le> e \<and> tree_ok x" using Cons.prems(1) t by auto
  have "1 \<le> e \<and> tree_ok x" if "(e, x) \<in> set (AList.update d (walk step fin ds ch) ks)" for e x
  proof -
    have "map_of (AList.update d (walk step fin ds ch) ks) e = Some x"
      using that d(1) by (simp add: distinct_update)
    then show ?thesis using w d(2) Cons.prems(2) by (auto simp: update_conv' split: if_splits dest: map_of_SomeD)
  qed
  then show ?case using d(1) by (auto simp: t ch_def [symmetric] distinct_update)
qed

text \<open>The states compaction is for, and the chain of a record.\<close>

definition coded :: "'e emb \<Rightarrow> bool" where
  "coded s \<longleftrightarrow> (\<forall>i r. fmlookup s i = Some r \<longrightarrow> (\<exists>ds. positive ds \<and> er_coord r = concat (map dEnc ds)))"

definition codes :: "nat list list \<Rightarrow> bool" where
  "codes cs \<longleftrightarrow> (\<forall>c \<in> set cs. \<exists>ds. positive ds \<and> c = concat (map dEnc ds))"

lemma foldM_records:
  assumes "\<And>x. x \<in> set xs \<Longrightarrow> \<exists>ds. positive ds \<and> er_coord (snd x) = concat (map dEnc ds)" and "tree_ok t"
  shows "\<exists>t'. foldM add_record xs t = Inr t' \<and> tree_ok t' \<and>
    (\<forall>p. rec_at t' p \<noteq> None \<longleftrightarrow> rec_at t p \<noteq> None \<or> (\<exists>x \<in> set xs. er_coord (snd x) = concat (map dEnc p) \<and> positive p))"
  using assms
proof (induction xs arbitrary: t)
  case (Cons x xs)
  obtain ds where ds: "positive ds" "er_coord (snd x) = concat (map dEnc ds)"
    using Cons.prems(1) [of x] by auto
  let ?t = "walk (\<lambda>i. i) (\<lambda>i. i\<lparr>n_recordId := Some (fst x)\<rparr>) ds t"
  have step: "add_record x t = Inr ?t" using decodeChain_cat [OF ds(1)] by (simp add: add_record_def ds(2))
  have r: "rec_at ?t p = (if p = ds then Some (fst x) else rec_at t p)" for p
    by (rule rec_at_walk [where g = "\<lambda>_. Some (fst x)"]) simp_all
  have inj: "er_coord (snd x) = concat (map dEnc p) \<and> positive p \<longleftrightarrow> p = ds" for p
    using elias.cat_inj [of p ds] ds unfolding elias.cat_def by metis
  have IH: "\<exists>t'. foldM add_record xs ?t = Inr t' \<and> tree_ok t' \<and>
    (\<forall>p. rec_at t' p \<noteq> None \<longleftrightarrow> rec_at ?t p \<noteq> None \<or> (\<exists>x \<in> set xs. er_coord (snd x) = concat (map dEnc p) \<and> positive p))"
    by (rule Cons.IH [OF Cons.prems(1) walk_ok [OF Cons.prems(2) ds(1)]]) (rule list.set_intros(2))
  obtain t' where t': "foldM add_record xs ?t = Inr t'" "tree_ok t'"
    "\<And>p. rec_at t' p \<noteq> None \<longleftrightarrow> rec_at ?t p \<noteq> None \<or> (\<exists>x \<in> set xs. er_coord (snd x) = concat (map dEnc p) \<and> positive p)"
    using IH by blast
  have "rec_at t' p \<noteq> None \<longleftrightarrow> rec_at t p \<noteq> None \<or> (\<exists>y \<in> set (x # xs). er_coord (snd y) = concat (map dEnc p) \<and> positive p)" for p
    unfolding t'(3) r using inj [of p] by auto
  then show ?case using t'(1,2) step by auto
qed simp

text \<open>The other walks change no record.\<close>

lemma foldM_walks:
  assumes "\<And>c t. c \<in> set cs \<Longrightarrow> \<exists>ds step fin. f c t = Inr (walk step fin ds t) \<and> positive ds \<and>
      (\<forall>i. n_recordId (step i) = n_recordId i) \<and> (\<forall>i. n_recordId (fin i) = n_recordId i)"
    and "tree_ok t"
  shows "\<exists>t'. foldM f cs t = Inr t' \<and> tree_ok t' \<and> (\<forall>p. rec_at t' p = rec_at t p)"
  using assms
proof (induction cs arbitrary: t)
  case (Cons c cs)
  obtain ds step fin where w: "f c t = Inr (walk step fin ds t)" "positive ds"
    "\<And>i. n_recordId (step i) = n_recordId i" "\<And>i. n_recordId (fin i) = n_recordId i"
    using Cons.prems(1) [of c t] by auto
  have "rec_at (walk step fin ds t) p = rec_at t p" for p
    using rec_at_walk [of step fin "\<lambda>x. x" ds t p] w(3,4) by simp
  then show ?case using Cons.IH [of "walk step fin ds t"] Cons.prems walk_ok [OF Cons.prems(2) w(2)] w(1) by auto
qed simp

lemma positive_take: "positive ds \<Longrightarrow> positive (take n ds)"
  by (auto simp: positive_def dest: in_set_takeD)

lemma coord_tree_spec:
  assumes "coded s" and "codes (cc_inflight ct)" and "codes (cc_frozenAnchorCoords ct)"
  shows "\<exists>t. coord_tree s ct = Inr t \<and> tree_ok t \<and>
    (\<forall>p. rec_at t p \<noteq> None \<longleftrightarrow> (\<exists>i r. fmlookup s i = Some r \<and> er_coord r = concat (map dEnc p) \<and> positive p))"
proof -
  have "tree_ok (mkNode 0)" by (simp add: mkNode_def)
  then obtain t1 where t1: "foldM add_record (fm_entries s) (mkNode 0) = Inr t1" "tree_ok t1"
    "\<And>p. rec_at t1 p \<noteq> None \<longleftrightarrow> (\<exists>x \<in> set (fm_entries s). er_coord (snd x) = concat (map dEnc p) \<and> positive p)"
    using foldM_records [of "fm_entries s" "mkNode 0"] assms(1) by (auto simp: coded_def fm_entries_iff rec_at_new)
  obtain t2 where t2: "foldM (seed_inflight (cc_settledIds ct)) (cc_inflight ct) t1 = Inr t2" "tree_ok t2"
    "\<And>p. rec_at t2 p = rec_at t1 p"
  proof (rule exE [OF foldM_walks [of "cc_inflight ct" "seed_inflight (cc_settledIds ct)" t1]])
    fix c t
    assume "c \<in> set (cc_inflight ct)"
    then obtain ds where "positive ds" "c = concat (map dEnc ds)" using assms(2) by (auto simp: codes_def)
    moreover from this obtain n b where "settled_prefix (cc_settledIds ct) 0 c = Inr (take n ds, b)"
      using settled_prefix_cat by blast
    ultimately show "\<exists>ds step fin. seed_inflight (cc_settledIds ct) c t = Inr (walk step fin ds t) \<and> positive ds \<and>
      (\<forall>i. n_recordId (step i) = n_recordId i) \<and> (\<forall>i. n_recordId (fin i) = n_recordId i)"
      by (auto simp: seed_inflight_def positive_take intro!: exI [of _ "take n ds"] exI)
  qed (use t1(2) in auto)
  obtain t3 where t3: "foldM seed_frozen (cc_frozenAnchorCoords ct) t2 = Inr t3" "tree_ok t3"
    "\<And>p. rec_at t3 p = rec_at t2 p"
  proof (rule exE [OF foldM_walks [of "cc_frozenAnchorCoords ct" seed_frozen t2]])
    fix c t
    assume "c \<in> set (cc_frozenAnchorCoords ct)"
    then obtain ds where "positive ds" "c = concat (map dEnc ds)" using assms(3) by (auto simp: codes_def)
    then show "\<exists>ds step fin. seed_frozen c t = Inr (walk step fin ds t) \<and> positive ds \<and>
      (\<forall>i. n_recordId (step i) = n_recordId i) \<and> (\<forall>i. n_recordId (fin i) = n_recordId i)"
      by (auto simp: seed_frozen_def decodeChain_cat intro!: exI [of _ ds] exI)
  qed (use t2(2) in auto)
  have "rec_at t3 p \<noteq> None \<longleftrightarrow> (\<exists>i r. fmlookup s i = Some r \<and> er_coord r = concat (map dEnc p) \<and> positive p)" for p
    unfolding t3(3) t2(3) t1(3) by (auto simp: fm_entries_iff Bex_def)
  then show ?thesis using t1(1) t2(1) t3(1,2) by (auto simp: coord_tree_def)
qed

lemma evidence_children: "children (evidence settled t) = map (\<lambda>(d, ch). (d, evidence settled ch)) (children t)"
  "n_recordId (info (evidence settled t)) = n_recordId (info t)"
  by (cases t, simp add: Let_def)+

lemma map_of_children: "map_of (map (\<lambda>(d, ch). (d, f d ch)) ks) d = map_option (f d) (map_of ks d)"
  by (induction ks) auto

lemma tree_ok_evidence: "tree_ok t \<Longrightarrow> tree_ok (evidence settled t)"
proof (induction t)
  case (CNode i ks)
  have "map fst (map (\<lambda>(d, ch). (d, evidence settled ch)) ks) = map fst ks" by (induction ks) auto
  with CNode show ?case by (fastforce simp: Let_def snds.simps simp del: map_map)
qed

lemma rec_at_evidence: "rec_at (evidence settled t) p = rec_at t p"
proof (induction p arbitrary: t)
  case Nil
  then show ?case by (cases t) (simp add: Let_def)
next
  case (Cons d p)
  then show ?case by (cases t) (simp add: Let_def map_of_children split: option.split)
qed

section \<open>Placing\<close>

lemma index_in_nth: "x \<in> set xs \<Longrightarrow> index_in xs x < length xs \<and> xs ! index_in xs x = x"
  by (induction xs) auto

lemma index_in_sorted:
  assumes "sorted xs" "distinct xs" "x \<in> set xs" "y \<in> set xs" "x < y"
  shows "index_in xs x < index_in xs y"
proof (rule ccontr)
  assume "\<not> index_in xs x < index_in xs y"
  then have "xs ! index_in xs y \<le> xs ! index_in xs x"
    using index_in_nth [OF assms(3)] by (intro sorted_nth_mono assms(1)) auto
  then show False using index_in_nth [OF assms(3)] index_in_nth [OF assms(4)] assms(5) by simp
qed

lemma index_in_bound:
  assumes "sorted xs" "distinct xs" "x \<in> set xs" "\<forall>y \<in> set xs. 1 \<le> y"
  shows "index_in xs x + 1 \<le> (x :: nat)"
proof -
  have "k < length xs \<Longrightarrow> k + 1 \<le> xs ! k" for k
  proof (induction k)
    case 0
    then show ?case using assms(4) by (cases xs) auto
  next
    case (Suc k)
    then have "xs ! k < xs ! Suc k"
      using assms(1,2) by (metis Suc_lessD lessI nat_less_le nth_eq_iff_index_eq n_not_Suc_n sorted_nth_mono less_imp_le_nat)
    with Suc show ?case by simp
  qed
  then show ?thesis using index_in_nth [OF assms(3)] by metis
qed

text \<open>New deltas keep the order of siblings, stay positive and do not grow.\<close>

lemma new_delta_spec:
  assumes "distinct (map fst ks)" and "\<And>d. d \<in> fst ` set ks \<Longrightarrow> 1 \<le> d" and "d \<in> fst ` set ks"
  shows "1 \<le> new_delta opts i ks d \<and> new_delta opts i ks d \<le> d \<and>
    (\<forall>e \<in> fst ` set ks. d < e \<longrightarrow> new_delta opts i ks d < new_delta opts i ks e)"
proof (cases "renumber opts i ks")
  case True
  let ?xs = "sort (map fst ks)"
  have xs: "sorted ?xs" "distinct ?xs" "set ?xs = fst ` set ks" using assms(1) by simp_all
  then show ?thesis
    using True index_in_bound [OF xs(1,2), of d] index_in_sorted [OF xs(1,2), of d] assms(2,3)
    by (simp add: new_delta_def)
qed (use assms in \<open>simp add: new_delta_def\<close>)

lemma bin_length_enc: "1 \<le> d \<Longrightarrow> d \<le> e \<Longrightarrow> length (dEnc d) \<le> length (dEnc e)"
proof -
  assume a: "1 \<le> d" "d \<le> e"
  have l: "length (dEnc d) = 2 * length (bin (length (bin d))) - 1 + (length (bin d) - 1)" for d
    by (simp add: dEnc_def Let_def binEnc_length)
  have "length (bin d) \<le> length (bin e)" by (rule bin_length_mono [OF a(2)])
  moreover from this have "length (bin (length (bin d))) \<le> length (bin (length (bin e)))" by (rule bin_length_mono)
  ultimately show ?thesis unfolding l by linarith
qed

definition nc_at :: "cnode \<Rightarrow> nat list \<Rightarrow> nat list option" where
  "nc_at t p = map_option (\<lambda>n. n_newCoord (info n)) (node_at t p)"

lemma nc_at_simps [simp]:
  "nc_at (CNode i ks) [] = Some (n_newCoord i)"
  "nc_at (CNode i ks) (d # p) = (case map_of ks d of None \<Rightarrow> None | Some ch \<Rightarrow> nc_at ch p)"
  by (simp_all add: nc_at_def split: option.split)

text \<open>
  New coordinates of the live chains \<open>L\<close> are codes of chains \<open>r\<close> below \<open>c\<close>, in the same order and not
  longer. Without fusion (\<open>lv\<close>) the levels of old and new chains correspond.
\<close>

definition levels :: "(nat list \<Rightarrow> bool) \<Rightarrow> (nat list \<Rightarrow> nat list) \<Rightarrow> bool" where
  "levels L r \<longleftrightarrow> (\<forall>p. L p \<longrightarrow> length (r p) = length p) \<and>
     (\<forall>p q n. L p \<longrightarrow> L q \<longrightarrow> n \<le> length p \<longrightarrow> n \<le> length q \<longrightarrow> take n (r p) = take n (r q) \<longrightarrow> take n p = take n q)"

lemma levelsI:
  assumes "\<And>p. L p \<Longrightarrow> length (r p) = length p"
    and "\<And>p q n. L p \<Longrightarrow> L q \<Longrightarrow> n \<le> length p \<Longrightarrow> n \<le> length q \<Longrightarrow> take n (r p) = take n (r q) \<Longrightarrow> take n p = take n q"
  shows "levels L r"
  unfolding levels_def using assms by blast

lemma levelsD:
  "levels L r \<Longrightarrow> L p \<Longrightarrow> length (r p) = length p"
  "levels L r \<Longrightarrow> L p \<Longrightarrow> L q \<Longrightarrow> n \<le> length p \<Longrightarrow> n \<le> length q \<Longrightarrow> take n (r p) = take n (r q) \<Longrightarrow> take n p = take n q"
  unfolding levels_def by blast+

definition placed :: "bool \<Rightarrow> (nat list \<Rightarrow> bool) \<Rightarrow> (nat list \<Rightarrow> nat list option) \<Rightarrow> nat list \<Rightarrow> (nat list \<Rightarrow> nat list) \<Rightarrow> bool" where
  "placed lv L nc c r \<longleftrightarrow> (lv \<longrightarrow> levels L r) \<and>
     (\<forall>p. L p \<longrightarrow> nc p = Some (c @ concat (map dEnc (r p))) \<and> positive (r p) \<and>
        length (concat (map dEnc (r p))) \<le> length (concat (map dEnc p))) \<and>
     (\<forall>p q. L p \<longrightarrow> L q \<longrightarrow> chain_before p q \<longrightarrow> chain_before (r p) (r q))"

lemma placedD:
  assumes "placed lv L nc c r" and "L p"
  shows "nc p = Some (c @ concat (map dEnc (r p)))" "positive (r p)"
    "length (concat (map dEnc (r p))) \<le> length (concat (map dEnc p))"
    "L q \<Longrightarrow> chain_before p q \<Longrightarrow> chain_before (r p) (r q)"
  using assms by (auto simp: placed_def)

lemma placed_levels: "placed lv L nc c r \<Longrightarrow> lv \<Longrightarrow> levels L r"
  by (simp add: placed_def)

lemma placed_group:
  assumes keys: "distinct (map fst ks)" "\<And>d. d \<in> fst ` set ks \<Longrightarrow> 1 \<le> d"
    and sub: "\<And>d ch. (d, ch) \<in> set ks \<Longrightarrow>
      \<exists>r. placed lv (\<lambda>p. rec_at ch p \<noteq> None) (nc_at (f d ch)) (c @ dEnc (num d)) r"
    and num: "\<And>d. d \<in> fst ` set ks \<Longrightarrow> 1 \<le> num d \<and> num d \<le> d \<and> (\<forall>e \<in> fst ` set ks. d < e \<longrightarrow> num d < num e)"
    and c: "n_newCoord i' = c"
  shows "\<exists>r. placed lv (\<lambda>p. rec_at (CNode i ks) p \<noteq> None) (nc_at (CNode i' (map (\<lambda>(d, ch). (d, f d ch)) ks))) c r"
proof -
  obtain R where R: "\<And>d ch. (d, ch) \<in> set ks \<Longrightarrow>
      placed lv (\<lambda>p. rec_at ch p \<noteq> None) (nc_at (f d ch)) (c @ dEnc (num d)) (R d ch)"
    using sub by metis
  define r where "r p = (case p of [] \<Rightarrow> [] | d # p' \<Rightarrow>
    (case map_of ks d of None \<Rightarrow> [] | Some ch \<Rightarrow> num d # R d ch p'))" for p
  let ?L = "\<lambda>p. rec_at (CNode i ks) p \<noteq> None"
  have child: "\<exists>ch. map_of ks d = Some ch \<and> (d, ch) \<in> set ks \<and> rec_at ch p \<noteq> None \<and> r (d # p) = num d # R d ch p"
    if "?L (d # p)" for d p
    using that by (auto simp: r_def split: option.splits dest: map_of_SomeD)
  have "nc_at (CNode i' (map (\<lambda>(d, ch). (d, f d ch)) ks)) p = Some (c @ concat (map dEnc (r p))) \<and> positive (r p) \<and>
      length (concat (map dEnc (r p))) \<le> length (concat (map dEnc p))" if L: "?L p" for p
  proof (cases p)
    case Nil
    then show ?thesis by (simp add: r_def c)
  next
    case (Cons d q)
    with L child obtain ch where ch: "map_of ks d = Some ch" "(d, ch) \<in> set ks" "rec_at ch q \<noteq> None" "r p = num d # R d ch q"
      by blast
    have d: "1 \<le> num d" "num d \<le> d" using num ch(2) by force+
    have "length (dEnc (num d)) \<le> length (dEnc d)" by (rule bin_length_enc [OF d])
    with placedD [OF R [OF ch(2)] ch(3)] show ?thesis
      using ch d by (simp add: Cons map_of_children)
  qed
  moreover have "chain_before (r p) (r q)" if L: "?L p" "?L q" and lt: "chain_before p q" for p q
  proof (cases q)
    case Nil
    with lt show ?thesis by (cases p) auto
  next
    case q: (Cons e q')
    with L(2) child obtain ch' where ch': "map_of ks e = Some ch'" "(e, ch') \<in> set ks" "rec_at ch' q' \<noteq> None"
      "r q = num e # R e ch' q'" by blast
    show ?thesis
    proof (cases p)
      case Nil
      then show ?thesis by (simp add: r_def ch'(4) [unfolded r_def])
    next
      case (Cons d p')
      with L(1) child obtain ch where ch: "map_of ks d = Some ch" "(d, ch) \<in> set ks" "rec_at ch p' \<noteq> None"
        "r p = num d # R d ch p'" by blast
      show ?thesis
      proof (cases "d = e")
        case True
        then have "ch' = ch" "chain_before p' q'" using ch(1) ch'(1) lt Cons q by auto
        then show ?thesis using placedD(4) [OF R [OF ch(2)] ch(3)] ch'(3) True by (simp add: ch(4) ch'(4))
      next
        case False
        then have "e < d" using lt Cons q by simp
        then have "num e < num d" using num [of e] ch(2) ch'(2) by force
        then show ?thesis by (simp add: ch(4) ch'(4))
      qed
    qed
  qed
  moreover have "levels ?L r" if lv
  proof (rule levelsI)
    fix p
    assume L: "?L p"
    show "length (r p) = length p"
    proof (cases p)
      case (Cons d q)
      with L child obtain ch where ch: "(d, ch) \<in> set ks" "rec_at ch q \<noteq> None" "r p = num d # R d ch q" by blast
      then show ?thesis using levelsD(1) [OF placed_levels [OF R [OF ch(1)] that] ch(2)] Cons by simp
    qed (simp add: r_def)
  next
    fix p q n
    assume L: "?L p" "?L q" and n: "n \<le> length p" "n \<le> length q" and eq: "take n (r p) = take n (r q)"
    show "take n p = take n q"
    proof (cases n)
      case (Suc m)
      then obtain d p' e q' where pq: "p = d # p'" "q = e # q'" using n by (cases p; cases q) auto
      from L(1) child pq obtain ch where ch: "map_of ks d = Some ch" "(d, ch) \<in> set ks" "rec_at ch p' \<noteq> None"
        "r p = num d # R d ch p'" by blast
      from L(2) child pq obtain ch' where ch': "map_of ks e = Some ch'" "(e, ch') \<in> set ks" "rec_at ch' q' \<noteq> None"
        "r q = num e # R e ch' q'" by blast
      have "num d = num e" and t: "take m (R d ch p') = take m (R e ch' q')" using eq Suc ch(4) ch'(4) by auto
      then have "d = e" using num [of d] num [of e] ch(2) ch'(2) by (metis image_eqI fst_conv nat_neq_iff)
      moreover from this have "ch' = ch" using ch(1) ch'(1) by simp
      ultimately have "take m p' = take m q'"
        using levelsD(2) [OF placed_levels [OF R [OF ch(2)] that] ch(3), of q' m] ch'(3) t n Suc pq by auto
      then show ?thesis using pq Suc \<open>d = e\<close> by simp
    qed simp
  qed
  ultimately have "placed lv ?L (nc_at (CNode i' (map (\<lambda>(d, ch). (d, f d ch)) ks))) c r" by (simp add: placed_def)
  then show ?thesis by blast
qed

lemma place_spec:
  "tree_ok t \<Longrightarrow> \<exists>r. placed (\<not> op_fuse opts) (\<lambda>p. rec_at t p \<noteq> None) (nc_at (place opts st c t)) c r"
proof (induction t arbitrary: st c)
  case (CNode i ks)
  let ?i = "i\<lparr>n_stable := st \<and> n_evidence i, n_newCoord := c\<rparr>"
  have keys: "distinct (map fst ks)" "\<And>d. d \<in> fst ` set ks \<Longrightarrow> 1 \<le> d" using CNode.prems by auto
  have sub: "\<exists>r. placed (\<not> op_fuse opts) (\<lambda>p. rec_at ch p \<noteq> None) (nc_at (place opts st' c' ch)) c' r" if "(d, ch) \<in> set ks" for d ch st' c'
    using CNode.IH [OF that, of ch] that CNode.prems by (auto simp: snds.simps)
  show ?case
  proof (cases "spine_step opts ?i ks")
    case False
    have "\<exists>r. placed (\<not> op_fuse opts) (\<lambda>p. rec_at (CNode i ks) p \<noteq> None)
        (nc_at (CNode ?i (map (\<lambda>(d, ch). (d, place opts (n_stable ?i) (c @ dEnc (new_delta opts ?i ks d)) ch)) ks))) c r"
      by (rule placed_group [OF keys sub new_delta_spec [OF keys]]) simp_all
    then show ?thesis using False by (simp add: Let_def)
  next
    case True
    then have "length ks = 1" and dead: "n_recordId i = None" and fuse: "op_fuse opts"
      by (simp_all add: spine_step_def spineMember_def)
    then obtain d ch where ks: "ks = [(d, ch)]" by (cases ks) auto
    obtain r where r: "placed (\<not> op_fuse opts) (\<lambda>p. rec_at ch p \<noteq> None) (nc_at (place opts (n_stable ?i) c ch)) c r"
      using sub [of d ch] ks by auto
    have le: "length (concat (map dEnc (r q))) \<le> length (dEnc d) + length (concat (map dEnc q))"
      if "rec_at ch q = Some y" for q y using placedD(3) [OF r, of q] that by simp
    have L: "rec_at (CNode i ks) p \<noteq> None \<longleftrightarrow> (\<exists>q. p = d # q \<and> rec_at ch q \<noteq> None)" for p
      using dead by (cases p) (auto simp: ks)
    have "placed (\<not> op_fuse opts) (\<lambda>p. rec_at (CNode i ks) p \<noteq> None)
        (nc_at (CNode ?i (map (\<lambda>(d, ch). (d, place opts (n_stable ?i) c ch)) ks))) c (\<lambda>p. r (tl p))"
      unfolding placed_def L using placedD [OF r] le fuse by (auto simp: ks)
    then show ?thesis using True by (auto simp: Let_def)
  qed
qed

lemma place_root_spec:
  assumes "tree_ok t"
  shows "\<exists>r. placed (\<not> op_fuse opts) (\<lambda>p. rec_at t p \<noteq> None) (nc_at (place_root opts t)) (n_newCoord (info t)) r"
proof (cases t)
  case (CNode i ks)
  let ?i = "i\<lparr>n_stable := True\<rparr>"
  have keys: "distinct (map fst ks)" "\<And>d. d \<in> fst ` set ks \<Longrightarrow> 1 \<le> d" using assms CNode by auto
  have sub: "\<exists>r. placed (\<not> op_fuse opts) (\<lambda>p. rec_at ch p \<noteq> None) (nc_at (place opts st' c' ch)) c' r" if "(d, ch) \<in> set ks" for d ch st' c'
    using place_spec that assms CNode by auto
  have "\<exists>r. placed (\<not> op_fuse opts) (\<lambda>p. rec_at (CNode i ks) p \<noteq> None) (nc_at (CNode ?i
      (map (\<lambda>(d, ch). (d, place opts True (n_newCoord i @ dEnc (new_delta opts ?i ks d)) ch)) ks))) (n_newCoord i) r"
    by (rule placed_group [OF keys sub new_delta_spec [OF keys]]) simp_all
  then show ?thesis using CNode by (simp add: place_root_def Let_def)
qed


lemma walk_root: "(\<And>i. n_newCoord (fin i) = n_newCoord i) \<Longrightarrow> n_newCoord (info (walk step fin ds t)) = n_newCoord (info t)"
  by (cases t; cases ds) auto

lemma coord_tree_root: "coord_tree s ct = Inr t \<Longrightarrow> n_newCoord (info t) = []"
proof -
  assume "coord_tree s ct = Inr t"
  then obtain t1 t2 where t: "foldM add_record (fm_entries s) (mkNode 0) = Inr t1"
    "foldM (seed_inflight (cc_settledIds ct)) (cc_inflight ct) t1 = Inr t2"
    "foldM seed_frozen (cc_frozenAnchorCoords ct) t2 = Inr t" by (auto simp: coord_tree_def rbind_eq_Inr)
  have "n_newCoord (info t1) = []"
    by (rule foldM_invariant [OF t(1), where I = "\<lambda>t. n_newCoord (info t) = []"])
       (auto simp: mkNode_def add_record_def rbind_eq_Inr walk_root)
  then have "n_newCoord (info t2) = []"
    by (rule foldM_invariant [OF t(2), where I = "\<lambda>t. n_newCoord (info t) = []"])
       (auto simp: seed_inflight_def rbind_pair_Inr walk_root)
  then show ?thesis
    by (rule foldM_invariant [OF t(3), where I = "\<lambda>t. n_newCoord (info t) = []"])
       (auto simp: seed_frozen_def rbind_eq_Inr walk_root)
qed

section \<open>Translation\<close>

lemma translate_at:
  "node_at t ds = Some n \<Longrightarrow> positive ds \<Longrightarrow> translate t (concat (map dEnc ds)) = Inr (n_newCoord (info n))"
proof (induction ds arbitrary: t)
  case Nil
  then show ?case by (simp add: translate.simps)
next
  case (Cons d ds)
  obtain i ks where t: "t = CNode i ks" by (cases t)
  with Cons.prems(1) obtain ch where "map_of ks d = Some ch" "node_at ch ds = Some n" by (auto split: option.splits)
  then show ?case using Cons decodeOne_dEnc [of d "concat (map dEnc ds)"] dEnc_nonempty [of d]
    by (subst translate.simps) (simp add: t)
qed

section \<open>The compacted state\<close>

lemma foldM_updates:
  "(\<And>x m. x \<in> set xs \<Longrightarrow> f x m = Inr (fmupd (fst x) (g (fst x) (snd x)) m)) \<Longrightarrow>
   foldM f xs m = Inr (foldl (\<lambda>m x. fmupd (fst x) (g (fst x) (snd x)) m) m xs)"
  by (induction xs arbitrary: m) auto

lemma lookup_updates:
  "distinct (map fst xs) \<Longrightarrow> fmlookup (foldl (\<lambda>m x. fmupd (fst x) (g (fst x) (snd x)) m) m xs) i =
     (case map_of xs i of Some r \<Rightarrow> Some (g i r) | None \<Rightarrow> fmlookup m i)"
proof (induction xs arbitrary: m)
  case (Cons x xs)
  show ?case
  proof (cases "i = fst x")
    case True
    then have "map_of xs i = None" using Cons.prems by (simp add: map_of_eq_None_iff)
    with True Cons show ?thesis by (cases x) simp
  next
    case False
    with Cons show ?thesis by (cases x) (simp split: option.split)
  qed
qed simp

lemma foldM_entries:
  assumes "\<And>i r m. fmlookup s i = Some r \<Longrightarrow> f (i, r) m = Inr (fmupd i (g i r) m)"
  shows "foldM f (fm_entries s) fmempty = Inr (fmmap_keys g s)"
proof -
  have "foldM f (fm_entries s) fmempty = Inr (foldl (\<lambda>m x. fmupd (fst x) (g (fst x) (snd x)) m) fmempty (fm_entries s))"
    by (rule foldM_updates) (auto simp: fm_entries_iff assms)
  moreover have "foldl (\<lambda>m x. fmupd (fst x) (g (fst x) (snd x)) m) fmempty (fm_entries s) = fmmap_keys g s"
    by (rule fmap_ext) (simp add: lookup_updates split: option.split)
  ultimately show ?thesis by simp
qed

lemma entries_fmmap: "fm_entries (fmmap_keys g s) = map (\<lambda>(i, r). (i, g i r)) (fm_entries s)"
proof -
  have k: "fm_keys (fmmap_keys g s) = fm_keys s" by (simp add: fm_keys_def)
  have l: "\<exists>r. fmlookup s i = Some r" if "i \<in> set (fm_keys s)" for i using that unfolding set_fm_keys by blast
  show ?thesis unfolding fm_entries_def k map_map by (rule map_cong) (auto dest: l)
qed

lemma insort_by_map:
  "(\<And>y. y \<in> set ys \<Longrightarrow> lt' (f y) (f x) \<longleftrightarrow> lt y x) \<Longrightarrow> insort_by lt' (f x) (map f ys) = map f (insort_by lt x ys)"
  by (induction ys) auto

lemma sort_by_map:
  "(\<And>x y. x \<in> set xs \<Longrightarrow> y \<in> set xs \<Longrightarrow> lt' (f x) (f y) \<longleftrightarrow> lt x y) \<Longrightarrow> sort_by lt' (map f xs) = map f (sort_by lt xs)"
proof (induction xs)
  case (Cons x xs)
  have "sort_by lt' (map f (x # xs)) = insort_by lt' (f x) (map f (sort_by lt xs))"
    using Cons by (simp add: sort_by_def)
  also have "\<dots> = map f (insort_by lt x (sort_by lt xs))"
    using Cons.prems by (intro insort_by_map) auto
  finally show ?case by (simp add: sort_by_def)
qed (simp add: sort_by_def)

lemma fold_preserves: "(\<And>x s. x \<in> set xs \<Longrightarrow> h (f x s) = h s) \<Longrightarrow> h (fold f xs s) = h s"
  by (induction xs arbitrary: s) auto

lemma count_group_symbols [simp]:
  "st_symbolsBefore (count_group opts i ks s) = st_symbolsBefore s"
  "st_symbolsAfter (count_group opts i ks s) = st_symbolsAfter s"
  by (simp_all add: count_group_def)

lemma tally_symbols:
  "st_symbolsBefore (tally opts inside t s) = st_symbolsBefore s \<and> st_symbolsAfter (tally opts inside t s) = st_symbolsAfter s"
proof (induction t arbitrary: inside s)
  case (CNode i ks)
  have f: "st_symbolsBefore (fold (\<lambda>(d, ch). tally opts b ch) ks s') = st_symbolsBefore s'"
    "st_symbolsAfter (fold (\<lambda>(d, ch). tally opts b ch) ks s') = st_symbolsAfter s'" for b s'
    using CNode by (auto simp: snds.simps intro!: fold_preserves)
  show ?case by (simp add: f)
qed

lemma tally_root_symbols:
  "st_symbolsBefore (tally_root opts t s) = st_symbolsBefore s"
  "st_symbolsAfter (tally_root opts t s) = st_symbolsAfter s"
proof -
  have f: "st_symbolsBefore (fold (\<lambda>(d, ch). tally opts b ch) ks s') = st_symbolsBefore s'"
    "st_symbolsAfter (fold (\<lambda>(d, ch). tally opts b ch) ks s') = st_symbolsAfter s'" for b s' ks
    using tally_symbols by (auto intro!: fold_preserves)
  show "st_symbolsBefore (tally_root opts t s) = st_symbolsBefore s"
    "st_symbolsAfter (tally_root opts t s) = st_symbolsAfter s" by (simp_all add: tally_root_def f)
qed

text \<open>The chains of the records of a state.\<close>

definition chain_in :: "'e emb \<Rightarrow> nat list \<Rightarrow> bool" where
  "chain_in s ds \<longleftrightarrow> (\<exists>i rec. fmlookup s i = Some rec \<and> er_coord rec = concat (map dEnc ds) \<and> positive ds)"

lemma compact_spec:
  assumes "coded s" and "codes (cc_inflight ct)" and "codes (cc_frozenAnchorCoords ct)"
  shows "\<exists>root st r. compactEliasDelta s ct opts = Inr (fmmap_keys (\<lambda>i rec. rec\<lparr>er_coord := r (er_coord rec)\<rparr>) s, root, st) \<and>
    st_symbolsBefore st = symbolCount s \<and>
    st_symbolsAfter st = symbolCount (fmmap_keys (\<lambda>i rec. rec\<lparr>er_coord := r (er_coord rec)\<rparr>) s) \<and>
    (\<forall>i rec. fmlookup s i = Some rec \<longrightarrow> translate root (er_coord rec) = Inr (r (er_coord rec)) \<and>
       length (r (er_coord rec)) \<le> length (er_coord rec) \<and> (\<exists>ds. positive ds \<and> r (er_coord rec) = concat (map dEnc ds))) \<and>
    (\<forall>i rec j rec'. fmlookup s i = Some rec \<longrightarrow> fmlookup s j = Some rec' \<longrightarrow>
       (dkey (er_coord rec) < dkey (er_coord rec') \<longleftrightarrow> dkey (r (er_coord rec)) < dkey (r (er_coord rec')))) \<and>
    (\<not> op_fuse opts \<longrightarrow> (\<exists>q. levels (chain_in s) q \<and>
       (\<forall>ds. chain_in s ds \<longrightarrow> r (concat (map dEnc ds)) = concat (map dEnc (q ds)) \<and> positive (q ds))))"
proof -
  obtain t where t: "coord_tree s ct = Inr t" "tree_ok t" "\<And>p. rec_at t p \<noteq> None \<longleftrightarrow>
      (\<exists>i rec. fmlookup s i = Some rec \<and> er_coord rec = concat (map dEnc p) \<and> positive p)"
    using coord_tree_spec [OF assms] by blast
  let ?e = "evidence (cc_settledIds ct) t" and ?cat = "\<lambda>ds. concat (map dEnc ds)"
  let ?root = "place_root opts ?e"
  have root: "n_newCoord (info ?e) = []" using coord_tree_root [OF t(1)] by (cases t) (simp add: Let_def)
  obtain q where "placed (\<not> op_fuse opts) (\<lambda>p. rec_at ?e p \<noteq> None) (nc_at ?root) (n_newCoord (info ?e)) q"
    using place_root_spec [OF tree_ok_evidence [OF t(2)]] by blast
  then have q: "placed (\<not> op_fuse opts) (\<lambda>p. rec_at t p \<noteq> None) (nc_at ?root) [] q" by (simp only: rec_at_evidence root)
  define r where "r c = (case decodeChain c of Inr ds \<Rightarrow> ?cat (q ds) | Inl _ \<Rightarrow> c)" for c
  have chain: "\<exists>ds n. positive ds \<and> er_coord rec = ?cat ds \<and> rec_at t ds \<noteq> None \<and> r (er_coord rec) = ?cat (q ds) \<and>
      node_at ?root ds = Some n \<and> n_newCoord (info n) = ?cat (q ds)" if "fmlookup s i = Some rec" for i rec
  proof -
    from that assms(1) obtain ds where ds: "positive ds" "er_coord rec = ?cat ds" by (auto simp: coded_def)
    then have L: "rec_at t ds \<noteq> None" using that unfolding t(3) by blast
    from placedD(1) [OF q L] obtain n where "node_at ?root ds = Some n" "n_newCoord (info n) = ?cat (q ds)"
      by (auto simp: nc_at_def)
    moreover have "r (er_coord rec) = ?cat (q ds)" unfolding r_def ds(2) decodeChain_cat [OF ds(1)] by simp
    ultimately show ?thesis using ds L by blast
  qed
  let ?s = "fmmap_keys (\<lambda>i rec. rec\<lparr>er_coord := r (er_coord rec)\<rparr>) s"
  have "foldM (recode ?root) (fm_entries s) fmempty = Inr ?s"
  proof (rule foldM_entries)
    fix i m and rec :: "'a erec"
    assume "fmlookup s i = Some rec"
    from chain [OF this] obtain ds n where "positive ds" "er_coord rec = ?cat ds" "r (er_coord rec) = ?cat (q ds)"
      "node_at ?root ds = Some n" "n_newCoord (info n) = ?cat (q ds)" by blast
    then show "recode ?root (i, rec) m = Inr (fmupd i (rec\<lparr>er_coord := r (er_coord rec)\<rparr>) m)"
      by (cases rec) (simp add: recode_def decodeChain_cat)
  qed
  then have c: "\<exists>st. compactEliasDelta s ct opts = Inr (?s, ?root, st) \<and> st_symbolsBefore st = symbolCount s \<and>
      st_symbolsAfter st = symbolCount ?s"
    by (simp add: compactEliasDelta_def t(1) Let_def tally_root_symbols)
  have a: "translate ?root (er_coord rec) = Inr (r (er_coord rec)) \<and> length (r (er_coord rec)) \<le> length (er_coord rec) \<and>
      (\<exists>ds. positive ds \<and> r (er_coord rec) = ?cat ds)" if "fmlookup s i = Some rec" for i rec
  proof -
    from chain [OF that] obtain ds n where ds: "positive ds" "er_coord rec = ?cat ds" "rec_at t ds \<noteq> None"
      "r (er_coord rec) = ?cat (q ds)" "node_at ?root ds = Some n" "n_newCoord (info n) = ?cat (q ds)" by blast
    with translate_at [OF ds(5,1)] placedD(2,3) [OF q ds(3)] show ?thesis by auto
  qed
  have b: "dkey (er_coord rec) < dkey (er_coord rec') \<longleftrightarrow> dkey (r (er_coord rec)) < dkey (r (er_coord rec'))"
    if "fmlookup s i = Some rec" "fmlookup s j = Some rec'" for i j rec rec'
  proof -
    from chain [OF that(1)] obtain ds where ds: "positive ds" "er_coord rec = ?cat ds" "rec_at t ds \<noteq> None"
      "r (er_coord rec) = ?cat (q ds)" by blast
    from chain [OF that(2)] obtain es where es: "positive es" "er_coord rec' = ?cat es" "rec_at t es \<noteq> None"
      "r (er_coord rec') = ?cat (q es)" by blast
    have "chain_before es ds \<longleftrightarrow> chain_before (q es) (q ds)"
      using placedD(4) [OF q es(3) ds(3)] placedD(4) [OF q ds(3) es(3)] chain_before_total [of es ds]
        chain_before_asym chain_before_irrefl by metis
    then show ?thesis unfolding ds(4) es(4) unfolding ds(2) es(2)
      using elias.dkey_order [OF es(1) ds(1)] elias.dkey_order [OF placedD(2) [OF q es(3)] placedD(2) [OF q ds(3)]]
      by (simp add: elias.cat_def)
  qed
  have live: "rec_at t ds \<noteq> None \<longleftrightarrow> chain_in s ds" for ds unfolding t(3) chain_in_def ..
  have "r (?cat ds) = ?cat (q ds) \<and> positive (q ds)" if "chain_in s ds" for ds
  proof -
    have "positive ds" using that by (auto simp: chain_in_def)
    then have "r (?cat ds) = ?cat (q ds)" unfolding r_def decodeChain_cat [OF \<open>positive ds\<close>] by simp
    then show ?thesis using placedD(2) [OF q, of ds] that live by simp
  qed
  moreover have "levels (chain_in s) q" if "\<not> op_fuse opts"
    using placed_levels [OF q that] unfolding live .
  ultimately have d: "\<not> op_fuse opts \<longrightarrow> (\<exists>q. levels (chain_in s) q \<and>
       (\<forall>ds. chain_in s ds \<longrightarrow> r (?cat ds) = ?cat (q ds) \<and> positive (q ds)))" by blast
  show ?thesis
    by (rule exI [of _ ?root], rule exE [OF c], rule exI, rule exI [of _ r]) (use a b d in blast)
qed


text \<open>Recoding in order keeps the reading order.\<close>

lemma read_recoded:
  assumes "\<And>i rec j rec'. fmlookup s i = Some rec \<Longrightarrow> fmlookup s j = Some rec' \<Longrightarrow>
      (dkey (er_coord rec) < dkey (er_coord rec') \<longleftrightarrow> dkey (r (er_coord rec)) < dkey (r (er_coord rec')))"
  shows "emb_readEntries (fmmap_keys (\<lambda>i rec. rec\<lparr>er_coord := r (er_coord rec)\<rparr>) s) =
    map (\<lambda>(i, rec). (i, rec\<lparr>er_coord := r (er_coord rec)\<rparr>)) (emb_readEntries s)"
  unfolding emb_readEntries_def entries_fmmap
proof (rule sort_by_map)
  fix x y
  assume "x \<in> set (fm_entries s)" "y \<in> set (fm_entries s)"
  then have l: "fmlookup s (fst x) = Some (snd x)" "fmlookup s (fst y) = Some (snd y)"
    using fm_entries_iff [of "fst x" "snd x" s] fm_entries_iff [of "fst y" "snd y" s] by simp_all
  have "dkey (er_coord (snd x)) = dkey (er_coord (snd y)) \<longleftrightarrow> dkey (r (er_coord (snd x))) = dkey (r (er_coord (snd y)))"
    using assms [OF l] assms [OF l(2,1)] by (metis less_irrefl linorder_neqE)
  with assms [OF l(2,1)] show "emb_before (case x of (i, rec) \<Rightarrow> (i, rec\<lparr>er_coord := r (er_coord rec)\<rparr>))
      (case y of (i, rec) \<Rightarrow> (i, rec\<lparr>er_coord := r (er_coord rec)\<rparr>)) = emb_before x y"
    by (simp add: emb_before_def Let_def split_def)
qed

lemma symbolCount_sum: "symbolCount s = (\<Sum>x \<leftarrow> fm_entries s. length (er_coord (snd x)))"
  by (simp add: symbolCount_def split_def)

text \<open>C34: compaction does not change the document. On every state of coded coordinates and for every
  cut whose declared coordinates are codes, with or without fusion, compaction succeeds: the ids and
  elements read the same in the same order, no coordinate grows, the new coordinates are codes again,
  and lifting the old state through the returned translation gives exactly the compacted state.\<close>

theorem compaction_preserves_reading:
  assumes "coded s" and "codes (cc_inflight ct)" and "codes (cc_frozenAnchorCoords ct)"
  shows "\<exists>s' root st. compactEliasDelta s ct opts = Inr (s', root, st) \<and>
    emb_readIds s' = emb_readIds s \<and> emb_read s' = emb_read s \<and>
    (\<forall>i. case fmlookup s i of None \<Rightarrow> fmlookup s' i = None | Some rec \<Rightarrow>
       (case fmlookup s' i of None \<Rightarrow> False | Some rec' \<Rightarrow>
          er_el rec' = er_el rec \<and> length (er_coord rec') \<le> length (er_coord rec))) \<and>
    st_symbolsAfter st \<le> st_symbolsBefore st \<and> coded s' \<and> remapState s (translate root) = Inr s'"
proof -
  from compact_spec [OF assms, of opts] obtain root st r where
    c: "compactEliasDelta s ct opts = Inr (fmmap_keys (\<lambda>i rec. rec\<lparr>er_coord := r (er_coord rec)\<rparr>) s, root, st)"
      "st_symbolsBefore st = symbolCount s"
      "st_symbolsAfter st = symbolCount (fmmap_keys (\<lambda>i rec. rec\<lparr>er_coord := r (er_coord rec)\<rparr>) s)" and
    t: "\<And>i rec. fmlookup s i = Some rec \<Longrightarrow> translate root (er_coord rec) = Inr (r (er_coord rec))"
      "\<And>i rec. fmlookup s i = Some rec \<Longrightarrow> length (r (er_coord rec)) \<le> length (er_coord rec)"
      "\<And>i rec. fmlookup s i = Some rec \<Longrightarrow> \<exists>ds. positive ds \<and> r (er_coord rec) = concat (map dEnc ds)" and
    o: "\<And>i rec j rec'. fmlookup s i = Some rec \<Longrightarrow> fmlookup s j = Some rec' \<Longrightarrow>
       (dkey (er_coord rec) < dkey (er_coord rec') \<longleftrightarrow> dkey (r (er_coord rec)) < dkey (r (er_coord rec')))"
    by blast
  let ?s = "fmmap_keys (\<lambda>i rec. rec\<lparr>er_coord := r (er_coord rec)\<rparr>) s"
  have rd: "emb_readEntries ?s = map (\<lambda>(i, rec). (i, rec\<lparr>er_coord := r (er_coord rec)\<rparr>)) (emb_readEntries s)"
    by (rule read_recoded) (rule o)
  have "emb_readIds ?s = emb_readIds s" "emb_read ?s = emb_read s"
    unfolding emb_readIds_def emb_read_def rd by (auto simp: split_def)
  moreover have "symbolCount ?s \<le> symbolCount s"
    unfolding symbolCount_sum entries_fmmap map_map
    by (rule sum_list_mono) (auto simp: fm_entries_iff t(2))
  moreover have "coded ?s" using t(3) by (auto simp: coded_def)
  moreover have "remapState s (translate root) = Inr ?s"
    unfolding remapState_def
  proof (rule foldM_entries)
    fix i m and rec :: "'a erec"
    assume "fmlookup s i = Some rec"
    from t(1) [OF this] show "remap_record (translate root) (i, rec) m = Inr (fmupd i (rec\<lparr>er_coord := r (er_coord rec)\<rparr>) m)"
      by (cases rec) (simp add: remap_record_def)
  qed
  ultimately show ?thesis using c t(2) by (auto split: option.split)
qed

text \<open>The states of every run are coded.\<close>

lemma rep_coded: "emb_good U \<Longrightarrow> E \<subseteq> U \<Longrightarrow> emb_rep dEnc E s \<Longrightarrow> coded s"
proof -
  assume a: "emb_good U" "E \<subseteq> U" "emb_rep dEnc E s"
  have "\<exists>ds. positive ds \<and> er_coord r = concat (map dEnc ds)" if "fmlookup s i = Some r" for i r
  proof -
    have "born dEnc E i r" using emb_lookup(1) [OF a(3)] that by blast
    then obtain ds where ds: "chain E i ds" "er_coord r = concat (map dEnc ds)" by (auto simp: born_def)
    have "positive ds" using chain_shape [OF good_subset [OF a(1,2)]] ds(1) by blast
    with ds(2) show ?thesis by blast
  qed
  then show ?thesis by (auto simp: coded_def)
qed

lemma compaction_preserves_reading_witness:
  "\<exists>s' root st. compactEliasDelta (fmupd 9 \<lparr>er_coord = dEnc 9, er_el = True\<rparr> fmempty)
      \<lparr>cc_settledIds = [9], cc_inflight = [], cc_frozenAnchorCoords = []\<rparr> \<lparr>op_unguarded = False, op_fuse = False\<rparr> = Inr (s', root, st) \<and>
    emb_readIds s' = emb_readIds (fmupd 9 \<lparr>er_coord = dEnc 9, er_el = True\<rparr> fmempty)"
proof -
  have "coded (fmupd 9 \<lparr>er_coord = dEnc 9, er_el = True\<rparr> fmempty)"
    by (auto simp: coded_def intro!: exI [of _ "[9]"])
  from compaction_preserves_reading [OF this, of "\<lparr>cc_settledIds = [9], cc_inflight = [], cc_frozenAnchorCoords = []\<rparr>"
    "\<lparr>op_unguarded = False, op_fuse = False\<rparr>"] show ?thesis by (auto simp: codes_def)
qed

end
