(* ===== verification/EpochSound.thy ===== *)
theory EpochSound
  imports Epoch CompactSound
begin

text \<open>
  Lifting a compacted state down is exact: the inverse translation built from the two states undoes the
  renumbering of every record. The order of cuts is inclusion, a join is the least upper bound, and the
  chain of maps between two epochs is found exactly when one exists.
\<close>

section \<open>The inverse translation\<close>

abbreviation cat :: "nat list \<Rightarrow> nat list" where
  "cat ds \<equiv> concat (map dEnc ds)"

lemma codewordSegs_cat: "positive ds \<Longrightarrow> codewordSegs (cat ds) = Inr (map dEnc ds)"
proof (induction ds)
  case (Cons d ds)
  then show ?case using decodeOne_dEnc [of d "cat ds"] dEnc_nonempty [of d]
    by (subst codewordSegs.simps) simp
qed (simp add: codewordSegs.simps)

fun ipre_at :: "itree \<Rightarrow> nat list list \<Rightarrow> nat list option" where
  "ipre_at (INode pre ch) [] = Some pre"
| "ipre_at (INode pre ch) (seg # w) = (case map_of ch seg of None \<Rightarrow> None | Some c \<Rightarrow> ipre_at c w)"

lemma inv_insert_keeps: "ipre_at t w = Some v \<Longrightarrow> ipre_at (inv_insert segs pres t) w = Some v"
proof (induction segs pres t arbitrary: w rule: inv_insert.induct)
  case (2 seg segs preSegs pre ch)
  then show ?case by (cases w) (auto simp: update_conv' split: option.splits)
qed simp

lemma inv_insert_path: "ipre_at (inv_insert segs pres t) segs \<noteq> None"
proof (induction segs pres t rule: inv_insert.induct)
  case (1 preSegs t)
  then show ?case by (cases t) simp
next
  case (2 seg segs preSegs pre ch)
  then show ?case by (simp add: update_conv')
qed

lemma inv_insert_sound:
  assumes fn: "\<And>w v v'. F w v \<Longrightarrow> F w v' \<Longrightarrow> v = v'"
  shows "length qs = length ds \<Longrightarrow> (\<And>w v. ipre_at t w = Some v \<Longrightarrow> F (u @ w) v) \<Longrightarrow>
    (\<And>n. n \<le> length ds \<Longrightarrow> F (u @ map dEnc (take n qs)) (base @ cat (take n ds))) \<Longrightarrow>
    ipre_at (inv_insert (map dEnc qs) (map dEnc ds) t) w = Some v \<Longrightarrow> F (u @ w) v"
proof (induction qs ds arbitrary: t u base w v rule: list_induct2)
  case Nil
  then show ?case by simp
next
  case (Cons e qs d ds)
  obtain pre ch where t: "t = INode pre ch" by (cases t)
  have root: "F u pre" using Cons.prems(1) [of "[]" pre] t by simp
  have base: "base = pre" using fn [OF root, of base] Cons.prems(2) [of 0] by simp
  define c where "c = (case map_of ch (dEnc e) of Some c \<Rightarrow> c | None \<Rightarrow> INode (pre @ dEnc d) [])"
  show ?case
  proof (cases w)
    case Nil
    then show ?thesis using Cons.prems(3) root t by simp
  next
    case w: (Cons seg w')
    show ?thesis
    proof (cases "seg = dEnc e")
      case False
      then have "ipre_at t w = Some v" using Cons.prems(3) t w by (simp add: update_conv')
      then show ?thesis using Cons.prems(1) by blast
    next
      case True
      have "F ((u @ [dEnc e]) @ w') v"
      proof (rule Cons.IH [of c "u @ [dEnc e]" "base @ dEnc d"])
        fix w2 v2
        assume a: "ipre_at c w2 = Some v2"
        show "F ((u @ [dEnc e]) @ w2) v2"
        proof (cases "map_of ch (dEnc e)")
          case None
          then have "w2 = []" "v2 = pre @ dEnc d" using a by (cases w2; simp add: c_def)+
          then show ?thesis using Cons.prems(2) [of 1] base by simp
        next
          case (Some x)
          then have "ipre_at t (dEnc e # w2) = Some v2" using a by (simp add: c_def t)
          then show ?thesis using Cons.prems(1) [of "dEnc e # w2" v2] by simp
        qed
      next
        fix n
        assume "n \<le> length ds"
        then show "F ((u @ [dEnc e]) @ map dEnc (take n qs)) ((base @ dEnc d) @ cat (take n ds))"
          using Cons.prems(2) [of "Suc n"] by simp
      next
        show "ipre_at (inv_insert (map dEnc qs) (map dEnc ds) c) w' = Some v"
          using Cons.prems(3) t w True by (cases "map_of ch (dEnc e)") (simp_all add: update_conv' c_def)
      qed
      then show ?thesis using w True by simp
    qed
  qed
qed

lemma dEnc_map_inject: "positive ds \<Longrightarrow> positive es \<Longrightarrow> map dEnc ds = map dEnc es \<Longrightarrow> ds = es"
  using elias.cat_inj [of ds es] by (simp add: elias.cat_def)

lemma inverse_at:
  "ipre_at t (map dEnc es) = Some v \<Longrightarrow> positive es \<Longrightarrow> inverse_translate t (cat es) = Inr v"
proof (induction es arbitrary: t)
  case Nil
  then show ?case by (cases t) (simp add: inverse_translate.simps)
next
  case (Cons e es)
  obtain pre ch where t: "t = INode pre ch" by (cases t)
  with Cons.prems obtain c where "map_of ch (dEnc e) = Some c" "ipre_at c (map dEnc es) = Some v"
    by (auto split: option.splits)
  then show ?case using Cons decodeOne_dEnc [of e "cat es"] dEnc_nonempty [of e] t
    by (subst inverse_translate.simps) simp
qed

lemma inverse_exact:
  fixes s :: "'e emb"
  assumes coded: "coded s" and lv: "levels (chain_in s) q"
    and new: "\<And>ds. chain_in s ds \<Longrightarrow> r (cat ds) = cat (q ds) \<and> positive (q ds)"
  shows "\<exists>inv. buildInverseTranslate s (fmmap_keys (\<lambda>i rec. rec\<lparr>er_coord := r (er_coord rec)\<rparr>) s) = Inr inv \<and>
    (\<forall>i rec. fmlookup s i = Some rec \<longrightarrow> inverse_translate inv (r (er_coord rec)) = Inr (er_coord rec))"
proof -
  define F where "F w v \<longleftrightarrow> (\<exists>ds n. chain_in s ds \<and> n \<le> length ds \<and> w = map dEnc (take n (q ds)) \<and> v = cat (take n ds))"
    for w v
  have fn: "v = v'" if "F w v" "F w v'" for w v v'
  proof -
    from that(1) obtain ds n where a: "chain_in s ds" "n \<le> length ds" "w = map dEnc (take n (q ds))" "v = cat (take n ds)"
      unfolding F_def by blast
    from that(2) obtain es m where b: "chain_in s es" "m \<le> length es" "w = map dEnc (take m (q es))" "v' = cat (take m es)"
      unfolding F_def by blast
    have "take n (q ds) = take m (q es)"
      by (rule dEnc_map_inject) (use a b new positive_take in auto)
    moreover from this have "n = m"
      using levelsD(1) [OF lv a(1)] levelsD(1) [OF lv b(1)] a(2) b(2) by (metis length_take min.absorb2)
    ultimately have "take n ds = take n es" using levelsD(2) [OF lv a(1) b(1)] a(2) b(2) by blast
    then show ?thesis using a(4) b(4) \<open>n = m\<close> by simp
  qed
  have chain: "\<exists>ds. chain_in s ds \<and> er_coord rec = cat ds \<and> positive ds" if "fmlookup s i = Some rec" for i rec
    using coded that unfolding coded_def chain_in_def by blast
  let ?g = "\<lambda>i rec. rec\<lparr>er_coord := r (er_coord rec)\<rparr> :: 'e erec"
  have step: "\<exists>t'. inv_step s (i, ?g i rec) t = Inr t' \<and> (\<forall>w v. ipre_at t' w = Some v \<longrightarrow> F w v) \<and>
      (\<forall>w v. ipre_at t w = Some v \<longrightarrow> ipre_at t' w = Some v) \<and>
      (\<forall>ds. chain_in s ds \<and> er_coord rec = cat ds \<longrightarrow> ipre_at t' (map dEnc (q ds)) \<noteq> None)"
    if l: "fmlookup s i = Some rec" and t: "\<forall>w v. ipre_at t w = Some v \<longrightarrow> F w v" for i rec t
  proof -
    obtain ds where ds: "chain_in s ds" "er_coord rec = cat ds" "positive ds" using chain [OF l] by blast
    note n = new [OF ds(1)]
    let ?t = "inv_insert (map dEnc (q ds)) (map dEnc ds) t"
    have "inv_step s (i, ?g i rec) t = Inr ?t"
      using l ds(2,3) n codewordSegs_cat [OF ds(3)] codewordSegs_cat [of "q ds"] by (simp add: inv_step_def)
    moreover have "F w v" if "ipre_at ?t w = Some v" for w v
    proof -
      have "F ([] @ w) v"
        by (rule inv_insert_sound [where F = F and base = "[]", OF fn])
           (use that t ds(1) levelsD(1) [OF lv ds(1)] in \<open>auto simp: F_def\<close>)
      then show ?thesis by simp
    qed
    moreover have "es = ds" if "chain_in s es" "er_coord rec = cat es" for es
      using that ds(2,3) elias.cat_inj [of es ds] unfolding elias.cat_def chain_in_def by metis
    ultimately show ?thesis using inv_insert_keeps inv_insert_path [of "map dEnc (q ds)" "map dEnc ds" t] by blast
  qed
  have all: "\<exists>t'. foldM (inv_step s) (map (\<lambda>(i, rec). (i, ?g i rec)) xs) t = Inr t' \<and>
      (\<forall>w v. ipre_at t' w = Some v \<longrightarrow> F w v) \<and> (\<forall>w v. ipre_at t w = Some v \<longrightarrow> ipre_at t' w = Some v) \<and>
      (\<forall>x \<in> set xs. \<forall>ds. chain_in s ds \<and> er_coord (snd x) = cat ds \<longrightarrow> ipre_at t' (map dEnc (q ds)) \<noteq> None)"
    if "\<forall>x \<in> set xs. fmlookup s (fst x) = Some (snd x)" and "\<forall>w v. ipre_at t w = Some v \<longrightarrow> F w v" for xs t
    using that
  proof (induction xs arbitrary: t)
    case (Cons x xs)
    obtain i rec where x: "x = (i, rec)" by force
    obtain t1 where t1: "inv_step s (i, ?g i rec) t = Inr t1" "\<forall>w v. ipre_at t1 w = Some v \<longrightarrow> F w v"
      "\<forall>w v. ipre_at t w = Some v \<longrightarrow> ipre_at t1 w = Some v"
      "\<forall>ds. chain_in s ds \<and> er_coord rec = cat ds \<longrightarrow> ipre_at t1 (map dEnc (q ds)) \<noteq> None"
      using step [of i rec t] Cons.prems x by auto
    obtain t2 where t2: "foldM (inv_step s) (map (\<lambda>(i, rec). (i, ?g i rec)) xs) t1 = Inr t2"
      "\<forall>w v. ipre_at t2 w = Some v \<longrightarrow> F w v" "\<forall>w v. ipre_at t1 w = Some v \<longrightarrow> ipre_at t2 w = Some v"
      "\<forall>x \<in> set xs. \<forall>ds. chain_in s ds \<and> er_coord (snd x) = cat ds \<longrightarrow> ipre_at t2 (map dEnc (q ds)) \<noteq> None"
      using Cons.IH [OF _ t1(2)] Cons.prems(1) by auto
    have "ipre_at t2 (map dEnc (q ds)) \<noteq> None" if "chain_in s ds" "er_coord rec = cat ds" for ds
      using t1(4) t2(3) that by (metis not_None_eq)
    then show ?case using t1 t2 x by (intro exI [of _ t2]) auto
  qed simp
  have "\<forall>w v. ipre_at (INode [] []) w = Some v \<longrightarrow> F w v" if "chain_in s es" for es
  proof (intro allI impI)
    fix w v
    assume "ipre_at (INode [] []) w = Some v"
    then have "w = [] \<and> v = []" by (cases w) auto
    then show "F w v" using that unfolding F_def by (intro exI [of _ es] exI [of _ 0]) simp
  qed
  note start = this
  show ?thesis
  proof (cases "fm_entries s")
    case Nil
    then have "fmlookup s i = None" for i
      using fm_entries_iff [of i _ s] by (metis list.set(1) empty_iff not_None_eq)
    then show ?thesis by (simp add: buildInverseTranslate_def entries_fmmap Nil)
  next
    case (Cons x xs)
    then have "fmlookup s (fst x) = Some (snd x)" using fm_entries_iff [of "fst x" "snd x" s] by simp
    then obtain es where "chain_in s es" using chain by blast
    have m: "\<forall>x \<in> set (fm_entries s). fmlookup s (fst x) = Some (snd x)" by (auto simp: fm_entries_iff)
    from all [OF m start [OF \<open>chain_in s es\<close>]] obtain t' where t':
      "buildInverseTranslate s (fmmap_keys ?g s) = Inr t'" "\<forall>w v. ipre_at t' w = Some v \<longrightarrow> F w v"
      "\<forall>x \<in> set (fm_entries s). \<forall>ds. chain_in s ds \<and> er_coord (snd x) = cat ds \<longrightarrow> ipre_at t' (map dEnc (q ds)) \<noteq> None"
      unfolding buildInverseTranslate_def entries_fmmap by blast
    have "inverse_translate t' (r (er_coord rec)) = Inr (er_coord rec)" if l: "fmlookup s i = Some rec" for i rec
    proof -
      obtain ds where ds: "chain_in s ds" "er_coord rec = cat ds" using chain [OF l] by blast
      have "(i, rec) \<in> set (fm_entries s)" using l by (simp add: fm_entries_iff)
      then obtain v where v: "ipre_at t' (map dEnc (q ds)) = Some v" using t'(3) ds by fastforce
      have "F (map dEnc (q ds)) (cat ds)"
        using ds(1) levelsD(1) [OF lv ds(1)] unfolding F_def by (intro exI [of _ ds] exI [of _ "length ds"]) simp
      then have "v = cat ds" using fn t'(2) v by blast
      then show ?thesis using inverse_at [OF v] new [OF ds(1)] ds(2) by simp
    qed
    then show ?thesis using t'(1) by blast
  qed
qed

text \<open>C35: lifting a compacted state down is exact. On every state of coded coordinates and for every
  cut whose declared coordinates are codes, compaction without fusion succeeds, the inverse
  translation is built from the two states, and remapping the compacted state by it gives back the old
  state record for record.\<close>

theorem lift_down_exact:
  assumes "coded s" and "codes (cc_inflight ct)" and "codes (cc_frozenAnchorCoords ct)" and "\<not> op_fuse opts"
  shows "\<exists>s' root st inv. compactEliasDelta s ct opts = Inr (s', root, st) \<and>
    buildInverseTranslate s s' = Inr inv \<and> remapState s' (inverse_translate inv) = Inr s"
proof -
  from compact_spec [OF assms(1-3), of opts] assms(4) obtain root st r q where
    c: "compactEliasDelta s ct opts = Inr (fmmap_keys (\<lambda>i rec. rec\<lparr>er_coord := r (er_coord rec)\<rparr>) s, root, st)" and
    q: "levels (chain_in s) q" "\<And>ds. chain_in s ds \<Longrightarrow> r (cat ds) = cat (q ds) \<and> positive (q ds)"
    by blast
  let ?s = "fmmap_keys (\<lambda>i rec. rec\<lparr>er_coord := r (er_coord rec)\<rparr>) s"
  from inverse_exact [OF assms(1) q(1), of r] q(2) obtain inv where inv: "buildInverseTranslate s ?s = Inr inv"
    "\<And>i rec. fmlookup s i = Some rec \<Longrightarrow> inverse_translate inv (r (er_coord rec)) = Inr (er_coord rec)" by blast
  define undo where "undo i (rec :: 'a erec) = (case fmlookup s i of Some r0 \<Rightarrow> rec\<lparr>er_coord := er_coord r0\<rparr> | None \<Rightarrow> rec)" for i rec
  have "remapState ?s (inverse_translate inv) = Inr (fmmap_keys undo ?s)"
    unfolding remapState_def
  proof (rule foldM_entries)
    fix i m and rec' :: "'a erec"
    assume "fmlookup ?s i = Some rec'"
    then obtain rec where l: "fmlookup s i = Some rec" "rec' = rec\<lparr>er_coord := r (er_coord rec)\<rparr>" by auto
    from inv(2) [OF l(1)] show "remap_record (inverse_translate inv) (i, rec') m = Inr (fmupd i (undo i rec') m)"
      by (cases rec) (simp add: remap_record_def undo_def l)
  qed
  moreover have "fmmap_keys undo ?s = s"
  proof (rule fmap_ext)
    fix i
    show "fmlookup (fmmap_keys undo ?s) i = fmlookup s i"
      by (cases "fmlookup s i") (simp_all add: undo_def)
  qed
  ultimately show ?thesis using c inv(1) by auto
qed

lemma lift_down_exact_witness:
  "\<exists>s' root st inv. compactEliasDelta (fmupd 9 \<lparr>er_coord = dEnc 4 @ dEnc 5, er_el = True\<rparr> fmempty)
      \<lparr>cc_settledIds = [9], cc_inflight = [dEnc 4 @ dEnc 7], cc_frozenAnchorCoords = []\<rparr>
      \<lparr>op_unguarded = False, op_fuse = False\<rparr> = Inr (s', root, st) \<and>
    buildInverseTranslate (fmupd 9 \<lparr>er_coord = dEnc 4 @ dEnc 5, er_el = True\<rparr> fmempty) s' = Inr inv \<and>
    remapState s' (inverse_translate inv) = Inr (fmupd 9 \<lparr>er_coord = dEnc 4 @ dEnc 5, er_el = True\<rparr> fmempty)"
proof (rule lift_down_exact)
  show "coded (fmupd 9 \<lparr>er_coord = dEnc 4 @ dEnc 5, er_el = True\<rparr> fmempty)"
    by (auto simp: coded_def intro!: exI [of _ "[4, 5]"])
  show "codes (cc_inflight \<lparr>cc_settledIds = [9], cc_inflight = [dEnc 4 @ dEnc 7], cc_frozenAnchorCoords = []\<rparr>)"
    by (auto simp: codes_def intro!: exI [of _ "[4, 7]"])
qed (simp_all add: codes_def)

section \<open>The epoch graph\<close>

text \<open>Every node is filed under its key, its parents are registered, and depth grows along the edges.\<close>

definition epoch_wf :: "('c, 'x) epochs \<Rightarrow> bool" where
  "epoch_wf ep \<longleftrightarrow> distinct (map fst ep) \<and> (\<forall>k n. map_of ep k = Some n \<longrightarrow> distinct (en_settledIds n) \<and>
     (\<forall>p \<in> set (en_parents n). \<exists>m. map_of ep p = Some m \<and> en_num m < en_num n))"

lemma epoch_dag_wf: "epoch_wf epoch_dag"
  by (simp add: epoch_wf_def epoch_dag_def)

text \<open>Filing a node under a new key, or in place of one of the same depth.\<close>

lemma epoch_add_wf:
  assumes wf: "epoch_wf ep" and new: "\<And>n0. map_of ep key = Some n0 \<Longrightarrow> en_num n0 = en_num n" and d: "distinct (en_settledIds n)"
    and p: "\<forall>p \<in> set (en_parents n). \<exists>m. map_of ep p = Some m \<and> en_num m < en_num n"
  shows "epoch_wf (AList.update key n ep)"
proof -
  have old: "\<exists>m'. map_of (AList.update key n ep) p = Some m' \<and> en_num m' < b"
    if "map_of ep p = Some m" "en_num m < b" for p m b
    using that new by (auto simp: update_conv')
  show ?thesis unfolding epoch_wf_def
  proof (intro conjI allI impI ballI)
    show "distinct (map fst (AList.update key n ep))" using wf by (simp add: epoch_wf_def distinct_update)
  next
    fix k x
    assume x: "map_of (AList.update key n ep) k = Some x"
    then have k: "k = key \<and> x = n \<or> map_of ep k = Some x" by (auto simp: update_conv' split: if_splits)
    then show "distinct (en_settledIds x)" using wf d by (auto simp: epoch_wf_def)
    fix q
    assume "q \<in> set (en_parents x)"
    then show "\<exists>m. map_of (AList.update key n ep) q = Some m \<and> en_num m < en_num x"
      using k wf p old unfolding epoch_wf_def by metis
  qed
qed

lemma ep_compaction_wf:
  assumes wf: "epoch_wf ep" and p: "ep_has ep parentKey"
  shows "epoch_wf (ep_compaction key ids ct tr trInv parentKey ep)"
proof (cases "map_of ep key")
  case None
  with p show ?thesis unfolding ep_compaction_def
    by (auto simp: ep_has_def intro!: epoch_add_wf [OF wf] split: option.split)
next
  case (Some n)
  have n: "distinct (en_settledIds n)" "\<forall>p \<in> set (en_parents n). \<exists>m. map_of ep p = Some m \<and> en_num m < en_num n"
    using wf Some unfolding epoch_wf_def by blast+
  have "epoch_wf (AList.update key (n\<lparr>en_translate := or_else (en_translate n) tr,
      en_translateInv := or_else (en_translateInv n) trInv, en_cut := or_else (en_cut n) ct\<rparr>) ep)"
    by (rule epoch_add_wf [OF wf]) (simp_all add: Some n)
  then show ?thesis by (simp add: ep_compaction_def Some)
qed

lemma ep_join_wf:
  assumes wf: "epoch_wf ep" and j: "ep_join U V ep = Inr (key, ep')"
  shows "epoch_wf ep'"
proof -
  from j obtain u v where u: "map_of ep U = Some u" "map_of ep V = Some v"
    by (auto simp: ep_join_def ep_node_def rbind_eq_Inr split: option.splits)
  let ?s = "js_add_all (en_settledIds v) (en_settledIds u)"
  have "distinct ?s" using wf u unfolding epoch_wf_def by simp
  then have "epoch_wf (AList.update (cutKey ?s) \<lparr>en_key = cutKey ?s, en_num = max (en_num u) (en_num v) + 1, en_settledIds = ?s,
         en_cut = None, en_translate = None, en_translateInv = None, en_parents = [U, V], en_mapDropped = False\<rparr> ep)"
    if "map_of ep (cutKey ?s) = None"
    using u that by (intro epoch_add_wf [OF wf]) auto
  then show ?thesis using j u wf
    by (auto simp: ep_join_def ep_node_def Let_def ep_has_def split: if_splits)
qed

text \<open>A linear chain of epochs whose maps are all kept.\<close>

inductive linear_chain :: "('c, 'x) epochs \<Rightarrow> string \<Rightarrow> string \<Rightarrow> 'x list \<Rightarrow> bool" for ep from_key where
  here: "linear_chain ep from_key from_key []"
| up: "linear_chain ep from_key p maps \<Longrightarrow> map_of ep k = Some n \<Longrightarrow> en_parents n = [p] \<Longrightarrow>
    en_translate n = Some tr \<Longrightarrow> \<not> en_mapDropped n \<Longrightarrow> k \<noteq> from_key \<Longrightarrow> linear_chain ep from_key k (maps @ [tr])"

inductive_cases linear_chain_cases: "linear_chain ep from_key k maps"

definition epoch_rank :: "('c, 'x) epochs \<Rightarrow> string \<Rightarrow> nat" where
  "epoch_rank ep k = (case map_of ep k of None \<Rightarrow> 0
     | Some n \<Rightarrow> card {p. \<exists>m. map_of ep p = Some m \<and> en_num m < en_num n})"

lemma epoch_rank_bound: "epoch_rank ep k \<le> length ep"
proof -
  have "{p. \<exists>m. map_of ep p = Some m \<and> en_num m < b} \<subseteq> fst ` set ep" for b
    by (force dest: map_of_SomeD)
  then have "card {p. \<exists>m. map_of ep p = Some m \<and> en_num m < b} \<le> card (fst ` set ep)" for b
    by (intro card_mono) auto
  also have "card (fst ` set ep) \<le> length ep" by (metis card_image_le card_length finite_set le_trans)
  finally show ?thesis by (simp add: epoch_rank_def split: option.split)
qed

lemma epoch_rank_parent:
  assumes "epoch_wf ep" and "map_of ep k = Some n" and "p \<in> set (en_parents n)"
  shows "epoch_rank ep p < epoch_rank ep k"
proof -
  obtain m where m: "map_of ep p = Some m" "en_num m < en_num n" using assms unfolding epoch_wf_def by blast
  have "{q. \<exists>x. map_of ep q = Some x \<and> en_num x < en_num m} \<subset> {q. \<exists>x. map_of ep q = Some x \<and> en_num x < en_num n}"
    (is "?L \<subset> ?R")
  proof (rule psubsetI)
    show "?L \<subseteq> ?R" using m(2) order.strict_trans by blast
    have "p \<in> ?R" "p \<notin> ?L" using m by simp_all
    then show "?L \<noteq> ?R" by blast
  qed
  moreover have "finite {q. \<exists>x. map_of ep q = Some x \<and> en_num x < en_num n}"
    by (rule finite_subset [of _ "fst ` set ep"]) (force dest: map_of_SomeD)+
  ultimately show ?thesis using m(1) assms(2) by (simp add: epoch_rank_def psubset_card_mono)
qed

lemma lift_loop_spec:
  assumes wf: "epoch_wf ep"
  shows "epoch_rank ep k < f \<Longrightarrow> \<exists>r. lift_loop f ep from_key k acc = Inr r \<and>
    (\<forall>ms. r = Some ms \<longleftrightarrow> (\<exists>maps. linear_chain ep from_key k maps \<and> ms = maps @ rev acc))"
proof (induction f arbitrary: k acc)
  case (Suc f)
  show ?case
  proof (cases "k = from_key")
    case True
    then have "linear_chain ep from_key k maps \<longleftrightarrow> maps = []" for maps
      by (auto intro: linear_chain.intros elim: linear_chain_cases)
    with True show ?thesis by auto
  next
    case False
    have step: "linear_chain ep from_key k maps \<longleftrightarrow> (\<exists>p maps' n tr. linear_chain ep from_key p maps' \<and>
        map_of ep k = Some n \<and> en_parents n = [p] \<and> en_translate n = Some tr \<and> \<not> en_mapDropped n \<and> maps = maps' @ [tr])" for maps
      using False by (auto intro: linear_chain.intros elim: linear_chain_cases)
    show ?thesis
    proof (cases "\<exists>n p tr. map_of ep k = Some n \<and> en_parents n = [p] \<and> en_translate n = Some tr \<and> \<not> en_mapDropped n")
      case True
      then obtain n p tr where n: "map_of ep k = Some n" "en_parents n = [p]" "en_translate n = Some tr" "\<not> en_mapDropped n" by blast
      have "epoch_rank ep p < f" using epoch_rank_parent [OF wf n(1), of p] n(2) Suc.prems by simp
      from Suc.IH [OF this, of "acc @ [tr]"] obtain r where
        r: "lift_loop f ep from_key p (acc @ [tr]) = Inr r"
          "\<And>ms. r = Some ms \<longleftrightarrow> (\<exists>maps. linear_chain ep from_key p maps \<and> ms = maps @ rev (acc @ [tr]))" by blast
      have "(\<exists>maps. linear_chain ep from_key k maps \<and> ms = maps @ rev acc) \<longleftrightarrow>
          (\<exists>maps. linear_chain ep from_key p maps \<and> ms = maps @ rev (acc @ [tr]))" for ms
        unfolding step using n by auto
      then show ?thesis using r n False by auto
    next
      case no: False
      then have "\<not> linear_chain ep from_key k maps" for maps unfolding step by blast
      moreover have "lift_loop (Suc f) ep from_key k acc = Inr None"
        using False no by (auto split: option.splits list.splits)
      ultimately show ?thesis by simp
    qed
  qed
qed simp

text \<open>C36: the chain of maps between two epochs is found exactly when it exists, and looking for it always
  ends. In every well-formed epoch graph \<open>liftChain\<close> returns; it returns maps exactly for a linear chain of
  epochs whose maps are all kept, and then those maps in the order in which they have to be applied.\<close>

theorem liftChain_total:
  assumes "epoch_wf ep"
  shows "\<exists>r. ep_liftChain ep fromKey toKey = Inr r \<and> (\<forall>ms. r = Some ms \<longleftrightarrow> linear_chain ep fromKey toKey ms)"
proof (cases "fromKey = toKey")
  case True
  then have "linear_chain ep fromKey toKey ms \<longleftrightarrow> ms = []" for ms
    by (auto intro: linear_chain.intros elim: linear_chain_cases)
  with True show ?thesis by (auto simp: ep_liftChain_def)
next
  case False
  have "epoch_rank ep toKey < length ep + 1" using epoch_rank_bound [of ep toKey] by simp
  from lift_loop_spec [OF assms this, of fromKey "[]"] False show ?thesis by (auto simp: ep_liftChain_def)
qed

lemma liftChain_total_witness:
  "\<exists>r. ep_liftChain (ep_compaction ''b'' [1, 2] None (Some 8) None ''a''
      (ep_compaction ''a'' [1] None (Some (7 :: nat)) None EPOCH0 (epoch_dag :: (unit, nat) epochs))) EPOCH0 ''b'' = Inr r \<and>
    (\<forall>ms. r = Some ms \<longleftrightarrow> linear_chain (ep_compaction ''b'' [1, 2] None (Some 8) None ''a''
      (ep_compaction ''a'' [1] None (Some (7 :: nat)) None EPOCH0 (epoch_dag :: (unit, nat) epochs))) EPOCH0 ''b'' ms)"
  by (rule liftChain_total, rule ep_compaction_wf, rule ep_compaction_wf, rule epoch_dag_wf)
     (simp_all add: ep_has_def epoch_dag_def EPOCH0_def ep_compaction_def)

section \<open>The order of cuts\<close>

definition cut_set :: "('c, 'x) epochs \<Rightarrow> string \<Rightarrow> int set" where
  "cut_set ep k = (case map_of ep k of None \<Rightarrow> {} | Some n \<Rightarrow> set (en_settledIds n))"

lemma ep_subcut_inclusion:
  assumes wf: "epoch_wf ep" and "ep_has ep a" and "ep_has ep b"
  shows "ep_subcut ep a b = Inr (cut_set ep a \<subseteq> cut_set ep b)"
proof -
  from assms(2,3) obtain na nb where n: "map_of ep a = Some na" "map_of ep b = Some nb" by (auto simp: ep_has_def)
  then have d: "distinct (en_settledIds na)" "distinct (en_settledIds nb)" using wf unfolding epoch_wf_def by blast+
  have "length (en_settledIds na) \<le> length (en_settledIds nb)" if "set (en_settledIds na) \<subseteq> set (en_settledIds nb)"
    using card_mono [OF _ that] d by (simp add: distinct_card)
  then show ?thesis using n by (auto simp: ep_subcut_def ep_node_def cut_set_def list_all_iff)
qed

lemma ep_compare_inclusion:
  assumes "epoch_wf ep" and "ep_has ep a" and "ep_has ep b"
  shows "ep_compare ep a b = Inr (if cut_set ep a = cut_set ep b then VEq else if cut_set ep a \<subset> cut_set ep b then VSub
     else if cut_set ep b \<subset> cut_set ep a then VSup else VDivergent)"
  using ep_subcut_inclusion [OF assms(1,2,3)] ep_subcut_inclusion [OF assms(1,3,2)] by (auto simp: ep_compare_def)

lemma cut_set_update: "cut_set (AList.update key n ep) k = (if k = key then set (en_settledIds n) else cut_set ep k)"
  by (simp add: cut_set_def update_conv')

text \<open>C37: the cuts are ordered by inclusion, and the join of two epochs is their least upper bound. In a
  well-formed epoch graph, joining two of its epochs under a key that is new succeeds and keeps the graph
  well formed; the joined epoch holds the union of the two cuts, lies above both, is contained in every
  epoch that contains both, leaves the other cuts as they are, and is deeper than both parents.\<close>

theorem join_least_upper_bound:
  assumes wf: "epoch_wf ep" and a: "ep_has ep a" and b: "ep_has ep b"
    and new: "\<forall>key ep'. ep_join a b ep = Inr (key, ep') \<longrightarrow> \<not> ep_has ep key"
  shows "\<exists>key ep'. ep_join a b ep = Inr (key, ep') \<and> epoch_wf ep' \<and>
    cut_set ep' key = cut_set ep a \<union> cut_set ep b \<and>
    ep_subcut ep' a key = Inr True \<and> ep_subcut ep' b key = Inr True \<and>
    (\<forall>c. ep_has ep c \<longrightarrow> cut_set ep' c = cut_set ep c \<and>
      ep_subcut ep' key c = Inr (cut_set ep a \<subseteq> cut_set ep c \<and> cut_set ep b \<subseteq> cut_set ep c)) \<and>
    (\<exists>na nb n. ep_get ep' a = Some na \<and> ep_get ep' b = Some nb \<and> ep_get ep' key = Some n \<and>
      en_num na < en_num n \<and> en_num nb < en_num n \<and> en_parents n = [a, b])"
proof -
  from a b obtain na nb where n: "map_of ep a = Some na" "map_of ep b = Some nb" by (auto simp: ep_has_def)
  define s where "s = js_add_all (en_settledIds nb) (en_settledIds na)"
  have s: "set s = cut_set ep a \<union> cut_set ep b" using n by (auto simp: s_def cut_set_def)
  define x :: "('a, 'b) enode" where "x = \<lparr>en_key = cutKey s, en_num = max (en_num na) (en_num nb) + 1, en_settledIds = s,
    en_cut = None, en_translate = None, en_translateInv = None, en_parents = [a, b], en_mapDropped = False\<rparr>"
  let ?ep = "AList.update (cutKey s) x ep"
  have j0: "ep_join a b ep = Inr (cutKey s, if ep_has ep (cutKey s) then ep else ?ep)"
    using n by (simp add: ep_join_def ep_node_def s_def x_def Let_def)
  with new have fresh: "\<not> ep_has ep (cutKey s)" by blast
  with j0 have j: "ep_join a b ep = Inr (cutKey s, ?ep)" by simp
  note wf' = ep_join_wf [OF wf j]
  have ne: "c \<noteq> cutKey s" if "ep_has ep c" for c using that fresh by blast
  have has: "ep_has ?ep c" if "ep_has ep c \<or> c = cutKey s" for c
    using that by (auto simp: ep_has_def update_conv')
  have cuts: "cut_set ?ep (cutKey s) = cut_set ep a \<union> cut_set ep b" "\<And>c. ep_has ep c \<Longrightarrow> cut_set ?ep c = cut_set ep c"
    using ne s by (simp_all add: cut_set_update x_def)
  have sub: "ep_subcut ?ep c d = Inr (cut_set ?ep c \<subseteq> cut_set ?ep d)" if "ep_has ep c \<or> c = cutKey s" "ep_has ep d \<or> d = cutKey s" for c d
    using ep_subcut_inclusion [OF wf'] has that by blast
  have get: "ep_get ?ep a = Some na" "ep_get ?ep b = Some nb" "ep_get ?ep (cutKey s) = Some x"
    using n ne [OF a] ne [OF b] by (simp_all add: ep_get_def update_conv')
  show ?thesis
  proof (intro exI [of _ "cutKey s"] exI [of _ ?ep] conjI allI impI)
    show "\<exists>na nb n. ep_get ?ep a = Some na \<and> ep_get ?ep b = Some nb \<and> ep_get ?ep (cutKey s) = Some n \<and>
      en_num na < en_num n \<and> en_num nb < en_num n \<and> en_parents n = [a, b]"
      using get by (auto simp: x_def)
  qed (use j wf' cuts sub a b in auto)
qed

definition two_cuts :: "(unit, unit) epochs" where
  "two_cuts = ep_compaction ''b'' [2, 3] None None None EPOCH0 (ep_compaction ''a'' [1, 2] None None None EPOCH0 epoch_dag)"

lemma join_least_upper_bound_witness:
  "\<exists>key ep'. ep_join ''a'' ''b'' two_cuts = Inr (key, ep') \<and> cut_set ep' key = {1, 2, 3}"
proof -
  have wf: "epoch_wf two_cuts" unfolding two_cuts_def
    by (rule ep_compaction_wf, rule ep_compaction_wf, rule epoch_dag_wf)
       (simp_all add: ep_has_def epoch_dag_def EPOCH0_def ep_compaction_def)
  have e: "map_of two_cuts ''a'' \<noteq> None" "map_of two_cuts ''b'' \<noteq> None"
    "cut_set two_cuts ''a'' = {1, 2}" "cut_set two_cuts ''b'' = {2, 3}"
    by (simp_all add: two_cuts_def cut_set_def ep_compaction_def epoch_dag_def EPOCH0_def)
  have "(case ep_join ''a'' ''b'' two_cuts of Inl _ \<Rightarrow> False | Inr r \<Rightarrow> \<not> ep_has two_cuts (fst r))"
    by code_simp
  then have k: "\<forall>key ep'. ep_join ''a'' ''b'' two_cuts = Inr (key, ep') \<longrightarrow> \<not> ep_has two_cuts key"
    by auto
  from join_least_upper_bound [OF wf _ _ k] e show ?thesis by (auto simp: ep_has_def)
qed

end
