(* ===== verification/Effects.thy ===== *)
theory Effects
  imports Prelude
begin

text \<open>
  Methods that change an object and may throw. An action maps the state of the object to its result
  and the state it leaves, also when it throws: what was changed before the exception stays changed.
  \<open>ensures P m Q E\<close> is the triple for such an action, with one condition for a normal return and one
  for an exception; one rule per way of building an action carries the invariants of the objects.
\<close>

named_theorems act_rules \<open>triples of actions\<close>

type_synonym ('st, 'a) act = "'st \<Rightarrow> 'a res \<times> 'st"

definition abind :: "('st, 'a) act \<Rightarrow> ('a \<Rightarrow> ('st, 'b) act) \<Rightarrow> ('st, 'b) act" where
  "abind m f s = (case m s of (Inl e, s') \<Rightarrow> (Inl e, s') | (Inr x, s') \<Rightarrow> f x s')"

definition aret :: "'a \<Rightarrow> ('st, 'a) act" where
  "aret x s = (Inr x, s)"

definition afail :: "js_error \<Rightarrow> ('st, 'a) act" where
  "afail e s = (Inl e, s)"

text \<open>An expression over the fields that changes none of them.\<close>

definition aget :: "('st \<Rightarrow> 'a res) \<Rightarrow> ('st, 'a) act" where
  "aget f s = (f s, s)"

text \<open>Assignments that cannot throw.\<close>

definition amod :: "('st \<Rightarrow> 'st) \<Rightarrow> ('st, unit) act" where
  "amod f s = (Inr (), f s)"

text \<open>A step that changes nothing when it throws.\<close>

definition astep :: "('st \<Rightarrow> ('a \<times> 'st) res) \<Rightarrow> ('st, 'a) act" where
  "astep f s = (case f s of Inl e \<Rightarrow> (Inl e, s) | Inr (x, s') \<Rightarrow> (Inr x, s'))"

text \<open>A loop with an accumulator.\<close>

fun afold :: "('a \<Rightarrow> 'b \<Rightarrow> ('st, 'b) act) \<Rightarrow> 'a list \<Rightarrow> 'b \<Rightarrow> ('st, 'b) act" where
  "afold f [] b = aret b"
| "afold f (x # xs) b = abind (f x b) (afold f xs)"

section \<open>Triples\<close>

definition ensures ::
  "('st \<Rightarrow> bool) \<Rightarrow> ('st, 'a) act \<Rightarrow> ('a \<Rightarrow> 'st \<Rightarrow> bool) \<Rightarrow> ('st \<Rightarrow> bool) \<Rightarrow> bool"
where
  "ensures P m Q E \<longleftrightarrow> (\<forall>s. P s \<longrightarrow> (case m s of (Inl e, s') \<Rightarrow> E s' | (Inr x, s') \<Rightarrow> Q x s'))"

lemma ensuresD:
  assumes "ensures P m Q E" and "P s"
  shows "m s = (Inr x, s') \<Longrightarrow> Q x s'" and "m s = (Inl e, s') \<Longrightarrow> E s'"
  using assms(1) [unfolded ensures_def, rule_format, OF assms(2)] by simp_all

lemma ensuresI:
  assumes "\<And>s x s'. P s \<Longrightarrow> m s = (Inr x, s') \<Longrightarrow> Q x s'" and "\<And>s e s'. P s \<Longrightarrow> m s = (Inl e, s') \<Longrightarrow> E s'"
  shows "ensures P m Q E"
  unfolding ensures_def using assms by (auto split: prod.split sum.split)

lemma ensures_snd:
  assumes "ensures P m (\<lambda>_. I) I" and "P s"
  shows "I (snd (m s))"
proof (cases "m s")
  case (Pair r s')
  with ensuresD [OF assms] show ?thesis by (cases r) auto
qed

lemma ensures_pre: "(\<And>s. P s \<Longrightarrow> P' s) \<Longrightarrow> ensures P' m Q E \<Longrightarrow> ensures P m Q E"
  unfolding ensures_def by simp

lemma ensures_post:
  assumes "ensures P m Q E" and "\<And>x s. Q x s \<Longrightarrow> Q' x s" and "\<And>s. E s \<Longrightarrow> E' s"
  shows "ensures P m Q' E'"
  by (rule ensuresI) (use ensuresD [OF assms(1)] assms(2,3) in blast)+

lemma ensures_bind:
  assumes "ensures P m R E" and "\<And>x. ensures (R x) (f x) Q E"
  shows "ensures P (abind m f) Q E"
  unfolding ensures_def
proof (intro allI impI)
  fix s
  assume "P s"
  note m = ensuresD [OF assms(1) this]
  show "case abind m f s of (Inl e, s') \<Rightarrow> E s' | (Inr x, s') \<Rightarrow> Q x s'"
  proof (cases "m s")
    case (Pair r s')
    then show ?thesis
    proof (cases r)
      case (Inr x)
      with Pair m(1) [of x s'] assms(2) [of x] show ?thesis by (simp add: abind_def ensures_def)
    qed (use m(2) in \<open>simp add: abind_def\<close>)
  qed
qed

lemma ensures_ret: "(\<And>s. P s \<Longrightarrow> Q x s) \<Longrightarrow> ensures P (aret x) Q E"
  by (simp add: ensures_def aret_def)

lemma ensures_fail: "(\<And>s. P s \<Longrightarrow> E s) \<Longrightarrow> ensures P (afail e) Q E"
  by (simp add: ensures_def afail_def)

lemma ensures_get:
  "(\<And>s x. P s \<Longrightarrow> f s = Inr x \<Longrightarrow> Q x s) \<Longrightarrow> (\<And>s. P s \<Longrightarrow> E s) \<Longrightarrow> ensures P (aget f) Q E"
  by (auto simp: ensures_def aget_def split: sum.split)

lemma ensures_mod: "(\<And>s. P s \<Longrightarrow> Q () (f s)) \<Longrightarrow> ensures P (amod f) Q E"
  by (simp add: ensures_def amod_def)

lemma ensures_step:
  "(\<And>s x s'. P s \<Longrightarrow> f s = Inr (x, s') \<Longrightarrow> Q x s') \<Longrightarrow> (\<And>s. P s \<Longrightarrow> E s) \<Longrightarrow> ensures P (astep f) Q E"
  by (auto simp: ensures_def astep_def split: sum.split)

lemma ensures_get_bind:
  assumes "\<And>s. P s \<Longrightarrow> E s" and "\<And>x. ensures (\<lambda>s. P s \<and> g s = Inr x) (f x) Q E"
  shows "ensures P (abind (aget g) f) Q E"
  by (rule ensures_bind [OF _ assms(2)], rule ensures_get) (use assms(1) in auto)

lemma ensures_mod_ret: "(\<And>s. P s \<Longrightarrow> Q x (f s)) \<Longrightarrow> ensures P (abind (amod f) (\<lambda>_. aret x)) Q E"
  by (simp add: ensures_def abind_def amod_def aret_def)

text \<open>A last step whose value is all that is left to show.\<close>

lemma ensures_then:
  assumes "ensures P m (\<lambda>x s. I s \<and> R x s) E" and "\<And>x s. I s \<Longrightarrow> R x s \<Longrightarrow> Q (f x) s"
  shows "ensures P (abind m (\<lambda>x. aret (f x))) Q E"
  by (rule ensures_bind [OF assms(1)], rule ensures_ret) (use assms(2) in auto)

lemma ensures_fold:
  "(\<And>x b. x \<in> set xs \<Longrightarrow> ensures I (f x b) (\<lambda>_. I) E) \<Longrightarrow> ensures I (afold f xs b) (\<lambda>_. I) E"
  by (induction xs arbitrary: b) (auto intro!: ensures_bind ensures_ret)

lemma ensures_if:
  "(b \<Longrightarrow> ensures P m Q E) \<Longrightarrow> (\<not> b \<Longrightarrow> ensures P m' Q E) \<Longrightarrow> ensures P (if b then m else m') Q E"
  by simp

lemma ensures_conj:
  assumes "ensures P m Q E" and "ensures P' m Q' E'"
  shows "ensures (\<lambda>s. P s \<and> P' s) m (\<lambda>x s. Q x s \<and> Q' x s) (\<lambda>s. E s \<and> E' s)"
  by (rule ensuresI) (use ensuresD [OF assms(1)] ensuresD [OF assms(2)] in blast)+

end
