(* ===== verification/Replica.thy ===== *)
theory Replica
  imports Effects CommitGc Frontier Mint Epoch ContentHash Wire
begin

text \<open>
  The replica of \<^verbatim>\<open>runtime/src/replica.js\<close>: its fields, its constructor, local commits and the minting
  of identifiers, the have-summary and the delta it ships. Operations are JSON values, an array being a
  batch. The datatype is a record of functions, the optional ones of them options. A field of a \<open>Map\<close>
  that is absent where the code goes on to use it is an error (\<open>req\<close>); the invariant of \<open>ReplicaInv\<close>
  shows for the head and for every indexed commit that this does not happen.
\<close>

section \<open>The datatype object\<close>

type_synonym cutobj = "(string \<times> cut_field) list"

text \<open>The \<open>stats\<close> a compaction returns.\<close>

record cstats =
  st_symbolsBefore :: nat
  st_symbolsAfter :: nat
  st_recordsDropped :: nat
  st_markPairsDropped :: nat

text \<open>
  \<open>dt_coord\<close> is the sub-state with coordinates (\<^verbatim>\<open>coordState\<close>, or the state itself), \<open>None\<close> when it is
  not a map of records; \<open>dt_map\<close> is a function on coordinates as a translation map. \<open>dt_hash\<close> is the
  replica's \<^verbatim>\<open>hash\<close> option and \<open>dt_num\<close> the text of a number that is no integer.
\<close>

record ('s, 'x, 'r) rdt =
  dt_init :: 's
  dt_prepare :: "('s \<Rightarrow> json \<Rightarrow> json res) option"
  dt_needsPrepare :: bool
  dt_apply :: "'s \<Rightarrow> json \<Rightarrow> 's res"
  dt_applyBatch :: "('s \<Rightarrow> json list \<Rightarrow> 's res) option"
  dt_merge3 :: "'s \<Rightarrow> 's \<Rightarrow> 's \<Rightarrow> 's res"
  dt_read :: "'s \<Rightarrow> 'r"
  dt_fingerprint :: "('s \<Rightarrow> json) option"
  dt_encodeState :: "('s \<Rightarrow> json res) option"
  dt_decodeState :: "(json \<Rightarrow> 's res) option"
  dt_compact :: "('s \<Rightarrow> cutobj \<Rightarrow> json option \<Rightarrow> ('s \<times> 'x option \<times> cstats) res) option"
  dt_remapState :: "('s \<Rightarrow> 'x \<Rightarrow> 's res) option"
  dt_inverseTranslate :: "('s \<Rightarrow> 's \<Rightarrow> cutobj \<Rightarrow> 'x option res) option"
  dt_coord :: "'s \<Rightarrow> json emb option"
  dt_map :: "(nat list \<Rightarrow> nat list res) \<Rightarrow> 'x"
  dt_cutFromMeet :: "(((string \<times> nat) \<times> json op_rec) list \<Rightarrow> cutobj) option"
  dt_auditMergeCoverage :: "('s \<Rightarrow> 's \<Rightarrow> 's \<Rightarrow> 's \<Rightarrow> bool) option"
  dt_headOnlyMerge :: bool
  dt_hash :: "json \<Rightarrow> string"
  dt_num :: "nat list \<Rightarrow> string"

text \<open>\<^verbatim>\<open>this.datatype.f(..)\<close> for an optional \<open>f\<close>, and reading an absent key.\<close>

definition req :: "string \<Rightarrow> 'a option \<Rightarrow> 'a res" where
  "req what v = (case v of Some x \<Rightarrow> Inr x | None \<Rightarrow> Inl (TypeError what))"

lemma req_Inr [simp]: "req what v = Inr x \<longleftrightarrow> v = Some x"
  by (cases v) (simp_all add: req_def)

section \<open>Operations as JSON values\<close>

definition json_int_at :: "json option \<Rightarrow> int option" where
  "json_int_at v = (case v of Some (JInt n) \<Rightarrow> Some n | _ \<Rightarrow> None)"

definition is_type :: "json \<Rightarrow> string \<Rightarrow> bool" where
  "is_type x ty \<longleftrightarrow> json_get x ''type'' = Some (JStr ty)"

definition json_operationTime :: "json \<Rightarrow> json option" where
  "json_operationTime x =
     (if is_type x ''ins'' then json_get x ''id''
      else if is_type x ''addMark'' \<or> is_type x ''removeMark''
        then (case json_get x ''mid'' of None \<Rightarrow> json_get x ''ts'' | Some JNull \<Rightarrow> json_get x ''ts'' | Some v \<Rightarrow> Some v)
      else json_get x ''time'')"

fun payload_list :: "json \<Rightarrow> json list" where
  "payload_list (JArr xs) = xs"
| "payload_list v = [v]"

definition json_observePayload :: "mint \<Rightarrow> json \<Rightarrow> mint" where
  "json_observePayload m p = foldl (\<lambda>m x. mint_observe m (json_int_at (json_operationTime x))) m (payload_list p)"

definition json_stampOperation :: "mint \<Rightarrow> json \<Rightarrow> (json \<times> mint) res" where
  "json_stampOperation m x = (case x of
       JObj kvs \<Rightarrow> rbind (mint_next m) (\<lambda>(time, m').
         let put = (\<lambda>k kvs. AList.update k (JInt time) kvs) in
         Inr (JObj (if is_type x ''ins'' then put ''id'' kvs
           else if is_type x ''del'' then put ''time'' kvs
           else if is_type x ''addMark'' \<or> is_type x ''removeMark'' then put ''ts'' (put ''mid'' kvs)
           else put ''time'' kvs), m'))
     | _ \<Rightarrow> Inl (TypeError ''generated operation must be an object''))"

text \<open>The payloads of the certified meet, for \<^const>\<open>insertIds\<close>.\<close>

fun as_payload :: "json \<Rightarrow> json payload" where
  "as_payload (JArr xs) = Batch xs"
| "as_payload v = Single v"

definition meet_payloads :: "json eventmap \<Rightarrow> json payload eventmap" where
  "meet_payloads m = map (\<lambda>(k, o1). (k, \<lparr>op_replica = op_replica o1, op_seq = op_seq o1,
     op_payload = as_payload (op_payload o1)\<rparr>)) m"

definition json_ins :: "json \<Rightarrow> int option" where
  "json_ins x = (if is_type x ''ins'' then json_int_at (json_get x ''id'') else None)"

section \<open>State\<close>

record ('s, 'x) rep =
  p_name :: string
  p_dag :: "(json, 's) dag"
  p_seq :: nat
  p_mint :: "mint option"
  p_gid :: "(nat \<times> string) list"
  p_byGid :: "(string \<times> nat) list"
  p_registered :: "string list"
  p_gcClosed :: bool
  p_everAuthored :: "string list"
  p_epochDag :: "(cutobj, 'x) epochs"
  p_epochOf :: "(nat \<times> string) list"
  p_epochBase :: "(nat \<times> string) list"
  p_gcBoundary :: "nat list"
  p_fetchAcks :: "(string \<times> string) list"
  p_rootGid :: string
  p_headId :: nat
  p_frontier :: frontier

definition rp_gid :: "('s, 'x) rep \<Rightarrow> nat \<Rightarrow> string res" where
  "rp_gid r i = req ''gid'' (map_of (p_gid r) i)"

definition rp_epoch_of :: "('s, 'x) rep \<Rightarrow> nat \<Rightarrow> string res" where
  "rp_epoch_of r i = req ''epochOf'' (map_of (p_epochOf r) i)"

definition rp_head :: "('s, 'x) rep \<Rightarrow> (json, 's) commit res" where
  "rp_head r = dag_get (p_dag r) (p_headId r)"

definition rp_headGid :: "('s, 'x) rep \<Rightarrow> string res" where
  "rp_headGid r = rp_gid r (p_headId r)"

definition rp_epochKey :: "('s, 'x) rep \<Rightarrow> string res" where
  "rp_epochKey r = rp_epoch_of r (p_headId r)"

definition rp_epoch :: "('s, 'x) rep \<Rightarrow> nat res" where
  "rp_epoch r = rbind (rp_epochKey r) (\<lambda>k. rbind (ep_node (p_epochDag r) k) (\<lambda>n. Inr (en_num n)))"

definition rp_read :: "('s, 'x, 'r) rdt \<Rightarrow> ('s, 'x) rep \<Rightarrow> 'r res" where
  "rp_read dt r = rbind (rp_head r) (\<lambda>c. Inr (dt_read dt (c_state c)))"

definition rp_exportMintState :: "('s, 'x) rep \<Rightarrow> mint option" where
  "rp_exportMintState r = p_mint r"

definition rp_gidOf :: "('s, 'x, 'r) rdt \<Rightarrow> ('s, 'x) rep \<Rightarrow> (json, 's) commit \<Rightarrow> string res" where
  "rp_gidOf dt r c = rbind (mapM (rp_gid r) (c_parents c)) (\<lambda>pg.
     commitContentId (dt_hash dt) (dt_fingerprint dt) (length (c_parents c)) (c_op c) (c_state c) pg)"

definition rp_index :: "('s, 'x, 'r) rdt \<Rightarrow> (json, 's) commit \<Rightarrow> (('s, 'x) rep, string) act" where
  "rp_index dt c = astep (\<lambda>r. rbind (rp_gidOf dt r c) (\<lambda>g.
     Inr (g, r\<lparr>p_gid := AList.update (c_id c) g (p_gid r), p_byGid := AList.update g (c_id c) (p_byGid r)\<rparr>)))"

definition rp_add :: "nat list \<Rightarrow> json op_rec option \<Rightarrow> 's \<Rightarrow> (('s, 'x) rep, (json, 's) commit) act" where
  "rp_add ps opn st = astep (\<lambda>r. rbind (dag_add (p_dag r) ps opn st) (\<lambda>(c, d). Inr (c, r\<lparr>p_dag := d\<rparr>)))"

definition rp_set_epoch :: "nat \<Rightarrow> string \<Rightarrow> (('s, 'x) rep, unit) act" where
  "rp_set_epoch i k = amod (\<lambda>r. r\<lparr>p_epochOf := AList.update i k (p_epochOf r)\<rparr>)"

definition rp_refresh :: "(('s, 'x) rep, unit) act" where
  "rp_refresh = astep (\<lambda>r. rbind (frontierOf (p_dag r) (p_headId r)) (\<lambda>fr. Inr ((), r\<lparr>p_frontier := fr\<rparr>)))"

definition rp_set_head :: "nat \<Rightarrow> (('s, 'x) rep, unit) act" where
  "rp_set_head i = amod (\<lambda>r. r\<lparr>p_headId := i\<rparr>)"

text \<open>The four statements that put a commit into the store under its content id.\<close>

definition rp_append ::
  "('s, 'x, 'r) rdt \<Rightarrow> nat list \<Rightarrow> json op_rec option \<Rightarrow> 's \<Rightarrow> string \<Rightarrow> (('s, 'x) rep, nat \<times> string) act"
where
  "rp_append dt ps opn st k = abind (rp_add ps opn st) (\<lambda>c. abind (rp_set_epoch (c_id c) k) (\<lambda>_.
     abind (rp_index dt c) (\<lambda>g. aret (c_id c, g))))"

section \<open>Construction\<close>

definition rp_blank :: "'s \<Rightarrow> string \<Rightarrow> mint option \<Rightarrow> ('s, 'x) rep" where
  "rp_blank s0 name m = \<lparr>p_name = name, p_dag = dag_empty, p_seq = 0, p_mint = m, p_gid = [], p_byGid = [],
     p_registered = [name], p_gcClosed = False, p_everAuthored = [], p_epochDag = epoch_dag, p_epochOf = [],
     p_epochBase = [], p_gcBoundary = [], p_fetchAcks = [], p_rootGid = [], p_headId = 0, p_frontier = []\<rparr>"

definition rp_new :: "('s, 'x, 'r) rdt \<Rightarrow> string \<Rightarrow> (int \<times> int \<times> int) option \<Rightarrow> ('s, 'x) rep res" where
  "rp_new dt name mstate =
     rbind (case mstate of None \<Rightarrow> Inr None
       | Some (sl, counter, stride) \<Rightarrow> rbind (mk_mint sl counter stride) (\<lambda>m. Inr (Some m))) (\<lambda>m.
     case abind (rp_append dt [] None (dt_init dt) EPOCH0) (\<lambda>(i, g).
         abind (amod (\<lambda>r. r\<lparr>p_rootGid := g\<rparr>)) (\<lambda>_. abind (rp_set_head i) (\<lambda>_. rp_refresh)))
       (rp_blank (dt_init dt) name m)
     of (Inl e, _) \<Rightarrow> Inl e | (Inr _, r) \<Rightarrow> Inr r)"

section \<open>Minting\<close>

definition no_mint :: js_error where
  "no_mint = Error ''trusted minting requires a unique persistent mint slot''"

definition rp_mintTime :: "(('s, 'x) rep, int) act" where
  "rp_mintTime = astep (\<lambda>r. case p_mint r of None \<Rightarrow> Inl no_mint
     | Some m \<Rightarrow> rbind (mint_next m) (\<lambda>(t, m'). Inr (t, r\<lparr>p_mint := Some m'\<rparr>)))"

definition rp_generate :: "json \<Rightarrow> (('s, 'x) rep, json) act" where
  "rp_generate x = astep (\<lambda>r. case p_mint r of None \<Rightarrow> Inl no_mint
     | Some m \<Rightarrow> rbind (json_stampOperation m x) (\<lambda>(y, m'). Inr (y, r\<lparr>p_mint := Some m'\<rparr>)))"

definition rp_generateBatch :: "json list \<Rightarrow> (('s, 'x) rep, json list) act" where
  "rp_generateBatch xs = afold (\<lambda>x ys. abind (rp_generate x) (\<lambda>y. aret (ys @ [y]))) xs []"

definition rp_observe :: "json \<Rightarrow> (('s, 'x) rep, unit) act" where
  "rp_observe p = amod (\<lambda>r. r\<lparr>p_mint := map_option (\<lambda>m. json_observePayload m p) (p_mint r)\<rparr>)"

section \<open>Local commits\<close>

definition dt_applyOps :: "('s, 'x, 'r) rdt \<Rightarrow> 's \<Rightarrow> json \<Rightarrow> 's res" where
  "dt_applyOps dt s p = (case p of
       JArr xs \<Rightarrow> (case dt_applyBatch dt of Some f \<Rightarrow> f s xs | None \<Rightarrow> foldM (\<lambda>x s. dt_apply dt s x) xs s)
     | _ \<Rightarrow> dt_apply dt s p)"

text \<open>What \<open>commit\<close> and \<open>commitBatch\<close> do with the prepared payload and the new state.\<close>

definition rp_seal :: "('s, 'x, 'r) rdt \<Rightarrow> json \<Rightarrow> 's \<Rightarrow> (('s, 'x) rep, string) act" where
  "rp_seal dt prepared st =
     abind (rp_observe prepared) (\<lambda>_.
     abind (aget (\<lambda>r. rbind (rp_epochKey r) (\<lambda>k. Inr (p_headId r, p_name r, p_seq r, k)))) (\<lambda>(h, name, n, k).
     abind (amod (\<lambda>r. r\<lparr>p_seq := Suc n\<rparr>)) (\<lambda>_.
     abind (rp_append dt [h] (Some \<lparr>op_replica = name, op_seq = n, op_payload = prepared\<rparr>) st k) (\<lambda>(i, g).
     abind (rp_set_head i) (\<lambda>_. abind rp_refresh (\<lambda>_. aret g))))))"

definition rp_commit :: "('s, 'x, 'r) rdt \<Rightarrow> json \<Rightarrow> (('s, 'x) rep, string) act" where
  "rp_commit dt payload =
     abind (aget rp_head) (\<lambda>h.
     abind (aget (\<lambda>_. case dt_prepare dt of Some f \<Rightarrow> f (c_state h) payload | None \<Rightarrow> Inr payload)) (\<lambda>prepared.
     abind (aget (\<lambda>_. dt_apply dt (c_state h) prepared)) (rp_seal dt prepared)))"

definition prepare_step :: "('s, 'x, 'r) rdt \<Rightarrow> json \<Rightarrow> json list \<times> 's \<Rightarrow> (json list \<times> 's) res" where
  "prepare_step dt x ps = (case ps of (prepared, s) \<Rightarrow> (case dt_prepare dt of
       None \<Rightarrow> Inl (TypeError ''prepare'')
     | Some f \<Rightarrow> rbind (f s x) (\<lambda>p. rbind (dt_apply dt s p) (\<lambda>s'. Inr (prepared @ [p], s')))))"

definition rp_commitBatch :: "('s, 'x, 'r) rdt \<Rightarrow> json list \<Rightarrow> (('s, 'x) rep, string) act" where
  "rp_commitBatch dt ops = (case ops of
       [] \<Rightarrow> aget rp_headGid
     | [x] \<Rightarrow> rp_commit dt x
     | _ \<Rightarrow> abind (aget rp_head) (\<lambda>h.
         abind (aget (\<lambda>_. if dt_needsPrepare dt then foldM (prepare_step dt) ops ([], c_state h)
           else rbind (dt_applyOps dt (c_state h) (JArr ops)) (\<lambda>s. Inr (ops, s)))) (\<lambda>(prepared, s).
         rp_seal dt (JArr prepared) s)))"

definition rp_commitGenerated :: "('s, 'x, 'r) rdt \<Rightarrow> json \<Rightarrow> (('s, 'x) rep, string \<times> json) act" where
  "rp_commitGenerated dt payload = abind (rp_generate payload) (\<lambda>generated.
     abind (rp_commit dt generated) (\<lambda>g. aret (g, generated)))"

definition rp_commitGeneratedBatch :: "('s, 'x, 'r) rdt \<Rightarrow> json list \<Rightarrow> (('s, 'x) rep, string \<times> json list) act" where
  "rp_commitGeneratedBatch dt payloads = abind (rp_generateBatch payloads) (\<lambda>generated.
     abind (rp_commitBatch dt generated) (\<lambda>g. aret (g, generated)))"

section \<open>What is shipped\<close>

definition rp_ancestryGids :: "('s, 'x) rep \<Rightarrow> string list res" where
  "rp_ancestryGids r = rbind (dag_ancestorSet (p_dag r) (p_headId r)) (\<lambda>A.
     rbind (mapM (rp_gid r) A) (\<lambda>gs. Inr (js_add_all gs [])))"

definition missing_step :: "string list \<Rightarrow> ('s, 'x) rep \<Rightarrow> nat \<Rightarrow> nat list \<Rightarrow> nat list res" where
  "missing_step theirGids r i acc = rbind (rp_gid r i) (\<lambda>g.
     if g \<in> set theirGids then Inr acc
     else rbind (dag_get (p_dag r) i) (\<lambda>c.
       Inr (if c_parents c = [] \<and> map_of (p_epochBase r) i = None \<and> i \<notin> set (p_gcBoundary r) then acc
         else acc @ [i])))"

text \<open>The certificate of a boundary, hashed with the default content id.\<close>

definition boundary_proof :: "('s, 'x, 'r) rdt \<Rightarrow> string \<Rightarrow> string \<Rightarrow> json \<Rightarrow> string list \<Rightarrow> string" where
  "boundary_proof dt g epoch fp roster = contentId (dt_num dt) (JObj [(''gcBoundary'', JBool True),
     (''gid'', JStr g), (''epoch'', JStr epoch), (''fp'', fp), (''roster'', JArr (map JStr roster))]) 40"

definition wire_base :: "('s, 'x, 'r) rdt \<Rightarrow> ('s, 'x) rep \<Rightarrow> nat \<Rightarrow> (json, 's) commit \<Rightarrow> string list \<Rightarrow> string wire_commit res" where
  "wire_base dt r i c parents = (case (dt_encodeState dt, dt_fingerprint dt) of
       (Some enc, Some fingerprint) \<Rightarrow>
         rbind (rp_gid r i) (\<lambda>g. rbind (rp_epoch_of r i) (\<lambda>epoch. rbind (enc (c_state c)) (\<lambda>state.
           let fp = fingerprint (c_state c); roster = sort (p_registered r) in
           Inr \<lparr>wc_gid = g, wc_parents = parents, wc_body = WBase (JStr epoch) fp (JArr (map JStr roster))
             (JStr (boundary_proof dt g epoch fp roster)) state\<rparr>)))
     | _ \<Rightarrow> Inl (Error ''GC boundary transfer requires encodeState + fingerprint''))"

definition wire_compact :: "('s, 'x, 'r) rdt \<Rightarrow> ('s, 'x) rep \<Rightarrow> nat \<Rightarrow> (json, 's) commit \<Rightarrow> string list \<Rightarrow> string wire_commit res" where
  "wire_compact dt r i c parents =
     rbind (rp_epoch_of r i) (\<lambda>k. rbind (rp_gid r i) (\<lambda>g.
     rbind (req ''encodeState'' (dt_encodeState dt)) (\<lambda>enc. rbind (enc (c_state c)) (\<lambda>state.
       let ct = (case ep_get (p_epochDag r) k of Some n \<Rightarrow> (case en_cut n of Some ct \<Rightarrow> ct | None \<Rightarrow> []) | None \<Rightarrow> []) in
       Inr \<lparr>wc_gid = g, wc_parents = parents, wc_body = WCompact (JObj (serializeCut ct)) state\<rparr>))))"

definition wire_of :: "('s, 'x, 'r) rdt \<Rightarrow> ('s, 'x) rep \<Rightarrow> nat \<Rightarrow> string wire_commit res" where
  "wire_of dt r i = rbind (dag_get (p_dag r) i) (\<lambda>c.
     rbind (mapM (rp_gid r) (c_parents c)) (\<lambda>parents.
     if i \<in> set (p_gcBoundary r) then wire_base dt r i c parents
     else (case c_op c of
         Some o1 \<Rightarrow> rbind (rp_gid r i) (\<lambda>g. Inr \<lparr>wc_gid = g, wc_parents = parents,
           wc_body = WOp (JStr (op_replica o1)) (op_seq o1) (op_payload o1)\<rparr>)
       | None \<Rightarrow> (case map_of (p_epochBase r) i of
             Some eb \<Rightarrow> wire_compact dt r i c [eb]
           | None \<Rightarrow> if length (c_parents c) = 1 then wire_compact dt r i c parents
               else rbind (rp_gid r i) (\<lambda>g. Inr \<lparr>wc_gid = g, wc_parents = parents, wc_body = WMerge\<rparr>)))))"

definition rp_delta :: "('s, 'x, 'r) rdt \<Rightarrow> string list \<Rightarrow> ('s, 'x) rep \<Rightarrow> string wire_commit list res" where
  "rp_delta dt theirGids r = rbind (dag_ancestorSet (p_dag r) (p_headId r)) (\<lambda>A.
     rbind (foldM (missing_step theirGids r) A []) (\<lambda>missing. mapM (wire_of dt r) (sort missing)))"

end
