(* ===== verification/ReplicaMerge.thy ===== *)
theory ReplicaMerge
  imports Replica
begin

text \<open>
  How a replica merges: lifting states between epochs, the virtual base of a criss-cross, the join
  of two heads across epochs, the ingest of a delta with its content-address gate, the merge with an
  advertised head, and the roster. A commit as ingest sees it has its content id and its parents as
  options, \<open>None\<close> being the \<^verbatim>\<open>null\<close> of an elided id.
\<close>

section \<open>Lifting between epochs\<close>

text \<open>The loop of \<^verbatim>\<open>#toEpoch\<close>; it steps to a parent epoch, so the number of epochs bounds it
  (\<open>rp_toEpoch_enough\<close> in \<open>ReplicaFuel\<close>).\<close>

fun toEpoch_loop :: "nat \<Rightarrow> ('s, 'x, 'r) rdt \<Rightarrow> (cutobj, 'x) epochs \<Rightarrow> string \<Rightarrow> 's \<Rightarrow> string \<Rightarrow> 's option res" where
  "toEpoch_loop 0 dt ep toKey s k = Inl (Error ''out of fuel'')"
| "toEpoch_loop (Suc f) dt ep toKey s k =
     (if k = toKey then Inr (Some s)
      else case ep_get ep k of
        None \<Rightarrow> Inr None
      | Some n \<Rightarrow> (case (en_parents n, en_translateInv n) of
            ([p], Some tr) \<Rightarrow> rbind (req ''remapState'' (dt_remapState dt)) (\<lambda>remap.
              rbind (remap s tr) (\<lambda>s'. toEpoch_loop f dt ep toKey s' p))
          | _ \<Rightarrow> Inr None))"

definition rp_toEpoch :: "('s, 'x, 'r) rdt \<Rightarrow> ('s, 'x) rep \<Rightarrow> 's \<Rightarrow> string \<Rightarrow> string \<Rightarrow> 's option res" where
  "rp_toEpoch dt r s fromKey toKey = toEpoch_loop (length (p_epochDag r) + 1) dt (p_epochDag r) toKey s fromKey"

definition rp_liftState :: "('s, 'x, 'r) rdt \<Rightarrow> ('s, 'x) rep \<Rightarrow> 's \<Rightarrow> string \<Rightarrow> string \<Rightarrow> 's option res" where
  "rp_liftState dt r s fromKey toKey = rbind (ep_liftChain (p_epochDag r) fromKey toKey) (\<lambda>maps. case maps of
       None \<Rightarrow> Inr None
     | Some ms \<Rightarrow> rbind (foldM (\<lambda>m s. rbind (req ''remapState'' (dt_remapState dt)) (\<lambda>remap. remap s m)) ms s)
         (\<lambda>s'. Inr (Some s')))"

definition mergeInFrame :: "('s, 'x, 'r) rdt \<Rightarrow> 's \<Rightarrow> 's \<Rightarrow> 's \<Rightarrow> string \<Rightarrow> ('s \<times> string) res" where
  "mergeInFrame dt l a b k = rbind (dt_merge3 dt l a b) (\<lambda>s. case dt_auditMergeCoverage dt of
       Some ok \<Rightarrow> if ok l a b s then Inr (s, k) else Inl (Error ''merge coverage certificate failed'')
     | None \<Rightarrow> Inr (s, k))"

section \<open>The virtual base\<close>

definition mcasOfSet :: "('p, 's) dag \<Rightarrow> nat list \<Rightarrow> nat \<Rightarrow> nat list res" where
  "mcasOfSet d S w =
     rbind (foldM (\<lambda>s A. rbind (dag_ancestorSet d s) (\<lambda>xs. Inr (js_add_all xs A))) S []) (\<lambda>A.
     rbind (dag_ancestorSet d w) (\<lambda>B. maximal_of d (filter (\<lambda>x. x \<in> set B) A)))"

definition mcas_of :: "('p, 's) dag \<Rightarrow> nat list \<Rightarrow> nat \<Rightarrow> nat list res" where
  "mcas_of d S w = rbind (if length S = 1 then mcas d (hd S) w else mcasOfSet d S w) (\<lambda>m.
     if m = [] then Inl (NoCommonAncestor (hd S) w) else Inr m)"

definition rp_liftDown :: "('s, 'x, 'r) rdt \<Rightarrow> ('s, 'x) rep \<Rightarrow> string \<Rightarrow> nat list \<Rightarrow> nat \<Rightarrow> 's res" where
  "rp_liftDown dt r target antichain i = rbind (dag_get (p_dag r) i) (\<lambda>c. rbind (rp_epoch_of r i) (\<lambda>from1.
     if from1 = target then Inr (c_state c)
     else rbind (rp_toEpoch dt r (c_state c) from1 target) (\<lambda>lifted. case lifted of
         None \<Rightarrow> Inl (CrissCrossError antichain)
       | Some s \<Rightarrow> Inr s)))"

definition gid_less :: "('s, 'x) rep \<Rightarrow> nat \<Rightarrow> nat \<Rightarrow> bool" where
  "gid_less r x y = (case (map_of (p_gid r) x, map_of (p_gid r) y) of (Some a, Some b) \<Rightarrow> a < b | _ \<Rightarrow> False)"

text \<open>
  The recursion of \<^verbatim>\<open>#baseState\<close> goes from \<open>w\<close> to a proper ancestor of it, so \<open>w + 1\<close> bounds its depth
  (\<open>baseState_enough\<close> in \<open>ReplicaFuel\<close>).
\<close>

fun baseState_upto :: "nat \<Rightarrow> ('s, 'x, 'r) rdt \<Rightarrow> ('s, 'x) rep \<Rightarrow> string \<Rightarrow> nat list \<Rightarrow> nat \<Rightarrow> 's res" where
  "baseState_upto 0 dt r target S w = Inl (Error ''out of fuel'')"
| "baseState_upto (Suc f) dt r target S w = rbind (mcas_of (p_dag r) S w) (\<lambda>m.
     if length m = 1 then rp_liftDown dt r target m (hd m)
     else (let sorted = sort_by (gid_less r) m in
       rbind (rp_liftDown dt r target m (hd sorted)) (\<lambda>s0.
       rbind (foldM (\<lambda>mi (support, acc).
           rbind (baseState_upto f dt r target support mi) (\<lambda>base.
           rbind (rp_liftDown dt r target m mi) (\<lambda>si.
           rbind (dt_merge3 dt base acc si) (\<lambda>acc'. Inr (support @ [mi], acc')))))
         (tl sorted) ([hd sorted], s0)) (\<lambda>(_, acc). Inr acc))))"

definition rp_baseState :: "('s, 'x, 'r) rdt \<Rightarrow> ('s, 'x) rep \<Rightarrow> string \<Rightarrow> nat list \<Rightarrow> nat \<Rightarrow> 's res" where
  "rp_baseState dt r target S w = baseState_upto (w + 1) dt r target S w"

definition rp_baseFor :: "('s, 'x, 'r) rdt \<Rightarrow> ('s, 'x) rep \<Rightarrow> nat list \<Rightarrow> nat \<Rightarrow> ('s \<times> string) res" where
  "rp_baseFor dt r S w = rbind (mcas_of (p_dag r) S w) (\<lambda>m.
     rbind (mapM (rp_epoch_of r) m) (\<lambda>es.
       let target = (if list_all (\<lambda>e. e = hd es) es then hd es else EPOCH0) in
       rbind (rp_baseState dt r target S w) (\<lambda>s. Inr (s, target))))"

section \<open>The join across epochs\<close>

definition rp_join_epochs :: "string \<Rightarrow> string \<Rightarrow> (('s, 'x) rep, unit) act" where
  "rp_join_epochs ea eb = (if ea = eb then aret ()
     else astep (\<lambda>r. rbind (ep_join ea eb (p_epochDag r)) (\<lambda>(_, ep). Inr ((), r\<lparr>p_epochDag := ep\<rparr>))))"

text \<open>The lift of both heads, and of the base when there is one, to the uncompacted frame.\<close>

definition rp_join_at_root ::
  "('s, 'x, 'r) rdt \<Rightarrow> js_error \<Rightarrow> (('s, 'x) rep \<Rightarrow> 's option res) \<Rightarrow> string \<times> 's \<Rightarrow> string \<times> 's \<Rightarrow> (('s, 'x) rep, 's \<times> string) act"
where
  "rp_join_at_root dt err base a b =
     abind (aget (\<lambda>r. rbind (rp_toEpoch dt r (snd a) (fst a) EPOCH0) (\<lambda>a0.
       rbind (rp_toEpoch dt r (snd b) (fst b) EPOCH0) (\<lambda>b0. rbind (base r) (\<lambda>l0.
         case (a0, b0, l0) of (Some a0, Some b0, Some l0) \<Rightarrow> Inr (a0, b0, l0) | _ \<Rightarrow> Inl err))))) (\<lambda>(a0, b0, l0).
     abind (rp_join_epochs (fst a) (fst b)) (\<lambda>_. aget (\<lambda>_. mergeInFrame dt l0 a0 b0 EPOCH0)))"

text \<open>No common ancestor: only for datatypes whose merge does not read the base.\<close>

definition rp_join_headless ::
  "('s, 'x, 'r) rdt \<Rightarrow> nat \<Rightarrow> nat \<Rightarrow> string \<times> 's \<Rightarrow> string \<times> 's \<Rightarrow> (('s, 'x) rep, 's \<times> string) act"
where
  "rp_join_headless dt aId bId a b =
     (if fst a = fst b then aget (\<lambda>_. mergeInFrame dt (dt_init dt) (snd a) (snd b) (fst a))
      else rp_join_at_root dt (CrissCrossError [aId, bId]) (\<lambda>_. Inr (Some (dt_init dt))) a b)"

text \<open>Over a base coded in the epoch \<open>fst l\<close>.\<close>

definition rp_join_over ::
  "('s, 'x, 'r) rdt \<Rightarrow> string \<times> 's \<Rightarrow> string \<times> 's \<Rightarrow> string \<times> 's \<Rightarrow> (('s, 'x) rep, 's \<times> string) act"
where
  "rp_join_over dt l a b =
     (if fst a = fst b \<and> fst a = fst l then aget (\<lambda>_. mergeInFrame dt (snd l) (snd a) (snd b) (fst a))
      else abind (aget (\<lambda>r. if fst a = fst b then rp_liftState dt r (snd l) (fst l) (fst a) else Inr None)) (\<lambda>lUp.
       case lUp of
         Some l' \<Rightarrow> aget (\<lambda>_. mergeInFrame dt l' (snd a) (snd b) (fst a))
       | None \<Rightarrow>
           abind (aget (\<lambda>r. rbind (if fst a = fst l then Inr (Some (snd a)) else rp_toEpoch dt r (snd a) (fst a) (fst l)) (\<lambda>aE.
             rbind (if fst b = fst l then Inr (Some (snd b)) else rp_toEpoch dt r (snd b) (fst b) (fst l)) (\<lambda>bE.
               Inr (aE, bE))))) (\<lambda>(aE, bE).
           case (aE, bE) of
             (Some a', Some b') \<Rightarrow> abind (rp_join_epochs (fst a) (fst b)) (\<lambda>_.
               aget (\<lambda>_. mergeInFrame dt (snd l) a' b' (fst l)))
           | _ \<Rightarrow> rp_join_at_root dt (Error ''cross-epoch merge: an inverse epoch map is unavailable for translation'')
               (\<lambda>r. rp_toEpoch dt r (snd l) (fst l) EPOCH0) a b)))"

definition rp_joinState :: "('s, 'x, 'r) rdt \<Rightarrow> nat \<Rightarrow> nat \<Rightarrow> (('s, 'x) rep, 's \<times> string) act" where
  "rp_joinState dt aId bId =
     abind (aget (\<lambda>r. rbind (dag_get (p_dag r) aId) (\<lambda>a. rbind (dag_get (p_dag r) bId) (\<lambda>b.
       rbind (rp_epoch_of r aId) (\<lambda>ea. rbind (rp_epoch_of r bId) (\<lambda>eb.
         Inr ((ea, c_state a), (eb, c_state b), rp_baseFor dt r [aId] bId))))))) (\<lambda>(a, b, base).
     case base of
       Inr (lState, el) \<Rightarrow> rp_join_over dt (el, lState) a b
     | Inl e \<Rightarrow> (case e of
           NoCommonAncestor _ _ \<Rightarrow> if dt_headOnlyMerge dt then rp_join_headless dt aId bId a b else afail e
         | _ \<Rightarrow> afail e))"

section \<open>Ingest\<close>

text \<open>The strings of a wire commit; \<open>null\<close> is \<open>None\<close> and any other value is refused.\<close>

definition wire_gid :: "json \<Rightarrow> string option res" where
  "wire_gid v = (case v of JNull \<Rightarrow> Inr None | JStr s \<Rightarrow> Inr (Some s) | _ \<Rightarrow> Inl (TypeError ''content id''))"

definition wire_in :: "json wire_commit \<Rightarrow> string option wire_commit res" where
  "wire_in wc = rbind (wire_gid (wc_gid wc)) (\<lambda>g. rbind (mapM wire_gid (wc_parents wc)) (\<lambda>ps.
     Inr \<lparr>wc_gid = g, wc_parents = ps, wc_body = wc_body wc\<rparr>))"

definition json_str :: "json \<Rightarrow> string res" where
  "json_str v = (case v of JStr s \<Rightarrow> Inr s | _ \<Rightarrow> Inl (TypeError ''string''))"

definition json_strs :: "json \<Rightarrow> string list res" where
  "json_strs v = (case v of JArr xs \<Rightarrow> mapM json_str xs | JNull \<Rightarrow> Inr [] | _ \<Rightarrow> Inl (TypeError ''array of strings''))"

text \<open>\<^verbatim>\<open>===\<close> compares arrays and objects by identity.\<close>

fun js_same :: "json \<Rightarrow> json \<Rightarrow> bool" where
  "js_same (JArr _) w \<longleftrightarrow> False"
| "js_same (JObj _) w \<longleftrightarrow> False"
| "js_same v w \<longleftrightarrow> v = w"

definition wire_cut :: "json \<Rightarrow> cutobj res" where
  "wire_cut v = (case v of
       JObj kvs \<Rightarrow> Inr (deserializeCut kvs)
     | JNull \<Rightarrow> Inr []
     | _ \<Rightarrow> Inl (TypeError ''cut''))"

text \<open>\<^verbatim>\<open>cut.settledIds ?? ..\<close>\<close>

definition cut_settled :: "cutobj \<Rightarrow> int list option res" where
  "cut_settled ct = (case map_of ct ''settledIds'' of
       None \<Rightarrow> Inr None
     | Some (FSet xs) \<Rightarrow> Inr (Some xs)
     | Some (FVal JNull) \<Rightarrow> Inr None
     | Some (FVal _) \<Rightarrow> Inl (TypeError ''settledIds''))"

definition default_inverse :: "('s, 'x, 'r) rdt \<Rightarrow> 's \<Rightarrow> 's \<Rightarrow> 'x option" where
  "default_inverse dt pre post = (case (dt_coord dt pre, dt_coord dt post) of
       (Some a, Some b) \<Rightarrow> (case buildInverseTranslate a b of
           Inr t \<Rightarrow> Some (dt_map dt (inverse_translate t))
         | Inl _ \<Rightarrow> None)
     | _ \<Rightarrow> None)"

definition inverse_map :: "('s, 'x, 'r) rdt \<Rightarrow> 's \<Rightarrow> 's \<Rightarrow> cutobj \<Rightarrow> 'x option res" where
  "inverse_map dt pre post ct = (case dt_inverseTranslate dt of
       Some f \<Rightarrow> f pre post ct
     | None \<Rightarrow> Inr (default_inverse dt pre post))"

definition forward_map :: "('s, 'x, 'r) rdt \<Rightarrow> 's \<Rightarrow> cutobj \<Rightarrow> 'x option" where
  "forward_map dt pre ct = (case dt_compact dt of
       None \<Rightarrow> None
     | Some f \<Rightarrow> (case f pre ct None of Inr (_, tr, _) \<Rightarrow> tr | Inl _ \<Rightarrow> None))"

definition unknown_of :: "('s, 'x) rep \<Rightarrow> string list \<Rightarrow> string list" where
  "unknown_of r roster = filter (\<lambda>n. n \<notin> set (p_registered r)) roster"

definition rp_compaction :: "string \<Rightarrow> int list \<Rightarrow> cutobj \<Rightarrow> 'x option \<Rightarrow> 'x option \<Rightarrow> string \<Rightarrow> (('s, 'x) rep, unit) act" where
  "rp_compaction key ids ct tr trInv parentKey =
     amod (\<lambda>r. r\<lparr>p_epochDag := ep_compaction key ids (Some ct) tr trInv parentKey (p_epochDag r)\<rparr>)"

text \<open>A certified boundary: verified against its fingerprint and its proof, entered under its own id.\<close>

definition ingest_base ::
  "('s, 'x, 'r) rdt \<Rightarrow> string option \<Rightarrow> nat list \<Rightarrow> json \<Rightarrow> json \<Rightarrow> json \<Rightarrow> json \<Rightarrow> json \<Rightarrow> (('s, 'x) rep, string) act"
where
  "ingest_base dt gid ps epoch fp roster prf st =
     abind (aget (\<lambda>r. case (dt_decodeState dt, dt_fingerprint dt) of
         (Some dec, Some fingerprint) \<Rightarrow>
           rbind (req ''gid'' gid) (\<lambda>g. rbind (dec st) (\<lambda>s.
           if \<not> js_same (fingerprint s) fp then Inl (Error ''GC boundary fingerprint mismatch'')
           else rbind (json_strs roster) (\<lambda>names. rbind (json_str epoch) (\<lambda>k.
             if \<not> js_same (JStr (boundary_proof dt g k (fingerprint s) (sort names))) prf
             then Inl (Error ''GC boundary certificate mismatch'')
             else if \<not> ep_has (p_epochDag r) k then Inl (Error ''GC boundary epoch is unavailable'')
             else if p_gcClosed r \<and> unknown_of r (sort names) \<noteq> [] then Inl (Error ''open-membership after commit GC'')
             else Inr (g, s, sort names, k)))))
       | _ \<Rightarrow> Inl (Error ''GC boundary ingest requires decodeState + fingerprint''))) (\<lambda>(g, s, names, k).
     abind (amod (\<lambda>r. r\<lparr>p_registered := js_add_all names (p_registered r)\<rparr>)) (\<lambda>_.
     abind (rp_add ps None s) (\<lambda>c.
     abind (amod (\<lambda>r. r\<lparr>p_gid := AList.update (c_id c) g (p_gid r), p_byGid := AList.update g (c_id c) (p_byGid r),
       p_epochOf := AList.update (c_id c) k (p_epochOf r), p_gcBoundary := js_add (c_id c) (p_gcBoundary r)\<rparr>)) (\<lambda>_.
     aret g))))"

text \<open>An epoch base whose parent was pruned: verified over the wire parent and the fingerprint.\<close>

definition ingest_bootstrap ::
  "('s, 'x, 'r) rdt \<Rightarrow> string option \<Rightarrow> string option list \<Rightarrow> json \<Rightarrow> json \<Rightarrow> (('s, 'x) rep, string) act"
where
  "ingest_bootstrap dt gid parentGids ct st =
     abind (aget (\<lambda>_. rbind (req ''decodeState'' (dt_decodeState dt)) (\<lambda>dec. rbind (dec st) (\<lambda>s.
       rbind (wire_cut ct) (\<lambda>ct'. rbind (case parentGids of Some p # _ \<Rightarrow> Inr p | _ \<Rightarrow> Inl (TypeError ''parent'')) (\<lambda>p.
         Inr (s, ct', p))))))) (\<lambda>(s, ct', p).
     abind (rp_add [] None s) (\<lambda>c.
     abind (amod (\<lambda>r. r\<lparr>p_epochBase := AList.update (c_id c) p (p_epochBase r)\<rparr>)) (\<lambda>_.
     abind (aget (\<lambda>_. rbind (commitContentId (dt_hash dt) (dt_fingerprint dt) 1 None s [p]) (\<lambda>g.
       if gid \<noteq> None \<and> gid \<noteq> Some g then Inl (Error ''content-address mismatch'')
       else rbind (cut_settled ct') (\<lambda>ids. Inr (g, case ids of Some xs \<Rightarrow> xs | None \<Rightarrow> []))))) (\<lambda>(g, ids).
     abind (amod (\<lambda>r. r\<lparr>p_gid := AList.update (c_id c) g (p_gid r), p_byGid := AList.update g (c_id c) (p_byGid r),
       p_epochDag := ep_compaction g ids (Some ct') None None EPOCH0 (p_epochDag r),
       p_epochOf := AList.update (c_id c) g (p_epochOf r)\<rparr>)) (\<lambda>_. aret g)))))"

text \<open>State and epoch of an authored, a compacted and a merged commit.\<close>

definition ingest_op ::
  "('s, 'x, 'r) rdt \<Rightarrow> nat list \<Rightarrow> json \<Rightarrow> nat \<Rightarrow> json \<Rightarrow> (('s, 'x) rep, json op_rec \<times> 's \<times> string) act"
where
  "ingest_op dt ps replica n payload =
     abind (aget (\<lambda>r. rbind (json_str replica) (\<lambda>name.
       if p_gcClosed r \<and> name \<notin> set (p_registered r) then Inl (Error ''open-membership after commit GC'')
       else (case ps of
           [] \<Rightarrow> Inl (TypeError ''parent'')
         | p # _ \<Rightarrow> rbind (dag_get (p_dag r) p) (\<lambda>pc. rbind (dt_applyOps dt (c_state pc) payload) (\<lambda>s.
             rbind (rp_epoch_of r p) (\<lambda>k. Inr (name, s, k))))))) ) (\<lambda>(name, s, k).
     abind (amod (\<lambda>r. r\<lparr>p_registered := js_add name (p_registered r), p_everAuthored := js_add name (p_everAuthored r)\<rparr>)) (\<lambda>_.
     aret (\<lparr>op_replica = name, op_seq = n, op_payload = payload\<rparr>, s, k)))"

definition ingest_compact ::
  "('s, 'x, 'r) rdt \<Rightarrow> string option \<Rightarrow> nat \<Rightarrow> json \<Rightarrow> json \<Rightarrow> (('s, 'x) rep, 's \<times> string) act"
where
  "ingest_compact dt gid p ct st =
     abind (aget (\<lambda>r. rbind (req ''decodeState'' (dt_decodeState dt)) (\<lambda>dec. rbind (dec st) (\<lambda>s.
       rbind (rp_epoch_of r p) (\<lambda>parentKey. rbind (dag_get (p_dag r) p) (\<lambda>pc.
       rbind (wire_cut ct) (\<lambda>ct'. rbind (inverse_map dt (c_state pc) s ct') (\<lambda>trInv.
       rbind (cut_settled ct') (\<lambda>ids. rbind (req ''gid'' gid) (\<lambda>g.
         Inr (s, g, case ids of Some xs \<Rightarrow> xs | None \<Rightarrow> [], ct', forward_map dt (c_state pc) ct', trInv, parentKey))))))))))) (\<lambda>(s, g, ids, ct', tr, trInv, parentKey).
     abind (rp_compaction g ids ct' tr trInv parentKey) (\<lambda>_. aret (s, g)))"

definition ingest_state ::
  "('s, 'x, 'r) rdt \<Rightarrow> string option wire_commit \<Rightarrow> nat list \<Rightarrow> (('s, 'x) rep, json op_rec option \<times> 's \<times> string) act"
where
  "ingest_state dt wc ps = (case wc_body wc of
       WOp replica n payload \<Rightarrow> abind (ingest_op dt ps replica n payload) (\<lambda>(o1, s, k). aret (Some o1, s, k))
     | WCompact ct st \<Rightarrow> abind (ingest_compact dt (wc_gid wc) (hd ps) ct st) (\<lambda>(s, k). aret (None, s, k))
     | _ \<Rightarrow> (case ps of
           a # b # _ \<Rightarrow> abind (rp_joinState dt a b) (\<lambda>(s, k). aret (None, s, k))
         | _ \<Rightarrow> afail (Error ''no such commit'')))"

text \<open>The commit is added and indexed, and only then compared with the id of the wire.\<close>

definition ingest_gate ::
  "('s, 'x, 'r) rdt \<Rightarrow> string option wire_commit \<Rightarrow> nat list \<Rightarrow> json op_rec option \<times> 's \<times> string \<Rightarrow> (('s, 'x) rep, string) act"
where
  "ingest_gate dt wc ps x = (case x of (opn, s, k) \<Rightarrow>
     abind (rp_append dt ps opn s k) (\<lambda>(i, g).
     if wc_gid wc \<noteq> None \<and> wc_gid wc \<noteq> Some g then afail (Error ''content-address mismatch'')
     else abind (case opn of Some o1 \<Rightarrow> rp_observe (op_payload o1) | None \<Rightarrow> aret ()) (\<lambda>_. aret g)))"

definition is_compact_body :: "wire_body \<Rightarrow> bool" where
  "is_compact_body b = (case b of WCompact _ _ \<Rightarrow> True | _ \<Rightarrow> False)"

text \<open>The shared root, added again when commit collection dropped it here.\<close>

definition ingest_root :: "('s, 'x, 'r) rdt \<Rightarrow> string option list \<Rightarrow> (('s, 'x) rep, unit) act" where
  "ingest_root dt parentGids = abind (aget (\<lambda>r. Inr (p_rootGid r, map_of (p_byGid r) (p_rootGid r) = None))) (\<lambda>(rootGid, absent).
     if Some rootGid \<in> set parentGids \<and> absent
     then abind (rp_append dt [] None (dt_init dt) EPOCH0) (\<lambda>(_, g).
       if g \<noteq> rootGid then afail (Error ''canonical root reconstruction mismatch'') else aret ())
     else aret ())"

definition ingest_parented ::
  "('s, 'x, 'r) rdt \<Rightarrow> string option wire_commit \<Rightarrow> string option list \<Rightarrow> nat option list \<Rightarrow> (('s, 'x) rep, string) act"
where
  "ingest_parented dt wc parentGids lps =
     (if None \<in> set lps \<and> \<not> (is_compact_body (wc_body wc) \<and> length (wc_parents wc) = 1)
      then afail (Error ''ingest: unknown parent (delta not ancestor-closed)'')
      else (case wc_body wc of
          WBase epoch fp roster prf st \<Rightarrow> ingest_base dt (wc_gid wc) (map the lps) epoch fp roster prf st
        | WCompact ct st \<Rightarrow>
            (case lps of
               Some _ # _ \<Rightarrow> abind (ingest_state dt wc (map the lps)) (ingest_gate dt wc (map the lps))
             | _ \<Rightarrow> ingest_bootstrap dt (wc_gid wc) parentGids ct st)
        | _ \<Rightarrow> abind (ingest_state dt wc (map the lps)) (ingest_gate dt wc (map the lps))))"

definition ingest_one ::
  "('s, 'x, 'r) rdt \<Rightarrow> string option wire_commit \<Rightarrow> string option \<times> nat \<Rightarrow> (('s, 'x) rep, string option \<times> nat) act"
where
  "ingest_one dt wc pa = (case pa of (prior, added) \<Rightarrow>
     abind (aget (\<lambda>r. Inr (case wc_gid wc of Some g \<Rightarrow> map_of (p_byGid r) g \<noteq> None | None \<Rightarrow> False))) (\<lambda>known.
     if known then aret (wc_gid wc, added)
     else let parentGids = map (\<lambda>g. case g of None \<Rightarrow> prior | Some _ \<Rightarrow> g) (wc_parents wc) in
       abind (ingest_root dt parentGids) (\<lambda>_.
       abind (aget (\<lambda>r. Inr (map (\<lambda>g. case g of None \<Rightarrow> None | Some x \<Rightarrow> map_of (p_byGid r) x) parentGids))) (\<lambda>lps.
       abind (ingest_parented dt wc parentGids lps) (\<lambda>g. aret (Some g, added + 1))))))"

definition rp_ingest :: "('s, 'x, 'r) rdt \<Rightarrow> string option wire_commit list \<Rightarrow> (('s, 'x) rep, nat) act" where
  "rp_ingest dt wcs = abind (afold (ingest_one dt) wcs (None, 0)) (\<lambda>(_, added).
     if added > 0 then abind rp_refresh (\<lambda>_. aret added) else aret added)"

section \<open>Merging with an advertised head\<close>

definition rp_move :: "nat \<Rightarrow> (('s, 'x) rep, string) act" where
  "rp_move b = abind (rp_set_head b) (\<lambda>_. abind rp_refresh (\<lambda>_. aget rp_headGid))"

definition pristine :: "('s, 'x) rep \<Rightarrow> (json, 's) commit \<Rightarrow> bool" where
  "pristine r c \<longleftrightarrow> p_seq r = 0 \<and> c_op c = None \<and> c_parents c = [] \<and> map_of (p_epochBase r) (p_headId r) = None"

definition rp_mergeWithGid :: "('s, 'x, 'r) rdt \<Rightarrow> string \<Rightarrow> (('s, 'x) rep, string) act" where
  "rp_mergeWithGid dt g =
     abind (aget (\<lambda>r. case map_of (p_byGid r) g of
         None \<Rightarrow> Inl (Error ''mergeWithGid: not present (ingest first)'')
       | Some b \<Rightarrow> Inr (p_headId r, b))) (\<lambda>(a, b).
     if a = b then aget rp_headGid
     else abind (aget (\<lambda>r. rbind (rp_head r) (\<lambda>c. Inr (pristine r c)))) (\<lambda>fresh.
       if fresh then rp_move b
       else abind (aget (\<lambda>r. dag_isAncestor (p_dag r) a b)) (\<lambda>ab.
         if ab then rp_move b
         else abind (aget (\<lambda>r. dag_isAncestor (p_dag r) b a)) (\<lambda>ba.
           if ba then aget rp_headGid
           else abind (rp_joinState dt a b) (\<lambda>(s, k).
             abind (rp_append dt [a, b] None s k) (\<lambda>(i, _). rp_move i))))))"

section \<open>The roster\<close>

definition rp_register :: "string \<Rightarrow> (('s, 'x) rep, unit) act" where
  "rp_register name = astep (\<lambda>r. if p_gcClosed r \<and> name \<notin> set (p_registered r)
     then Inl (Error ''open-membership after commit GC'')
     else Inr ((), r\<lparr>p_registered := js_add name (p_registered r)\<rparr>))"

definition rp_unregister :: "string \<Rightarrow> (('s, 'x) rep, bool) act" where
  "rp_unregister name = astep (\<lambda>r. if name = p_name r \<or> name \<in> set (p_everAuthored r) then Inr (False, r)
     else Inr (name \<in> set (p_registered r), r\<lparr>p_registered := filter (\<lambda>n. n \<noteq> name) (p_registered r)\<rparr>))"

definition rp_forget :: "string \<Rightarrow> (('s, 'x) rep, bool) act" where
  "rp_forget name = astep (\<lambda>r. if name = p_name r then Inr (False, r)
     else Inr (name \<in> set (p_registered r), r\<lparr>p_everAuthored := filter (\<lambda>n. n \<noteq> name) (p_everAuthored r),
       p_fetchAcks := AList.delete name (p_fetchAcks r), p_registered := filter (\<lambda>n. n \<noteq> name) (p_registered r)\<rparr>))"

definition rp_acknowledgeFetch :: "string \<Rightarrow> string \<Rightarrow> string \<Rightarrow> (('s, 'x) rep, bool) act" where
  "rp_acknowledgeFetch peer headGid epochKey = astep (\<lambda>r.
     if peer \<notin> set (p_registered r) then Inr (False, r)
     else (case map_of (p_byGid r) headGid of
         None \<Rightarrow> Inr (False, r)
       | Some cid \<Rightarrow>
           if map_of (p_epochOf r) cid \<noteq> Some epochKey then Inr (False, r)
           else rbind (case map_of (p_fetchAcks r) peer of
               None \<Rightarrow> Inr True | Some old \<Rightarrow> ep_subcut (p_epochDag r) old epochKey) (\<lambda>ok.
             if ok then Inr (True, r\<lparr>p_fetchAcks := AList.update peer epochKey (p_fetchAcks r)\<rparr>) else Inr (False, r))))"

end
