(* ===== verification/ReplicaGc.thy ===== *)
theory ReplicaGc
  imports ReplicaMerge
begin

text \<open>
  The certified collections of a replica: the stable cut over its roster, dropping a translation map
  under the double certificate, the compaction of the state, the collection of commits, the pruning of
  history to an epoch base; and the synchronisation round of two replicas over the binary wire.
\<close>

section \<open>The stable cut and the maps\<close>

definition rp_stableCut :: "('s, 'x) rep \<Rightarrow> json stable_cut res" where
  "rp_stableCut r = stableCut (p_dag r) (p_headId r) (p_registered r) (p_name r)"

datatype drop_outcome = Dropped string | NotDropped string

definition rp_dropEpochMap :: "string \<Rightarrow> certificate \<Rightarrow> (('s, 'x) rep, drop_outcome) act" where
  "rp_dropEpochMap key ce = astep (\<lambda>r. Inr (case ep_get (p_epochDag r) key of
       None \<Rightarrow> (NotDropped ''no such epoch'', r)
     | Some n \<Rightarrow>
         if en_translate n = None then (NotDropped ''no map to drop'', r)
         else if \<not> doubleCertificate ce then (NotDropped ''double certificate incomplete'', r)
         else (Dropped key, r\<lparr>p_epochDag := AList.update key (n\<lparr>en_translate := None, en_mapDropped := True\<rparr>) (p_epochDag r)\<rparr>)))"

section \<open>State compaction\<close>

datatype compaction = Kept string "string list" | Opened nat string nat

text \<open>The cut the datatype compacts at: its own shape of the certified meet, or the settled inserts.\<close>

definition compact_cut :: "('s, 'x, 'r) rdt \<Rightarrow> json eventmap \<Rightarrow> int list \<Rightarrow> cutobj" where
  "compact_cut dt meet ids = (case dt_cutFromMeet dt of
       Some f \<Rightarrow> f meet
     | None \<Rightarrow> [(''settledIds'', FSet ids), (''inflight'', FVal (JArr []))])"

definition nothing_gained :: "cstats \<Rightarrow> bool" where
  "nothing_gained st \<longleftrightarrow> st_symbolsAfter st = st_symbolsBefore st \<and>
     \<not> (st_recordsDropped st > 0 \<or> st_markPairsDropped st > 0)"

text \<open>The new frame: the commit, its id as the key of the epoch, the epoch, and the move of the head.\<close>

definition open_epoch ::
  "('s, 'x, 'r) rdt \<Rightarrow> cutobj \<Rightarrow> int list \<Rightarrow> int list \<Rightarrow> 's \<Rightarrow> 'x option \<Rightarrow> 'x option \<Rightarrow> string \<Rightarrow> (('s, 'x) rep, compaction) act"
where
  "open_epoch dt ct settled ids st tr trInv parentKey =
     abind (aget (\<lambda>r. Inr (p_headId r))) (\<lambda>h.
     abind (rp_add [h] None st) (\<lambda>c.
     abind (rp_index dt c) (\<lambda>newKey.
     abind (rp_compaction newKey settled ct tr trInv parentKey) (\<lambda>_.
     abind (rp_set_epoch (c_id c) newKey) (\<lambda>_.
     abind (rp_set_head (c_id c)) (\<lambda>_.
     abind rp_refresh (\<lambda>_.
     aget (\<lambda>r. rbind (ep_node (p_epochDag r) newKey) (\<lambda>n. Inr (Opened (length ids) newKey (en_num n)))))))))))"

definition rp_compactStable :: "('s, 'x, 'r) rdt \<Rightarrow> json option \<Rightarrow> (('s, 'x) rep, compaction) act" where
  "rp_compactStable dt op_args = (case (dt_compact dt, dt_remapState dt) of
       (Some compact, Some _) \<Rightarrow>
         abind (aget rp_stableCut) (\<lambda>sc.
         if \<not> sc_complete sc then aret (Kept ''certificate absent'' (sc_missing sc))
         else let ids = insertIds json_ins (meet_payloads (sc_meet sc)); ct = compact_cut dt (sc_meet sc) ids in
           if ids = [] then aret (Kept ''the certified stable cut is empty'' [])
           else
             abind (aget rp_head) (\<lambda>h.
             abind (aget (\<lambda>_. compact (c_state h) ct op_args)) (\<lambda>(st, tr, sts).
             if nothing_gained sts then aret (Kept ''nothing to compact at this cut'' [])
             else abind (aget (\<lambda>_. inverse_map dt (c_state h) st ct)) (\<lambda>trInv.
               abind (aget (\<lambda>r. rbind (rp_epochKey r) (\<lambda>k. rbind (cut_settled ct) (\<lambda>settled.
                 Inr (k, case settled of Some xs \<Rightarrow> xs | None \<Rightarrow> ids))))) (\<lambda>(k, settled).
               open_epoch dt ct settled ids st tr trInv k)))))
     | _ \<Rightarrow> aret (Kept ''datatype does not support state compaction'' []))"

section \<open>Commit collection\<close>

datatype gc_outcome = GcRefused nat "string list" | Collected nat nat

definition gc_heads :: "('s, 'x) rep \<Rightarrow> nat list option \<Rightarrow> nat list" where
  "gc_heads r heads = (case heads of Some hs \<Rightarrow> hs | None \<Rightarrow> p_headId r # map (\<lambda>(_, i, _). i) (p_frontier r))"

definition new_boundaries :: "('p, 's) dag \<Rightarrow> ('p, 's) dag \<Rightarrow> (nat \<times> string) list \<Rightarrow> nat list" where
  "new_boundaries old d bases = map c_id (filter (\<lambda>c. length (c_parents c) <
       (case map_of (d_commits old) (c_id c) of Some c0 \<Rightarrow> length (c_parents c0) | None \<Rightarrow> 0) \<and>
       map_of bases (c_id c) = None) (dag_values d))"

text \<open>Dropping the indexes of one commit.\<close>

definition unindex :: "nat \<Rightarrow> ('s, 'x) rep \<Rightarrow> ('s, 'x) rep" where
  "unindex i r = (r\<lparr>
     p_byGid := (case map_of (p_gid r) i of Some g \<Rightarrow> AList.delete g (p_byGid r) | None \<Rightarrow> p_byGid r),
     p_gid := AList.delete i (p_gid r), p_epochOf := AList.delete i (p_epochOf r),
     p_epochBase := AList.delete i (p_epochBase r)\<rparr>)"

definition unindex_dropped :: "('s, 'x) rep \<Rightarrow> ('s, 'x) rep" where
  "unindex_dropped r = foldl (\<lambda>r i. if dag_has (p_dag r) i then r
     else (unindex i r)\<lparr>p_gcBoundary := filter (\<lambda>j. j \<noteq> i) (p_gcBoundary r)\<rparr>) r (map fst (p_gid r))"

definition rp_gc :: "nat list option \<Rightarrow> (('s, 'x) rep, gc_outcome) act" where
  "rp_gc heads = astep (\<lambda>r.
     let missing = (if heads = None
       then filter (\<lambda>n. n \<noteq> p_name r \<and> map_of (p_frontier r) n = None) (p_registered r) else []) in
     if missing \<noteq> [] then Inr (GcRefused (dag_size (p_dag r)) missing, r)
     else rbind (runGc (p_dag r) (gc_heads r heads)) (\<lambda>(res, d).
       Inr (Collected (gc_kept res) (gc_dropped res),
         unindex_dropped (r\<lparr>p_dag := d,
           p_gcBoundary := js_add_all (new_boundaries (p_dag r) d (p_epochBase r)) (p_gcBoundary r),
           p_gcClosed := (p_gcClosed r \<or> gc_dropped res > 0)\<rparr>))))"

section \<open>Pruning to an epoch base\<close>

datatype prune_outcome = NotPruned string | Pruned nat nat

text \<open>The newest commit of the ancestry that looks like a compaction.\<close>

definition newest_step :: "('s, 'x) rep \<Rightarrow> nat \<Rightarrow> (nat \<times> nat) option \<Rightarrow> (nat \<times> nat) option res" where
  "newest_step r i best = rbind (dag_get (p_dag r) i) (\<lambda>c.
     if \<not> (c_op c = None \<and> (length (c_parents c) = 1 \<or> map_of (p_epochBase r) i \<noteq> None)) then Inr best
     else Inr (case map_of (p_epochOf r) i of
         None \<Rightarrow> best
       | Some k \<Rightarrow> (case ep_get (p_epochDag r) k of
           None \<Rightarrow> best
         | Some n \<Rightarrow> (case best of
             Some (_, m) \<Rightarrow> if m < en_num n then Some (i, en_num n) else best
           | None \<Rightarrow> Some (i, en_num n)))))"

text \<open>Every other member has authored in, or fetched, an epoch above the cut; \<open>Some\<close> names one that has not.\<close>

definition past_step :: "('s, 'x) rep \<Rightarrow> string \<Rightarrow> string \<Rightarrow> string option \<Rightarrow> string option res" where
  "past_step r kKey n behind = (if n = p_name r \<or> behind \<noteq> None then Inr behind
     else rbind (case map_of (p_frontier r) n of
           None \<Rightarrow> Inr False
         | Some (i, _) \<Rightarrow> rbind (rp_epoch_of r i) (ep_subcut (p_epochDag r) kKey)) (\<lambda>authoredPastCut.
       rbind (case map_of (p_fetchAcks r) n of
           None \<Rightarrow> Inr False
         | Some k \<Rightarrow> ep_subcut (p_epochDag r) kKey k) (\<lambda>fetchPastCut.
       Inr (if \<not> authoredPastCut \<and> \<not> fetchPastCut then Some n else None))))"

definition drop_commit :: "nat \<Rightarrow> ('s, 'x) rep \<Rightarrow> ('s, 'x) rep" where
  "drop_commit i r = unindex i (r\<lparr>p_dag := dag_remove (p_dag r) i\<rparr>)"

definition drop_below :: "nat list \<Rightarrow> ('s, 'x) rep \<Rightarrow> ('s, 'x) rep" where
  "drop_below ids r = foldl (\<lambda>r i. if dag_has (p_dag r) i then drop_commit i r else r) r ids"

definition prune_at :: "nat \<Rightarrow> nat \<Rightarrow> nat \<Rightarrow> (('s, 'x) rep, prune_outcome) act" where
  "prune_at K kNum p = abind (astep (\<lambda>r. rbind (dag_ancestorSet (p_dag r) p) (\<lambda>below.
       rbind (rp_gid r p) (\<lambda>g. rbind (dag_sever (p_dag r) K) (\<lambda>d.
         Inr (Pruned (length (filter (dag_has d) below)) kNum,
           drop_below below (r\<lparr>p_dag := d, p_epochBase := AList.update K g (p_epochBase r)\<rparr>)))))))
     (\<lambda>res. abind rp_refresh (\<lambda>_. aret res))"

definition rp_pruneToEpochBase :: "(('s, 'x) rep, prune_outcome) act" where
  "rp_pruneToEpochBase =
     abind (aget (\<lambda>r. rbind (dag_ancestorSet (p_dag r) (p_headId r)) (\<lambda>A. foldM (newest_step r) A None))) (\<lambda>best.
     case best of
       None \<Rightarrow> aret (NotPruned ''no compaction in ancestry'')
     | Some (K, kNum) \<Rightarrow>
         abind (aget (\<lambda>r. dag_get (p_dag r) K)) (\<lambda>c. case c_parents c of
             [] \<Rightarrow> aret (NotPruned ''already the epoch base'')
           | p # _ \<Rightarrow>
               abind (aget (\<lambda>r. rbind (rp_stableCut r) (\<lambda>sc. rbind (rp_epoch_of r K) (\<lambda>kKey.
                 if \<not> sc_complete sc then Inr (Some ''cut incomplete'')
                 else rbind (foldM (past_step r kKey) (p_registered r) None) (\<lambda>behind.
                   Inr (case behind of None \<Rightarrow> None | Some _ \<Rightarrow> Some ''evidence has not reached the compaction cut'')))))) (\<lambda>why.
               case why of Some reason \<Rightarrow> aret (NotPruned reason) | None \<Rightarrow> prune_at K kNum p)))"

definition rp_symbolCount :: "('s \<Rightarrow> nat) option \<Rightarrow> ('s, 'x) rep \<Rightarrow> nat res" where
  "rp_symbolCount count r = (case count of
       None \<Rightarrow> Inl (Error ''datatype has no symbolCount cost probe'')
     | Some f \<Rightarrow> rbind (rp_head r) (\<lambda>c. Inr (f (c_state c))))"

section \<open>A synchronisation round\<close>

definition on_fst :: "('a, 'c) act \<Rightarrow> ('a \<times> 'b, 'c) act" where
  "on_fst m s = (case m (fst s) of (x, a) \<Rightarrow> (x, a, snd s))"

definition on_snd :: "('b, 'c) act \<Rightarrow> ('a \<times> 'b, 'c) act" where
  "on_snd m s = (case m (snd s) of (x, b) \<Rightarrow> (x, fst s, b))"

text \<open>The delta as it arrives: encoded, decoded, and taken as the commits of the message.\<close>

definition over_wire :: "(string \<Rightarrow> string \<Rightarrow> bool) \<Rightarrow> string wire_commit list \<Rightarrow> string option wire_commit list res" where
  "over_wire lc cs = rbind (encodeWire lc (MDelta cs)) (\<lambda>bytes. rbind (decodeWire bytes) (\<lambda>m. case m of
       MDelta ws \<Rightarrow> mapM wire_in ws
     | MValue _ \<Rightarrow> Inl (TypeError ''delta'')))"

definition syncReplicas :: "(string \<Rightarrow> string \<Rightarrow> bool) \<Rightarrow> ('s, 'x, 'r) rdt \<Rightarrow> (('s, 'x) rep \<times> ('s, 'x) rep, unit) act" where
  "syncReplicas lc dt =
     abind (aget (\<lambda>(a, b). rbind (rp_ancestryGids a) (\<lambda>hasA. rbind (rp_ancestryGids b) (\<lambda>hasB.
       rbind (rp_delta dt hasB a) (\<lambda>toB. rbind (rp_delta dt hasA b) (\<lambda>toA.
       rbind (rp_headGid a) (\<lambda>aHead. rbind (rp_headGid b) (\<lambda>bHead. Inr (toB, toA, aHead, bHead))))))))) (\<lambda>(toB, toA, aHead, bHead).
     abind (aget (\<lambda>_. over_wire lc toB)) (\<lambda>inB. abind (on_snd (rp_ingest dt inB)) (\<lambda>_.
     abind (aget (\<lambda>_. over_wire lc toA)) (\<lambda>inA. abind (on_fst (rp_ingest dt inA)) (\<lambda>_.
     abind (on_snd (rp_mergeWithGid dt aHead)) (\<lambda>_. abind (on_fst (rp_mergeWithGid dt bHead)) (\<lambda>_.
     abind (aget (\<lambda>(a, b). rbind (rp_headGid b) (\<lambda>g. rbind (rp_epochKey b) (\<lambda>k. Inr (p_name b, g, k))))) (\<lambda>(n, g, k).
     abind (on_fst (rp_acknowledgeFetch n g k)) (\<lambda>_.
     abind (aget (\<lambda>(a, b). rbind (rp_headGid a) (\<lambda>g. rbind (rp_epochKey a) (\<lambda>k. Inr (p_name a, g, k))))) (\<lambda>(n, g, k).
     abind (on_snd (rp_acknowledgeFetch n g k)) (\<lambda>_. aret ())))))))))))"

end
