(* ===== verification/ReplicaInv.thy ===== *)
theory ReplicaInv
  imports ReplicaGc EpochSound
begin

text \<open>
  The invariant of a replica and its preservation by every operation, whether it returns or throws:
  the store and the epoch graph are well formed, the two content-id indexes agree, every indexed
  commit is in the store and has a registered epoch, and its content id is the one recomputed from
  the commit wherever its parents are still indexed.
\<close>

section \<open>The invariant\<close>

definition content_ok :: "('s, 'x, 'r) rdt \<Rightarrow> ('s, 'x) rep \<Rightarrow> bool" where
  "content_ok dt r \<longleftrightarrow> (\<forall>i g c. map_of (p_gid r) i = Some g \<longrightarrow> map_of (d_commits (p_dag r)) i = Some c \<longrightarrow>
     i \<notin> set (p_gcBoundary r) \<longrightarrow> map_of (p_epochBase r) i = None \<longrightarrow>
     (\<forall>p \<in> set (c_parents c). map_of (p_gid r) p \<noteq> None) \<longrightarrow> rp_gidOf dt r c = Inr g)"

definition index_ok :: "('s, 'x) rep \<Rightarrow> bool" where
  "index_ok r \<longleftrightarrow>
     (\<forall>i g. map_of (p_gid r) i = Some g \<longrightarrow> dag_has (p_dag r) i \<and> map_of (p_epochOf r) i \<noteq> None) \<and>
     (\<forall>g i. map_of (p_byGid r) g = Some i \<longrightarrow> map_of (p_gid r) i = Some g)"

definition epochs_ok :: "('s, 'x) rep \<Rightarrow> bool" where
  "epochs_ok r \<longleftrightarrow> epoch_wf (p_epochDag r) \<and> ep_has (p_epochDag r) EPOCH0 \<and>
     (\<forall>i k. map_of (p_epochOf r) i = Some k \<longrightarrow> ep_has (p_epochDag r) k) \<and>
     (\<forall>n k. map_of (p_fetchAcks r) n = Some k \<longrightarrow> ep_has (p_epochDag r) k)"

definition rep_base :: "('s, 'x, 'r) rdt \<Rightarrow> ('s, 'x) rep \<Rightarrow> bool" where
  "rep_base dt r \<longleftrightarrow> dag_wf (p_dag r) \<and> index_ok r \<and> epochs_ok r \<and> content_ok dt r \<and> p_name r \<in> set (p_registered r)"

definition has_head :: "('s, 'x) rep \<Rightarrow> bool" where
  "has_head r \<longleftrightarrow> map_of (p_gid r) (p_headId r) \<noteq> None"

definition rep_inv :: "('s, 'x, 'r) rdt \<Rightarrow> ('s, 'x) rep \<Rightarrow> bool" where
  "rep_inv dt r \<longleftrightarrow> rep_base dt r \<and> has_head r"

text \<open>An update that leaves the fields of the invariant alone.\<close>

definition same_core :: "('s, 'x) rep \<Rightarrow> ('s, 'x) rep \<Rightarrow> bool" where
  "same_core r r' \<longleftrightarrow> p_dag r' = p_dag r \<and> p_gid r' = p_gid r \<and> p_byGid r' = p_byGid r \<and> p_epochDag r' = p_epochDag r \<and>
     p_epochOf r' = p_epochOf r \<and> p_epochBase r' = p_epochBase r \<and> p_gcBoundary r' = p_gcBoundary r \<and>
     p_fetchAcks r' = p_fetchAcks r \<and> p_name r' = p_name r \<and> (p_name r \<in> set (p_registered r) \<longrightarrow> p_name r \<in> set (p_registered r'))"

lemma rep_base_core:
  assumes "same_core r r'" and "rep_base dt r"
  shows "rep_base dt r'"
proof -
  have "rp_gid r' = rp_gid r" using assms(1) by (simp add: same_core_def rp_gid_def fun_eq_iff)
  then have g: "rp_gidOf dt r' = rp_gidOf dt r" by (intro ext) (simp add: rp_gidOf_def)
  show ?thesis
    using assms g by (simp add: same_core_def rep_base_def index_ok_def epochs_ok_def content_ok_def)
qed

lemma rep_inv_core: "same_core r r' \<Longrightarrow> p_headId r' = p_headId r \<Longrightarrow> rep_inv dt r \<Longrightarrow> rep_inv dt r'"
  using rep_base_core by (auto simp: rep_inv_def has_head_def same_core_def)

lemma rp_gid_cong: "(\<And>i. i \<in> set ps \<Longrightarrow> map_of (p_gid r') i = map_of (p_gid r) i) \<Longrightarrow> mapM (rp_gid r') ps = mapM (rp_gid r) ps"
  by (induction ps) (simp_all add: rp_gid_def)

lemma rp_gidOf_cong:
  "(\<And>i. i \<in> set (c_parents c) \<Longrightarrow> map_of (p_gid r') i = map_of (p_gid r) i) \<Longrightarrow> rp_gidOf dt r' c = rp_gidOf dt r c"
  using rp_gid_cong [of "c_parents c" r' r] by (simp add: rp_gidOf_def)

lemma rp_gidOf_parents:
  assumes "rp_gidOf dt r c = Inr g"
  shows "\<forall>p \<in> set (c_parents c). map_of (p_gid r) p \<noteq> None"
proof -
  have "mapM (rp_gid r) ps = Inr gs \<Longrightarrow> p \<in> set ps \<Longrightarrow> map_of (p_gid r) p \<noteq> None" for ps gs p
    by (induction ps arbitrary: gs) (auto simp: rbind_eq_Inr rp_gid_def)
  then show ?thesis using assms by (auto simp: rp_gidOf_def rbind_eq_Inr)
qed

section \<open>The steps that build commits\<close>

text \<open>The commit that was stored last and is not yet indexed.\<close>

definition stored :: "(json, 's) commit \<Rightarrow> ('s, 'x) rep \<Rightarrow> bool" where
  "stored c r \<longleftrightarrow> map_of (d_commits (p_dag r)) (c_id c) = Some c \<and> map_of (p_gid r) (c_id c) = None \<and>
     d_next (p_dag r) = Suc (c_id c)"

lemma add_base:
  assumes "rep_base dt r" and "dag_add (p_dag r) ps opn st = Inr (c, d)"
  shows "rep_base dt (r\<lparr>p_dag := d\<rparr>)" and "stored c (r\<lparr>p_dag := d\<rparr>)" and "c_parents c = ps" and "c_op c = opn" and "c_state c = st"
proof -
  note a = dag_add_Inr [OF assms(2)]
  have wf: "dag_wf (p_dag r)" using assms(1) by (simp add: rep_base_def)
  have new: "\<not> dag_has (p_dag r) (d_next (p_dag r))"
    using dag_wf_get [OF wf, of "d_next (p_dag r)"] by (cases "map_of (d_commits (p_dag r)) (d_next (p_dag r))") (simp_all add: dag_has_def)
  have idx: "index_ok r" using assms(1) by (simp add: rep_base_def)
  then have un: "map_of (p_gid r) (d_next (p_dag r)) = None"
    using new unfolding index_ok_def by (metis not_None_eq)
  have has: "dag_has d i" if "dag_has (p_dag r) i" for i using that a(3) by (simp add: dag_has_def)
  have "content_ok dt (r\<lparr>p_dag := d\<rparr>)"
  proof -
    have "rp_gidOf dt (r\<lparr>p_dag := d\<rparr>) x = rp_gidOf dt r x" for x by (rule rp_gidOf_cong) simp
    moreover have "map_of (d_commits d) i = map_of (d_commits (p_dag r)) i" if "map_of (p_gid r) i = Some g" for i g
      using that un a(3) by auto
    ultimately show ?thesis using assms(1) by (auto simp: rep_base_def content_ok_def)
  qed
  then show "rep_base dt (r\<lparr>p_dag := d\<rparr>)"
    using assms(1) dag_add_wf [OF wf assms(2)] has by (auto simp: rep_base_def index_ok_def epochs_ok_def)
  show "stored c (r\<lparr>p_dag := d\<rparr>)" using a un by (simp add: stored_def)
  show "c_parents c = ps" "c_op c = opn" "c_state c = st" using a(2) by simp_all
qed

lemma set_epoch_base:
  "rep_base dt r \<Longrightarrow> ep_has (p_epochDag r) k \<Longrightarrow> rep_base dt (r\<lparr>p_epochOf := AList.update i k (p_epochOf r)\<rparr>)"
  unfolding rep_base_def index_ok_def epochs_ok_def content_ok_def rp_gidOf_def rp_gid_def
  by (auto simp: update_conv')

text \<open>Indexing a stored commit under the content id computed from it, or under a given one as a boundary or a base.\<close>

lemma index_base:
  assumes r: "rep_base dt r" and c: "stored c r" and e: "map_of (p_epochOf r) (c_id c) \<noteq> None"
    and g: "rp_gidOf dt r c = Inr g \<or> c_id c \<in> set (p_gcBoundary r) \<or> map_of (p_epochBase r) (c_id c) \<noteq> None"
  shows "rep_base dt (r\<lparr>p_gid := AList.update (c_id c) g (p_gid r), p_byGid := AList.update g (c_id c) (p_byGid r)\<rparr>)"
    (is "rep_base dt ?r")
proof -
  have st: "map_of (d_commits (p_dag r)) (c_id c) = Some c" "map_of (p_gid r) (c_id c) = None" using c by (simp_all add: stored_def)
  have wf: "dag_wf (p_dag r)" using r by (simp add: rep_base_def)
  have old: "map_of (p_gid r) i \<noteq> None \<Longrightarrow> map_of (p_gid ?r) i = map_of (p_gid r) i" for i
    using st(2) by (auto simp: update_conv')
  have "index_ok ?r" using r e st unfolding rep_base_def index_ok_def
    by (auto simp: update_conv' dag_has_def)
  moreover have "content_ok dt ?r" unfolding content_ok_def
  proof (intro allI impI)
    fix i g' x
    assume a: "map_of (p_gid ?r) i = Some g'" "map_of (d_commits (p_dag ?r)) i = Some x" "i \<notin> set (p_gcBoundary ?r)"
      "map_of (p_epochBase ?r) i = None" "\<forall>p \<in> set (c_parents x). map_of (p_gid ?r) p \<noteq> None"
    show "rp_gidOf dt ?r x = Inr g'"
    proof (cases "i = c_id c")
      case True
      then have "x = c" "g' = g" using a(1,2) st by (auto simp: update_conv')
      then have "rp_gidOf dt r c = Inr g'" using g a(3,4) True by auto
      moreover from rp_gidOf_parents [OF this] old have "rp_gidOf dt ?r c = rp_gidOf dt r c" by (intro rp_gidOf_cong) blast
      ultimately show ?thesis using \<open>x = c\<close> by simp
    next
      case False
      then have i: "map_of (p_gid r) i = Some g'" using a(1) by (simp add: update_conv')
      have "i < c_id c" "\<forall>p \<in> set (c_parents x). p < i"
        using dag_wf_get [OF wf, of i x] a(2) c False by (auto simp: stored_def)
      then have same: "map_of (p_gid ?r) p = map_of (p_gid r) p" if "p \<in> set (c_parents x)" for p
        using that by (auto simp: update_conv')
      then have "rp_gidOf dt ?r x = rp_gidOf dt r x" by (rule rp_gidOf_cong)
      then show ?thesis using r a i same unfolding rep_base_def content_ok_def by simp
    qed
  qed
  ultimately show ?thesis using r by (simp add: rep_base_def epochs_ok_def)
qed

lemma rp_append_unfold:
  "rp_append dt ps opn st k r = (case dag_add (p_dag r) ps opn st of
      Inl e \<Rightarrow> (Inl e, r)
    | Inr (c, d) \<Rightarrow>
        let r1 = r\<lparr>p_dag := d, p_epochOf := AList.update (c_id c) k (p_epochOf r)\<rparr> in
        (case rp_gidOf dt r1 c of
           Inl e \<Rightarrow> (Inl e, r1)
         | Inr g \<Rightarrow> (Inr (c_id c, g), r1\<lparr>p_gid := AList.update (c_id c) g (p_gid r1),
             p_byGid := AList.update g (c_id c) (p_byGid r1)\<rparr>)))"
  by (simp add: rp_append_def rp_add_def rp_set_epoch_def rp_index_def abind_def astep_def amod_def aret_def rbind_def Let_def
      split: sum.split prod.split)

lemma has_head_update: "has_head r \<Longrightarrow> has_head (r\<lparr>p_gid := AList.update i g (p_gid r)\<rparr>)"
  by (simp add: has_head_def update_conv')

lemma rp_append_ok:
  "ensures (\<lambda>r. rep_base dt r \<and> ep_has (p_epochDag r) k \<and> (h \<longrightarrow> has_head r)) (rp_append dt ps opn st k)
     (\<lambda>x r. rep_base dt r \<and> (h \<longrightarrow> has_head r) \<and> map_of (p_gid r) (fst x) \<noteq> None) (\<lambda>r. rep_base dt r \<and> (h \<longrightarrow> has_head r))"
proof -
  have main: "case rp_append dt ps opn st k r of
      (Inl e, r') \<Rightarrow> rep_base dt r' \<and> (h \<longrightarrow> has_head r')
    | (Inr x, r') \<Rightarrow> rep_base dt r' \<and> (h \<longrightarrow> has_head r') \<and> map_of (p_gid r') (fst x) \<noteq> None"
    if p: "rep_base dt r \<and> ep_has (p_epochDag r) k \<and> (h \<longrightarrow> has_head r)" for r
  proof (cases "dag_add (p_dag r) ps opn st")
    case (Inl e)
    then show ?thesis using p by (simp add: rp_append_unfold)
  next
    case (Inr cd)
    obtain c d where cd: "cd = (c, d)" by force
    note a = add_base [OF conjunct1 [OF p] Inr [unfolded cd]]
    let ?r1 = "r\<lparr>p_dag := d, p_epochOf := AList.update (c_id c) k (p_epochOf r)\<rparr>"
    have r1: "rep_base dt ?r1" using set_epoch_base [OF a(1), of k "c_id c"] p by simp
    have st: "stored c ?r1" using a(2) by (simp add: stored_def)
    have hd: "h \<longrightarrow> has_head ?r1" using p by (simp add: has_head_def)
    show ?thesis
    proof (cases "rp_gidOf dt ?r1 c")
      case i: (Inl e)
      then show ?thesis using Inr cd r1 hd by (simp add: rp_append_unfold)
    next
      case g: (Inr g)
      have "rep_base dt (?r1\<lparr>p_gid := AList.update (c_id c) g (p_gid ?r1), p_byGid := AList.update g (c_id c) (p_byGid ?r1)\<rparr>)"
        by (rule index_base [OF r1 st]) (use g in \<open>simp_all add: update_conv'\<close>)
      then show ?thesis using Inr cd g hd by (simp add: rp_append_unfold has_head_def update_conv')
    qed
  qed
  then show ?thesis unfolding ensures_def by (simp split: prod.split sum.split)
qed

lemma rp_refresh_ok: "ensures (rep_inv dt) rp_refresh (\<lambda>_. rep_inv dt) (rep_inv dt)"
  unfolding rp_refresh_def
  by (rule ensures_step) (auto simp: rbind_eq_Inr same_core_def elim!: rep_inv_core [rotated 2])

lemma rp_set_head_ok:
  "ensures (\<lambda>r. rep_base dt r \<and> map_of (p_gid r) i \<noteq> None) (rp_set_head i) (\<lambda>_. rep_inv dt) E"
  unfolding rp_set_head_def
  by (rule ensures_mod) (auto simp: rep_inv_def has_head_def same_core_def elim!: rep_base_core [rotated])

lemma rp_move_ok: "ensures (\<lambda>r. rep_base dt r \<and> map_of (p_gid r) b \<noteq> None) (rp_move b) (\<lambda>_. rep_inv dt) (rep_inv dt)"
  unfolding rp_move_def
  by (rule ensures_bind [OF rp_set_head_ok], rule ensures_bind [OF rp_refresh_ok], rule ensures_get) auto

section \<open>Epochs\<close>

lemma ep_has_update [simp]: "ep_has (AList.update key n ep) k \<longleftrightarrow> k = key \<or> ep_has ep k"
  by (auto simp: ep_has_def update_conv')

lemma ep_has_compaction [simp]: "ep_has (ep_compaction key ids ct tr trInv parentKey ep) k \<longleftrightarrow> k = key \<or> ep_has ep k"
  by (simp add: ep_compaction_def split: option.split)

lemma ep_join_has: "ep_join U V ep = Inr (key, ep') \<Longrightarrow> ep_has ep k \<Longrightarrow> ep_has ep' k"
  by (auto simp: ep_join_def rbind_eq_Inr Let_def split: if_splits)

lemma epochs_change:
  assumes "rep_base dt r" and "epoch_wf ep" and "\<And>k. ep_has (p_epochDag r) k \<Longrightarrow> ep_has ep k"
  shows "rep_base dt (r\<lparr>p_epochDag := ep\<rparr>)"
proof -
  have g: "rp_gidOf dt (r\<lparr>p_epochDag := ep\<rparr>) = rp_gidOf dt r" by (intro ext rp_gidOf_cong) simp
  show ?thesis using assms unfolding rep_base_def epochs_ok_def index_ok_def content_ok_def g by auto
qed

abbreviation inv_in :: "('s, 'x, 'r) rdt \<Rightarrow> string set \<Rightarrow> ('s, 'x) rep \<Rightarrow> bool" where
  "inv_in dt K r \<equiv> rep_inv dt r \<and> (\<forall>k \<in> K. ep_has (p_epochDag r) k)"

lemma rp_join_epochs_ok: "ensures (inv_in dt K) (rp_join_epochs ea eb) (\<lambda>_. inv_in dt K) (rep_inv dt)"
proof -
  have "inv_in dt K (r\<lparr>p_epochDag := ep\<rparr>)" if "inv_in dt K r" "ep_join ea eb (p_epochDag r) = Inr (key, ep)" for r key ep
    using that epochs_change [of dt r ep] ep_join_wf [OF _ that(2)] ep_join_has [OF that(2)]
    by (auto simp: rep_inv_def has_head_def rep_base_def [of dt r] epochs_ok_def)
  then show ?thesis unfolding rp_join_epochs_def
    by (intro ensures_if ensures_ret ensures_step) (auto simp: rbind_pair_Inr)
qed

lemma mergeInFrame_key: "mergeInFrame dt l a b k = Inr x \<Longrightarrow> snd x = k"
  by (auto simp: mergeInFrame_def rbind_eq_Inr split: option.splits if_splits)

abbreviation frame_post :: "('s, 'x, 'r) rdt \<Rightarrow> 's \<times> string \<Rightarrow> ('s, 'x) rep \<Rightarrow> bool" where
  "frame_post dt x r \<equiv> rep_inv dt r \<and> ep_has (p_epochDag r) (snd x)"

lemma merge_ok: "k \<in> K \<Longrightarrow> ensures (inv_in dt K) (aget (\<lambda>_. mergeInFrame dt l a b k)) (frame_post dt) (rep_inv dt)"
  by (rule ensures_get) (auto dest: mergeInFrame_key)

lemma join_merge_ok:
  "k \<in> K \<Longrightarrow> ensures (inv_in dt K) (abind (rp_join_epochs ea eb) (\<lambda>_. aget (\<lambda>_. mergeInFrame dt l a b k))) (frame_post dt) (rep_inv dt)"
  by (rule ensures_bind [OF rp_join_epochs_ok merge_ok])

lemma root_epoch: "rep_inv dt r \<Longrightarrow> ep_has (p_epochDag r) EPOCH0"
  by (simp add: rep_inv_def rep_base_def epochs_ok_def)

lemma rp_join_at_root_ok: "ensures (rep_inv dt) (rp_join_at_root dt err base a b) (frame_post dt) (rep_inv dt)"
  unfolding rp_join_at_root_def
proof (rule ensures_get_bind, goal_cases)
  case (2 x)
  show ?case
    by (cases x) (auto intro!: ensures_pre [OF _ join_merge_ok [of EPOCH0 "{EPOCH0}"]] simp: root_epoch)
qed

lemma rp_join_headless_ok: "ensures (inv_in dt {fst a}) (rp_join_headless dt i j a b) (frame_post dt) (rep_inv dt)"
  unfolding rp_join_headless_def
  by (intro ensures_if merge_ok) (auto intro: ensures_pre [OF _ rp_join_at_root_ok])

lemma rp_join_over_ok: "ensures (inv_in dt {fst l, fst a}) (rp_join_over dt l a b) (frame_post dt) (rep_inv dt)"
  unfolding rp_join_over_def
proof (intro ensures_if merge_ok, goal_cases)
  case 2
  show ?case
  proof (rule ensures_get_bind, goal_cases)
    case (2 lUp)
    show ?case
    proof (cases lUp)
      case None
      have "ensures (inv_in dt {fst l, fst a}) (case (aE, bE) of
             (Some a', Some b') \<Rightarrow> abind (rp_join_epochs (fst a) (fst b)) (\<lambda>_. aget (\<lambda>_. mergeInFrame dt (snd l) a' b' (fst l)))
           | _ \<Rightarrow> rp_join_at_root dt err base a b) (frame_post dt) (rep_inv dt)" for aE bE err base
        by (cases aE; cases bE; simp only: prod.case option.case)
           ((rule join_merge_ok ensures_pre [OF _ rp_join_at_root_ok]; simp)+)
      note over = this [unfolded prod.case]
      show ?thesis unfolding None option.case
      proof (rule ensures_get_bind, goal_cases)
        case (2 y)
        show ?case by (cases y, simp only: prod.case, rule ensures_pre [OF _ over]) simp
      qed simp
    qed (auto intro!: ensures_pre [OF _ merge_ok [of "fst a" "{fst l, fst a}"]])
  qed simp
qed simp

lemma rp_baseFor_epoch:
  assumes "rep_inv dt r" and "rp_baseFor dt r S w = Inr (s, k)"
  shows "ep_has (p_epochDag r) k"
proof -
  have "e \<in> set es \<Longrightarrow> ep_has (p_epochDag r) e" if "mapM (rp_epoch_of r) m = Inr es" for m es e
    using that
  proof (induction m arbitrary: es)
    case (Cons i m)
    then show ?case using assms(1) by (auto simp: rbind_eq_Inr rp_epoch_of_def rep_inv_def rep_base_def epochs_ok_def)
  qed simp
  moreover from assms(2) obtain m es where m: "mcas_of (p_dag r) S w = Inr m" "mapM (rp_epoch_of r) m = Inr es"
    "k = (if list_all (\<lambda>e. e = hd es) es then hd es else EPOCH0)"
    by (auto simp: rp_baseFor_def rbind_eq_Inr Let_def)
  moreover have "es \<noteq> []" using m(1,2) mapM_length [OF m(2)] by (auto simp: mcas_of_def rbind_eq_Inr split: if_splits)
  ultimately show ?thesis using root_epoch [OF assms(1)] by (metis list.set_sel(1))
qed

lemma rp_joinState_ok: "ensures (rep_inv dt) (rp_joinState dt i j) (frame_post dt) (rep_inv dt)"
  unfolding rp_joinState_def
proof (rule ensures_get_bind, goal_cases)
  case (2 x)
  obtain a b base where x: "x = (a, b, base)" by (cases x)
  let ?g = "\<lambda>r. rbind (dag_get (p_dag r) i) (\<lambda>a. rbind (dag_get (p_dag r) j) (\<lambda>b.
       rbind (rp_epoch_of r i) (\<lambda>ea. rbind (rp_epoch_of r j) (\<lambda>eb.
         Inr ((ea, c_state a), (eb, c_state b), rp_baseFor dt r [i] j)))))"
  have a: "inv_in dt {fst a} r" if "rep_inv dt r" "?g r = Inr x" for r
    using that x by (auto simp: rbind_eq_Inr rp_epoch_of_def rep_inv_def rep_base_def epochs_ok_def)
  have l: "ep_has (p_epochDag r) (fst (el, lS))" if "rep_inv dt r" "?g r = Inr x" "base = Inr (lS, el)" for r el lS
    using that x rp_baseFor_epoch [of dt r "[i]" j] by (auto simp: rbind_eq_Inr)
  show ?case unfolding x prod.case
  proof (cases base)
    case (Inr y)
    obtain lS el where y: "y = (lS, el)" by force
    show "ensures (\<lambda>r. rep_inv dt r \<and> ?g r = Inr (a, b, base)) (case base of
         Inr (lState, el) \<Rightarrow> rp_join_over dt (el, lState) a b
       | Inl e \<Rightarrow> (case e of
           NoCommonAncestor _ _ \<Rightarrow> if dt_headOnlyMerge dt then rp_join_headless dt i j a b else afail e
         | _ \<Rightarrow> afail e)) (frame_post dt) (rep_inv dt)"
      unfolding Inr sum.case y prod.case
      by (rule ensures_pre [OF _ rp_join_over_ok]) (use a l x Inr y in auto)
  next
    case (Inl e)
    show "ensures (\<lambda>r. rep_inv dt r \<and> ?g r = Inr (a, b, base)) (case base of
         Inr (lState, el) \<Rightarrow> rp_join_over dt (el, lState) a b
       | Inl e \<Rightarrow> (case e of
           NoCommonAncestor _ _ \<Rightarrow> if dt_headOnlyMerge dt then rp_join_headless dt i j a b else afail e
         | _ \<Rightarrow> afail e)) (frame_post dt) (rep_inv dt)"
      unfolding Inl sum.case
      by (cases e) (auto intro!: ensures_fail ensures_pre [OF _ rp_join_headless_ok] ensures_if dest: a [unfolded x Inl])
  qed
qed simp

section \<open>Local operations\<close>

abbreviation keeps :: "(('s, 'x) rep \<Rightarrow> bool) \<Rightarrow> (('s, 'x) rep, 'a) act \<Rightarrow> bool" where
  "keeps I m \<equiv> ensures I m (\<lambda>_. I) I"

lemma rp_append_inv:
  "ensures (inv_in dt {k}) (rp_append dt ps opn st k) (\<lambda>x r. rep_inv dt r \<and> map_of (p_gid r) (fst x) \<noteq> None) (rep_inv dt)"
  by (rule ensures_pre [OF _ ensures_post [OF rp_append_ok [where h = True]]]) (auto simp: rep_inv_def)

lemma rp_observe_keeps: "ensures (inv_in dt K) (rp_observe p) (\<lambda>_. inv_in dt K) E"
  unfolding rp_observe_def by (rule ensures_mod) (auto simp: same_core_def elim!: rep_inv_core [rotated 2])

lemma rp_generate_keeps: "keeps (rep_inv dt) (rp_generate x)"
  unfolding rp_generate_def
  by (rule ensures_step) (auto simp: rbind_pair_Inr same_core_def split: option.splits elim!: rep_inv_core [rotated 2])

lemma rp_mintTime_keeps: "keeps (rep_inv dt) rp_mintTime"
  unfolding rp_mintTime_def
  by (rule ensures_step) (auto simp: rbind_pair_Inr same_core_def split: option.splits elim!: rep_inv_core [rotated 2])

lemma rp_generateBatch_keeps: "keeps (rep_inv dt) (rp_generateBatch xs)"
  unfolding rp_generateBatch_def by (rule ensures_fold, rule ensures_bind [OF rp_generate_keeps], rule ensures_ret)

lemma epoch_of_has: "rep_inv dt r \<Longrightarrow> rp_epoch_of r i = Inr k \<Longrightarrow> ep_has (p_epochDag r) k"
  by (simp add: rp_epoch_of_def rep_inv_def rep_base_def epochs_ok_def)

lemma head_move_ok:
  "ensures (\<lambda>r. rep_inv dt r \<and> map_of (p_gid r) i \<noteq> None) (abind (rp_set_head i) (\<lambda>_. abind rp_refresh (\<lambda>_. aret g)))
     (\<lambda>_. rep_inv dt) (rep_inv dt)"
  by (rule ensures_pre [OF _ ensures_bind [OF rp_set_head_ok ensures_bind [OF rp_refresh_ok ensures_ret]]])
     (auto simp: rep_inv_def)

lemma rp_seal_keeps: "keeps (rep_inv dt) (rp_seal dt prepared st)"
  unfolding rp_seal_def
proof (rule ensures_bind [OF ensures_pre [OF _ rp_observe_keeps [where dt = dt and K = "{}"]]], goal_cases)
  case (2 u)
  show ?case
  proof (rule ensures_get_bind, goal_cases)
    case (2 x)
    obtain h name n k where x: "x = (h, name, n, k)" by (cases x)
    have inv: "inv_in dt {k} (r\<lparr>p_seq := Suc n\<rparr>)"
      if "inv_in dt {} r \<and> rbind (rp_epochKey r) (\<lambda>k. Inr (p_headId r, p_name r, p_seq r, k)) = Inr x" for r
      using that rep_inv_core [of r "r\<lparr>p_seq := Suc n\<rparr>" dt] epoch_of_has [of dt r "p_headId r" k] x
      by (auto simp: rp_epochKey_def rbind_eq_Inr same_core_def)
    show ?case unfolding x prod.case
    proof (rule ensures_bind [where R = "\<lambda>_. inv_in dt {k}"])
      show "ensures (\<lambda>r. inv_in dt {} r \<and> rbind (rp_epochKey r) (\<lambda>k. Inr (p_headId r, p_name r, p_seq r, k)) = Inr (h, name, n, k))
          (amod (p_seq_update (\<lambda>_. Suc n))) (\<lambda>_. inv_in dt {k}) (rep_inv dt)"
        using inv x by (intro ensures_mod) blast
    next
      fix v :: unit
      show "ensures (inv_in dt {k}) (abind (rp_append dt [h] (Some \<lparr>op_replica = name, op_seq = n, op_payload = prepared\<rparr>) st k)
          (\<lambda>(i, g). abind (rp_set_head i) (\<lambda>_. abind rp_refresh (\<lambda>_. aret g)))) (\<lambda>_. rep_inv dt) (rep_inv dt)"
        by (rule ensures_bind [OF rp_append_inv]) (simp only: split_beta, rule head_move_ok)
    qed
  qed simp
qed simp

lemma ensures_get_keeps: "(\<And>x. keeps I (f x)) \<Longrightarrow> keeps I (abind (aget g) f)"
  by (rule ensures_get_bind) (auto intro: ensures_pre)

lemma get_keeps: "keeps I (aget g)"
  by (rule ensures_get)

lemma bind_keeps: "keeps I m \<Longrightarrow> (\<And>x. keeps I (f x)) \<Longrightarrow> keeps I (abind m f)"
  by (rule ensures_bind)

lemma ret_keeps: "keeps I (aret x)"
  by (rule ensures_ret)

lemma fail_keeps: "keeps I (afail e)"
  by (rule ensures_fail)

lemma case_keeps: "(\<And>a b. keeps I (f a b)) \<Longrightarrow> keeps I (case p of (a, b) \<Rightarrow> f a b)"
  by (cases p) simp

lemmas keeps_rules = ensures_get_keeps get_keeps bind_keeps ret_keeps fail_keeps ensures_if case_keeps

lemma rp_commit_keeps: "keeps (rep_inv dt) (rp_commit dt payload)"
  unfolding rp_commit_def by (intro keeps_rules rp_seal_keeps)

lemma rp_commitBatch_keeps: "keeps (rep_inv dt) (rp_commitBatch dt ops)"
  unfolding rp_commitBatch_def
  by (auto split: list.split prod.split intro!: ensures_get_keeps get_keeps rp_commit_keeps rp_seal_keeps)

lemma rp_commitGenerated_keeps: "keeps (rep_inv dt) (rp_commitGenerated dt payload)"
  unfolding rp_commitGenerated_def by (intro keeps_rules rp_generate_keeps rp_commit_keeps)

lemma rp_commitGeneratedBatch_keeps: "keeps (rep_inv dt) (rp_commitGeneratedBatch dt payloads)"
  unfolding rp_commitGeneratedBatch_def by (intro keeps_rules rp_generateBatch_keeps rp_commitBatch_keeps)

section \<open>Ingest and merge\<close>

lemma rp_add_ok: "ensures (inv_in dt K) (rp_add ps opn st) (\<lambda>c r. inv_in dt K r \<and> stored c r) (inv_in dt K)"
  unfolding rp_add_def
proof (rule ensures_step)
  fix r x r'
  assume p: "inv_in dt K r" and "rbind (dag_add (p_dag r) ps opn st) (\<lambda>(c, d). Inr (c, r\<lparr>p_dag := d\<rparr>)) = Inr (x, r')"
  then obtain d where d: "dag_add (p_dag r) ps opn st = Inr (x, d)" "r' = r\<lparr>p_dag := d\<rparr>" by (auto simp: rbind_pair_Inr)
  note a = add_base [OF _ d(1), of dt]
  show "inv_in dt K r' \<and> stored x r'" using a p d(2) by (simp add: rep_inv_def has_head_def)
qed

text \<open>The indexes of a commit that is exempt from recomputation.\<close>

lemma exempt_base:
  assumes r: "rep_inv dt r" and c: "stored c r" and k: "ep_has (p_epochDag r) k"
    and x: "c_id c \<in> set (p_gcBoundary r) \<or> map_of (p_epochBase r) (c_id c) \<noteq> None"
  shows "rep_inv dt (r\<lparr>p_gid := AList.update (c_id c) g (p_gid r), p_byGid := AList.update g (c_id c) (p_byGid r),
    p_epochOf := AList.update (c_id c) k (p_epochOf r)\<rparr>)"
proof -
  let ?r1 = "r\<lparr>p_epochOf := AList.update (c_id c) k (p_epochOf r)\<rparr>"
  have "rep_base dt ?r1" using set_epoch_base r k by (auto simp: rep_inv_def)
  moreover have "stored c ?r1" using c by (simp add: stored_def)
  ultimately have "rep_base dt (?r1\<lparr>p_gid := AList.update (c_id c) g (p_gid ?r1), p_byGid := AList.update g (c_id c) (p_byGid ?r1)\<rparr>)"
    by (rule index_base) (use x in \<open>auto simp: update_conv'\<close>)
  then have "rep_base dt (r\<lparr>p_gid := AList.update (c_id c) g (p_gid r), p_byGid := AList.update g (c_id c) (p_byGid r),
      p_epochOf := AList.update (c_id c) k (p_epochOf r)\<rparr>)"
    by (rule rep_base_core [rotated]) (simp add: same_core_def)
  then show ?thesis using r by (simp add: rep_inv_def has_head_def update_conv')
qed

lemma mark_exempt:
  assumes "rep_inv dt r"
  shows "rep_inv dt (r\<lparr>p_gcBoundary := js_add i (p_gcBoundary r)\<rparr>)" and "rep_inv dt (r\<lparr>p_epochBase := AList.update i p (p_epochBase r)\<rparr>)"
proof -
  have g: "rp_gidOf dt (r\<lparr>p_gcBoundary := b\<rparr>) = rp_gidOf dt r" "rp_gidOf dt (r\<lparr>p_epochBase := e\<rparr>) = rp_gidOf dt r" for b e
    by (intro ext rp_gidOf_cong, simp)+
  show "rep_inv dt (r\<lparr>p_gcBoundary := js_add i (p_gcBoundary r)\<rparr>)"
    using assms g unfolding rep_inv_def rep_base_def index_ok_def epochs_ok_def content_ok_def has_head_def by simp
  show "rep_inv dt (r\<lparr>p_epochBase := AList.update i p (p_epochBase r)\<rparr>)"
    using assms g unfolding rep_inv_def rep_base_def index_ok_def epochs_ok_def content_ok_def has_head_def
    by (simp add: update_conv')
qed

lemma compaction_inv:
  assumes "rep_inv dt r" and "ep_has (p_epochDag r) parentKey"
  shows "rep_inv dt (r\<lparr>p_epochDag := ep_compaction key ids ct tr trInv parentKey (p_epochDag r)\<rparr>)"
proof -
  have b: "rep_base dt r" and w: "epoch_wf (p_epochDag r)" using assms(1) by (simp_all add: rep_inv_def rep_base_def epochs_ok_def)
  have "rep_base dt (r\<lparr>p_epochDag := ep_compaction key ids ct tr trInv parentKey (p_epochDag r)\<rparr>)"
    by (rule epochs_change [OF b ep_compaction_wf [OF w assms(2)]]) simp
  then show ?thesis using assms(1) by (simp add: rep_inv_def has_head_def)
qed

lemma roster_inv: "rep_inv dt r \<Longrightarrow> rep_inv dt (r\<lparr>p_registered := js_add_all ns (p_registered r)\<rparr>)"
  by (rule rep_inv_core) (auto simp: same_core_def)

lemma ingest_base_keeps: "keeps (rep_inv dt) (ingest_base dt gid ps epoch fp roster prf st)"
  unfolding ingest_base_def
proof (rule ensures_get_bind, goal_cases)
  case (2 x)
  obtain g s names k where x: "x = (g, s, names, k)" by (cases x)
  show ?case unfolding x prod.case
  proof (rule ensures_bind [where R = "\<lambda>_. inv_in dt {k}"], goal_cases)
    case 1
    show ?case
      by (rule ensures_mod)
         (auto simp: rbind_eq_Inr intro: roster_inv split: option.splits if_splits)
  next
    case (2 u)
    show ?case
    proof (rule ensures_bind [where R = "\<lambda>c r. inv_in dt {k} r \<and> stored c r"], goal_cases)
      case 1
      show ?case by (rule ensures_post [OF rp_add_ok]) auto
    next
      case (2 c)
      have "rep_inv dt (r\<lparr>p_gid := AList.update (c_id c) g (p_gid r), p_byGid := AList.update g (c_id c) (p_byGid r),
          p_epochOf := AList.update (c_id c) k (p_epochOf r), p_gcBoundary := js_add (c_id c) (p_gcBoundary r)\<rparr>)"
        if "inv_in dt {k} r \<and> stored c r" for r
      proof (rule rep_inv_core [rotated 2])
        show "rep_inv dt ((r\<lparr>p_gcBoundary := js_add (c_id c) (p_gcBoundary r)\<rparr>)\<lparr>p_gid := AList.update (c_id c) g (p_gid r),
            p_byGid := AList.update g (c_id c) (p_byGid r), p_epochOf := AList.update (c_id c) k (p_epochOf r)\<rparr>)"
          using exempt_base [OF mark_exempt(1) [of dt r "c_id c"], of c k g] that by (simp add: stored_def)
      qed (simp_all add: same_core_def)
      then show ?case by (intro ensures_mod_ret) blast
    qed
  qed
qed simp

lemma ingest_bootstrap_keeps: "keeps (rep_inv dt) (ingest_bootstrap dt gid parentGids ct st)"
  unfolding ingest_bootstrap_def
proof (rule ensures_get_bind, goal_cases)
  case (2 x)
  obtain s ct' p where x: "x = (s, ct', p)" by (cases x)
  show ?case unfolding x prod.case
  proof (rule ensures_bind [where R = "\<lambda>c r. inv_in dt {} r \<and> stored c r"], goal_cases)
    case 1
    show ?case by (rule ensures_pre [OF _ ensures_post [OF rp_add_ok [where dt = dt and K = "{}"]]]) auto
  next
    case (2 c)
    show ?case
    proof (rule ensures_bind [where R = "\<lambda>_ r. rep_inv dt r \<and> stored c r \<and> map_of (p_epochBase r) (c_id c) \<noteq> None"], goal_cases)
      case 1
      show ?case by (rule ensures_mod) (auto simp: stored_def update_conv' intro: mark_exempt)
    next
      case (2 u)
      show ?case
      proof (rule ensures_get_bind, goal_cases)
        case (2 y)
        obtain g ids where y: "y = (g, ids)" by (cases y)
        have "rep_inv dt (r\<lparr>p_gid := AList.update (c_id c) g (p_gid r), p_byGid := AList.update g (c_id c) (p_byGid r),
            p_epochDag := ep_compaction g ids (Some ct') None None EPOCH0 (p_epochDag r),
            p_epochOf := AList.update (c_id c) g (p_epochOf r)\<rparr>)"
          if "rep_inv dt r" "stored c r" "map_of (p_epochBase r) (c_id c) \<noteq> None" for r
        proof (rule rep_inv_core [rotated 2])
          let ?r = "r\<lparr>p_epochDag := ep_compaction g ids (Some ct') None None EPOCH0 (p_epochDag r)\<rparr>"
          show "rep_inv dt (?r\<lparr>p_gid := AList.update (c_id c) g (p_gid ?r), p_byGid := AList.update g (c_id c) (p_byGid ?r),
              p_epochOf := AList.update (c_id c) g (p_epochOf ?r)\<rparr>)"
            by (rule exempt_base [OF compaction_inv [OF that(1) root_epoch [OF that(1)]]]) (use that in \<open>simp_all add: stored_def\<close>)
        qed (simp_all add: same_core_def)
        then show ?case unfolding y prod.case by (intro ensures_mod_ret) blast
      qed simp
    qed
  qed
qed simp

abbreviation staged :: "('s, 'x, 'r) rdt \<Rightarrow> json op_rec option \<times> 's \<times> string \<Rightarrow> ('s, 'x) rep \<Rightarrow> bool" where
  "staged dt x r \<equiv> rep_inv dt r \<and> ep_has (p_epochDag r) (snd (snd x))"

lemma ingest_op_ok: "ensures (rep_inv dt) (ingest_op dt ps replica n payload)
   (\<lambda>x r. rep_inv dt r \<and> ep_has (p_epochDag r) (snd (snd x))) (rep_inv dt)"
  unfolding ingest_op_def
proof (rule ensures_get_bind, goal_cases)
  case (2 x)
  obtain name s k where x: "x = (name, s, k)" by (cases x)
  show ?case unfolding x prod.case
    by (rule ensures_mod_ret, cases ps)
       (auto simp: rbind_eq_Inr same_core_def intro: epoch_of_has split: if_splits elim!: rep_inv_core [rotated 2])
qed simp

lemma ingest_compact_ok: "ensures (rep_inv dt) (ingest_compact dt gid p ct st) (frame_post dt) (rep_inv dt)"
  unfolding ingest_compact_def rp_compaction_def
proof (rule ensures_get_bind, goal_cases)
  case (2 x)
  obtain s g ids ct' tr trInv parentKey where x: "x = (s, g, ids, ct', tr, trInv, parentKey)" by (cases x)
  show ?case unfolding x prod.case
    by (rule ensures_mod_ret) (auto simp: rbind_eq_Inr intro!: compaction_inv epoch_of_has)
qed simp

lemma ingest_state_ok: "ensures (rep_inv dt) (ingest_state dt wc ps) (staged dt) (rep_inv dt)"
proof -
  have join: "ensures (rep_inv dt) (case ps of
        a # b # _ \<Rightarrow> abind (rp_joinState dt a b) (\<lambda>(s, k). aret (None, s, k)) | _ \<Rightarrow> afail e) (staged dt) (rep_inv dt)" for e
    by (auto split: list.split intro!: ensures_fail ensures_bind [OF rp_joinState_ok] ensures_ret)
  show ?thesis unfolding ingest_state_def
    by (cases "wc_body wc")
       (simp_all add: join, auto intro!: ensures_bind [OF ingest_op_ok] ensures_bind [OF ingest_compact_ok] ensures_ret)
qed

lemma append_keeps: "ensures (inv_in dt {k}) (rp_append dt ps opn s k) (\<lambda>_. rep_inv dt) (rep_inv dt)"
  by (rule ensures_post [OF rp_append_inv]) auto

lemma ingest_gate_ok: "ensures (staged dt x) (ingest_gate dt wc ps x) (\<lambda>_. rep_inv dt) (rep_inv dt)"
proof -
  obtain opn s k where x: "x = (opn, s, k)" by (cases x)
  have obs: "ensures (rep_inv dt) (case opn of Some o1 \<Rightarrow> rp_observe (op_payload o1) | None \<Rightarrow> aret ()) (\<lambda>_. rep_inv dt) (rep_inv dt)"
    by (cases opn) (auto intro!: ensures_ret ensures_pre [OF _ ensures_post [OF rp_observe_keeps [where dt = dt and K = "{}"]]])
  show ?thesis unfolding ingest_gate_def x prod.case
    by (rule ensures_pre [OF _ ensures_bind [OF append_keeps]])
       (simp, simp only: split_beta, intro ensures_if fail_keeps ensures_bind [OF obs] ret_keeps)
qed

lemma ingest_root_keeps: "keeps (rep_inv dt) (ingest_root dt gs)"
  unfolding ingest_root_def
proof (rule ensures_get_keeps)
  fix x :: "string \<times> bool"
  obtain rg ab where x: "x = (rg, ab)" by force
  show "keeps (rep_inv dt) (case x of (rootGid, absent) \<Rightarrow> if Some rootGid \<in> set gs \<and> absent
     then abind (rp_append dt [] None (dt_init dt) EPOCH0) (\<lambda>(_, g).
       if g \<noteq> rootGid then afail (Error ''canonical root reconstruction mismatch'') else aret ())
     else aret ())"
    unfolding x prod.case
    by (intro ensures_if ret_keeps ensures_pre [OF _ ensures_bind [OF append_keeps]]; (simp add: root_epoch)?)
       (simp only: split_beta, intro ensures_if fail_keeps ret_keeps)
qed

lemma ingest_parented_keeps: "keeps (rep_inv dt) (ingest_parented dt wc gs lps)"
proof -
  have full: "keeps (rep_inv dt) (abind (ingest_state dt wc ps) (ingest_gate dt wc ps))" for ps
    by (rule ensures_bind [OF ingest_state_ok ingest_gate_ok])
  show ?thesis unfolding ingest_parented_def
    by (cases "wc_body wc")
       (auto intro!: fail_keeps full ingest_base_keeps ingest_bootstrap_keeps split: list.split option.split)
qed

lemma ingest_one_keeps: "keeps (rep_inv dt) (ingest_one dt wc pa)"
  unfolding ingest_one_def
  by (cases pa) (auto simp: Let_def intro!: ensures_get_keeps ensures_if ret_keeps bind_keeps ingest_root_keeps ingest_parented_keeps)

lemma rp_ingest_keeps: "keeps (rep_inv dt) (rp_ingest dt wcs)"
  unfolding rp_ingest_def
  by (rule bind_keeps [OF ensures_fold [OF ingest_one_keeps]])
     (auto intro!: ensures_if bind_keeps rp_refresh_ok ret_keeps)

lemma rp_mergeWithGid_keeps: "keeps (rep_inv dt) (rp_mergeWithGid dt g)"
  unfolding rp_mergeWithGid_def
proof (rule ensures_get_bind, goal_cases)
  case (2 x)
  obtain a b where x: "x = (a, b)" by force
  have idx: "rep_base dt r \<and> map_of (p_gid r) b \<noteq> None"
    if "rep_inv dt r" "(case map_of (p_byGid r) g of None \<Rightarrow> Inl e | Some b \<Rightarrow> Inr (p_headId r, b)) = Inr (a, b)" for r e
    using that by (auto simp: rep_inv_def rep_base_def index_ok_def split: option.splits)
  show ?case unfolding x prod.case
  proof (intro ensures_if ensures_get, goal_cases)
    case 3
    show ?case
    proof (rule ensures_get_bind, goal_cases)
      case (2 fresh)
      show ?case
      proof (intro ensures_if, goal_cases)
        case 1
        show ?case by (rule ensures_pre [OF _ rp_move_ok], elim conjE, rule idx)
      next
        case 2
        show ?case
        proof (rule ensures_get_bind, goal_cases)
          case (2 ab)
          show ?case
          proof (intro ensures_if, goal_cases)
            case 1
            show ?case by (rule ensures_pre [OF _ rp_move_ok], elim conjE, rule idx)
          next
            case 2
            have fork: "keeps (rep_inv dt) (abind (rp_joinState dt a b) (\<lambda>(s, k).
                abind (rp_append dt [a, b] None s k) (\<lambda>(i, _). rp_move i)))"
            proof (rule ensures_bind [OF rp_joinState_ok])
              fix y :: "'a \<times> string"
              obtain s k where y: "y = (s, k)" by force
              have app: "ensures (inv_in dt {k}) (abind (rp_append dt [a, b] None s k) (\<lambda>(i, _). rp_move i)) (\<lambda>_. rep_inv dt) (rep_inv dt)"
                by (rule ensures_bind [OF rp_append_inv], simp only: split_beta, rule ensures_pre [OF _ rp_move_ok])
                   (simp add: rep_inv_def)
              show "ensures (frame_post dt y) (case y of (s, k) \<Rightarrow> abind (rp_append dt [a, b] None s k) (\<lambda>(i, _). rp_move i))
                  (\<lambda>_. rep_inv dt) (rep_inv dt)"
                unfolding y prod.case by (rule ensures_pre [OF _ app]) simp
            qed
            have rest: "keeps (rep_inv dt) (abind (aget (\<lambda>r. dag_isAncestor (p_dag r) b a)) (\<lambda>ba.
                if ba then aget rp_headGid else abind (rp_joinState dt a b) (\<lambda>(s, k).
                  abind (rp_append dt [a, b] None s k) (\<lambda>(i, _). rp_move i))))"
              by (intro ensures_get_keeps ensures_if get_keeps fork)
            show ?case by (rule ensures_pre [OF _ rest]) simp
          qed
        qed simp
      qed
    qed simp
  qed simp_all
qed simp

section \<open>Roster and maps\<close>

lemma rp_register_keeps: "keeps (rep_inv dt) (rp_register n)"
  unfolding rp_register_def by (rule ensures_step) (auto simp: same_core_def split: if_splits elim!: rep_inv_core [rotated 2])

lemma rp_unregister_keeps: "keeps (rep_inv dt) (rp_unregister n)"
  unfolding rp_unregister_def by (rule ensures_step) (auto simp: same_core_def split: if_splits elim!: rep_inv_core [rotated 2])

lemma acks_inv:
  assumes "rep_inv dt r" and "\<And>n k. map_of acks n = Some k \<Longrightarrow> ep_has (p_epochDag r) k"
  shows "rep_inv dt (r\<lparr>p_fetchAcks := acks\<rparr>)"
proof -
  have g: "rp_gidOf dt (r\<lparr>p_fetchAcks := acks\<rparr>) = rp_gidOf dt r" by (intro ext rp_gidOf_cong) simp
  show ?thesis using assms unfolding rep_inv_def rep_base_def index_ok_def epochs_ok_def content_ok_def has_head_def g by simp
qed

lemma rp_forget_keeps: "keeps (rep_inv dt) (rp_forget n)"
proof -
  have "rep_inv dt (r\<lparr>p_everAuthored := xs, p_fetchAcks := AList.delete n (p_fetchAcks r),
      p_registered := filter (\<lambda>m. m \<noteq> n) (p_registered r)\<rparr>)" if "rep_inv dt r" "n \<noteq> p_name r" for r xs
  proof (rule rep_inv_core [rotated 2])
    show "rep_inv dt (r\<lparr>p_fetchAcks := AList.delete n (p_fetchAcks r)\<rparr>)"
      by (rule acks_inv [OF that(1)])
         (use that(1) in \<open>auto simp: delete_conv' rep_inv_def rep_base_def epochs_ok_def split: if_splits\<close>)
  qed (use that in \<open>auto simp: same_core_def\<close>)
  then show ?thesis unfolding rp_forget_def by (intro ensures_step) (auto split: if_splits)
qed

lemma rp_acknowledgeFetch_keeps: "keeps (rep_inv dt) (rp_acknowledgeFetch peer g k)"
proof -
  have "rep_inv dt (r\<lparr>p_fetchAcks := AList.update peer k (p_fetchAcks r)\<rparr>)"
    if "rep_inv dt r" "map_of (p_epochOf r) i = Some k" for r i
    by (rule acks_inv [OF that(1)])
       (use that in \<open>auto simp: update_conv' rep_inv_def rep_base_def epochs_ok_def split: if_splits\<close>)
  then show ?thesis unfolding rp_acknowledgeFetch_def
    by (intro ensures_step) (auto simp: rbind_eq_Inr split: if_splits option.splits)
qed

lemma rp_dropEpochMap_keeps: "keeps (rep_inv dt) (rp_dropEpochMap key ce)"
proof -
  have "rep_inv dt (r\<lparr>p_epochDag := AList.update key (n\<lparr>en_translate := None, en_mapDropped := True\<rparr>) (p_epochDag r)\<rparr>)"
    if "rep_inv dt r" "map_of (p_epochDag r) key = Some n" for r n
  proof -
    have b: "rep_base dt r" and w: "epoch_wf (p_epochDag r)" using that(1) by (simp_all add: rep_inv_def rep_base_def epochs_ok_def)
    have "epoch_wf (AList.update key (n\<lparr>en_translate := None, en_mapDropped := True\<rparr>) (p_epochDag r))"
    proof (rule epoch_add_wf [OF w])
      show "distinct (en_settledIds (n\<lparr>en_translate := None, en_mapDropped := True\<rparr>))"
        using w that(2) unfolding epoch_wf_def by simp
      have "\<forall>p \<in> set (en_parents n). \<exists>m. map_of (p_epochDag r) p = Some m \<and> en_num m < en_num n"
        using w that(2) unfolding epoch_wf_def by blast
      then show "\<forall>p \<in> set (en_parents (n\<lparr>en_translate := None, en_mapDropped := True\<rparr>)).
          \<exists>m. map_of (p_epochDag r) p = Some m \<and> en_num m < en_num (n\<lparr>en_translate := None, en_mapDropped := True\<rparr>)"
        by simp
    qed (use that(2) in simp)
    from epochs_change [OF b this] that(1) show ?thesis by (simp add: rep_inv_def has_head_def)
  qed
  then show ?thesis unfolding rp_dropEpochMap_def
    by (intro ensures_step) (auto simp: ep_get_def split: if_splits option.splits)
qed

section \<open>State compaction\<close>

lemma frame_inv:
  assumes r: "rep_inv dt r" and k: "ep_has (p_epochDag r) pk" and c: "stored c r" and g: "rp_gidOf dt r c = Inr g"
  shows "rep_inv dt (r\<lparr>p_gid := AList.update (c_id c) g (p_gid r), p_byGid := AList.update g (c_id c) (p_byGid r),
    p_epochDag := ep_compaction g ids ct tr trInv pk (p_epochDag r), p_epochOf := AList.update (c_id c) g (p_epochOf r)\<rparr>)" (is "rep_inv dt ?r")
proof -
  let ?r2 = "r\<lparr>p_epochDag := ep_compaction g ids ct tr trInv pk (p_epochDag r), p_epochOf := AList.update (c_id c) g (p_epochOf r)\<rparr>"
  have "rep_inv dt (r\<lparr>p_epochDag := ep_compaction g ids ct tr trInv pk (p_epochDag r)\<rparr>)" by (rule compaction_inv [OF r k])
  then have r2: "rep_base dt ?r2"
    using set_epoch_base [of dt "r\<lparr>p_epochDag := ep_compaction g ids ct tr trInv pk (p_epochDag r)\<rparr>" g "c_id c"]
    by (simp add: rep_inv_def)
  have "rp_gidOf dt ?r2 c = rp_gidOf dt r c" by (rule rp_gidOf_cong) simp
  then have "rep_base dt (?r2\<lparr>p_gid := AList.update (c_id c) g (p_gid ?r2), p_byGid := AList.update g (c_id c) (p_byGid ?r2)\<rparr>)"
    by (intro index_base [OF r2]) (use c g in \<open>simp_all add: stored_def update_conv'\<close>)
  then have "rep_base dt ?r" by (rule rep_base_core [rotated]) (simp add: same_core_def)
  then show ?thesis using r by (simp add: rep_inv_def has_head_def update_conv')
qed

lemma open_epoch_ok:
  "ensures (inv_in dt {pk}) (open_epoch dt ct settled ids st tr trInv pk) (\<lambda>_. rep_inv dt) (rep_inv dt)"
  unfolding open_epoch_def
proof (rule ensures_get_bind, goal_cases)
  case (2 h)
  show ?case
  proof (rule ensures_bind [where R = "\<lambda>c r. inv_in dt {pk} r \<and> stored c r"], goal_cases)
    case 1
    show ?case by (rule ensures_pre [OF _ ensures_post [OF rp_add_ok [where dt = dt and K = "{pk}"]]]) auto
  next
    case (2 c)
    define R where "R g r \<longleftrightarrow> (\<exists>r0. inv_in dt {pk} r0 \<and> stored c r0 \<and> rp_gidOf dt r0 c = Inr g \<and>
      r = r0\<lparr>p_gid := AList.update (c_id c) g (p_gid r0), p_byGid := AList.update g (c_id c) (p_byGid r0)\<rparr>)" for g r
    show ?case
    proof (rule ensures_bind [where R = R], goal_cases)
      case 1
      show ?case unfolding rp_index_def by (rule ensures_step) (auto simp: R_def rbind_eq_Inr)
    next
      case (2 g)
      define R' where "R' r \<longleftrightarrow> (\<exists>r0. R g r0 \<and> r = r0\<lparr>p_epochDag := ep_compaction g settled (Some ct) tr trInv pk (p_epochDag r0)\<rparr>)" for r
      have fin: "rep_inv dt (r\<lparr>p_epochOf := AList.update (c_id c) g (p_epochOf r)\<rparr>) \<and> map_of (p_gid r) (c_id c) \<noteq> None" if R': "R' r" for r
      proof -
        from R' obtain r0 where r0: "inv_in dt {pk} r0" "stored c r0" "rp_gidOf dt r0 c = Inr g"
          "r = r0\<lparr>p_gid := AList.update (c_id c) g (p_gid r0), p_byGid := AList.update g (c_id c) (p_byGid r0),
            p_epochDag := ep_compaction g settled (Some ct) tr trInv pk (p_epochDag r0)\<rparr>"
          unfolding R'_def R_def by auto
        from frame_inv [OF _ _ r0(2,3), of pk settled "Some ct" tr trInv] r0(1) show ?thesis unfolding r0(4)
          by (simp add: update_conv')
      qed
      show ?case
      proof (rule ensures_bind [where R = "\<lambda>_. R'"], goal_cases)
        case 1
        show ?case unfolding rp_compaction_def by (rule ensures_mod) (auto simp: R'_def)
      next
        case (2 u)
        show ?case
        proof (rule ensures_bind [where R = "\<lambda>_ r. rep_base dt r \<and> map_of (p_gid r) (c_id c) \<noteq> None"], goal_cases)
          case 1
          show ?case unfolding rp_set_epoch_def by (rule ensures_mod) (use fin in \<open>simp add: rep_inv_def\<close>)
        next
          case (2 v)
          show ?case
            by (rule ensures_post [OF ensures_bind [OF rp_set_head_ok ensures_bind [OF rp_refresh_ok get_keeps]]])
        qed
      qed
    qed
  qed
qed simp

lemma rp_compactStable_keeps: "keeps (rep_inv dt) (rp_compactStable dt args)"
proof -
  have fin: "keeps (rep_inv dt) (abind (aget (\<lambda>r. rbind (rp_epochKey r) (\<lambda>k. rbind (cut_settled ct) (\<lambda>settled.
       Inr (k, case settled of Some xs \<Rightarrow> xs | None \<Rightarrow> ids))))) (\<lambda>(k, settled). open_epoch dt ct settled ids st tr trInv k))" for ct ids st tr trInv
  proof (rule ensures_get_bind, goal_cases)
    case (2 x)
    obtain k settled where x: "x = (k, settled)" by force
    show ?case unfolding x prod.case
      by (rule ensures_pre [OF _ open_epoch_ok]) (auto simp: rbind_eq_Inr rp_epochKey_def intro: epoch_of_has)
  qed simp
  have body: "keeps (rep_inv dt) (if nothing_gained sts then aret x
     else abind (aget g) (\<lambda>trInv. abind (aget (\<lambda>r. rbind (rp_epochKey r) (\<lambda>k. rbind (cut_settled ct) (\<lambda>settled.
       Inr (k, case settled of Some xs \<Rightarrow> xs | None \<Rightarrow> ids))))) (\<lambda>(k, settled). open_epoch dt ct settled ids st tr trInv k)))"
    for sts x g ct ids st tr
    by (rule ensures_if, rule ret_keeps, rule ensures_get_keeps, rule fin)
  show ?thesis
  proof (cases "\<exists>f remap. dt_compact dt = Some f \<and> dt_remapState dt = Some remap")
    case True
    then obtain f remap where dt: "dt_compact dt = Some f" "dt_remapState dt = Some remap" by blast
    show ?thesis unfolding rp_compactStable_def Let_def dt option.case prod.case
    proof (rule ensures_get_keeps, rule ensures_if, rule ret_keeps, rule ensures_if, rule ret_keeps,
        rule ensures_get_keeps, rule ensures_get_keeps, goal_cases)
      case (1 sc h y)
      show ?case by (cases y, simp only: prod.case, rule body)
    qed
  next
    case False
    then have "rp_compactStable dt args = aret (Kept ''datatype does not support state compaction'' [])"
      by (auto simp: rp_compactStable_def split: option.split)
    then show ?thesis by (simp add: ret_keeps)
  qed
qed

section \<open>Commit collection and pruning\<close>

text \<open>What dropping the indexes of commits outside \<open>K\<close> leaves.\<close>

definition agree_at :: "('s, 'x) rep \<Rightarrow> ('s, 'x) rep \<Rightarrow> nat \<Rightarrow> bool" where
  "agree_at r0 r i \<longleftrightarrow> map_of (p_gid r) i = map_of (p_gid r0) i \<and> map_of (p_epochOf r) i = map_of (p_epochOf r0) i \<and>
     map_of (p_epochBase r) i = map_of (p_epochBase r0) i \<and> (i \<in> set (p_gcBoundary r) \<longleftrightarrow> i \<in> set (p_gcBoundary r0))"

definition sub_index :: "('s, 'x) rep \<Rightarrow> ('s, 'x) rep \<Rightarrow> bool" where
  "sub_index r0 r \<longleftrightarrow> map_of (p_gid r) \<subseteq>\<^sub>m map_of (p_gid r0) \<and> map_of (p_epochOf r) \<subseteq>\<^sub>m map_of (p_epochOf r0) \<and>
     (\<forall>g i. map_of (p_byGid r) g = Some i \<longrightarrow> map_of (p_gid r) i = Some g)"

definition same_rest :: "('s, 'x) rep \<Rightarrow> ('s, 'x) rep \<Rightarrow> bool" where
  "same_rest r0 r \<longleftrightarrow> p_epochDag r = p_epochDag r0 \<and> p_fetchAcks r = p_fetchAcks r0 \<and> p_name r = p_name r0 \<and>
     p_registered r = p_registered r0 \<and> p_headId r = p_headId r0"

definition shrinks :: "nat set \<Rightarrow> ('s, 'x) rep \<Rightarrow> ('s, 'x) rep \<Rightarrow> bool" where
  "shrinks K r0 r \<longleftrightarrow> (\<forall>i \<in> K. agree_at r0 r i) \<and> sub_index r0 r \<and> same_rest r0 r"

lemma shrinks_refl: "index_ok r \<Longrightarrow> shrinks K r r"
  by (simp add: shrinks_def index_ok_def agree_at_def sub_index_def same_rest_def)

lemma unindex_gid [simp]: "map_of (p_gid (unindex i r)) = (map_of (p_gid r))(i := None)"
  by (simp add: unindex_def delete_conv')

lemma unindex_byGid:
  assumes "\<forall>g i. map_of (p_byGid r) g = Some i \<longrightarrow> map_of (p_gid r) i = Some g" and "map_of (p_byGid (unindex i r)) g = Some j"
  shows "map_of (p_gid (unindex i r)) j = Some g"
proof -
  have b: "map_of (p_byGid r) g = Some j" and n: "map_of (p_gid r) i \<noteq> Some g"
    using assms(2) by (auto simp: unindex_def delete_conv' split: option.splits if_splits)
  from assms(1) b have "map_of (p_gid r) j = Some g" by blast
  moreover from this n have "j \<noteq> i" by blast
  ultimately show ?thesis by simp
qed

lemma shrinks_unindex:
  assumes "shrinks K r0 r" and "i \<notin> K" and b: "\<forall>j \<in> K. j \<in> set b \<longleftrightarrow> j \<in> set (p_gcBoundary r)"
  shows "shrinks K r0 ((unindex i r)\<lparr>p_dag := d, p_gcBoundary := b\<rparr>)" (is "shrinks K r0 ?r")
proof -
  have "agree_at r0 ?r j" if "j \<in> K" for j
  proof -
    have "agree_at r0 r j" "j \<noteq> i" using assms(1,2) that by (auto simp: shrinks_def)
    then show ?thesis using b that by (simp add: agree_at_def) (simp add: unindex_def delete_conv')
  qed
  moreover have "sub_index r0 ?r"
  proof -
    have s: "sub_index r0 r" using assms(1) by (simp add: shrinks_def)
    have "map_of (p_epochOf (unindex i r)) = (map_of (p_epochOf r))(i := None)" by (simp add: unindex_def delete_conv')
    moreover have "m(i := None) \<subseteq>\<^sub>m m0" if "m \<subseteq>\<^sub>m m0" for m m0 :: "nat \<Rightarrow> string option"
      using that by (auto simp: map_le_def dom_def)
    ultimately show ?thesis using s unindex_byGid [of r i] by (simp add: sub_index_def)
  qed
  moreover have "same_rest r0 ?r" using assms(1) by (simp add: shrinks_def same_rest_def unindex_def)
  ultimately show ?thesis by (simp add: shrinks_def)
qed

text \<open>The invariant after the store shrank to \<open>K\<close>: a kept commit that lost parents is exempt from recomputation.\<close>

lemma shrunk_inv:
  assumes r0: "rep_inv dt r0" and sh: "shrinks K r1 r" and wf: "dag_wf (p_dag r)"
    and g1: "p_gid r1 = p_gid r0" "p_epochOf r1 = p_epochOf r0" "p_epochDag r1 = p_epochDag r0"
      "p_fetchAcks r1 = p_fetchAcks r0" "p_name r1 = p_name r0" "p_registered r1 = p_registered r0" "p_headId r1 = p_headId r0"
    and K: "\<And>i. map_of (p_gid r) i \<noteq> None \<Longrightarrow> i \<in> K \<and> dag_has (p_dag r) i" and hd: "p_headId r0 \<in> K"
    and cm: "\<And>i c. i \<in> K \<Longrightarrow> map_of (d_commits (p_dag r)) i = Some c \<Longrightarrow> i \<notin> set (p_gcBoundary r1) \<Longrightarrow>
      map_of (p_epochBase r1) i = None \<Longrightarrow>
      map_of (d_commits (p_dag r0)) i = Some c \<and> i \<notin> set (p_gcBoundary r0) \<and> map_of (p_epochBase r0) i = None"
  shows "rep_inv dt r"
proof -
  have old: "rep_base dt r0" "has_head r0" using r0 by (simp_all add: rep_inv_def)
  have gid: "map_of (p_gid r) i = map_of (p_gid r0) i" if "map_of (p_gid r) i \<noteq> None" for i
    using sh K [OF that] g1(1) by (simp add: shrinks_def agree_at_def)
  have rest: "same_rest r1 r" and sub: "sub_index r1 r" using sh by (simp_all add: shrinks_def)
  have "index_ok r"
    unfolding index_ok_def
  proof (intro conjI allI impI)
    fix i g
    assume a: "map_of (p_gid r) i = Some g"
    then have k: "i \<in> K \<and> dag_has (p_dag r) i" using K [of i] by simp
    then show "dag_has (p_dag r) i" ..
    have "map_of (p_gid r0) i = Some g" using gid [of i] a by simp
    then have "map_of (p_epochOf r0) i \<noteq> None" using old(1) unfolding rep_base_def index_ok_def by blast
    then show "map_of (p_epochOf r) i \<noteq> None" using sh k g1(2) by (simp add: shrinks_def agree_at_def)
  next
    fix g i
    assume "map_of (p_byGid r) g = Some i"
    then show "map_of (p_gid r) i = Some g" using sub by (simp add: sub_index_def)
  qed
  moreover have "epochs_ok r"
  proof -
    have "map_of (p_epochOf r0) i = Some k" if "map_of (p_epochOf r) i = Some k" for i k
      using sub g1(2) that by (auto simp: sub_index_def map_le_def dom_def)
    then show ?thesis using old(1) rest g1 unfolding rep_base_def epochs_ok_def same_rest_def by auto
  qed
  moreover have "content_ok dt r"
    unfolding content_ok_def
  proof (intro allI impI)
    fix i g c
    assume a: "map_of (p_gid r) i = Some g" "map_of (d_commits (p_dag r)) i = Some c" "i \<notin> set (p_gcBoundary r)"
      "map_of (p_epochBase r) i = None" "\<forall>p \<in> set (c_parents c). map_of (p_gid r) p \<noteq> None"
    have k: "i \<in> K" using K [of i] a(1) by simp
    then have "i \<notin> set (p_gcBoundary r1)" "map_of (p_epochBase r1) i = None" using sh a(3,4) by (simp_all add: shrinks_def agree_at_def)
    from cm [OF k a(2) this] have c0: "map_of (d_commits (p_dag r0)) i = Some c" "i \<notin> set (p_gcBoundary r0)" "map_of (p_epochBase r0) i = None"
      by simp_all
    have eq: "rp_gidOf dt r c = rp_gidOf dt r0 c" by (rule rp_gidOf_cong) (use gid a(5) in blast)
    have "\<forall>p \<in> set (c_parents c). map_of (p_gid r0) p \<noteq> None" using gid a(5) by metis
    moreover have "map_of (p_gid r0) i = Some g" using gid [of i] a(1) by simp
    ultimately show "rp_gidOf dt r c = Inr g" using old(1) c0 eq unfolding rep_base_def content_ok_def by simp
  qed
  moreover have "has_head r" using old(2) sh hd g1 by (simp add: has_head_def shrinks_def agree_at_def same_rest_def)
  moreover have "p_name r \<in> set (p_registered r)" using old(1) rest g1 by (simp add: rep_base_def same_rest_def)
  ultimately show ?thesis using wf by (simp add: rep_inv_def rep_base_def)
qed

lemma unindex_fields [simp]:
  "p_dag (unindex i r) = p_dag r" "p_gcBoundary (unindex i r) = p_gcBoundary r" "p_headId (unindex i r) = p_headId r"
  by (simp_all add: unindex_def)

lemma unindex_dropped_shrinks:
  assumes ix: "shrinks K r0 r" and K: "\<forall>i. dag_has (p_dag r) i \<longleftrightarrow> i \<in> K"
  shows "shrinks K r0 (unindex_dropped r) \<and> p_dag (unindex_dropped r) = p_dag r \<and>
    (\<forall>i. map_of (p_gid (unindex_dropped r)) i \<noteq> None \<longrightarrow> i \<in> K)"
proof -
  define f where "f r i = (if dag_has (p_dag r) i then r
     else (unindex i r)\<lparr>p_gcBoundary := filter (\<lambda>j. j \<noteq> i) (p_gcBoundary r)\<rparr>)" for r :: "('a, 'b) rep" and i
  have step: "shrinks K r0 (f s i) \<and> p_dag (f s i) = p_dag s" if s: "shrinks K r0 s" "p_dag s = p_dag r" for s i
  proof (cases "dag_has (p_dag s) i")
    case False
    then have "i \<notin> K" using K s(2) by simp
    from shrinks_unindex [OF s(1) this, of "filter (\<lambda>j. j \<noteq> i) (p_gcBoundary s)" "p_dag s"] this
    have "shrinks K r0 ((unindex i s)\<lparr>p_dag := p_dag s, p_gcBoundary := filter (\<lambda>j. j \<noteq> i) (p_gcBoundary s)\<rparr>)" by fastforce
    moreover have "(unindex i s)\<lparr>p_dag := p_dag s, p_gcBoundary := b\<rparr> = (unindex i s)\<lparr>p_gcBoundary := b\<rparr>" for b
      by (simp add: unindex_def)
    ultimately show ?thesis using False by (simp add: f_def)
  qed (use s in \<open>simp add: f_def\<close>)
  have gone: "map_of (p_gid s) j = None \<Longrightarrow> map_of (p_gid (f s i)) j = None" for s i j
    by (simp add: f_def)
  have drop: "\<not> dag_has (p_dag s) i \<Longrightarrow> map_of (p_gid (f s i)) i = None" for s i
    by (simp add: f_def)
  have stay: "map_of (p_gid s) j = None \<Longrightarrow> map_of (p_gid (foldl f s js)) j = None" for s js j
    by (induction js arbitrary: s) (simp_all add: gone)
  have all: "shrinks K r0 (foldl f s js) \<and> p_dag (foldl f s js) = p_dag s \<and>
      (\<forall>i \<in> set js. i \<notin> K \<longrightarrow> map_of (p_gid (foldl f s js)) i = None)"
    if "shrinks K r0 s" "p_dag s = p_dag r" for s js
    using that
  proof (induction js arbitrary: s)
    case (Cons i js)
    note st = step [OF Cons.prems, of i]
    have "i \<notin> K \<Longrightarrow> map_of (p_gid (foldl f (f s i) js)) i = None"
      using stay [OF drop] K Cons.prems(2) by simp
    then show ?case using Cons.IH [of "f s i"] st Cons.prems(2) by auto
  qed simp
  have eq: "unindex_dropped r = foldl f r (map fst (p_gid r))"
    by (simp add: unindex_dropped_def f_def [abs_def])
  have "i \<in> K" if a: "map_of (p_gid (unindex_dropped r)) i \<noteq> None" for i
  proof (rule ccontr)
    assume "i \<notin> K"
    moreover have "i \<in> set (map fst (p_gid r))"
      using a stay [of r i "map fst (p_gid r)"] eq by (metis map_of_eq_None_iff set_map)
    ultimately have "map_of (p_gid (foldl f r (map fst (p_gid r)))) i = None" using all [OF ix refl, of "map fst (p_gid r)"] by blast
    then show False using a eq by simp
  qed
  then show ?thesis using all [OF ix refl, of "map fst (p_gid r)"] eq by simp
qed

lemma rp_gc_inv:
  assumes r: "rep_inv dt r" and g: "runGc (p_dag r) hs = Inr (res, d)" and hd: "p_headId r \<in> set hs"
  shows "rep_inv dt (unindex_dropped (r\<lparr>p_dag := d, p_gcBoundary := js_add_all (new_boundaries (p_dag r) d (p_epochBase r)) (p_gcBoundary r),
    p_gcClosed := b\<rparr>))" (is "rep_inv dt (unindex_dropped ?r)")
proof -
  have wf: "dag_wf (p_dag r)" and ix: "index_ok r" using r by (simp_all add: rep_inv_def rep_base_def)
  obtain keep where k: "keepSet (p_dag r) hs = Inr keep" "restricted_to (p_dag r) (set keep) d"
    "dag_ids d = filter (\<lambda>i. i \<in> set keep) (dag_ids (p_dag r))"
    by (rule runGc_Inr [OF wf g])
  have wf': "dag_wf d"
    by (rule restricted_wf [OF wf k(2)]) (use wf k(3) in \<open>simp add: dag_wf_def\<close>)
  define K where "K = {i. dag_has d i}"
  have Kd: "\<forall>i. dag_has (p_dag ?r) i \<longleftrightarrow> i \<in> K" by (simp add: K_def)
  have sh: "shrinks K ?r ?r" using ix
    by (simp add: shrinks_def agree_at_def sub_index_def same_rest_def index_ok_def)
  note u = unindex_dropped_shrinks [OF sh Kd]
  show ?thesis
  proof (rule shrunk_inv [OF r, of K ?r])
    show "shrinks K ?r (unindex_dropped ?r)" "dag_wf (p_dag (unindex_dropped ?r))" using u wf' by simp_all
    show "i \<in> K \<and> dag_has (p_dag (unindex_dropped ?r)) i" if "map_of (p_gid (unindex_dropped ?r)) i \<noteq> None" for i
      using u that by (simp add: K_def)
    have "p_headId r \<in> set keep" using keepSet_spec [OF wf k(1)] hd dag_anc_refl by blast
    moreover have "dag_has (p_dag r) (p_headId r)"
      using r unfolding rep_inv_def rep_base_def index_ok_def has_head_def by blast
    ultimately show "p_headId r \<in> K" using restricted_has [OF k(2)] by (simp add: K_def)
    fix i c
    assume a: "i \<in> K" "map_of (d_commits (p_dag (unindex_dropped ?r))) i = Some c" "i \<notin> set (p_gcBoundary ?r)" "map_of (p_epochBase ?r) i = None"
    have c: "map_of (d_commits d) i = Some c" using a(2) u by simp
    then obtain c0 where c0: "map_of (d_commits (p_dag r)) i = Some c0" "c = c0\<lparr>c_parents := filter (\<lambda>p. p \<in> set keep) (c_parents c0)\<rparr>"
      using k(2) by (auto simp: restricted_to_def split: if_splits)
    have "\<not> length (c_parents c) < length (c_parents c0)"
    proof
      assume "length (c_parents c) < length (c_parents c0)"
      moreover have "c_id c = i" "(i, c) \<in> set (d_commits d)" using dag_wf_get [OF wf' c] map_of_SomeD [OF c] by auto
      ultimately have "i \<in> set (new_boundaries (p_dag r) d (p_epochBase r))"
        using c0(1) a(4) by (force simp: new_boundaries_def dag_values_def)
      then show False using a(3) by simp
    qed
    then have "filter (\<lambda>p. p \<in> set keep) (c_parents c0) = c_parents c0"
      using c0(2) length_filter_le [of "\<lambda>p. p \<in> set keep" "c_parents c0"] by (intro filter_eq_id_of_length) simp
    then show "map_of (d_commits (p_dag r)) i = Some c \<and> i \<notin> set (p_gcBoundary r) \<and> map_of (p_epochBase r) i = None"
      using c0 a(3,4) by simp
  qed simp_all
qed

lemma rp_gc_keeps: "keeps (rep_inv dt) (rp_gc None)"
  unfolding rp_gc_def Let_def
  by (rule ensures_step) (auto simp: rbind_pair_Inr gc_heads_def split: if_splits intro!: rp_gc_inv)

lemma drop_below_spec:
  assumes "shrinks K r0 r" and "dag_wf (p_dag r)" and "set ids \<inter> K = {}"
    and "\<forall>i. map_of (p_gid r) i \<noteq> None \<longrightarrow> dag_has (p_dag r) i"
  shows "shrinks K r0 (drop_below ids r) \<and> dag_wf (p_dag (drop_below ids r)) \<and>
    (\<forall>i. map_of (p_gid (drop_below ids r)) i \<noteq> None \<longrightarrow> dag_has (p_dag (drop_below ids r)) i \<and> i \<notin> set ids) \<and>
    (\<forall>i c. map_of (d_commits (p_dag (drop_below ids r))) i = Some c \<longrightarrow> map_of (d_commits (p_dag r)) i = Some c)"
  using assms
proof (induction ids arbitrary: r)
  case (Cons i ids)
  let ?s = "if dag_has (p_dag r) i then drop_commit i r else r"
  have i: "i \<notin> K" using Cons.prems(3) by simp
  have "shrinks K r0 (drop_commit i r)"
  proof -
    have "shrinks K r0 ((unindex i r)\<lparr>p_dag := dag_remove (p_dag r) i, p_gcBoundary := p_gcBoundary r\<rparr>)"
      by (rule shrinks_unindex [OF Cons.prems(1) i]) simp
    moreover have "(unindex i r)\<lparr>p_dag := dag_remove (p_dag r) i, p_gcBoundary := p_gcBoundary r\<rparr> = drop_commit i r"
      by (cases "map_of (p_gid r) i"; cases r) (simp_all add: drop_commit_def unindex_def)
    ultimately show ?thesis by simp
  qed
  then have sh: "shrinks K r0 ?s" using Cons.prems(1) by simp
  have g: "map_of (p_gid (drop_commit i r)) = (map_of (p_gid r))(i := None)" "p_dag (drop_commit i r) = dag_remove (p_dag r) i"
    by (simp_all add: drop_commit_def)
  have wf: "dag_wf (p_dag ?s)" using Cons.prems(2) by (simp add: g dag_remove_wf)
  have ix: "\<forall>j. map_of (p_gid ?s) j \<noteq> None \<longrightarrow> dag_has (p_dag ?s) j \<and> j \<noteq> i"
    using Cons.prems(4) by (auto simp: g dag_has_def map_of_remove split: if_splits)
  have sub: "map_of (d_commits (p_dag ?s)) j = Some c \<Longrightarrow> map_of (d_commits (p_dag r)) j = Some c" for j c
    by (auto simp: g map_of_remove split: if_splits)
  have mono: "map_of (p_gid (drop_below js s)) j \<noteq> None \<Longrightarrow> map_of (p_gid s) j \<noteq> None" for js s j
    unfolding drop_below_def
    by (induction js arbitrary: s) (force simp: drop_commit_def split: if_splits)+
  have eq: "drop_below (i # ids) r = drop_below ids ?s" by (simp add: drop_below_def)
  have "shrinks K r0 (drop_below ids ?s) \<and> dag_wf (p_dag (drop_below ids ?s)) \<and>
    (\<forall>i. map_of (p_gid (drop_below ids ?s)) i \<noteq> None \<longrightarrow> dag_has (p_dag (drop_below ids ?s)) i \<and> i \<notin> set ids) \<and>
    (\<forall>i c. map_of (d_commits (p_dag (drop_below ids ?s))) i = Some c \<longrightarrow> map_of (d_commits (p_dag ?s)) i = Some c)"
    by (rule Cons.IH [OF sh wf]) (use Cons.prems(3) ix in auto)
  moreover have "j \<noteq> i" if "map_of (p_gid (drop_below ids ?s)) j \<noteq> None" for j
    using mono [OF that] ix by blast
  ultimately show ?case unfolding eq using sub by auto
qed (simp add: drop_below_def)

lemma prune_at_inv:
  assumes r: "rep_inv dt r" and K: "K \<in> dag_anc (p_dag r) (p_headId r)" and c: "map_of (d_commits (p_dag r)) K = Some c"
    and p: "c_parents c = p # ps" and below: "dag_ancestorSet (p_dag r) p = Inr below" and d: "dag_sever (p_dag r) K = Inr d"
  shows "rep_inv dt (drop_below below (r\<lparr>p_dag := d, p_epochBase := AList.update K g (p_epochBase r)\<rparr>))"
    (is "rep_inv dt (drop_below below ?r)")
proof -
  have wf: "dag_wf (p_dag r)" and ix: "index_ok r" using r by (simp_all add: rep_inv_def rep_base_def)
  have b: "set below = dag_anc (p_dag r) p" "dag_has (p_dag r) p" using dag_ancestorSet_set [OF below] below by (simp_all add: dag_ancestorSet_Inr)
  have "p < K" using dag_wf_get [OF wf c] p by simp
  then have old: "i < K" if "i \<in> set below" for i using dag_anc_le [OF wf, of i p] that b by auto
  have head: "K \<le> p_headId r" using dag_anc_le [OF wf K] .
  let ?K = "- set below"
  have d': "d = (p_dag r)\<lparr>d_commits := AList.update K (c\<lparr>c_parents := []\<rparr>) (d_commits (p_dag r))\<rparr>"
    using d c by (simp add: dag_sever_def)
  have sh: "shrinks ?K ?r ?r" using ix
    by (simp add: shrinks_def agree_at_def sub_index_def same_rest_def index_ok_def)
  have has: "dag_has d i \<longleftrightarrow> dag_has (p_dag r) i" for i using c by (simp add: d' dag_has_def update_conv')
  have u: "shrinks ?K ?r (drop_below below ?r) \<and> dag_wf (p_dag (drop_below below ?r)) \<and>
    (\<forall>i. map_of (p_gid (drop_below below ?r)) i \<noteq> None \<longrightarrow> dag_has (p_dag (drop_below below ?r)) i \<and> i \<notin> set below) \<and>
    (\<forall>i c. map_of (d_commits (p_dag (drop_below below ?r))) i = Some c \<longrightarrow> map_of (d_commits (p_dag ?r)) i = Some c)"
    by (rule drop_below_spec [OF sh]) (use dag_sever_wf [OF wf d] ix has in \<open>auto simp: index_ok_def\<close>)
  show ?thesis
  proof (rule shrunk_inv [OF r, of ?K ?r])
    show "shrinks ?K ?r (drop_below below ?r)" "dag_wf (p_dag (drop_below below ?r))" using u by simp_all
    show "i \<in> ?K \<and> dag_has (p_dag (drop_below below ?r)) i" if "map_of (p_gid (drop_below below ?r)) i \<noteq> None" for i
      using u that by simp
    show "p_headId r \<in> ?K" using old [of "p_headId r"] head by auto
    fix i x
    assume a: "map_of (d_commits (p_dag (drop_below below ?r))) i = Some x" "i \<notin> set (p_gcBoundary ?r)" "map_of (p_epochBase ?r) i = None"
    then have "map_of (d_commits d) i = Some x" "i \<noteq> K" using u by (auto simp: update_conv')
    then show "map_of (d_commits (p_dag r)) i = Some x \<and> i \<notin> set (p_gcBoundary r) \<and> map_of (p_epochBase r) i = None"
      using a(2,3) by (simp add: d' update_conv')
  qed simp_all
qed

lemma newest_in:
  assumes "foldM (newest_step r) A best = Inr (Some (K, m))" and "\<And>x. best = Some x \<Longrightarrow> fst x \<in> B" and "set A \<subseteq> B"
  shows "K \<in> B"
proof -
  have "\<forall>x. Some (K, m) = Some x \<longrightarrow> fst x \<in> B"
    by (rule foldM_invariant [where I = "\<lambda>b. \<forall>x. b = Some x \<longrightarrow> fst x \<in> B", OF assms(1)])
       (use assms(2,3) in \<open>auto simp: newest_step_def rbind_eq_Inr split: if_splits option.splits\<close>)
  then show ?thesis by simp
qed

lemma rp_prune_keeps: "keeps (rep_inv dt) rp_pruneToEpochBase"
  unfolding rp_pruneToEpochBase_def
proof (rule ensures_get_bind, goal_cases)
  case (2 best)
  show ?case
  proof (cases best)
    case (Some Km)
    obtain K m where best: "best = Some (K, m)" using Some by force
    show ?thesis unfolding best option.case prod.case
    proof (rule ensures_get_bind, goal_cases)
      case (2 c)
      show ?case
      proof (cases "c_parents c")
        case (Cons p ps)
        show ?thesis unfolding Cons list.case
        proof (rule ensures_get_bind, goal_cases)
          case (2 why)
          show ?case
          proof (cases why)
            case None
            show ?thesis unfolding None option.case prune_at_def
            proof (rule ensures_bind [where R = "\<lambda>_. rep_inv dt"], goal_cases)
              case 1
              show ?case
              proof (rule ensures_step, goal_cases)
                case (1 r x r')
                then have inv: "rep_inv dt r" and A: "rbind (dag_ancestorSet (p_dag r) (p_headId r)) (\<lambda>A. foldM (newest_step r) A None) = Inr (Some (K, m))"
                  and c: "map_of (d_commits (p_dag r)) K = Some c" by (simp_all add: dag_get_Inr)
                from A obtain A where A: "dag_ancestorSet (p_dag r) (p_headId r) = Inr A" "foldM (newest_step r) A None = Inr (Some (K, m))"
                  by (auto simp: rbind_eq_Inr)
                then have anc: "K \<in> dag_anc (p_dag r) (p_headId r)"
                  using newest_in [OF A(2), of "set A"] dag_ancestorSet_set [OF A(1)] by auto
                from 1(2) obtain below g d where x: "dag_ancestorSet (p_dag r) p = Inr below" "dag_sever (p_dag r) K = Inr d"
                  "r' = drop_below below (r\<lparr>p_dag := d, p_epochBase := AList.update K g (p_epochBase r)\<rparr>)"
                  by (auto simp: rbind_eq_Inr)
                show ?case unfolding x(3) by (rule prune_at_inv [OF inv anc c Cons x(1,2)])
              qed simp
            next
              case (2 y)
              show ?case by (rule ensures_bind [OF rp_refresh_ok ret_keeps])
            qed
          qed (auto intro: ensures_ret)
        qed simp
      qed (auto intro: ensures_ret)
    qed simp
  qed (auto intro: ensures_ret)
qed simp

section \<open>Every run of a replica\<close>

lemma rp_new_inv:
  assumes "rp_new dt name m = Inr r"
  shows "rep_inv dt r"
proof -
  let ?run = "abind (rp_append dt [] None (dt_init dt) EPOCH0) (\<lambda>(i, g).
      abind (amod (\<lambda>r. r\<lparr>p_rootGid := g\<rparr>)) (\<lambda>_. abind (rp_set_head i) (\<lambda>_. rp_refresh)))"
  from assms obtain m' where m': "(case ?run (rp_blank (dt_init dt) name m') of (Inl e, _) \<Rightarrow> Inl e | (Inr _, r) \<Rightarrow> Inr r) = Inr r"
    unfolding rp_new_def rbind_eq_Inr by blast
  then obtain y where run: "?run (rp_blank (dt_init dt) name m') = (Inr y, r)"
    by (cases "?run (rp_blank (dt_init dt) name m')"; cases "fst (?run (rp_blank (dt_init dt) name m'))") auto
  have blank: "rep_base dt (rp_blank (dt_init dt) name m')" "ep_has (p_epochDag (rp_blank (dt_init dt) name m')) EPOCH0"
    by (simp_all add: rep_base_def rp_blank_def index_ok_def epochs_ok_def content_ok_def dag_empty_wf epoch_dag_wf)
       (simp_all add: epoch_dag_def ep_has_def)
  have tail: "ensures (\<lambda>r. rep_base dt r \<and> map_of (p_gid r) i \<noteq> None)
      (abind (amod (\<lambda>r. r\<lparr>p_rootGid := g\<rparr>)) (\<lambda>_. abind (rp_set_head i) (\<lambda>_. rp_refresh))) (\<lambda>_. rep_inv dt) (\<lambda>_. True)" for i g
  proof (rule ensures_bind [where R = "\<lambda>_ r. rep_base dt r \<and> map_of (p_gid r) i \<noteq> None"], goal_cases)
    case 1
    show ?case by (rule ensures_mod) (auto simp: same_core_def elim!: rep_base_core [rotated])
  qed (rule ensures_bind [OF rp_set_head_ok], rule ensures_post [OF rp_refresh_ok], simp_all)
  have "ensures (\<lambda>r. rep_base dt r \<and> ep_has (p_epochDag r) EPOCH0) (abind (rp_append dt [] None (dt_init dt) EPOCH0) (\<lambda>(i, g).
      abind (amod (\<lambda>r. r\<lparr>p_rootGid := g\<rparr>)) (\<lambda>_. abind (rp_set_head i) (\<lambda>_. rp_refresh)))) (\<lambda>_. rep_inv dt) (\<lambda>_. True)"
  proof (rule ensures_bind [where R = "\<lambda>x r. rep_base dt r \<and> map_of (p_gid r) (fst x) \<noteq> None"], goal_cases)
    case 1
    show ?case by (rule ensures_pre [OF _ ensures_post [OF rp_append_ok [where dt = dt and k = EPOCH0 and h = False]]]) auto
  next
    case (2 x)
    show ?case by (simp only: split_beta, rule tail)
  qed
  from ensuresD(1) [OF this _ run] blank show ?thesis by simp
qed

datatype rep_op =
    OMintTime | OGenerate json | OCommit json | OCommitBatch "json list"
  | OCommitGenerated json | OCommitGeneratedBatch "json list"
  | OIngest "string option wire_commit list" | OMerge string
  | ORegister string | OUnregister string | OForget string | OAcknowledge string string string
  | ODropMap string certificate | OCompact "json option" | OGc | OPrune

text \<open>The replica after an operation, whether it returned or threw.\<close>

fun rep_exec :: "('s, 'x, 'r) rdt \<Rightarrow> rep_op \<Rightarrow> ('s, 'x) rep \<Rightarrow> ('s, 'x) rep" where
  "rep_exec dt OMintTime r = snd (rp_mintTime r)"
| "rep_exec dt (OGenerate x) r = snd (rp_generate x r)"
| "rep_exec dt (OCommit x) r = snd (rp_commit dt x r)"
| "rep_exec dt (OCommitBatch xs) r = snd (rp_commitBatch dt xs r)"
| "rep_exec dt (OCommitGenerated x) r = snd (rp_commitGenerated dt x r)"
| "rep_exec dt (OCommitGeneratedBatch xs) r = snd (rp_commitGeneratedBatch dt xs r)"
| "rep_exec dt (OIngest wcs) r = snd (rp_ingest dt wcs r)"
| "rep_exec dt (OMerge g) r = snd (rp_mergeWithGid dt g r)"
| "rep_exec dt (ORegister n) r = snd (rp_register n r)"
| "rep_exec dt (OUnregister n) r = snd (rp_unregister n r)"
| "rep_exec dt (OForget n) r = snd (rp_forget n r)"
| "rep_exec dt (OAcknowledge n g k) r = snd (rp_acknowledgeFetch n g k r)"
| "rep_exec dt (ODropMap key ce) r = snd (rp_dropEpochMap key ce r)"
| "rep_exec dt (OCompact args) r = snd (rp_compactStable dt args r)"
| "rep_exec dt OGc r = snd (rp_gc None r)"
| "rep_exec dt OPrune r = snd (rp_pruneToEpochBase r)"

lemmas rep_keeps = rp_mintTime_keeps rp_generate_keeps rp_commit_keeps rp_commitBatch_keeps rp_commitGenerated_keeps
  rp_commitGeneratedBatch_keeps rp_ingest_keeps rp_mergeWithGid_keeps rp_register_keeps rp_unregister_keeps rp_forget_keeps
  rp_acknowledgeFetch_keeps rp_dropEpochMap_keeps rp_compactStable_keeps rp_gc_keeps rp_prune_keeps

lemma rep_exec_inv: "rep_inv dt r \<Longrightarrow> rep_inv dt (rep_exec dt x r)"
  by (cases x) (simp_all add: rep_keeps [THEN ensures_snd])

inductive rep_reach :: "('s, 'x, 'r) rdt \<Rightarrow> ('s, 'x) rep \<Rightarrow> bool" for dt where
  start: "rp_new dt name m = Inr r \<Longrightarrow> rep_reach dt r"
| step: "rep_reach dt r \<Longrightarrow> rep_reach dt (rep_exec dt x r)"

end
