(* ===== verification/ReplicaFuel.thy ===== *)
theory ReplicaFuel
  imports ReplicaInv
begin

text \<open>
  The bounds of the two loops of a merge are never met on a replica that satisfies the invariant: a larger
  bound gives the same result, for the walk to a lower epoch and for the recursion that resolves a
  criss-cross.
\<close>

section \<open>The walk to a lower epoch\<close>

lemma toEpoch_enough:
  assumes "epoch_wf ep"
  shows "epoch_rank ep k < f \<Longrightarrow> f \<le> f' \<Longrightarrow> toEpoch_loop f' dt ep toKey s k = toEpoch_loop f dt ep toKey s k"
proof (induction f arbitrary: f' k s)
  case (Suc f)
  obtain g where f': "f' = Suc g" "f \<le> g" using Suc.prems(2) by (cases f') auto
  show ?case
  proof (cases "\<exists>n p tr. ep_get ep k = Some n \<and> en_parents n = [p] \<and> en_translateInv n = Some tr")
    case True
    then obtain n p tr where n: "ep_get ep k = Some n" "en_parents n = [p]" "en_translateInv n = Some tr" by blast
    have "epoch_rank ep p < f" using epoch_rank_parent [OF assms, of k n p] n Suc.prems(1) by (simp add: ep_get_def)
    then show ?thesis using Suc.IH [OF _ f'(2)] n f'(1) by simp
  next
    case False
    then show ?thesis using f'(1) by (auto split: option.splits list.splits)
  qed
qed simp

lemma rp_toEpoch_enough:
  assumes "rep_inv dt r" and "length (p_epochDag r) + 1 \<le> f"
  shows "toEpoch_loop f dt (p_epochDag r) toKey s k = rp_toEpoch dt r s k toKey"
  unfolding rp_toEpoch_def
  by (rule toEpoch_enough) (use assms epoch_rank_bound [of "p_epochDag r" k] in \<open>simp_all add: rep_inv_def rep_base_def epochs_ok_def\<close>)

section \<open>The virtual base\<close>

text \<open>The members of an antichain are proper ancestors of \<open>w\<close> unless \<open>w\<close> itself is the only one.\<close>

lemma mcasOfSet_maximal:
  assumes wf: "dag_wf d" and m: "mcasOfSet d S w = Inr m"
  shows "\<exists>U. set m = maximal_in d (U \<inter> dag_anc d w) \<and> distinct m"
proof -
  from m obtain A B where A: "foldM (\<lambda>s A. rbind (dag_ancestorSet d s) (\<lambda>xs. Inr (js_add_all xs A))) S [] = Inr A"
    and B: "dag_ancestorSet d w = Inr B" and mo: "maximal_of d (filter (\<lambda>x. x \<in> set B) A) = Inr m"
    by (auto simp: mcasOfSet_def rbind_eq_Inr)
  have inv: "distinct A \<and> (\<forall>x \<in> set A. dag_has d x \<and> dag_anc d x \<subseteq> set A)"
  proof (rule foldM_invariant [where I = "\<lambda>A. distinct A \<and> (\<forall>x \<in> set A. dag_has d x \<and> dag_anc d x \<subseteq> set A)", OF A])
    fix s A A'
    assume i: "distinct A \<and> (\<forall>x \<in> set A. dag_has d x \<and> dag_anc d x \<subseteq> set A)"
      and a: "rbind (dag_ancestorSet d s) (\<lambda>xs. Inr (js_add_all xs A)) = Inr A'"
    from a obtain xs where xs: "dag_ancestorSet d s = Inr xs" "A' = js_add_all xs A" by (auto simp: rbind_eq_Inr)
    have "set xs = dag_anc d s" "dag_has d s" using dag_ancestorSet_set [OF xs(1)] xs(1) by (simp_all add: dag_ancestorSet_Inr)
    then show "distinct A' \<and> (\<forall>x \<in> set A'. dag_has d x \<and> dag_anc d x \<subseteq> set A')"
      using i xs(2) dag_anc_has [of d s] dag_anc_trans [of _ d s] by auto
  qed simp
  let ?ca = "filter (\<lambda>x. x \<in> set B) A"
  have Bs: "set B = dag_anc d w" using dag_ancestorSet_set [OF B] by simp
  have ca: "set ?ca = set A \<inter> dag_anc d w" using Bs by auto
  have "\<exists>m. maximal_of d ?ca = Inr m \<and> set m = maximal_in d (set ?ca) \<and> (distinct ?ca \<longrightarrow> distinct m)"
  proof (rule maximal_of_correct [OF wf])
    fix x y
    assume x: "x \<in> set ?ca" and e: "(x, y) \<in> dag_edges d"
    then have "y \<in> dag_anc d x" by (auto simp: dag_anc_def)
    then show "y \<in> set ?ca" using x inv dag_anc_trans [of x d w y] unfolding ca by blast
  qed (use inv in auto)
  then show ?thesis using mo inv ca by (intro exI [of _ "set A"]) auto
qed

lemma mcas_of_below:
  assumes wf: "dag_wf d" and m: "mcas_of d S w = Inr m" and l: "length m \<noteq> 1" and x: "x \<in> set m"
  shows "x < w"
proof -
  obtain U where U: "set m = maximal_in d (U \<inter> dag_anc d w)" "distinct m"
  proof (cases "length S = 1")
    case True
    then have "mcas d (hd S) w = Inr m" using m by (auto simp: mcas_of_def rbind_eq_Inr split: if_splits)
    from mcas_Inr [OF wf this] that show ?thesis by (auto simp: common_anc_def)
  next
    case False
    then have "mcasOfSet d S w = Inr m" using m by (auto simp: mcas_of_def rbind_eq_Inr split: if_splits)
    from mcasOfSet_maximal [OF wf this] that show ?thesis by blast
  qed
  have "x \<in> dag_anc d w" using x U(1) by (simp add: maximal_in_def)
  then have le: "x \<le> w" by (rule dag_anc_le [OF wf])
  moreover have "x \<noteq> w"
  proof
    assume "x = w"
    then have w: "w \<in> set m" using x by simp
    have all: "y = w" if "y \<in> set m" for y
    proof -
      have "y \<in> dag_anc d w" "w \<in> U \<inter> dag_anc d w" "\<forall>c \<in> U \<inter> dag_anc d w. y \<in> dag_anc d c \<longrightarrow> c = y"
        using that w U(1) by (simp_all add: maximal_in_def)
      then show "y = w" by blast
    qed
    have "set m = {w}" using w all by blast
    then have "length m = 1" using distinct_card [OF U(2)] by simp
    with l show False ..
  qed
  ultimately show ?thesis by simp
qed

lemma foldM_same: "(\<And>x s. x \<in> set xs \<Longrightarrow> f x s = g x s) \<Longrightarrow> foldM f xs s = foldM g xs s"
proof (induction xs arbitrary: s)
  case (Cons x xs)
  have "rbind (g x s) (foldM f xs) = rbind (g x s) (foldM g xs)"
    by (rule rbind_cong [OF refl], rule Cons.IH) (use Cons.prems in simp)
  then show ?case using Cons.prems by simp
qed simp

lemma baseState_enough:
  assumes wf: "dag_wf (p_dag r)"
  shows "w < f \<Longrightarrow> f \<le> f' \<Longrightarrow> baseState_upto f' dt r target S w = baseState_upto f dt r target S w"
proof (induction f arbitrary: f' S w)
  case (Suc f)
  obtain g where f': "f' = Suc g" "f \<le> g" using Suc.prems(2) by (cases f') auto
  have rec: "baseState_upto g dt r target support x = baseState_upto f dt r target support x"
    if "mcas_of (p_dag r) S w = Inr m" "length m \<noteq> 1" "x \<in> set (tl (sort_by (gid_less r) m))" for m x support
  proof -
    have "x \<in> set m" using that(3) set_sort_by [of "gid_less r" m] by (metis list.set_sel(2) tl_Nil)
    then have "x < f" using mcas_of_below [OF wf that(1,2)] Suc.prems(1) by fastforce
    then show ?thesis using Suc.IH f'(2) by blast
  qed
  show ?case
  proof (cases "mcas_of (p_dag r) S w")
    case (Inr m)
    show ?thesis
    proof (cases "length m = 1")
      case False
      let ?body = "\<lambda>k mi (support, acc). rbind (baseState_upto k dt r target support mi) (\<lambda>base.
           rbind (rp_liftDown dt r target m mi) (\<lambda>si. rbind (dt_merge3 dt base acc si) (\<lambda>acc'. Inr (support @ [mi], acc'))))"
      have "foldM (?body g) (tl (sort_by (gid_less r) m)) s = foldM (?body f) (tl (sort_by (gid_less r) m)) s" for s
        by (rule foldM_same) (use rec [OF Inr False] in \<open>simp split: prod.split\<close>)
      then show ?thesis using Inr False f'(1) by (simp add: Let_def)
    qed (use Inr f'(1) in simp)
  qed (use f'(1) in simp)
qed simp

end
