(* ===== verification/ReplicaSound.thy ===== *)
theory ReplicaSound
  imports ReplicaFuel
begin

text \<open>
  What a replica guarantees in every run: the invariant, the membership that a collection closes, and the
  delivery of a delta. The witnesses run a small log of operations.
\<close>

section \<open>A log as the datatype\<close>

definition log_dt :: "(json list, unit, json list) rdt" where
  "log_dt = \<lparr>dt_init = [], dt_prepare = None, dt_needsPrepare = False, dt_apply = (\<lambda>s x. Inr (s @ [x])), dt_applyBatch = None,
     dt_merge3 = (\<lambda>l a b. Inr (a @ filter (\<lambda>x. x \<notin> set a) b)), dt_read = (\<lambda>s. s), dt_fingerprint = Some JArr,
     dt_encodeState = Some (\<lambda>s. Inr (JArr s)), dt_decodeState = None, dt_compact = None, dt_remapState = None,
     dt_inverseTranslate = None, dt_coord = (\<lambda>_. None), dt_map = (\<lambda>_. ()), dt_cutFromMeet = None,
     dt_auditMergeCoverage = None, dt_headOnlyMerge = False, dt_hash = stableStringify (\<lambda>_. []), dt_num = (\<lambda>_. [])\<rparr>"

definition log_start :: "(json list, unit) rep" where
  "log_start = (case rp_new log_dt ''a'' None of Inr r \<Rightarrow> r | Inl _ \<Rightarrow> rp_blank [] ''a'' None)"

definition log_run :: "rep_op list \<Rightarrow> (json list, unit) rep" where
  "log_run xs = foldl (\<lambda>r x. rep_exec log_dt x r) log_start xs"

lemma log_new: "rp_new log_dt ''a'' None = Inr log_start"
proof -
  have "is_ok (rp_new log_dt ''a'' None)" by code_simp
  then show ?thesis by (auto simp: log_start_def is_ok_iff)
qed

lemma log_reach: "rep_reach log_dt (log_run xs)"
proof -
  have "rep_reach log_dt r \<Longrightarrow> rep_reach log_dt (foldl (\<lambda>r x. rep_exec log_dt x r) r xs)" for r
    by (induction xs arbitrary: r) (auto intro: rep_reach.step)
  then show ?thesis unfolding log_run_def using rep_reach.start [OF log_new] by blast
qed

section \<open>The invariant\<close>



section \<open>Properties of the state that the steps keep\<close>

text \<open>
  A property that every elementary step of a replica keeps is kept by its commits, its ingest and its
  merges; the three kinds of ingested commits that write the roster or the indexes themselves are steps
  of their own.
\<close>

locale replica_pred =
  fixes dt :: "('s, 'x, 'r) rdt" and I :: "('s, 'x) rep \<Rightarrow> bool"
  assumes added: "keeps I (rp_add ps opn st)"
    and epoch_set: "keeps I (rp_set_epoch i k)"
    and indexed: "keeps I (rp_index dt c)"
    and head_set: "keeps I (rp_set_head i)"
    and refreshed: "keeps I rp_refresh"
    and observed: "keeps I (rp_observe p)"
    and counted: "keeps I (amod (p_seq_update f))"
    and compacted: "keeps I (rp_compaction key ids ct tr trInv pk)"
    and join_epochs: "keeps I (rp_join_epochs ea eb)"
    and ingest_boundary: "keeps I (ingest_base dt gid ps epoch fp roster prf s0)"
    and ingest_booted: "keeps I (ingest_bootstrap dt gid gs ct0 s0)"
    and ingest_authored: "keeps I (ingest_op dt ps replica n payload)"
begin

lemmas prims = added epoch_set indexed head_set refreshed observed compacted

lemma append: "keeps I (rp_append dt ps opn st k)"
  unfolding rp_append_def by (intro keeps_rules prims)

lemma seal: "keeps I (rp_seal dt p st)"
  unfolding rp_seal_def
proof (rule bind_keeps [OF observed], rule ensures_get_keeps, goal_cases)
  case (1 u x)
  show ?case
    by (cases x) (simp only: prod.case, intro keeps_rules append prims counted)
qed

lemma commit: "keeps I (rp_commit dt x)"
  unfolding rp_commit_def by (intro keeps_rules seal)

lemma commitBatch: "keeps I (rp_commitBatch dt xs)"
proof (cases xs rule: remdups_adj.cases)
  case (3 x y ys)
  show ?thesis unfolding rp_commitBatch_def 3 list.case by (intro keeps_rules seal)
qed (simp_all add: rp_commitBatch_def get_keeps commit)

lemma join_at_root: "keeps I (rp_join_at_root dt err base a b)"
  unfolding rp_join_at_root_def by (intro keeps_rules join_epochs)

lemma frames:
  "keeps I (case p of
      (Some a', Some b') \<Rightarrow> abind (rp_join_epochs ea eb) (\<lambda>_. aget (f a' b'))
    | _ \<Rightarrow> rp_join_at_root dt err base a b)"
  by (auto split: prod.split option.split intro!: bind_keeps join_epochs get_keeps join_at_root)

lemma join_over: "keeps I (rp_join_over dt l a b)"
proof -
  have "keeps I (case lUp of Some l' \<Rightarrow> aget (h l') | None \<Rightarrow> abind (aget k) (\<lambda>(aE, bE). case (aE, bE) of
      (Some a', Some b') \<Rightarrow> abind (rp_join_epochs ea eb) (\<lambda>_. aget (f a' b'))
    | _ \<Rightarrow> rp_join_at_root dt err base a b))" for lUp h k f err base ea eb
  proof (cases lUp)
    case None
    show ?thesis unfolding None option.case
      by (rule ensures_get_keeps, rule case_keeps, rule frames)
  qed (simp add: get_keeps)
  then show ?thesis unfolding rp_join_over_def by (intro ensures_if [OF get_keeps ensures_get_keeps])
qed

lemma joins: "keeps I (rp_joinState dt i j)"
  unfolding rp_joinState_def
proof (rule ensures_get_keeps, goal_cases)
  case (1 x)
  have "keeps I (rp_join_headless dt i j a b)" for a b
    unfolding rp_join_headless_def by (intro keeps_rules join_at_root)
  then show ?case
    by (cases x) (auto split: sum.split js_error.split intro!: join_over fail_keeps)
qed

lemma ingest_compacted: "keeps I (ingest_compact dt gid p ct st)"
  unfolding ingest_compact_def by (intro keeps_rules prims)

lemma ingest_stated: "keeps I (ingest_state dt wc ps)"
proof -
  have j: "keeps I (case ps of a # b # _ \<Rightarrow> abind (rp_joinState dt a b) (\<lambda>(s, k). aret (None, s, k)) | _ \<Rightarrow> afail e)" for e
    by (auto split: list.split intro!: fail_keeps bind_keeps joins ret_keeps)
  show ?thesis unfolding ingest_state_def
    by (cases "wc_body wc") (simp_all add: j, auto intro!: bind_keeps ingest_authored ingest_compacted ret_keeps)
qed

lemma gate: "keeps I (ingest_gate dt wc ps x)"
proof -
  have "keeps I (case opn of Some o1 \<Rightarrow> rp_observe (op_payload o1) | None \<Rightarrow> aret ())" for opn :: "json op_rec option"
    by (cases opn) (simp_all add: ret_keeps prims)
  then show ?thesis unfolding ingest_gate_def
    by (cases x) (simp only: prod.case, intro keeps_rules append)
qed

lemma root: "keeps I (ingest_root dt gs)"
  unfolding ingest_root_def by (intro keeps_rules append)

lemma parented: "keeps I (ingest_parented dt wc gs lps)"
  unfolding ingest_parented_def
  by (cases "wc_body wc")
     (auto intro!: fail_keeps bind_keeps ingest_stated gate ingest_boundary ingest_booted split: list.split option.split)

lemma one: "keeps I (ingest_one dt wc pa)"
  unfolding ingest_one_def
  by (cases pa) (auto simp: Let_def intro!: ensures_get_keeps ensures_if ret_keeps bind_keeps root parented)

lemma ingest: "keeps I (rp_ingest dt wcs)"
  unfolding rp_ingest_def
  by (rule bind_keeps [OF ensures_fold [OF one]]) (auto intro!: ensures_if bind_keeps prims ret_keeps)

lemma move: "keeps I (rp_move i)"
  unfolding rp_move_def by (intro keeps_rules prims)

lemma merge: "keeps I (rp_mergeWithGid dt g)"
  unfolding rp_mergeWithGid_def by (intro keeps_rules move joins append)

end

section \<open>Closed membership\<close>

definition closed_in :: "string set \<Rightarrow> ('s, 'x) rep \<Rightarrow> bool" where
  "closed_in R r \<longleftrightarrow> p_gcClosed r \<and> set (p_registered r) \<subseteq> R"

lemma closed_mod: "(\<And>r. p_gcClosed (f r) = p_gcClosed r) \<Longrightarrow> (\<And>r. set (p_registered (f r)) \<subseteq> set (p_registered r)) \<Longrightarrow>
    keeps (closed_in R) (amod f)"
  by (rule ensures_mod) (auto simp: closed_in_def)

lemma closed_step: "(\<And>r x r'. f r = Inr (x, r') \<Longrightarrow> p_gcClosed r \<Longrightarrow> p_gcClosed r' \<and> set (p_registered r') \<subseteq> set (p_registered r)) \<Longrightarrow>
    keeps (closed_in R) (astep f)"
  by (rule ensures_step) (simp_all add: closed_in_def, blast)

lemma closed_prims:
  "keeps (closed_in R) (rp_add ps opn st)" "keeps (closed_in R) (rp_set_epoch i k)" "keeps (closed_in R) (rp_index dt c)"
  "keeps (closed_in R) (rp_set_head i)" "keeps (closed_in R) rp_refresh" "keeps (closed_in R) (rp_observe p)"
  "keeps (closed_in R) (rp_compaction key ids ct tr trInv pk)"
  unfolding rp_add_def rp_set_epoch_def rp_index_def rp_set_head_def rp_refresh_def rp_observe_def rp_compaction_def
  by (intro closed_mod closed_step; auto simp: rbind_pair_Inr rbind_eq_Inr)+

lemma closed_seq: "keeps (closed_in R) (amod (p_seq_update f))"
  by (rule closed_mod) simp_all

lemma closed_mint: "keeps (closed_in R) rp_mintTime" "keeps (closed_in R) (rp_generate x)"
  unfolding rp_mintTime_def rp_generate_def
  by (intro closed_step; auto simp: rbind_pair_Inr split: option.splits)+

lemma closed_join_epochs: "keeps (closed_in R) (rp_join_epochs ea eb)"
  unfolding rp_join_epochs_def by (intro keeps_rules closed_step) (auto simp: rbind_pair_Inr)

lemma closed_ingest_base: "keeps (closed_in R) (ingest_base dt gid ps epoch fp roster prf st)"
  unfolding ingest_base_def
proof (rule ensures_get_bind, goal_cases)
  case (2 x)
  obtain g s names k where x: "x = (g, s, names, k)" by (cases x)
  show ?case unfolding x prod.case
  proof (rule ensures_bind [where R = "\<lambda>_. closed_in R"], goal_cases)
    case 1
    show ?case
      by (rule ensures_mod)
         (auto simp: rbind_eq_Inr closed_in_def unknown_of_def filter_empty_conv split: option.splits if_splits)
  next
    case (2 u)
    have "keeps (closed_in R) (amod (\<lambda>r. r\<lparr>p_gid := A r, p_byGid := B r, p_epochOf := C r, p_gcBoundary := D r\<rparr>))" for A B C D
      by (rule closed_mod) simp_all
    then show ?case by (intro bind_keeps ret_keeps closed_prims)
  qed
qed simp

lemma closed_bootstrap: "keeps (closed_in R) (ingest_bootstrap dt gid gs ct st)"
proof -
  have a: "keeps (closed_in R) (amod (\<lambda>r. r\<lparr>p_epochBase := A r\<rparr>))" for A by (rule closed_mod) simp_all
  have b: "keeps (closed_in R) (amod (\<lambda>r. r\<lparr>p_gid := A r, p_byGid := B r, p_epochDag := C r, p_epochOf := D r\<rparr>))" for A B C D
    by (rule closed_mod) simp_all
  show ?thesis unfolding ingest_bootstrap_def by (intro keeps_rules closed_prims a b)
qed

lemma closed_ingest_op: "keeps (closed_in R) (ingest_op dt ps replica n payload)"
  unfolding ingest_op_def
proof (rule ensures_get_bind, goal_cases)
  case (2 x)
  obtain name s k where x: "x = (name, s, k)" by (cases x)
  show ?case unfolding x prod.case
    by (rule ensures_mod_ret) (auto simp: rbind_eq_Inr closed_in_def split: if_splits list.splits)
qed simp

interpretation closed: replica_pred dt "closed_in R" for dt :: "('s, 'x, 'r) rdt" and R
  by unfold_locales (rule closed_prims closed_seq closed_join_epochs closed_ingest_base closed_bootstrap closed_ingest_op)+

lemma closed_batch: "keeps (closed_in R) (rp_generateBatch xs)"
  unfolding rp_generateBatch_def by (rule ensures_fold, intro keeps_rules closed_mint)

lemma closed_generated: "keeps (closed_in R) (rp_commitGenerated dt x)" "keeps (closed_in R) (rp_commitGeneratedBatch dt xs)"
  unfolding rp_commitGenerated_def rp_commitGeneratedBatch_def
  by (intro keeps_rules closed_mint closed_batch closed.commit closed.commitBatch)+

lemma closed_roster:
  "keeps (closed_in R) (rp_register n)" "keeps (closed_in R) (rp_unregister n)" "keeps (closed_in R) (rp_forget n)"
  "keeps (closed_in R) (rp_acknowledgeFetch n g k)" "keeps (closed_in R) (rp_dropEpochMap key ce)"
  unfolding rp_register_def rp_unregister_def rp_forget_def rp_acknowledgeFetch_def rp_dropEpochMap_def
  by (intro closed_step; auto simp: rbind_eq_Inr split: if_splits option.splits)+

lemma closed_open: "keeps (closed_in R) (open_epoch dt ct settled ids st tr trInv pk)"
  unfolding open_epoch_def by (intro keeps_rules closed_prims)

lemma closed_compact: "keeps (closed_in R) (rp_compactStable dt args)"
proof (cases "\<exists>f remap. dt_compact dt = Some f \<and> dt_remapState dt = Some remap")
  case True
  then obtain f remap where dt: "dt_compact dt = Some f" "dt_remapState dt = Some remap" by blast
  show ?thesis unfolding rp_compactStable_def Let_def dt option.case prod.case
    by (intro keeps_rules closed_open)
next
  case False
  then have "rp_compactStable dt args = aret (Kept ''datatype does not support state compaction'' [])"
    by (auto simp: rp_compactStable_def split: option.split)
  then show ?thesis by (simp add: ret_keeps)
qed

lemma unindex_roster [simp]: "p_registered (unindex i r) = p_registered r" "p_gcClosed (unindex i r) = p_gcClosed r"
  by (simp_all add: unindex_def)

lemma unindex_dropped_roster [simp]:
  "p_registered (unindex_dropped r) = p_registered r" "p_gcClosed (unindex_dropped r) = p_gcClosed r"
proof -
  have "p_registered (foldl (\<lambda>r i. if dag_has (p_dag r) i then r
      else (unindex i r)\<lparr>p_gcBoundary := filter (\<lambda>j. j \<noteq> i) (p_gcBoundary r)\<rparr>) s js) = p_registered s \<and>
    p_gcClosed (foldl (\<lambda>r i. if dag_has (p_dag r) i then r
      else (unindex i r)\<lparr>p_gcBoundary := filter (\<lambda>j. j \<noteq> i) (p_gcBoundary r)\<rparr>) s js) = p_gcClosed s"
    for js and s :: "('a, 'b) rep" by (induction js arbitrary: s) auto
  then show "p_registered (unindex_dropped r) = p_registered r" "p_gcClosed (unindex_dropped r) = p_gcClosed r"
    by (simp_all add: unindex_dropped_def)
qed

lemma closed_gc: "keeps (closed_in R) (rp_gc hs)"
  unfolding rp_gc_def by (rule closed_step) (auto simp: Let_def rbind_pair_Inr split: if_splits)

lemma drop_below_roster [simp]: "p_registered (drop_below js r) = p_registered r" "p_gcClosed (drop_below js r) = p_gcClosed r"
proof -
  have "p_registered (drop_below js s) = p_registered s \<and> p_gcClosed (drop_below js s) = p_gcClosed s" for s :: "('a, 'b) rep"
    unfolding drop_below_def by (induction js arbitrary: s) (auto simp: drop_commit_def)
  then show "p_registered (drop_below js r) = p_registered r" "p_gcClosed (drop_below js r) = p_gcClosed r" by simp_all
qed

lemma closed_prune_at: "keeps (closed_in R) (prune_at K m p)"
  unfolding prune_at_def by (intro keeps_rules closed_prims closed_step) (auto simp: rbind_eq_Inr)

lemma closed_prune: "keeps (closed_in R) rp_pruneToEpochBase"
  unfolding rp_pruneToEpochBase_def
proof (rule ensures_get_keeps, goal_cases)
  case (1 best)
  have "keeps (closed_in R) (abind (aget f) (\<lambda>why. case why of Some e \<Rightarrow> aret (NotPruned e) | None \<Rightarrow> prune_at K m p))" for f K m p
    by (rule ensures_get_keeps) (auto split: option.split intro: ret_keeps closed_prune_at)
  note last = this
  show ?case
    by (auto split: option.split prod.split list.split intro!: ret_keeps ensures_get_keeps [where f = "\<lambda>c. case c_parents c of [] \<Rightarrow> _ c | p # ps \<Rightarrow> _ c p"] last)
qed

lemmas closed_keeps = closed_mint closed.commit closed.commitBatch closed_generated closed.ingest closed.merge closed_roster
  closed_compact closed_gc closed_prune

lemma closed_exec: "closed_in R r \<Longrightarrow> closed_in R (rep_exec dt x r)"
  by (cases x) (simp_all add: closed_keeps [THEN ensures_snd])

text \<open>C39: a collection closes the membership. Once a collection of commits has dropped anything, no later
  operation adds a member to the roster, whatever commits are ingested and whether the operations return or
  throw: the roster only shrinks, and it stays closed.\<close>

theorem collection_closes_membership:
  assumes "rp_gc hs r = (Inr (Collected k n), r0)" and "0 < n"
  shows "let r' = foldl (\<lambda>r x. rep_exec dt x r) r0 xs in p_gcClosed r' \<and> set (p_registered r') \<subseteq> set (p_registered r)"
proof -
  from assms have "closed_in (set (p_registered r)) r0"
    by (auto simp: rp_gc_def astep_def Let_def closed_in_def rbind_def split: sum.splits prod.splits if_splits)
  then have "closed_in (set (p_registered r)) (foldl (\<lambda>r x. rep_exec dt x r) r0 xs)"
    by (induction xs arbitrary: r0) (auto intro: closed_exec)
  then show ?thesis by (simp add: closed_in_def Let_def)
qed

lemma collection_closes_membership_witness:
  "\<exists>k n r0. rp_gc None (log_run [OCommit (JInt 1), OCommit (JInt 2)]) = (Inr (Collected k n), r0) \<and> 0 < n \<and>
    set (p_registered (foldl (\<lambda>r x. rep_exec log_dt x r) r0 [ORegister ''b''])) \<subseteq> {''a''}"
proof -
  let ?r = "log_run [OCommit (JInt 1), OCommit (JInt 2)]"
  have "(case fst (rp_gc None ?r) of Inr (Collected k n) \<Rightarrow> 0 < n | _ \<Rightarrow> False)" by code_simp
  then obtain k n r0 where g: "rp_gc None ?r = (Inr (Collected k n), r0)" "0 < n"
    by (cases "rp_gc None ?r") (auto split: sum.splits gc_outcome.splits)
  have "p_registered ?r = [''a'']" by code_simp
  with collection_closes_membership [OF g, of log_dt "[ORegister ''b'']"] g show ?thesis by (auto simp: Let_def)
qed

section \<open>Delivery\<close>

definition held :: "string set \<Rightarrow> ('s, 'x) rep \<Rightarrow> bool" where
  "held H r \<longleftrightarrow> (\<forall>g \<in> H. map_of (p_byGid r) g \<noteq> None)"

lemma held_mod: "(\<And>r. map_of (p_byGid (f r)) = map_of (p_byGid r)) \<Longrightarrow> keeps (held H) (amod f)"
  by (rule ensures_mod) (auto simp: held_def)

lemma held_step: "(\<And>r x r'. f r = Inr (x, r') \<Longrightarrow> map_of (p_byGid r') = map_of (p_byGid r)) \<Longrightarrow> keeps (held H) (astep f)"
  by (rule ensures_step) (auto simp: held_def)

lemma held_prims:
  "keeps (held H) (rp_add ps opn st)" "keeps (held H) (rp_set_epoch i k)"
  "keeps (held H) (rp_set_head i)" "keeps (held H) rp_refresh" "keeps (held H) (rp_observe p)"
  "keeps (held H) (rp_compaction key ids ct tr trInv pk)" "keeps (held H) (amod (p_seq_update f))"
  unfolding rp_add_def rp_set_epoch_def rp_set_head_def rp_refresh_def rp_observe_def rp_compaction_def
  by (intro held_mod held_step; auto simp: rbind_pair_Inr rbind_eq_Inr)+

lemma held_index: "ensures (held H) (rp_index dt c) (\<lambda>g. held (insert g H)) (held H)"
  unfolding rp_index_def by (rule ensures_step) (auto simp: rbind_eq_Inr held_def update_conv')

lemma held_weaken: "held (insert g H) r \<Longrightarrow> held H r"
  by (simp add: held_def)

lemma held_join_epochs: "keeps (held H) (rp_join_epochs ea eb)"
  unfolding rp_join_epochs_def by (intro keeps_rules held_step) (auto simp: rbind_pair_Inr)

lemma held_base: "ensures (held H) (ingest_base dt gid ps epoch fp roster prf st) (\<lambda>g r. held (insert g H) r \<and> gid = Some g) (held H)"
  unfolding ingest_base_def
proof (rule ensures_get_bind, goal_cases)
  case (2 x)
  obtain g s names k where x: "x = (g, s, names, k)" by (cases x)
  show ?case unfolding x prod.case
  proof (rule ensures_bind [where R = "\<lambda>_ r. held H r \<and> gid = Some g"], goal_cases)
    case 1
    show ?case by (rule ensures_mod) (auto simp: rbind_eq_Inr held_def split: option.splits if_splits)
  next
    case (2 u)
    show ?case
    proof (rule ensures_bind [where R = "\<lambda>_ r. held H r \<and> gid = Some g"], goal_cases)
      case 1
      show ?case unfolding rp_add_def by (rule ensures_step) (auto simp: rbind_pair_Inr held_def)
    next
      case (2 c)
      show ?case by (rule ensures_mod_ret) (auto simp: held_def update_conv')
    qed
  qed
qed simp

lemma held_bootstrap:
  "ensures (held H) (ingest_bootstrap dt gid gs ct st) (\<lambda>g r. held (insert g H) r \<and> (gid = None \<or> gid = Some g)) (held H)"
  unfolding ingest_bootstrap_def
proof (rule ensures_get_bind, goal_cases)
  case (2 x)
  obtain s ct' p where x: "x = (s, ct', p)" by (cases x)
  show ?case unfolding x prod.case
  proof (rule ensures_bind [where R = "\<lambda>_. held H"], goal_cases)
    case 1
    show ?case unfolding rp_add_def by (rule ensures_step) (auto simp: rbind_pair_Inr held_def)
  next
    case (2 c)
    show ?case
    proof (rule ensures_bind [OF held_mod], simp, rule ensures_get_bind, goal_cases)
      case (2 u y)
      obtain g ids where y: "y = (g, ids)" by (cases y)
      show ?case unfolding y prod.case
        by (rule ensures_mod_ret) (auto simp: rbind_eq_Inr held_def update_conv' split: if_splits)
    qed simp
  qed
qed simp

lemma held_op: "keeps (held H) (ingest_op dt ps replica n payload)"
  unfolding ingest_op_def by (intro keeps_rules held_mod) simp

interpretation held: replica_pred dt "held H" for dt :: "('s, 'x, 'r) rdt" and H
  by unfold_locales
    (rule held_prims held_join_epochs held_op ensures_post [OF held_index held_weaken]
      ensures_post [OF held_base held_weaken [OF conjunct1]] ensures_post [OF held_bootstrap held_weaken [OF conjunct1]]; assumption?)+

lemma held_append: "ensures (held H) (rp_append dt ps opn st k) (\<lambda>x. held (insert (snd x) H)) (held H)"
  unfolding rp_append_def
  by (rule ensures_bind [OF held_prims(1)], rule ensures_bind [OF held_prims(2)], rule ensures_bind [OF held_index], rule ensures_ret) simp

abbreviation gate_post :: "string set \<Rightarrow> string option \<Rightarrow> string \<Rightarrow> ('s, 'x) rep \<Rightarrow> bool" where
  "gate_post H gid g r \<equiv> held (insert g H) r \<and> (gid = None \<or> gid = Some g)"

lemma held_gate: "ensures (held H) (ingest_gate dt wc ps x) (gate_post H (wc_gid wc)) (held H)"
proof -
  have obs: "keeps (held H') (case opn of Some o1 \<Rightarrow> rp_observe (op_payload o1) | None \<Rightarrow> aret ())" for opn :: "json op_rec option" and H'
    by (cases opn) (simp_all add: ret_keeps held_prims)
  have rest: "ensures (held (insert (snd y) H)) (case y of (i, g) \<Rightarrow>
      if wc_gid wc \<noteq> None \<and> wc_gid wc \<noteq> Some g then afail (Error e)
      else abind (case opn of Some o1 \<Rightarrow> rp_observe (op_payload o1) | None \<Rightarrow> aret ()) (\<lambda>_. aret g)) (gate_post H (wc_gid wc)) (held H)"
    for y :: "nat \<times> string" and e and opn :: "json op_rec option"
  proof (cases y)
    case (Pair i g)
    have "ensures (held (insert g H)) (abind (case opn of Some o1 \<Rightarrow> rp_observe (op_payload o1) | None \<Rightarrow> aret ()) (\<lambda>_. aret g))
        (gate_post H (wc_gid wc)) (held H)" if "\<not> (wc_gid wc \<noteq> None \<and> wc_gid wc \<noteq> Some g)"
    proof (rule ensures_bind [where R = "\<lambda>_. held (insert g H)"])
      show "ensures (held (insert g H)) (case opn of Some o1 \<Rightarrow> rp_observe (op_payload o1) | None \<Rightarrow> aret ()) (\<lambda>_. held (insert g H)) (held H)"
        by (rule ensures_post [OF obs]) (auto dest: held_weaken)
    qed (rule ensures_ret, use that in auto)
    then show ?thesis unfolding Pair by (auto intro!: ensures_fail dest: held_weaken)
  qed
  show ?thesis unfolding ingest_gate_def
    by (cases x) (simp only: prod.case, rule ensures_bind [OF held_append rest])
qed

lemma held_parented: "ensures (held H) (ingest_parented dt wc gs lps) (gate_post H (wc_gid wc)) (held H)"
proof -
  have full: "ensures (held H) (abind (ingest_state dt wc ps) (ingest_gate dt wc ps)) (gate_post H (wc_gid wc)) (held H)" for ps
    by (rule ensures_bind [OF held.ingest_stated held_gate])
  have base: "ensures (held H) (ingest_base dt (wc_gid wc) ps e f ro pr st) (gate_post H (wc_gid wc)) (held H)" for ps e f ro pr st
    by (rule ensures_post [OF held_base]) auto
  show ?thesis unfolding ingest_parented_def
    by (cases "wc_body wc") (auto intro!: ensures_fail full base held_bootstrap split: list.split option.split)
qed

lemma held_one: "ensures (held H) (ingest_one dt wc pa) (\<lambda>_. held (H \<union> set_option (wc_gid wc))) (held H)"
proof -
  obtain prior added where pa: "pa = (prior, added)" by force
  show ?thesis unfolding ingest_one_def pa prod.case
  proof (rule ensures_get_bind, goal_cases)
    case (2 known)
    show ?case
    proof (rule ensures_if, goal_cases)
      case 1
      then show ?case by (intro ensures_ret) (auto simp: held_def split: option.splits)
    next
      case 2
      have rest: "ensures (held H) (abind (ingest_root dt gs) (\<lambda>_. abind (aget h) (\<lambda>lps.
          abind (ingest_parented dt wc gs lps) (\<lambda>g. aret (Some g, added + 1)))))
          (\<lambda>_. held (H \<union> set_option (wc_gid wc))) (held H)" for gs and h :: "('a, 'b) rep \<Rightarrow> nat option list res"
        by (rule ensures_bind [OF held.root], rule ensures_bind [OF get_keeps], rule ensures_bind [OF held_parented], rule ensures_ret)
           (auto simp: held_def)
      show ?case unfolding Let_def by (rule ensures_pre [OF _ rest]) simp
    qed
  qed simp
qed

lemma held_ingest: "ensures (held H) (rp_ingest dt wcs) (\<lambda>_. held (H \<union> \<Union> (set_option ` wc_gid ` set wcs))) (\<lambda>_. True)"
proof -
  have "ensures (held H) (afold (ingest_one dt) wcs pa) (\<lambda>_. held (H \<union> \<Union> (set_option ` wc_gid ` set wcs))) (\<lambda>_. True)" for H pa
  proof (induction wcs arbitrary: H pa)
    case (Cons wc wcs)
    have "ensures (held H) (ingest_one dt wc pa) (\<lambda>_. held (H \<union> set_option (wc_gid wc))) (\<lambda>_. True)"
      by (rule ensures_post [OF held_one]) simp_all
    from ensures_bind [OF this Cons.IH [of "H \<union> set_option (wc_gid wc)"]] show ?case
      by (simp add: Un_assoc)
  qed (simp add: ensures_ret)
  moreover have "ensures (held H') (case y of (_, added) \<Rightarrow> if added > 0 then abind rp_refresh (\<lambda>_. aret added) else aret added)
      (\<lambda>_. held H') (\<lambda>_. True)" for H' and y :: "string option \<times> nat"
    by (rule ensures_post [of _ _ "\<lambda>_. held H'" "held H'"], cases y)
       (auto intro!: ensures_if bind_keeps held_prims ret_keeps)
  ultimately show ?thesis unfolding rp_ingest_def by (rule ensures_bind)
qed

definition wire_given :: "string wire_commit \<Rightarrow> string option wire_commit" where
  "wire_given wc = \<lparr>wc_gid = Some (wc_gid wc), wc_parents = map Some (wc_parents wc), wc_body = wc_body wc\<rparr>"

lemma wire_compact_gid: "wire_compact dt r i c ps = Inr wc \<Longrightarrow> map_of (p_gid r) i = Some (wc_gid wc)"
  unfolding wire_compact_def by (auto simp: rbind_eq_Inr rp_gid_def Let_def)

lemma wire_base_gid: "wire_base dt r i c ps = Inr wc \<Longrightarrow> map_of (p_gid r) i = Some (wc_gid wc)"
  unfolding wire_base_def by (auto simp: rbind_eq_Inr rp_gid_def Let_def split: option.splits)

lemma wire_of_gid: "wire_of dt r i = Inr wc \<Longrightarrow> map_of (p_gid r) i = Some (wc_gid wc)"
  by (auto simp: wire_of_def rbind_eq_Inr rp_gid_def dest: wire_compact_gid wire_base_gid split: if_splits option.splits)

lemma missing_fold:
  assumes "foldM (missing_step have1 r) A acc = Inr ms"
  shows "set acc \<subseteq> set ms \<and> (\<forall>i \<in> set A. \<exists>g. map_of (p_gid r) i = Some g \<and> (g \<in> set have1 \<or> i \<in> set ms \<or>
     (\<exists>c. map_of (d_commits (p_dag r)) i = Some c \<and> c_parents c = [] \<and> map_of (p_epochBase r) i = None \<and> i \<notin> set (p_gcBoundary r))))"
  using assms
proof (induction A arbitrary: acc)
  case (Cons i A)
  then obtain acc' where st: "missing_step have1 r i acc = Inr acc'" "foldM (missing_step have1 r) A acc' = Inr ms"
    by (auto simp: rbind_eq_Inr)
  from st(1) have "set acc \<subseteq> set acc'" and "\<exists>g. map_of (p_gid r) i = Some g \<and> (g \<in> set have1 \<or> i \<in> set acc' \<or>
     (\<exists>c. map_of (d_commits (p_dag r)) i = Some c \<and> c_parents c = [] \<and> map_of (p_epochBase r) i = None \<and> i \<notin> set (p_gcBoundary r)))"
    by (auto simp: missing_step_def rbind_eq_Inr rp_gid_def dag_get_Inr split: if_splits)
  with Cons.IH [OF st(2)] show ?case by auto
qed simp

lemma mapM_in: "mapM f xs = Inr ys \<Longrightarrow> x \<in> set xs \<Longrightarrow> \<exists>y \<in> set ys. f x = Inr y"
  by (induction xs arbitrary: ys) (auto simp: rbind_eq_Inr)

text \<open>C40: a delta delivers the sender's history. When a replica ships the delta against content ids the
  receiver holds, and the receiver ingests it without an error, then the receiver holds, under its content
  id, every commit in the ancestry of the sender's head; only the shared root is never shipped.\<close>

theorem delta_delivers:
  assumes "rep_reach dt a" and delta: "rp_delta dt have1 a = Inr cs" and hv: "\<forall>g \<in> set have1. map_of (p_byGid b) g \<noteq> None"
    and ing: "rp_ingest dt (map wire_given cs) b = (Inr n, b')"
  shows "\<forall>i \<in> dag_anc (p_dag a) (p_headId a). \<exists>g. map_of (p_gid a) i = Some g \<and>
    (map_of (p_byGid b') g \<noteq> None \<or> g = dt_hash dt (JObj [(''root'', JBool True)]))"
proof
  fix i
  assume i: "i \<in> dag_anc (p_dag a) (p_headId a)"
  from delta obtain A ms where A: "dag_ancestorSet (p_dag a) (p_headId a) = Inr A" "foldM (missing_step have1 a) A [] = Inr ms"
    "mapM (wire_of dt a) (sort ms) = Inr cs" by (auto simp: rp_delta_def rbind_eq_Inr)
  have H: "held (set have1 \<union> wc_gid ` set cs) b'"
  proof -
    have "held (set have1) b" using hv by (simp add: held_def)
    from ensuresD(1) [OF held_ingest this ing] show ?thesis
      by (auto simp: held_def wire_given_def)
  qed
  have inv: "rep_inv dt a" using assms(1) by (induction rule: rep_reach.induct) (auto intro: rp_new_inv rep_exec_inv)
  from missing_fold [OF A(2)] i dag_ancestorSet_set [OF A(1)] obtain g where g: "map_of (p_gid a) i = Some g"
    and c: "g \<in> set have1 \<or> i \<in> set ms \<or>
     (\<exists>c. map_of (d_commits (p_dag a)) i = Some c \<and> c_parents c = [] \<and> map_of (p_epochBase a) i = None \<and> i \<notin> set (p_gcBoundary a))"
    by blast
  have "map_of (p_byGid b') g \<noteq> None \<or> g = dt_hash dt (JObj [(''root'', JBool True)])"
    using c
  proof (elim disjE exE conjE)
    assume "i \<in> set ms"
    then obtain wc where "wc \<in> set cs" "wire_of dt a i = Inr wc" using mapM_in [OF A(3)] by auto
    then show ?thesis using wire_of_gid [of dt a i wc] g H by (auto simp: held_def)
  next
    fix c
    assume c: "map_of (d_commits (p_dag a)) i = Some c" "c_parents c = []" "map_of (p_epochBase a) i = None" "i \<notin> set (p_gcBoundary a)"
    then have "rp_gidOf dt a c = Inr g" using inv g by (simp add: rep_inv_def rep_base_def content_ok_def)
    then show ?thesis using c(2) by (simp add: rp_gidOf_def commitContentId_def)
  qed (use H in \<open>simp add: held_def\<close>)
  with g show "\<exists>g. map_of (p_gid a) i = Some g \<and> (map_of (p_byGid b') g \<noteq> None \<or> g = dt_hash dt (JObj [(''root'', JBool True)]))"
    by blast
qed

lemma delta_delivers_witness:
  "\<exists>cs n b'. rp_delta log_dt [] (log_run [OCommit (JInt 1), OCommit (JInt 2)]) = Inr cs \<and> length cs = 2 \<and>
    rp_ingest log_dt (map wire_given cs) log_start = (Inr n, b') \<and>
    (\<forall>i \<in> dag_anc (p_dag (log_run [OCommit (JInt 1), OCommit (JInt 2)])) (p_headId (log_run [OCommit (JInt 1), OCommit (JInt 2)])).
      \<exists>g. map_of (p_gid (log_run [OCommit (JInt 1), OCommit (JInt 2)])) i = Some g \<and>
        (map_of (p_byGid b') g \<noteq> None \<or> g = dt_hash log_dt (JObj [(''root'', JBool True)])))"
proof -
  let ?a = "log_run [OCommit (JInt 1), OCommit (JInt 2)]"
  have "(case rp_delta log_dt [] ?a of Inl _ \<Rightarrow> False | Inr cs \<Rightarrow> length cs = 2 \<and> is_ok (fst (rp_ingest log_dt (map wire_given cs) log_start)))"
    by code_simp
  then obtain cs where cs: "rp_delta log_dt [] ?a = Inr cs" "length cs = 2" "is_ok (fst (rp_ingest log_dt (map wire_given cs) log_start))"
    by (auto split: sum.splits)
  then obtain n b' where n: "rp_ingest log_dt (map wire_given cs) log_start = (Inr n, b')"
    by (cases "rp_ingest log_dt (map wire_given cs) log_start") (auto simp: is_ok_iff)
  have "\<forall>g \<in> set []. map_of (p_byGid log_start) g \<noteq> None" by simp
  from delta_delivers [OF log_reach cs(1) this n] cs n show ?thesis by blast
qed

end
