(* ===== verification/ReplicaGaps.thy ===== *)
theory ReplicaGaps
  imports ReplicaSound
begin

text \<open>
  Three runs on which a replica does not do what its comments say, evaluated on the log of
  \<open>ReplicaSound\<close>: pruning takes a collection boundary for a compaction, and an ingested commit that
  fails the content-address gate leaves its epoch, or its author in the roster.
\<close>

text \<open>The log with short content ids, distinct on the commits of the runs.\<close>

definition short_hash :: "json \<Rightarrow> string" where
  "short_hash v = (case (json_get v ''replica'', json_get v ''seq'') of
       (Some (JStr n), Some (JInt q)) \<Rightarrow> n @ int_text q
     | _ \<Rightarrow> (case json_get v ''p'' of
           Some (JArr ps) \<Rightarrow> concat (map (\<lambda>p. case p of JStr s \<Rightarrow> s | _ \<Rightarrow> []) ps)
         | _ \<Rightarrow> ''r''))"

definition short_dt :: "(json list, unit, json list) rdt" where
  "short_dt = log_dt\<lparr>dt_hash := short_hash\<rparr>"

definition short_new :: "string \<Rightarrow> (json list, unit) rep" where
  "short_new n = (case rp_new short_dt n None of Inr r \<Rightarrow> r | Inl _ \<Rightarrow> rp_blank [] n None)"

definition op_commit :: "string \<Rightarrow> string \<Rightarrow> nat \<Rightarrow> int \<Rightarrow> string option wire_commit" where
  "op_commit parent n q x = \<lparr>wc_gid = Some (n @ int_text (int q)), wc_parents = [Some parent], wc_body = WOp (JStr n) q (JInt x)\<rparr>"

text \<open>
  \<open>a\<close> receives a commit of \<open>b\<close>, one of \<open>c\<close>, their merge and a second commit of \<open>b\<close>, moves its head there and
  collects. The merge has lost the parent by \<open>b\<close> and is a boundary.
\<close>

definition gap_history :: "string option wire_commit list" where
  "gap_history = [op_commit ''r'' ''b'' 0 1, op_commit ''r'' ''c'' 0 2,
     \<lparr>wc_gid = None, wc_parents = [Some ''b0'', Some ''c0''], wc_body = WMerge\<rparr>, op_commit ''b0c0'' ''b'' 1 3]"

definition gap_collected :: "(json list, unit) rep" where
  "gap_collected = foldl (\<lambda>r x. rep_exec short_dt x r) (short_new ''a'') [OIngest gap_history, OMerge ''b1'', OGc]"

text \<open>A second commit of \<open>c\<close> on its first arrives and is merged.\<close>

definition gap_merge :: "(json list, unit) rep \<Rightarrow> string res" where
  "gap_merge r = fst (abind (rp_ingest short_dt [op_commit ''r'' ''c'' 0 2, op_commit ''c0'' ''c'' 1 4])
     (\<lambda>_. rp_mergeWithGid short_dt ''c1'') r)"

lemma prune_takes_boundary:
  "gap_merge gap_collected = Inr ''b1c1''"
  "fst (rp_pruneToEpochBase gap_collected) = Inr (Pruned 1 0)"
  "gap_merge (snd (rp_pruneToEpochBase gap_collected)) = Inl (NoCommonAncestor 4 7)"
  by code_simp+

text \<open>A compaction commit under a wrong id, and an authored commit under a wrong id.\<close>

definition forging_dt :: "(json list, unit, json list) rdt" where
  "forging_dt = short_dt\<lparr>dt_decodeState := Some (\<lambda>v. case v of JArr xs \<Rightarrow> Inr xs | _ \<Rightarrow> Inl (TypeError ''state''))\<rparr>"

definition forged :: "wire_body \<Rightarrow> unit res \<times> (json list, unit) rep" where
  "forged body = abind (aget rp_headGid) (\<lambda>h. abind (rp_ingest forging_dt
     [\<lparr>wc_gid = Some ''x'', wc_parents = [Some h], wc_body = body\<rparr>]) (\<lambda>_. aret ())) (short_new ''c'')"

lemma failed_gate_leaves_epoch:
  "fst (forged (WCompact (JObj [(''settledIds'', JArr [JInt 7])]) (JArr []))) = Inl (Error ''content-address mismatch'')"
  "cut_set (p_epochDag (snd (forged (WCompact (JObj [(''settledIds'', JArr [JInt 7])]) (JArr []))))) ''x'' = {7}"
  by code_simp+

lemma failed_gate_leaves_author:
  "fst (forged (WOp (JStr ''z'') 0 (JInt 5))) = Inl (Error ''content-address mismatch'')"
  "''z'' \<in> set (p_registered (snd (forged (WOp (JStr ''z'') 0 (JInt 5)))))"
  by code_simp+

end
