(* ===== verification/Serialize.thy ===== *)
theory Serialize
  imports Compact "HOL-Library.Word"
begin

text \<open>
  The run-table serializer of the embedded sequence (\<^verbatim>\<open>runtime/src/serialize.js\<close>): the kept tree of a
  state's coordinates, its partition into maximal fusible chains, the accounting of its bits, the display
  order read off the table, and the encoder and decoder. The state is given as the list of its records in
  iteration order. A text is the list of its code points, as \<^verbatim>\<open>[...s]\<close> gives them, \<open>str\<close> is
  \<^verbatim>\<open>String(el)\<close>, and a byte string is a list of numbers below 256. Lengths and counters are exact, as
  JavaScript's are below 2 to the 53; the shifts of the bit reader and writer work on 32 bits.
\<close>

section \<open>Lengths\<close>

fun bitLength :: "nat \<Rightarrow> nat" where
  "bitLength n = (if n = 0 then 0 else Suc (bitLength (n div 2)))"

declare bitLength.simps [simp del]

definition bitsD :: "nat \<Rightarrow> int" where
  "bitsD d = (let L = bitLength d in (2 * int (bitLength L) - 1) + (int L - 1))"

definition ref_width :: "nat \<Rightarrow> nat" where
  "ref_width nEnt = max 1 (bitLength nEnt)"

section \<open>Bit input and output\<close>

record bitWriter =
  bw_bytes :: "nat list"
  bw_cur :: nat
  bw_nbits :: nat
  bw_total :: nat

definition bw_new :: bitWriter where
  "bw_new = \<lparr>bw_bytes = [], bw_cur = 0, bw_nbits = 0, bw_total = 0\<rparr>"

definition bw_bit :: "nat \<Rightarrow> bitWriter \<Rightarrow> bitWriter" where
  "bw_bit b w = (let cur = 2 * bw_cur w + b mod 2 in
     if bw_nbits w + 1 = 8
     then w\<lparr>bw_bytes := bw_bytes w @ [cur], bw_cur := 0, bw_nbits := 0, bw_total := bw_total w + 1\<rparr>
     else w\<lparr>bw_cur := cur, bw_nbits := bw_nbits w + 1, bw_total := bw_total w + 1\<rparr>)"

definition bw_code :: "nat list \<Rightarrow> bitWriter \<Rightarrow> bitWriter" where
  "bw_code str w = foldl (\<lambda>w b. bw_bit b w) w str"

fun bw_uint :: "nat \<Rightarrow> nat \<Rightarrow> bitWriter \<Rightarrow> bitWriter" where
  "bw_uint v 0 w = w"
| "bw_uint v (Suc i) w = bw_uint v i (bw_bit (unat (and (drop_bit (i mod 32) (word_of_nat v :: 32 word)) 1)) w)"

definition bw_finish :: "bitWriter \<Rightarrow> nat list" where
  "bw_finish w = (if bw_nbits w \<noteq> 0 then bw_bytes w @ [bw_cur w * 2 ^ (8 - bw_nbits w)] else bw_bytes w)"

text \<open>Reading past the end of an array gives \<^verbatim>\<open>undefined\<close>, whose bits are 0.\<close>

definition byte_at :: "nat list \<Rightarrow> nat \<Rightarrow> nat" where
  "byte_at u8 i = (if i < length u8 then u8 ! i else 0)"

definition br_bit :: "nat list \<Rightarrow> nat \<Rightarrow> nat" where
  "br_bit u8 pos = byte_at u8 (pos div 8) div 2 ^ (7 - pos mod 8) mod 2"

fun br_uint_loop :: "nat list \<Rightarrow> nat \<Rightarrow> 32 word \<Rightarrow> nat \<Rightarrow> 32 word" where
  "br_uint_loop u8 0 v pos = v"
| "br_uint_loop u8 (Suc k) v pos = br_uint_loop u8 k (or (push_bit 1 v) (word_of_nat (br_bit u8 pos))) (Suc pos)"

definition br_uint :: "nat list \<Rightarrow> nat \<Rightarrow> nat \<Rightarrow> nat" where
  "br_uint u8 w pos = unat (br_uint_loop u8 w 0 pos)"

lemma br_bit_1: "br_bit u8 pos = 1 \<Longrightarrow> pos < 8 * length u8"
  by (rule ccontr) (simp add: br_bit_def byte_at_def not_less )

text \<open>The three loops of \<open>elias\<close>: the header ones and the length and the value after a leading 1.\<close>

function br_ones :: "nat list \<Rightarrow> nat \<Rightarrow> nat" where
  "br_ones u8 pos = (if br_bit u8 pos = 1 then Suc (br_ones u8 (Suc pos)) else 0)"
  by auto

termination
  by (relation "measure (\<lambda>(u8, pos). 8 * length u8 - pos)") (auto intro!: diff_less_mono2 br_bit_1)

declare br_ones.simps [simp del]

fun br_more :: "nat list \<Rightarrow> nat \<Rightarrow> nat \<Rightarrow> nat \<Rightarrow> nat" where
  "br_more u8 0 v pos = v"
| "br_more u8 (Suc k) v pos = br_more u8 k (2 * v + br_bit u8 pos) (Suc pos)"

definition br_elias :: "nat list \<Rightarrow> nat \<Rightarrow> nat \<times> nat" where
  "br_elias u8 pos = (let c = br_ones u8 pos; L = br_more u8 c 1 (pos + c + 1) in
     (br_more u8 (L - 1) 1 (pos + c + 1 + c), pos + c + 1 + c + (L - 1)))"

definition br_align :: "nat \<Rightarrow> nat" where
  "br_align pos = (if pos mod 8 \<noteq> 0 then (pos + 7) div 8 * 8 else pos)"

function writeVarint :: "nat \<Rightarrow> nat list" where
  "writeVarint n = (if n \<ge> 128 then (n mod 128 + 128) # writeVarint (n div 128) else [n])"
  by auto
termination by (relation "measure id") auto

declare writeVarint.simps [simp del]

function readVarint :: "nat list \<Rightarrow> nat \<Rightarrow> nat \<Rightarrow> nat \<Rightarrow> nat \<times> nat" where
  "readVarint u8 n s i = (let b = byte_at u8 i; n' = n + b mod 128 * 2 ^ s in
     if b div 128 mod 2 = 1 then readVarint u8 n' (s + 7) (Suc i) else (n', Suc i))"
  by auto
termination
  by (relation "measure (\<lambda>(u8, n, s, i). length u8 - i)") (auto simp: byte_at_def split: if_splits)

declare readVarint.simps [simp del]

section \<open>Text\<close>

text \<open>What the encoder sends: a pair of surrogates is one scalar value, a lone surrogate is replaced.\<close>

definition high_surrogate :: "nat \<Rightarrow> bool" where
  "high_surrogate c \<longleftrightarrow> 0xD800 \<le> c \<and> c < 0xDC00"

definition low_surrogate :: "nat \<Rightarrow> bool" where
  "low_surrogate c \<longleftrightarrow> 0xDC00 \<le> c \<and> c < 0xE000"

definition scalar :: "nat \<Rightarrow> bool" where
  "scalar c \<longleftrightarrow> c < 0x110000 \<and> \<not> high_surrogate c \<and> \<not> low_surrogate c"

definition replaced :: "nat \<Rightarrow> nat" where
  "replaced c = (if scalar c then c else 0xFFFD)"

fun scalars :: "nat list \<Rightarrow> nat list" where
  "scalars [] = []"
| "scalars [c] = [replaced c]"
| "scalars (h # l # cs) = (if high_surrogate h \<and> low_surrogate l
     then (0x10000 + (h - 0xD800) * 0x400 + (l - 0xDC00)) # scalars cs else replaced h # scalars (l # cs))"

definition point_bytes :: "nat \<Rightarrow> nat list" where
  "point_bytes c =
     (if c < 0x80 then [c]
      else if c < 0x800 then [0xC0 + c div 64, 0x80 + c mod 64]
      else if c < 0x10000 then [0xE0 + c div 4096, 0x80 + c div 64 mod 64, 0x80 + c mod 64]
      else [0xF0 + c div 262144, 0x80 + c div 4096 mod 64, 0x80 + c div 64 mod 64, 0x80 + c mod 64])"

definition text_bytes :: "nat list \<Rightarrow> nat list" where
  "text_bytes cs = concat (map point_bytes (scalars cs))"

text \<open>
  The decoder of \<^verbatim>\<open>TextDecoder\<close>: the code point so far, the number of bytes it needs, the range of the
  next one. A byte out of range ends the sequence with a replacement character and is read again.
\<close>

function read_points :: "nat \<Rightarrow> nat \<Rightarrow> nat \<Rightarrow> nat \<Rightarrow> nat list \<Rightarrow> nat list" where
  "read_points cp k lo hi [] = (if k = 0 then [] else [0xFFFD])"
| "read_points cp 0 lo hi (b # bs) =
     (if b < 0x80 then b # read_points 0 0 0x80 0xBF bs
      else if 0xC2 \<le> b \<and> b \<le> 0xDF then read_points (b - 0xC0) 1 0x80 0xBF bs
      else if 0xE0 \<le> b \<and> b \<le> 0xEF then read_points (b - 0xE0) 2
        (if b = 0xE0 then 0xA0 else 0x80) (if b = 0xED then 0x9F else 0xBF) bs
      else if 0xF0 \<le> b \<and> b \<le> 0xF4 then read_points (b - 0xF0) 3
        (if b = 0xF0 then 0x90 else 0x80) (if b = 0xF4 then 0x8F else 0xBF) bs
      else 0xFFFD # read_points 0 0 0x80 0xBF bs)"
| "read_points cp (Suc k) lo hi (b # bs) =
     (if lo \<le> b \<and> b \<le> hi then
        (if k = 0 then (cp * 64 + (b - 0x80)) # read_points 0 0 0x80 0xBF bs
         else read_points (cp * 64 + (b - 0x80)) k 0x80 0xBF bs)
      else 0xFFFD # read_points 0 0 0x80 0xBF (b # bs))"
  by pat_completeness auto
termination
  by (relation "measure (\<lambda>(cp, k, lo, hi, bs). 2 * length bs + (if k = 0 then 0 else 1))") auto

text \<open>A byte order mark at the start is dropped.\<close>

definition bytes_text :: "nat list \<Rightarrow> nat list" where
  "bytes_text bs = read_points 0 0 0x80 0xBF (if take 3 bs = [0xEF, 0xBB, 0xBF] then drop 3 bs else bs)"

section \<open>The kept tree\<close>

text \<open>A node has the record that ends there, if one does, and its children by delta.\<close>

datatype 'e knode = KNode "(int \<times> 'e) option" "(nat \<times> 'e knode) list"

fun k_kids :: "'e knode \<Rightarrow> (nat \<times> 'e knode) list" where
  "k_kids (KNode v ks) = ks"

fun k_rec :: "'e knode \<Rightarrow> (int \<times> 'e) option" where
  "k_rec (KNode v ks) = v"

fun k_put :: "nat list \<Rightarrow> int \<times> 'e \<Rightarrow> 'e knode \<Rightarrow> 'e knode" where
  "k_put [] x (KNode v ks) = KNode (Some x) ks"
| "k_put (d # ds) x (KNode v ks) = KNode v (AList.update d
     (k_put ds x (case map_of ks d of Some ch \<Rightarrow> ch | None \<Rightarrow> KNode None [])) ks)"

definition coordTree :: "(int \<times> 'e erec) list \<Rightarrow> 'e knode res" where
  "coordTree state = foldM (\<lambda>(id1, r) root. rbind (decodeChain (er_coord r)) (\<lambda>ds.
     Inr (k_put ds (id1, er_el r) root))) state (KNode None [])"

section \<open>The run table\<close>

record 'e run =
  re_live :: bool
  re_parent :: "nat option"
  re_poff :: nat
  re_delta :: nat
  re_members :: "(int \<times> 'e) option list"

record 'e runTable =
  rt_entries :: "'e run list"
  rt_att :: "nat list list"

text \<open>The maximal fusible chain from a node, with the children of its last member.\<close>

fun fuse_chain :: "'e knode \<Rightarrow> (int \<times> 'e) option list \<times> (nat \<times> 'e knode) list" where
  "fuse_chain (KNode v [(d, k)]) =
     (if d = 1 \<and> (k_rec k \<noteq> None) = (v \<noteq> None) then (case fuse_chain k of (ms, ks) \<Rightarrow> (v # ms, ks))
      else ([v], [(d, k)]))"
| "fuse_chain (KNode v []) = ([v], [])"
| "fuse_chain (KNode v (x # y # ks)) = ([v], x # y # ks)"

fun k_size :: "'e knode \<Rightarrow> nat" where
  "k_size (KNode v ks) = Suc (sum_list (map (\<lambda>(d, k). k_size k) ks))"

definition kids_size :: "(nat \<times> 'e knode) list \<Rightarrow> nat" where
  "kids_size ks = sum_list (map (\<lambda>(d, k). k_size k) ks)"

lemma fuse_chain_size: "kids_size (snd (fuse_chain t)) < k_size t"
  by (induction t rule: fuse_chain.induct) (auto simp: kids_size_def split: prod.splits)

type_synonym 'e pending = "(nat \<times> 'e knode) \<times> nat option \<times> nat"

definition pending_size :: "'e pending list \<Rightarrow> nat" where
  "pending_size stack = sum_list (map (\<lambda>((d, node), _). k_size node) stack)"

lemma pending_push: "pending_size (rev (map (\<lambda>k. (k, p)) ks) @ stack) = kids_size ks + pending_size stack"
  by (induction ks) (auto simp: pending_size_def kids_size_def)

lemma pending_Cons [simp]: "pending_size (((d, node), p) # stack) = k_size node + pending_size stack"
  by (simp add: pending_size_def)

definition attach_to :: "nat option \<Rightarrow> nat \<Rightarrow> nat list list \<Rightarrow> nat list list" where
  "attach_to parent eid att = (case parent of None \<Rightarrow> att | Some p \<Rightarrow> att[p := att ! p @ [eid]])"

text \<open>The loop over the stack, whose top is the head of the list.\<close>

function run_loop :: "'e pending list \<Rightarrow> 'e run list \<Rightarrow> nat list list \<Rightarrow> 'e runTable" where
  "run_loop [] entries att = \<lparr>rt_entries = entries, rt_att = att\<rparr>"
| "run_loop (((d, node), parent, poff) # stack) entries att =
     (let eid = length entries; ms = fst (fuse_chain node) in
      run_loop (rev (map (\<lambda>k. (k, Some eid, length ms - 1)) (snd (fuse_chain node))) @ stack)
        (entries @ [\<lparr>re_live = k_rec node \<noteq> None, re_parent = parent, re_poff = poff, re_delta = d, re_members = ms\<rparr>])
        (attach_to parent eid (att @ [[]])))"
  by pat_completeness auto
termination
  by (relation "measure (\<lambda>(stack, entries, att). pending_size stack)") (auto simp: pending_push fuse_chain_size)

definition tail_attached :: "'e run list \<Rightarrow> bool" where
  "tail_attached entries \<longleftrightarrow> list_all (\<lambda>e. case re_parent e of None \<Rightarrow> True
     | Some p \<Rightarrow> re_poff e = length (re_members (entries ! p)) - 1) entries"

definition buildRunTable :: "(int \<times> 'e erec) list \<Rightarrow> 'e runTable res" where
  "buildRunTable state = rbind (coordTree state) (\<lambda>root.
     let t = run_loop (rev (map (\<lambda>k. (k, None, 0)) (k_kids root))) [] [] in
     if tail_attached (rt_entries t) then Inr t
     else Inl (Error ''run table: interior attachment (tail-attachment lemma violated)''))"

section \<open>Accounting\<close>

record accounting =
  ac_total :: int
  ac_rec_id :: int
  ac_rec_off :: int
  ac_hdr_flag :: int
  ac_hdr_parent :: int
  ac_hdr_poff :: int
  ac_hdr_delta :: int
  ac_hdr_len :: int
  ac_n_ent :: nat
  ac_n_rec :: nat
  ac_n_live_runs :: nat
  ac_w :: nat

definition accountingBits :: "'e runTable \<Rightarrow> accounting" where
  "accountingBits table =
     (let entries = rt_entries table; nEnt = length entries; w = ref_width nEnt;
          liveEntries = filter re_live entries;
          nRec = sum_list (map (\<lambda>e. length (re_members e)) liveEntries);
          recOff = sum_list (map (\<lambda>e. sum_list (map (\<lambda>j. bitsD (j + 1)) [0..<length (re_members e)])) liveEntries);
          hdrPoff = sum_list (map (\<lambda>e. bitsD ((if re_parent e = None then 0 else re_poff e) + 1)) entries);
          hdrDelta = sum_list (map (\<lambda>e. bitsD (re_delta e)) entries);
          hdrLen = sum_list (map (\<lambda>e. bitsD (length (re_members e))) entries);
          recId = int (nRec * w); hdrFlag = int nEnt; hdrParent = int (nEnt * w)
      in \<lparr>ac_total = recId + recOff + hdrFlag + hdrParent + hdrPoff + hdrDelta + hdrLen, ac_rec_id = recId,
          ac_rec_off = recOff, ac_hdr_flag = hdrFlag, ac_hdr_parent = hdrParent, ac_hdr_poff = hdrPoff,
          ac_hdr_delta = hdrDelta, ac_hdr_len = hdrLen, ac_n_ent = nEnt, ac_n_rec = nRec,
          ac_n_live_runs = length liveEntries, ac_w = w\<rparr>)"

section \<open>The display order of a table\<close>

text \<open>The stable sort by descending head delta.\<close>

definition run_kids :: "'e run list \<Rightarrow> nat list \<Rightarrow> nat list" where
  "run_kids entries ids = sort_key (\<lambda>i. - int (re_delta (entries ! i))) ids"

text \<open>The walk takes one entry off the stack per step; it gets as many steps as there are entries.\<close>

fun walk_runs :: "nat \<Rightarrow> 'e runTable \<Rightarrow> nat list \<Rightarrow> (int \<times> 'e) option list \<Rightarrow> (int \<times> 'e) option list option" where
  "walk_runs n table [] out = Some out"
| "walk_runs 0 table (eid # stack) out = None"
| "walk_runs (Suc n) table (eid # stack) out =
     (let e = rt_entries table ! eid in
      walk_runs n table (run_kids (rt_entries table) (rt_att table ! eid) @ stack)
        (if re_live e then out @ re_members e else out))"

definition tableWalk :: "'e runTable \<Rightarrow> 'e option list option" where
  "tableWalk table = map_option (map (map_option snd))
     (walk_runs (length (rt_entries table)) table
       (run_kids (rt_entries table) (filter (\<lambda>i. re_parent (rt_entries table ! i) = None) [0..<length (rt_entries table)])) [])"

section \<open>Encoding\<close>

definition encode_run :: "nat \<Rightarrow> 'e run \<Rightarrow> bitWriter \<Rightarrow> bitWriter" where
  "encode_run w e bw = bw_code (dEnc (length (re_members e))) (bw_code (dEnc (re_delta e))
     (bw_uint (case re_parent e of None \<Rightarrow> 0 | Some p \<Rightarrow> p + 1) w (bw_bit (if re_live e then 1 else 0) bw)))"

text \<open>The texts of the live members in storage order; a member without a record is \<^verbatim>\<open>undefined\<close>.\<close>

definition member_text :: "('e \<Rightarrow> nat list) \<Rightarrow> (int \<times> 'e) option \<Rightarrow> nat list" where
  "member_text str m = (case m of Some (i, el) \<Rightarrow> str el | None \<Rightarrow> map of_char ''undefined'')"

definition live_texts :: "('e \<Rightarrow> nat list) \<Rightarrow> 'e run list \<Rightarrow> nat list list" where
  "live_texts str entries = concat (map (\<lambda>e. map (member_text str) (re_members e)) (filter re_live entries))"

record encoded =
  ec_bytes :: "nat list"
  ec_metaBits :: nat

definition encode :: "('e \<Rightarrow> nat list) \<Rightarrow> (int \<times> 'e erec) list \<Rightarrow> encoded res" where
  "encode str state = rbind (buildRunTable state) (\<lambda>table.
     let entries = rt_entries table; nEnt = length entries; w = ref_width nEnt;
         bw = foldl (\<lambda>bw e. encode_run w e bw) bw_new entries;
         texts = live_texts str entries;
         packed = list_all (\<lambda>s. length s = 1) texts;
         head = writeVarint nEnt @ [if packed then 0 else 1];
         els = if packed then text_bytes (concat texts)
           else concat (map (\<lambda>s. writeVarint (length (text_bytes s)) @ text_bytes s) texts)
     in Inr \<lparr>ec_bytes = head @ bw_finish bw @ els, ec_metaBits = bw_total bw\<rparr>)"

section \<open>Decoding\<close>

record runHead =
  rh_live :: bool
  rh_parent :: int
  rh_delta :: nat
  rh_len :: nat

fun read_heads :: "nat list \<Rightarrow> nat \<Rightarrow> nat \<Rightarrow> nat \<Rightarrow> runHead list \<times> nat" where
  "read_heads u8 w 0 pos = ([], pos)"
| "read_heads u8 w (Suc k) pos =
     (let live = br_bit u8 pos = 1; pref = br_uint u8 w (pos + 1); (delta, p1) = br_elias u8 (pos + 1 + w);
          (len, p2) = br_elias u8 p1; (hs, p3) = read_heads u8 w k p2
      in (\<lparr>rh_live = live, rh_parent = int pref - 1, rh_delta = delta, rh_len = len\<rparr> # hs, p3))"

text \<open>
  The coordinates of the heads, and the tails built so far: the tail of an entry that comes later is still
  the empty string, and a reference past the table is a \<open>TypeError\<close>.
\<close>

fun run_coords :: "nat \<Rightarrow> nat list list \<Rightarrow> runHead list \<Rightarrow> nat list list res" where
  "run_coords nEnt tails [] = Inr []"
| "run_coords nEnt tails (e # es) =
     (if rh_parent e \<ge> int nEnt then Inl (TypeError ''tail'')
      else let base = if rh_parent e < 0 \<or> nat (rh_parent e) \<ge> length tails then [] else tails ! nat (rh_parent e);
               head = base @ dEnc (rh_delta e)
           in rbind (run_coords nEnt (tails @ [head @ concat (replicate (rh_len e - 1) (dEnc 1))]) es) (\<lambda>hs. Inr (head # hs)))"

text \<open>The elements: the code points of the rest in mode 0, counted texts otherwise.\<close>

fun take_points :: "nat \<Rightarrow> nat list \<Rightarrow> nat list option list" where
  "take_points 0 cps = []"
| "take_points (Suc n) [] = None # take_points n []"
| "take_points (Suc n) (c # cps) = Some [c] # take_points n cps"

fun take_texts :: "nat \<Rightarrow> nat list \<Rightarrow> nat \<Rightarrow> nat list option list" where
  "take_texts 0 u8 i = []"
| "take_texts (Suc n) u8 i = (let (blen, j) = readVarint u8 0 0 i in
     Some (bytes_text (take blen (drop j u8))) # take_texts n u8 (j + blen))"

definition live_coords :: "(runHead \<times> nat list) list \<Rightarrow> nat list list" where
  "live_coords hs = concat (map (\<lambda>(e, head). map (\<lambda>j. head @ concat (replicate j (dEnc 1))) [0..<rh_len e])
     (filter (\<lambda>(e, head). rh_live e) hs))"

definition decode :: "nat list \<Rightarrow> nat list option emb res" where
  "decode u8 =
     (let (nEnt, i) = readVarint u8 0 0 0; mode = byte_at u8 i; w = ref_width nEnt;
          (es, pos) = read_heads u8 w nEnt ((i + 1) * 8); start = br_align pos div 8
      in rbind (run_coords nEnt [] es) (\<lambda>heads.
        let coords = live_coords (zip es heads); n = length coords;
            els = if mode = 0 then take_points n (bytes_text (drop start u8)) else take_texts n u8 start
        in Inr (foldl (\<lambda>s (i, c, el). fmupd (int i) \<lparr>er_coord = c, er_el = el\<rparr> s) fmempty
             (zip [1..<n + 1] (zip coords els)))))"

text \<open>The losslessness gate, on a state of texts.\<close>

definition roundTripReads :: "nat list emb \<Rightarrow> bool res" where
  "roundTripReads state = rbind (encode (\<lambda>s. s) (fm_entries state)) (\<lambda>e. rbind (decode (ec_bytes e)) (\<lambda>back.
     let a = emb_read state; b = emb_read back in
     if length a \<noteq> length b then Inl (Error ''read length'')
     else if map Some a \<noteq> b then Inl (Error ''read mismatch'') else Inr True))"

end
