(* ===== verification/PeerSync.thy ===== *)
theory PeerSync
  imports Serialize ReplicaGc
begin

text \<open>
  The peers with separate stores of \<^verbatim>\<open>runtime/src/sync.js\<close>: local commits, the delta of the commits
  another peer lacks, its ingestion with the recomputed content id as the gate, the merge with an advertised
  head, a full sync round over the wire, and the choice between a delta and a snapshot. A method that throws
  keeps what it had already changed, as in \<open>Effects\<close>. A snapshot serializes the state as a map of records,
  which \<open>sd_records\<close> lists in iteration order.
\<close>

section \<open>Peers\<close>

record ('s, 'r) sdt =
  sd_init :: 's
  sd_apply :: "'s \<Rightarrow> json \<Rightarrow> 's res"
  sd_merge3 :: "'s \<Rightarrow> 's \<Rightarrow> 's \<Rightarrow> 's res"
  sd_read :: "'s \<Rightarrow> 'r"
  sd_fingerprint :: "('s \<Rightarrow> json) option"
  sd_records :: "'s \<Rightarrow> (int \<times> json erec) list"
  sd_text :: "json \<Rightarrow> nat list"
  sd_hash :: "json \<Rightarrow> string"

record 's peer =
  q_name :: string
  q_dag :: "(json, 's) dag"
  q_seq :: nat
  q_gid :: "(nat \<times> string) list"
  q_byGid :: "(string \<times> nat) list"
  q_registered :: "string list"
  q_headId :: nat
  q_frontier :: frontier

definition pe_gid :: "'s peer \<Rightarrow> nat \<Rightarrow> string res" where
  "pe_gid q i = req ''gid'' (map_of (q_gid q) i)"

definition pe_head :: "'s peer \<Rightarrow> (json, 's) commit res" where
  "pe_head q = dag_get (q_dag q) (q_headId q)"

definition pe_headGid :: "'s peer \<Rightarrow> string res" where
  "pe_headGid q = pe_gid q (q_headId q)"

definition pe_read :: "('s, 'r) sdt \<Rightarrow> 's peer \<Rightarrow> 'r res" where
  "pe_read dt q = rbind (pe_head q) (\<lambda>c. Inr (sd_read dt (c_state c)))"

definition pe_gidOf :: "('s, 'r) sdt \<Rightarrow> 's peer \<Rightarrow> (json, 's) commit \<Rightarrow> string res" where
  "pe_gidOf dt q c = rbind (mapM (pe_gid q) (c_parents c)) (\<lambda>pg.
     commitContentId (sd_hash dt) (sd_fingerprint dt) (length (c_parents c)) (c_op c) (c_state c) pg)"

definition pe_index :: "('s, 'r) sdt \<Rightarrow> (json, 's) commit \<Rightarrow> ('s peer, string) act" where
  "pe_index dt c = astep (\<lambda>q. rbind (pe_gidOf dt q c) (\<lambda>g.
     Inr (g, q\<lparr>q_gid := AList.update (c_id c) g (q_gid q), q_byGid := AList.update g (c_id c) (q_byGid q)\<rparr>)))"

definition pe_add :: "nat list \<Rightarrow> json op_rec option \<Rightarrow> 's \<Rightarrow> ('s peer, (json, 's) commit) act" where
  "pe_add ps opn st = astep (\<lambda>q. rbind (dag_add (q_dag q) ps opn st) (\<lambda>(c, d). Inr (c, q\<lparr>q_dag := d\<rparr>)))"

definition pe_refresh :: "('s peer, unit) act" where
  "pe_refresh = astep (\<lambda>q. rbind (frontierOf (q_dag q) (q_headId q)) (\<lambda>fr. Inr ((), q\<lparr>q_frontier := fr\<rparr>)))"

definition pe_set_head :: "nat \<Rightarrow> ('s peer, unit) act" where
  "pe_set_head i = amod (\<lambda>q. q\<lparr>q_headId := i\<rparr>)"

definition pe_append :: "('s, 'r) sdt \<Rightarrow> nat list \<Rightarrow> json op_rec option \<Rightarrow> 's \<Rightarrow> ('s peer, nat \<times> string) act" where
  "pe_append dt ps opn st = abind (pe_add ps opn st) (\<lambda>c. abind (pe_index dt c) (\<lambda>g. aret (c_id c, g)))"

definition pe_move :: "nat \<Rightarrow> ('s peer, string) act" where
  "pe_move b = abind (pe_set_head b) (\<lambda>_. abind pe_refresh (\<lambda>_. aget pe_headGid))"

definition pe_new :: "('s, 'r) sdt \<Rightarrow> string \<Rightarrow> 's peer res" where
  "pe_new dt name = (case abind (pe_append dt [] None (sd_init dt)) (\<lambda>(i, g). pe_move i)
       \<lparr>q_name = name, q_dag = dag_empty, q_seq = 0, q_gid = [], q_byGid = [], q_registered = [name],
         q_headId = 0, q_frontier = []\<rparr>
     of (Inl e, _) \<Rightarrow> Inl e | (Inr _, q) \<Rightarrow> Inr q)"

definition pe_commit :: "('s, 'r) sdt \<Rightarrow> json \<Rightarrow> ('s peer, string) act" where
  "pe_commit dt payload =
     abind (aget (\<lambda>q. rbind (pe_head q) (\<lambda>h. rbind (sd_apply dt (c_state h) payload) (\<lambda>s.
       Inr (s, q_headId q, q_name q, q_seq q))))) (\<lambda>(s, h, name, n).
     abind (amod (\<lambda>q. q\<lparr>q_seq := Suc n\<rparr>)) (\<lambda>_.
     abind (pe_append dt [h] (Some \<lparr>op_replica = name, op_seq = n, op_payload = payload\<rparr>) s) (\<lambda>(i, g).
     abind (pe_set_head i) (\<lambda>_. abind pe_refresh (\<lambda>_. aret g)))))"

section \<open>Deltas\<close>

definition pe_ancestryGids :: "'s peer \<Rightarrow> string list res" where
  "pe_ancestryGids q = rbind (dag_ancestorSet (q_dag q) (q_headId q)) (\<lambda>A.
     rbind (mapM (pe_gid q) A) (\<lambda>gs. Inr (js_add_all gs [])))"

definition pe_missing_step :: "string list \<Rightarrow> 's peer \<Rightarrow> nat \<Rightarrow> nat list \<Rightarrow> nat list res" where
  "pe_missing_step theirGids q i acc = rbind (pe_gid q i) (\<lambda>g.
     if g \<in> set theirGids then Inr acc
     else rbind (dag_get (q_dag q) i) (\<lambda>c. Inr (if c_parents c = [] then acc else acc @ [i])))"

definition op_body :: "json op_rec option \<Rightarrow> wire_body" where
  "op_body o1 = (case o1 of None \<Rightarrow> WNone | Some x \<Rightarrow> WAuthored (JStr (op_replica x)) (op_seq x) (op_payload x))"

definition pe_wire :: "'s peer \<Rightarrow> nat \<Rightarrow> string wire_commit res" where
  "pe_wire q i = rbind (dag_get (q_dag q) i) (\<lambda>c. rbind (pe_gid q i) (\<lambda>g.
     rbind (mapM (pe_gid q) (c_parents c)) (\<lambda>ps.
       Inr \<lparr>wc_gid = g, wc_parents = ps, wc_body = op_body (c_op c)\<rparr>)))"

definition pe_delta :: "string list \<Rightarrow> 's peer \<Rightarrow> string wire_commit list res" where
  "pe_delta theirGids q = rbind (dag_ancestorSet (q_dag q) (q_headId q)) (\<lambda>A.
     rbind (foldM (pe_missing_step theirGids q) A []) (\<lambda>missing. mapM (pe_wire q) (sort missing)))"

section \<open>Ingestion\<close>

text \<open>
  The state of a merge commit, from its first two parents, and of an authored one, from its first; a commit
  of another shape has no \<open>op\<close> to read the replica of.
\<close>

definition pe_merged :: "('s, 'r) sdt \<Rightarrow> (json, 's) dag \<Rightarrow> nat \<Rightarrow> nat \<Rightarrow> 's res" where
  "pe_merged dt d a b = rbind (lca d a b) (\<lambda>l. rbind (dag_get d l) (\<lambda>cl. rbind (dag_get d a) (\<lambda>ca.
     rbind (dag_get d b) (\<lambda>cb. sd_merge3 dt (c_state cl) (c_state ca) (c_state cb)))))"

definition pe_op_state :: "('s, 'r) sdt \<Rightarrow> 's peer \<Rightarrow> nat list \<Rightarrow> json \<Rightarrow> 's res" where
  "pe_op_state dt q ps payload = (case ps of
       [] \<Rightarrow> Inl (Error ''no such commit'')
     | p # _ \<Rightarrow> rbind (dag_get (q_dag q) p) (\<lambda>c. sd_apply dt (c_state c) payload))"

definition pe_authored ::
  "('s, 'r) sdt \<Rightarrow> nat list \<Rightarrow> json \<Rightarrow> nat \<Rightarrow> json \<Rightarrow> ('s peer, json op_rec option \<times> 's) act"
where
  "pe_authored dt ps replica n payload =
     abind (aget (\<lambda>q. rbind (pe_op_state dt q ps payload) (\<lambda>s. rbind (json_str replica) (\<lambda>name. Inr (s, name))))) (\<lambda>(s, name).
     abind (amod (\<lambda>q. q\<lparr>q_registered := js_add name (q_registered q)\<rparr>)) (\<lambda>_.
     aret (Some \<lparr>op_replica = name, op_seq = n, op_payload = payload\<rparr>, s)))"

definition pe_wire_state :: "('s, 'r) sdt \<Rightarrow> wire_body \<Rightarrow> nat list \<Rightarrow> ('s peer, json op_rec option \<times> 's) act" where
  "pe_wire_state dt body ps = (case body of
       WNone \<Rightarrow> (case ps of
           p0 # p1 # _ \<Rightarrow> abind (aget (\<lambda>q. pe_merged dt (q_dag q) p0 p1)) (\<lambda>s. aret (None, s))
         | _ \<Rightarrow> afail (Error ''no such commit''))
     | WAuthored replica n payload \<Rightarrow> pe_authored dt ps replica n payload
     | WOp replica n payload \<Rightarrow> pe_authored dt ps replica n payload
     | _ \<Rightarrow> afail (TypeError ''replica''))"

definition pe_ingest_one ::
  "('s, 'r) sdt \<Rightarrow> string option wire_commit \<Rightarrow> string option \<times> nat \<Rightarrow> ('s peer, string option \<times> nat) act"
where
  "pe_ingest_one dt wc pa = (case pa of (prior, added) \<Rightarrow>
     abind (aget (\<lambda>q. Inr (case wc_gid wc of Some g \<Rightarrow> map_of (q_byGid q) g \<noteq> None | None \<Rightarrow> False))) (\<lambda>known.
     if known then aret (wc_gid wc, added)
     else let parentGids = map (\<lambda>g. case g of None \<Rightarrow> prior | Some _ \<Rightarrow> g) (wc_parents wc) in
       abind (aget (\<lambda>q. Inr (map (\<lambda>g. case g of None \<Rightarrow> None | Some x \<Rightarrow> map_of (q_byGid q) x) parentGids))) (\<lambda>lps.
       if None \<in> set lps then afail (Error ''ingest: unknown parent (delta not ancestor-closed)'')
       else abind (pe_wire_state dt (wc_body wc) (map the lps)) (\<lambda>(opn, s).
         abind (pe_append dt (map the lps) opn s) (\<lambda>(i, g).
         if wc_gid wc \<noteq> None \<and> wc_gid wc \<noteq> Some g then afail (Error ''content-address mismatch'')
         else aret (Some g, added + 1))))))"

definition pe_ingest :: "('s, 'r) sdt \<Rightarrow> string option wire_commit list \<Rightarrow> ('s peer, nat) act" where
  "pe_ingest dt wcs = abind (afold (pe_ingest_one dt) wcs (None, 0)) (\<lambda>(_, added).
     if added > 0 then abind pe_refresh (\<lambda>_. aret added) else aret added)"

section \<open>Merging\<close>

definition pe_mergeWithGid :: "('s, 'r) sdt \<Rightarrow> string \<Rightarrow> ('s peer, string) act" where
  "pe_mergeWithGid dt g =
     abind (aget (\<lambda>q. case map_of (q_byGid q) g of
         None \<Rightarrow> Inl (Error ''mergeWithGid: not present (ingest first)'')
       | Some b \<Rightarrow> Inr (q_headId q, b))) (\<lambda>(a, b).
     if a = b then aget pe_headGid
     else abind (aget (\<lambda>q. dag_isAncestor (q_dag q) a b)) (\<lambda>ab.
       if ab then pe_move b
       else abind (aget (\<lambda>q. dag_isAncestor (q_dag q) b a)) (\<lambda>ba.
         if ba then aget pe_headGid
         else abind (aget (\<lambda>q. pe_merged dt (q_dag q) a b)) (\<lambda>s.
           abind (pe_append dt [a, b] None s) (\<lambda>(i, _). pe_move i)))))"

definition pe_stableCut :: "'s peer \<Rightarrow> json stable_cut res" where
  "pe_stableCut q = stableCut (q_dag q) (q_headId q) (q_registered q) (q_name q)"

definition pe_snapshot :: "('s, 'r) sdt \<Rightarrow> 's peer \<Rightarrow> nat list res" where
  "pe_snapshot dt q = rbind (pe_head q) (\<lambda>c. rbind (encode (sd_text dt) (sd_records dt (c_state c))) (\<lambda>e.
     Inr (ec_bytes e)))"

definition pe_snapshotBytes :: "('s, 'r) sdt \<Rightarrow> 's peer \<Rightarrow> nat res" where
  "pe_snapshotBytes dt q = rbind (pe_snapshot dt q) (\<lambda>b. Inr (length b))"

section \<open>A sync round\<close>

record sync_report =
  sr_bytes :: nat
  sr_baseline :: nat
  sr_toBCount :: nat
  sr_toACount :: nat
  sr_merged :: bool

definition decoded_delta :: "nat list \<Rightarrow> string option wire_commit list res" where
  "decoded_delta bytes = rbind (decodeWire bytes) (\<lambda>m. case m of
       MDelta cs \<Rightarrow> mapM wire_in cs
     | MValue v \<Rightarrow> Inl (TypeError ''c''))"

text \<open>\<^verbatim>\<open>try { .. } catch (e)\<close> for the criss-cross error.\<close>

definition gated :: "('st, 'a) act \<Rightarrow> ('st, bool) act" where
  "gated m s = (case m s of
       (Inl (CrissCrossError _), s') \<Rightarrow> (Inr False, s')
     | (Inl e, s') \<Rightarrow> (Inl e, s')
     | (Inr _, s') \<Rightarrow> (Inr True, s'))"

definition syncPeers ::
  "(string \<Rightarrow> string \<Rightarrow> bool) \<Rightarrow> ('s, 'r) sdt \<Rightarrow> ('s peer \<times> 's peer, sync_report) act"
where
  "syncPeers lc dt =
     abind (aget (\<lambda>(a, b). rbind (pe_ancestryGids a) (\<lambda>hasA. rbind (pe_ancestryGids b) (\<lambda>hasB.
       rbind (pe_delta hasB a) (\<lambda>toB. rbind (pe_delta hasA b) (\<lambda>toA.
       rbind (pe_headGid a) (\<lambda>aHead. rbind (pe_headGid b) (\<lambda>bHead.
       rbind (pe_snapshotBytes dt a) (\<lambda>na. rbind (pe_snapshotBytes dt b) (\<lambda>nb.
       rbind (encodeWire lc (MDelta toB)) (\<lambda>msgB. rbind (encodeWire lc (MDelta toA)) (\<lambda>msgA.
         Inr (toB, toA, aHead, bHead, na + nb, msgB, msgA))))))))))))) (\<lambda>(toB, toA, aHead, bHead, baseline, msgB, msgA).
     abind (aget (\<lambda>_. decoded_delta msgB)) (\<lambda>inB. abind (on_snd (pe_ingest dt inB)) (\<lambda>_.
     abind (aget (\<lambda>_. decoded_delta msgA)) (\<lambda>inA. abind (on_fst (pe_ingest dt inA)) (\<lambda>_.
     abind (gated (abind (on_snd (pe_mergeWithGid dt aHead)) (\<lambda>_. on_fst (pe_mergeWithGid dt bHead)))) (\<lambda>merged.
     aret \<lparr>sr_bytes = length msgB + length msgA, sr_baseline = baseline, sr_toBCount = length toB,
       sr_toACount = length toA, sr_merged = merged\<rparr>))))))"

section \<open>Deltas in a shared store\<close>

definition shared_step ::
  "(json \<Rightarrow> string) \<Rightarrow> ('s \<Rightarrow> json) option \<Rightarrow> (json, 's) dag \<Rightarrow> nat \<Rightarrow> (nat \<times> string) list \<Rightarrow> (nat \<times> string) list res"
where
  "shared_step hash fingerprint d i gids = rbind (dag_get d i) (\<lambda>c.
     let parents = map (map_of gids) (c_parents c) in
     if None \<in> set parents then Inl (Error ''sharedContentGids: pruned parent'')
     else rbind (commitContentId hash fingerprint (length (c_parents c)) (c_op c) (c_state c) (map the parents)) (\<lambda>g.
       Inr (AList.update i g gids)))"

definition sharedContentGids ::
  "(json \<Rightarrow> string) \<Rightarrow> ('s \<Rightarrow> json) option \<Rightarrow> (json, 's) dag \<Rightarrow> (nat \<times> string) list res"
where
  "sharedContentGids hash fingerprint d = foldM (shared_step hash fingerprint d) (sort (dag_ids d)) []"

text \<open>A commit without a content id goes by its local id.\<close>

definition shared_name :: "(nat \<times> string) list option \<Rightarrow> nat \<Rightarrow> string" where
  "shared_name gids i = (case gids of
       None \<Rightarrow> CHR ''c'' # int_text (int i)
     | Some m \<Rightarrow> (case map_of m i of None \<Rightarrow> CHR ''c'' # int_text (int i) | Some g \<Rightarrow> g))"

definition sharedDelta ::
  "(json, 's) dag \<Rightarrow> nat \<Rightarrow> nat \<Rightarrow> (nat \<times> string) list option \<Rightarrow> string wire_commit list res"
where
  "sharedDelta d fromHeadId toHeadId gids =
     rbind (dag_ancestorSet d toHeadId) (\<lambda>have1. rbind (dag_ancestorSet d fromHeadId) (\<lambda>A.
     foldM (\<lambda>i out. if i \<in> set have1 then Inr out else rbind (dag_get d i) (\<lambda>c.
       Inr (if c_parents c = [] then out
         else out @ [\<lparr>wc_gid = shared_name gids i, wc_parents = map (shared_name gids) (c_parents c),
           wc_body = op_body (c_op c)\<rparr>]))) (sort A) []))"

datatype catchup = CatchDelta "string wire_commit list" nat | CatchSnapshot nat

definition deltaOrSnapshot ::
  "(string \<Rightarrow> string \<Rightarrow> bool) \<Rightarrow> ('s, 'r) sdt \<Rightarrow> 's peer \<Rightarrow> string list \<Rightarrow> catchup res"
where
  "deltaOrSnapshot lc dt sender receiverGids =
     rbind (pe_delta receiverGids sender) (\<lambda>d. rbind (binaryWireBytes lc (MDelta d)) (\<lambda>deltaSize.
     rbind (pe_snapshotBytes dt sender) (\<lambda>snapSize.
       Inr (if deltaSize \<le> snapSize then CatchDelta d deltaSize else CatchSnapshot snapSize))))"

end
