(* ===== verification/PeerGaps.thy ===== *)
theory PeerGaps
  imports PeerSync
begin

text \<open>
  Two runs on which the code does not do what its comments say. A delta leaves out the content ids inside a
  run, and ingestion recognises a commit it holds by the id on the wire: taking the same delta twice stores
  the inside of the run again, under the same content id, and a later merge misses the common history. And
  the serializer decodes texts with a decoder that drops a byte order mark.
\<close>

text \<open>A counter with short content ids, distinct on the commits of the run.\<close>

definition short_id :: "json \<Rightarrow> string" where
  "short_id v = (case (json_get v ''replica'', json_get v ''seq'') of
       (Some (JStr n), Some (JInt q)) \<Rightarrow> n @ int_text q
     | _ \<Rightarrow> (case json_get v ''p'' of
           Some (JArr ps) \<Rightarrow> concat (map (\<lambda>p. case p of JStr s \<Rightarrow> s | _ \<Rightarrow> []) ps)
         | _ \<Rightarrow> ''r''))"

definition counter_dt :: "(int, int) sdt" where
  "counter_dt = \<lparr>sd_init = 0, sd_apply = (\<lambda>s p. case p of JInt n \<Rightarrow> Inr (s + n) | _ \<Rightarrow> Inl (TypeError ''op'')),
     sd_merge3 = (\<lambda>l a b. Inr (a + b - l)), sd_read = (\<lambda>s. s), sd_fingerprint = None, sd_records = (\<lambda>_. []),
     sd_text = (\<lambda>_. []), sd_hash = short_id\<rparr>"

definition counter_peer :: "string \<Rightarrow> int peer" where
  "counter_peer n = (case pe_new counter_dt n of Inr q \<Rightarrow> q
     | Inl _ \<Rightarrow> \<lparr>q_name = n, q_dag = dag_empty, q_seq = 0, q_gid = [], q_byGid = [], q_registered = [], q_headId = 0, q_frontier = []\<rparr>)"

text \<open>Two increments by \<open>a\<close>, as the wire delivers them, and an increment by \<open>c\<close> on the first.\<close>

definition run_of_two :: "string option wire_commit list" where
  "run_of_two = [\<lparr>wc_gid = None, wc_parents = [Some ''r''], wc_body = WAuthored (JStr ''a'') 0 (JInt 10)\<rparr>,
     \<lparr>wc_gid = Some ''a1'', wc_parents = [None], wc_body = WAuthored (JStr ''a'') 1 (JInt 1)\<rparr>]"

definition branch_off :: "string option wire_commit list" where
  "branch_off = [\<lparr>wc_gid = Some ''c0'', wc_parents = [Some ''a0''], wc_body = WAuthored (JStr ''c'') 0 (JInt 5)\<rparr>]"

definition two_then_branch :: "nat \<Rightarrow> (string res \<times> int peer)" where
  "two_then_branch k = abind (afold (\<lambda>x _. pe_ingest counter_dt x) (replicate k run_of_two) 0) (\<lambda>_.
     abind (pe_mergeWithGid counter_dt ''a1'') (\<lambda>_.
     abind (pe_ingest counter_dt branch_off) (\<lambda>_. pe_mergeWithGid counter_dt ''c0''))) (counter_peer ''b'')"

lemma elided_commit_is_stored_again:
  "fst (two_then_branch 1) = Inr ''a1c0''" "fst (two_then_branch 2) = Inr ''a1c0''"
  "pe_read counter_dt (snd (two_then_branch 1)) = Inr 16"
  "pe_read counter_dt (snd (two_then_branch 2)) = Inr 26"
  by code_simp+

text \<open>One record whose text is a byte order mark.\<close>

definition mark_state :: "nat list emb" where
  "mark_state = fmap_of_list [(1, \<lparr>er_coord = [0], er_el = [0xFEFF]\<rparr>)]"

lemma mark_table: "buildRunTable [(1, \<lparr>er_coord = [0], er_el = el\<rparr>)] =
   Inr \<lparr>rt_entries = [\<lparr>re_live = True, re_parent = None, re_poff = 0, re_delta = 1, re_members = [Some (1, el)]\<rparr>], rt_att = [[]]\<rparr>" for el :: "nat list"
  by code_simp

lemma entries_single: "fm_entries (fmupd k r fmempty) = [(k, r)]"
  by (simp add: fm_entries_def fm_keys_def sorted_list_of_fset.rep_eq)

lemma mark_entries: "fm_entries mark_state = [(1, \<lparr>er_coord = [0], er_el = [0xFEFF]\<rparr>)]"
  by (simp add: mark_state_def entries_single)

lemma mark_meta: "bw_finish (encode_run (Suc 0) \<lparr>re_live = True, re_parent = None, re_poff = 0, re_delta = Suc 0, re_members = [Some (1, el)]\<rparr> bw_new) = [128]"
  by code_simp

lemma mark_bytes: "text_bytes [0xFEFF] = [0xEF, 0xBB, 0xBF]"
  by (simp add: text_bytes_def replaced_def scalar_def high_surrogate_def low_surrogate_def point_bytes_def)

lemma mark_heads: "read_heads [1, 0, 128, 0xEF, 0xBB, 0xBF] 1 1 16 = ([\<lparr>rh_live = True, rh_parent = -1, rh_delta = 1, rh_len = 1\<rparr>], 20)"
proof -
  have bits: "br_bit [1, 0, 128, 0xEF, 0xBB, 0xBF] 16 = 1" "br_bit [1, 0, 128, 0xEF, 0xBB, 0xBF] 17 = 0"
    "br_bit [1, 0, 128, 0xEF, 0xBB, 0xBF] 18 = 0" "br_bit [1, 0, 128, 0xEF, 0xBB, 0xBF] 19 = 0"
    by (simp_all add: br_bit_def byte_at_def)
  then show ?thesis
    by (simp add: br_uint_def br_elias_def br_ones.simps [of _ 18] br_ones.simps [of _ 19] Let_def)
qed

lemma mark_decode: "decode [1, 0, 128, 0xEF, 0xBB, 0xBF] = Inr (fmupd 1 \<lparr>er_coord = [0], er_el = None\<rparr> fmempty)"
proof -
  have "readVarint [1, 0, 128, 0xEF, 0xBB, 0xBF] 0 0 0 = (1, 1)" by (simp add: readVarint.simps byte_at_def)
  moreover have "ref_width 1 = 1" "dEnc 1 = [0]" by code_simp+
  ultimately show ?thesis using mark_heads
    by (simp add: decode_def byte_at_def live_coords_def br_align_def bytes_text_def)
qed

lemma byte_order_mark_is_lost: "roundTripReads mark_state = Inl (Error ''read mismatch'')"
proof -
  have w: "ref_width (Suc 0) = 1" "writeVarint (Suc 0) = [1]" by code_simp+
  have "rbind (encode (\<lambda>s. s) (fm_entries mark_state)) (\<lambda>e. Inr (ec_bytes e)) = Inr [1, 0, 128, 0xEF, 0xBB, 0xBF]"
    unfolding mark_entries
    by (simp add: encode_def mark_table w [unfolded One_nat_def] mark_meta live_texts_def member_text_def mark_bytes Let_def)
  then obtain e where e: "encode (\<lambda>s. s) (fm_entries mark_state) = Inr e" "ec_bytes e = [1, 0, 128, 0xEF, 0xBB, 0xBF]"
    by (auto simp: rbind_eq_Inr)
  show ?thesis unfolding roundTripReads_def e(1)
    by (simp add: e(2) mark_decode [unfolded One_nat_def] Let_def emb_read_def emb_readEntries_def mark_entries entries_single sort_by_def)
qed

end
