(* ===== verification/CompactPeritext.thy ===== *)
theory CompactPeritext
  imports Peritext Compact Serialize Frontier
begin

text \<open>
  The compaction of rich text (\<^verbatim>\<open>runtime/src/compact-peritext.js\<close>): which records of dead characters may go
  (those whose insertion and deletion are settled and which no mark and no declared operation in flight
  holds on to), which pairs of an added and a removed mark cancel, and the snapshot of version 2, a run
  table with the true ids beside it. A cut is a record of lists, sets of ids in insertion order; boundaries
  of marks are integers, so \<^verbatim>\<open>Number.isInteger\<close> never filters one out.
\<close>

section \<open>Cuts and options\<close>

record ('t, 'v) pcut =
  pc_settledIds :: "int list"
  pc_settledDelIds :: "int list"
  pc_settledMarkMids :: "int list"
  pc_inflightIns :: "(int \<times> int option) list"
  pc_inflightMarks :: "('t, 'v) mark list"

record popts =
  po_pairDrop :: bool
  po_unguardedPairDrop :: bool
  po_noRetention :: bool
  po_text :: opts

definition drops_pairs :: "popts \<Rightarrow> bool" where
  "drops_pairs o1 \<longleftrightarrow> po_pairDrop o1 \<and> \<not> po_noRetention o1"

definition anchorsOf :: "('t, 'v) mark \<Rightarrow> int list" where
  "anchorsOf m = [mk_startId m, mk_endId m]"

section \<open>Pairs of marks that cancel\<close>

definition a3_match :: "('t, 'v) mark \<Rightarrow> ('t, 'v) mark \<Rightarrow> bool" where
  "a3_match m r \<longleftrightarrow> \<not> mk_removed m \<and> mk_mtype m = mk_mtype r \<and> mk_mid m < mk_mid r \<and>
     mk_startId m = mk_startId r \<and> mk_endId m = mk_endId r \<and>
     mk_startSide m = mk_startSide r \<and> mk_endSide m = mk_endSide r"

text \<open>The three guards, in the order of the tests.\<close>

definition a3_guarded ::
  "('t, 'v) mark list \<Rightarrow> int list \<Rightarrow> (int \<times> int option) list \<Rightarrow> ('t, 'v) mark list \<Rightarrow> int list \<Rightarrow>
   ('t, 'v) mark \<Rightarrow> ('t, 'v) mark \<Rightarrow> bool"
where
  "a3_guarded marks ids inflightIns inflightMarks settledMarkMids m r \<longleftrightarrow>
     mk_mid r \<in> set settledMarkMids \<and>
     \<not> list_ex (\<lambda>n. mk_mtype n = mk_mtype r \<and> mk_mid n < mk_mid r \<and> mk_mid n \<noteq> mk_mid m) marks \<and>
     \<not> list_ex (\<lambda>n. mk_mtype n = mk_mtype r \<and> mk_mid n < mk_mid r) inflightMarks \<and>
     \<not> list_ex (\<lambda>i. mk_mid m < i \<and> i < mk_mid r) ids \<and>
     \<not> list_ex (\<lambda>x. mk_mid m < fst x \<and> fst x < mk_mid r) inflightIns"

definition a3Pairs ::
  "('t, 'v) mark list \<Rightarrow> int list \<Rightarrow> (int \<times> int option) list \<Rightarrow> ('t, 'v) mark list \<Rightarrow> int list \<Rightarrow> bool \<Rightarrow>
   (('t, 'v) mark \<times> ('t, 'v) mark) list"
where
  "a3Pairs marks ids inflightIns inflightMarks settledMarkMids unguarded =
     concat (map (\<lambda>r. map (\<lambda>m. (m, r)) (filter (\<lambda>m. a3_match m r \<and>
         (unguarded \<or> a3_guarded marks ids inflightIns inflightMarks settledMarkMids m r)) marks))
       (filter mk_removed marks))"

definition drop_pair ::
  "(int, 'm) fmap \<times> nat \<Rightarrow> ('t, 'v) mark \<times> ('t, 'v) mark \<Rightarrow> (int, 'm) fmap \<times> nat"
where
  "drop_pair t p = (if fmlookup (fst t) (mk_mid (fst p)) \<noteq> None \<and> fmlookup (fst t) (mk_mid (snd p)) \<noteq> None
     then (fmdrop (mk_mid (snd p)) (fmdrop (mk_mid (fst p)) (fst t)), Suc (snd t)) else t)"

definition cancelled_marks ::
  "(int, ('t, 'v) mark) fmap \<Rightarrow> int list \<Rightarrow> ('t, 'v) pcut \<Rightarrow> popts \<Rightarrow> (int, ('t, 'v) mark) fmap \<times> nat"
where
  "cancelled_marks marks ids ct o1 = (if drops_pairs o1
     then foldl drop_pair (marks, 0) (a3Pairs (map snd (fm_entries marks)) ids (pc_inflightIns ct)
       (pc_inflightMarks ct) (pc_settledMarkMids ct) (po_unguardedPairDrop o1))
     else (marks, 0))"

section \<open>The records that stay\<close>

text \<open>Anchors of declared operations in flight, and boundaries of the marks that stay or are in flight.\<close>

definition infl_anchors :: "('t, 'v) pcut \<Rightarrow> int list" where
  "infl_anchors ct = List.map_filter snd (pc_inflightIns ct) @ concat (map anchorsOf (pc_inflightMarks ct))"

definition mark_anchors :: "(int, ('t, 'v) mark) fmap \<Rightarrow> ('t, 'v) pcut \<Rightarrow> popts \<Rightarrow> int list" where
  "mark_anchors marks ct o1 = (if po_noRetention o1 then []
     else concat (map (\<lambda>(_, m). anchorsOf m) (fm_entries marks)) @ concat (map anchorsOf (pc_inflightMarks ct)))"

definition settled_dead :: "int fset \<Rightarrow> ('t, 'v) pcut \<Rightarrow> int \<Rightarrow> bool" where
  "settled_dead dels ct i \<longleftrightarrow> i |\<in>| dels \<and> i \<in> set (pc_settledDelIds ct) \<and> i \<in> set (pc_settledIds ct)"

record 'r keeping =
  kp_shadow :: "(int, 'r) fmap"
  kp_symbolsBefore :: nat
  kp_recordsBefore :: nat
  kp_recordsDropped :: nat
  kp_settledDead :: nat
  kp_retainedForMarks :: nat

text \<open>One turn of the loop over the shadow.\<close>

definition keep_step ::
  "int fset \<Rightarrow> ('t, 'v) pcut \<Rightarrow> int list \<Rightarrow> int list \<Rightarrow> ('r \<Rightarrow> nat) \<Rightarrow> 'r keeping \<Rightarrow> int \<times> 'r \<Rightarrow> 'r keeping"
where
  "keep_step dels ct markAnchors inflAnchor recordCost k x =
     (let k = k\<lparr>kp_recordsBefore := kp_recordsBefore k + 1, kp_symbolsBefore := kp_symbolsBefore k + recordCost (snd x)\<rparr> in
      if settled_dead dels ct (fst x)
      then (let k = k\<lparr>kp_settledDead := kp_settledDead k + 1\<rparr> in
        if fst x \<notin> set markAnchors \<and> fst x \<notin> set inflAnchor then k\<lparr>kp_recordsDropped := kp_recordsDropped k + 1\<rparr>
        else k\<lparr>kp_retainedForMarks := kp_retainedForMarks k + (if fst x \<notin> set inflAnchor then 1 else 0),
          kp_shadow := fmupd (fst x) (snd x) (kp_shadow k)\<rparr>)
      else k\<lparr>kp_shadow := fmupd (fst x) (snd x) (kp_shadow k)\<rparr>)"

definition keep_records ::
  "(int, 'r) fmap \<Rightarrow> int fset \<Rightarrow> ('t, 'v) pcut \<Rightarrow> int list \<Rightarrow> int list \<Rightarrow> ('r \<Rightarrow> nat) \<Rightarrow> 'r keeping"
where
  "keep_records shadow dels ct markAnchors inflAnchor recordCost =
     foldl (keep_step dels ct markAnchors inflAnchor recordCost)
       \<lparr>kp_shadow = fmempty, kp_symbolsBefore = 0, kp_recordsBefore = 0, kp_recordsDropped = 0,
        kp_settledDead = 0, kp_retainedForMarks = 0\<rparr> (fm_entries shadow)"

text \<open>The coordinate of the anchor of a declared insert, empty at the root.\<close>

definition frozen_coord ::
  "('r \<Rightarrow> int \<Rightarrow> (int, 'r) fmap \<Rightarrow> nat list) \<Rightarrow> (int, 'r) fmap \<Rightarrow> int \<times> int option \<Rightarrow> nat list res"
where
  "frozen_coord coordOfRecord keepShadow x = (case snd x of
       None \<Rightarrow> Inr []
     | Some anchorId \<Rightarrow> (case fmlookup keepShadow anchorId of
         None \<Rightarrow> Inl (Error ''declared in-flight insert: anchor has no kept record'')
       | Some a \<Rightarrow> Inr (coordOfRecord a anchorId keepShadow)))"

section \<open>The compaction\<close>

record pstats = stats +
  st_recordsBefore :: nat
  st_recordsAfter :: int
  st_recordsDropped :: nat
  st_settledDead :: nat
  st_retainedForMarks :: nat
  st_markRecords :: nat
  st_markPairsDropped :: nat

definition compactPeritextWith ::
  "((int, 'r) fmap, 't, 'v) peri \<Rightarrow> ('t, 'v) pcut \<Rightarrow> popts \<Rightarrow>
   ((int, 'r) fmap \<Rightarrow> ccut \<Rightarrow> opts \<Rightarrow> ((int, 'r) fmap \<times> 'x \<times> stats) res) \<Rightarrow>
   ('r \<Rightarrow> int \<Rightarrow> (int, 'r) fmap \<Rightarrow> nat list) \<Rightarrow> ('r \<Rightarrow> nat) \<Rightarrow>
   (((int, 'r) fmap, 't, 'v) peri \<times> 'x \<times> pstats) res"
where
  "compactPeritextWith state ct o1 textCompact coordOfRecord recordCost =
     (let (marksOut, markPairsDropped) = cancelled_marks (ps_marks state) (fm_keys (ps_shadow state)) ct o1;
          k = keep_records (ps_shadow state) (ps_deleted state) ct (mark_anchors marksOut ct o1) (infl_anchors ct) recordCost
      in rbind (mapM (frozen_coord coordOfRecord (kp_shadow k)) (pc_inflightIns ct)) (\<lambda>frozenAnchorCoords.
         rbind (textCompact (kp_shadow k) \<lparr>cc_settledIds = pc_settledIds ct, cc_inflight = [],
             cc_frozenAnchorCoords = frozenAnchorCoords\<rparr> (po_text o1)) (\<lambda>(inner, tr, st).
           Inr (\<lparr>ps_shadow = inner, ps_deleted = ffilter (\<lambda>x. fmlookup inner x \<noteq> None) (ps_deleted state), ps_marks = marksOut\<rparr>,
             tr,
             stats.extend (st\<lparr>st_symbolsBefore := kp_symbolsBefore k\<rparr>)
               (pstats.fields (kp_recordsBefore k) (int (kp_recordsBefore k) - int (kp_recordsDropped k))
                 (kp_recordsDropped k) (kp_settledDead k) (kp_retainedForMarks k)
                 (fcard (fmdom marksOut)) markPairsDropped)))))"

definition compactPeritext ::
  "('e emb, 't, 'v) peri \<Rightarrow> ('t, 'v) pcut \<Rightarrow> popts \<Rightarrow> (('e emb, 't, 'v) peri \<times> cnode \<times> pstats) res"
where
  "compactPeritext state ct o1 =
     compactPeritextWith state ct o1 compactEliasDelta (\<lambda>r _ _. er_coord r) (\<lambda>r. length (er_coord r))"

definition remapPeritextState ::
  "('e emb, 't, 'v) peri \<Rightarrow> (nat list \<Rightarrow> nat list res) \<Rightarrow> ('e emb, 't, 'v) peri res"
where
  "remapPeritextState state tr = rbind (remapState (ps_shadow state) tr) (\<lambda>shadow.
     Inr \<lparr>ps_shadow = shadow, ps_deleted = ps_deleted state, ps_marks = ps_marks state\<rparr>)"

text \<open>The cut of a certified meet: what it inserts, deletes and marks, with nothing in flight.\<close>

definition cut_step :: "('i \<Rightarrow> int) \<Rightarrow> ('t, 'v) pcut \<Rightarrow> ('i, 't, 'v) peri_op \<Rightarrow> ('t, 'v) pcut" where
  "cut_step ins_id ct p = (case p of
       PIns x \<Rightarrow> ct\<lparr>pc_settledIds := js_add (ins_id x) (pc_settledIds ct)\<rparr>
     | PDel i \<Rightarrow> ct\<lparr>pc_settledDelIds := js_add i (pc_settledDelIds ct)\<rparr>
     | PAddMark m \<Rightarrow> ct\<lparr>pc_settledMarkMids := js_add (mo_mid m) (pc_settledMarkMids ct)\<rparr>
     | PRemoveMark m \<Rightarrow> ct\<lparr>pc_settledMarkMids := js_add (mo_mid m) (pc_settledMarkMids ct)\<rparr>
     | POther ty \<Rightarrow> ct)"

definition peritextCutFromMeet :: "('i \<Rightarrow> int) \<Rightarrow> ('i, 't, 'v) peri_op payload eventmap \<Rightarrow> ('t, 'v) pcut" where
  "peritextCutFromMeet ins_id meet =
     foldl (\<lambda>ct x. foldl (cut_step ins_id) ct (payload_ops (op_payload (snd x))))
       \<lparr>pc_settledIds = [], pc_settledDelIds = [], pc_settledMarkMids = [], pc_inflightIns = [], pc_inflightMarks = []\<rparr> meet"

section \<open>The snapshot\<close>

text \<open>
  Base64 of bytes, with \<^verbatim>\<open>btoa\<close> and \<^verbatim>\<open>atob\<close> of the platform: groups of three bytes are four digits, a last
  group of one or two is padded. Reading skips white space and takes missing padding.
\<close>

definition b64_digits :: string where
  "b64_digits = ''ABCDEFGHIJKLMNOPQRSTUVWXYZabcdefghijklmnopqrstuvwxyz0123456789+/''"

definition b64_digit :: "nat \<Rightarrow> char" where
  "b64_digit k = b64_digits ! k"

fun b64encode :: "nat list \<Rightarrow> string" where
  "b64encode [] = []"
| "b64encode [a] = [b64_digit (a div 4), b64_digit (a mod 4 * 16), CHR ''='', CHR ''='']"
| "b64encode [a, b] = [b64_digit (a div 4), b64_digit (a mod 4 * 16 + b div 16), b64_digit (b mod 16 * 4), CHR ''='']"
| "b64encode (a # b # c # bs) = [b64_digit (a div 4), b64_digit (a mod 4 * 16 + b div 16),
     b64_digit (b mod 16 * 4 + c div 64), b64_digit (c mod 64)] @ b64encode bs"

definition b64_value :: "char \<Rightarrow> nat option" where
  "b64_value c = map_of (zip b64_digits [0..<64]) c"

fun b64_groups :: "nat list \<Rightarrow> nat list res" where
  "b64_groups [] = Inr []"
| "b64_groups [p] = Inl (Error ''InvalidCharacterError'')"
| "b64_groups [p, q] = Inr [p * 4 + q div 16]"
| "b64_groups [p, q, r] = Inr [p * 4 + q div 16, q mod 16 * 16 + r div 4]"
| "b64_groups (p # q # r # s # ds) =
     rbind (b64_groups ds) (\<lambda>bs. Inr ([p * 4 + q div 16, q mod 16 * 16 + r div 4, r mod 4 * 64 + s] @ bs))"

definition b64_unpad :: "string \<Rightarrow> string" where
  "b64_unpad s = (if length s mod 4 \<noteq> 0 then s
     else case rev s of c # d # t \<Rightarrow> if c = CHR ''='' \<and> d = CHR ''='' then rev t else if c = CHR ''='' then rev (d # t) else s
     | _ \<Rightarrow> s)"

definition b64decode :: "string \<Rightarrow> nat list res" where
  "b64decode str = rbind
     (mapM (\<lambda>c. case b64_value c of Some k \<Rightarrow> Inr k | None \<Rightarrow> Inl (Error ''InvalidCharacterError''))
       (b64_unpad (filter (\<lambda>c. c \<notin> {CHR 0x09, CHR 0x0A, CHR 0x0C, CHR 0x0D, CHR 0x20}) str)))
     b64_groups"

text \<open>Ids as differences in the element order of the run table. The id of a member without a record is \<^verbatim>\<open>null\<close>, a zero.\<close>

definition zig :: "int \<Rightarrow> nat" where
  "zig n = (if n < 0 then nat (- 2 * n - 1) else nat (2 * n))"

definition unzig :: "nat \<Rightarrow> int" where
  "unzig z = (if z mod 2 \<noteq> 0 then - ((int z + 1) div 2) else int z div 2)"

function writeVar :: "nat \<Rightarrow> nat list" where
  "writeVar n = (if n \<ge> 128 then (n mod 128 + 128) # writeVar (n div 128) else [n])"
  by auto
termination by (relation "measure id") auto

declare writeVar.simps [simp del]

definition member_id :: "(int \<times> 'e) option \<Rightarrow> int" where
  "member_id m = (case m of Some (i, _) \<Rightarrow> i | None \<Rightarrow> 0)"

fun id_gaps :: "int \<Rightarrow> int list \<Rightarrow> nat list" where
  "id_gaps prev [] = []"
| "id_gaps prev (i # is) = writeVar (zig (i - prev)) @ id_gaps i is"

definition idSidecar :: "'e emb \<Rightarrow> string res" where
  "idSidecar shadow = rbind (buildRunTable (fm_entries shadow)) (\<lambda>t.
     Inr (b64encode (id_gaps 0 (concat (map (\<lambda>e. map member_id (re_members e)) (filter re_live (rt_entries t)))))))"

text \<open>Reading them back, to the end of the bytes.\<close>

lemma readVarint_progress: "i < snd (readVarint u8 n s i)"
proof (induction u8 n s i rule: readVarint.induct)
  case (1 u8 n s i)
  have "i < snd (readVarint u8 n' (s + 7) (Suc i))" if "byte_at u8 i div 128 mod 2 = 1" "n' = n + byte_at u8 i mod 128 * 2 ^ s" for n'
    using "1.IH" [OF refl that(2) that(1)] by simp
  then show ?case by (subst readVarint.simps) (simp add: Let_def)
qed

function read_ids :: "nat list \<Rightarrow> nat \<Rightarrow> int \<Rightarrow> int list" where
  "read_ids u8 i prev = (if i < length u8
     then (let p = readVarint u8 0 0 i; prev' = prev + unzig (fst p) in prev' # read_ids u8 (snd p) prev') else [])"
  by auto
termination
  by (relation "measure (\<lambda>(u8, i, prev). length u8 - i)") (auto intro!: diff_less_mono2 readVarint_progress)

declare read_ids.simps [simp del]

text \<open>
  The records in order, under the ids in order. With more records than ids the ids beyond the last are
  undefined, and the counts differ at the end.
\<close>

definition rekeyShadow :: "'r emb \<Rightarrow> string \<Rightarrow> 'r emb res" where
  "rekeyShadow decoded sidecarB64 = rbind (b64decode sidecarB64) (\<lambda>u8.
     let ids = read_ids u8 0 0; es = fm_entries decoded in
     if length es \<noteq> length ids then Inl (Error ''id sidecar mismatch'')
     else Inr (foldl (\<lambda>out (i, r). fmupd i r out) fmempty (zip ids (map snd es))))"

section \<open>The compactible datatype\<close>

record ('t, 'v) snapshot =
  sn_rt :: string
  sn_ids :: string
  sn_deleted :: "int list"
  sn_marks :: "('t, 'v) mark list"

text \<open>A snapshot of version 2, or of the plain version of the datatype.\<close>

datatype ('e, 't, 'v) saved = V1 "(int \<times> nat list \<times> 'e) list \<times> int list \<times> ('t, 'v) mark list" | V2 "('t, 'v) snapshot"

definition cp_encodeState ::
  "('e \<Rightarrow> nat list) \<Rightarrow> ('e emb, 't, 'v) peri \<Rightarrow> ('x, 't, 'v) saved res"
where
  "cp_encodeState str state = rbind (encode str (fm_entries (ps_shadow state))) (\<lambda>e.
     rbind (idSidecar (ps_shadow state)) (\<lambda>ids.
       Inr (V2 \<lparr>sn_rt = b64encode (ec_bytes e), sn_ids = ids, sn_deleted = sorted_list_of_fset (ps_deleted state),
         sn_marks = map snd (fm_entries (ps_marks state))\<rparr>)))"

definition cp_decodeState ::
  "(nat list option, 't, 'v) saved \<Rightarrow> (nat list option emb, 't, 'v) peri res"
where
  "cp_decodeState enc = (case enc of
       V1 x \<Rightarrow> Inr (peri_decodeState emb_decode_shadow x)
     | V2 s \<Rightarrow> rbind (b64decode (sn_rt s)) (\<lambda>u8. rbind (decode u8) (\<lambda>d. rbind (rekeyShadow d (sn_ids s)) (\<lambda>shadow.
         Inr \<lparr>ps_shadow = shadow, ps_deleted = foldl (\<lambda>g i. finsert i g) {||} (sn_deleted s),
           ps_marks = foldl (\<lambda>m k. fmupd (mk_mid k) k m) fmempty (sn_marks s)\<rparr>))))"

definition cp_coordState :: "('e emb, 't, 'v) peri \<Rightarrow> 'e emb" where
  "cp_coordState s = ps_shadow s"

definition cp_symbolCount :: "('e emb, 't, 'v) peri \<Rightarrow> nat" where
  "cp_symbolCount state = symbolCount (ps_shadow state)"

end
