(* ===== verification/SerializeBits.thy ===== *)
theory SerializeBits
  imports Serialize CompactSound
begin

text \<open>
  The bit reader reads what the bit writer wrote. A byte string is read as the list of its bits, most
  significant first; the writer's state is a list of whole bytes and the bits still pending.
\<close>

section \<open>Bytes as bits\<close>

fun wbits :: "nat \<Rightarrow> nat \<Rightarrow> nat list" where
  "wbits 0 v = []"
| "wbits (Suc n) v = v div 2 ^ n mod 2 # wbits n v"

definition all_bits :: "nat list \<Rightarrow> nat list" where
  "all_bits u8 = concat (map (wbits 8) u8)"

lemma length_wbits [simp]: "length (wbits n v) = n"
  by (induction n) simp_all

lemma set_wbits: "set (wbits n v) \<subseteq> {0, 1}"
  by (induction n) auto

lemma all_bits_simps [simp]:
  "all_bits [] = []" "all_bits (b # bs) = wbits 8 b @ all_bits bs" "all_bits (bs @ cs) = all_bits bs @ all_bits cs"
  by (simp_all add: all_bits_def)

lemma length_all_bits [simp]: "length (all_bits u8) = 8 * length u8"
  by (induction u8) auto

lemma nth_wbits: "i < n \<Longrightarrow> wbits n v ! i = v div 2 ^ (n - 1 - i) mod 2"
proof (induction n arbitrary: i)
  case (Suc n)
  then show ?case by (cases i) auto
qed simp

lemma br_bit_Cons: "br_bit (b # u8) pos = (if pos < 8 then b div 2 ^ (7 - pos) mod 2 else br_bit u8 (pos - 8))"
proof (cases "pos < 8")
  case False
  then obtain q where q: "pos = q + 8" by (metis add.commute le_add_diff_inverse not_less)
  show ?thesis by (simp add: q br_bit_def byte_at_def)
qed (simp add: br_bit_def byte_at_def)

lemma nth_all_bits: "pos < 8 * length u8 \<Longrightarrow> all_bits u8 ! pos = br_bit u8 pos"
proof (induction u8 arbitrary: pos)
  case (Cons b u8)
  show ?case
  proof (cases "pos < 8")
    case True
    then show ?thesis using nth_wbits [of pos 8 b] by (simp add: nth_append br_bit_Cons)
  next
    case False
    then show ?thesis using Cons.prems Cons.IH [of "pos - 8"] by (simp add: nth_append br_bit_Cons)
  qed
qed simp

lemma drop_bits: "drop pos (all_bits u8) = b # rest \<Longrightarrow> br_bit u8 pos = b \<and> drop (Suc pos) (all_bits u8) = rest"
proof -
  assume a: "drop pos (all_bits u8) = b # rest"
  then have l: "pos < 8 * length u8" by (metis drop_eq_Nil length_all_bits list.distinct(1) not_less)
  with a nth_all_bits [OF l] show ?thesis by (metis Cons_nth_drop_Suc length_all_bits list.inject)
qed

lemma wbits_shift: "wbits n (k * 2 ^ n + v) = wbits n v"
proof (induction n arbitrary: k)
  case (Suc n)
  have "(k * 2 ^ Suc n + v) div 2 ^ n = v div 2 ^ n + k * 2" by (simp add: mult.assoc [symmetric] mult.commute)
  moreover have "wbits n (k * 2 ^ Suc n + v) = wbits n v" using Suc [of "2 * k"] by (simp add: mult_ac)
  ultimately show ?case by simp
qed simp

lemma wbits_bval2: "set xs \<subseteq> {0, 1} \<Longrightarrow> wbits (length xs) (bval2 xs) = xs"
proof (induction xs)
  case (Cons x xs)
  then have "bval2 xs < 2 ^ length xs" "x < 2" using bval2_bound [of xs] by auto
  with Cons show ?case by (simp add: bval2_split wbits_shift)
qed simp

lemma bval2_wbits: "bval2 (wbits n v) = v mod 2 ^ n"
proof (induction n)
  case (Suc n)
  have "v mod 2 ^ Suc n = v div 2 ^ n mod 2 * 2 ^ n + v mod 2 ^ n"
    by (metis add.commute mod_mult2_eq mult.commute power_Suc)
  with Suc show ?case by (simp add: bval2_split)
qed (simp add: bval2_def)

section \<open>The writer\<close>

definition written :: "bitWriter \<Rightarrow> nat list \<Rightarrow> bool" where
  "written w bs \<longleftrightarrow> (\<exists>cs. bs = all_bits (bw_bytes w) @ cs \<and> length cs = bw_nbits w \<and> bw_nbits w < 8 \<and>
     bw_cur w = bval2 cs \<and> set cs \<subseteq> {0, 1} \<and> bw_total w = length bs)"

lemma written_new: "written bw_new []"
  by (simp add: written_def bw_new_def bval2_def)

lemma written_bit:
  assumes "written w bs"
  shows "written (bw_bit b w) (bs @ [b mod 2])"
proof -
  obtain cs where cs: "bs = all_bits (bw_bytes w) @ cs" "length cs = bw_nbits w" "bw_nbits w < 8"
    "bw_cur w = bval2 cs" "set cs \<subseteq> {0, 1}" "bw_total w = length bs" using assms unfolding written_def by blast
  have v: "2 * bw_cur w + b mod 2 = bval2 (cs @ [b mod 2])" using bval2_append [of cs "b mod 2"] cs(4) by simp
  have s: "set (cs @ [b mod 2]) \<subseteq> {0, 1}" using cs(5) by auto
  show ?thesis
  proof (cases "bw_nbits w + 1 = 8")
    case True
    then have "wbits 8 (bval2 (cs @ [b mod 2])) = cs @ [b mod 2]" using wbits_bval2 [OF s] cs(2) by simp
    with True show ?thesis using cs v unfolding written_def bw_bit_def Let_def by (simp add: bval2_def)
  next
    case False
    then show ?thesis using cs v s unfolding written_def bw_bit_def Let_def by (auto intro!: exI [of _ "cs @ [b mod 2]"])
  qed
qed

lemma written_code: "written w bs \<Longrightarrow> set cs \<subseteq> {0, 1} \<Longrightarrow> written (bw_code cs w) (bs @ cs)"
proof (induction cs arbitrary: w bs)
  case (Cons c cs)
  then have "written (bw_bit c w) (bs @ [c])" using written_bit [of w bs c] by auto
  from Cons.IH [OF this] Cons.prems show ?case by (simp add: bw_code_def)
qed (simp add: bw_code_def)

lemma word_bit: "v < 2 ^ 32 \<Longrightarrow> i < 32 \<Longrightarrow> unat (and (drop_bit (i mod 32) (word_of_nat v :: 32 word)) 1) = v div 2 ^ i mod 2"
proof -
  assume v: "v < 2 ^ 32" and i: "i < 32"
  have "unat (word_of_nat v :: 32 word) = v" using v by (simp add: unat_of_nat)
  then have "unat (drop_bit i (word_of_nat v :: 32 word)) = v div 2 ^ i"
    using unat_drop_bit_eq [of i "word_of_nat v :: 32 word"] by (simp only: drop_bit_eq_div [where 'a = nat])
  moreover have "unat (and x 1) = unat x mod 2" for x :: "32 word"
    by (simp only: and_one_eq unat_mod) simp
  moreover have "i mod 32 = i" using i by simp
  ultimately show ?thesis by (simp only:)
qed

lemma written_uint: "written w bs \<Longrightarrow> v < 2 ^ 32 \<Longrightarrow> n \<le> 32 \<Longrightarrow> written (bw_uint v n w) (bs @ wbits n v)"
proof (induction n arbitrary: w bs)
  case (Suc n)
  have "written (bw_bit (v div 2 ^ n mod 2) w) (bs @ [v div 2 ^ n mod 2])"
    using written_bit [OF Suc.prems(1), of "v div 2 ^ n mod 2"] by simp
  from Suc.IH [OF this] Suc.prems show ?case using word_bit [of v n] by simp
qed simp

lemma finished:
  assumes "written w bs"
  obtains pad where "all_bits (bw_finish w) = bs @ pad" and "length pad < 8" and "bw_total w = length bs"
proof -
  obtain cs where cs: "bs = all_bits (bw_bytes w) @ cs" "length cs = bw_nbits w" "bw_nbits w < 8"
    "bw_cur w = bval2 cs" "set cs \<subseteq> {0, 1}" "bw_total w = length bs" using assms unfolding written_def by blast
  show ?thesis
  proof (cases "bw_nbits w = 0")
    case True
    then show ?thesis using cs that [of "[]"] by (simp add: bw_finish_def)
  next
    case False
    let ?p = "replicate (8 - bw_nbits w) (0 :: nat)"
    have z: "bval2 (xs @ replicate k 0) = bval2 xs * 2 ^ k" for xs k
    proof (induction k)
      case (Suc k)
      have "xs @ replicate (Suc k) 0 = (xs @ replicate k 0) @ [0]" by (simp add: replicate_append_same)
      then show ?case using bval2_append [of "xs @ replicate k 0" 0] Suc by simp
    qed simp
    have "wbits 8 (bval2 (cs @ ?p)) = cs @ ?p" using wbits_bval2 [of "cs @ ?p"] cs by auto
    with False show ?thesis using cs that [of ?p] by (simp add: bw_finish_def z)
  qed
qed

section \<open>The reader\<close>

lemma word_step: "x \<le> 1 \<Longrightarrow> or (push_bit 1 v) (word_of_nat x) = 2 * v + (word_of_nat x :: 'w::len word)"
proof -
  assume "x \<le> 1"
  then have "x = 0 \<or> x = 1" by auto
  then show ?thesis by (auto simp: or_one_eq)
qed

lemma br_bit_le: "br_bit u8 pos \<le> 1"
  by (simp add: br_bit_def)

lemma br_uint_loop: "drop pos (all_bits u8) = xs @ rest \<Longrightarrow>
   br_uint_loop u8 (length xs) v pos = v * 2 ^ length xs + word_of_nat (bval2 xs)"
proof (induction xs arbitrary: v pos)
  case (Cons x xs)
  then have b: "br_bit u8 pos = x" "drop (Suc pos) (all_bits u8) = xs @ rest" using drop_bits by auto
  have "or (push_bit 1 v) (word_of_nat x) = 2 * v + word_of_nat x" using br_bit_le [of u8 pos] b(1) by (simp only: word_step)
  then have "br_uint_loop u8 (length (x # xs)) v pos = br_uint_loop u8 (length xs) (2 * v + word_of_nat x) (Suc pos)"
    by (simp only: list.size add_Suc_right add_0_right br_uint_loop.simps b(1))
  then show ?case using Cons.IH [OF b(2)] by (simp add: bval2_split algebra_simps)
qed (simp add: bval2_def)

lemma br_uint_read: "drop pos (all_bits u8) = wbits w v @ rest \<Longrightarrow> v < 2 ^ w \<Longrightarrow> w \<le> 32 \<Longrightarrow> br_uint u8 w pos = v"
proof -
  assume a: "drop pos (all_bits u8) = wbits w v @ rest" and v: "v < 2 ^ w" and w: "w \<le> 32"
  have "(2 :: nat) ^ w \<le> 2 ^ 32" using w by (intro power_increasing) auto
  then have "v < 2 ^ 32" using v by linarith
  then show ?thesis using br_uint_loop [of pos u8 "wbits w v" rest 0] a v
    by (simp add: br_uint_def bval2_wbits unat_of_nat)
qed

lemma br_ones_read: "drop pos (all_bits u8) = replicate c 1 @ 0 # rest \<Longrightarrow> br_ones u8 pos = c"
proof (induction c arbitrary: pos)
  case 0
  then show ?case using drop_bits [of pos u8 0 rest] by (simp add: br_ones.simps [of u8 pos])
next
  case (Suc c)
  then have b: "br_bit u8 pos = 1" "drop (Suc pos) (all_bits u8) = replicate c 1 @ 0 # rest"
    using drop_bits [of pos u8 1 "replicate c 1 @ 0 # rest"] by simp_all
  show ?case using Suc.IH [OF b(2)] b(1) by (subst br_ones.simps) simp
qed

lemma br_more_read: "drop pos (all_bits u8) = xs @ rest \<Longrightarrow> br_more u8 (length xs) v pos = foldl (\<lambda>a x. 2 * a + x) v xs"
proof (induction xs arbitrary: v pos)
  case (Cons x xs)
  then show ?case using drop_bits [of pos u8 x "xs @ rest"] by simp
qed simp

lemma br_elias_read:
  assumes "1 \<le> d" and "drop pos (all_bits u8) = dEnc d @ rest"
  shows "br_elias u8 pos = (d, pos + length (dEnc d))"
proof -
  obtain xs where xs: "bin d = 1 # xs" "foldl (\<lambda>a x. 2 * a + x) 1 xs = d" using bin_shape [OF assms(1)] by blast
  obtain ys where ys: "bin (length (bin d)) = 1 # ys" "foldl (\<lambda>a x. 2 * a + x) 1 ys = length (bin d)"
    using bin_shape [of "length (bin d)"] xs(1) by auto
  have e: "dEnc d = replicate (length ys) 1 @ 0 # ys @ xs" using xs(1) ys(1) by (simp add: dEnc_def binEnc_def Let_def)
  note b = assms(2) [unfolded e]
  then have b': "drop pos (all_bits u8) = replicate (length ys) 1 @ 0 # ys @ xs @ rest" by simp
  have d1: "drop (pos + length ys + 1) (all_bits u8) = ys @ xs @ rest" "drop (pos + length ys + 1 + length ys) (all_bits u8) = xs @ rest"
    using arg_cong [OF b, of "drop (length ys + 1)"] arg_cong [OF b, of "drop (length ys + 1 + length ys)"]
    by (simp_all add: add_ac)
  have l: "length ys + 1 \<le> length (dEnc d)" by (simp add: e)
  show ?thesis unfolding br_elias_def br_ones_read [of pos u8 "length ys" "ys @ xs @ rest", OF b']
    using br_more_read [OF d1(1), of 1] br_more_read [OF d1(2), of 1] xs ys(2) by (simp add: e Let_def)
qed

lemma br_align_read:
  assumes "p < 8" and "m + p = 8 * n"
  shows "br_align m div 8 = n"
proof -
  have "br_align m = 8 * n" unfolding br_align_def using assms by (cases "m mod 8 = 0"; simp; presburger)
  then show ?thesis by simp
qed

end
