(* ===== verification/SerializeTree.thy ===== *)
theory SerializeTree
  imports SerializeBits "HOL-Library.Multiset"
begin

text \<open>
  The kept tree of a coded state holds its records under their chains, and the run table is a partition of
  the tree: the members of the live entries, under the paths their headers give, are the records.
\<close>

section \<open>The records of a tree\<close>

fun k_ok :: "'e knode \<Rightarrow> bool" where
  "k_ok (KNode v ks) \<longleftrightarrow> distinct (map fst ks) \<and> (\<forall>(d, k) \<in> set ks. 1 \<le> d \<and> k_ok k)"

fun k_at :: "'e knode \<Rightarrow> nat list \<Rightarrow> (int \<times> 'e) option" where
  "k_at (KNode v ks) [] = v"
| "k_at (KNode v ks) (d # p) = (case map_of ks d of None \<Rightarrow> None | Some k \<Rightarrow> k_at k p)"

definition here :: "nat list \<Rightarrow> (int \<times> 'e) option \<Rightarrow> (nat list \<times> int \<times> 'e) multiset" where
  "here p v = (case v of None \<Rightarrow> {#} | Some x \<Rightarrow> {#(p, x)#})"

fun k_items :: "nat list \<Rightarrow> 'e knode \<Rightarrow> (nat list \<times> int \<times> 'e) multiset" where
  "k_items p (KNode v ks) = here p v + sum_list (map (\<lambda>(d, k). k_items (p @ [d]) k) ks)"

definition kids_items :: "nat list \<Rightarrow> (nat \<times> 'e knode) list \<Rightarrow> (nat list \<times> int \<times> 'e) multiset" where
  "kids_items p ks = sum_list (map (\<lambda>(d, k). k_items (p @ [d]) k) ks)"

lemma k_items_kids: "k_items p t = here p (k_rec t) + kids_items p (k_kids t)"
  by (cases t) (simp add: kids_items_def)

lemma k_ok_put: "k_ok t \<Longrightarrow> positive ds \<Longrightarrow> k_ok (k_put ds x t)"
proof (induction ds arbitrary: t)
  case Nil
  then show ?case by (cases t) simp
next
  case (Cons d ds)
  obtain v ks where t: "t = KNode v ks" by (cases t)
  define ch where "ch = (case map_of ks d of Some ch \<Rightarrow> ch | None \<Rightarrow> KNode None [])"
  have "k_ok ch" using Cons.prems(1) t by (auto simp: ch_def split: option.split dest: map_of_SomeD)
  then have w: "k_ok (k_put ds x ch)" using Cons by simp
  have "1 \<le> e \<and> k_ok y" if "(e, y) \<in> set (AList.update d (k_put ds x ch) ks)" for e y
  proof -
    have "map_of (AList.update d (k_put ds x ch) ks) e = Some y" using that Cons.prems(1) t by (simp add: distinct_update)
    then show ?thesis using w Cons.prems t by (auto simp: update_conv' split: if_splits dest: map_of_SomeD)
  qed
  then show ?case using Cons.prems(1) t by (auto simp: ch_def [symmetric] distinct_update)
qed

lemma k_at_put: "k_at (k_put ds x t) p = (if p = ds then Some x else k_at t p)"
proof (induction ds arbitrary: t p)
  case Nil
  then show ?case by (cases t; cases p) auto
next
  case (Cons d ds)
  obtain v ks where t: "t = KNode v ks" by (cases t)
  have new: "k_at (KNode None []) q = None" for q :: "nat list" by (cases q) simp_all
  show ?case by (cases p) (auto simp: t update_conv' Cons.IH new split: option.split)
qed

lemma sum_update:
  "distinct (map fst ks) \<Longrightarrow> map_of ks d = Some c \<Longrightarrow>
   sum_list (map f (AList.update d c' ks)) + f (d, c) = sum_list (map f ks) + (f (d, c') :: 'b multiset)"
proof (induction ks)
  case (Cons a ks)
  then show ?case
  proof (cases "fst a = d")
    case True
    then show ?thesis using Cons.prems by (cases a) (simp add: ac_simps)
  next
    case False
    then show ?thesis using Cons by (cases a) (simp add: ac_simps)
  qed
qed simp

lemma k_items_put: "k_ok t \<Longrightarrow> k_at t ds = None \<Longrightarrow> k_items p (k_put ds x t) = add_mset (p @ ds, x) (k_items p t)"
proof (induction ds arbitrary: t p)
  case Nil
  then show ?case by (cases t) (simp add: here_def)
next
  case (Cons d ds)
  obtain v ks where t: "t = KNode v ks" by (cases t)
  let ?f = "\<lambda>(d, k). k_items (p @ [d]) k"
  show ?case
  proof (cases "map_of ks d")
    case None
    have "k_items (p @ [d]) (k_put ds x (KNode None [])) = add_mset (p @ d # ds, x) {#}"
      using Cons.IH [of "KNode None []" "p @ [d]"] by (cases ds) (simp_all add: here_def)
    moreover have "d \<notin> fst ` set ks" using None by (simp add: map_of_eq_None_iff)
    ultimately show ?thesis by (simp add: t None update_new)
  next
    case (Some c)
    then have c: "k_ok c" "k_at c ds = None" using Cons.prems t by (auto dest: map_of_SomeD)
    have d: "distinct (map fst ks)" using Cons.prems(1) t by simp
    have "sum_list (map ?f (AList.update d (k_put ds x c) ks)) + ?f (d, c) = sum_list (map ?f ks) + ?f (d, k_put ds x c)"
      by (rule sum_update [OF d Some])
    moreover have "?f (d, k_put ds x c) = add_mset (p @ d # ds, x) (?f (d, c))" using Cons.IH [OF c, of "p @ [d]"] by simp
    ultimately show ?thesis using Some by (simp add: t)
  qed
qed

text \<open>A list of records whose coordinates are the codes of the chains \<open>ch\<close>.\<close>

definition chained :: "(int \<times> 'e erec) list \<Rightarrow> nat list list \<Rightarrow> bool" where
  "chained es chs \<longleftrightarrow> list_all2 (\<lambda>(i, r) ds. positive ds \<and> ds \<noteq> [] \<and> er_coord r = concat (map dEnc ds)) es chs \<and> distinct chs"

definition chain_item :: "(int \<times> 'e erec) \<times> nat list \<Rightarrow> nat list \<times> int \<times> 'e" where
  "chain_item x = (snd x, fst (fst x), er_el (snd (fst x)))"

lemma chain_item_pair [simp]: "chain_item ((i, r), ds) = (ds, i, er_el r)"
  by (simp add: chain_item_def)

lemma coordTree_fold:
  assumes "list_all2 (\<lambda>(i, r) ds. positive ds \<and> ds \<noteq> [] \<and> er_coord r = concat (map dEnc ds)) es chs"
    and "distinct chs" and "k_ok t" and "\<And>ds. ds \<in> set chs \<Longrightarrow> k_at t ds = None" and "k_at t [] = None"
  shows "\<exists>t'. foldM (\<lambda>(id1, r) root. rbind (decodeChain (er_coord r)) (\<lambda>ds. Inr (k_put ds (id1, er_el r) root))) es t = Inr t' \<and>
     k_ok t' \<and> k_at t' [] = None \<and> k_items [] t' = mset (map chain_item (zip es chs)) + k_items [] t"
  using assms
proof (induction es chs arbitrary: t rule: list_all2_induct)
  case (Cons y es ds chs)
  obtain i r where y: "y = (i, r)" by (cases y)
  let ?t = "k_put ds (i, er_el r) t"
  have ds: "positive ds" "ds \<noteq> []" "er_coord r = concat (map dEnc ds)" using Cons.hyps(1) y by auto
  have "k_ok ?t" by (rule k_ok_put [OF Cons.prems(2) ds(1)])
  moreover have "k_at ?t es = None" if "es \<in> set chs" for es using that Cons.prems(1,3) by (auto simp: k_at_put)
  moreover have "k_at ?t [] = None" using ds(2) Cons.prems(4) by (simp add: k_at_put)
  ultimately obtain t' where "foldM (\<lambda>(id1, r) root. rbind (decodeChain (er_coord r)) (\<lambda>ds. Inr (k_put ds (id1, er_el r) root))) es ?t = Inr t'"
    "k_ok t'" "k_at t' [] = None" "k_items [] t' = mset (map chain_item (zip es chs)) + k_items [] ?t"
    using Cons.IH [of ?t] Cons.prems(1) by auto
  moreover have "k_items [] ?t = add_mset (ds, i, er_el r) (k_items [] t)"
    using k_items_put [OF Cons.prems(2), of ds "[]"] Cons.prems(3) [of ds] by simp
  ultimately show ?case using ds(3) decodeChain_cat [OF ds(1)] y by auto
qed simp

lemma coordTree_chained:
  assumes "chained es chs"
  obtains t where "coordTree es = Inr t" "k_ok t" "k_rec t = None" "k_items [] t = mset (map chain_item (zip es chs))"
proof -
  have new: "k_at (KNode None [] :: 'a knode) p = None" for p by (cases p) simp_all
  have "k_at t [] = k_rec t" for t :: "'a knode" by (cases t) simp
  then show ?thesis
    using coordTree_fold [of es chs "KNode None []"] assms that new unfolding chained_def coordTree_def by (auto simp: here_def)
qed

section \<open>Chains\<close>

fun chain_items :: "nat list \<Rightarrow> (int \<times> 'e) option list \<Rightarrow> (nat list \<times> int \<times> 'e) multiset" where
  "chain_items p [] = {#}"
| "chain_items p (m # ms) = here p m + chain_items (p @ [1]) ms"

definition run_tail :: "nat list \<Rightarrow> 'a list \<Rightarrow> nat list" where
  "run_tail p ms = p @ replicate (length ms - 1) 1"

definition kids_ok :: "(nat \<times> 'e knode) list \<Rightarrow> bool" where
  "kids_ok ks \<longleftrightarrow> distinct (map fst ks) \<and> (\<forall>(d, k) \<in> set ks. 1 \<le> d \<and> k_ok k)"

lemma k_ok_kids: "k_ok t \<longleftrightarrow> kids_ok (k_kids t)"
  by (cases t) (simp add: kids_ok_def)

lemma fuse_chain_nonempty: "fst (fuse_chain t) \<noteq> []"
  by (induction t rule: fuse_chain.induct) (auto split: prod.splits)

lemma fuse_chain_items: "k_items p t = chain_items p (fst (fuse_chain t)) + kids_items (run_tail p (fst (fuse_chain t))) (snd (fuse_chain t))"
proof (induction t arbitrary: p rule: fuse_chain.induct)
  case (1 v d k)
  show ?case
  proof (cases "d = 1 \<and> (k_rec k \<noteq> None) = (v \<noteq> None)")
    case True
    obtain ms ks where f: "fuse_chain k = (ms, ks)" by fastforce
    have "ms \<noteq> []" using fuse_chain_nonempty [of k] f by simp
    then have "run_tail (p @ [1]) ms = run_tail p (v # ms)" by (cases ms) (simp_all add: run_tail_def)
    then show ?thesis using True 1 [OF True, of "p @ [1]"] f by (simp add: ac_simps)
  next
    case False
    then have "fuse_chain (KNode v [(d, k)]) = ([v], [(d, k)])" by auto
    then show ?thesis by (simp add: run_tail_def kids_items_def)
  qed
qed (simp_all add: run_tail_def kids_items_def)

lemma fuse_chain_live: "\<forall>m \<in> set (fst (fuse_chain t)). (m \<noteq> None) = (k_rec t \<noteq> None)"
proof (induction t rule: fuse_chain.induct)
  case (1 v d k)
  show ?case
  proof (cases "d = 1 \<and> (k_rec k \<noteq> None) = (v \<noteq> None)")
    case True
    with 1 [OF True] show ?thesis by (cases "fuse_chain k") simp
  next
    case False
    then have "fuse_chain (KNode v [(d, k)]) = ([v], [(d, k)])" by auto
    then show ?thesis by simp
  qed
qed simp_all

lemma fuse_chain_ok: "k_ok t \<Longrightarrow> kids_ok (snd (fuse_chain t))"
  by (induction t rule: fuse_chain.induct) (auto simp: kids_ok_def split: prod.splits)

section \<open>The table\<close>

text \<open>The paths of the heads of the entries, given the paths of the tails of the entries before.\<close>

definition head_path :: "nat list list \<Rightarrow> nat option \<Rightarrow> nat \<Rightarrow> nat list" where
  "head_path T parent d = (case parent of None \<Rightarrow> [] | Some p \<Rightarrow> T ! p) @ [d]"

fun run_heads :: "nat list list \<Rightarrow> 'e run list \<Rightarrow> nat list list" where
  "run_heads T [] = []"
| "run_heads T (e # es) = (let h = head_path T (re_parent e) (re_delta e) in
     h # run_heads (T @ [run_tail h (re_members e)]) es)"

fun run_tails :: "nat list list \<Rightarrow> 'e run list \<Rightarrow> nat list list" where
  "run_tails T [] = T"
| "run_tails T (e # es) = run_tails (T @ [run_tail (head_path T (re_parent e) (re_delta e)) (re_members e)]) es"

lemma length_run_tails [simp]: "length (run_tails T es) = length T + length es"
  by (induction es arbitrary: T) auto

lemma length_run_heads [simp]: "length (run_heads T es) = length es"
  by (induction es arbitrary: T) (auto simp: Let_def)

lemma run_heads_snoc: "run_heads T (es @ [e]) = run_heads T es @ [head_path (run_tails T es) (re_parent e) (re_delta e)]"
  by (induction es arbitrary: T) (auto simp: Let_def)

lemma run_tails_snoc: "run_tails T (es @ [e]) =
   run_tails T es @ [run_tail (head_path (run_tails T es) (re_parent e) (re_delta e)) (re_members e)]"
  by (induction es arbitrary: T) auto

lemma run_tails_nth: "i < length T \<Longrightarrow> run_tails T es ! i = T ! i"
  by (induction es arbitrary: T) (auto simp: nth_append)

definition entries_items :: "'e run list \<Rightarrow> (nat list \<times> int \<times> 'e) multiset" where
  "entries_items es = sum_list (map2 (\<lambda>h e. chain_items h (re_members e)) (run_heads [] es) es)"

definition entry_ok :: "'e run list \<Rightarrow> nat \<Rightarrow> 'e run \<Rightarrow> bool" where
  "entry_ok es i e \<longleftrightarrow> re_members e \<noteq> [] \<and> 1 \<le> re_delta e \<and> (\<forall>m \<in> set (re_members e). (m \<noteq> None) = re_live e) \<and>
     (case re_parent e of None \<Rightarrow> re_poff e = 0 | Some p \<Rightarrow> p < i \<and> re_poff e = length (re_members (es ! p)) - 1)"

definition entries_ok :: "'e run list \<Rightarrow> bool" where
  "entries_ok es \<longleftrightarrow> (\<forall>i < length es. entry_ok es i (es ! i))"

definition place_ok :: "'e run list \<Rightarrow> nat option \<times> nat \<Rightarrow> bool" where
  "place_ok es q \<longleftrightarrow> (case fst q of None \<Rightarrow> snd q = 0 | Some p \<Rightarrow> p < length es \<and> snd q = length (re_members (es ! p)) - 1)"

definition stack_ok :: "'e run list \<Rightarrow> 'e pending list \<Rightarrow> bool" where
  "stack_ok es stack \<longleftrightarrow> (\<forall>((d, k), q) \<in> set stack. 1 \<le> d \<and> k_ok k \<and> place_ok es q)"

definition stack_items :: "nat list list \<Rightarrow> 'e pending list \<Rightarrow> (nat list \<times> int \<times> 'e) multiset" where
  "stack_items T stack = sum_list (map (\<lambda>((d, k), p, _). k_items (head_path T p d) k) stack)"

lemma entries_ok_snoc: "entries_ok es \<Longrightarrow> entry_ok es (length es) e \<Longrightarrow> entries_ok (es @ [e])"
  unfolding entries_ok_def entry_ok_def by (auto simp: nth_append less_Suc_eq split: option.splits)

lemma place_ok_snoc: "place_ok es q \<Longrightarrow> place_ok (es @ [e]) q"
  by (auto simp: place_ok_def nth_append split: option.splits)

lemma stack_items_push:
  "stack_items T (rev (map (\<lambda>k. (k, Some i, j)) ks) @ stack) = kids_items (T ! i) ks + stack_items T stack"
  by (induction ks) (auto simp: stack_items_def kids_items_def head_path_def ac_simps)

lemma stack_items_grow:
  assumes "stack_ok es stack" and "length T = length es"
  shows "stack_items (T @ U) stack = stack_items T stack"
proof -
  have "head_path (T @ U) p d = head_path T p d" if "((d, k), p, j) \<in> set stack" for d k p j
    using that assms by (fastforce simp: stack_ok_def place_ok_def head_path_def nth_append split: option.splits)
  then show ?thesis unfolding stack_items_def by (intro arg_cong [of _ _ sum_list] map_cong) auto
qed

definition new_run :: "nat \<Rightarrow> 'e knode \<Rightarrow> nat option \<Rightarrow> nat \<Rightarrow> 'e run" where
  "new_run d node parent poff = \<lparr>re_live = k_rec node \<noteq> None, re_parent = parent, re_poff = poff, re_delta = d,
     re_members = fst (fuse_chain node)\<rparr>"

lemma run_loop_step: "run_loop (((d, node), parent, poff) # stack) entries att =
   run_loop (rev (map (\<lambda>k. (k, Some (length entries), length (fst (fuse_chain node)) - 1)) (snd (fuse_chain node))) @ stack)
     (entries @ [new_run d node parent poff]) (attach_to parent (length entries) (att @ [[]]))"
  by (simp add: new_run_def Let_def)

declare run_loop.simps(2) [simp del]

lemma new_run_ok:
  assumes "stack_ok es (((d, node), q) # stack)" and "entries_ok es"
  shows "entries_ok (es @ [new_run d node (fst q) (snd q)])"
    and "stack_ok (es @ [new_run d node (fst q) (snd q)])
      (rev (map (\<lambda>k. (k, Some (length es), length (fst (fuse_chain node)) - 1)) (snd (fuse_chain node))) @ stack)"
proof -
  have n: "1 \<le> d" "k_ok node" "place_ok es q" "stack_ok es stack" using assms(1) by (auto simp: stack_ok_def)
  have "entry_ok es (length es) (new_run d node (fst q) (snd q))"
    unfolding entry_ok_def new_run_def using fuse_chain_nonempty [of node] fuse_chain_live [of node] n(1,3)
    by (auto simp: place_ok_def split: option.splits)
  from entries_ok_snoc [OF assms(2) this] show "entries_ok (es @ [new_run d node (fst q) (snd q)])" .
  have "kids_ok (snd (fuse_chain node))" by (rule fuse_chain_ok [OF n(2)])
  then show "stack_ok (es @ [new_run d node (fst q) (snd q)])
      (rev (map (\<lambda>k. (k, Some (length es), length (fst (fuse_chain node)) - 1)) (snd (fuse_chain node))) @ stack)"
    using n(4) by (fastforce simp: stack_ok_def kids_ok_def place_ok_snoc place_ok_def [of _ "(Some _, _)"] new_run_def)
qed

theorem run_loop_table:
  assumes "stack_ok es stack" and "entries_ok es"
  shows "entries_ok (rt_entries (run_loop stack es att)) \<and>
    entries_items (rt_entries (run_loop stack es att)) = entries_items es + stack_items (run_tails [] es) stack \<and>
    length (rt_entries (run_loop stack es att)) \<le> length es + pending_size stack"
  using assms
proof (induction stack es att rule: run_loop.induct)
  case (1 entries att)
  then show ?case by (simp add: stack_items_def)
next
  case (2 d node parent poff stack es att)
  let ?e = "new_run d node parent poff" and ?T = "run_tails [] es"
  let ?h = "head_path ?T parent d" and ?ms = "fst (fuse_chain node)" and ?ks = "snd (fuse_chain node)"
  let ?st = "rev (map (\<lambda>k. (k, Some (length es), length ?ms - 1)) ?ks) @ stack"
  note ok = new_run_ok [OF "2.prems", simplified]
  have IH: "entries_ok (rt_entries (run_loop ?st (es @ [?e]) (attach_to parent (length es) (att @ [[]])))) \<and>
    entries_items (rt_entries (run_loop ?st (es @ [?e]) (attach_to parent (length es) (att @ [[]])))) =
      entries_items (es @ [?e]) + stack_items (run_tails [] (es @ [?e])) ?st \<and>
    length (rt_entries (run_loop ?st (es @ [?e]) (attach_to parent (length es) (att @ [[]])))) \<le> length (es @ [?e]) + pending_size ?st"
    using "2.IH" [OF refl refl] ok by (simp add: new_run_def)
  have t: "run_tails [] (es @ [?e]) = ?T @ [run_tail ?h ?ms]" by (simp add: run_tails_snoc new_run_def)
  have "stack_ok es stack" using "2.prems"(1) by (auto simp: stack_ok_def)
  then have "stack_items (run_tails [] (es @ [?e])) ?st = kids_items (run_tail ?h ?ms) ?ks + stack_items ?T stack"
    unfolding stack_items_push by (simp add: t stack_items_grow nth_append)
  moreover have "entries_items (es @ [?e]) = entries_items es + chain_items ?h ?ms"
    by (simp add: entries_items_def run_heads_snoc new_run_def)
  moreover have "stack_items ?T (((d, node), parent, poff) # stack) = k_items ?h node + stack_items ?T stack"
    by (simp add: stack_items_def)
  moreover have "pending_size ?st + 1 \<le> pending_size (((d, node), parent, poff) # stack)"
    using fuse_chain_size [of node] by (simp add: pending_push)
  ultimately show ?case unfolding run_loop_step using IH fuse_chain_items [of ?h node] by (simp add: ac_simps)
qed

end
