(* ===== verification/SerializeText.thy ===== *)
theory SerializeText
  imports SerializeBits
begin

text \<open>The counters and the texts of the serializer read back.\<close>

section \<open>Counters\<close>

lemma byte_at_drop: "drop i u8 = b # rest \<Longrightarrow> byte_at u8 i = b \<and> drop (Suc i) u8 = rest"
  by (metis Cons_nth_drop_Suc byte_at_def drop_eq_Nil list.distinct(1) list.inject not_le)

lemma readVarint_read:
  "drop i u8 = writeVarint n @ rest \<Longrightarrow> readVarint u8 acc s i = (acc + n * 2 ^ s, i + length (writeVarint n))"
proof (induction n arbitrary: acc s i rule: writeVarint.induct)
  case (1 n)
  show ?case
  proof (cases "128 \<le> n")
    case True
    then have w: "writeVarint n = (n mod 128 + 128) # writeVarint (n div 128)" by (subst writeVarint.simps) simp
    note b = byte_at_drop [of i u8 "n mod 128 + 128" "writeVarint (n div 128) @ rest"]
    have "acc + n mod 128 * 2 ^ s + n div 128 * 2 ^ (s + 7) = acc + n * 2 ^ s"
    proof -
      have p: "n div 128 * 2 ^ (s + 7) = n div 128 * 128 * 2 ^ s" by (simp add: power_add)
      have "(n mod 128 + n div 128 * 128) * 2 ^ s = n mod 128 * 2 ^ s + n div 128 * 128 * 2 ^ s" by (rule add_mult_distrib)
      then have "n * 2 ^ s = n mod 128 * 2 ^ s + n div 128 * 128 * 2 ^ s" by (simp only: mod_div_mult_eq)
      then show ?thesis unfolding p by (simp only: add.assoc)
    qed
    moreover have "readVarint u8 (acc + n mod 128 * 2 ^ s) (s + 7) (Suc i) =
      (acc + n mod 128 * 2 ^ s + n div 128 * 2 ^ (s + 7), Suc i + length (writeVarint (n div 128)))"
      using "1.IH" [OF True, of "Suc i"] b "1.prems" w by simp
    ultimately show ?thesis using b "1.prems" w by (subst readVarint.simps) (simp add: Let_def)
  next
    case False
    then have w: "writeVarint n = [n]" by (subst writeVarint.simps) simp
    with byte_at_drop [of i u8 n rest] "1.prems" False show ?thesis by (subst readVarint.simps) (simp add: Let_def)
  qed
qed

section \<open>Texts\<close>

text \<open>A text of scalar values that does not start with a byte order mark.\<close>

definition plain_text :: "nat list \<Rightarrow> bool" where
  "plain_text cs \<longleftrightarrow> list_all scalar cs \<and> (cs = [] \<or> hd cs \<noteq> 0xFEFF)"

lemma scalars_id: "list_all scalar cs \<Longrightarrow> scalars cs = cs"
  by (induction cs rule: scalars.induct) (auto simp: replaced_def scalar_def)

lemma div_mod_3: "c div 4096 mod 64 * 64 + c div 64 mod 64 = c div 64 mod 4096" for c :: nat
  using mod_mult2_eq [of "c div 64" 64 64] div_mult2_eq [of c 64 64] by simp

lemma four_digits: "c div 262144 * 64 * 64 * 64 + c div 4096 mod 64 * 64 * 64 + c div 64 mod 64 * 64 + c mod 64 = c" for c :: nat
proof -
  have a: "c = c div 64 * 64 + c mod 64" by simp
  have b: "c div 64 = c div 4096 * 64 + c div 64 mod 64" using div_mult2_eq [of c 64 64] by simp
  have e: "c div 4096 = c div 262144 * 64 + c div 4096 mod 64" using div_mult2_eq [of c 4096 64] by simp
  show ?thesis using a b e by linarith
qed

lemma three_digits: "c div 4096 * 64 * 64 + c div 64 mod 64 * 64 + c mod 64 = c" for c :: nat
proof -
  have a: "c = c div 64 * 64 + c mod 64" by simp
  have b: "c div 64 = c div 4096 * 64 + c div 64 mod 64" using div_mult2_eq [of c 64 64] by simp
  show ?thesis using a b by linarith
qed

lemma read_three:
  assumes "x < 16" "y < 64" "z < 64" and "x = 0 \<Longrightarrow> 32 \<le> y" and "x = 13 \<Longrightarrow> y < 32"
  shows "read_points 0 0 0x80 0xBF ([0xE0 + x, 0x80 + y, 0x80 + z] @ bs) = (x * 64 * 64 + y * 64 + z) # read_points 0 0 0x80 0xBF bs"
  using assms by (simp add: numeral_2_eq_2) auto

lemma read_four:
  assumes "w < 5" "x < 64" "y < 64" "z < 64" and "w = 0 \<Longrightarrow> 16 \<le> x" and "w = 4 \<Longrightarrow> x < 16"
  shows "read_points 0 0 0x80 0xBF ([0xF0 + w, 0x80 + x, 0x80 + y, 0x80 + z] @ bs) =
    (w * 64 * 64 * 64 + x * 64 * 64 + y * 64 + z) # read_points 0 0 0x80 0xBF bs"
  using assms by (simp add: numeral_3_eq_3) auto

lemma read_point:
  assumes "scalar c"
  shows "read_points 0 0 0x80 0xBF (point_bytes c @ bs) = c # read_points 0 0 0x80 0xBF bs"
proof -
  have m: "c mod 64 < 64" "c div 64 mod 64 < 64" "c div 4096 mod 64 < 64" by simp_all
  have c: "c < 0x110000" "c < 0xD800 \<or> 0xE000 \<le> c"
    using assms by (auto simp: scalar_def high_surrogate_def low_surrogate_def)
  consider "c < 0x80" | "0x80 \<le> c" "c < 0x800" | "0x800 \<le> c" "c < 0x10000" | "0x10000 \<le> c" by linarith
  then show ?thesis
  proof cases
    case 1
    then show ?thesis by (simp add: point_bytes_def)
  next
    case 2
    then have h: "2 \<le> c div 64" "c div 64 < 32" by (auto simp: less_eq_div_iff_mult_less_eq div_less_iff_less_mult)
    have p: "point_bytes c = [0xC0 + c div 64, 0x80 + c mod 64]" using 2 by (simp add: point_bytes_def)
    show ?thesis unfolding p using h by simp
  next
    case 3
    then have h: "c div 4096 < 16" by (auto simp: div_less_iff_less_mult)
    have z: "32 \<le> c div 64 mod 64" if "c div 4096 = 0"
      using three_digits [of c] that 3(1) m(1) by simp
    have d: "c div 64 mod 64 < 32" if "c div 4096 = 13"
      using three_digits [of c] that c(2) m(1) by simp linarith
    have p: "point_bytes c = [0xE0 + c div 4096, 0x80 + c div 64 mod 64, 0x80 + c mod 64]" using 3 by (simp add: point_bytes_def)
    show ?thesis unfolding p using read_three [OF h m(2) m(1) z d] three_digits [of c] by simp
  next
    case 4
    then have h: "c div 262144 < 5" using c(1) by (auto simp: div_less_iff_less_mult)
    have z: "16 \<le> c div 4096 mod 64" if "c div 262144 = 0"
      using four_digits [of c] that 4 m(1,2) by simp
    have d: "c div 4096 mod 64 < 16" if "c div 262144 = 4"
      using four_digits [of c] that c(1) m(1,2) by simp
    have p: "point_bytes c = [0xF0 + c div 262144, 0x80 + c div 4096 mod 64, 0x80 + c div 64 mod 64, 0x80 + c mod 64]"
      using 4 by (simp add: point_bytes_def)
    show ?thesis unfolding p using read_four [OF h m(3) m(2) m(1) z d] four_digits [of c] by simp
  qed
qed

lemma read_text: "list_all scalar cs \<Longrightarrow> read_points 0 0 0x80 0xBF (concat (map point_bytes cs)) = cs"
proof (induction cs)
  case (Cons c cs)
  then show ?case using read_point [of c "concat (map point_bytes cs)"] by simp
qed simp

lemma point_bytes_nonempty [simp]: "point_bytes c \<noteq> []"
  by (simp add: point_bytes_def)

text \<open>Only the byte order mark has its three bytes in front.\<close>

lemma mark_bytes_only:
  assumes "take 3 (point_bytes c @ bs) = [0xEF, 0xBB, 0xBF]" and "scalar c"
  shows "c = 0xFEFF"
proof -
  have c: "c < 0x110000" using assms(2) by (simp add: scalar_def)
  consider "c < 0x80" | "0x80 \<le> c" "c < 0x800" | "0x800 \<le> c" "c < 0x10000" | "0x10000 \<le> c" by linarith
  then show ?thesis
  proof cases
    case 2
    then have "c div 64 < 32" by (auto simp: div_less_iff_less_mult)
    with 2 assms(1) show ?thesis by (simp add: point_bytes_def numeral_3_eq_3)
  next
    case 3
    then have "c div 4096 = 15" "c div 64 mod 64 = 59" "c mod 64 = 63"
      using assms(1) by (simp_all add: point_bytes_def numeral_3_eq_3)
    with three_digits [of c] show ?thesis by simp
  next
    case 4
    then show ?thesis using assms(1) by (simp add: point_bytes_def numeral_3_eq_3)
  qed (use assms(1) in \<open>simp add: point_bytes_def numeral_3_eq_3\<close>)
qed

lemma text_read: "plain_text cs \<Longrightarrow> bytes_text (text_bytes cs) = cs"
proof -
  assume a: "plain_text cs"
  then have s: "list_all scalar cs" by (simp add: plain_text_def)
  have "take 3 (concat (map point_bytes cs)) \<noteq> [0xEF, 0xBB, 0xBF]"
  proof (cases cs)
    case (Cons c ds)
    then show ?thesis using a mark_bytes_only [of c "concat (map point_bytes ds)"] by (auto simp: plain_text_def)
  qed simp
  then show ?thesis by (simp add: bytes_text_def text_bytes_def scalars_id [OF s] read_text [OF s])
qed

lemma take_points_read: "list_all (\<lambda>s. length s = 1) texts \<Longrightarrow> take_points (length texts) (concat texts) = map Some texts"
proof (induction texts)
  case (Cons s texts)
  then obtain c where "s = [c]" by (cases s) auto
  with Cons show ?case by simp
qed simp

lemma take_texts_read:
  "drop i u8 = concat (map (\<lambda>s. writeVarint (length (text_bytes s)) @ text_bytes s) texts) \<Longrightarrow> list_all plain_text texts \<Longrightarrow>
   take_texts (length texts) u8 i = map Some texts"
proof (induction texts arbitrary: i)
  case (Cons s texts)
  let ?n = "length (text_bytes s)" and ?rest = "concat (map (\<lambda>s. writeVarint (length (text_bytes s)) @ text_bytes s) texts)"
  have d: "drop i u8 = writeVarint ?n @ text_bytes s @ ?rest" using Cons.prems(1) by simp
  have v: "readVarint u8 0 0 i = (?n, i + length (writeVarint ?n))" using readVarint_read [OF d, of 0 0] by simp
  have e: "drop (i + length (writeVarint ?n)) u8 = text_bytes s @ ?rest"
    using arg_cong [OF d, of "drop (length (writeVarint ?n))"] by (simp add: add.commute)
  have "drop (i + length (writeVarint ?n) + ?n) u8 = ?rest"
    using arg_cong [OF e, of "drop ?n"] by (simp add: add_ac)
  from Cons.IH [OF this] Cons.prems(2) v e show ?case by (simp add: text_read Let_def)
qed simp

end
