(* ===== verification/SerializeTable.thy ===== *)
theory SerializeTable
  imports SerializeTree SerializeText
begin

text \<open>
  The serializer step by step: the table of a coded state, its metadata as bits written and read, the
  coordinates the decoder rebuilds, and the records it puts under them.
\<close>

section \<open>The table of a coded state\<close>

lemma tail_attached_ok: "entries_ok es \<Longrightarrow> tail_attached es"
  by (auto simp: entries_ok_def entry_ok_def tail_attached_def list_all_length split: option.splits)

lemma k_size_put: "k_size (k_put ds x t) \<le> k_size t + length ds"
proof (induction ds arbitrary: t)
  case Nil
  then show ?case by (cases t) simp
next
  case (Cons d ds)
  obtain v ks where t: "t = KNode v ks" by (cases t)
  define ch where "ch = (case map_of ks d of Some ch \<Rightarrow> ch | None \<Rightarrow> KNode None [])"
  have u: "sum_list (map (\<lambda>(d, k). k_size k) (AList.update d c ks)) + (case map_of ks d of Some ch \<Rightarrow> k_size ch | None \<Rightarrow> 0) =
      sum_list (map (\<lambda>(d, k). k_size k) ks) + k_size c" for c
    by (induction ks) auto
  show ?case using u [of "k_put ds x ch"] Cons.IH [of ch] by (cases "map_of ks d") (simp_all add: t ch_def)
qed

lemma code_length: "positive ds \<Longrightarrow> length ds \<le> length (concat (map dEnc ds))"
proof (induction ds)
  case (Cons d ds)
  then have "dEnc d \<noteq> []" by (simp add: dEnc_nonempty)
  with Cons show ?case by (cases "dEnc d") auto
qed simp

definition coord_bits :: "(int \<times> 'e erec) list \<Rightarrow> nat" where
  "coord_bits es = sum_list (map (\<lambda>(i, r). length (er_coord r)) es)"

lemma coordTree_size:
  "list_all2 (\<lambda>(i, r) ds. positive ds \<and> ds \<noteq> [] \<and> er_coord r = concat (map dEnc ds)) es chs \<Longrightarrow>
   foldM (\<lambda>(id1, r) root. rbind (decodeChain (er_coord r)) (\<lambda>ds. Inr (k_put ds (id1, er_el r) root))) es t = Inr t' \<Longrightarrow>
   k_size t' \<le> k_size t + coord_bits es"
proof (induction es chs arbitrary: t rule: list_all2_induct)
  case (Cons y es ds chs)
  obtain i r where y: "y = (i, r)" by (cases y)
  have ds: "positive ds" "er_coord r = concat (map dEnc ds)" using Cons.hyps(1) y by auto
  have "k_size t' \<le> k_size (k_put ds (i, er_el r) t) + coord_bits es"
    by (rule Cons.IH) (use Cons.prems decodeChain_cat [OF ds(1)] ds y in simp)
  then show ?case using k_size_put [of ds "(i, er_el r)" t] code_length [OF ds(1)] ds(2) y by (simp add: coord_bits_def)
qed (simp add: coord_bits_def)

lemma buildRunTable_chained:
  assumes "chained es chs"
  obtains t where "buildRunTable es = Inr t" "entries_ok (rt_entries t)"
    "entries_items (rt_entries t) = mset (map chain_item (zip es chs))" "length (rt_entries t) \<le> coord_bits es"
proof -
  obtain root where r: "coordTree es = Inr root" "k_ok root" "k_rec root = None" "k_items [] root = mset (map chain_item (zip es chs))"
    using coordTree_chained [OF assms] .
  let ?st = "rev (map (\<lambda>k. (k, None, 0)) (k_kids root)) :: 'a pending list"
  let ?t = "run_loop ?st [] []"
  have ok: "stack_ok [] ?st" using r(2) [unfolded k_ok_kids [of root] kids_ok_def] by (auto simp: stack_ok_def place_ok_def)
  have "stack_items T (rev (map (\<lambda>k. (k, None, 0)) ks)) = kids_items [] ks" for T and ks :: "(nat \<times> 'a knode) list"
    by (induction ks) (auto simp: stack_items_def kids_items_def head_path_def ac_simps)
  then have it: "stack_items [] ?st = k_items [] root" using k_items_kids [of "[]" root] r(3) by (simp add: here_def)
  have "pending_size ?st = kids_size (k_kids root)"
    using pending_push [of "(None, 0)" "k_kids root" "[]"] by (simp add: pending_size_def)
  moreover have "kids_size (k_kids root) + 1 = k_size root" by (cases root) (simp add: kids_size_def)
  moreover have "k_size root \<le> 1 + coord_bits es"
    using coordTree_size [of es chs "KNode None []" root] assms r(1) by (simp add: chained_def coordTree_def)
  moreover note run_loop_table [OF ok, of "[]"]
  ultimately have t: "entries_ok (rt_entries ?t)" "entries_items (rt_entries ?t) = mset (map chain_item (zip es chs))"
    "length (rt_entries ?t) \<le> coord_bits es" by (simp_all add: entries_ok_def entries_items_def it r(4))
  from that [OF _ t] show ?thesis using r(1) tail_attached_ok [OF t(1)] by (simp add: buildRunTable_def)
qed

section \<open>The metadata\<close>

definition parent_ref :: "'e run \<Rightarrow> nat" where
  "parent_ref e = (case re_parent e of None \<Rightarrow> 0 | Some p \<Rightarrow> p + 1)"

definition run_bits :: "nat \<Rightarrow> 'e run \<Rightarrow> nat list" where
  "run_bits w e = (if re_live e then 1 else 0) # wbits w (parent_ref e) @ dEnc (re_delta e) @ dEnc (length (re_members e))"

definition meta_bits :: "nat \<Rightarrow> 'e run list \<Rightarrow> nat list" where
  "meta_bits w es = concat (map (run_bits w) es)"

lemma bitLength_bound: "n < 2 ^ bitLength n"
proof (induction n rule: bitLength.induct)
  case (1 n)
  then show ?case by (cases "n = 0") (auto simp: bitLength.simps [of n])
qed

lemma bitLength_le: "n < 2 ^ k \<Longrightarrow> bitLength n \<le> k"
proof (induction k arbitrary: n)
  case (Suc k)
  then have "n div 2 < 2 ^ k" by (simp add: div_less_iff_less_mult mult.commute)
  from Suc.IH [OF this] show ?case by (subst bitLength.simps) simp
qed (simp add: bitLength.simps)

lemma ref_width: "n < 2 ^ 32 \<Longrightarrow> n < 2 ^ ref_width n \<and> ref_width n \<le> 32"
proof -
  assume "n < 2 ^ 32"
  moreover have "(2 :: nat) ^ bitLength n \<le> 2 ^ ref_width n" by (rule power_increasing) (auto simp: ref_width_def)
  ultimately show ?thesis using bitLength_bound [of n] bitLength_le [of n 32]
    by (auto simp: ref_width_def intro: order.strict_trans2)
qed

lemma written_run:
  assumes "written bw bs" and "parent_ref e < 2 ^ 32" and "w \<le> 32"
  shows "written (encode_run w e bw) (bs @ run_bits w e)"
proof -
  have "written (bw_bit (if re_live e then 1 else 0) bw) (bs @ [if re_live e then 1 else 0])"
    using written_bit [OF assms(1), of "if re_live e then 1 else 0"] by (simp split: if_splits)
  from written_code [OF written_code [OF written_uint [OF this assms(2,3)] dEnc_digits] dEnc_digits]
  show ?thesis by (simp add: encode_run_def run_bits_def parent_ref_def)
qed

lemma written_runs:
  "written bw bs \<Longrightarrow> \<forall>e \<in> set es. parent_ref e < 2 ^ 32 \<Longrightarrow> w \<le> 32 \<Longrightarrow>
   written (foldl (\<lambda>bw e. encode_run w e bw) bw es) (bs @ meta_bits w es)"
proof (induction es arbitrary: bw bs)
  case (Cons e es)
  from written_run [OF Cons.prems(1), of e w] Cons.prems have "written (encode_run w e bw) (bs @ run_bits w e)" by simp
  from Cons.IH [OF this] Cons.prems show ?case by (simp add: meta_bits_def)
qed (simp add: meta_bits_def)

definition head_of :: "'e run \<Rightarrow> runHead" where
  "head_of e = \<lparr>rh_live = re_live e, rh_parent = (case re_parent e of None \<Rightarrow> -1 | Some p \<Rightarrow> int p), rh_delta = re_delta e,
     rh_len = length (re_members e)\<rparr>"

lemma read_heads_read:
  "drop pos (all_bits u8) = meta_bits w es @ rest \<Longrightarrow>
   \<forall>e \<in> set es. parent_ref e < 2 ^ w \<and> 1 \<le> re_delta e \<and> re_members e \<noteq> [] \<Longrightarrow> w \<le> 32 \<Longrightarrow>
   read_heads u8 w (length es) pos = (map head_of es, pos + length (meta_bits w es))"
proof (induction es arbitrary: pos)
  case (Cons e es)
  let ?b = "if re_live e then 1 else 0 :: nat" and ?r = "meta_bits w es @ rest"
  let ?d = "dEnc (re_delta e)" and ?l = "dEnc (length (re_members e))"
  have d: "drop pos (all_bits u8) = ?b # wbits w (parent_ref e) @ ?d @ ?l @ ?r"
    using Cons.prems(1) by (simp add: meta_bits_def run_bits_def)
  from drop_bits [OF d] have b: "br_bit u8 pos = ?b" and d1: "drop (Suc pos) (all_bits u8) = wbits w (parent_ref e) @ ?d @ ?l @ ?r"
    by simp_all
  have p: "br_uint u8 w (Suc pos) = parent_ref e" using br_uint_read [OF d1] Cons.prems(2,3) by simp
  have d2: "drop (Suc pos + w) (all_bits u8) = ?d @ ?l @ ?r" using arg_cong [OF d1, of "drop w"] by (simp add: add.commute)
  have e1: "br_elias u8 (Suc pos + w) = (re_delta e, Suc pos + w + length ?d)" by (rule br_elias_read [OF _ d2]) (use Cons.prems(2) in simp)
  have d3: "drop (Suc pos + w + length ?d) (all_bits u8) = ?l @ ?r" using arg_cong [OF d2, of "drop (length ?d)"] by (simp add: add_ac)
  have e2: "br_elias u8 (Suc pos + w + length ?d) = (length (re_members e), Suc pos + w + length ?d + length ?l)"
    by (rule br_elias_read [OF _ d3]) (use Cons.prems(2) in \<open>simp add: Suc_le_eq\<close>)
  have d4: "drop (Suc pos + w + length ?d + length ?l) (all_bits u8) = ?r" using arg_cong [OF d3, of "drop (length ?l)"] by (simp add: add_ac)
  have IH: "read_heads u8 w (length es) (Suc pos + w + length ?d + length ?l) =
      (map head_of es, Suc pos + w + length ?d + length ?l + length (meta_bits w es))"
    by (rule Cons.IH [OF d4]) (use Cons.prems in auto)
  have h: "\<lparr>rh_live = (br_bit u8 pos = 1), rh_parent = int (parent_ref e) - 1, rh_delta = re_delta e, rh_len = length (re_members e)\<rparr> = head_of e"
    by (simp add: head_of_def parent_ref_def b split: option.split)
  have "read_heads u8 w (Suc (length es)) pos =
      (head_of e # map head_of es, Suc pos + w + length ?d + length ?l + length (meta_bits w es))"
    by (simp only: read_heads.simps Suc_eq_plus1 [symmetric] p e1 e2 IH Let_def prod.case h)
  then show ?case by (simp add: meta_bits_def run_bits_def)
qed (simp add: meta_bits_def)

section \<open>Coordinates and elements\<close>

lemma cat_ones: "elias.cat (replicate k 1) = concat (replicate k (dEnc 1))"
  by (induction k) simp_all

lemma run_coords_read:
  "\<forall>i < length es. \<forall>p. re_parent (es ! i) = Some p \<longrightarrow> p < length T + i \<Longrightarrow> length T + length es \<le> nEnt \<Longrightarrow>
   run_coords nEnt (map elias.cat T) (map head_of es) = Inr (map elias.cat (run_heads T es))"
proof (induction es arbitrary: T)
  case (Cons e es)
  let ?h = "head_path T (re_parent e) (re_delta e)"
  have p: "p < length T" if "re_parent e = Some p" for p using Cons.prems(1) that by (auto dest: spec [of _ 0])
  have h: "(if rh_parent (head_of e) < 0 \<or> nat (rh_parent (head_of e)) \<ge> length T then [] else map elias.cat T ! nat (rh_parent (head_of e))) @
      dEnc (rh_delta (head_of e)) = elias.cat ?h"
    using p by (auto simp: head_of_def head_path_def split: option.split)
  have t: "elias.cat ?h @ concat (replicate (rh_len (head_of e) - 1) (dEnc 1)) = elias.cat (run_tail ?h (re_members e))"
    using cat_ones [of "length (re_members e) - 1"] by (simp add: run_tail_def head_of_def)
  have "\<forall>i < length es. \<forall>p. re_parent (es ! i) = Some p \<longrightarrow> p < length (T @ [run_tail ?h (re_members e)]) + i"
    using Cons.prems(1) by fastforce
  from Cons.IH [OF this] Cons.prems(2)
  have IH: "run_coords nEnt (map elias.cat T @ [elias.cat (run_tail ?h (re_members e))]) (map head_of es) =
     Inr (map elias.cat (run_heads (T @ [run_tail ?h (re_members e)]) es))" by simp
  have "\<not> int nEnt \<le> rh_parent (head_of e)"
    using p Cons.prems(2) by (cases "re_parent e") (fastforce simp: head_of_def)+
  then show ?case using IH unfolding list.map run_coords.simps Let_def length_map h t by (simp add: Let_def)
qed simp

text \<open>The records of the live entries in storage order.\<close>

definition run_items :: "nat list \<Rightarrow> (int \<times> 'e) option list \<Rightarrow> (nat list \<times> int \<times> 'e) list" where
  "run_items h ms = map2 (\<lambda>j m. (h @ replicate j 1, the m)) [0..<length ms] ms"

fun live_items :: "'e run list \<Rightarrow> nat list list \<Rightarrow> (nat list \<times> int \<times> 'e) list" where
  "live_items (e # es) (h # hs) = (if re_live e then run_items h (re_members e) else []) @ live_items es hs"
| "live_items es hs = []"

lemma run_items_Cons: "run_items h (m # ms) = (h, the m) # run_items (h @ [1]) ms"
proof -
  have "[0..<length (m # ms)] = 0 # map Suc [0..<length ms]" by (simp add: upt_conv_Cons map_Suc_upt del: upt_Suc)
  then show ?thesis unfolding run_items_def by (simp add: zip_map1 comp_def case_prod_unfold)
qed

lemma run_items_mset:
  "\<forall>m \<in> set ms. (m \<noteq> None) = b \<Longrightarrow> chain_items h ms = (if b then mset (run_items h ms) else {#})"
proof (induction ms arbitrary: h)
  case (Cons m ms)
  then show ?case by (auto simp: run_items_Cons here_def split: option.splits)
qed (simp add: run_items_def)

lemma live_items_mset:
  "\<forall>e \<in> set es. \<forall>m \<in> set (re_members e). (m \<noteq> None) = re_live e \<Longrightarrow>
   mset (live_items es hs) = sum_list (map2 (\<lambda>h e. chain_items h (re_members e)) hs es)"
proof (induction es hs rule: live_items.induct)
  case (1 e es h hs)
  then show ?case using run_items_mset [of "re_members e" "re_live e" h] by simp
qed simp_all

lemma run_items_coords: "map (\<lambda>j. elias.cat h @ concat (replicate j (dEnc 1))) [0..<length ms] = map (elias.cat \<circ> fst) (run_items h ms)"
  unfolding run_items_def cat_ones [symmetric] by (rule nth_equalityI) simp_all

lemma live_coords_items:
  "live_coords (zip (map head_of es) (map elias.cat hs)) = map (elias.cat \<circ> fst) (live_items es hs)"
proof (induction es hs rule: live_items.induct)
  case (1 e es h hs)
  then show ?case using run_items_coords [of h "re_members e"] by (simp add: live_coords_def head_of_def)
qed (simp_all add: live_coords_def)

lemma live_texts_items:
  "length hs = length es \<Longrightarrow> \<forall>e \<in> set es. \<forall>m \<in> set (re_members e). (m \<noteq> None) = re_live e \<Longrightarrow>
   live_texts str es = map (\<lambda>x. str (snd (snd x))) (live_items es hs)"
proof (induction es hs rule: live_items.induct)
  case (1 e es h hs)
  have "map (member_text str) ms = map (\<lambda>x. str (snd (snd x))) (run_items h ms)" if "\<forall>m \<in> set ms. m \<noteq> None" for h ms
    using that by (induction ms arbitrary: h) (auto simp: run_items_Cons member_text_def, simp add: run_items_def)
  with 1 show ?case by (simp add: live_texts_def)
qed (simp_all add: live_texts_def)

section \<open>Decoding an encoded state\<close>

lemma decode_encoded:
  assumes ok: "entries_ok es" and n: "length es < 2 ^ 32"
    and w: "w = ref_width (length es)" and bw: "bw = foldl (\<lambda>bw e. encode_run w e bw) bw_new es"
    and u8: "u8 = writeVarint (length es) @ [mode] @ bw_finish bw @ els"
  obtains start where "drop start u8 = els"
    "byte_at u8 (length (writeVarint (length es))) = mode" "readVarint u8 0 0 0 = (length es, length (writeVarint (length es)))"
    "read_heads u8 w (length es) ((length (writeVarint (length es)) + 1) * 8) =
       (map head_of es, (length (writeVarint (length es)) + 1) * 8 + length (meta_bits w es))"
    "br_align ((length (writeVarint (length es)) + 1) * 8 + length (meta_bits w es)) div 8 = start"
    "bw_total bw = length (meta_bits w es)"
proof -
  let ?i = "length (writeVarint (length es))" and ?m = "meta_bits w es"
  note rw = ref_width [OF n, folded w]
  have e: "entry_ok es i (es ! i)" if "i < length es" for i using ok that by (simp add: entries_ok_def)
  have ref: "parent_ref e \<le> length es \<and> 1 \<le> re_delta e \<and> re_members e \<noteq> []" if "e \<in> set es" for e
    using that e by (fastforce simp: in_set_conv_nth entry_ok_def parent_ref_def split: option.splits)
  have "written bw ([] @ ?m)" unfolding bw by (rule written_runs [OF written_new]) (use ref n rw in fastforce)+
  then obtain pad where pad: "all_bits (bw_finish bw) = ?m @ pad" "length pad < 8" "bw_total bw = length ?m"
    using finished [of bw ?m] by auto
  have v: "readVarint u8 0 0 0 = (length es, ?i)"
    using readVarint_read [of 0 u8 "length es" "[mode] @ bw_finish bw @ els" 0 0] u8 by simp
  have bm: "byte_at u8 ?i = mode" using u8 by (simp add: byte_at_def)
  have "drop ((?i + 1) * 8) (all_bits u8) = ?m @ pad @ all_bits els"
    unfolding u8 all_bits_simps pad(1) by (simp add: mult.commute)
  then have h: "read_heads u8 w (length es) ((?i + 1) * 8) = (map head_of es, (?i + 1) * 8 + length ?m)"
    by (rule read_heads_read) (use ref rw in \<open>auto intro: order.strict_trans1\<close>)
  have "length ?m + length pad = 8 * length (bw_finish bw)" using arg_cong [OF pad(1), of length] by simp
  then have a: "br_align ((?i + 1) * 8 + length ?m) div 8 = ?i + 1 + length (bw_finish bw)"
    by (intro br_align_read [OF pad(2)]) simp
  have "drop (?i + 1 + length (bw_finish bw)) u8 = els" using u8 by simp
  from that [OF this bm v h a pad(3)] show ?thesis .
qed

lemma fm_entries_foldl:
  assumes "sorted_wrt (<) (map fst xs)"
  shows "fm_entries (foldl (\<lambda>s (k, v). fmupd k v s) fmempty xs) = (xs :: ('k::linorder \<times> 'v) list)"
proof -
  let ?m = "foldl (\<lambda>s (k, v). fmupd k v s) fmempty xs"
  have d: "distinct (map fst xs)" using assms by (simp add: strict_sorted_iff)
  have l: "fmlookup (foldl (\<lambda>s (k, v). fmupd k v s) s xs) k = (case map_of xs k of None \<Rightarrow> fmlookup s k | Some v \<Rightarrow> Some v)"
    if "distinct (map fst xs)" for s k and xs :: "('k \<times> 'v) list"
    using that by (induction xs arbitrary: s) (auto split: option.split simp: map_of_eq_None_iff dest: map_of_SomeD intro: rev_image_eqI)
  have look: "fmlookup ?m k = map_of xs k" for k using l [OF d, of fmempty k] by (simp split: option.split)
  have "set (fm_keys ?m) = set (map fst xs)" unfolding set_fm_keys dom_def look by (auto simp: dom_map_of_conv_image_fst [symmetric])
  then have k: "fm_keys ?m = map fst xs"
    using assms fm_keys_sorted [of ?m] by (metis sorted_list_of_set.idem_if_sorted_distinct strict_sorted_iff)
  show ?thesis unfolding fm_entries_def k look map_map comp_def
    by (rule map_idI) (use d in \<open>auto simp: map_of_eq_Some_iff\<close>)
qed

end
