(* ===== verification/SerializeSound.thy ===== *)
theory SerializeSound
  imports SerializeTable
begin

text \<open>
  What the serializer promises: decoding an encoded state gives its records back, under their coordinates
  and texts, so it reads the same; the table never fails its own check and its metadata has the announced
  number of bits.
\<close>

section \<open>The order of a coded state\<close>

lemma total_on_chains: "total_on chain_before A"
  unfolding total_on_def using chain_before_total chain_before_asym chain_before_trans by blast

lemma total_on_transfer:
  assumes "\<And>x y. x \<in> Z \<Longrightarrow> y \<in> Z \<Longrightarrow> lt (f x) (f y) \<longleftrightarrow> lt' (g x) (g y)" and "total_on lt' (g ` Z)" and "inj_on g Z"
  shows "total_on lt (f ` Z)"
  unfolding total_on_def
proof (intro conjI ballI impI; elim imageE; hypsubst)
  note t = total_onD [OF assms(2)]
  fix x y
  assume xy: "x \<in> Z" "y \<in> Z"
  show "f x \<noteq> f y \<Longrightarrow> lt (f x) (f y) \<or> lt (f y) (f x)"
    using t(1) [of "g x" "g y"] assms(1) [OF xy] assms(1) [OF xy(2,1)] inj_onD [OF assms(3), of x y] xy by blast
  show "lt (f x) (f y) \<Longrightarrow> \<not> lt (f y) (f x)"
    using t(2) [of "g x" "g y"] assms(1) [OF xy] assms(1) [OF xy(2,1)] xy by blast
  fix z
  assume "z \<in> Z" "lt (f x) (f y)" "lt (f y) (f z)"
  then show "lt (f x) (f z)"
    using t(3) [of "g x" "g y" "g z"] assms(1) [OF xy] assms(1) [of y z] assms(1) [of x z] xy by blast
qed

definition path_lt :: "nat list \<times> 'a \<Rightarrow> nat list \<times> 'a \<Rightarrow> bool" where
  "path_lt x y \<longleftrightarrow> chain_before (fst x) (fst y)"

definition path_el :: "(int \<times> 'e erec) \<times> nat list \<Rightarrow> nat list \<times> 'e" where
  "path_el x = (snd x, er_el (snd (fst x)))"

lemma sort_paths_unique:
  assumes "distinct (map fst xs)" and "sorted_wrt path_lt ys" and "set ys = set xs" and "distinct ys"
  shows "sort_by path_lt xs = ys"
proof (rule sort_by_unique)
  have "inj_on fst (set xs)" using assms(1) by (simp add: distinct_map)
  from total_on_transfer [of "set xs" path_lt "\<lambda>x. x" chain_before fst, OF path_lt_def total_on_chains this]
  show "total_on path_lt (set xs)" by simp
  show "distinct xs" using assms(1) by (simp add: distinct_map)
qed (use assms in auto)

lemma emb_read_chained:
  assumes c: "chained (fm_entries s) chs"
  shows "emb_read s = map snd (sort_by path_lt (map path_el (zip (fm_entries s) chs)))"
proof -
  let ?Z = "zip (fm_entries s) chs" and ?lt = "\<lambda>x y. chain_before (snd x) (snd y)"
  have len: "length chs = length (fm_entries s)" using c by (auto simp: chained_def dest: list_all2_lengthD)
  have d: "distinct (map fst (map fst ?Z))" "distinct (map snd ?Z)" using c len by (simp_all add: chained_def)
  have i: "inj_on snd (set ?Z)" using d(2) by (simp add: distinct_map)
  have z: "positive (snd x) \<and> er_coord (snd (fst x)) = elias.cat (snd x)" if "x \<in> set ?Z" for x
    using that c by (auto simp: chained_def list_all2_iff elias.cat_def)
  have b: "emb_before (fst x) (fst y) \<longleftrightarrow> chain_before (snd x) (snd y)" if x: "x \<in> set ?Z" and y: "y \<in> set ?Z" for x y
  proof (cases "dkey (er_coord (snd (fst x))) = dkey (er_coord (snd (fst y)))")
    case True
    then have "snd x = snd y" using z [OF x] z [OF y] elias.cat_inj by (simp add: dkey_def)
    then have "x = y" using inj_onD [OF i _ x y] by simp
    then show ?thesis by (simp add: emb_before_def chain_before_irrefl)
  next
    case False
    then show ?thesis using elias.dkey_order z [OF x] z [OF y] by (simp add: emb_before_def Let_def)
  qed
  have tz: "total_on ?lt (set ?Z)"
    using total_on_transfer [of "set ?Z" ?lt "\<lambda>x. x" chain_before snd, OF refl total_on_chains i] by simp
  have dz: "distinct ?Z" using d(2) by (simp only: distinct_map)
  let ?S = "sort_by ?lt ?Z"
  have S: "sorted_wrt ?lt ?S" "set ?S = set ?Z" "distinct ?S" using sorted_sort_by [OF tz dz] dz by simp_all
  have fsts: "map fst ?Z = fm_entries s" using len by simp
  have "sort_by emb_before (fm_entries s) = map fst ?S"
  proof (rule sort_by_unique)
    show "total_on emb_before (set (fm_entries s))"
      using total_on_transfer [of "set ?Z" emb_before fst chain_before snd, OF b total_on_chains i] arg_cong [OF fsts, of set] by simp
    show "sorted_wrt emb_before (map fst ?S)"
      unfolding sorted_wrt_map by (rule sorted_wrt_mono_rel [OF _ S(1)]) (simp add: b S(2))
    show "set (map fst ?S) = set (fm_entries s)" using arg_cong [OF fsts, of set] S(2) by simp
    have f: "inj_on fst (set ?Z)" using d(1) by (metis distinct_map)
    show "distinct (map fst ?S)" using S f by (simp add: distinct_map)
    show "distinct (fm_entries s)" using d(1) fsts by (metis distinct_map)
  qed
  moreover have "sort_by path_lt (map path_el ?Z) = map path_el ?S"
  proof (rule sort_paths_unique)
    show "distinct (map fst (map path_el ?Z))" using d(2) by (simp add: comp_def path_el_def)
    show "sorted_wrt path_lt (map path_el ?S)"
      unfolding sorted_wrt_map by (rule sorted_wrt_mono_rel [OF _ S(1)]) (simp add: path_lt_def path_el_def)
    have "inj_on path_el (set ?Z)" using i by (auto simp: inj_on_def path_el_def)
    then show "distinct (map path_el ?S)" using S by (simp add: distinct_map)
  qed (use S in simp)
  ultimately show ?thesis
    by (simp add: emb_read_def emb_readEntries_def path_el_def comp_def case_prod_unfold)
qed

section \<open>Serializable states\<close>

text \<open>
  Every record has a non-empty coordinate of its own, the code of a chain, and a text the decoder keeps,
  and there are fewer than 2 to the 32 bits of coordinates.
\<close>

definition serializable :: "('e \<Rightarrow> nat list) \<Rightarrow> 'e emb \<Rightarrow> bool" where
  "serializable str s \<longleftrightarrow> coded s \<and>
     (\<forall>i r. fmlookup s i = Some r \<longrightarrow> er_coord r \<noteq> [] \<and> plain_text (str (er_el r))) \<and>
     (\<forall>i j r r'. fmlookup s i = Some r \<longrightarrow> fmlookup s j = Some r' \<longrightarrow> er_coord r = er_coord r' \<longrightarrow> i = j) \<and>
     symbolCount s < 2 ^ 32"

lemma serializable_chained:
  assumes "serializable str s"
  obtains chs where "chained (fm_entries s) chs"
proof -
  have "\<forall>x \<in> set (fm_entries s). \<exists>ds. positive ds \<and> ds \<noteq> [] \<and> er_coord (snd x) = elias.cat ds"
  proof
    fix x
    assume "x \<in> set (fm_entries s)"
    then have l: "fmlookup s (fst x) = Some (snd x)" using fm_entries_iff [of "fst x" "snd x" s] by simp
    then obtain ds where "positive ds" "er_coord (snd x) = concat (map dEnc ds)" using assms l unfolding serializable_def coded_def by blast
    moreover have "er_coord (snd x) \<noteq> []" using assms l by (auto simp: serializable_def)
    ultimately show "\<exists>ds. positive ds \<and> ds \<noteq> [] \<and> er_coord (snd x) = elias.cat ds" by (auto simp: elias.cat_def)
  qed
  then obtain f where f: "\<And>x. x \<in> set (fm_entries s) \<Longrightarrow> positive (f x) \<and> f x \<noteq> [] \<and> er_coord (snd x) = elias.cat (f x)" by metis
  have "inj_on f (set (fm_entries s))"
  proof (rule inj_onI)
    fix x y
    assume xy: "x \<in> set (fm_entries s)" "y \<in> set (fm_entries s)" "f x = f y"
    then have l: "fmlookup s (fst x) = Some (snd x)" "fmlookup s (fst y) = Some (snd y)"
      using fm_entries_iff [of "fst x" "snd x" s] fm_entries_iff [of "fst y" "snd y" s] by simp_all
    have "er_coord (snd x) = er_coord (snd y)" using f xy by simp
    then have "fst x = fst y" using assms l unfolding serializable_def by blast
    with l show "x = y" by (simp add: prod_eq_iff)
  qed
  moreover have "distinct (map fst (fm_entries s))" by simp
  then have "distinct (fm_entries s)" by (simp only: distinct_map)
  ultimately have "distinct (map f (fm_entries s))" by (simp add: distinct_map)
  moreover have "list_all2 (\<lambda>(i, r) ds. positive ds \<and> ds \<noteq> [] \<and> er_coord r = concat (map dEnc ds)) (fm_entries s) (map f (fm_entries s))"
    using f by (auto simp: list_all2_map2 list_all2_same elias.cat_def)
  ultimately show ?thesis using that by (simp add: chained_def)
qed

lemma plain_concat: "list_all plain_text texts \<Longrightarrow> list_all (\<lambda>s. length s = 1) texts \<Longrightarrow> plain_text (concat texts)"
  by (cases texts) (auto simp: plain_text_def list_all_iff hd_append split: if_splits)

lemma decoded_texts:
  assumes "list_all plain_text texts" and p: "p \<longleftrightarrow> list_all (\<lambda>s. length s = 1) texts"
    and "drop start u8 = (if p then text_bytes (concat texts) else concat (map (\<lambda>s. writeVarint (length (text_bytes s)) @ text_bytes s) texts))"
  shows "(if (if p then 0 else 1) = (0 :: nat) then take_points (length texts) (bytes_text (drop start u8)) else take_texts (length texts) u8 start) = map Some texts"
  using assms text_read [OF plain_concat [OF assms(1)]] take_points_read [of texts] take_texts_read [of start u8 texts] by auto

text \<open>The state the decoder builds from records given in order.\<close>

lemma decoded_entries:
  "length els = length cs \<Longrightarrow>
   fm_entries (foldl (\<lambda>s (i, c, el). fmupd (int i) \<lparr>er_coord = c, er_el = el\<rparr> s) fmempty (zip [1..<length cs + 1] (zip cs els))) =
   zip (map int [1..<length cs + 1]) (map2 (\<lambda>c el. \<lparr>er_coord = c, er_el = el\<rparr>) cs els)"
proof -
  assume l: "length els = length cs"
  let ?xs = "zip (map int [1..<length cs + 1]) (map2 (\<lambda>c el. \<lparr>er_coord = c, er_el = el\<rparr>) cs els)"
  have f: "foldl (\<lambda>s (i, c, el). fmupd (int i) \<lparr>er_coord = c, er_el = el\<rparr> s) s (zip is (zip cs els)) =
      foldl (\<lambda>s (k, v). fmupd k v s) s (zip (map int is) (map2 (\<lambda>c el. \<lparr>er_coord = c, er_el = el\<rparr>) cs els))"
    if "length is = length cs" for s and "is" :: "nat list"
    using that l by (induction "is" cs arbitrary: s els rule: list_induct2) (auto simp: length_Suc_conv)
  have "sorted_wrt (<) (map fst ?xs)" using l by (simp add: sorted_wrt_map del: upt_Suc)
  moreover have "length [1..<length cs + 1] = length cs" by (simp del: upt_Suc)
  ultimately show ?thesis unfolding f [OF \<open>length [1..<length cs + 1] = length cs\<close>] by (intro fm_entries_foldl)
qed

section \<open>Properties\<close>

text \<open>The encoded table, with its bytes and its metadata.\<close>

lemma encode_table:
  assumes "serializable str s" and c: "chained (fm_entries s) chs"
  obtains t e where "buildRunTable (fm_entries s) = Inr t" "encode str (fm_entries s) = Inr e"
    "entries_ok (rt_entries t)" "length (rt_entries t) < 2 ^ 32"
    "entries_items (rt_entries t) = mset (map chain_item (zip (fm_entries s) chs))"
proof -
  obtain t where t: "buildRunTable (fm_entries s) = Inr t" "entries_ok (rt_entries t)"
    "entries_items (rt_entries t) = mset (map chain_item (zip (fm_entries s) chs))"
    "length (rt_entries t) \<le> coord_bits (fm_entries s)" using buildRunTable_chained [OF c] .
  have "coord_bits (fm_entries s) < 2 ^ 32" using assms(1) by (simp add: serializable_def coord_bits_def symbolCount_def)
  then have "length (rt_entries t) < 2 ^ 32" using t(4) by (rule order.strict_trans1 [rotated])
  from that [OF t(1) _ t(2) this t(3)] show ?thesis using t(1) by (simp add: encode_def Let_def)
qed

lemma entry_ok_parent: "entry_ok es i e \<Longrightarrow> re_parent e = Some p \<Longrightarrow> p < i"
  by (simp add: entry_ok_def)

lemma decode_encode:
  assumes ser: "serializable str s" and c: "chained (fm_entries s) chs"
  obtains e m L t where "encode str (fm_entries s) = Inr e" "decode (ec_bytes e) = Inr m"
    "mset L = mset (map chain_item (zip (fm_entries s) chs))" "buildRunTable (fm_entries s) = Inr t"
    "L = live_items (rt_entries t) (run_heads [] (rt_entries t))"
    "\<forall>e \<in> set (rt_entries t). \<forall>m \<in> set (re_members e). (m \<noteq> None) = re_live e"
    "fm_entries m = zip (map int [1..<length L + 1])
       (map (\<lambda>x. \<lparr>er_coord = elias.cat (fst x), er_el = Some (str (snd (snd x)))\<rparr>) L)"
proof -
  obtain t e where t: "buildRunTable (fm_entries s) = Inr t" "encode str (fm_entries s) = Inr e" "entries_ok (rt_entries t)"
    "length (rt_entries t) < 2 ^ 32" "entries_items (rt_entries t) = mset (map chain_item (zip (fm_entries s) chs))"
    using encode_table [OF assms] .
  let ?E = "rt_entries t"
  let ?hs = "run_heads [] ?E" and ?texts = "live_texts str ?E" and ?n = "length ?E"
  let ?p = "list_all (\<lambda>s. length s = 1) ?texts"
  let ?els = "if ?p then text_bytes (concat ?texts) else concat (map (\<lambda>s. writeVarint (length (text_bytes s)) @ text_bytes s) ?texts)"
  let ?bw = "foldl (\<lambda>bw e. encode_run (ref_width ?n) e bw) bw_new ?E"
  define L where "L = live_items ?E ?hs"
  have ent: "entry_ok ?E i (?E ! i)" if "i < ?n" for i using t(3) that by (simp add: entries_ok_def)
  have lv: "\<forall>e \<in> set ?E. \<forall>m \<in> set (re_members e). (m \<noteq> None) = re_live e"
  proof
    fix e
    assume "e \<in> set ?E"
    then obtain i where "i < ?n" "e = ?E ! i" by (auto simp: in_set_conv_nth)
    with ent [of i] show "\<forall>m \<in> set (re_members e). (m \<noteq> None) = re_live e" by (simp add: entry_ok_def)
  qed
  have mL: "mset L = mset (map chain_item (zip (fm_entries s) chs))"
    unfolding L_def live_items_mset [OF lv] t(5) [symmetric] by (simp add: entries_items_def)
  have tx: "?texts = map (\<lambda>x. str (snd (snd x))) L" unfolding L_def by (rule live_texts_items [OF _ lv]) simp
  have plain: "list_all plain_text ?texts"
  proof -
    have "plain_text (str (snd (snd x)))" if "x \<in> set L" for x
    proof -
      from that have "x \<in> chain_item ` set (zip (fm_entries s) chs)" by (simp only: mset_eq_setD [OF mL] set_map)
      then obtain y where y: "y \<in> set (zip (fm_entries s) chs)" "x = chain_item y" by (rule imageE)
      obtain i r ds where "y = ((i, r), ds)" by (metis prod.exhaust)
      with y have "((i, r), ds) \<in> set (zip (fm_entries s) chs)" "x = (ds, i, er_el r)" by simp_all
      then have "fmlookup s i = Some r" "snd (snd x) = er_el r" by (auto simp: fm_entries_iff dest: set_zip_leftD)
      with ser show ?thesis by (auto simp: serializable_def)
    qed
    then show ?thesis by (auto simp: tx list_all_iff)
  qed
  have bytes: "ec_bytes e = writeVarint ?n @ [if ?p then 0 else 1] @ bw_finish ?bw @ ?els"
    using t(1,2) by (auto simp: encode_def Let_def)
  obtain start where st: "drop start (ec_bytes e) = ?els" "byte_at (ec_bytes e) (length (writeVarint ?n)) = (if ?p then 0 else 1)"
    "readVarint (ec_bytes e) 0 0 0 = (?n, length (writeVarint ?n))"
    "read_heads (ec_bytes e) (ref_width ?n) ?n ((length (writeVarint ?n) + 1) * 8) =
       (map head_of ?E, (length (writeVarint ?n) + 1) * 8 + length (meta_bits (ref_width ?n) ?E))"
    "br_align ((length (writeVarint ?n) + 1) * 8 + length (meta_bits (ref_width ?n) ?E)) div 8 = start"
    using decode_encoded [OF t(3,4) refl refl bytes] .
  have heads: "run_coords ?n [] (map head_of ?E) = Inr (map elias.cat ?hs)"
    using run_coords_read [of ?E "[]" ?n] entry_ok_parent [OF ent] by simp
  have coords: "live_coords (zip (map head_of ?E) (map elias.cat ?hs)) = map (elias.cat \<circ> fst) L"
    unfolding L_def by (rule live_coords_items)
  have lt: "length ?texts = length L" by (simp only: tx length_map)
  have els: "(if (if ?p then 0 else 1) = (0 :: nat) then take_points (length L) (bytes_text (drop start (ec_bytes e)))
      else take_texts (length L) (ec_bytes e) start) = map Some ?texts"
    using decoded_texts [OF plain refl st(1)] unfolding lt .
  let ?m = "foldl (\<lambda>s (i, c, el). fmupd (int i) \<lparr>er_coord = c, er_el = el\<rparr> s) fmempty
      (zip [1..<length L + 1] (zip (map (elias.cat \<circ> fst) L) (map Some ?texts)))"
  have "decode (ec_bytes e) = Inr ?m"
    unfolding decode_def st(3) Let_def prod.case st(2,4,5) heads rbind_simps coords length_map els ..
  moreover have "fm_entries ?m = zip (map int [1..<length L + 1])
      (map (\<lambda>x. \<lparr>er_coord = elias.cat (fst x), er_el = Some (str (snd (snd x)))\<rparr>) L)"
    using decoded_entries [of "map Some ?texts" "map (elias.cat \<circ> fst) L"]
    by (simp add: tx zip_map_map comp_def zip_same_conv_map del: upt_Suc)
  ultimately show ?thesis using that [OF t(2) _ mL t(1) L_def lv] by blast
qed

text \<open>The decoded state, from records \<open>L\<close> that are those of the source in some order.\<close>

definition decoded_as :: "('e \<Rightarrow> nat list) \<Rightarrow> (nat list \<times> int \<times> 'e) list \<Rightarrow> nat list option emb \<Rightarrow> bool" where
  "decoded_as str L m \<longleftrightarrow> fm_entries m = zip (map int [1..<length L + 1])
     (map (\<lambda>x. \<lparr>er_coord = elias.cat (fst x), er_el = Some (str (snd (snd x)))\<rparr>) L)"

lemma chained_zip:
  assumes "chained es chs"
  shows "length chs = length es"
    and "x \<in> set (zip es chs) \<Longrightarrow> positive (snd x) \<and> snd x \<noteq> [] \<and> er_coord (snd (fst x)) = elias.cat (snd x)"
    and "distinct chs"
  using assms by (auto simp: chained_def list_all2_iff elias.cat_def)

lemma mset_items: "mset L = mset (map chain_item Z) \<Longrightarrow> mset (map f L) = mset (map (f \<circ> chain_item) Z)"
  using arg_cong [of "mset L" "mset (map chain_item Z)" "image_mset f"] by (simp add: image_mset.compositionality comp_def)

lemma decoded_records:
  assumes c: "chained (fm_entries s) chs" and L: "mset L = mset (map chain_item (zip (fm_entries s) chs))" and m: "decoded_as str L m"
  shows "mset (map (\<lambda>(i, r). (er_coord r, er_el r)) (fm_entries m)) =
    mset (map (\<lambda>(i, r). (er_coord r, Some (str (er_el r)))) (fm_entries s))"
proof -
  let ?Z = "zip (fm_entries s) chs"
  note z = chained_zip [OF c]
  have "mset (map (\<lambda>(i, r). (er_coord r, er_el r)) (fm_entries m)) = mset (map (\<lambda>x. (elias.cat (fst x), Some (str (snd (snd x))))) L)"
    unfolding m [unfolded decoded_as_def] by (rule arg_cong [of _ _ mset], rule nth_equalityI) (simp_all del: upt_Suc)
  also have "\<dots> = mset (map ((\<lambda>x. (er_coord (snd (fst x)), Some (str (er_el (snd (fst x))))))) ?Z)"
    unfolding mset_items [OF L] by (rule arg_cong [of _ _ mset], rule map_cong) (use z(2) in \<open>auto simp: chain_item_def\<close>)
  also have "map ((\<lambda>x. (er_coord (snd (fst x)), Some (str (er_el (snd (fst x))))))) ?Z =
      map (\<lambda>(i, r). (er_coord r, Some (str (er_el r)))) (map fst ?Z)" by (simp add: comp_def case_prod_unfold)
  finally show ?thesis using z(1) by simp
qed

lemma decoded_chained:
  assumes c: "chained (fm_entries s) chs" and L: "mset L = mset (map chain_item (zip (fm_entries s) chs))" and m: "decoded_as str L m"
  shows "chained (fm_entries m) (map fst L)"
proof -
  note z = chained_zip [OF c]
  have "mset (map fst L) = mset (map snd (zip (fm_entries s) chs))" unfolding mset_items [OF L] by (simp add: comp_def chain_item_def)
  then have "mset (map fst L) = mset chs" using z(1) by simp
  then have "distinct (map fst L)" using z(3) by (metis mset_eq_imp_distinct_iff)
  moreover have "x \<in> set L \<Longrightarrow> positive (fst x) \<and> fst x \<noteq> []" for x
    using mset_eq_setD [OF L] z(2) by (auto simp: chain_item_def)
  ultimately show ?thesis
    unfolding chained_def by (auto simp: m [unfolded decoded_as_def] list_all2_conv_all_nth elias.cat_def simp del: upt_Suc)
qed

lemma decoded_reads:
  assumes c: "chained (fm_entries s) chs" and L: "mset L = mset (map chain_item (zip (fm_entries s) chs))" and m: "decoded_as str L m"
  shows "emb_read m = map (\<lambda>el. Some (str el)) (emb_read s)"
proof -
  let ?Z = "zip (fm_entries s) chs"
  let ?P = "map path_el ?Z" and ?g = "\<lambda>x :: nat list \<times> 'a. (fst x, Some (str (snd x)))"
  note cm = decoded_chained [OF assms]
  have pm: "map path_el (zip (fm_entries m) (map fst L)) = map (\<lambda>x. ?g (fst x, snd (snd x))) L"
    by (rule nth_equalityI) (simp_all add: m [unfolded decoded_as_def] path_el_def del: upt_Suc)
  have dP: "distinct (map fst ?P)" using chained_zip(1,3) [OF c] by (simp add: comp_def path_el_def)
  then have dP': "distinct ?P" and inj: "inj_on fst (set ?P)" by (simp_all only: distinct_map)
  have tot: "total_on path_lt (set ?P)"
    using total_on_transfer [of "set ?P" path_lt "\<lambda>x. x" chain_before fst, OF path_lt_def total_on_chains inj] by simp
  have "sort_by path_lt (map path_el (zip (fm_entries m) (map fst L))) = map ?g (sort_by path_lt ?P)"
  proof (rule sort_paths_unique)
    show "distinct (map fst (map path_el (zip (fm_entries m) (map fst L))))"
      unfolding pm using cm by (simp add: comp_def chained_def)
    show "sorted_wrt path_lt (map ?g (sort_by path_lt ?P))"
      unfolding sorted_wrt_map by (rule sorted_wrt_mono_rel [OF _ sorted_sort_by [OF tot dP']]) (simp add: path_lt_def)
    have "inj_on ?g (set ?P)" using inj by (auto simp: inj_on_def)
    then show "distinct (map ?g (sort_by path_lt ?P))" using dP' by (simp add: distinct_map)
    have "set (map (\<lambda>x. ?g (fst x, snd (snd x))) L) = set (map ((\<lambda>x. ?g (fst x, snd (snd x))) \<circ> chain_item) ?Z)"
      by (rule mset_eq_setD [OF mset_items [OF L]])
    then show "set (map ?g (sort_by path_lt ?P)) = set (map path_el (zip (fm_entries m) (map fst L)))"
      unfolding pm by (simp add: image_image path_el_def chain_item_def)
  qed
  then show ?thesis unfolding emb_read_chained [OF cm] emb_read_chained [OF c] by (simp add: comp_def)
qed

lemma encode_decode:
  assumes "serializable str s"
  obtains e m where "encode str (fm_entries s) = Inr e" "decode (ec_bytes e) = Inr m"
    "mset (map (\<lambda>(i, r). (er_coord r, er_el r)) (fm_entries m)) =
      mset (map (\<lambda>(i, r). (er_coord r, Some (str (er_el r)))) (fm_entries s))"
    "emb_read m = map (\<lambda>el. Some (str el)) (emb_read s)"
proof -
  obtain chs where c: "chained (fm_entries s) chs" using serializable_chained [OF assms] .
  obtain e m L t where em: "encode str (fm_entries s) = Inr e" "decode (ec_bytes e) = Inr m"
    "mset L = mset (map chain_item (zip (fm_entries s) chs))" "buildRunTable (fm_entries s) = Inr t"
    "L = live_items (rt_entries t) (run_heads [] (rt_entries t))"
    "\<forall>e \<in> set (rt_entries t). \<forall>m \<in> set (re_members e). (m \<noteq> None) = re_live e"
    "fm_entries m = zip (map int [1..<length L + 1])
       (map (\<lambda>x. \<lparr>er_coord = elias.cat (fst x), er_el = Some (str (snd (snd x)))\<rparr>) L)"
    using decode_encode [OF assms c] .
  have d: "decoded_as str L m" unfolding decoded_as_def by (rule em(7))
  from that [OF em(1,2) decoded_records [OF c em(3) d] decoded_reads [OF c em(3) d]] show ?thesis .
qed

text \<open>So the losslessness gate of the code passes on every such state of texts.\<close>

lemma roundTripReads_true: "serializable (\<lambda>s. s) s \<Longrightarrow> roundTripReads s = Inr True"
proof -
  assume "serializable (\<lambda>s. s) s"
  then obtain e m where "encode (\<lambda>s. s) (fm_entries s) = Inr e" "decode (ec_bytes e) = Inr m" "emb_read m = map Some (emb_read s)"
    by (rule encode_decode) simp
  then show ?thesis by (simp add: roundTripReads_def Let_def)
qed

section \<open>The accounting\<close>

lemma read_bits_pos: "read_bits k v bs = Inr (x, rest) \<Longrightarrow> 1 \<le> v \<Longrightarrow> 1 \<le> x"
  by (induction k v bs rule: read_bits.induct) auto

lemma decodeOne_pos: "decodeOne coord = Inr (d, rest) \<Longrightarrow> 1 \<le> d"
  by (auto simp: decodeOne_def Let_def rbind_pair_Inr split: list.splits if_splits dest: read_bits_pos)

lemma decodeChain_pos: "decodeChain coord = Inr ds \<Longrightarrow> positive ds"
proof (induction coord arbitrary: ds rule: decodeChain.induct)
  case (1 coord)
  show ?case
  proof (cases "coord = []")
    case False
    with "1.prems" obtain d rest es where d: "decodeOne coord = Inr (d, rest)" "decodeChain rest = Inr es" "ds = d # es"
      by (subst (asm) decodeChain.simps) (auto simp: rbind_eq_Inr)
    from "1.IH" [OF False d(1), of es] d decodeOne_pos [OF d(1)] show ?thesis by simp
  qed (use "1.prems" in \<open>simp add: decodeChain.simps\<close>)
qed

lemma coordTree_ok: "coordTree es = Inr root \<Longrightarrow> k_ok root"
  unfolding coordTree_def
  by (erule foldM_invariant [where I = k_ok]) (auto simp: rbind_eq_Inr intro!: k_ok_put dest!: decodeChain_pos)

lemma buildRunTable_total:
  assumes "coordTree es = Inr root"
  obtains t where "buildRunTable es = Inr t" "entries_ok (rt_entries t)"
proof -
  let ?st = "rev (map (\<lambda>k. (k, None, 0)) (k_kids root)) :: 'a pending list"
  have "stack_ok [] ?st" using coordTree_ok [OF assms, unfolded k_ok_kids [of root] kids_ok_def]
    by (auto simp: stack_ok_def place_ok_def)
  from run_loop_table [OF this, of "[]"] have ok: "entries_ok (rt_entries (run_loop ?st [] []))" by (simp add: entries_ok_def)
  from that [OF _ ok] show ?thesis using assms tail_attached_ok [OF ok] by (simp add: buildRunTable_def Let_def)
qed

lemma bw_total_bit [simp]: "bw_total (bw_bit b w) = bw_total w + 1"
  by (simp add: bw_bit_def Let_def)

lemma bw_total_code: "bw_total (bw_code cs w) = bw_total w + length cs"
  unfolding bw_code_def by (induction cs arbitrary: w) simp_all

lemma bw_total_uint: "bw_total (bw_uint v n w) = bw_total w + n"
  by (induction n arbitrary: w) simp_all

lemma bitLength_bin: "1 \<le> n \<Longrightarrow> bitLength n = length (bin n)"
proof (induction n rule: bitLength.induct)
  case (1 n)
  show ?case
  proof (cases "n < 2")
    case True
    with "1.prems" have "n = 1" by simp
    then show ?thesis by (simp add: bitLength.simps bin.simps)
  next
    case False
    then have "bitLength (n div 2) = length (bin (n div 2))" using 1 by simp
    then show ?thesis using False "1.prems" by (subst bitLength.simps, subst bin.simps) simp
  qed
qed

lemma bitsD_length: "1 \<le> d \<Longrightarrow> bitsD d = int (length (dEnc d))"
proof -
  assume d: "1 \<le> d"
  then have l: "1 \<le> length (bin d)" using bin_spec [of d] by (cases "bin d") auto
  then have "1 \<le> length (bin (length (bin d)))" using bin_spec [of "length (bin d)"] by (cases "bin (length (bin d))") auto
  then show ?thesis using l d by (simp add: bitsD_def Let_def bitLength_bin dEnc_def binEnc_length of_nat_diff)
qed

lemma bw_total_run:
  assumes "1 \<le> re_delta e" and "re_members e \<noteq> []"
  shows "int (bw_total (encode_run w e bw)) = int (bw_total bw) + 1 + int w + bitsD (re_delta e) + bitsD (length (re_members e))"
  using assms by (simp add: encode_run_def bw_total_code bw_total_uint bitsD_length Suc_le_eq)

lemma bw_total_runs:
  "\<forall>e \<in> set es. 1 \<le> re_delta e \<and> re_members e \<noteq> [] \<Longrightarrow>
   int (bw_total (foldl (\<lambda>bw e. encode_run w e bw) bw es)) = int (bw_total bw) + int (length es) + int (length es * w) +
     sum_list (map (\<lambda>e. bitsD (re_delta e)) es) + sum_list (map (\<lambda>e. bitsD (length (re_members e))) es)"
  by (induction es arbitrary: bw) (simp_all add: bw_total_run algebra_simps)

section \<open>Properties\<close>

text \<open>C27: the serializer loses nothing. A state whose records have coded coordinates of their own and texts the
  decoder keeps is encoded, the bytes decode to a state with exactly the same elements, as texts, under the
  same coordinates, and both read the same sequence.\<close>

theorem serializer_lossless:
  assumes "serializable str s"
  shows "\<exists>e m. encode str (fm_entries s) = Inr e \<and> decode (ec_bytes e) = Inr m \<and>
    mset (map (\<lambda>(i, r). (er_coord r, er_el r)) (fm_entries m)) =
      mset (map (\<lambda>(i, r). (er_coord r, Some (str (er_el r)))) (fm_entries s)) \<and>
    emb_read m = map (\<lambda>el. Some (str el)) (emb_read s)"
  by (rule encode_decode [OF assms]) blast

text \<open>An anchor with two dead levels below it, one of them fused, and texts of one and two code points.\<close>

definition text_state :: "nat list emb" where
  "text_state = fmap_of_list [(1, \<lparr>er_coord = concat (map dEnc [1]), er_el = [72]\<rparr>),
     (9, \<lparr>er_coord = concat (map dEnc [1, 1, 3]), er_el = [233]\<rparr>), (5, \<lparr>er_coord = concat (map dEnc [5]), er_el = [104, 105]\<rparr>)]"

lemma text_state_serializable: "serializable (\<lambda>s. s) text_state"
proof -
  have e: "dEnc 1 = [0]" "dEnc 3 = [1, 0, 0, 1]" "dEnc 5 = [1, 0, 1, 0, 1]" by code_simp+
  have l: "fmlookup text_state i = Some r \<longleftrightarrow> (i, r) \<in> {(1, \<lparr>er_coord = concat (map dEnc [1]), er_el = [72]\<rparr>),
     (9, \<lparr>er_coord = concat (map dEnc [1, 1, 3]), er_el = [233]\<rparr>), (5, \<lparr>er_coord = concat (map dEnc [5]), er_el = [104, 105]\<rparr>)}" for i r
    by (auto simp: text_state_def split: if_splits)
  have "coded text_state" unfolding coded_def l
    by (auto intro: exI [of _ "[1]"] exI [of _ "[1, 1, 3]"] exI [of _ "[5]"] simp del: list.map concat.simps)
  moreover have "symbolCount text_state < 2 ^ 32"
  proof -
    have "symbolCount text_state = 12" by code_simp
    then show ?thesis by simp
  qed
  ultimately show ?thesis
    unfolding serializable_def l by (auto simp: e [unfolded One_nat_def] plain_text_def scalar_def high_surrogate_def low_surrogate_def)
qed

lemma serializer_lossless_witness:
  "serializable (\<lambda>s. s) text_state \<and> emb_read text_state = [[104, 105], [72], [233]] \<and>
   (\<exists>e m. encode (\<lambda>s. s) (fm_entries text_state) = Inr e \<and> decode (ec_bytes e) = Inr m \<and>
     emb_read m = [Some [104, 105], Some [72], Some [233]])"
proof -
  have r: "emb_read text_state = [[104, 105], [72], [233]]" by code_simp
  from serializer_lossless [OF text_state_serializable] r text_state_serializable show ?thesis by auto
qed

text \<open>C31: the table and its accounting. Building the table throws exactly when a coordinate does not decode,
  with that exception: the check that every run attaches at the tail of its parent never fails. The metadata of
  the encoding then has as many bits as the accounting charges, less the three positional fields that are not
  stored.\<close>

theorem run_table_accounting:
  "case coordTree es of
     Inl x \<Rightarrow> buildRunTable es = Inl x \<and> encode str es = Inl x
   | Inr root \<Rightarrow> \<exists>t e. buildRunTable es = Inr t \<and> encode str es = Inr e \<and>
       int (ec_metaBits e) = ac_total (accountingBits t) - ac_rec_id (accountingBits t) - ac_rec_off (accountingBits t) -
         ac_hdr_poff (accountingBits t)"
proof (cases "coordTree es")
  case (Inl x)
  then show ?thesis by (simp add: buildRunTable_def encode_def)
next
  case (Inr root)
  then obtain t where t: "buildRunTable es = Inr t" "entries_ok (rt_entries t)" by (rule buildRunTable_total)
  have "\<forall>e \<in> set (rt_entries t). 1 \<le> re_delta e \<and> re_members e \<noteq> []"
    using t(2) by (auto simp: entries_ok_def entry_ok_def in_set_conv_nth)
  from bw_total_runs [OF this] have "int (bw_total (foldl (\<lambda>bw e. encode_run (ref_width (length (rt_entries t))) e bw) bw_new (rt_entries t))) =
      ac_total (accountingBits t) - ac_rec_id (accountingBits t) - ac_rec_off (accountingBits t) - ac_hdr_poff (accountingBits t)"
    by (simp add: bw_new_def accountingBits_def Let_def)
  then show ?thesis using t(1) Inr by (simp add: encode_def Let_def)
qed

end
