(* ===== verification/SnapshotSound.thy ===== *)
theory SnapshotSound
  imports CompactPeritext SerializeSound
begin

text \<open>
  The snapshot of version 2 of a compactible rich text: base64 of bytes, the ids as differences in the
  element order of the run table, and the round trip of a whole state under its true ids.
\<close>

section \<open>Base64\<close>

lemma b64_value_digit: "k < 64 \<Longrightarrow> b64_value (b64_digit k) = Some k"
proof -
  assume k: "k < 64"
  have "list_all (\<lambda>k. b64_value (b64_digit k) = Some k) [0..<64]" by code_simp
  then show ?thesis using k by (simp add: list_all_iff)
qed

lemma b64_digit_plain: "k < 64 \<Longrightarrow> b64_digit k \<notin> {CHR 0x09, CHR 0x0A, CHR 0x0C, CHR 0x0D, CHR 0x20} \<and> b64_digit k \<noteq> CHR ''=''"
proof -
  assume k: "k < 64"
  have "list_all (\<lambda>k. b64_digit k \<notin> {CHR 0x09, CHR 0x0A, CHR 0x0C, CHR 0x0D, CHR 0x20} \<and> b64_digit k \<noteq> CHR ''='') [0..<64]"
    by code_simp
  then show ?thesis using k by (simp add: list_all_iff)
qed

text \<open>The digits of a byte string and the padding after them.\<close>

fun sextets :: "nat list \<Rightarrow> nat list" where
  "sextets [] = []"
| "sextets [a] = [a div 4, a mod 4 * 16]"
| "sextets [a, b] = [a div 4, a mod 4 * 16 + b div 16, b mod 16 * 4]"
| "sextets (a # b # c # bs) = [a div 4, a mod 4 * 16 + b div 16, b mod 16 * 4 + c div 64, c mod 64] @ sextets bs"

definition bytes :: "nat list \<Rightarrow> bool" where
  "bytes bs \<longleftrightarrow> list_all (\<lambda>b. b < 256) bs"

lemma bytes_simps [simp]:
  "bytes []" "bytes (b # bs) \<longleftrightarrow> b < 256 \<and> bytes bs" "bytes (bs @ cs) \<longleftrightarrow> bytes bs \<and> bytes cs"
  by (simp_all add: bytes_def)

lemma bytes_concat: "bytes (concat bss) \<longleftrightarrow> (\<forall>bs \<in> set bss. bytes bs)"
  by (induction bss) auto

lemma sextets_small: "bytes bs \<Longrightarrow> list_all (\<lambda>k. k < 64) (sextets bs)"
proof (induction bs rule: sextets.induct)
  case (4 a b c bs)
  have "a mod 4 * 16 + b div 16 < 64" "b mod 16 * 4 + c div 64 < 64" if "b < 256" "c < 256" using that by arith+
  with 4 show ?case by auto
next
  case (3 a b)
  have "a mod 4 * 16 + b div 16 < 64" if "b < 256" using that by arith
  moreover have "b mod 16 * 4 < 64" by arith
  ultimately show ?case using 3 by auto
next
  case (2 a)
  have "a mod 4 * 16 < 64" by arith
  with 2 show ?case by auto
qed simp

lemma b64encode_sextets:
  "\<exists>n \<le> 2. b64encode bs = map b64_digit (sextets bs) @ replicate n (CHR ''='') \<and> length (b64encode bs) mod 4 = 0"
proof (induction bs rule: b64encode.induct)
  case (2 a)
  show ?case by (intro exI [of _ 2]) (simp add: numeral_2_eq_2)
next
  case (3 a b)
  show ?case by (intro exI [of _ 1]) simp
next
  case (4 a b c bs)
  then obtain n where "n \<le> 2 \<and> b64encode bs = map b64_digit (sextets bs) @ replicate n (CHR ''='') \<and> length (b64encode bs) mod 4 = 0"
    by (rule exE)
  then show ?case by (elim conjE, intro exI [of _ n]) (simp add: mod_Suc)
qed (intro exI [of _ 0], simp)

lemma unpad_digits:
  assumes "list_all (\<lambda>k. k < 64) ks" and "n \<le> 2" and "(length ks + n) mod 4 = 0"
  shows "b64_unpad (map b64_digit ks @ replicate n (CHR ''='')) = map b64_digit ks"
proof (cases ks rule: rev_cases)
  case Nil
  then have "n = 0" using assms(2,3) by auto
  then show ?thesis using Nil by (simp add: b64_unpad_def)
next
  case (snoc js k)
  then have k: "b64_digit k \<noteq> CHR ''=''" using assms(1) b64_digit_plain by simp
  have s: "rev (map b64_digit ks) = b64_digit k # rev (map b64_digit js)" by (simp add: snoc)
  consider "n = 0" | "n = 1" | "n = 2" using assms(2) by linarith
  then show ?thesis
  proof cases
    case 1
    then show ?thesis using k s assms(3) by (cases "rev (map b64_digit js)") (simp_all add: b64_unpad_def snoc)
  next
    case 2
    then show ?thesis using k s assms(3) by (simp add: b64_unpad_def snoc)
  next
    case 3
    then show ?thesis using k s assms(3) by (simp add: b64_unpad_def snoc numeral_2_eq_2)
  qed
qed

lemma glued:
  fixes x y k :: nat
  assumes "y < k"
  shows "(x * k + y) div k = x" "(x * k + y) mod k = y"
  using assms by simp_all

lemma b64_groups_sextets: "bytes bs \<Longrightarrow> b64_groups (sextets bs) = Inr bs"
proof (induction bs rule: sextets.induct)
  case (3 a b)
  then have b: "b div 16 < 16" by auto
  then have "b div 16 * 16 + b mod 16 = b" by simp
  then show ?case using glued [OF b] b by simp
next
  case (4 a b c bs)
  then have b: "b div 16 < 16" and c: "c div 64 < 4" by auto
  then have "b div 16 * 16 + b mod 16 = b" "c div 64 * 64 + c mod 64 = c" by simp_all
  then show ?case using 4 glued [OF b] glued [OF c] b c by simp
qed simp_all

lemma b64_roundtrip: "bytes bs \<Longrightarrow> b64decode (b64encode bs) = Inr bs"
proof -
  assume b: "bytes bs"
  obtain n where "n \<le> 2 \<and> b64encode bs = map b64_digit (sextets bs) @ replicate n (CHR ''='') \<and> length (b64encode bs) mod 4 = 0"
    by (rule exE [OF b64encode_sextets])
  note n = conjunct1 [OF this] conjunct1 [OF conjunct2 [OF this]] conjunct2 [OF conjunct2 [OF this]]
  note small = sextets_small [OF b, unfolded list_all_iff, rule_format]
  have f: "filter (\<lambda>c. c \<notin> {CHR 0x09, CHR 0x0A, CHR 0x0C, CHR 0x0D, CHR 0x20}) (b64encode bs) = b64encode bs"
    unfolding n(2) by (rule filter_True) (use b64_digit_plain small in auto)
  have u: "b64_unpad (b64encode bs) = map b64_digit (sextets bs)"
    unfolding n(2) by (rule unpad_digits [OF sextets_small [OF b] n(1)]) (use arg_cong [OF n(2), of length] n(3) in simp)
  have "mapM (\<lambda>c. case b64_value c of Some k \<Rightarrow> Inr k | None \<Rightarrow> Inl (Error ''InvalidCharacterError''))
      (map b64_digit ks) = Inr ks" if "\<forall>k \<in> set ks. k < 64" for ks using that by (induction ks) (simp_all add: b64_value_digit)
  then show ?thesis unfolding b64decode_def f u using small b64_groups_sextets [OF b] by simp
qed

section \<open>Ids as differences\<close>

lemma unzig_zig: "unzig (zig n) = n"
proof (cases "n < 0")
  case True
  define k where "k = nat (- n - 1)"
  have k: "n = - int k - 1" using True by (simp add: k_def)
  have "zig n = nat (2 * int k + 1)" using True by (simp add: zig_def k)
  also have "\<dots> = 2 * k + 1" by linarith
  finally have "zig n = 2 * k + 1" .
  then show ?thesis by (simp add: unzig_def k)
next
  case False
  then obtain k where "n = int k" by (metis nonneg_int_cases not_less)
  then have "zig n = 2 * k" by (simp add: zig_def nat_mult_distrib)
  then show ?thesis using \<open>n = int k\<close> by (simp add: unzig_def)
qed

lemma writeVar_writeVarint: "writeVar n = writeVarint n"
proof (induction n rule: writeVar.induct)
  case (1 n)
  then show ?case by (subst writeVar.simps, subst writeVarint.simps) simp
qed

lemma read_ids_gaps: "drop i u8 = id_gaps prev ids \<Longrightarrow> read_ids u8 i prev = ids"
proof (induction ids arbitrary: i prev)
  case Nil
  then show ?case by (simp add: read_ids.simps)
next
  case (Cons x xs)
  then have d: "drop i u8 = writeVarint (zig (x - prev)) @ id_gaps x xs" by (simp add: writeVar_writeVarint)
  then have "drop i u8 \<noteq> []" by (subst (asm) writeVarint.simps) (auto split: if_splits)
  then have i: "i < length u8" by simp
  have r: "readVarint u8 0 0 i = (zig (x - prev), i + length (writeVarint (zig (x - prev))))"
    using readVarint_read [OF d, of 0 0] by simp
  have "drop (i + length (writeVarint (zig (x - prev)))) u8 = id_gaps x xs"
    using arg_cong [OF d, of "drop (length (writeVarint (zig (x - prev))))"] by (simp add: add.commute)
  from Cons.IH [OF this] show ?case using i by (subst read_ids.simps) (simp add: r unzig_zig Let_def)
qed

section \<open>The bytes written are bytes\<close>

lemma bytes_varint: "bytes (writeVarint n)"
proof (induction n rule: writeVarint.induct)
  case (1 n)
  have "n mod 128 + 128 < 256" by simp
  with 1 show ?case by (subst writeVarint.simps) auto
qed

lemma bytes_gaps: "bytes (id_gaps prev ids)"
  by (induction ids arbitrary: prev) (simp_all add: writeVar_writeVarint bytes_varint)

definition bw_bytes_ok :: "bitWriter \<Rightarrow> bool" where
  "bw_bytes_ok w \<longleftrightarrow> bytes (bw_bytes w) \<and> bw_nbits w < 8 \<and> bw_cur w < 2 ^ bw_nbits w"

lemma bw_bytes_bit: "bw_bytes_ok w \<Longrightarrow> bw_bytes_ok (bw_bit b w)"
proof -
  assume w: "bw_bytes_ok w"
  then have "2 * bw_cur w + b mod 2 < 2 ^ (bw_nbits w + 1)" by (auto simp: bw_bytes_ok_def)
  moreover have "bw_nbits w + 1 = 8 \<Longrightarrow> (2 :: nat) ^ (bw_nbits w + 1) = 256" by simp
  ultimately show ?thesis using w by (auto simp: bw_bytes_ok_def bw_bit_def Let_def)
qed

lemma bw_bytes_code: "bw_bytes_ok w \<Longrightarrow> bw_bytes_ok (bw_code cs w)"
  unfolding bw_code_def by (induction cs arbitrary: w) (simp_all add: bw_bytes_bit)

lemma bw_bytes_uint: "bw_bytes_ok w \<Longrightarrow> bw_bytes_ok (bw_uint v n w)"
  by (induction n arbitrary: w) (simp_all add: bw_bytes_bit)

lemma bw_bytes_runs: "bw_bytes_ok w \<Longrightarrow> bw_bytes_ok (foldl (\<lambda>bw e. encode_run k e bw) w es)"
  by (induction es arbitrary: w) (simp_all add: encode_run_def bw_bytes_code bw_bytes_uint bw_bytes_bit)

lemma bytes_finish: "bw_bytes_ok w \<Longrightarrow> bytes (bw_finish w)"
proof -
  assume w: "bw_bytes_ok w"
  have "bw_cur w * 2 ^ (8 - bw_nbits w) < 2 ^ bw_nbits w * 2 ^ (8 - bw_nbits w)" using w by (simp add: bw_bytes_ok_def)
  also have "(2 :: nat) ^ bw_nbits w * 2 ^ (8 - bw_nbits w) = 256"
    using w unfolding power_add [symmetric] by (simp add: bw_bytes_ok_def)
  finally show ?thesis using w by (auto simp: bw_finish_def bw_bytes_ok_def)
qed

lemma bytes_point: "c < 0x110000 \<Longrightarrow> bytes (point_bytes c)"
proof -
  assume "c < 0x110000"
  then have "c div 262144 \<le> 4" "c < 0x800 \<Longrightarrow> c div 64 < 32" "c < 0x10000 \<Longrightarrow> c div 4096 < 16" by (simp_all add: div_le_mono less_mult_imp_div_less)
  moreover have "c mod 64 < 64" "c div 64 mod 64 < 64" "c div 4096 mod 64 < 64" by simp_all
  ultimately show ?thesis by (auto simp: point_bytes_def)
qed

lemma bytes_text: "bytes (text_bytes cs)"
proof -
  have r: "replaced c < 0x110000" for c by (simp add: replaced_def scalar_def)
  have "\<forall>x \<in> set (scalars cs). x < 0x110000"
  proof (induction cs rule: scalars.induct)
    case (3 h l cs)
    then show ?case using r by (auto simp: high_surrogate_def low_surrogate_def)
  qed (use r in auto)
  then show ?thesis unfolding text_bytes_def bytes_concat using bytes_point by auto
qed

lemma encoded_bytes: "encode str es = Inr e \<Longrightarrow> bytes (ec_bytes e)"
proof -
  assume e: "encode str es = Inr e"
  then obtain t where t: "buildRunTable es = Inr t" by (auto simp: encode_def rbind_eq_Inr)
  have "ec_bytes e = writeVarint (length (rt_entries t)) @
      [if list_all (\<lambda>s. length s = 1) (live_texts str (rt_entries t)) then 0 else 1] @
      bw_finish (foldl (\<lambda>bw e. encode_run (ref_width (length (rt_entries t))) e bw) bw_new (rt_entries t)) @
      (if list_all (\<lambda>s. length s = 1) (live_texts str (rt_entries t)) then text_bytes (concat (live_texts str (rt_entries t)))
       else concat (map (\<lambda>s. writeVarint (length (text_bytes s)) @ text_bytes s) (live_texts str (rt_entries t))))"
    using e t by (auto simp: encode_def Let_def)
  moreover have "bw_bytes_ok bw_new" by (simp add: bw_bytes_ok_def bw_new_def)
  ultimately show ?thesis
    by (auto simp: bytes_varint bytes_text bytes_concat bytes_finish bw_bytes_runs)
qed

section \<open>The round trip\<close>

text \<open>The ids of the sidecar are those of the elements in the order of the table.\<close>

lemma run_items_ids: "\<forall>m \<in> set ms. m \<noteq> None \<Longrightarrow> map member_id ms = map (\<lambda>x. fst (snd x)) (run_items h ms)"
proof (induction ms arbitrary: h)
  case (Cons m ms)
  then show ?case by (auto simp: run_items_Cons member_id_def)
qed (simp add: run_items_def)

lemma live_items_ids:
  "length hs = length es \<Longrightarrow> \<forall>e \<in> set es. \<forall>m \<in> set (re_members e). (m \<noteq> None) = re_live e \<Longrightarrow>
   concat (map (\<lambda>e. map member_id (re_members e)) (filter re_live es)) = map (\<lambda>x. fst (snd x)) (live_items es hs)"
proof (induction es hs rule: live_items.induct)
  case (1 e es h hs)
  then show ?case using run_items_ids [of "re_members e" h] by simp
qed simp_all

text \<open>Filing the decoded records under those ids gives the records of the state under its own.\<close>

definition decoded_rec :: "('e \<Rightarrow> nat list) \<Rightarrow> 'e erec \<Rightarrow> nat list option erec" where
  "decoded_rec str r = \<lparr>er_coord = er_coord r, er_el = Some (str (er_el r))\<rparr>"

lemma filed_records:
  assumes c: "chained (fm_entries s) chs" and L: "mset L = mset (map chain_item (zip (fm_entries s) chs))"
  shows "foldl (\<lambda>out (i, r). fmupd i r out) fmempty
      (map (\<lambda>x. (fst (snd x), \<lparr>er_coord = elias.cat (fst x), er_el = Some (str (snd (snd x)))\<rparr>)) L) = fmmap (decoded_rec str) s"
proof -
  let ?Z = "zip (fm_entries s) chs" and ?f = "\<lambda>x :: nat list \<times> int \<times> 'a. (fst (snd x), \<lparr>er_coord = elias.cat (fst x), er_el = Some (str (snd (snd x)))\<rparr>)"
  let ?E = "map (\<lambda>(i, r). (i, decoded_rec str r)) (fm_entries s)"
  note z = chained_zip [OF c]
  have "mset (map ?f L) = mset (map (\<lambda>x. (fst (fst x), decoded_rec str (snd (fst x)))) ?Z)"
    unfolding mset_items [OF L] by (rule arg_cong [of _ _ mset], rule map_cong) (use z(2) in \<open>auto simp: chain_item_def decoded_rec_def\<close>)
  also have "map (\<lambda>x. (fst (fst x), decoded_rec str (snd (fst x)))) ?Z = map (\<lambda>(i, r). (i, decoded_rec str r)) (map fst ?Z)"
    by (simp add: comp_def case_prod_unfold)
  finally have m: "mset (map ?f L) = mset ?E" using z(1) by simp
  have dE: "distinct (map fst ?E)" by (simp add: comp_def split_def)
  have "mset (map fst (map ?f L)) = mset (map fst ?E)" using arg_cong [OF m, of "image_mset fst"] by (simp only: mset_map)
  then have dL: "distinct (map fst (map ?f L))" using dE mset_eq_imp_distinct_iff by blast
  have mo: "map_of (map ?f L) = map_of ?E" using map_of_inject_set [OF dL dE] mset_eq_setD [OF m] by blast
  have fl: "foldl (\<lambda>out (i, r). fmupd i r out) fmempty xs = foldl (\<lambda>m x. fmupd (fst x) (snd x) m) fmempty xs" for xs :: "(int \<times> nat list option erec) list"
    by (simp add: split_def)
  show ?thesis
  proof (rule fmap_ext)
    fix i
    have "fmlookup (foldl (\<lambda>out (i, r). fmupd i r out) fmempty (map ?f L)) i = map_of (map ?f L) i"
      unfolding fl using lookup_updates [OF dL, of "\<lambda>_ r. r" fmempty i] by (simp split: option.split)
    also have "\<dots> = map_option (decoded_rec str) (fmlookup s i)" unfolding mo by (simp add: map_of_map)
    finally show "fmlookup (foldl (\<lambda>out (i, r). fmupd i r out) fmempty (map ?f L)) i = fmlookup (fmmap (decoded_rec str) s) i" by simp
  qed
qed

lemma filed_marks:
  assumes "\<forall>k m. fmlookup ms k = Some m \<longrightarrow> mk_mid m = k"
  shows "foldl (\<lambda>m k. fmupd (mk_mid k) k m) fmempty (map snd (fm_entries ms)) = ms"
proof -
  have e: "mk_mid (snd x) = fst x" if "x \<in> set (fm_entries ms)" for x
    using that assms fm_entries_iff [of "fst x" "snd x" ms] by simp
  have "foldl (\<lambda>m k. fmupd (mk_mid k) k m) fmempty (map snd (fm_entries ms)) = foldl (\<lambda>m x. fmupd (fst x) (snd x) m) fmempty (fm_entries ms)"
    unfolding foldl_map by (rule foldl_cong) (simp_all add: e)
  moreover have "fmlookup (foldl (\<lambda>m x. fmupd (fst x) (snd x) m) fmempty (fm_entries ms)) i = fmlookup ms i" for i
    using lookup_updates [of "fm_entries ms" "\<lambda>_ r. r" fmempty i] by (simp split: option.split)
  ultimately show ?thesis by (simp add: fmap_ext)
qed

lemma filed_ids: "foldl (\<lambda>g i. finsert i g) {||} (sorted_list_of_fset s) = (s :: 'a::linorder fset)"
proof -
  have "fset (foldl (\<lambda>g i. finsert i g) t xs) = fset t \<union> set xs" for t :: "'a fset" and xs
    by (induction xs arbitrary: t) auto
  from this [of "{||}" "sorted_list_of_fset s"] show ?thesis by (simp add: fset_inject [symmetric] sorted_list_of_fset.rep_eq)
qed

text \<open>C14: the compact snapshot loses nothing. A rich text over a serializable sequence whose marks are filed under
  their ids is encoded, and decoding gives back the state: every record under its own id, with its coordinate and its
  text, the deleted ids and the marks.\<close>

theorem snapshot_v2_roundtrip:
  assumes "serializable str (ps_shadow state)" and "\<forall>k m. fmlookup (ps_marks state) k = Some m \<longrightarrow> mk_mid m = k"
  shows "\<exists>enc. cp_encodeState str state = Inr enc \<and>
    cp_decodeState enc = Inr \<lparr>ps_shadow = fmmap (decoded_rec str) (ps_shadow state), ps_deleted = ps_deleted state, ps_marks = ps_marks state\<rparr>"
proof -
  let ?s = "ps_shadow state"
  obtain chs where c: "chained (fm_entries ?s) chs" using serializable_chained [OF assms(1)] .
  obtain e m L t where em: "encode str (fm_entries ?s) = Inr e" "decode (ec_bytes e) = Inr m"
    "mset L = mset (map chain_item (zip (fm_entries ?s) chs))" "buildRunTable (fm_entries ?s) = Inr t"
    "L = live_items (rt_entries t) (run_heads [] (rt_entries t))"
    "\<forall>e \<in> set (rt_entries t). \<forall>m \<in> set (re_members e). (m \<noteq> None) = re_live e"
    "fm_entries m = zip (map int [1..<length L + 1])
       (map (\<lambda>x. \<lparr>er_coord = elias.cat (fst x), er_el = Some (str (snd (snd x)))\<rparr>) L)"
    using decode_encode [OF assms(1) c] .
  let ?ids = "map (\<lambda>x. fst (snd x)) L"
  have ids: "idSidecar ?s = Inr (b64encode (id_gaps 0 ?ids))"
    unfolding em(5) using live_items_ids [OF _ em(6), of "run_heads [] (rt_entries t)"] em(4)
    by (simp add: idSidecar_def)
  have "read_ids (id_gaps 0 ?ids) 0 0 = ?ids" by (rule read_ids_gaps) simp
  moreover have "length (fm_entries m) = length ?ids" unfolding em(7) by (simp del: upt_Suc)
  moreover have "zip ?ids (map snd (fm_entries m)) = map (\<lambda>x. (fst (snd x), \<lparr>er_coord = elias.cat (fst x), er_el = Some (str (snd (snd x)))\<rparr>)) L"
    unfolding em(7) by (rule nth_equalityI) (simp_all del: upt_Suc)
  ultimately have rk: "rekeyShadow m (b64encode (id_gaps 0 ?ids)) = Inr (fmmap (decoded_rec str) ?s)"
    unfolding rekeyShadow_def b64_roundtrip [OF bytes_gaps] rbind_simps Let_def by (simp add: filed_records [OF c em(3)])
  show ?thesis
    unfolding cp_encodeState_def em(1) ids rbind_simps
    by (rule exI, rule conjI [OF refl])
      (simp add: cp_decodeState_def b64_roundtrip [OF encoded_bytes [OF em(1)]] em(2) rk filed_ids filed_marks [OF assms(2)])
qed

text \<open>The state of three elements with a deleted one and a mark.\<close>

definition saved_state :: "(nat list emb, nat, nat) peri" where
  "saved_state = \<lparr>ps_shadow = text_state, ps_deleted = {|5|}, ps_marks = fmap_of_list [(11, \<lparr>mk_mid = 11, mk_mtype = 0, mk_value = Some 7,
     mk_startId = 1, mk_endId = 9, mk_startSide = Before, mk_endSide = After, mk_ts = 11, mk_removed = False\<rparr>)]\<rparr>"

theorem snapshot_v2_roundtrip_witness:
  "serializable (\<lambda>s. s) (ps_shadow saved_state) \<and>
   (\<exists>enc. cp_encodeState (\<lambda>s. s) saved_state = Inr enc \<and> map_option fm_keys (case cp_decodeState enc of Inr s \<Rightarrow> Some (ps_shadow s) | Inl _ \<Rightarrow> None) = Some [1, 5, 9])"
proof -
  have s: "serializable (\<lambda>s. s) (ps_shadow saved_state)" using text_state_serializable by (simp add: saved_state_def)
  moreover have "\<forall>k m. fmlookup (ps_marks saved_state) k = Some m \<longrightarrow> mk_mid m = k" by (auto simp: saved_state_def split: if_splits)
  moreover have "fm_keys (fmmap (decoded_rec (\<lambda>s. s)) (ps_shadow saved_state)) = [1, 5, 9]" by code_simp
  ultimately show ?thesis using snapshot_v2_roundtrip [of "\<lambda>s. s" saved_state] by auto
qed

end
