(* ===== verification/PeritextMarks.thy ===== *)
theory PeritextMarks
  imports CompactPeritext PeritextRender
begin

text \<open>
  What both compactions of rich text rest on, for any sequence kernel: a mark whose boundaries are kept covers
  the same characters when only dead births go, a guarded pair of marks shows nothing, and so the reading of a
  state with fewer births and without such pairs is the reading of the state.
\<close>

section \<open>Restricting a map\<close>

lemma fm_keys_fmfilter: "fm_keys (fmfilter P s) = filter P (fm_keys s)"
proof (rule sorted_distinct_set_unique)
  show "set (fm_keys (fmfilter P s)) = set (filter P (fm_keys s))" unfolding set_filter set_fm_keys by auto
qed (use fm_keys_sorted [of s] fm_keys_sorted [of "fmfilter P s"] in \<open>auto simp: strict_sorted_iff sorted_wrt_filter\<close>)

lemma fm_entries_fmfilter: "fm_entries (fmfilter P s) = filter (\<lambda>x. P (fst x)) (fm_entries s)"
  unfolding fm_entries_def fm_keys_fmfilter filter_map comp_def fst_conv by (rule map_cong) auto

section \<open>The marks that stay\<close>

lemma a3Pairs_iff:
  "(m, r) \<in> set (a3Pairs marks ids ins infl mids u) \<longleftrightarrow>
     m \<in> set marks \<and> r \<in> set marks \<and> mk_removed r \<and> a3_match m r \<and> (u \<or> a3_guarded marks ids ins infl mids m r)"
  by (auto simp: a3Pairs_def)

definition outside :: "(('t, 'v) mark \<times> ('t, 'v) mark) set \<Rightarrow> int \<Rightarrow> bool" where
  "outside Q k \<longleftrightarrow> (\<forall>(m, r) \<in> Q. k \<noteq> mk_mid m \<and> k \<noteq> mk_mid r)"

lemma drop_pairs_outside:
  "\<exists>Q. Q \<subseteq> set ps \<and> fst (foldl drop_pair (fmfilter (outside Q0) ms, n) ps) = fmfilter (outside (Q0 \<union> Q)) ms"
proof (induction ps arbitrary: Q0 n)
  case Nil
  then show ?case by (intro exI [of _ "{}"]) simp
next
  case (Cons p ps)
  obtain m r where p: "p = (m, r)" by fastforce
  let ?d = "drop_pair (fmfilter (outside Q0) ms, n) p"
  show ?case
  proof (cases "?d = (fmfilter (outside Q0) ms, n)")
    case True
    with Cons.IH [of Q0 n] show ?thesis by (auto simp del: fmfilter_alt_defs)
  next
    case False
    then have d: "?d = (fmdrop (mk_mid r) (fmdrop (mk_mid m) (fmfilter (outside Q0) ms)), Suc n)"
      unfolding drop_pair_def p by (simp split: if_splits)
    have "fmdrop (mk_mid r) (fmdrop (mk_mid m) (fmfilter (outside Q0) ms)) = fmfilter (outside (insert p Q0)) ms"
      by (rule fmap_ext) (auto simp: p outside_def)
    with Cons.IH [of "insert p Q0" "Suc n"] d obtain Q where
      "Q \<subseteq> set ps" "fst (foldl drop_pair ?d ps) = fmfilter (outside (insert p Q0 \<union> Q)) ms" by auto
    then show ?thesis by (intro exI [of _ "insert p Q"]) auto
  qed
qed

lemma cancelled_outside:
  obtains Q where "Q \<subseteq> set (a3Pairs (map snd (fm_entries ms)) ids (pc_inflightIns ct) (pc_inflightMarks ct)
      (pc_settledMarkMids ct) (po_unguardedPairDrop o1))"
    "fst (cancelled_marks ms ids ct o1) = fmfilter (outside Q) ms"
proof (cases "drops_pairs o1")
  case False
  have e: "fmfilter (outside {}) ms = ms" by (rule fmap_ext) (simp add: outside_def)
  then have "fst (cancelled_marks ms ids ct o1) = fmfilter (outside {}) ms"
    using False unfolding cancelled_marks_def e by simp
  then show ?thesis by (rule that [of "{}", rotated]) simp
next
  case True
  have e: "fmfilter (outside {}) ms = ms" by (rule fmap_ext) (simp add: outside_def)
  from drop_pairs_outside [of "a3Pairs (map snd (fm_entries ms)) ids (pc_inflightIns ct) (pc_inflightMarks ct)
      (pc_settledMarkMids ct) (po_unguardedPairDrop o1)" "{}" ms 0]
  show ?thesis using that True unfolding cancelled_marks_def e by auto
qed

section \<open>The resolver on fewer births\<close>

text \<open>A context with only the births in \<open>K\<close>, which has every live one.\<close>

definition ctx_restr :: "(int \<Rightarrow> bool) \<Rightarrow> 'e ctx \<Rightarrow> 'e ctx \<Rightarrow> bool" where
  "ctx_restr K ctx ctx' \<longleftrightarrow> ctx_ok ctx \<and> ctx_ok ctx' \<and> cx_birth ctx' = filter K (cx_birth ctx) \<and>
     cx_live ctx' = cx_live ctx \<and> (\<forall>i \<in> set (cx_birth ctx). K i \<longrightarrow> (i |\<in>| cx_deleted ctx' \<longleftrightarrow> i |\<in>| cx_deleted ctx))"

lemma survivors_restr:
  assumes "ctx_restr K ctx ctx'" and "set xs \<subseteq> set (cx_birth ctx)"
  shows "survivors ctx' (filter K xs) = survivors ctx xs"
proof -
  note c = assms(1) [unfolded ctx_restr_def]
  have e: "survivors ctx' (filter K (cx_birth ctx)) = survivors ctx (cx_birth ctx)"
    using c unfolding ctx_ok_def by metis
  have l: "K x" if "x \<in> set (cx_birth ctx)" "x |\<notin>| cx_deleted ctx" for x
    using that arg_cong [OF e, of set] by auto
  show ?thesis unfolding filter_filter using assms(2) c l by (intro filter_cong) auto
qed

lemma rehome_restr:
  assumes c: "ctx_restr K ctx ctx'" and a: "a \<in> set (cx_birth ctx) \<Longrightarrow> K a"
  shows "rehome ctx' a fwd = rehome ctx a fwd"
proof (cases "a \<in> set (cx_birth ctx)")
  case False
  have ok: "ctx_ok ctx" "ctx_ok ctx'" "cx_birth ctx' = filter K (cx_birth ctx)" using c by (simp_all add: ctx_restr_def)
  then have "\<not> isLive ctx a" "\<not> isLive ctx' a" "pos_of (cx_birth ctx) a = None" "pos_of (cx_birth ctx') a = None"
    using False by (auto simp: isLive_def ctx_ok_def pos_of_None)
  then show ?thesis by (simp add: rehome_def scan_def)
next
  case True
  then obtain p q where b: "cx_birth ctx = p @ a # q" by (meson split_list)
  have ok: "ctx_ok ctx" "ctx_ok ctx'" using c by (simp_all add: ctx_restr_def)
  have b': "cx_birth ctx' = filter K p @ a # filter K q" using c b a [OF True] by (simp add: ctx_restr_def)
  have f: "filter K (a # q) = a # filter K q" "filter K (p @ [a]) = filter K p @ [a]" using a [OF True] by simp_all
  have s: "survivors ctx' (a # filter K q) = survivors ctx (a # q)" "survivors ctx' (filter K p @ [a]) = survivors ctx (p @ [a])"
    subgoal by (rule survivors_restr [OF c, of "a # q", unfolded f(1)]) (auto simp: b)
    by (rule survivors_restr [OF c, of "p @ [a]", unfolded f(2)]) (auto simp: b)
  show ?thesis
    by (cases fwd) (simp_all only: rehome_fwd [OF ok(1) b] rehome_fwd [OF ok(2) b'] rehome_bwd [OF ok(1) b] rehome_bwd [OF ok(2) b'] s)
qed

lemma covered_restr:
  assumes c: "ctx_restr K ctx ctx'" and a: "\<And>i. i \<in> set (anchorsOf m) \<Longrightarrow> i \<in> set (cx_birth ctx) \<Longrightarrow> K i"
  shows "coveredIds m ctx' = coveredIds m ctx"
proof -
  have l: "cx_live ctx' = cx_live ctx" using c by (simp add: ctx_restr_def)
  have r: "rehome ctx' (mk_startId m) fwd = rehome ctx (mk_startId m) fwd" "rehome ctx' (mk_endId m) fwd = rehome ctx (mk_endId m) fwd" for fwd
    using a by (auto intro!: rehome_restr [OF c] simp: anchorsOf_def)
  show ?thesis unfolding coveredIds_def startIndex_def endIndex_def r l ..
qed

text \<open>Two marks with the same boundaries that are older than the same live characters cover the same.\<close>

lemma newer_run_cong: "(\<And>c. c \<in> set xs \<Longrightarrow> t < c \<longleftrightarrow> t' < c) \<Longrightarrow> newer_run t xs = newer_run t' xs"
  unfolding newer_run_def by (intro arg_cong [of _ _ length] takeWhile_cong) auto

lemma covered_twin:
  assumes "mk_startId m = mk_startId r" "mk_endId m = mk_endId r" "mk_startSide m = mk_startSide r" "mk_endSide m = mk_endSide r"
    and "\<And>c. c \<in> set (cx_live ctx) \<Longrightarrow> mk_ts m < c \<longleftrightarrow> mk_ts r < c"
  shows "coveredIds m ctx = coveredIds r ctx"
proof -
  have n: "newer_run (mk_ts m) (drop i (cx_live ctx)) = newer_run (mk_ts r) (drop i (cx_live ctx))"
    "newer_run (mk_ts m) (rev (take i (cx_live ctx))) = newer_run (mk_ts r) (rev (take i (cx_live ctx)))" for i
    by (rule newer_run_cong, rule assms(5), auto dest: in_set_dropD in_set_takeD)+
  show ?thesis unfolding coveredIds_def startIndex_def endIndex_def assms(1-4) n ..
qed

section \<open>What a reading shows\<close>

lemma active_eqI:
  assumes "distinct (map fst bc)" and "distinct (map fst bc')"
    and "\<And>t v. (\<exists>w. map_of bc t = Some w \<and> \<not> w_removed w \<and> w_value w = v) \<longleftrightarrow>
      (\<exists>w. map_of bc' t = Some w \<and> \<not> w_removed w \<and> w_value w = v)"
  shows "active_marks bc = active_marks bc'"
proof -
  note a = active_marks_spec [OF assms(1)] and a' = active_marks_spec [OF assms(2)]
  have s: "set (active_marks bc) = set (active_marks bc')"
    using a a' assms(3) by (auto simp del: split_paired_All)
  have d: "distinct (map fst (active_marks bc))" "distinct (map fst (active_marks bc'))"
    using a a' by (simp_all add: strict_sorted_iff)
  have "sorted (map fst (active_marks bc))" "sorted (map fst (active_marks bc'))"
    using a a' by (simp_all add: strict_sorted_iff)
  then show ?thesis using map_sorted_distinct_set_unique [of fst "active_marks bc" "active_marks bc'"] s d
    by (simp add: distinct_map)
qed

definition shown_marks :: "'e ctx \<Rightarrow> ('t::linorder, 'v) mark list \<Rightarrow> int \<Rightarrow> ('t \<times> 'v option) list" where
  "shown_marks ctx ms c = active_marks (foldl (\<lambda>bc m. upd m bc) [] (filter (\<lambda>m. c \<in> set (coveredIds m ctx)) ms))"

lemma render_ctx:
  fixes state :: "('k, 't::linorder, 'v) peri"
  assumes "buildCtx K state = Inr ctx" and "ctx_ok ctx"
  shows "renderDoc K state = Inr (map (\<lambda>c. \<lparr>re_id = c, re_char = map_of (cx_cp ctx) c,
    re_marks = shown_marks ctx (map snd (fm_entries (ps_marks state))) c\<rparr>) (cx_live ctx))"
proof -
  have d: "distinct (cx_live ctx)" using assms(2) by (simp add: ctx_ok_def)
  show ?thesis unfolding renderDoc_def assms(1) rbind_simps Let_def shown_marks_def
    by (simp add: best_marks_lookup [OF d] cong: map_cong)
qed

lemma shown_cong:
  assumes "distinct (map mk_mid ms)" and "distinct (map mk_mid ms')"
    and "\<And>t v. (\<exists>m. wins {m \<in> set ms. c \<in> set (coveredIds m ctx)} m \<and> mk_mtype m = t \<and> \<not> mk_removed m \<and> mk_value m = v) \<longleftrightarrow>
      (\<exists>m. wins {m \<in> set ms'. c \<in> set (coveredIds m ctx')} m \<and> mk_mtype m = t \<and> \<not> mk_removed m \<and> mk_value m = v)"
  shows "shown_marks ctx ms c = shown_marks ctx' ms' c"
proof -
  let ?f = "filter (\<lambda>m. c \<in> set (coveredIds m ctx)) ms" and ?f' = "filter (\<lambda>m. c \<in> set (coveredIds m ctx')) ms'"
  note u = upd_fold [OF distinct_map_filter [OF assms(1)], of "\<lambda>m. c \<in> set (coveredIds m ctx)"]
  note u' = upd_fold [OF distinct_map_filter [OF assms(2)], of "\<lambda>m. c \<in> set (coveredIds m ctx')"]
  have l: "(\<exists>w. map_of (foldl (\<lambda>bc m. upd m bc) [] ?f) t = Some w \<and> \<not> w_removed w \<and> w_value w = v) \<longleftrightarrow>
      (\<exists>m. wins {m \<in> set ms. c \<in> set (coveredIds m ctx)} m \<and> mk_mtype m = t \<and> \<not> mk_removed m \<and> mk_value m = v)" for t v
    using u unfolding set_filter by (auto simp: win_def)
  have l': "(\<exists>w. map_of (foldl (\<lambda>bc m. upd m bc) [] ?f') t = Some w \<and> \<not> w_removed w \<and> w_value w = v) \<longleftrightarrow>
      (\<exists>m. wins {m \<in> set ms'. c \<in> set (coveredIds m ctx')} m \<and> mk_mtype m = t \<and> \<not> mk_removed m \<and> mk_value m = v)" for t v
    using u' unfolding set_filter by (auto simp: win_def)
  show ?thesis unfolding shown_marks_def
    by (rule active_eqI [OF conjunct1 [OF u] conjunct1 [OF u']]) (simp only: l l' assms(3))
qed

section \<open>Cancelling pairs shows nothing\<close>

text \<open>The marks as the mint leaves them: filed under their ids, dated by them, and no character has such an id.\<close>

definition minted :: "(int \<Rightarrow> bool) \<Rightarrow> (int, ('t, 'v) mark) fmap \<Rightarrow> bool" where
  "minted charId ms \<longleftrightarrow> (\<forall>k m. fmlookup ms k = Some m \<longrightarrow> mk_mid m = k \<and> mk_ts m = k \<and> \<not> charId k)"

lemma minted_values:
  assumes "minted charId ms" and "m \<in> set (map snd (fm_entries ms))"
  shows "fmlookup ms (mk_mid m) = Some m" "mk_ts m = mk_mid m" "\<not> charId (mk_mid m)"
  using assms unfolding minted_def fm_values by auto

lemma minted_distinct: "minted charId ms \<Longrightarrow> distinct (map mk_mid (map snd (fm_entries ms)))"
proof -
  assume a: "minted charId ms"
  have "map mk_mid (map snd (fm_entries ms)) = fm_keys ms"
    unfolding map_map map_fst_fm_entries [symmetric]
    by (rule map_cong) (use a in \<open>auto simp: fm_entries_iff minted_def\<close>)
  then show ?thesis by (simp only: distinct_fm_keys)
qed

definition guarded ::
  "(int, ('t, 'v) mark) fmap \<Rightarrow> int list \<Rightarrow> ('t, 'v) pcut \<Rightarrow> (('t, 'v) mark \<times> ('t, 'v) mark) set \<Rightarrow> bool"
where
  "guarded ms ids ct Q \<longleftrightarrow> Q \<subseteq> set (a3Pairs (map snd (fm_entries ms)) ids (pc_inflightIns ct)
     (pc_inflightMarks ct) (pc_settledMarkMids ct) False)"

lemma guarded_pair:
  assumes "guarded ms ids ct Q" and "(m, r) \<in> Q" and "minted charId ms"
    and live: "\<forall>c \<in> set (cx_live ctx). c \<in> set ids \<and> charId c"
  shows "m \<in> set (map snd (fm_entries ms))" "r \<in> set (map snd (fm_entries ms))"
    "mk_removed r" "mk_mtype m = mk_mtype r" "mk_mid m < mk_mid r"
    and "coveredIds m ctx = coveredIds r ctx"
    and "\<And>x. x \<in> set (map snd (fm_entries ms)) \<Longrightarrow> mk_mtype x = mk_mtype r \<Longrightarrow> mk_mid x < mk_mid r \<Longrightarrow> mk_mid x = mk_mid m"
proof -
  have a: "m \<in> set (map snd (fm_entries ms))" "r \<in> set (map snd (fm_entries ms))" "mk_removed r"
    "a3_match m r" "a3_guarded (map snd (fm_entries ms)) ids (pc_inflightIns ct)
       (pc_inflightMarks ct) (pc_settledMarkMids ct) m r"
    using assms(1,2) unfolding guarded_def by (auto dest!: subsetD simp: a3Pairs_iff simp del: set_map)
  show "m \<in> set (map snd (fm_entries ms))" "r \<in> set (map snd (fm_entries ms))"
    "mk_removed r" "mk_mtype m = mk_mtype r" "mk_mid m < mk_mid r" using a by (simp_all add: a3_match_def)
  show "mk_mid x = mk_mid m" if "x \<in> set (map snd (fm_entries ms))" "mk_mtype x = mk_mtype r" "mk_mid x < mk_mid r" for x
    using a(5) that unfolding a3_guarded_def list_ex_iff by blast
  show "coveredIds m ctx = coveredIds r ctx"
  proof (rule covered_twin)
    fix c
    assume "c \<in> set (cx_live ctx)"
    then have c: "c \<in> set ids" "charId c" using live by blast+
    then have "c \<noteq> mk_mid r" using minted_values(3) [OF assms(3) a(2)] by auto
    moreover have "\<not> (mk_mid m < c \<and> c < mk_mid r)" using a(5) c(1) unfolding a3_guarded_def list_ex_iff by blast
    moreover have "mk_mid m < mk_mid r" using a(4) by (simp add: a3_match_def)
    ultimately show "mk_ts m < c \<longleftrightarrow> mk_ts r < c"
      unfolding minted_values(2) [OF assms(3) a(1)] minted_values(2) [OF assms(3) a(2)] by linarith
  qed (use a(4) in \<open>simp_all add: a3_match_def\<close>)
qed

lemma filtered_values:
  assumes "minted charId ms"
  shows "x \<in> set (map snd (fm_entries (fmfilter P ms))) \<longleftrightarrow>
    x \<in> set (map snd (fm_entries ms)) \<and> P (mk_mid x)"
proof -
  have "fmlookup (fmfilter P ms) k = Some x \<longleftrightarrow> fmlookup ms k = Some x \<and> P (mk_mid x)" for k
    using assms by (auto simp: minted_def)
  then show ?thesis unfolding fm_values by blast
qed

lemma wins_sub: "wins A x \<Longrightarrow> x \<in> B \<Longrightarrow> B \<subseteq> A \<Longrightarrow> wins B x"
  unfolding wins_def by blast

lemma shown_without_pairs:
  assumes q: "guarded ms ids ct Q" and g: "minted charId ms"
    and live: "\<forall>c \<in> set (cx_live ctx). c \<in> set ids \<and> charId c"
  shows "(\<exists>x. wins {m \<in> set (map snd (fm_entries ms)). c \<in> set (coveredIds m ctx)} x \<and>
      mk_mtype x = t \<and> \<not> mk_removed x \<and> mk_value x = v) \<longleftrightarrow>
    (\<exists>x. wins {m \<in> set (map snd (fm_entries (fmfilter (outside Q) ms))). c \<in> set (coveredIds m ctx)} x \<and>
      mk_mtype x = t \<and> \<not> mk_removed x \<and> mk_value x = v)" (is "(\<exists>x. wins ?A x \<and> ?P x) \<longleftrightarrow> (\<exists>x. wins ?B x \<and> ?P x)")
proof -
  let ?M = "set (map snd (fm_entries ms))"
  have B: "x \<in> ?B \<longleftrightarrow> x \<in> ?A \<and> outside Q (mk_mid x)" for x
    unfolding mem_Collect_eq filtered_values [OF g] by blast
  have BA: "?B \<subseteq> ?A" by (rule subsetI) (simp only: B)
  have eq: "x = y" if "x \<in> ?M" "y \<in> ?M" "mk_mid x = mk_mid y" for x y
    using minted_values(1) [OF g that(1)] minted_values(1) [OF g that(2)] that(3) by (metis option.inject)
  have "wins ?A x \<and> ?P x \<longleftrightarrow> wins ?B x \<and> ?P x" for x
  proof
    assume x: "wins ?A x \<and> ?P x"
    have "outside Q (mk_mid x)"
    proof (rule ccontr)
      assume "\<not> outside Q (mk_mid x)"
      then obtain m r where mr: "(m, r) \<in> Q" "mk_mid x = mk_mid m \<or> mk_mid x = mk_mid r" by (auto simp: outside_def)
      note p = guarded_pair [OF q mr(1) g live]
      have xM: "x \<in> ?M" using x by (simp add: wins_def)
      then have "x = m \<or> x = r" using mr(2) eq p(1,2) by blast
      with x p(3) have "x = m" by auto
      then have "r \<in> ?A" "mk_mtype r = mk_mtype x" using x p(2,4,6) by (simp_all add: wins_def)
      then have "mk_mid r \<le> mk_mid x" using x unfolding wins_def by blast
      with \<open>x = m\<close> p(5) show False by simp
    qed
    then have "x \<in> ?B" using x unfolding B wins_def by simp
    with x show "wins ?B x \<and> ?P x" using wins_sub [OF _ _ BA, of x] by blast
  next
    assume x: "wins ?B x \<and> ?P x"
    then have "x \<in> ?B" unfolding wins_def by (elim conjE)
    then have xA: "x \<in> ?A" "outside Q (mk_mid x)" unfolding B by (rule conjunct1, rule conjunct2)
    have "mk_mid y \<le> mk_mid x" if y: "y \<in> ?A" "mk_mtype y = mk_mtype x" for y
    proof (cases "outside Q (mk_mid y)")
      case True
      then have "y \<in> ?B" using y(1) B by blast
      then show ?thesis using x y(2) unfolding wins_def by blast
    next
      case False
      then obtain m r where mr: "(m, r) \<in> Q" "mk_mid y = mk_mid m \<or> mk_mid y = mk_mid r" by (auto simp: outside_def)
      note p = guarded_pair [OF q mr(1) g live]
      have "y = m \<or> y = r" using mr(2) eq p(1,2) y(1) by blast
      then have ty: "mk_mtype x = mk_mtype r" and le: "mk_mid y \<le> mk_mid r" using y(2) p(4,5) by auto
      have "mk_mid r \<le> mk_mid x"
      proof (rule ccontr)
        assume "\<not> mk_mid r \<le> mk_mid x"
        with p(7) [of x] xA(1) ty have "mk_mid x = mk_mid m" by auto
        with xA(2) mr(1) show False by (auto simp: outside_def)
      qed
      with le show ?thesis by simp
    qed
    with x xA show "wins ?A x \<and> ?P x" unfolding wins_def by blast
  qed
  then show ?thesis by (rule ex_cong1)
qed

lemma minted_filtered: "minted charId ms \<Longrightarrow> minted charId (fmfilter P ms)"
  by (auto simp: minted_def split: if_splits)

section \<open>Fewer births and no cancelled pairs\<close>

lemma render_compacted:
  fixes state :: "('k, 't::linorder, 'v) peri"
  assumes b: "buildCtx K state = Inr ctx" and b': "buildCtx K s' = Inr ctx'" and R: "ctx_restr keep ctx ctx'"
    and g: "minted charId (ps_marks state)" and live: "\<forall>c \<in> set (cx_live ctx). c \<in> set ids \<and> charId c"
    and Q: "guarded (ps_marks state) ids ct Q" "ps_marks s' = fmfilter (outside Q) (ps_marks state)"
    and mk: "\<And>m i. m \<in> set (map snd (fm_entries (ps_marks s'))) \<Longrightarrow> i \<in> set (anchorsOf m) \<Longrightarrow> i \<in> set (cx_birth ctx) \<Longrightarrow> keep i"
    and ch: "\<And>x. x \<in> set (cx_live ctx) \<Longrightarrow> map_of (cx_cp ctx') x = map_of (cx_cp ctx) x"
  shows "renderDoc K s' = renderDoc K state"
proof -
  let ?ms = "map snd (fm_entries (ps_marks state))" and ?ms' = "map snd (fm_entries (ps_marks s'))"
  have c1: "coveredIds m ctx' = coveredIds m ctx" if m: "m \<in> set ?ms'" for m
    by (rule covered_restr [OF R]) (rule mk [OF m])
  have cov: "{m \<in> set ?ms'. x \<in> set (coveredIds m ctx')} = {m \<in> set ?ms'. x \<in> set (coveredIds m ctx)}" for x
    using c1 by (simp cong: conj_cong)
  have shown: "shown_marks ctx' ?ms' x = shown_marks ctx ?ms x" for x
  proof (rule sym, rule shown_cong)
    show "distinct (map mk_mid ?ms)" "distinct (map mk_mid ?ms')"
      unfolding Q(2) by (rule minted_distinct [OF g], rule minted_distinct [OF minted_filtered [OF g]])
    show "(\<exists>m. wins {m \<in> set ?ms. x \<in> set (coveredIds m ctx)} m \<and> mk_mtype m = t \<and> \<not> mk_removed m \<and> mk_value m = v) \<longleftrightarrow>
        (\<exists>m. wins {m \<in> set ?ms'. x \<in> set (coveredIds m ctx')} m \<and> mk_mtype m = t \<and> \<not> mk_removed m \<and> mk_value m = v)" for t v
      unfolding cov unfolding Q(2) by (rule shown_without_pairs [OF Q(1) g live])
  qed
  have ok: "ctx_ok ctx" "ctx_ok ctx'" and l: "cx_live ctx' = cx_live ctx" using R by (simp_all add: ctx_restr_def)
  show ?thesis unfolding render_ctx [OF b ok(1)] render_ctx [OF b' ok(2)] shown l using ch by (simp cong: map_cong)
qed

end
