(* ===== verification/PeritextGc.thy ===== *)
theory PeritextGc
  imports PeritextMarks CompactSound
begin

text \<open>
  What the compaction of rich text keeps: the records of live characters, of unsettled ones and of the
  boundaries of marks. A mark whose boundaries are kept covers the same characters before and after, a
  guarded pair of marks shows nothing either way, so the document reads the same.
\<close>

lemma read_filtered: "emb_readEntries (fmfilter P s) = filter (\<lambda>x. P (fst x)) (emb_readEntries s)"
proof -
  let ?E = "fm_entries s"
  have d: "distinct (map fst ?E)" by simp
  then have de: "distinct ?E" by (simp only: distinct_map)
  have inj: "fst x = fst y \<Longrightarrow> x \<in> set ?E \<Longrightarrow> y \<in> set ?E \<Longrightarrow> x = y" for x y
    using d unfolding distinct_map inj_on_def by blast
  have t: "total_on emb_before (set ?E)"
    unfolding total_on_def
  proof (intro conjI ballI impI)
    fix x y
    assume xy: "x \<in> set ?E" "y \<in> set ?E"
    show "x \<noteq> y \<Longrightarrow> emb_before x y \<or> emb_before y x" using inj [of x y] xy by (cases "fst x" "fst y" rule: linorder_cases) (auto simp: emb_before_def Let_def)
    show "emb_before x y \<Longrightarrow> \<not> emb_before y x" by (auto simp: emb_before_def Let_def split: if_splits)
    fix z
    show "emb_before x y \<Longrightarrow> emb_before y z \<Longrightarrow> emb_before x z" by (auto simp: emb_before_def Let_def split: if_splits)
  qed
  have "sorted_wrt emb_before (sort_by emb_before ?E)" using sorted_sort_by [OF t de] .
  then show ?thesis unfolding emb_readEntries_def fm_entries_fmfilter
    by (intro sort_by_unique total_on_subset [OF t]) (auto simp: de sorted_wrt_filter)
qed

section \<open>The records that stay\<close>

definition stays :: "int fset \<Rightarrow> ('t, 'v) pcut \<Rightarrow> int list \<Rightarrow> int list \<Rightarrow> int \<Rightarrow> bool" where
  "stays dels ct markAnchors inflAnchor i \<longleftrightarrow>
     \<not> settled_dead dels ct i \<or> i \<in> set markAnchors \<or> i \<in> set inflAnchor"

lemma keep_fold:
  fixes xs :: "(int \<times> 'r) list"
  assumes "distinct (map fst xs)"
  shows "\<And>k. let k' = foldl (keep_step dels ct ma ia cost) k xs in
    (\<forall>i. fmlookup (kp_shadow k') i = (case map_of (filter (\<lambda>x. stays dels ct ma ia (fst x)) xs) i of
        Some r \<Rightarrow> Some r | None \<Rightarrow> fmlookup (kp_shadow k) i)) \<and>
    kp_recordsBefore k' = kp_recordsBefore k + length xs \<and>
    kp_symbolsBefore k' = kp_symbolsBefore k + sum_list (map (cost \<circ> snd) xs) \<and>
    kp_recordsDropped k' = kp_recordsDropped k + length (filter (\<lambda>x. \<not> stays dels ct ma ia (fst x)) xs) \<and>
    kp_settledDead k' = kp_settledDead k + length (filter (\<lambda>x. settled_dead dels ct (fst x)) xs) \<and>
    kp_retainedForMarks k' = kp_retainedForMarks k +
      length (filter (\<lambda>x. settled_dead dels ct (fst x) \<and> fst x \<in> set ma \<and> fst x \<notin> set ia) xs)"
  using assms
proof (induction xs)
  case (Cons x xs)
  have n: "map_of (filter (\<lambda>x. stays dels ct ma ia (fst x)) xs) (fst x) = None"
    using Cons.prems by (auto simp: map_of_eq_None_iff)
  note IH = Cons.IH [of "keep_step dels ct ma ia cost k x", unfolded Let_def]
  have d: "distinct (map fst xs)" using Cons.prems by simp
  show ?case
    using IH [OF d] n unfolding Let_def foldl_Cons
    by (auto simp: keep_step_def Let_def stays_def split: option.split)
qed simp

lemma keep_spec:
  shows "kp_shadow (keep_records s dels ct ma ia cost) = fmfilter (stays dels ct ma ia) s" (is ?A)
    and "kp_recordsBefore (keep_records s dels ct ma ia cost) = fcard (fmdom s)" (is ?B)
    and "kp_symbolsBefore (keep_records s dels ct ma ia cost) = sum_list (map (\<lambda>(_, r). cost r) (fm_entries s))" (is ?C)
    and "kp_recordsDropped (keep_records s dels ct ma ia cost) =
      length (filter (\<lambda>i. \<not> stays dels ct ma ia i) (fm_keys s))" (is ?D)
    and "kp_settledDead (keep_records s dels ct ma ia cost) = length (filter (settled_dead dels ct) (fm_keys s))" (is ?E)
    and "kp_retainedForMarks (keep_records s dels ct ma ia cost) =
      length (filter (\<lambda>i. settled_dead dels ct i \<and> i \<in> set ma \<and> i \<notin> set ia) (fm_keys s))" (is ?F)
proof -
  have d: "distinct (map fst (fm_entries s))" by simp
  have m: "map_of (filter (\<lambda>x. P (fst x)) (fm_entries s)) i = (if P i then fmlookup s i else None)" for P i
    using map_of_filter_key [of P "fm_entries s" i] by (simp add: split_def)
  have l: "length (filter P (fm_keys s)) = length (filter (\<lambda>x. P (fst x)) (fm_entries s))" for P
    unfolding map_fst_fm_entries [symmetric] filter_map by (simp add: comp_def)
  let ?k = "\<lparr>kp_shadow = fmempty, kp_symbolsBefore = 0, kp_recordsBefore = 0, kp_recordsDropped = 0,
        kp_settledDead = 0, kp_retainedForMarks = 0\<rparr> :: 'a keeping"
  note k0 = keep_fold [OF d, of dels ct ma ia cost ?k, unfolded Let_def, folded keep_records_def]
  show ?A by (rule fmap_ext) (use k0 in \<open>auto simp: m split: option.splits\<close>)
  have "length (fm_entries s) = fcard (fmdom s)"
    by (metis distinct_card distinct_fm_keys length_map map_fst_fm_entries set_fm_keys fcard.rep_eq fmdom.rep_eq)
  then show ?B using k0 by simp
  show ?C using k0 by (simp add: comp_def split_def)
  show ?D ?E ?F unfolding l using k0 by simp_all
qed

section \<open>One compaction\<close>

definition retained :: "('e emb, 't, 'v) peri \<Rightarrow> ('t, 'v) pcut \<Rightarrow> popts \<Rightarrow> int \<Rightarrow> bool" where
  "retained state ct o1 = stays (ps_deleted state) ct
     (mark_anchors (fst (cancelled_marks (ps_marks state) (fm_keys (ps_shadow state)) ct o1)) ct o1) (infl_anchors ct)"

definition anchors_born :: "('e emb, 't, 'v) peri \<Rightarrow> ('t, 'v) pcut \<Rightarrow> bool" where
  "anchors_born state ct \<longleftrightarrow> list_all (\<lambda>x. case snd x of None \<Rightarrow> True | Some a \<Rightarrow> fmlookup (ps_shadow state) a \<noteq> None) (pc_inflightIns ct)"

lemma infl_retained: "(i, Some a) \<in> set (pc_inflightIns ct) \<Longrightarrow> retained state ct o1 a"
proof -
  assume "(i, Some a) \<in> set (pc_inflightIns ct)"
  then have "a \<in> set (infl_anchors ct)" by (force simp: infl_anchors_def List.map_filter_def)
  then show ?thesis by (simp add: retained_def stays_def)
qed

lemma mapM_Inl:
  "(\<And>x. x \<in> set xs \<Longrightarrow> f x = (if bad x then Inl e else Inr (g x))) \<Longrightarrow>
   mapM f xs = (if list_ex bad xs then Inl e else Inr (map g xs))"
  by (induction xs) auto

lemma frozen_coords:
  "mapM (frozen_coord (\<lambda>r _ _. er_coord r) (fmfilter (retained state ct o1) (ps_shadow state))) (pc_inflightIns ct) =
     (if anchors_born state ct
      then Inr (map (\<lambda>x. case snd x of None \<Rightarrow> [] | Some a \<Rightarrow> er_coord (the (fmlookup (ps_shadow state) a))) (pc_inflightIns ct))
      else Inl (Error ''declared in-flight insert: anchor has no kept record''))"
proof -
  let ?bad = "\<lambda>x :: int \<times> int option. case snd x of None \<Rightarrow> False | Some a \<Rightarrow> fmlookup (ps_shadow state) a = None"
  have "frozen_coord (\<lambda>r _ _. er_coord r) (fmfilter (retained state ct o1) (ps_shadow state)) x =
      (if ?bad x then Inl (Error ''declared in-flight insert: anchor has no kept record'')
       else Inr (case snd x of None \<Rightarrow> [] | Some a \<Rightarrow> er_coord (the (fmlookup (ps_shadow state) a))))"
    if "x \<in> set (pc_inflightIns ct)" for x
  proof (cases "snd x")
    case (Some a)
    then have "x = (fst x, Some a)" by (metis surjective_pairing)
    then have "retained state ct o1 a" using infl_retained that by metis
    then show ?thesis using Some by (simp add: frozen_coord_def split: option.split)
  qed (simp add: frozen_coord_def)
  from mapM_Inl [OF this] have "mapM (frozen_coord (\<lambda>r _ _. er_coord r) (fmfilter (retained state ct o1) (ps_shadow state))) (pc_inflightIns ct) =
      (if list_ex ?bad (pc_inflightIns ct) then Inl (Error ''declared in-flight insert: anchor has no kept record'')
       else Inr (map (\<lambda>x. case snd x of None \<Rightarrow> [] | Some a \<Rightarrow> er_coord (the (fmlookup (ps_shadow state) a))) (pc_inflightIns ct)))" .
  moreover have "list_ex ?bad (pc_inflightIns ct) \<longleftrightarrow> \<not> anchors_born state ct"
    by (auto simp: anchors_born_def list_ex_iff list_all_iff split: option.splits)
  ultimately show ?thesis by auto
qed

lemma coded_fmfilter: "coded s \<Longrightarrow> coded (fmfilter P s)"
  by (auto simp: coded_def split: if_splits)

text \<open>The result, when every declared anchor has a record; without one the compaction throws.\<close>

lemma compactPeritext_born:
  assumes "coded (ps_shadow state)" and "anchors_born state ct"
  obtains s' root st r where "compactPeritext state ct o1 = Inr (s', root, st)"
    "ps_shadow s' = fmmap_keys (\<lambda>i rec. rec\<lparr>er_coord := r (er_coord rec)\<rparr>) (fmfilter (retained state ct o1) (ps_shadow state))"
    "ps_deleted s' = ffilter (\<lambda>x. fmlookup (ps_shadow s') x \<noteq> None) (ps_deleted state)"
    "ps_marks s' = fst (cancelled_marks (ps_marks state) (fm_keys (ps_shadow state)) ct o1)"
    "emb_readEntries (ps_shadow s') = map (\<lambda>(i, rec). (i, rec\<lparr>er_coord := r (er_coord rec)\<rparr>))
       (filter (\<lambda>x. retained state ct o1 (fst x)) (emb_readEntries (ps_shadow state)))"
    "\<And>i rec. fmlookup (ps_shadow state) i = Some rec \<Longrightarrow> retained state ct o1 i \<Longrightarrow> length (r (er_coord rec)) \<le> length (er_coord rec)"
    "coded (ps_shadow s')"
    "st_recordsBefore st = fcard (fmdom (ps_shadow state))"
    "st_recordsDropped st = length (filter (\<lambda>i. \<not> retained state ct o1 i) (fm_keys (ps_shadow state)))"
    "st_recordsAfter st = int (st_recordsBefore st) - int (st_recordsDropped st)"
    "st_markRecords st = fcard (fmdom (ps_marks s'))"
    "st_retainedForMarks st = length (filter (\<lambda>i. settled_dead (ps_deleted state) ct i \<and>
       i \<in> set (mark_anchors (ps_marks s') ct o1) \<and> i \<notin> set (infl_anchors ct)) (fm_keys (ps_shadow state)))"
    "st_markPairsDropped st = snd (cancelled_marks (ps_marks state) (fm_keys (ps_shadow state)) ct o1)"
proof -
  let ?s = "fmfilter (retained state ct o1) (ps_shadow state)"
  let ?f = "map (\<lambda>x. case snd x of None \<Rightarrow> [] | Some a \<Rightarrow> er_coord (the (fmlookup (ps_shadow state) a))) (pc_inflightIns ct)"
  let ?ct = "\<lparr>cc_settledIds = pc_settledIds ct, cc_inflight = [], cc_frozenAnchorCoords = ?f\<rparr>"
  have c: "coded ?s" by (rule coded_fmfilter [OF assms(1)])
  have i: "codes (cc_inflight ?ct)" by (simp add: codes_def)
  have "\<exists>ds. positive ds \<and> (case snd x of None \<Rightarrow> [] | Some a \<Rightarrow> er_coord (the (fmlookup (ps_shadow state) a))) = concat (map dEnc ds)"
    if x: "x \<in> set (pc_inflightIns ct)" for x
  proof (cases "snd x")
    case None
    then show ?thesis by (intro exI [of _ "[]"]) simp
  next
    case (Some a)
    then obtain rec where "fmlookup (ps_shadow state) a = Some rec"
      using bspec [OF assms(2) [unfolded anchors_born_def list_all_iff] x] by auto
    then show ?thesis using assms(1) Some by (auto simp: coded_def)
  qed
  then have f: "codes (cc_frozenAnchorCoords ?ct)" by (auto simp: codes_def)
  from compact_spec [OF c i f, of "po_text o1"] obtain root st r where
    k: "compactEliasDelta ?s ?ct (po_text o1) = Inr (fmmap_keys (\<lambda>i rec. rec\<lparr>er_coord := r (er_coord rec)\<rparr>) ?s, root, st)"
      "\<And>i rec. fmlookup ?s i = Some rec \<Longrightarrow> length (r (er_coord rec)) \<le> length (er_coord rec) \<and>
        (\<exists>ds. positive ds \<and> r (er_coord rec) = concat (map dEnc ds))" and
    o: "\<And>i rec j rec'. fmlookup ?s i = Some rec \<Longrightarrow> fmlookup ?s j = Some rec' \<Longrightarrow>
       (dkey (er_coord rec) < dkey (er_coord rec') \<longleftrightarrow> dkey (r (er_coord rec)) < dkey (r (er_coord rec')))"
    by blast
  let ?s' = "fmmap_keys (\<lambda>i rec. rec\<lparr>er_coord := r (er_coord rec)\<rparr>) ?s"
  have rd: "emb_readEntries ?s' = map (\<lambda>(i, rec). (i, rec\<lparr>er_coord := r (er_coord rec)\<rparr>))
      (filter (\<lambda>x. retained state ct o1 (fst x)) (emb_readEntries (ps_shadow state)))"
    unfolding read_filtered [symmetric] by (rule read_recoded) (rule o)
  have cd: "coded ?s'"
    unfolding coded_def
  proof (intro allI impI)
    fix i and rec' :: "'a erec"
    assume "fmlookup ?s' i = Some rec'"
    then obtain rec where "fmlookup ?s i = Some rec" "rec' = rec\<lparr>er_coord := r (er_coord rec)\<rparr>"
      by (auto simp del: fmlookup_filter)
    with k(2) [of i rec] show "\<exists>ds. positive ds \<and> er_coord rec' = concat (map dEnc ds)" by simp
  qed
  obtain ms n where cm: "cancelled_marks (ps_marks state) (fm_keys (ps_shadow state)) ct o1 = (ms, n)" by fastforce
  let ?k = "keep_records (ps_shadow state) (ps_deleted state) ct (mark_anchors ms ct o1) (infl_anchors ct) (\<lambda>r. length (er_coord r))"
  have ks: "kp_shadow ?k = ?s" by (simp add: keep_spec retained_def cm)
  let ?res = "(\<lparr>ps_shadow = ?s', ps_deleted = ffilter (\<lambda>x. fmlookup ?s' x \<noteq> None) (ps_deleted state), ps_marks = ms\<rparr>, root,
    stats.extend (st\<lparr>st_symbolsBefore := kp_symbolsBefore ?k\<rparr>)
      (pstats.fields (kp_recordsBefore ?k) (int (kp_recordsBefore ?k) - int (kp_recordsDropped ?k))
        (kp_recordsDropped ?k) (kp_settledDead ?k) (kp_retainedForMarks ?k) (fcard (fmdom ms)) n))"
  have "compactPeritext state ct o1 = Inr ?res"
    unfolding compactPeritext_def compactPeritextWith_def cm Let_def prod.case ks frozen_coords
    using assms(2) k(1) by simp
  note res = this
  show ?thesis
  proof (rule that [where r = r, OF res])
    fix i rec
    assume "fmlookup (ps_shadow state) i = Some rec" "retained state ct o1 i"
    then show "length (r (er_coord rec)) \<le> length (er_coord rec)" using k(2) [of i rec] by simp
  qed (use rd cd in \<open>simp_all add: cm stats.defs pstats.defs keep_spec retained_def\<close>)
qed

section \<open>The context before and after\<close>

definition emb_ctx :: "('e emb, 't, 'v) peri \<Rightarrow> 'e ctx" where
  "emb_ctx state = \<lparr>cx_birth = emb_readIds (ps_shadow state),
     cx_live = filter (\<lambda>c. c |\<notin>| ps_deleted state) (emb_readIds (ps_shadow state)),
     cx_cp = map (\<lambda>(i, r). (i, er_el r)) (emb_readEntries (ps_shadow state)),
     cx_deleted = ps_deleted state, cx_hasBirth = (\<lambda>i. fmlookup (ps_shadow state) i \<noteq> None)\<rparr>"

lemma buildCtx_emb: "buildCtx (emb_kernel code) state = Inr (emb_ctx state)"
  by (simp add: buildCtx_def emb_kernel_def Let_def emb_ctx_def emb_readIds_def comp_def split_def)

lemma set_emb_readIds: "set (emb_readIds s) = {i. fmlookup s i \<noteq> None}"
  unfolding emb_readIds_def emb_readEntries_def by (auto simp: image_iff fm_entries_iff Bex_def)

lemma distinct_emb_readIds: "distinct (emb_readIds s)"
proof -
  have d: "distinct (map fst (fm_entries s))" by simp
  then have "distinct (sort_by emb_before (fm_entries s))" "inj_on fst (set (sort_by emb_before (fm_entries s)))"
    unfolding distinct_map by simp_all
  then show ?thesis unfolding emb_readIds_def emb_readEntries_def by (simp add: distinct_map)
qed

lemma emb_ctx_ok: "ctx_ok (emb_ctx state)"
  unfolding ctx_ok_def emb_ctx_def using distinct_emb_readIds set_emb_readIds by auto

lemma emb_ctx_restr:
  assumes "ps_shadow s' = fmmap_keys f (fmfilter K (ps_shadow state))"
    and "ps_deleted s' = ffilter (\<lambda>x. fmlookup (ps_shadow s') x \<noteq> None) (ps_deleted state)"
    and "emb_readIds (ps_shadow s') = filter K (emb_readIds (ps_shadow state))"
    and "\<And>i. i |\<notin>| ps_deleted state \<Longrightarrow> K i"
  shows "ctx_restr K (emb_ctx state) (emb_ctx s')"
proof -
  have d: "i |\<in>| ps_deleted s' \<longleftrightarrow> i |\<in>| ps_deleted state" if "i \<in> set (emb_readIds (ps_shadow state))" "K i" for i
  proof -
    have "fmlookup (ps_shadow s') i \<noteq> None" using that unfolding assms(1) set_emb_readIds by simp
    then show ?thesis unfolding assms(2) by simp
  qed
  have "filter (\<lambda>c. c |\<notin>| ps_deleted s') (filter K (emb_readIds (ps_shadow state))) =
      filter (\<lambda>c. c |\<notin>| ps_deleted state) (emb_readIds (ps_shadow state))"
    unfolding filter_filter using d assms(4) by (intro filter_cong) auto
  with d show ?thesis unfolding ctx_restr_def by (auto simp: emb_ctx_ok) (simp_all add: emb_ctx_def assms(3))
qed

text \<open>The marks as the mint leaves them: filed under their ids, dated by them, and no character has such an id.\<close>

definition marks_minted :: "('e emb, 't, 'v) peri \<Rightarrow> bool" where
  "marks_minted state \<longleftrightarrow> minted (\<lambda>i. fmlookup (ps_shadow state) i \<noteq> None) (ps_marks state)"

section \<open>Properties\<close>

lemma length_entries: "length (fm_entries s) = fcard (fmdom s)"
  by (metis distinct_card distinct_fm_keys length_map map_fst_fm_entries set_fm_keys fcard.rep_eq fmdom.rep_eq)

lemma retained_for_marks_bound:
  "length (filter (\<lambda>i. P i \<and> i \<in> set (mark_anchors ms ct o1) \<and> i \<notin> set (infl_anchors ct)) (fm_keys s)) \<le> 2 * fcard (fmdom ms)"
    (is "length ?xs \<le> _")
proof -
  let ?as = "concat (map (\<lambda>(_, m). anchorsOf m) (fm_entries ms))"
  have "set ?xs \<subseteq> set ?as" by (auto simp: mark_anchors_def infl_anchors_def split: if_splits)
  then have "card (set ?xs) \<le> length ?as"
    by (rule order.trans [OF card_mono [OF finite_set] card_length])
  moreover have "card (set ?xs) = length ?xs" by (rule distinct_card) simp
  moreover have "length ?as = 2 * length (fm_entries ms)" by (simp add: length_concat comp_def split_def anchorsOf_def sum_list_triv)
  ultimately show ?thesis by (simp add: length_entries)
qed

text \<open>C9: compacting a rich text does not change the document. Its sequence has coded coordinates, its marks are
  as the mint leaves them and every declared insert in flight has its anchor; then the compaction with its guards,
  with or without cancelling pairs of marks and with or without fusion, succeeds, every character shows the same
  marks in the same order as before, and any mark, also one still to arrive, whose boundaries are kept covers
  exactly the characters it would have covered.\<close>

theorem rich_text_compaction_reads:
  fixes state :: "('e emb, 't::linorder, 'v) peri"
  assumes "coded (ps_shadow state)" and "anchors_born state ct" and "marks_minted state"
    and "\<not> po_noRetention o1" and "\<not> po_unguardedPairDrop o1"
  shows "\<exists>s' root st. compactPeritext state ct o1 = Inr (s', root, st) \<and>
    renderDoc (emb_kernel code) s' = renderDoc (emb_kernel code) state \<and>
    (\<forall>m. (\<forall>i \<in> set (anchorsOf m). fmlookup (ps_shadow s') i \<noteq> None) \<longrightarrow>
      peri_coveredIds (emb_kernel code) s' m = peri_coveredIds (emb_kernel code) state m)"
proof -
  let ?K = "retained state ct o1"
  obtain s' root st r where c: "compactPeritext state ct o1 = Inr (s', root, st)"
    "ps_shadow s' = fmmap_keys (\<lambda>i rec. rec\<lparr>er_coord := r (er_coord rec)\<rparr>) (fmfilter ?K (ps_shadow state))"
    "ps_deleted s' = ffilter (\<lambda>x. fmlookup (ps_shadow s') x \<noteq> None) (ps_deleted state)"
    "ps_marks s' = fst (cancelled_marks (ps_marks state) (fm_keys (ps_shadow state)) ct o1)"
    "emb_readEntries (ps_shadow s') = map (\<lambda>(i, rec). (i, rec\<lparr>er_coord := r (er_coord rec)\<rparr>))
       (filter (\<lambda>x. ?K (fst x)) (emb_readEntries (ps_shadow state)))"
    by (rule compactPeritext_born [OF assms(1,2), of o1]) blast
  let ?ctx = "emb_ctx state" and ?ctx' = "emb_ctx s'"
  have ids: "emb_readIds (ps_shadow s') = filter ?K (emb_readIds (ps_shadow state))"
    by (simp add: emb_readIds_def c(5) filter_map comp_def split_def)
  have live: "?K i" if "i |\<notin>| ps_deleted state" for i
    using that by (simp add: retained_def stays_def settled_dead_def)
  have R: "ctx_restr ?K ?ctx ?ctx'" by (rule emb_ctx_restr [OF c(2,3) ids live])
  have kept: "?K i" if "fmlookup (ps_shadow s') i \<noteq> None" for i using that by (auto simp: c(2) split: if_splits)
  have cov: "coveredIds m ?ctx' = coveredIds m ?ctx" if "\<And>i. i \<in> set (anchorsOf m) \<Longrightarrow> ?K i" for m :: "('t, 'v) mark"
    using that by (intro covered_restr [OF R])
  obtain Q where Q: "guarded (ps_marks state) (fm_keys (ps_shadow state)) ct Q" "ps_marks s' = fmfilter (outside Q) (ps_marks state)"
    using cancelled_outside [of "ps_marks state" "fm_keys (ps_shadow state)" ct o1] assms(5) c(4) by (auto simp: guarded_def)
  have "renderDoc (emb_kernel code) s' = renderDoc (emb_kernel code) state"
  proof (rule render_compacted [OF buildCtx_emb buildCtx_emb R assms(3) [unfolded marks_minted_def] _ Q], rule ballI)
    fix x
    assume x: "x \<in> set (cx_live ?ctx)"
    then have l: "fmlookup (ps_shadow state) x \<noteq> None" by (simp add: emb_ctx_def set_emb_readIds)
    then have "x \<in> dom (fmlookup (ps_shadow state))" by (rule domIff [THEN iffD2])
    with l show "x \<in> set (fm_keys (ps_shadow state)) \<and> fmlookup (ps_shadow state) x \<noteq> None" unfolding set_fm_keys by (rule conjI [rotated])
  next
    fix x
    assume x: "x \<in> set (cx_live ?ctx)"
    have "?K x" using x live by (simp add: emb_ctx_def)
    then have "map_of (map (\<lambda>x. (fst x, er_el (snd x))) (filter (\<lambda>x. ?K (fst x)) xs)) x =
        map_of (map (\<lambda>x. (fst x, er_el (snd x))) xs) x" for xs by (induction xs) auto
    then show "map_of (cx_cp ?ctx') x = map_of (cx_cp ?ctx) x" by (simp add: emb_ctx_def c(5) comp_def split_def)
  next
    fix m i
    assume m: "m \<in> set (map snd (fm_entries (ps_marks s')))" "i \<in> set (anchorsOf m)"
    from m(1) obtain k where "(k, m) \<in> set (fm_entries (ps_marks s'))" by auto
    then have "i \<in> set (mark_anchors (ps_marks s') ct o1)" using m(2) assms(4) by (force simp: mark_anchors_def)
    then show "?K i" by (simp add: retained_def stays_def c(4))
  qed
  then show ?thesis using c(1) cov kept unfolding peri_coveredIds_def buildCtx_emb by auto
qed

text \<open>A deleted character between two others, a deleted one that starts a mark, and a pair of marks that cancel.\<close>

definition gc_state :: "(nat emb, nat, nat) peri" where
  "gc_state = \<lparr>ps_shadow = fmap_of_list [(1, \<lparr>er_coord = dEnc 1, er_el = 10\<rparr>), (2, \<lparr>er_coord = dEnc 1 @ dEnc 1, er_el = 11\<rparr>),
       (3, \<lparr>er_coord = dEnc 1 @ dEnc 1 @ dEnc 1, er_el = 12\<rparr>), (4, \<lparr>er_coord = dEnc 1 @ dEnc 1 @ dEnc 1 @ dEnc 1, er_el = 13\<rparr>)],
     ps_deleted = {|2, 3|},
     ps_marks = fmap_of_list [
       (5, \<lparr>mk_mid = 5, mk_mtype = 0, mk_value = Some 7, mk_startId = 3, mk_endId = 4, mk_startSide = Before, mk_endSide = After, mk_ts = 5, mk_removed = False\<rparr>),
       (6, \<lparr>mk_mid = 6, mk_mtype = 1, mk_value = Some 8, mk_startId = 2, mk_endId = 2, mk_startSide = Before, mk_endSide = After, mk_ts = 6, mk_removed = False\<rparr>),
       (7, \<lparr>mk_mid = 7, mk_mtype = 1, mk_value = None, mk_startId = 2, mk_endId = 2, mk_startSide = Before, mk_endSide = After, mk_ts = 7, mk_removed = True\<rparr>)]\<rparr>"

definition gc_cut :: "(nat, nat) pcut" where
  "gc_cut = \<lparr>pc_settledIds = [1, 2, 3, 4], pc_settledDelIds = [2, 3], pc_settledMarkMids = [5, 6, 7], pc_inflightIns = [], pc_inflightMarks = []\<rparr>"

definition gc_opts :: popts where
  "gc_opts = \<lparr>po_pairDrop = True, po_unguardedPairDrop = False, po_noRetention = False, po_text = \<lparr>op_unguarded = False, op_fuse = False\<rparr>\<rparr>"

lemma gc_state_ok: "coded (ps_shadow gc_state)" "anchors_born gc_state gc_cut" "marks_minted gc_state"
proof -
  have "fmlookup (ps_shadow gc_state) i = Some r \<Longrightarrow> \<exists>ds. positive ds \<and> er_coord r = concat (map dEnc ds)" for i r
    by (auto simp: gc_state_def split: if_splits intro: exI [of _ "[1]"] exI [of _ "[1, 1]"] exI [of _ "[1, 1, 1]"] exI [of _ "[1, 1, 1, 1]"])
  then show "coded (ps_shadow gc_state)" by (auto simp: coded_def)
  show "anchors_born gc_state gc_cut" by (simp add: anchors_born_def gc_cut_def)
  show "marks_minted gc_state" by (auto simp: marks_minted_def minted_def gc_state_def split: if_splits)
qed

lemma gc_run: "map_option (\<lambda>(s, _, st). (fm_keys (ps_shadow s), fm_keys (ps_marks s), st_markPairsDropped st))
    (case compactPeritext gc_state gc_cut gc_opts of Inr x \<Rightarrow> Some x | Inl _ \<Rightarrow> None) = Some ([1, 3, 4], [5], 1)"
  by code_simp

theorem rich_text_compaction_reads_witness:
  "coded (ps_shadow gc_state) \<and> anchors_born gc_state gc_cut \<and> marks_minted gc_state \<and>
   (\<exists>s' root st. compactPeritext gc_state gc_cut gc_opts = Inr (s', root, st) \<and> fm_keys (ps_shadow s') = [1, 3, 4] \<and>
     fm_keys (ps_marks s') = [5] \<and> renderDoc (emb_kernel dEnc) s' = renderDoc (emb_kernel dEnc) gc_state)"
proof -
  obtain s' root st where "compactPeritext gc_state gc_cut gc_opts = Inr (s', root, st)"
    "renderDoc (emb_kernel dEnc) s' = renderDoc (emb_kernel dEnc) gc_state"
    using rich_text_compaction_reads [OF gc_state_ok, of gc_opts dEnc] by (auto simp: gc_opts_def)
  with gc_run gc_state_ok show ?thesis by auto
qed

text \<open>C11: what the compaction of a rich text keeps, and when it throws. It throws exactly when a declared
  insert in flight has an anchor without a record, with that error. Otherwise the records that stay are exactly those
  that are not deleted, or whose insertion or deletion is not settled, or that a remaining mark or a declaration
  holds on to; deletions are forgotten only with their records, no coordinate grows, the counts of records add up,
  and at most two dead records per mark are retained for marks.\<close>

theorem rich_text_compaction_keeps:
  assumes "coded (ps_shadow state)"
  shows "if anchors_born state ct
    then \<exists>s' root st. compactPeritext state ct o1 = Inr (s', root, st) \<and>
      (\<forall>i. (case fmlookup (ps_shadow s') i of None \<Rightarrow> None | Some rec \<Rightarrow> Some (er_el rec)) =
        (if i |\<notin>| ps_deleted state \<or> i \<notin> set (pc_settledDelIds ct) \<or> i \<notin> set (pc_settledIds ct) \<or>
            i \<in> set (mark_anchors (ps_marks s') ct o1) \<or> i \<in> set (infl_anchors ct)
         then map_option er_el (fmlookup (ps_shadow state) i) else None)) \<and>
      (\<forall>i. case (fmlookup (ps_shadow s') i, fmlookup (ps_shadow state) i) of
         (Some rec', Some rec) \<Rightarrow> length (er_coord rec') \<le> length (er_coord rec) | _ \<Rightarrow> True) \<and>
      (\<forall>i. i |\<in>| ps_deleted s' \<longleftrightarrow> i |\<in>| ps_deleted state \<and> fmlookup (ps_shadow s') i \<noteq> None) \<and>
      coded (ps_shadow s') \<and>
      int (fcard (fmdom (ps_shadow s'))) = st_recordsAfter st \<and>
      st_recordsAfter st + int (st_recordsDropped st) = int (fcard (fmdom (ps_shadow state))) \<and>
      st_retainedForMarks st \<le> 2 * st_markRecords st
    else compactPeritext state ct o1 = Inl (Error ''declared in-flight insert: anchor has no kept record'')"
proof (cases "anchors_born state ct")
  case False
  obtain ms n where cm: "cancelled_marks (ps_marks state) (fm_keys (ps_shadow state)) ct o1 = (ms, n)" by fastforce
  have ks: "kp_shadow (keep_records (ps_shadow state) (ps_deleted state) ct (mark_anchors ms ct o1) (infl_anchors ct) cost) =
      fmfilter (retained state ct o1) (ps_shadow state)" for cost
    by (simp add: keep_spec retained_def cm)
  show ?thesis unfolding compactPeritext_def compactPeritextWith_def cm Let_def prod.case ks frozen_coords
    using False by simp
next
  case True
  obtain s' root st r where c: "compactPeritext state ct o1 = Inr (s', root, st)"
    "ps_shadow s' = fmmap_keys (\<lambda>i rec. rec\<lparr>er_coord := r (er_coord rec)\<rparr>) (fmfilter (retained state ct o1) (ps_shadow state))"
    "ps_deleted s' = ffilter (\<lambda>x. fmlookup (ps_shadow s') x \<noteq> None) (ps_deleted state)"
    "ps_marks s' = fst (cancelled_marks (ps_marks state) (fm_keys (ps_shadow state)) ct o1)"
    "\<And>i rec. fmlookup (ps_shadow state) i = Some rec \<Longrightarrow> retained state ct o1 i \<Longrightarrow> length (r (er_coord rec)) \<le> length (er_coord rec)"
    "coded (ps_shadow s')" "st_recordsBefore st = fcard (fmdom (ps_shadow state))"
    "st_recordsDropped st = length (filter (\<lambda>i. \<not> retained state ct o1 i) (fm_keys (ps_shadow state)))"
    "st_recordsAfter st = int (st_recordsBefore st) - int (st_recordsDropped st)"
    "st_markRecords st = fcard (fmdom (ps_marks s'))"
    "st_retainedForMarks st = length (filter (\<lambda>i. settled_dead (ps_deleted state) ct i \<and>
       i \<in> set (mark_anchors (ps_marks s') ct o1) \<and> i \<notin> set (infl_anchors ct)) (fm_keys (ps_shadow state)))"
    by (rule compactPeritext_born [OF assms True, of o1]) blast
  have K: "retained state ct o1 i \<longleftrightarrow> i |\<notin>| ps_deleted state \<or> i \<notin> set (pc_settledDelIds ct) \<or> i \<notin> set (pc_settledIds ct) \<or>
            i \<in> set (mark_anchors (ps_marks s') ct o1) \<or> i \<in> set (infl_anchors ct)" for i
    by (auto simp: retained_def stays_def settled_dead_def c(4))
  have "fm_keys (ps_shadow s') = filter (retained state ct o1) (fm_keys (ps_shadow state))"
    unfolding c(2) fm_keys_fmfilter [symmetric] by (simp add: fm_keys_def)
  then have n: "fcard (fmdom (ps_shadow s')) = length (filter (retained state ct o1) (fm_keys (ps_shadow state)))"
    by (metis length_entries length_map map_fst_fm_entries)
  have "length (fm_keys (ps_shadow state)) = fcard (fmdom (ps_shadow state))" by (metis length_entries length_map map_fst_fm_entries)
  then have "fcard (fmdom (ps_shadow s')) + st_recordsDropped st = fcard (fmdom (ps_shadow state))"
    unfolding n c(8) using sum_length_filter_compl [of "retained state ct o1" "fm_keys (ps_shadow state)"] by simp
  then have rec: "int (fcard (fmdom (ps_shadow s'))) = st_recordsAfter st"
    "st_recordsAfter st + int (st_recordsDropped st) = int (fcard (fmdom (ps_shadow state)))" using c(7,9) by linarith+
  have el: "(case fmlookup (ps_shadow s') i of None \<Rightarrow> None | Some rec \<Rightarrow> Some (er_el rec)) =
      (if retained state ct o1 i then map_option er_el (fmlookup (ps_shadow state) i) else None)" for i
    unfolding c(2) by (simp add: option.map_comp split: option.split)
  have len: "case (fmlookup (ps_shadow s') i, fmlookup (ps_shadow state) i) of
      (Some rec', Some rec) \<Rightarrow> length (er_coord rec') \<le> length (er_coord rec) | _ \<Rightarrow> True" for i
    using c(5) [of i] unfolding c(2) by (auto split: option.split if_splits)
  have del: "i |\<in>| ps_deleted s' \<longleftrightarrow> i |\<in>| ps_deleted state \<and> fmlookup (ps_shadow s') i \<noteq> None" for i
    unfolding c(3) by auto
  have ret: "st_retainedForMarks st \<le> 2 * st_markRecords st" unfolding c(10,11) by (rule retained_for_marks_bound)
  show ?thesis unfolding if_P [OF True]
    by (rule exI [of _ s'], rule exI [of _ root], rule exI [of _ st], intro conjI allI)
      (rule c(1), simp only: el K, rule len, rule del, rule c(6), rule rec, rule rec, rule ret)
qed

theorem rich_text_compaction_keeps_witness:
  "coded (ps_shadow gc_state) \<and>
   (\<exists>s' root st. compactPeritext gc_state gc_cut gc_opts = Inr (s', root, st) \<and> coded (ps_shadow s') \<and>
     fm_keys (ps_shadow s') = [1, 3, 4] \<and> st_retainedForMarks st \<le> 2 * st_markRecords st)"
  using rich_text_compaction_keeps [OF gc_state_ok(1), of gc_cut gc_opts] gc_run gc_state_ok(1,2) by auto

end
