(* ===== verification/CompactRgaPeritext.thy ===== *)
theory CompactRgaPeritext
  imports PeritextMarks
begin

text \<open>
  The collector for rich text over the tombstone sequence (\<^verbatim>\<open>runtime/src/compact-rga-peritext.js\<close>), which the
  repository keeps as a negative control: records of settled deleted characters go unless a mark or a kept record
  needs them. The theorems say what its comment says: the present reading is the same, but an honest operation that
  comes later can fail.
\<close>

section \<open>The collector\<close>

lemma card_less_member: "finite A \<Longrightarrow> x \<in> A \<Longrightarrow> x \<notin> B \<Longrightarrow> card (A - insert x B) < card (A - B)"
  by (rule psubset_card_mono) auto

text \<open>Follow the anchors up from an id, adding what is missing, to a kept record, an unknown one or the root.\<close>

function keep_chain :: "(int, 'e rrec) fmap \<Rightarrow> int option \<Rightarrow> int list \<Rightarrow> int list" where
  "keep_chain adds None keep = keep"
| "keep_chain adds (Some p) keep = (if p \<in> set keep then keep
     else keep_chain adds (case fmlookup adds p of None \<Rightarrow> None | Some r \<Rightarrow> rr_anchor r) (keep @ [p]))"
  by pat_completeness auto

termination
proof (relation "measure (\<lambda>(adds, p, keep). 2 * card (fset (fmdom adds) - set keep) + (if p = None then 0 else 1))", simp)
  fix adds :: "(int, 'e rrec) fmap" and p :: int and keep :: "int list"
  assume p: "p \<notin> set keep"
  have "2 * card (fset (fmdom adds) - insert p (set keep)) + (if fmlookup adds p = None then 0 else 1) <
      2 * card (fset (fmdom adds) - set keep) + 1"
  proof (cases "fmlookup adds p")
    case None
    then have "fset (fmdom adds) - insert p (set keep) = fset (fmdom adds) - set keep" by (auto simp: fmdom'_notI fmlookup_dom'_iff)
    then show ?thesis using None by simp
  next
    case (Some r)
    then have "card (fset (fmdom adds) - insert p (set keep)) < card (fset (fmdom adds) - set keep)"
      by (intro card_less_member p) (auto intro: fmdomI)
    then show ?thesis using Some by simp
  qed
  then show "((adds, case fmlookup adds p of None \<Rightarrow> None | Some r \<Rightarrow> rr_anchor r, keep @ [p]), adds, Some p, keep)
      \<in> measure (\<lambda>(adds, p, keep). 2 * card (fset (fmdom adds) - set keep) + (if p = None then 0 else 1))"
    by (auto split: option.splits if_splits)
qed

definition anchor_of :: "(int, 'e rrec) fmap \<Rightarrow> int \<Rightarrow> int option" where
  "anchor_of adds i = (case fmlookup adds i of None \<Rightarrow> None | Some r \<Rightarrow> rr_anchor r)"

definition keep_live :: "(int, 'e rrec) fmap \<Rightarrow> int fset \<Rightarrow> ('t, 'v) pcut \<Rightarrow> int list" where
  "keep_live adds dels ct = filter (\<lambda>i. i |\<notin>| dels \<or> i \<notin> set (pc_settledIds ct) \<or> i \<notin> set (pc_settledDelIds ct)) (fm_keys adds)"

definition keep_roots :: "(int, 'e rrec) fmap \<Rightarrow> int fset \<Rightarrow> ('t, 'v) pcut \<Rightarrow> (int, ('t, 'v) mark) fmap \<Rightarrow> int list" where
  "keep_roots adds dels ct marks =
     foldl (\<lambda>keep (_, m). js_add (mk_endId m) (js_add (mk_startId m) keep)) (keep_live adds dels ct) (fm_entries marks)"

definition keep_all :: "(int, 'e rrec) fmap \<Rightarrow> int list \<Rightarrow> int list" where
  "keep_all adds roots = foldl (\<lambda>keep i. keep_chain adds (anchor_of adds i) keep) roots roots"

record rgc_stats =
  rg_symbolsBefore :: nat
  rg_symbolsAfter :: nat
  rg_recordsBefore :: nat
  rg_recordsAfter :: nat
  rg_recordsDropped :: int
  rg_retainedForMarks :: nat
  rg_markRecords :: nat
  rg_markPairsDropped :: nat

definition compact_rga ::
  "('e rga_state, 't, 'v) peri \<Rightarrow> ('t, 'v) pcut \<Rightarrow> popts \<Rightarrow> ('e rga_state, 't, 'v) peri \<times> rgc_stats"
where
  "compact_rga s ct o1 =
     (let adds = rs_adds (ps_shadow s); dels = ps_deleted s;
          (marks, markPairsDropped) = cancelled_marks (ps_marks s) (fm_keys adds) ct o1;
          keep = keep_all adds (keep_roots adds dels ct marks);
          adds' = fmfilter (\<lambda>i. i \<in> set keep) adds; dels' = ffilter (\<lambda>i. i \<in> set keep) dels
      in (\<lparr>ps_shadow = \<lparr>rs_adds = adds', rs_grave = ffilter (\<lambda>i. i \<in> set keep) (rs_grave (ps_shadow s)), rs_order = None\<rparr>,
           ps_deleted = dels', ps_marks = marks\<rparr>,
         \<lparr>rg_symbolsBefore = fcard (fmdom adds) + fcard dels, rg_symbolsAfter = fcard (fmdom adds') + fcard dels',
          rg_recordsBefore = fcard (fmdom adds), rg_recordsAfter = fcard (fmdom adds'),
          rg_recordsDropped = int (fcard (fmdom adds)) - int (fcard (fmdom adds')),
          rg_retainedForMarks = length (filter (\<lambda>i. i |\<in>| dels) keep), rg_markRecords = fcard (fmdom marks),
          rg_markPairsDropped = markPairsDropped\<rparr>))"

definition rgc_symbolCount :: "('e rga_state, 't, 'v) peri \<Rightarrow> nat" where
  "rgc_symbolCount s = fcard (fmdom (rs_adds (ps_shadow s))) + fcard (ps_deleted s) + fcard (fmdom (ps_marks s))"

section \<open>What is kept is closed under anchors\<close>

lemma keep_chain_spec:
  "set keep \<subseteq> set (keep_chain adds p keep) \<and> (\<forall>q. p = Some q \<longrightarrow> q \<in> set (keep_chain adds p keep)) \<and>
   (\<forall>x \<in> set (keep_chain adds p keep). x \<notin> set keep \<longrightarrow> (\<forall>q. anchor_of adds x = Some q \<longrightarrow> q \<in> set (keep_chain adds p keep)))"
proof (induction adds p keep rule: keep_chain.induct)
  case (2 adds p keep)
  show ?case
  proof (cases "p \<in> set keep")
    case False
    note IH = 2 [OF False]
    have e: "keep_chain adds (Some p) keep = keep_chain adds (anchor_of adds p) (keep @ [p])"
      using False by (simp add: anchor_of_def)
    show ?thesis unfolding e using IH [folded anchor_of_def] by auto
  qed simp
qed simp

lemma keep_all_closed:
  "set roots \<subseteq> set (keep_all adds roots)"
  "x \<in> set (keep_all adds roots) \<Longrightarrow> anchor_of adds x = Some q \<Longrightarrow> q \<in> set (keep_all adds roots)"
proof -
  have f: "set keep \<subseteq> set (foldl (\<lambda>keep i. keep_chain adds (anchor_of adds i) keep) keep is) \<and>
      (\<forall>x \<in> set (foldl (\<lambda>keep i. keep_chain adds (anchor_of adds i) keep) keep is).
        x \<notin> set keep \<or> x \<in> set is \<longrightarrow> (\<forall>q. anchor_of adds x = Some q \<longrightarrow>
          q \<in> set (foldl (\<lambda>keep i. keep_chain adds (anchor_of adds i) keep) keep is)))" for keep "is"
  proof (induction "is" arbitrary: keep)
    case (Cons i "is")
    let ?k = "keep_chain adds (anchor_of adds i) keep"
    note k = keep_chain_spec [of keep adds "anchor_of adds i"] and IH = Cons.IH [of ?k]
    have sub: "set ?k \<subseteq> set (foldl (\<lambda>keep i. keep_chain adds (anchor_of adds i) keep) keep (i # is))" using IH by simp
    show ?case
    proof (intro conjI ballI impI allI)
      show "set keep \<subseteq> set (foldl (\<lambda>keep i. keep_chain adds (anchor_of adds i) keep) keep (i # is))" using k sub by blast
      fix x q
      assume x: "x \<in> set (foldl (\<lambda>keep i. keep_chain adds (anchor_of adds i) keep) keep (i # is))"
        "x \<notin> set keep \<or> x \<in> set (i # is)" "anchor_of adds x = Some q"
      show "q \<in> set (foldl (\<lambda>keep i. keep_chain adds (anchor_of adds i) keep) keep (i # is))"
      proof (cases "x \<notin> set ?k \<or> x \<in> set is")
        case True
        then show ?thesis using IH x by auto
      next
        case False
        then have "q \<in> set ?k" using k x(2,3) by auto
        then show ?thesis using sub by blast
      qed
    qed
  qed simp
  show "set roots \<subseteq> set (keep_all adds roots)" using f [of roots roots] unfolding keep_all_def by blast
  show "x \<in> set (keep_all adds roots) \<Longrightarrow> anchor_of adds x = Some q \<Longrightarrow> q \<in> set (keep_all adds roots)"
    using f [of roots roots] unfolding keep_all_def by blast
qed

lemma set_keep_roots:
  fixes marks :: "(int, ('t, 'v) mark) fmap"
  shows "set (keep_roots adds dels ct marks) = set (keep_live adds dels ct) \<union> (\<Union>x \<in> set (fm_entries marks). set (anchorsOf (snd x)))"
proof -
  have "set (foldl (\<lambda>keep (_, m). js_add (mk_endId m) (js_add (mk_startId m) keep)) keep xs) =
      set keep \<union> (\<Union>x \<in> set xs. set (anchorsOf (snd x)))" for keep and xs :: "(int \<times> ('t, 'v) mark) list"
    by (induction xs arbitrary: keep) (auto simp: anchorsOf_def)
  then show ?thesis unfolding keep_roots_def .
qed

section \<open>The order of what is kept\<close>

lemma apath_filtered:
  assumes "\<And>x q. keep x \<Longrightarrow> anchor_of adds x = Some q \<Longrightarrow> keep q" and "keep i"
  shows "apath (fmfilter keep adds) i p \<longleftrightarrow> apath adds i p"
proof
  show "apath (fmfilter keep adds) i p \<Longrightarrow> apath adds i p"
    by (induction rule: apath.induct) (auto intro: apath.intros split: if_splits)
  have "apath adds i p \<Longrightarrow> keep i \<longrightarrow> apath (fmfilter keep adds) i p"
  proof (induction rule: apath.induct)
    case (root i r)
    then show ?case by (auto intro: apath.root)
  next
    case (child i r a p)
    have "keep i \<Longrightarrow> keep a" using assms(1) [of i a] child.hyps by (simp add: anchor_of_def)
    with child show ?case by (auto intro: apath.child)
  qed
  then show "apath adds i p \<Longrightarrow> apath (fmfilter keep adds) i p" using assms(2) by blast
qed

lemma orderedIds_filtered:
  assumes o: "orderedIds adds = Inr xs" and closed: "\<And>x q. keep x \<Longrightarrow> anchor_of adds x = Some q \<Longrightarrow> keep q"
  shows "orderedIds (fmfilter keep adds) = Inr (filter keep xs)"
proof -
  have xs: "distinct xs" "\<And>i. i \<in> set xs \<longleftrightarrow> fmlookup adds i \<noteq> None" "sorted_wrt (displayed_before adds) xs"
    using orderedIds_total [of adds] unfolding o sum.case by blast+
  have ap: "apath (fmfilter keep adds) i p \<longleftrightarrow> apath adds i p" if "keep i" for i p
    by (rule apath_filtered [of keep adds, OF closed that])
  have hang: "hangs adds i" if "fmlookup adds i \<noteq> None" for i
    using o orderedIds_cases [of adds] that by (metis Inl_Inr_False domIff)
  have hang': "hangs (fmfilter keep adds) i" if "fmlookup (fmfilter keep adds) i \<noteq> None" for i
  proof -
    from that have "keep i" "fmlookup adds i \<noteq> None" by (auto split: if_splits)
    then show ?thesis using hang [of i] ap by (auto simp: hangs_def)
  qed
  obtain ys where y: "orderedIds (fmfilter keep adds) = Inr ys"
    using orderedIds_total [of "fmfilter keep adds"] hang' by (auto split: sum.splits)
  then have ys: "distinct ys" "\<And>i. i \<in> set ys \<longleftrightarrow> fmlookup (fmfilter keep adds) i \<noteq> None"
    "sorted_wrt (displayed_before (fmfilter keep adds)) ys" "total_on (displayed_before (fmfilter keep adds)) (set ys)"
    using orderedIds_total [of "fmfilter keep adds"] by auto
  have "sorted_wrt (displayed_before (fmfilter keep adds)) (filter keep xs)"
  proof (rule sorted_wrt_mono_rel [OF _ sorted_wrt_filter [OF xs(3)]])
    fix x y
    assume "x \<in> set (filter keep xs)" "y \<in> set (filter keep xs)" "displayed_before adds x y"
    then show "displayed_before (fmfilter keep adds) x y"
      using ap unfolding on_paths_def by auto
  qed
  moreover have "set ys = set (filter keep xs)" by (auto simp: ys(2) xs(2) split: if_splits)
  ultimately have "ys = filter keep xs" using sorted_unique [OF ys(4,3)] ys(1) xs(1) by auto
  with y show ?thesis by simp
qed

section \<open>The present reading\<close>

definition rga_ctx :: "int list \<Rightarrow> ('e rga_state, 't, 'v) peri \<Rightarrow> 'e ctx" where
  "rga_ctx xs s = (let birth = filter (\<lambda>i. i |\<notin>| rs_grave (ps_shadow s)) xs in
     \<lparr>cx_birth = birth, cx_live = filter (\<lambda>c. c |\<notin>| ps_deleted s) birth,
      cx_cp = map (\<lambda>i. (i, rr_el (the (fmlookup (rs_adds (ps_shadow s)) i)))) birth,
      cx_deleted = ps_deleted s, cx_hasBirth = rga_has (ps_shadow s)\<rparr>)"

definition ordered :: "'e rga_state \<Rightarrow> int list \<Rightarrow> bool" where
  "ordered s xs \<longleftrightarrow> orderedIds (rs_adds s) = Inr xs \<and> (rs_order s = None \<or> rs_order s = Some xs)"

lemma ordered_ids: "ordered s xs \<Longrightarrow> distinct xs \<and> (\<forall>i. i \<in> set xs \<longleftrightarrow> fmlookup (rs_adds s) i \<noteq> None)"
  using orderedIds_total [of "rs_adds s"] by (auto simp: ordered_def)

lemma buildCtx_rga: "ordered (ps_shadow s) xs \<Longrightarrow> buildCtx rga_kernel s = Inr (rga_ctx xs s)"
  by (auto simp: buildCtx_def rga_kernel_def rga_readEntries_def ordered_def rga_ctx_def Let_def comp_def)

lemma rga_ctx_ok: "ordered (ps_shadow s) xs \<Longrightarrow> ctx_ok (rga_ctx xs s)"
  using ordered_ids [of "ps_shadow s" xs] by (auto simp: ctx_ok_def rga_ctx_def Let_def rga_has_def)

text \<open>C2: the collector over the tombstone sequence preserves the present reading. Whenever the traversal succeeds and
  marks are as the mint leaves them, the collected state shows the same characters with the same marks, and its
  traversal is that of the state without the dropped ids. Every kept record has its anchor, if the state had it.\<close>

theorem rga_collector_reads:
  fixes s :: "('e rga_state, 't::linorder, 'v) peri"
  assumes "ordered (ps_shadow s) xs" and "minted (\<lambda>i. fmlookup (rs_adds (ps_shadow s)) i \<noteq> None) (ps_marks s)"
    and "\<not> po_unguardedPairDrop o1"
  shows "let s' = fst (compact_rga s ct o1); kept = (\<lambda>i. fmlookup (rs_adds (ps_shadow s')) i \<noteq> None) in
    renderDoc rga_kernel s' = renderDoc rga_kernel s \<and> ordered (ps_shadow s') (filter kept xs) \<and>
    (\<forall>i q. kept i \<longrightarrow> anchor_of (rs_adds (ps_shadow s)) i = Some q \<longrightarrow> fmlookup (rs_adds (ps_shadow s)) q \<noteq> None \<longrightarrow> kept q)"
proof -
  let ?adds = "rs_adds (ps_shadow s)"
  define ms where "ms = fst (cancelled_marks (ps_marks s) (fm_keys ?adds) ct o1)"
  define keep where "keep = keep_all ?adds (keep_roots ?adds (ps_deleted s) ct ms)"
  let ?K = "\<lambda>i. i \<in> set keep"
  define s' where "s' = fst (compact_rga s ct o1)"
  have s': "s' = \<lparr>ps_shadow = \<lparr>rs_adds = fmfilter ?K ?adds, rs_grave = ffilter ?K (rs_grave (ps_shadow s)), rs_order = None\<rparr>,
      ps_deleted = ffilter ?K (ps_deleted s), ps_marks = ms\<rparr>"
    by (simp add: s'_def compact_rga_def Let_def keep_def ms_def split_def)
  have closed: "?K x \<Longrightarrow> anchor_of ?adds x = Some q \<Longrightarrow> ?K q" for x q
    unfolding keep_def by (rule keep_all_closed(2))
  have o: "ordered (ps_shadow s') (filter ?K xs)"
    using orderedIds_filtered [of ?adds xs ?K, OF _ closed] assms(1) by (simp add: ordered_def s')
  note ids = ordered_ids [OF assms(1)]
  have fx: "filter (\<lambda>i. fmlookup (rs_adds (ps_shadow s')) i \<noteq> None) xs = filter ?K xs"
    by (rule filter_cong) (use ids in \<open>auto simp: s'\<close>)
  have roots: "?K i" if "i \<in> set (keep_roots ?adds (ps_deleted s) ct ms)" for i
    using that keep_all_closed(1) unfolding keep_def by blast
  have live: "?K i" if "fmlookup ?adds i \<noteq> None" "i |\<notin>| ps_deleted s" for i
  proof (rule roots)
    have "i \<in> set (fm_keys ?adds)" using that(1) unfolding set_fm_keys by (rule domIff [THEN iffD2])
    then show "i \<in> set (keep_roots ?adds (ps_deleted s) ct ms)" using that(2) by (simp add: set_keep_roots keep_live_def)
  qed
  let ?ctx = "rga_ctx xs s" and ?ctx' = "rga_ctx (filter ?K xs) s'"
  have R: "ctx_restr ?K ?ctx ?ctx'"
    unfolding ctx_restr_def
  proof (intro conjI)
    show "ctx_ok ?ctx" "ctx_ok ?ctx'" by (rule rga_ctx_ok [OF assms(1)], rule rga_ctx_ok [OF o])
    show "cx_birth ?ctx' = filter ?K (cx_birth ?ctx)"
      unfolding rga_ctx_def Let_def by (simp add: s') (rule filter_cong, auto)
    show "cx_live ?ctx' = cx_live ?ctx"
      unfolding rga_ctx_def Let_def by (simp add: s') (rule filter_cong, use ids live in auto)
    show "\<forall>i \<in> set (cx_birth ?ctx). ?K i \<longrightarrow> (i |\<in>| cx_deleted ?ctx' \<longleftrightarrow> i |\<in>| cx_deleted ?ctx)"
      by (simp add: rga_ctx_def Let_def s')
  qed
  obtain Q where Q: "guarded (ps_marks s) (fm_keys ?adds) ct Q" "ps_marks s' = fmfilter (outside Q) (ps_marks s)"
    using cancelled_outside [of "ps_marks s" "fm_keys ?adds" ct o1] assms(3) by (auto simp: guarded_def s' ms_def)
  have "renderDoc rga_kernel s' = renderDoc rga_kernel s"
  proof (rule render_compacted [OF buildCtx_rga [OF assms(1)] buildCtx_rga [OF o] R assms(2) _ Q], rule ballI)
    fix x
    assume "x \<in> set (cx_live ?ctx)"
    then have l: "fmlookup ?adds x \<noteq> None" using ids by (simp add: rga_ctx_def Let_def)
    then have "x \<in> dom (fmlookup ?adds)" by (rule domIff [THEN iffD2])
    with l show "x \<in> set (fm_keys ?adds) \<and> fmlookup ?adds x \<noteq> None" unfolding set_fm_keys by (rule conjI [rotated])
  next
    fix m i
    assume m: "m \<in> set (map snd (fm_entries (ps_marks s')))" "i \<in> set (anchorsOf m)"
    then show "?K i" by (intro roots) (auto simp: set_keep_roots s')
  next
    fix x
    assume x: "x \<in> set (cx_live ?ctx)"
    then have K: "?K x" using live ids by (simp add: rga_ctx_def Let_def)
    have b: "x \<in> set (cx_birth ?ctx)" using x by (simp add: rga_ctx_def Let_def)
    then have "x \<in> set (cx_birth ?ctx')" using K R by (simp add: ctx_restr_def)
    note b = b this
    have mo: "x \<in> set ys \<Longrightarrow> map_of (map (\<lambda>i. (i, f i)) ys) x = Some (f x)" for ys and f :: "int \<Rightarrow> 'e" by (induction ys) auto
    show "map_of (cx_cp ?ctx') x = map_of (cx_cp ?ctx) x"
      using b K unfolding rga_ctx_def Let_def by (simp add: mo s' del: set_filter)
  qed
  moreover have "fmlookup (rs_adds (ps_shadow s')) q \<noteq> None"
    if "fmlookup (rs_adds (ps_shadow s')) i \<noteq> None" "anchor_of ?adds i = Some q" "fmlookup ?adds q \<noteq> None" for i q
    using that closed [of i q] by (auto simp: s' split: if_splits)
  ultimately show ?thesis using o fx unfolding Let_def s'_def [symmetric] by auto
qed

text \<open>Two characters, the second deleted and settled.\<close>

definition rgc_state :: "(nat rga_state, nat, nat) peri" where
  "rgc_state = \<lparr>ps_shadow = \<lparr>rs_adds = fmap_of_list [(1, \<lparr>rr_anchor = None, rr_el = 10\<rparr>), (2, \<lparr>rr_anchor = Some 1, rr_el = 11\<rparr>)],
     rs_grave = {||}, rs_order = None\<rparr>, ps_deleted = {|2|}, ps_marks = fmempty\<rparr>"

definition rgc_cut :: "(nat, nat) pcut" where
  "rgc_cut = \<lparr>pc_settledIds = [1, 2], pc_settledDelIds = [2], pc_settledMarkMids = [], pc_inflightIns = [], pc_inflightMarks = []\<rparr>"

definition rgc_opts :: popts where
  "rgc_opts = \<lparr>po_pairDrop = True, po_unguardedPairDrop = False, po_noRetention = False, po_text = \<lparr>op_unguarded = False, op_fuse = False\<rparr>\<rparr>"

theorem rga_collector_reads_witness:
  "renderDoc rga_kernel (fst (compact_rga rgc_state rgc_cut rgc_opts)) = renderDoc rga_kernel rgc_state \<and>
   fm_keys (rs_adds (ps_shadow (fst (compact_rga rgc_state rgc_cut rgc_opts)))) = [1]"
proof -
  have "orderedIds (rs_adds (ps_shadow rgc_state)) = Inr [1, 2]" by code_simp
  then have "ordered (ps_shadow rgc_state) [1, 2]" by (simp add: ordered_def rgc_state_def)
  moreover have "minted (\<lambda>i. fmlookup (rs_adds (ps_shadow rgc_state)) i \<noteq> None) (ps_marks rgc_state)" by (simp add: minted_def rgc_state_def)
  moreover have "\<not> po_unguardedPairDrop rgc_opts" by (simp add: rgc_opts_def)
  ultimately have "renderDoc rga_kernel (fst (compact_rga rgc_state rgc_cut rgc_opts)) = renderDoc rga_kernel rgc_state"
    using rga_collector_reads [of rgc_state "[1, 2]" rgc_opts rgc_cut] by (simp add: Let_def)
  moreover have "fm_keys (rs_adds (ps_shadow (fst (compact_rga rgc_state rgc_cut rgc_opts)))) = [1]" by code_simp
  ultimately show ?thesis by blast
qed

text \<open>
  The negative control: an insertion after the deleted character, which the state takes, is refused once it is
  collected.
\<close>

lemma late_insert_refused:
  "(case peri_apply rga_kernel rgc_state (PIns (3, 12, Some 2)) of Inl _ \<Rightarrow> False | Inr _ \<Rightarrow> True) \<and>
   (case peri_apply rga_kernel (fst (compact_rga rgc_state rgc_cut rgc_opts)) (PIns (3, 12, Some 2)) of
      Inl e \<Rightarrow> e = Error ''anchor not known'' | Inr _ \<Rightarrow> False)"
  by code_simp

end
