(* ===== verification/EditBind.thy ===== *)
theory EditBind
  imports Peritext
begin

text \<open>
  From gestures of an editor to operations (\<^verbatim>\<open>p2p-demo/src/peritextbind.js\<close> and \<^verbatim>\<open>p2p-demo/src/editbind.js\<close>).
  A text of the editor is a list of UTF-16 code units, a character of a document the list of its units; an array
  is indexed by reading position, and an index past its end gives \<^verbatim>\<open>undefined\<close>, here \<open>None\<close>. The minting
  function \<open>mint\<close> has a state of its own.
\<close>

section \<open>The replaced part of a text\<close>

fun common :: "'a list \<Rightarrow> 'a list \<Rightarrow> nat" where
  "common (x # xs) (y # ys) = (if x = y then Suc (common xs ys) else 0)"
| "common xs ys = 0"

text \<open>The lengths of the common prefix and of the common suffix of what is left.\<close>

definition edit_prefix :: "'a list \<Rightarrow> 'a list \<Rightarrow> nat" where
  "edit_prefix oldText newText = common oldText newText"

definition edit_suffix :: "'a list \<Rightarrow> 'a list \<Rightarrow> nat" where
  "edit_suffix oldText newText = (let p = edit_prefix oldText newText in
     common (rev (drop p oldText)) (rev (drop p newText)))"

definition del_count :: "'a list \<Rightarrow> 'a list \<Rightarrow> nat" where
  "del_count oldText newText = length oldText - edit_prefix oldText newText - edit_suffix oldText newText"

definition ins_str :: "'a list \<Rightarrow> 'a list \<Rightarrow> 'a list" where
  "ins_str oldText newText = drop (edit_prefix oldText newText) (take (length newText - edit_suffix oldText newText) newText)"

text \<open>The iteration of a string: a pair of surrogates is one step.\<close>

fun points :: "nat list \<Rightarrow> nat list list" where
  "points (h # l # cs) = (if 0xD800 \<le> h \<and> h < 0xDC00 \<and> 0xDC00 \<le> l \<and> l < 0xE000
     then [h, l] # points cs else [h] # points (l # cs))"
| "points [c] = [[c]]"
| "points [] = []"

definition at :: "'a list \<Rightarrow> nat \<Rightarrow> 'a option" where
  "at xs i = (if i < length xs then Some (xs ! i) else None)"

section \<open>Text edits\<close>

text \<open>An operation as the binding builds it: ids taken from the document may be undefined.\<close>

datatype ('t, 'v) bind_op =
    BDel "int option"
  | BIns int "nat list" "int option"
  | BMark bool int 't "'v option" "int option" "int option" side side

definition docSnapshot :: "(nat list, 't, 'v) rendered list \<Rightarrow> int list \<times> nat list" where
  "docSnapshot doc = (map re_id doc, concat (map (\<lambda>e. case re_char e of Some c \<Rightarrow> c | None \<Rightarrow> []) doc))"

definition edit_anchor :: "int list \<Rightarrow> nat \<Rightarrow> int option" where
  "edit_anchor ids p = (if p > 0 then at ids (p - 1) else None)"

fun insert_ops :: "('m \<Rightarrow> int \<times> 'm) \<Rightarrow> int option \<Rightarrow> nat list list \<Rightarrow> 'm \<Rightarrow> ('t, 'v) bind_op list \<times> 'm" where
  "insert_ops mint anchor [] m = ([], m)"
| "insert_ops mint anchor (ch # chs) m = (case mint m of (id1, m1) \<Rightarrow>
     (case insert_ops mint (Some id1) chs m1 of (ops, m2) \<Rightarrow> (BIns id1 ch anchor # ops, m2)))"

definition textEditOps ::
  "('m \<Rightarrow> int \<times> 'm) \<Rightarrow> int list \<Rightarrow> nat list \<Rightarrow> nat list \<Rightarrow> 'm \<Rightarrow> ('t, 'v) bind_op list \<times> 'm"
where
  "textEditOps mint ids oldText newText m =
     (let p = edit_prefix oldText newText;
          dels = map (\<lambda>i. BDel (at ids (p + i))) [0..<del_count oldText newText];
          (inss, m') = insert_ops mint (edit_anchor ids p) (points (ins_str oldText newText)) m
      in (dels @ inss, m'))"

text \<open>
  The plain binding commits as it goes: \<open>commit\<close> changes the node, or throws, and the minting function reads
  it. The result has the numbers of deletions and of inserted units.
\<close>

fun insert_loop ::
  "('n \<Rightarrow> int \<times> 'n) \<Rightarrow> (('t, 'v) bind_op \<Rightarrow> 'n \<Rightarrow> 'n res) \<Rightarrow> int option \<Rightarrow> nat list list \<Rightarrow> 'n \<Rightarrow> 'n res"
where
  "insert_loop mint commit anchor [] n = Inr n"
| "insert_loop mint commit anchor (ch # chs) n = (case mint n of (id1, n1) \<Rightarrow>
     rbind (commit (BIns id1 ch anchor) n1) (insert_loop mint commit (Some id1) chs))"

definition applyTextEdit ::
  "('n \<Rightarrow> int \<times> 'n) \<Rightarrow> (('t, 'v) bind_op \<Rightarrow> 'n \<Rightarrow> 'n res) \<Rightarrow> int list \<Rightarrow> nat list \<Rightarrow> nat list \<Rightarrow> 'n \<Rightarrow>
   ('n \<times> nat \<times> nat) res"
where
  "applyTextEdit mint commit ids oldText newText n =
     (let p = edit_prefix oldText newText in
      rbind (foldM (\<lambda>i n. commit (BDel (at ids (p + i))) n) [0..<del_count oldText newText] n) (\<lambda>n1.
      rbind (insert_loop mint commit (edit_anchor ids p) (points (ins_str oldText newText)) n1) (\<lambda>n2.
        Inr (n2, del_count oldText newText, length (ins_str oldText newText)))))"

section \<open>Formats\<close>

record 'v format_opts =
  fo_remove :: bool
  fo_value :: "'v option"
  fo_startSide :: side
  fo_endSide :: side

definition formatOps ::
  "('m \<Rightarrow> int \<times> 'm) \<Rightarrow> int list \<Rightarrow> nat \<Rightarrow> nat \<Rightarrow> 't \<Rightarrow> 'v format_opts \<Rightarrow> 'm \<Rightarrow> ('t, 'v) bind_op list \<times> 'm"
where
  "formatOps mint ids lo hi mtype o1 m =
     (if hi \<le> lo then ([], m)
      else (case mint m of (mid, m1) \<Rightarrow>
        let (endId, endSide) = (if fo_endSide o1 = Before \<and> hi < length ids then (at ids hi, Before) else (at ids (hi - 1), After))
        in ([BMark (fo_remove o1) mid mtype (fo_value o1) (at ids lo) endId (fo_startSide o1) endSide], m1)))"

text \<open>A node: its reading, its state and how it commits, in one batch where it can.\<close>

record ('n, 't, 'v) editor_node =
  nd_read :: "'n \<Rightarrow> (nat list, 't, 'v) rendered list res"
  nd_commit :: "('t, 'v) bind_op \<Rightarrow> 'n \<Rightarrow> 'n res"
  nd_commitBatch :: "(('t, 'v) bind_op list \<Rightarrow> 'n \<Rightarrow> 'n res) option"
  nd_speculate :: "'n \<Rightarrow> ('t, 'v) bind_op list \<Rightarrow> (nat list, 't, 'v) rendered list res"

definition commitOps :: "('n, 't, 'v) editor_node \<Rightarrow> ('t, 'v) bind_op list \<Rightarrow> 'n \<Rightarrow> 'n res" where
  "commitOps nd ops n = (if ops = [] then Inr n
     else case nd_commitBatch nd of Some f \<Rightarrow> f ops n | None \<Rightarrow> foldM (nd_commit nd) ops n)"

definition typeEdit ::
  "('n, 't, 'v) editor_node \<Rightarrow> ('m \<Rightarrow> int \<times> 'm) \<Rightarrow> nat list \<Rightarrow> 'n \<Rightarrow> 'm \<Rightarrow> ('n \<times> ('t, 'v) bind_op list \<times> 'm) res"
where
  "typeEdit nd mint newText n m = rbind (nd_read nd n) (\<lambda>doc.
     let (ids, txt) = docSnapshot doc; (ops, m') = textEditOps mint ids txt newText m in
     rbind (commitOps nd ops n) (\<lambda>n'. Inr (n', ops, m')))"

definition format ::
  "('n, 't, 'v) editor_node \<Rightarrow> ('m \<Rightarrow> int \<times> 'm) \<Rightarrow> nat \<Rightarrow> nat \<Rightarrow> 't \<Rightarrow> 'v format_opts \<Rightarrow> 'n \<Rightarrow> 'm \<Rightarrow>
   ('n \<times> ('t, 'v) bind_op list \<times> 'm) res"
where
  "format nd mint lo hi mtype o1 n m = rbind (nd_read nd n) (\<lambda>doc.
     let (ops, m') = formatOps mint (map re_id doc) lo hi mtype o1 m in
     rbind (commitOps nd ops n) (\<lambda>n'. Inr (n', ops, m')))"

section \<open>Queries on a document\<close>

definition has_mark :: "'t \<Rightarrow> ('e, 't, 'v) rendered \<Rightarrow> bool" where
  "has_mark mtype e \<longleftrightarrow> list_ex (\<lambda>x. fst x = mtype) (re_marks e)"

text \<open>The loop reads past the end of the document only if no earlier character lacks the mark.\<close>

definition selectionHas :: "('e, 't, 'v) rendered list \<Rightarrow> nat \<Rightarrow> nat \<Rightarrow> 't \<Rightarrow> bool res" where
  "selectionHas doc lo hi mtype = (if hi \<le> lo then Inr False
     else if list_all (has_mark mtype) (drop lo (take hi doc))
     then (if length doc < hi then Inl (TypeError ''marks'') else Inr True) else Inr False)"

definition coveringMarkTypes :: "('e, string, 'v) rendered list \<Rightarrow> nat \<Rightarrow> nat \<Rightarrow> string \<Rightarrow> string list" where
  "coveringMarkTypes doc lo hi pre = (if hi \<le> lo \<or> length doc < hi then []
     else filter (\<lambda>t. selectionHas doc lo hi t = Inr True)
       (filter (\<lambda>t. take (length pre) t = pre) (js_add_all (map fst (re_marks (doc ! lo))) [])))"

definition specRead :: "('n, 't, 'v) editor_node \<Rightarrow> 'n \<Rightarrow> ('t, 'v) bind_op list \<Rightarrow> (nat list, 't, 'v) rendered list res" where
  "specRead nd n pending = (if pending = [] then nd_read nd n else nd_speculate nd n pending)"

fun span_loop :: "'t \<Rightarrow> nat \<Rightarrow> (nat \<times> nat) option \<Rightarrow> ('e, 't, 'v) rendered list \<Rightarrow> (nat \<times> nat) option" where
  "span_loop mtype i r [] = r"
| "span_loop mtype i r (e # doc) = span_loop mtype (Suc i)
     (if has_mark mtype e then Some (case r of None \<Rightarrow> i | Some x \<Rightarrow> fst x, Suc i) else r) doc"

definition markSpan :: "('e, 't, 'v) rendered list \<Rightarrow> 't \<Rightarrow> (nat \<times> nat) option" where
  "markSpan doc mtype = span_loop mtype 0 None doc"

section \<open>Over the embedded rich text\<close>

text \<open>
  What an operation of the binding is for the datatype. The model of the datatype has no operation on an undefined
  id: such are left out here, and the results below are about operations without them.
\<close>

fun as_peri :: "('t, 'v) bind_op \<Rightarrow> (int \<times> nat list \<times> int option, 't, 'v) peri_op list" where
  "as_peri (BDel (Some i)) = [PDel i]"
| "as_peri (BDel None) = []"
| "as_peri (BIns i el anchor) = [PIns (i, el, anchor)]"
| "as_peri (BMark removed mid mtype v (Some a) (Some b) ss es) =
     [(if removed then PRemoveMark else PAddMark) \<lparr>mo_mid = mid, mo_mtype = mtype, mo_value = v, mo_startId = a, mo_endId = b,
        mo_startSide = Some ss, mo_endSide = Some es, mo_ts = Some mid\<rparr>]"
| "as_peri (BMark removed mid mtype v a b ss es) = []"

definition peri_commit :: "('t, 'v) bind_op list \<Rightarrow> (nat list emb, 't, 'v) peri \<Rightarrow> (nat list emb, 't, 'v) peri res" where
  "peri_commit ops s = peri_applyBatch (emb_kernel dEnc) s (concat (map as_peri ops))"

definition peri_node :: "((nat list emb, 't::linorder, 'v) peri, 't, 'v) editor_node" where
  "peri_node = \<lparr>nd_read = renderDoc (emb_kernel dEnc), nd_commit = (\<lambda>op. peri_commit [op]), nd_commitBatch = Some peri_commit,
     nd_speculate = (\<lambda>s ops. rbind (peri_commit ops s) (renderDoc (emb_kernel dEnc)))\<rparr>"

end
