(* ===== verification/EditBindSound.thy ===== *)
theory EditBindSound
  imports EditBind PeritextGc PeritextRuns
begin

text \<open>
  What the editor binding promises: the operations of a text edit turn the document into the new text. Newest
  ids go directly after their anchor, in the births and among the live characters; texts whose characters are
  single code units correspond to reading positions, and the last section shows what happens otherwise.
\<close>

section \<open>The replaced part\<close>

lemma common_take: "take (common xs ys) xs = take (common xs ys) ys \<and> common xs ys \<le> length xs \<and> common xs ys \<le> length ys"
  by (induction xs ys rule: common.induct) auto

lemma edit_split:
  obtains P D I S where "old = P @ D @ S" "new = P @ I @ S" "edit_prefix old new = length P"
    "del_count old new = length D" "ins_str old new = I"
proof -
  let ?p = "edit_prefix old new" and ?s = "edit_suffix old new"
  have p: "take ?p old = take ?p new" "?p \<le> length old" "?p \<le> length new"
    using common_take [of old new] by (simp_all add: edit_prefix_def)
  have s: "take ?s (rev (drop ?p old)) = take ?s (rev (drop ?p new))" "?s \<le> length old - ?p" "?s \<le> length new - ?p"
    using common_take [of "rev (drop ?p old)" "rev (drop ?p new)"] by (simp_all add: edit_suffix_def Let_def)
  have e: "drop (length old - ?p - ?s) (drop ?p old) = drop (length new - ?p - ?s) (drop ?p new)"
    using arg_cong [OF s(1), of rev] by (simp add: rev_take)
  let ?D = "take (length old - ?p - ?s) (drop ?p old)" and ?I = "take (length new - ?p - ?s) (drop ?p new)"
  have o: "old = take ?p old @ ?D @ drop (length old - ?p - ?s) (drop ?p old)"
    by (simp only: append_take_drop_id)
  have n: "new = take ?p old @ ?I @ drop (length old - ?p - ?s) (drop ?p old)"
    unfolding e p(1) by (simp only: append_take_drop_id)
  have i: "ins_str old new = ?I" using s(3) p(3) by (simp add: ins_str_def drop_take add.commute)
  show ?thesis
    by (rule that [OF o n]) (use p s i in \<open>simp_all add: del_count_def\<close>)
qed

definition plain_units :: "nat list \<Rightarrow> bool" where
  "plain_units cs \<longleftrightarrow> (\<forall>c \<in> set cs. \<not> (0xD800 \<le> c \<and> c < 0xDC00))"

lemma points_plain: "plain_units cs \<Longrightarrow> points cs = map (\<lambda>c. [c]) cs"
  by (induction cs rule: points.induct) (auto simp: plain_units_def)

section \<open>A newest id goes after its anchor\<close>

text \<open>
  The chains of a state: every delta below a record leads to an id at least as high as the sum, which holds
  for telescoped chains and stays true when a compaction makes deltas smaller.
\<close>

definition aged :: "(int \<Rightarrow> nat list) \<Rightarrow> 'e emb \<Rightarrow> bool" where
  "aged ch s \<longleftrightarrow> (\<forall>i r. fmlookup s i = Some r \<longrightarrow> 1 \<le> i \<and> positive (ch i) \<and> ch i \<noteq> [] \<and> er_coord r = concat (map dEnc (ch i))) \<and>
     (\<forall>i j. fmlookup s i \<noteq> None \<longrightarrow> fmlookup s j \<noteq> None \<longrightarrow> ch i = ch j \<longrightarrow> i = j) \<and>
     (\<forall>i d ds. fmlookup s i \<noteq> None \<longrightarrow> ch i = d # ds \<longrightarrow> int d \<le> i) \<and>
     (\<forall>i a d ds. fmlookup s i \<noteq> None \<longrightarrow> fmlookup s a \<noteq> None \<longrightarrow> ch i = ch a @ d # ds \<longrightarrow> a + int d \<le> i)"

lemma agedD:
  assumes "aged ch s"
  shows "fmlookup s i = Some r \<Longrightarrow> 1 \<le> i \<and> positive (ch i) \<and> ch i \<noteq> [] \<and> er_coord r = concat (map dEnc (ch i))"
    and "fmlookup s i \<noteq> None \<Longrightarrow> fmlookup s j \<noteq> None \<Longrightarrow> ch i = ch j \<Longrightarrow> i = j"
    and "fmlookup s i \<noteq> None \<Longrightarrow> ch i = d # ds \<Longrightarrow> int d \<le> i"
    and "fmlookup s i \<noteq> None \<Longrightarrow> fmlookup s a \<noteq> None \<Longrightarrow> ch i = ch a @ d # ds \<Longrightarrow> a + int d \<le> i"
  using assms unfolding aged_def by blast+

abbreviation before_in :: "(int \<Rightarrow> nat list) \<Rightarrow> int \<Rightarrow> int \<Rightarrow> bool" where
  "before_in ch i j \<equiv> chain_before (ch i) (ch j)"

lemma aged_total: "aged ch s \<Longrightarrow> total_on (before_in ch) {i. fmlookup s i \<noteq> None}"
  unfolding total_on_def using chain_before_total chain_before_asym chain_before_trans agedD(2)
  by (smt (verit, best) mem_Collect_eq)

lemma aged_read_sorted:
  assumes a: "aged ch s"
  shows "sorted_wrt (before_in ch) (emb_readIds s)"
proof -
  let ?E = "fm_entries s"
  have l: "fmlookup s (fst x) = Some (snd x)" if "x \<in> set ?E" for x using that fm_entries_iff [of "fst x" "snd x" s] by simp
  have b: "emb_before x y \<longleftrightarrow> before_in ch (fst x) (fst y)" if "x \<in> set ?E" "y \<in> set ?E" for x y
  proof -
    note x = agedD(1) [OF a l [OF that(1)]] and y = agedD(1) [OF a l [OF that(2)]]
    have k: "dkey (er_coord (snd y)) < dkey (er_coord (snd x)) \<longleftrightarrow> before_in ch (fst x) (fst y)" 
      using elias.dkey_order [of "ch (fst x)" "ch (fst y)"] x y by (simp add: elias.cat_def)
    have k': "dkey (er_coord (snd x)) < dkey (er_coord (snd y)) \<longleftrightarrow> before_in ch (fst y) (fst x)"
      using elias.dkey_order [of "ch (fst y)" "ch (fst x)"] x y by (simp add: elias.cat_def)
    show ?thesis
    proof (cases "fst x = fst y")
      case True
      then have "x = y" using l [OF that(1)] l [OF that(2)] by (simp add: prod_eq_iff)
      then show ?thesis by (simp add: emb_before_def chain_before_irrefl)
    next
      case False
      then have "before_in ch (fst x) (fst y) \<or> before_in ch (fst y) (fst x)"
        using chain_before_total agedD(2) [OF a, of "fst x" "fst y"] l [OF that(1)] l [OF that(2)] by auto
      then have "dkey (er_coord (snd x)) \<noteq> dkey (er_coord (snd y))" using k k' by auto
      then show ?thesis using k by (simp add: emb_before_def)
    qed
  qed
  have d: "distinct (map fst ?E)" by simp
  then have de: "distinct ?E" and inj: "inj_on fst (set ?E)" unfolding distinct_map by blast+
  have t: "total_on emb_before (set ?E)"
    unfolding total_on_def
  proof (intro conjI ballI impI)
    note t = aged_total [OF a, THEN total_onD(1)] aged_total [OF a, THEN total_onD(2)] aged_total [OF a, THEN total_onD(3)]
    fix x y
    assume xy: "x \<in> set ?E" "y \<in> set ?E"
    then have m: "fst x \<in> {i. fmlookup s i \<noteq> None}" "fst y \<in> {i. fmlookup s i \<noteq> None}" using l by auto
    show "x \<noteq> y \<Longrightarrow> emb_before x y \<or> emb_before y x"
      using t(1) [OF m] inj_onD [OF inj, of x y] xy b [OF xy] b [OF xy(2,1)] by blast
    show "emb_before x y \<Longrightarrow> \<not> emb_before y x" using b [OF xy] b [OF xy(2,1)] chain_before_asym by blast
    fix z
    assume "z \<in> set ?E" "emb_before x y" "emb_before y z"
    then show "emb_before x z" using b xy chain_before_trans by blast
  qed
  have "sorted_wrt emb_before (sort_by emb_before ?E)" by (rule sorted_sort_by [OF t de])
  then have "sorted_wrt (\<lambda>x y. before_in ch (fst x) (fst y)) (sort_by emb_before ?E)"
    by (rule sorted_wrt_mono_rel [rotated]) (use b in simp)
  then show ?thesis by (simp add: emb_readIds_def emb_readEntries_def sorted_wrt_map)
qed

lemma aged_read_unique:
  assumes "aged ch s" and "distinct xs" and "set xs = {i. fmlookup s i \<noteq> None}" and "sorted_wrt (before_in ch) xs"
  shows "emb_readIds s = xs"
  using sorted_unique [OF _ aged_read_sorted [OF assms(1)] assms(4)] aged_total [OF assms(1)] assms(2,3)
    distinct_emb_readIds [of s] set_emb_readIds [of s] by simp

text \<open>Inserting a new highest id.\<close>

definition chain_for :: "(int \<Rightarrow> nat list) \<Rightarrow> int \<Rightarrow> int option \<Rightarrow> nat list" where
  "chain_for ch n anc = (case anc of None \<Rightarrow> [nat n] | Some a \<Rightarrow> ch a @ [nat (n - a)])"

lemma aged_insert:
  assumes a: "aged ch s" and new: "\<forall>i. fmlookup s i \<noteq> None \<longrightarrow> i < n" and n: "1 \<le> n"
    and anc: "case anc of None \<Rightarrow> True | Some x \<Rightarrow> fmlookup s x \<noteq> None"
  shows "\<exists>r. emb_apply dEnc s (EIns n el anc) = Inr (fmupd n r s) \<and> er_el r = el \<and>
    aged (ch(n := chain_for ch n anc)) (fmupd n r s) \<and> emb_readIds (fmupd n r s) = insert_after anc n (emb_readIds s)"
proof -
  let ?c = "chain_for ch n anc" and ?ch = "ch(n := chain_for ch n anc)"
  let ?r = "\<lparr>er_coord = concat (map dEnc ?c), er_el = el\<rparr>" and ?s = "fmupd n \<lparr>er_coord = concat (map dEnc (chain_for ch n anc)), er_el = el\<rparr> s"
  have fresh: "fmlookup s n = None" using new by (cases "fmlookup s n") auto
  have below: "a < n \<and> 1 \<le> a \<and> positive (ch a) \<and> ch a \<noteq> []" if "anc = Some a" for a
    using anc that new agedD(1) [OF a, of a] by auto
  have ap: "emb_apply dEnc s (EIns n el anc) = Inr ?s"
  proof (cases anc)
    case None
    then show ?thesis using fresh n by (simp add: insRecord_def emb_enc_def chain_for_def)
  next
    case (Some x)
    then obtain rx where rx: "fmlookup s x = Some rx" using anc by auto
    show ?thesis using Some rx fresh below [OF Some] agedD(1) [OF a rx] by (simp add: insRecord_def emb_enc_def chain_for_def)
  qed
  text \<open>A chain through the new position belongs to no old id.\<close>
  have old: "ch i \<noteq> ?c @ ds" if i: "fmlookup s i \<noteq> None" for i ds
  proof
    assume e: "ch i = ?c @ ds"
    have "n \<le> i"
    proof (cases anc)
      case None
      then show ?thesis using agedD(3) [OF a i, of "nat n" ds] e n by (simp add: chain_for_def)
    next
      case (Some x)
      then show ?thesis using agedD(4) [OF a i, of x "nat (n - x)" ds] e anc below [OF Some] by (simp add: chain_for_def)
    qed
    with new i show False by fastforce
  qed
  have pc: "positive ?c" "?c \<noteq> []" using n below by (auto simp: chain_for_def split: option.split)
  have aged': "aged ?ch ?s"
    unfolding aged_def
  proof (intro conjI allI impI)
    fix i r
    assume r: "fmlookup ?s i = Some r"
    show "1 \<le> i" "positive (?ch i)" "?ch i \<noteq> []" "er_coord r = concat (map dEnc (?ch i))"
      using r pc n agedD(1) [OF a, of i r] by (auto split: if_splits)
  next
    fix i j
    assume i: "fmlookup ?s i \<noteq> None" and j: "fmlookup ?s j \<noteq> None" and e: "?ch i = ?ch j"
    have o: "ch k \<noteq> ?c" if "fmlookup s k \<noteq> None" for k using old [OF that, of "[]"] by simp
    show "i = j"
    proof (cases "i = n \<or> j = n")
      case True
      show ?thesis
      proof (rule ccontr)
        assume "i \<noteq> j"
        with True consider "i = n" "j \<noteq> n" | "j = n" "i \<noteq> n" by blast
        then show False by cases (use o [of i] o [of j] i j e in simp_all)
      qed
    next
      case False
      then show ?thesis using agedD(2) [OF a, of i j] i j e by simp
    qed
  next
    fix i d ds
    assume i: "fmlookup ?s i \<noteq> None" and e: "?ch i = d # ds"
    show "int d \<le> i"
    proof (cases "i = n")
      case False
      then show ?thesis using agedD(3) [OF a, of i d ds] i e by simp
    next
      case True
      show ?thesis
      proof (cases anc)
        case None
        then show ?thesis using e True n by (auto simp: chain_for_def)
      next
        case (Some x)
        obtain d' ds' where c: "ch x = d' # ds'" using below [OF Some] by (cases "ch x") auto
        then have "int d' \<le> x" using agedD(3) [OF a _ c] anc Some by simp
        then show ?thesis using e True Some c below [OF Some] by (simp add: chain_for_def)
      qed
    qed
  next
    fix i b d ds
    assume i: "fmlookup ?s i \<noteq> None" and b: "fmlookup ?s b \<noteq> None" and e: "?ch i = ?ch b @ d # ds"
    show "b + int d \<le> i"
    proof (cases "b = n")
      case True
      then show ?thesis using e old [of i "d # ds"] i by (auto split: if_splits)
    next
      case False
      then have b: "fmlookup s b \<noteq> None" using b by simp
      show ?thesis
      proof (cases "i = n")
        case False
        then show ?thesis using agedD(4) [OF a _ b] i e \<open>b \<noteq> n\<close> by simp
      next
        case True
        have bn: "ch b \<noteq> []" using agedD(1) [OF a] b by auto
        obtain x where x: "anc = Some x" "ch x @ [nat (n - x)] = ch b @ d # ds"
          using e True \<open>b \<noteq> n\<close> bn by (cases anc) (auto simp: chain_for_def Cons_eq_append_conv)
        show ?thesis
        proof (cases ds rule: rev_cases)
          case Nil
          then have "ch x = ch b" "d = nat (n - x)" using x(2) by simp_all
          moreover have xs: "fmlookup s x \<noteq> None" using anc x(1) by simp
          ultimately have "x = b" by (intro agedD(2) [OF a xs b])
          then show ?thesis using \<open>d = nat (n - x)\<close> True below [OF x(1)] by simp
        next
          case (snoc ds' z)
          then have "ch x = ch b @ d # ds'" using x(2) by simp
          then have "b + int d \<le> x" using agedD(4) [OF a _ b] anc x(1) by simp
          then show ?thesis using True below [OF x(1)] by simp
        qed
      qed
    qed
  qed
  have "emb_readIds ?s = insert_after anc n (emb_readIds s)"
  proof -
    let ?xs = "emb_readIds s"
    note set = set_emb_readIds [of s] and srt = aged_read_sorted [OF a] and dst = distinct_emb_readIds [of s]
    have nn: "n \<notin> set ?xs" using fresh by (simp add: set)
    have small: "c < d" if j: "j \<in> set ?xs" "ch j = take (length ?c - 1) ?c @ c # cs" and d: "d = last ?c" for j c cs d
    proof (cases anc)
      case None
      then show ?thesis using agedD(3) [OF a, of j c cs] j new d n by (auto simp: set chain_for_def)
    next
      case (Some x)
      then show ?thesis using agedD(4) [OF a, of j x c cs] j new d anc below [OF Some] by (fastforce simp: set chain_for_def)
    qed
    have ord: "sorted_wrt (before_in ?ch) ys \<longleftrightarrow> sorted_wrt (before_in ch) ys" if "set ys \<subseteq> set ?xs" for ys
    proof -
      have e: "before_in ?ch x y \<longleftrightarrow> before_in ch x y" if "x \<in> set ys" "y \<in> set ys" for x y
      proof -
        have "x \<noteq> n" "y \<noteq> n" using that \<open>set ys \<subseteq> set ?xs\<close> nn by auto
        then show ?thesis by simp
      qed
      show ?thesis by (rule iffI; erule sorted_wrt_mono_rel [rotated]; use e in blast)
    qed
    show ?thesis
    proof (cases anc)
      case None
      have "before_in ?ch n j" if j: "j \<in> set ?xs" for j
      proof -
        have "n \<noteq> j" "ch j \<noteq> []" using j nn agedD(1) [OF a] by (auto simp: set)
        moreover have "chain_before ([] @ [nat n]) (ch j) \<longleftrightarrow> chain_before [] (ch j)"
          by (rule chain_newest_child(2)) (use small [OF j] None in \<open>simp add: chain_for_def\<close>)
        ultimately show ?thesis using None by (cases "ch j") (simp_all add: chain_for_def)
      qed
      then have "sorted_wrt (before_in ?ch) (n # ?xs)" using ord [of ?xs] srt by simp
      then show ?thesis using None nn dst by (intro aged_read_unique [OF aged']) (auto simp: set)
    next
      case (Some x)
      then have "x \<in> set ?xs" using anc by (simp add: set)
      then obtain p q where pq: "?xs = p @ x # q" by (meson split_list)
      have ins: "insert_after anc n ?xs = p @ x # n # q" using dst unfolding pq Some by (intro insert_after_split) simp
      have new_c: "chain_before (ch j) (ch x @ [nat (n - x)]) \<longleftrightarrow> ch j = ch x \<or> before_in ch j x"
        "chain_before (ch x @ [nat (n - x)]) (ch j) \<longleftrightarrow> before_in ch x j" if "j \<in> set ?xs" for j
        by (rule chain_newest_child; use small [OF that] Some in \<open>simp add: chain_for_def\<close>)+
      have s: "sorted_wrt (before_in ch) p" "\<And>j. j \<in> set p \<Longrightarrow> before_in ch j x" "\<And>j. j \<in> set q \<Longrightarrow> before_in ch x j"
        "sorted_wrt (before_in ch) q" "\<And>j k. j \<in> set p \<Longrightarrow> k \<in> set q \<Longrightarrow> before_in ch j k"
        using srt unfolding pq by (auto simp: sorted_wrt_append)
      have np: "n \<notin> set p" "n \<noteq> x" "n \<notin> set q" using nn unfolding pq by auto
      have "sorted_wrt (before_in ?ch) (p @ x # n # q)"
        unfolding sorted_wrt_append
      proof (intro conjI ballI)
        have o1: "set p \<subseteq> set ?xs" "set q \<subseteq> set ?xs" by (auto simp: pq)
        show "sorted_wrt (before_in ?ch) p" by (rule ord [OF o1(1), THEN iffD2, OF s(1)])
        have sq: "sorted_wrt (before_in ?ch) q" by (rule ord [OF o1(2), THEN iffD2, OF s(4)])
        have "before_in ?ch x n" "\<And>j. j \<in> set q \<Longrightarrow> before_in ?ch n j" "\<And>j. j \<in> set q \<Longrightarrow> before_in ?ch x j"
          using new_c [of x] new_c(2) s(3) np Some pq by (auto simp: chain_for_def)
        then show "sorted_wrt (before_in ?ch) (x # n # q)" using sq by (simp del: fun_upd_apply)
        fix j k
        assume j: "j \<in> set p" and k: "k \<in> set (x # n # q)"
        have "before_in ?ch j n" using new_c(1) [of j] s(2) [OF j] j np Some pq by (auto simp: chain_for_def)
        then show "before_in ?ch j k" using j k s(2,5) np by auto
      qed
      moreover have "distinct (p @ x # n # q)" using dst nn pq by auto
      moreover have "set (p @ x # n # q) = {i. fmlookup ?s i \<noteq> None}"
      proof -
        have "set (p @ x # n # q) = insert n (set ?xs)" unfolding pq by auto
        also have "\<dots> = {i. fmlookup ?s i \<noteq> None}" unfolding set by auto
        finally show ?thesis .
      qed
      ultimately show ?thesis unfolding ins by (intro aged_read_unique [OF aged'])
    qed
  qed
  then show ?thesis using ap aged' by (intro exI [of _ ?r]) simp
qed

section \<open>What the editor sees\<close>

definition live :: "('e emb, 't, 'v) peri \<Rightarrow> int list" where
  "live s = filter (\<lambda>c. c |\<notin>| ps_deleted s) (emb_readIds (ps_shadow s))"

definition el_of :: "('e emb, 't, 'v) peri \<Rightarrow> int \<Rightarrow> 'e" where
  "el_of s i = er_el (the (fmlookup (ps_shadow s) i))"

lemma map_of_el: "map_of xs c = Some r \<Longrightarrow> map_of (map (\<lambda>(i, r). (i, er_el r)) xs) c = Some (er_el r)"
  by (induction xs) auto

lemma read_live:
  assumes "renderDoc (emb_kernel code) s = Inr doc"
  shows "map re_id doc = live s" "map re_char doc = map (\<lambda>i. Some (el_of s i)) (live s)"
proof -
  have d: "doc = map (\<lambda>c. \<lparr>re_id = c, re_char = map_of (cx_cp (emb_ctx s)) c,
      re_marks = shown_marks (emb_ctx s) (map snd (fm_entries (ps_marks s))) c\<rparr>) (cx_live (emb_ctx s))"
    using assms unfolding render_ctx [OF buildCtx_emb emb_ctx_ok] by simp
  have l: "cx_live (emb_ctx s) = live s" by (simp add: emb_ctx_def live_def)
  show "map re_id doc = live s" unfolding d l by (simp add: comp_def)
  have "map_of (cx_cp (emb_ctx s)) c = Some (el_of s c)" if c: "c \<in> set (live s)" for c
  proof -
    let ?R = "emb_readEntries (ps_shadow s)"
    have l: "\<exists>r. fmlookup (ps_shadow s) c = Some r" using c by (auto simp: live_def set_emb_readIds)
    then obtain r where r: "fmlookup (ps_shadow s) c = Some r" by blast
    then have "(c, r) \<in> set ?R" by (simp add: emb_readEntries_def fm_entries_iff)
    moreover have "distinct (map fst ?R)" using distinct_emb_readIds [of "ps_shadow s"] by (simp add: emb_readIds_def)
    ultimately have "map_of ?R c = Some r" by (simp add: map_of_eq_Some_iff)
    then show ?thesis using r map_of_el [of ?R c r] by (simp add: emb_ctx_def el_of_def)
  qed
  then show "map re_char doc = map (\<lambda>i. Some (el_of s i)) (live s)" unfolding d l by simp
qed

lemma renders: "\<exists>doc. renderDoc (emb_kernel code) s = Inr doc"
  unfolding render_ctx [OF buildCtx_emb emb_ctx_ok] by simp

lemma snapshot_live:
  assumes "renderDoc (emb_kernel code) s = Inr doc"
  shows "docSnapshot doc = (live s, concat (map (el_of s) (live s)))"
proof -
  have "map (\<lambda>e. case re_char e of Some c \<Rightarrow> c | None \<Rightarrow> []) doc = map (\<lambda>x. case x of Some c \<Rightarrow> c | None \<Rightarrow> []) (map re_char doc)"
    by simp
  also have "\<dots> = map (el_of s) (live s)" unfolding read_live(2) [OF assms] by simp
  finally show ?thesis using read_live(1) [OF assms] by (simp add: docSnapshot_def)
qed

text \<open>
  A document an author can go on with: its chains are aged, no id is above the last minted one, and every
  character that shows is one code unit.
\<close>

definition editable :: "int \<Rightarrow> (nat list emb, 't, 'v) peri \<Rightarrow> bool" where
  "editable k s \<longleftrightarrow> 0 \<le> k \<and> (\<exists>ch. aged ch (ps_shadow s)) \<and> (\<forall>i. fmlookup (ps_shadow s) i \<noteq> None \<longrightarrow> i \<le> k) \<and>
     (\<forall>i. i |\<in>| ps_deleted s \<longrightarrow> i \<le> k) \<and> (\<forall>i \<in> set (live s). \<exists>c. el_of s i = [c])"

definition mints :: "('m \<Rightarrow> int \<times> 'm) \<Rightarrow> ('m \<Rightarrow> int) \<Rightarrow> bool" where
  "mints mint clock \<longleftrightarrow> (\<forall>m. clock m < fst (mint m) \<and> fst (mint m) \<le> clock (snd (mint m)))"

lemma live_insert:
  assumes "emb_readIds sh' = insert_after anc n (emb_readIds (ps_shadow s))" and "n |\<notin>| ps_deleted s"
    and "live s = lp @ ls" and "anc = (if lp = [] then None else Some (last lp))"
  shows "live (s\<lparr>ps_shadow := sh'\<rparr>) = lp @ n # ls"
proof (cases lp rule: rev_cases)
  case Nil
  then show ?thesis using assms by (simp add: live_def)
next
  case (snoc p a)
  let ?P = "\<lambda>c. c |\<notin>| ps_deleted s" and ?xs = "emb_readIds (ps_shadow s)"
  have anc: "anc = Some a" and l: "filter ?P ?xs = p @ a # ls" using assms(3,4) snoc by (simp_all add: live_def)
  then have "a \<in> set (filter ?P ?xs)" by simp
  then have "a \<in> set ?xs" "?P a" by simp_all
  then obtain u v where uv: "?xs = u @ a # v" by (meson split_list)
  have a: "a \<notin> set u" "a \<notin> set v" using distinct_emb_readIds [of "ps_shadow s"] unfolding uv by auto
  have f: "filter ?P u @ a # filter ?P v = p @ a # ls" using l \<open>?P a\<close> by (simp add: uv)
  have "distinct (p @ a # ls)" using distinct_filter [OF distinct_emb_readIds [of "ps_shadow s"], of ?P] unfolding l .
  then have "a \<notin> set p" by simp
  with f a(1) have "filter ?P u = p" "filter ?P v = ls"
    using append_Cons_eq_iff [of a "filter ?P u" "filter ?P v" p ls] a by auto
  then show ?thesis using assms(1,2) insert_after_split [OF a(1)] \<open>?P a\<close> by (simp add: live_def anc uv snoc)
qed

abbreviation edit_apply :: "(int \<times> nat list \<times> int option, 't, 'v) peri_op \<Rightarrow> (nat list emb, 't, 'v) peri \<Rightarrow> (nat list emb, 't, 'v) peri res" where
  "edit_apply op s \<equiv> peri_apply (emb_kernel dEnc) s op"

lemma editable_mono: "editable k s \<Longrightarrow> k \<le> k' \<Longrightarrow> editable k' s"
  unfolding editable_def by force

lemma edit_insert:
  assumes e: "editable k s" and n: "k < n" and l: "live s = lp @ ls" and anc: "anc = (if lp = [] then None else Some (last lp))"
  shows "\<exists>s'. edit_apply (PIns (n, [c], anc)) s = Inr s' \<and> editable n s' \<and> live s' = lp @ n # ls \<and>
    (\<forall>i. el_of s' i = (if i = n then [c] else el_of s i))"
proof -
  from e obtain ch where ch: "aged ch (ps_shadow s)" and k: "0 \<le> k" "\<forall>i. fmlookup (ps_shadow s) i \<noteq> None \<longrightarrow> i \<le> k"
    "\<forall>i. i |\<in>| ps_deleted s \<longrightarrow> i \<le> k" and u: "\<forall>i \<in> set (live s). \<exists>c. el_of s i = [c]" unfolding editable_def by blast
  have new: "\<forall>i. fmlookup (ps_shadow s) i \<noteq> None \<longrightarrow> i < n" "1 \<le> n" using k n by fastforce+
  have "set lp \<subseteq> {i. fmlookup (ps_shadow s) i \<noteq> None}" using arg_cong [OF l, of set] by (auto simp: live_def set_emb_readIds)
  then have "fmlookup (ps_shadow s) (last lp) \<noteq> None" if "lp \<noteq> []" using last_in_set [OF that] by blast
  then have "case anc of None \<Rightarrow> True | Some x \<Rightarrow> fmlookup (ps_shadow s) x \<noteq> None" using anc by simp
  from aged_insert [OF ch new this, of "[c]"] obtain r where
    ap: "emb_apply dEnc (ps_shadow s) (EIns n [c] anc) = Inr (fmupd n r (ps_shadow s))" "er_el r = [c]" and
    ag: "aged (ch(n := chain_for ch n anc)) (fmupd n r (ps_shadow s))" and
    rd: "emb_readIds (fmupd n r (ps_shadow s)) = insert_after anc n (emb_readIds (ps_shadow s))" by blast
  let ?s = "s\<lparr>ps_shadow := fmupd n r (ps_shadow s)\<rparr>"
  have nd: "n |\<notin>| ps_deleted s" using k(3) n by (meson linorder_not_less)
  have lv: "live ?s = lp @ n # ls" by (rule live_insert [OF rd nd l anc])
  have el: "el_of ?s i = (if i = n then [c] else el_of s i)" for i using ap(2) by (simp add: el_of_def)
  have "editable n ?s"
    unfolding editable_def
  proof (intro conjI)
    show "0 \<le> n" using new by simp
    show "\<exists>ch. aged ch (ps_shadow ?s)" using ag by auto
    show "\<forall>i. fmlookup (ps_shadow ?s) i \<noteq> None \<longrightarrow> i \<le> n" using new by (auto simp: less_le_not_le)
    show "\<forall>i. i |\<in>| ps_deleted ?s \<longrightarrow> i \<le> n" using k(3) n by force
    show "\<forall>i \<in> set (live ?s). \<exists>c. el_of ?s i = [c]" using u unfolding lv el l by auto
  qed
  then show ?thesis using ap(1) lv el by (intro exI [of _ ?s]) simp
qed

lemma insert_run:
  assumes mint: "mints mint clock"
  shows "editable (clock m) s \<Longrightarrow> live s = lp @ ls \<Longrightarrow> anc = (if lp = [] then None else Some (last lp)) \<Longrightarrow>
    insert_ops mint anc (map (\<lambda>c. [c]) cs) m = (ops, m') \<Longrightarrow>
    \<exists>s'. foldM edit_apply (concat (map as_peri ops)) s = Inr s' \<and> editable (clock m') s' \<and>
      map (el_of s') (live s') = map (el_of s) lp @ map (\<lambda>c. [c]) cs @ map (el_of s) ls"
proof (induction cs arbitrary: anc m s lp ops)
  case Nil
  then show ?case by auto
next
  case (Cons c cs)
  obtain n m1 where m: "mint m = (n, m1)" by (cases "mint m")
  then have n: "clock m < n" "n \<le> clock m1" using mint [unfolded mints_def, rule_format, of m] by simp_all
  obtain ops' where o: "insert_ops mint (Some n) (map (\<lambda>c. [c]) cs) m1 = (ops', m')" "ops = BIns n [c] anc # ops'"
    using Cons.prems(4) by (auto simp: m split: prod.splits)
  from edit_insert [OF Cons.prems(1) n(1) Cons.prems(2,3), of c] obtain s1 where
    s1: "edit_apply (PIns (n, [c], anc)) s = Inr s1" "editable n s1" "live s1 = lp @ n # ls"
      "\<forall>i. el_of s1 i = (if i = n then [c] else el_of s i)" by blast
  have "live s1 = (lp @ [n]) @ ls" using s1(3) by simp
  from Cons.IH [OF editable_mono [OF s1(2) n(2)] this _ o(1)] obtain s' where
    s': "foldM edit_apply (concat (map as_peri ops')) s1 = Inr s'" "editable (clock m') s'"
      "map (el_of s') (live s') = map (el_of s1) (lp @ [n]) @ map (\<lambda>c. [c]) cs @ map (el_of s1) ls" by auto
  have "distinct (live s1)" unfolding live_def by (rule distinct_filter [OF distinct_emb_readIds])
  then have old: "map (el_of s1) lp = map (el_of s) lp" "map (el_of s1) ls = map (el_of s) ls" using s1(3,4) by auto
  show ?case using s1(1,4) s' old by (simp add: o(2))
qed

lemma delete_run:
  assumes e: "editable k s" and l: "live s = lp @ D @ ls"
  shows "\<exists>s'. foldM edit_apply (map PDel D) s = Inr s' \<and> editable k s' \<and> live s' = lp @ ls \<and> el_of s' = el_of s"
proof -
  let ?s = "s\<lparr>ps_deleted := ps_deleted s |\<union>| fset_of_list D\<rparr>"
  have f: "foldM edit_apply (map PDel D) t = Inr (t\<lparr>ps_deleted := ps_deleted t |\<union>| fset_of_list D\<rparr>)"
    for t :: "(nat list emb, 'a, 'b) peri"
    by (induction D arbitrary: t) simp_all
  have "live ?s = filter (\<lambda>i. i \<notin> set D) (live s)" by (auto simp: live_def fset_of_list_elem intro: filter_cong)
  moreover have "distinct (lp @ D @ ls)" unfolding l [symmetric] live_def by (rule distinct_filter [OF distinct_emb_readIds])
  moreover have "filter (\<lambda>i. i \<notin> set D) (lp @ D @ ls) = lp @ ls" if "distinct (lp @ D @ ls)"
  proof -
    have "filter (\<lambda>i. i \<notin> set D) lp = lp" "filter (\<lambda>i. i \<notin> set D) ls = ls" using that by (auto simp: filter_id_conv)
    then show ?thesis by simp
  qed
  ultimately have lv: "live ?s = lp @ ls" by (simp add: l)
  have "\<forall>i \<in> set D. fmlookup (ps_shadow s) i \<noteq> None" using arg_cong [OF l, of set] by (auto simp: live_def set_emb_readIds)
  then have "editable k ?s" using e l lv unfolding editable_def by (auto simp: fset_of_list_elem el_of_def)
  then show ?thesis using f lv by (intro exI [of _ ?s]) (simp add: el_of_def fun_eq_iff)
qed

lemma edit_anchor_last: "edit_anchor (lp @ xs) (length lp) = (if lp = [] then None else Some (last lp))"
  by (cases lp rule: rev_cases) (simp_all add: edit_anchor_def at_def nth_append)

lemma edit_dels: "map (\<lambda>i. BDel (at (lp @ D @ ls) (length lp + i))) [0..<length D] = map (\<lambda>i. BDel (Some i)) D"
  by (rule nth_equalityI) (simp_all add: at_def nth_append)

lemma concat_singles: "concat (map (\<lambda>c. [f c]) xs) = map f xs"
  by (induction xs) simp_all

text \<open>C18: typing, deleting or pasting in the editor gives the text that was typed. On a document an author can go
on with, for a minting function that only grows and a new text of single code units, the binding reads the document,
makes one list of operations and commits it without an exception; the document then reads as the new text, and the
author can go on from there.\<close>

theorem text_edit_reads:
  fixes s :: "(nat list emb, 't::linorder, 'v) peri"
  assumes e: "editable (clock m) s" and mint: "mints mint clock" and plain: "plain_units newText"
  shows "\<exists>s' ops m' doc. typeEdit peri_node mint newText s m = Inr (s', ops, m') \<and> editable (clock m') s' \<and>
    renderDoc (emb_kernel dEnc) s' = Inr doc \<and> docSnapshot doc = (live s', newText)"
proof -
  obtain doc where doc: "renderDoc (emb_kernel dEnc) s = Inr doc" using renders by blast
  define u where "u i = hd (el_of s i)" for i
  have u: "el_of s i = [u i]" if "i \<in> set (live s)" for i using e that unfolding editable_def u_def by fastforce
  have tx: "concat (map (el_of s) xs) = map u xs" if "set xs \<subseteq> set (live s)" for xs
    using that u by (induction xs) auto
  have snap: "docSnapshot doc = (live s, map u (live s))" unfolding snapshot_live [OF doc] by (simp add: tx)
  obtain P D I S where split: "map u (live s) = P @ D @ S" "newText = P @ I @ S"
    "edit_prefix (map u (live s)) newText = length P" "del_count (map u (live s)) newText = length D"
    "ins_str (map u (live s)) newText = I" by (rule edit_split)
  then obtain lp ld ls where l: "live s = lp @ ld @ ls" "P = map u lp" "D = map u ld" "S = map u ls"
    by (metis map_eq_append_conv)
  have pI: "points I = map (\<lambda>c. [c]) I" using plain by (intro points_plain) (simp add: split(2) plain_units_def)
  obtain inss m' where i: "insert_ops mint (if lp = [] then None else Some (last lp)) (map (\<lambda>c. [c]) I) m = (inss :: ('t, 'v) bind_op list, m')"
    by (meson surj_pair)
  let ?dels = "map (\<lambda>i. BDel (Some i)) ld :: ('t, 'v) bind_op list"
  have ops: "textEditOps mint (live s) (map u (live s)) newText m = (?dels @ inss, m')"
    using edit_anchor_last [of lp "ld @ ls"] edit_dels [of lp ld ls] i
    by (simp add: textEditOps_def split(3-5) pI l(2,3)) (simp add: l(1))
  from delete_run [OF e l(1)] obtain s1 where s1: "foldM edit_apply (map PDel ld) s = Inr s1" "editable (clock m) s1"
    "live s1 = lp @ ls" "el_of s1 = el_of s" by blast
  from insert_run [OF mint s1(2,3) refl i] obtain s' where s': "foldM edit_apply (concat (map as_peri inss)) s1 = Inr s'"
    "editable (clock m') s'" "map (el_of s') (live s') = map (el_of s) lp @ map (\<lambda>c. [c]) I @ map (el_of s) ls"
    unfolding s1(4) by blast
  have d: "concat (map as_peri ?dels) = map PDel ld" by (induction ld) simp_all
  have "foldM edit_apply (concat (map as_peri (?dels @ inss))) s = Inr s'"
    using s1(1) s'(1) d by (simp add: foldM_append)
  then have c: "commitOps peri_node (?dels @ inss) s = Inr s'"
    using batch_is_fold [OF emb_batch_law] by (auto simp: commitOps_def peri_node_def peri_commit_def)
  obtain doc' where doc': "renderDoc (emb_kernel dEnc) s' = Inr doc'" using renders by blast
  have "set lp \<subseteq> set (live s)" "set ls \<subseteq> set (live s)" using l(1) by auto
  then have "concat (map (el_of s') (live s')) = newText" unfolding s'(3) split(2) l(2,4)
    by (simp add: tx concat_singles [of "\<lambda>c. c", simplified])
  then have "docSnapshot doc' = (live s', newText)" using snapshot_live [OF doc'] by simp
  moreover have "typeEdit peri_node mint newText s m = Inr (s', ?dels @ inss, m')"
    using doc c by (simp add: typeEdit_def peri_node_def [simplified commitOps_def] snap ops peri_node_def)
  ultimately show ?thesis using s'(2) doc' by blast
qed

definition edit_state :: "(nat list emb, nat, nat) peri" where
  "edit_state = \<lparr>ps_shadow = fmupd 2 \<lparr>er_coord = dEnc 1 @ dEnc 1, er_el = [98]\<rparr> (fmupd 1 \<lparr>er_coord = dEnc 1, er_el = [97]\<rparr> fmempty),
     ps_deleted = {|2|}, ps_marks = fmempty\<rparr>"

lemma editable_example: "editable 2 edit_state"
proof -
  have "aged (\<lambda>i. if i = 1 then [1] else [1, 1]) (ps_shadow edit_state)"
    by (auto simp: aged_def edit_state_def split: if_splits)
  moreover have "i \<in> {1, 2}" if "i \<in> set (live edit_state)" for i
    using that by (auto simp: live_def set_emb_readIds edit_state_def split: if_splits)
  then have "\<forall>i \<in> set (live edit_state). \<exists>c. el_of edit_state i = [c]" by (auto simp: el_of_def edit_state_def)
  ultimately show ?thesis by (auto simp: editable_def edit_state_def split: if_splits)
qed

theorem text_edit_reads_witness:
  "editable 2 edit_state \<and> (\<exists>s' ops m' doc. typeEdit peri_node (\<lambda>m. (m + 1, m + 1)) [99, 97, 100] edit_state 2 = Inr (s', ops, m') \<and>
     editable m' s' \<and> renderDoc (emb_kernel dEnc) s' = Inr doc \<and> docSnapshot doc = (live s', [99, 97, 100]))"
  by (intro conjI text_edit_reads editable_example) (simp_all add: mints_def plain_units_def editable_example)

section \<open>A character of two units\<close>

text \<open>
  A character of two code units has one id and two reading positions in the text the binding compares, so past it
  the positions of the text are not those of the ids. Deleting the letter after such a character produces a
  deletion without an id, and deleting the letter before the last one removes the last one.
\<close>

lemma wide_character_shifts:
  "docSnapshot [\<lparr>re_id = 1, re_char = Some [0xD83D, 0xDE00], re_marks = [] :: (string \<times> string option) list\<rparr>,
     \<lparr>re_id = 2, re_char = Some [98], re_marks = []\<rparr>] = ([1, 2], [0xD83D, 0xDE00, 98])"
  "fst (textEditOps (\<lambda>m. (m + 1, m + 1)) [1, 2] [0xD83D, 0xDE00, 98] [0xD83D, 0xDE00] 2) = [BDel None]"
  "fst (textEditOps (\<lambda>m. (m + 1, m + 1)) [1, 2, 3] [0xD83D, 0xDE00, 98, 99] [0xD83D, 0xDE00, 99] 3) = [BDel (Some 3)]"
  by (simp_all add: docSnapshot_def textEditOps_def edit_prefix_def edit_suffix_def del_count_def ins_str_def
    edit_anchor_def at_def Let_def)

end
