(* ===== verification/SharedEmbed.thy ===== *)
theory SharedEmbed
  imports EmbedRGA Serialize
begin

text \<open>
  The prefix-sharing representation of the embedded sequence (\<^verbatim>\<open>runtime/src/datatypes/sharedEmbedRGA.js\<close>). A node
  is an immutable object with a link to its parent; here a path is the list of the cells from the node up to its
  oldest ancestor, and \<open>null\<close> the empty path, so a shared node is an equal tail. The ids of the operations are as in
  \<open>EmbedRGA\<close>. The functions that walk a state take its entries in the order of iteration, which for a persistent map
  is the order of the trie. Elements of the two snapshots are texts, bytes are numbers.
\<close>

section \<open>Nodes\<close>

record cell =
  nd_delta :: nat
  nd_id :: int
  nd_birthId :: "int option"
  nd_birthParentId :: "int option"

type_synonym path = "cell list"

record 'e srec =
  sr_path :: path
  sr_el :: 'e

type_synonym 'e shared = "(int, 'e srec) fmap"

text \<open>\<^verbatim>\<open>n?.id ?? 0\<close> and \<^verbatim>\<open>n?.birthId ?? 0\<close>\<close>

definition path_id :: "path \<Rightarrow> int" where
  "path_id p = (case p of [] \<Rightarrow> 0 | c # _ \<Rightarrow> nd_id c)"

definition birth_of :: "path \<Rightarrow> int" where
  "birth_of p = (case p of [] \<Rightarrow> 0 | c # _ \<Rightarrow> (case nd_birthId c of None \<Rightarrow> 0 | Some b \<Rightarrow> b))"

definition snode :: "path \<Rightarrow> nat \<Rightarrow> int \<Rightarrow> int option \<Rightarrow> int option \<Rightarrow> path" where
  "snode parent delta id1 birthId birthParentId =
     \<lparr>nd_delta = delta, nd_id = id1, nd_birthId = birthId, nd_birthParentId = birthParentId\<rparr> # parent"

text \<open>A node with the default births.\<close>

definition snode_default :: "path \<Rightarrow> nat \<Rightarrow> int \<Rightarrow> path" where
  "snode_default parent delta id1 = snode parent delta id1 (Some id1) (Some (birth_of parent))"

definition deltas :: "path \<Rightarrow> nat list" where
  "deltas p = rev (map nd_delta p)"

definition samePath :: "path \<Rightarrow> path \<Rightarrow> bool" where
  "samePath a b \<longleftrightarrow> deltas a = deltas b"

definition pathDeltas :: "'e srec \<Rightarrow> nat list" where
  "pathDeltas r = deltas (sr_path r)"

section \<open>Operations\<close>

definition shared_record :: "'e shared \<Rightarrow> int \<Rightarrow> 'e \<Rightarrow> int option \<Rightarrow> 'e srec res" where
  "shared_record state id1 el anchorId =
     (if fmlookup state id1 \<noteq> None then Inl (Error ''duplicate insert id'')
      else rbind (case anchorId of
          None \<Rightarrow> Inr ([], 0)
        | Some anchor \<Rightarrow> (case fmlookup state anchor of
            None \<Rightarrow> Inl (Error ''anchor not live'')
          | Some a \<Rightarrow> Inr (sr_path a, anchor)))
        (\<lambda>(parent, anchor). if id1 - anchor < 1 then Inl (Error ''delta must be positive'')
          else Inr \<lparr>sr_path = snode parent (nat (id1 - anchor)) id1 (Some id1) (Some (case anchorId of None \<Rightarrow> 0 | Some a \<Rightarrow> a)),
            sr_el = el\<rparr>))"

fun shared_apply :: "'e shared \<Rightarrow> 'e emb_op \<Rightarrow> 'e shared res" where
  "shared_apply state (EIns id1 el anchorId) =
     rbind (shared_record state id1 el anchorId) (\<lambda>r. Inr (fmupd id1 r state))"
| "shared_apply state (EDel id1) = Inr (fmdrop id1 state)"
| "shared_apply state (EOther ty) = Inl (Error ''unknown sharedEmbedRGA op type'')"

definition shared_applyBatch :: "'e shared \<Rightarrow> 'e emb_op list \<Rightarrow> 'e shared res" where
  "shared_applyBatch state ops = foldM (\<lambda>x s. shared_apply s x) ops state"

section \<open>Reading\<close>

text \<open>The graph of nodes by id: the roots, the children of a node, the record that ends at a node.\<close>

type_synonym family = "(int \<times> path) list"

record 'e graph =
  g_seen :: "int list"
  g_roots :: family
  g_children :: "(int \<times> family) list"
  g_live :: "(int \<times> 'e) list"

definition children_of :: "(int \<times> family) list \<Rightarrow> int \<Rightarrow> family" where
  "children_of kids_of i = (case map_of kids_of i of None \<Rightarrow> [] | Some cs \<Rightarrow> cs)"

definition add_child :: "int \<Rightarrow> path \<Rightarrow> (int \<times> family) list \<Rightarrow> (int \<times> family) list" where
  "add_child p n kids_of = AList.update p (AList.update (path_id n) n (children_of kids_of p)) kids_of"

fun see_path :: "path \<Rightarrow> 'r graph \<Rightarrow> 'r graph" where
  "see_path [] g = g"
| "see_path (c # p) g = (if nd_id c \<in> set (g_seen g) then g
     else see_path p (let g' = g\<lparr>g_seen := g_seen g @ [nd_id c]\<rparr> in
       if p \<noteq> [] then g'\<lparr>g_children := add_child (path_id p) (c # p) (g_children g)\<rparr>
       else g'\<lparr>g_roots := AList.update (nd_id c) (c # p) (g_roots g)\<rparr>))"

definition see_entry :: "int \<times> 'e srec \<Rightarrow> (int \<times> 'e srec) graph \<Rightarrow> (int \<times> 'e srec) graph" where
  "see_entry x g = see_path (sr_path (snd x)) (g\<lparr>g_live := AList.update (path_id (sr_path (snd x))) x (g_live g)\<rparr>)"

definition insertion_tree :: "(int \<times> 'e srec) list \<Rightarrow> (int \<times> 'e srec) graph" where
  "insertion_tree entries = fold see_entry entries \<lparr>g_seen = [], g_roots = [], g_children = [], g_live = []\<rparr>"

definition ordered :: "family \<Rightarrow> path list" where
  "ordered xs = sort_by (\<lambda>a b. nd_delta (hd b) < nd_delta (hd a)) (map snd xs)"

text \<open>The top of the stack is the first element; as many steps as there are nodes.\<close>

fun tree_walk :: "nat \<Rightarrow> 'r graph \<Rightarrow> path list \<Rightarrow> 'r list" where
  "tree_walk k g [] = []"
| "tree_walk 0 g (n # stack) = []"
| "tree_walk (Suc k) g (n # stack) =
     (case map_of (g_live g) (path_id n) of None \<Rightarrow> [] | Some item \<Rightarrow> [item]) @
     tree_walk k g (ordered (children_of (g_children g) (path_id n)) @ stack)"

definition shared_entries :: "(int \<times> 'e srec) list \<Rightarrow> (int \<times> 'e srec) list" where
  "shared_entries entries = (let g = insertion_tree entries in tree_walk (length (g_seen g)) g (ordered (g_roots g)))"

definition shared_readEntries :: "'e shared \<Rightarrow> (int \<times> 'e srec) list" where
  "shared_readEntries state = shared_entries (fm_entries state)"

definition shared_read :: "'e shared \<Rightarrow> 'e list" where
  "shared_read state = map (\<lambda>(_, r). sr_el r) (shared_readEntries state)"

definition shared_readIds :: "'e shared \<Rightarrow> int list" where
  "shared_readIds state = map fst (shared_readEntries state)"

section \<open>Merging\<close>

text \<open>The nodes of the first state by birth, and the node of a path of the second one rebased on them.\<close>

fun birth_nodes :: "path \<Rightarrow> (int \<times> path) list \<Rightarrow> (int \<times> path) list" where
  "birth_nodes [] nodes = nodes"
| "birth_nodes (c # p) nodes = birth_nodes p (case nd_birthId c of None \<Rightarrow> nodes
     | Some b \<Rightarrow> if map_of nodes b = None then nodes @ [(b, c # p)] else nodes)"

fun canonical :: "path \<Rightarrow> (int \<times> path) list \<Rightarrow> (path \<times> (int \<times> path) list) res" where
  "canonical [] nodes = Inr ([], nodes)"
| "canonical (c # p) nodes =
     (case (case nd_birthId c of None \<Rightarrow> None | Some b \<Rightarrow> map_of nodes b) of
       Some old \<Rightarrow> if nd_birthParentId (hd old) \<noteq> nd_birthParentId c then Inl (Error ''birth divergence'') else Inr (old, nodes)
     | None \<Rightarrow> rbind (canonical p nodes) (\<lambda>(p', nodes').
         Inr (c # p', case nd_birthId c of None \<Rightarrow> nodes' | Some b \<Rightarrow> AList.update b (c # p') nodes')))"

definition shared_merge_step ::
  "'e shared \<Rightarrow> 'e shared \<Rightarrow> int \<times> 'e srec \<Rightarrow> 'e shared \<times> (int \<times> path) list \<Rightarrow> ('e shared \<times> (int \<times> path) list) res"
where
  "shared_merge_step l a x tn = (case fmlookup a (fst x) of
       Some ra \<Rightarrow> if nd_birthId (hd (sr_path ra)) \<noteq> nd_birthId (hd (sr_path (snd x)))
           \<or> nd_birthParentId (hd (sr_path ra)) \<noteq> nd_birthParentId (hd (sr_path (snd x)))
         then Inl (Error ''birth divergence'') else Inr tn
     | None \<Rightarrow> if fmlookup l (fst x) = None
         then rbind (canonical (sr_path (snd x)) (snd tn)) (\<lambda>(p, nodes).
           Inr (fmupd (fst x) \<lparr>sr_path = p, sr_el = sr_el (snd x)\<rparr> (fst tn), nodes))
         else Inr tn)"

definition shared_merge3 :: "'e shared \<Rightarrow> 'e shared \<Rightarrow> 'e shared \<Rightarrow> 'e shared res" where
  "shared_merge3 l a b =
     (let nodes = fold (\<lambda>x. birth_nodes (sr_path (snd x))) (fm_entries a) [];
          t = foldl (\<lambda>t i. if fmlookup b i = None then fmdrop i t else t) a (fm_keys l)
      in rbind (foldM (shared_merge_step l a) (fm_entries b) (t, nodes)) (\<lambda>(t, _). Inr t))"

text \<open>The value that \<open>fingerprint\<close> prints as JSON.\<close>

definition shared_fingerprint :: "'e shared \<Rightarrow> (int \<times> nat list \<times> 'e) list" where
  "shared_fingerprint state = map (\<lambda>(i, r). (i, deltas (sr_path r), sr_el r)) (fm_entries state)"

definition shared_dt :: "('e emb_op, 'e shared, unit, 'e list) dtype" where
  "shared_dt = \<lparr>dt_init = fmempty, dt_prepare = None, dt_apply = shared_apply,
     dt_merge3 = shared_merge3, dt_read = shared_read, dt_compact = None, dt_remapState = None,
     dt_ins_id = (\<lambda>x. case x of EIns i _ _ \<Rightarrow> Some i | _ \<Rightarrow> None)\<rparr>"

end
