(* ===== verification/SharedCompact.thy ===== *)
theory SharedCompact
  imports SharedEmbed Compact
begin

text \<open>
  Compaction over shared nodes (\<^verbatim>\<open>runtime/src/shared-compact.js\<close>): the way to absolute coordinates and back, the
  inverse translation read off two prefix graphs, and the direct compaction. The wrappers the code keeps in a map by
  node object are here a tree by delta whose nodes hold their cell: two nodes of equal paths are one node, and
  siblings are taken to differ in their delta. Where a coordinate is no sequence of codewords, on which the code
  computes with \<^verbatim>\<open>NaN\<close>, the model has an exception.
\<close>

section \<open>Absolute coordinates\<close>

definition coordOf :: "path \<Rightarrow> nat list" where
  "coordOf p = concat (map dEnc (deltas p))"

definition absolute_record :: "'e srec \<Rightarrow> 'e erec" where
  "absolute_record r = \<lparr>er_coord = coordOf (sr_path r), er_el = sr_el r\<rparr>"

definition sharedToAbsolute :: "'e shared \<Rightarrow> 'e emb" where
  "sharedToAbsolute state = fmmap absolute_record state"

text \<open>The births a record keeps from another state.\<close>

definition source_birth :: "'e shared \<Rightarrow> int \<Rightarrow> int" where
  "source_birth birthSource i = (case fmlookup birthSource i of None \<Rightarrow> 0
     | Some r \<Rightarrow> (case nd_birthParentId (hd (sr_path r)) of None \<Rightarrow> 0 | Some b \<Rightarrow> b))"

text \<open>The stack of tree nodes under their new parents; dead nodes get the ids -1, -2, ...\<close>

function graft :: "'e shared \<Rightarrow> (nat \<times> 'e knode \<times> path) list \<Rightarrow> int \<Rightarrow> 'e shared \<Rightarrow> 'e shared" where
  "graft src [] synthetic records = records"
| "graft src ((d, KNode v ks, parent) # stack) synthetic records =
     (let p = snode parent d (case v of Some x \<Rightarrow> fst x | None \<Rightarrow> synthetic) (map_option fst v)
            (map_option (\<lambda>x. source_birth src (fst x)) v);
          records' = (case v of Some x \<Rightarrow> fmupd (fst x) \<lparr>sr_path = p, sr_el = snd x\<rparr> records | None \<Rightarrow> records)
      in graft src (rev (map (\<lambda>(d, k). (d, k, p)) ks) @ stack) (if v = None then synthetic - 1 else synthetic) records')"
  by pat_completeness auto
termination
  by (relation "measure (\<lambda>(src, stack, synthetic, records). sum_list (map (\<lambda>(d, k, p). k_size k) stack))")
    (auto simp: rev_map [symmetric] sum_list_rev comp_def split_def)

definition absoluteToShared :: "'e emb \<Rightarrow> 'e shared \<Rightarrow> 'e shared res" where
  "absoluteToShared state birthSource = rbind (coordTree (fm_entries state)) (\<lambda>root.
     Inr (graft birthSource (rev (map (\<lambda>(d, k). (d, k, [])) (k_kids root))) (- 1) fmempty))"

definition compactSharedEliasDelta :: "'e shared \<Rightarrow> ccut \<Rightarrow> opts \<Rightarrow> ('e shared \<times> cnode \<times> stats) res" where
  "compactSharedEliasDelta state ct o1 = rbind (compactEliasDelta (sharedToAbsolute state) ct o1) (\<lambda>(s, tr, st).
     rbind (absoluteToShared s state) (\<lambda>s'. Inr (s', tr, st)))"

definition remapSharedState :: "'e shared \<Rightarrow> (nat list \<Rightarrow> nat list res) \<Rightarrow> 'e shared res" where
  "remapSharedState state tr = rbind (remapState (sharedToAbsolute state) tr) (\<lambda>s. absoluteToShared s state)"

section \<open>The inverse translation\<close>

text \<open>A node of the graph after compaction, with the path that had its id before.\<close>

datatype pnode = PNode path "(nat \<times> pnode) list"

fun pn_pre :: "pnode \<Rightarrow> path" where
  "pn_pre (PNode pre ks) = pre"

fun pn_kids :: "pnode \<Rightarrow> (nat \<times> pnode) list" where
  "pn_kids (PNode pre ks) = ks"

fun pre_nodes :: "path \<Rightarrow> (int \<times> path) list \<Rightarrow> (int \<times> path) list" where
  "pre_nodes [] byId = byId"
| "pre_nodes (c # p) byId = pre_nodes p (AList.update (nd_id c) (c # p) byId)"

definition preById :: "'e shared \<Rightarrow> (int \<times> path) list" where
  "preById preState = fold (\<lambda>x. pre_nodes (sr_path (snd x))) (fm_entries preState) []"

definition pre_path :: "(int \<times> path) list \<Rightarrow> int \<Rightarrow> path" where
  "pre_path byId i = (case map_of byId i of None \<Rightarrow> [] | Some p \<Rightarrow> p)"

text \<open>The cells from the oldest ancestor down.\<close>

fun pn_ensure :: "(int \<times> path) list \<Rightarrow> cell list \<Rightarrow> pnode \<Rightarrow> pnode" where
  "pn_ensure byId [] n = n"
| "pn_ensure byId (c # cs) (PNode pre ks) = PNode pre (AList.update (nd_delta c)
     (pn_ensure byId cs (case map_of ks (nd_delta c) of Some ch \<Rightarrow> ch | None \<Rightarrow> PNode (pre_path byId (nd_id c)) [])) ks)"

definition buildSharedInverseTranslate :: "'e shared \<Rightarrow> 'e shared \<Rightarrow> pnode" where
  "buildSharedInverseTranslate preState postState =
     fold (\<lambda>x. pn_ensure (preById preState) (rev (sr_path (snd x)))) (fm_entries postState) (PNode [] [])"

function shared_inverse :: "pnode \<Rightarrow> nat list \<Rightarrow> nat list res" where
  "shared_inverse n coord = (if coord = [] then Inr (coordOf (pn_pre n))
     else rbind (decodeOne coord) (\<lambda>p. case map_of (pn_kids n) (fst p) of
         None \<Rightarrow> Inr (coordOf (pn_pre n) @ coord)
       | Some ch \<Rightarrow> shared_inverse ch (snd p)))"
  by auto
termination
  by (relation "measure (\<lambda>(_, coord). length coord)") (auto dest: decodeOne_length)

declare shared_inverse.simps [simp del]

section \<open>The direct compaction\<close>

text \<open>
  A wrapper. \<open>w_cell\<close> is the cell of its node (\<open>None\<close> at the root), \<open>w_out\<close> the node it gets.
\<close>

record 'e winfo =
  w_cell :: "cell option"
  w_record :: "(int \<times> 'e srec) option"
  w_seedSettled :: bool
  w_inflightChild :: bool
  w_inflightHere :: bool
  w_evidence :: bool
  w_stable :: bool
  w_out :: path
  w_newCoord :: "nat list"

datatype 'e wnode = WNode "'e winfo" "(nat \<times> 'e wnode) list"

fun w_info :: "'e wnode \<Rightarrow> 'e winfo" where
  "w_info (WNode i ks) = i"

fun w_kids :: "'e wnode \<Rightarrow> (nat \<times> 'e wnode) list" where
  "w_kids (WNode i ks) = ks"

definition wrap :: "cell option \<Rightarrow> 'e wnode" where
  "wrap c = WNode \<lparr>w_cell = c, w_record = None, w_seedSettled = False, w_inflightChild = False, w_inflightHere = False,
     w_evidence = False, w_stable = False, w_out = [], w_newCoord = []\<rparr> []"

text \<open>\<^verbatim>\<open>path?.id ?? 0\<close> and \<^verbatim>\<open>path?.birthId ?? 0\<close> of a wrapper\<close>

definition w_pid :: "'e winfo \<Rightarrow> int" where
  "w_pid i = (case w_cell i of None \<Rightarrow> 0 | Some c \<Rightarrow> nd_id c)"

definition w_pbirth :: "'e winfo \<Rightarrow> int" where
  "w_pbirth i = birth_of (case w_cell i of None \<Rightarrow> [] | Some c \<Rightarrow> [c])"

fun w_ensure :: "int \<times> 'e srec \<Rightarrow> cell list \<Rightarrow> 'e wnode \<Rightarrow> 'e wnode" where
  "w_ensure x [] (WNode i ks) = WNode (i\<lparr>w_record := Some x\<rparr>) ks"
| "w_ensure x (c # cs) (WNode i ks) = WNode i (AList.update (nd_delta c)
     (w_ensure x cs (case map_of ks (nd_delta c) of Some ch \<Rightarrow> ch | None \<Rightarrow> wrap (Some c))) ks)"

definition w_childOf :: "'e winfo \<Rightarrow> (nat \<times> 'e wnode) list \<Rightarrow> nat \<Rightarrow> 'e wnode" where
  "w_childOf i ks d = (case map_of ks d of Some ch \<Rightarrow> ch
     | None \<Rightarrow> wrap (Some \<lparr>nd_delta = d, nd_id = w_pid i + int d, nd_birthId = Some (w_pid i + int d),
         nd_birthParentId = Some (w_pbirth i)\<rparr>))"

text \<open>The known in-flight coordinates; the walk stops before the first unsettled id.\<close>

function seed_known :: "int list \<Rightarrow> bool \<Rightarrow> nat list \<Rightarrow> 'e wnode \<Rightarrow> 'e wnode res" where
  "seed_known settled isRoot coord (WNode i ks) =
     (if coord = [] then Inr (WNode (if isRoot then i else i\<lparr>w_inflightHere := True\<rparr>) ks)
      else rbind (decodeOne coord) (\<lambda>(d, rest).
        if w_pid i + int d \<notin> set settled then Inr (WNode (i\<lparr>w_inflightChild := True\<rparr>) ks)
        else rbind (seed_known settled False rest
            (case w_childOf i ks d of WNode j ks' \<Rightarrow> WNode (j\<lparr>w_seedSettled := True\<rparr>) ks'))
          (\<lambda>n. Inr (WNode i (AList.update d n ks)))))"
  by pat_completeness auto
termination
  by (relation "measure (\<lambda>(_, _, coord, _). length coord)") (auto dest: decodeOne_length)

declare seed_known.simps [simp del]

fun freeze :: "nat list \<Rightarrow> 'e wnode \<Rightarrow> 'e wnode" where
  "freeze [] (WNode i ks) = WNode (i\<lparr>w_inflightChild := True\<rparr>) ks"
| "freeze (d # ds) (WNode i ks) = WNode i (AList.update d
     (freeze ds (case w_childOf i ks d of WNode j ks' \<Rightarrow> WNode (j\<lparr>w_seedSettled := True\<rparr>) ks')) ks)"

definition seed_anchor :: "nat list \<Rightarrow> 'e wnode \<Rightarrow> 'e wnode res" where
  "seed_anchor coord n = rbind (decodeChain coord) (\<lambda>ds. Inr (freeze ds n))"

definition wrapper_tree :: "'e shared \<Rightarrow> ccut \<Rightarrow> 'e wnode res" where
  "wrapper_tree state ct =
     rbind (foldM (seed_known (cc_settledIds ct) True) (cc_inflight ct)
       (fold (\<lambda>x. w_ensure x (rev (sr_path (snd x)))) (fm_entries state) (wrap None))) (\<lambda>root.
     foldM seed_anchor (cc_frozenAnchorCoords ct) root)"

fun w_mark :: "int list \<Rightarrow> 'e wnode \<Rightarrow> 'e wnode" where
  "w_mark settled (WNode i ks) = (let ks' = map (\<lambda>(d, ch). (d, w_mark settled ch)) ks in
     WNode (i\<lparr>w_evidence := w_seedSettled i
         \<or> (case w_record i of Some x \<Rightarrow> fst x \<in> set settled | None \<Rightarrow> False)
         \<or> list_ex (\<lambda>(d, ch). w_evidence (w_info ch)) ks'\<rparr>) ks')"

definition w_all_stable :: "'e winfo \<Rightarrow> (nat \<times> 'e wnode) list \<Rightarrow> bool" where
  "w_all_stable i ks \<longleftrightarrow> ks \<noteq> [] \<and> list_all (\<lambda>(d, ch). w_stable i \<and> w_evidence (w_info ch)) ks"

definition w_renumber :: "opts \<Rightarrow> 'e winfo \<Rightarrow> (nat \<times> 'e wnode) list \<Rightarrow> bool" where
  "w_renumber o1 i ks \<longleftrightarrow> w_all_stable i ks \<and> (\<not> w_inflightChild i \<or> op_unguarded o1)"

definition w_new_delta :: "opts \<Rightarrow> 'e winfo \<Rightarrow> (nat \<times> 'e wnode) list \<Rightarrow> nat \<Rightarrow> nat" where
  "w_new_delta o1 i ks d = (if w_renumber o1 i ks then index_in (sort (map fst ks)) d + 1 else d)"

definition w_spineMember :: "'e winfo \<Rightarrow> (nat \<times> 'e wnode) list \<Rightarrow> bool" where
  "w_spineMember i ks \<longleftrightarrow> w_record i = None \<and> w_stable i \<and> length ks = 1"

definition w_free :: "'e winfo \<Rightarrow> bool" where
  "w_free i \<longleftrightarrow> \<not> w_inflightChild i \<and> \<not> w_inflightHere i"

fun w_set_stable :: "bool \<Rightarrow> 'e wnode \<Rightarrow> 'e winfo" where
  "w_set_stable st (WNode i ks) = i\<lparr>w_stable := st \<and> w_evidence i\<rparr>"

text \<open>Whether a node and its only child are fused.\<close>

definition w_fuses :: "opts \<Rightarrow> 'e winfo \<Rightarrow> (nat \<times> 'e wnode) list \<Rightarrow> bool" where
  "w_fuses o1 i ks \<longleftrightarrow> op_fuse o1 \<and> w_spineMember i ks \<and> w_free i \<and>
     list_all (\<lambda>(d, ch). w_spineMember (w_set_stable (w_stable i) ch) (w_kids ch) \<and> w_free (w_info ch)) ks"

definition directNode :: "path \<Rightarrow> nat \<Rightarrow> 'e wnode \<Rightarrow> path" where
  "directNode parent d n = (case w_cell (w_info n) of None \<Rightarrow> parent
     | Some c \<Rightarrow> snode parent d (nd_id c) (nd_birthId c) (nd_birthParentId c))"

text \<open>Give a node its stability, its new node and its new coordinate, and go on below it.\<close>

fun w_place :: "opts \<Rightarrow> bool \<Rightarrow> path \<Rightarrow> nat list \<Rightarrow> 'e wnode \<Rightarrow> 'e wnode" where
  "w_place o1 st out c (WNode i ks) = (let i' = i\<lparr>w_stable := st \<and> w_evidence i, w_out := out, w_newCoord := c\<rparr> in
     WNode i' (if w_fuses o1 i' ks
       then map (\<lambda>(d, ch). (d, w_place o1 (w_stable i') out c ch)) ks
       else map (\<lambda>(d, ch). let nd = w_new_delta o1 i' ks d in
         (d, w_place o1 (w_stable i') (directNode out nd ch) (c @ dEnc nd) ch)) ks))"

text \<open>The root is stable, has no node and is never part of a spine.\<close>

definition w_place_root :: "opts \<Rightarrow> 'e wnode \<Rightarrow> 'e wnode" where
  "w_place_root o1 root = (let i = (w_info root)\<lparr>w_stable := True\<rparr> in
     WNode i (map (\<lambda>(d, ch). let nd = w_new_delta o1 i (w_kids root) d in
       (d, w_place o1 True (directNode [] nd ch) (dEnc nd) ch)) (w_kids root)))"

fun w_collect :: "'e wnode \<Rightarrow> 'e shared \<Rightarrow> 'e shared" where
  "w_collect (WNode i ks) s = fold (\<lambda>(d, ch). w_collect ch) ks (case w_record i of None \<Rightarrow> s
     | Some x \<Rightarrow> fmupd (fst x) \<lparr>sr_path = w_out i, sr_el = sr_el (snd x)\<rparr> s)"

function w_translate :: "'e wnode \<Rightarrow> nat list \<Rightarrow> nat list res" where
  "w_translate n coord = (if coord = [] then Inr (w_newCoord (w_info n))
     else rbind (decodeOne coord) (\<lambda>p. case map_of (w_kids n) (fst p) of
         None \<Rightarrow> Inr (w_newCoord (w_info n) @ coord)
       | Some ch \<Rightarrow> w_translate ch (snd p)))"
  by auto
termination
  by (relation "measure (\<lambda>(_, coord). length coord)") (auto dest: decodeOne_length)

declare w_translate.simps [simp del]

text \<open>The new state, the tree its translation walks, and the numbers of wrappers before and of new nodes.\<close>

fun w_size :: "'e wnode \<Rightarrow> nat" where
  "w_size (WNode i ks) = Suc (sum_list (map (\<lambda>(d, ch). w_size ch) ks))"

fun w_nodes :: "opts \<Rightarrow> 'e wnode \<Rightarrow> nat" where
  "w_nodes o1 (WNode i ks) = (if w_fuses o1 i ks then 0 else length ks) + sum_list (map (\<lambda>(d, ch). w_nodes o1 ch) ks)"

definition compactSharedDirect :: "'e shared \<Rightarrow> ccut \<Rightarrow> opts \<Rightarrow> ('e shared \<times> 'e wnode \<times> nat \<times> nat) res" where
  "compactSharedDirect state ct o1 = rbind (wrapper_tree state ct) (\<lambda>tree.
     let root = w_place_root o1 (w_mark (cc_settledIds ct) tree) in
     Inr (w_collect root fmempty, root, w_size tree - 1, w_nodes o1 root))"

end
