(* ===== verification/SharedTree.thy ===== *)
theory SharedTree
  imports SharedCompact
begin

text \<open>
  Reading the prefix-sharing sequence: on a coherent state, where equal ids are equal nodes and siblings differ in their
  deltas, the walk of the insertion tree gives the entries in the order of the coordinates.
\<close>

section \<open>Chains and nodes\<close>

lemma chain_before_append: "chain_before (ds @ xs) (ds @ ys) \<longleftrightarrow> chain_before xs ys"
  by (induction ds) simp_all

lemma chain_before_extend: "chain_before ds es \<Longrightarrow> \<not> prefix ds es \<Longrightarrow> chain_before (ds @ xs) (es @ ys)"
  by (induction ds es rule: chain_before.induct) (auto split: if_splits)

lemma chain_before_below: "x \<noteq> [] \<Longrightarrow> chain_before ds (ds @ x)"
  by (induction ds) (auto simp: neq_Nil_conv)

lemma deltas_simps [simp]: "deltas [] = []" "deltas (c # p) = deltas p @ [nd_delta c]" "deltas (q @ p) = deltas p @ deltas q"
  by (simp_all add: deltas_def)

lemma path_id_Cons [simp]: "path_id (c # p) = nd_id c"
  by (simp add: path_id_def)

text \<open>The nodes of a state: the paths of its records and all that is above them.\<close>

definition nodes_of :: "path set \<Rightarrow> path set" where
  "nodes_of P = {n. n \<noteq> [] \<and> (\<exists>p \<in> P. suffix n p)}"

text \<open>Equal ids are equal nodes, siblings differ in their deltas, which are positive.\<close>

definition coherent :: "path set \<Rightarrow> bool" where
  "coherent P \<longleftrightarrow> [] \<notin> P \<and> (\<forall>n \<in> nodes_of P. 1 \<le> nd_delta (hd n)) \<and>
     (\<forall>n \<in> nodes_of P. \<forall>m \<in> nodes_of P. path_id n = path_id m \<longrightarrow> n = m) \<and>
     (\<forall>n \<in> nodes_of P. \<forall>m \<in> nodes_of P. tl n = tl m \<longrightarrow> nd_delta (hd n) = nd_delta (hd m) \<longrightarrow> n = m)"

definition coherent_state :: "'e shared \<Rightarrow> bool" where
  "coherent_state s \<longleftrightarrow> coherent {sr_path r | i r. fmlookup s i = Some r} \<and>
     (\<forall>i r. fmlookup s i = Some r \<longrightarrow> path_id (sr_path r) = i)"

lemma coherentD:
  assumes "coherent P"
  shows "[] \<notin> P" and "n \<in> nodes_of P \<Longrightarrow> 1 \<le> nd_delta (hd n)"
    and "n \<in> nodes_of P \<Longrightarrow> m \<in> nodes_of P \<Longrightarrow> path_id n = path_id m \<Longrightarrow> n = m"
    and "n \<in> nodes_of P \<Longrightarrow> m \<in> nodes_of P \<Longrightarrow> tl n = tl m \<Longrightarrow> nd_delta (hd n) = nd_delta (hd m) \<Longrightarrow> n = m"
  using assms unfolding coherent_def by blast+

lemma nodes_of_self: "[] \<notin> P \<Longrightarrow> p \<in> P \<Longrightarrow> p \<in> nodes_of P"
  by (auto simp: nodes_of_def)

lemma nodes_of_suffix: "n \<in> nodes_of P \<Longrightarrow> suffix m n \<Longrightarrow> m \<noteq> [] \<Longrightarrow> m \<in> nodes_of P"
  unfolding nodes_of_def using suffix_order.trans by blast

lemma nodes_of_tl: "n \<in> nodes_of P \<Longrightarrow> tl n \<noteq> [] \<Longrightarrow> tl n \<in> nodes_of P"
  by (rule nodes_of_suffix) (auto simp: suffix_tl)

lemma nodes_positive: "coherent P \<Longrightarrow> n \<in> nodes_of P \<Longrightarrow> positive (deltas n)"
proof (induction n)
  case (Cons c p)
  show ?case
  proof (cases "p = []")
    case False
    then have "p \<in> nodes_of P" using nodes_of_tl [OF Cons.prems(2)] by simp
    then show ?thesis using Cons coherentD(2) [OF Cons.prems] by (auto simp: positive_def)
  qed (use coherentD(2) [OF Cons.prems] in \<open>auto simp: positive_def\<close>)
qed (simp add: nodes_of_def)

text \<open>A node is determined by its chain of deltas.\<close>

lemma nodes_chain:
  "coherent P \<Longrightarrow> n \<in> nodes_of P \<Longrightarrow> m \<in> nodes_of P \<Longrightarrow> deltas n = deltas m \<Longrightarrow> n = m"
proof (induction n arbitrary: m)
  case (Cons c p)
  obtain e q where m: "m = e # q" using Cons.prems(3) by (cases m) (auto simp: nodes_of_def)
  have d: "deltas p = deltas q" "nd_delta c = nd_delta e" using Cons.prems(4) m by simp_all
  then have len: "length p = length q" by (metis deltas_def length_map length_rev)
  have "p = q"
  proof (cases "p = []")
    case False
    then have "q \<noteq> []" using len by auto
    then have "p \<in> nodes_of P" "q \<in> nodes_of P"
      using nodes_of_tl [OF Cons.prems(2)] nodes_of_tl [OF Cons.prems(3)] False m by simp_all
    then show ?thesis using Cons.IH [OF Cons.prems(1)] d(1) by blast
  qed (use len in simp)
  then show ?case using coherentD(4) [OF Cons.prems(1-3)] m d(2) by simp
qed (simp add: nodes_of_def)

lemma suffix_deltas: "suffix n m \<Longrightarrow> prefix (deltas n) (deltas m)"
  by (auto simp: suffix_def)

section \<open>The insertion tree\<close>

definition family_ok :: "family \<Rightarrow> path set \<Rightarrow> bool" where
  "family_ok F X \<longleftrightarrow> set F = (\<lambda>n. (path_id n, n)) ` X \<and> distinct (map fst F)"

lemma family_add:
  assumes "family_ok F X" and "path_id n \<notin> path_id ` X"
  shows "family_ok (AList.update (path_id n) n F) (insert n X)"
proof -
  have "path_id n \<notin> fst ` set F" using assms by (auto simp: family_ok_def image_iff)
  then show ?thesis using assms(1) by (simp add: update_new family_ok_def)
qed

text \<open>The graph has the nodes in \<open>S\<close>: those without a parent are roots, the others stand at their parent.\<close>

definition tops :: "path set \<Rightarrow> path set" where
  "tops S = {n \<in> S. tl n = []}"

definition kids_at :: "path set \<Rightarrow> int \<Rightarrow> path set" where
  "kids_at S i = {n \<in> S. tl n \<noteq> [] \<and> path_id (tl n) = i}"

lemma tops_insert: "tops (insert (c # p) S) = (if p = [] then insert (c # p) (tops S) else tops S)"
  by (auto simp: tops_def)

lemma kids_at_insert: "kids_at (insert (c # p) S) i = (if p \<noteq> [] \<and> path_id p = i then insert (c # p) (kids_at S i) else kids_at S i)"
  by (auto simp: kids_at_def)

definition graph_ok :: "path set \<Rightarrow> 'r graph \<Rightarrow> bool" where
  "graph_ok S g \<longleftrightarrow> set (g_seen g) = path_id ` S \<and> distinct (g_seen g) \<and> family_ok (g_roots g) (tops S) \<and>
     (\<forall>i. family_ok (children_of (g_children g) i) (kids_at S i))"

lemma graph_ok_live [simp]: "graph_ok S (g\<lparr>g_live := l\<rparr>) = graph_ok S g"
  by (simp add: graph_ok_def)

lemma children_add: "children_of (add_child p n K) i =
  (if i = p then AList.update (path_id n) n (children_of K p) else children_of K i)"
  by (simp add: children_of_def add_child_def update_conv')

lemma graph_add:
  assumes ok: "graph_ok S g" and new: "nd_id c \<notin> path_id ` S"
  shows "graph_ok (insert (c # p) S) (let g' = g\<lparr>g_seen := g_seen g @ [nd_id c]\<rparr> in
       if p \<noteq> [] then g'\<lparr>g_children := add_child (path_id p) (c # p) (g_children g)\<rparr>
       else g'\<lparr>g_roots := AList.update (nd_id c) (c # p) (g_roots g)\<rparr>)"
proof -
  have i: "path_id (c # p) \<notin> path_id ` tops S" "path_id (c # p) \<notin> path_id ` kids_at S i" for i
    using new by (auto simp: tops_def kids_at_def)
  show ?thesis
  proof (cases "p = []")
    case True
    then show ?thesis using ok new family_add [of "g_roots g" "tops S" "[c]"] i(1)
      by (simp add: graph_ok_def Let_def tops_insert kids_at_insert)
  next
    case False
    then show ?thesis using ok new family_add [of "children_of (g_children g) (path_id p)" "kids_at S (path_id p)" "c # p"] i(2)
      by (simp add: graph_ok_def Let_def tops_insert kids_at_insert children_add)
  qed
qed

definition up_closed :: "path set \<Rightarrow> bool" where
  "up_closed S \<longleftrightarrow> [] \<notin> S \<and> (\<forall>n \<in> S. \<forall>m. suffix m n \<longrightarrow> m \<noteq> [] \<longrightarrow> m \<in> S)"

text \<open>Walking up a path until a known node adds the rest of the path.\<close>

lemma see_path_ok:
  assumes P: "coherent P" and S: "up_closed S" "S \<subseteq> nodes_of P"
  shows "graph_ok (S \<union> T) g \<Longrightarrow> T \<subseteq> nodes_of P \<Longrightarrow> (\<forall>n \<in> T. length p < length n) \<Longrightarrow> p = [] \<or> p \<in> nodes_of P \<Longrightarrow>
    graph_ok (S \<union> T \<union> {m. m \<noteq> [] \<and> suffix m p}) (see_path p g)"
proof (induction p arbitrary: T g)
  case Nil
  then show ?case by simp
next
  case (Cons c p)
  have cp: "c # p \<in> nodes_of P" using Cons.prems(4) by simp
  have id: "m = c # p" if "m \<in> S \<union> T" "path_id m = nd_id c" for m
    using coherentD(3) [OF P _ cp, of m] that S(2) Cons.prems(2) by auto
  have up: "{m. m \<noteq> [] \<and> suffix m (c # p)} = insert (c # p) {m. m \<noteq> [] \<and> suffix m p}"
    by (auto simp: suffix_Cons)
  show ?case
  proof (cases "nd_id c \<in> set (g_seen g)")
    case True
    then have "nd_id c \<in> path_id ` (S \<union> T)" using Cons.prems(1) by (simp add: graph_ok_def)
    then obtain m where m: "m \<in> S \<union> T" "path_id m = nd_id c" by (metis imageE)
    have "m = c # p" by (rule id [OF m])
    then have "c # p \<in> S" using m(1) Cons.prems(3) by auto
    then have "{m. m \<noteq> [] \<and> suffix m (c # p)} \<subseteq> S" using S(1) unfolding up_closed_def by blast
    then have "S \<union> T \<union> {m. m \<noteq> [] \<and> suffix m (c # p)} = S \<union> T" by blast
    then show ?thesis using True Cons.prems(1) by simp
  next
    case False
    then have n: "nd_id c \<notin> path_id ` (S \<union> T)" using Cons.prems(1) by (simp add: graph_ok_def)
    have "p = [] \<or> p \<in> nodes_of P" using nodes_of_tl [OF cp] by auto
    from Cons.IH [OF _ _ _ this, of "insert (c # p) T"] graph_add [OF Cons.prems(1) n, of p] Cons.prems(2,3) cp
    have "graph_ok (S \<union> insert (c # p) T \<union> {m. m \<noteq> [] \<and> suffix m p}) (see_path p (let g' = g\<lparr>g_seen := g_seen g @ [nd_id c]\<rparr> in
       if p \<noteq> [] then g'\<lparr>g_children := add_child (path_id p) (c # p) (g_children g)\<rparr>
       else g'\<lparr>g_roots := AList.update (nd_id c) (c # p) (g_roots g)\<rparr>))"
      by fastforce
    moreover have "S \<union> insert (c # p) T \<union> {m. m \<noteq> [] \<and> suffix m p} = S \<union> T \<union> {m. m \<noteq> [] \<and> suffix m (c # p)}"
      unfolding up by blast
    ultimately show ?thesis using False by simp
  qed
qed

lemma see_path_live [simp]: "g_live (see_path p g) = g_live g"
  by (induction p arbitrary: g) (simp_all add: Let_def)

lemma nodes_of_insert: "nodes_of (insert p P) = {m. m \<noteq> [] \<and> suffix m p} \<union> nodes_of P"
  by (auto simp: nodes_of_def)

lemma nodes_of_up_closed: "up_closed (nodes_of P)"
  unfolding up_closed_def using nodes_of_suffix by (auto simp: nodes_of_def)

lemma finite_nodes_of: "finite P \<Longrightarrow> finite (nodes_of P)"
proof -
  assume "finite P"
  then have "finite (\<Union>p \<in> P. set (suffixes p))" by simp
  then show ?thesis by (rule finite_subset [rotated]) (auto simp: nodes_of_def)
qed

abbreviation entry_path :: "int \<times> 'e srec \<Rightarrow> path" where
  "entry_path x \<equiv> sr_path (snd x)"

lemma fold_see_ok:
  assumes P: "coherent P"
  shows "graph_ok S g \<Longrightarrow> up_closed S \<Longrightarrow> S \<subseteq> nodes_of P \<Longrightarrow> entry_path ` set es \<subseteq> nodes_of P \<Longrightarrow>
    graph_ok (S \<union> nodes_of (entry_path ` set es)) (fold see_entry es g)"
proof (induction es arbitrary: S g)
  case Nil
  then show ?case by (simp add: nodes_of_def)
next
  case (Cons x es)
  let ?p = "entry_path x"
  let ?S = "S \<union> {m. m \<noteq> [] \<and> suffix m ?p}"
  have p: "?p \<in> nodes_of P" using Cons.prems(4) by simp
  have "graph_ok (S \<union> {} \<union> {m. m \<noteq> [] \<and> suffix m ?p}) (see_entry x g)"
    unfolding see_entry_def by (rule see_path_ok [OF P Cons.prems(2,3)]) (use Cons.prems(1) p in simp_all)
  then have g: "graph_ok ?S (see_entry x g)" by simp
  have u: "up_closed ?S" using Cons.prems(2) unfolding up_closed_def using suffix_order.trans by blast
  have "?S \<subseteq> nodes_of P" using Cons.prems(3) nodes_of_suffix [OF p] by blast
  from Cons.IH [OF g u this] Cons.prems(4) show ?case by (simp add: nodes_of_insert Un_assoc)
qed

lemma fold_see_live:
  "distinct (map (path_id \<circ> entry_path) es) \<Longrightarrow> (path_id \<circ> entry_path) ` set es \<inter> fst ` set (g_live g) = {} \<Longrightarrow>
   g_live (fold see_entry es g) = g_live g @ map (\<lambda>x. (path_id (entry_path x), x)) es"
proof (induction es arbitrary: g)
  case (Cons x es)
  have "g_live (see_entry x g) = g_live g @ [(path_id (entry_path x), x)]"
    using Cons.prems(2) by (simp add: see_entry_def update_new)
  with Cons show ?case by auto
qed simp

text \<open>Siblings from the highest delta down.\<close>

lemma ordered_ok:
  assumes P: "coherent P" and F: "family_ok F X" and X: "X \<subseteq> nodes_of P" "\<forall>n \<in> X. tl n = q"
  shows "set (ordered F) = X \<and> sorted_wrt (\<lambda>a b. nd_delta (hd b) < nd_delta (hd a)) (ordered F)"
proof -
  have s: "snd ` set F = X" using F by (auto simp: family_ok_def image_image)
  have "map fst F = map path_id (map snd F)" using F by (auto simp: family_ok_def)
  then have "distinct (map path_id (map snd F))" using F unfolding family_ok_def by metis
  then have d: "distinct (map snd F)" unfolding distinct_map by blast
  have "total_on (\<lambda>a b. nd_delta (hd b) < nd_delta (hd a)) (set (map snd F))"
    unfolding total_on_def set_map s
  proof (intro conjI ballI impI)
    fix a b
    assume "a \<in> X" "b \<in> X" "a \<noteq> b"
    then have "nd_delta (hd a) \<noteq> nd_delta (hd b)" using coherentD(4) [OF P, of a b] X by auto
    then show "nd_delta (hd b) < nd_delta (hd a) \<or> nd_delta (hd a) < nd_delta (hd b)" by linarith
  qed simp_all
  from sorted_sort_by [OF this d] show ?thesis unfolding ordered_def set_sort_by set_map s by simp
qed

section \<open>The walk\<close>

definition node_before :: "path \<Rightarrow> path \<Rightarrow> bool" where
  "node_before n m \<longleftrightarrow> chain_before (deltas n) (deltas m)"

definition left_of :: "path \<Rightarrow> path \<Rightarrow> bool" where
  "left_of n m \<longleftrightarrow> node_before n m \<and> \<not> prefix (deltas n) (deltas m)"

definition below :: "path set \<Rightarrow> path list \<Rightarrow> path set" where
  "below N st = {m \<in> N. \<exists>n \<in> set st. suffix n m}"

lemma left_of_below: "left_of n m \<Longrightarrow> suffix n n' \<Longrightarrow> suffix m m' \<Longrightarrow> node_before n' m'"
  unfolding left_of_def node_before_def using chain_before_extend by (auto simp: suffix_def)

lemma left_of_child: "left_of n m \<Longrightarrow> left_of (c # n) m"
  using chain_before_extend [of "deltas n" "deltas m" "[nd_delta c]" "[]"] append_prefixD [of "deltas n" "[nd_delta c]" "deltas m"]
  unfolding left_of_def node_before_def by auto

lemma siblings_left_of: "nd_delta d < nd_delta c \<Longrightarrow> left_of (c # n) (d # n)"
  by (simp add: left_of_def node_before_def chain_before_append)

lemma node_before_below: "suffix n m \<Longrightarrow> n \<noteq> m \<Longrightarrow> node_before n m"
  by (auto simp: suffix_def node_before_def deltas_def intro!: chain_before_below)

lemma below_step:
  assumes P: "coherent P" and n: "n \<in> nodes_of P" and K: "set K = {m \<in> nodes_of P. tl m = n}"
    and right: "\<forall>m \<in> set st. left_of n m"
  shows "below (nodes_of P) (n # st) = insert n (below (nodes_of P) (K @ st))" and "n \<notin> below (nodes_of P) (K @ st)"
proof -
  have "\<exists>k \<in> set K. suffix k m" if m: "m \<in> nodes_of P" "suffix n m" "m \<noteq> n" for m
  proof -
    obtain q where q: "m = q @ n" using m(2) by (auto simp: suffix_def)
    then obtain c r where "q = r @ [c]" using m(3) by (cases q rule: rev_cases) auto
    then have "suffix (c # n) m" using q by (simp add: suffix_def)
    moreover have "c # n \<in> set K" using nodes_of_suffix [OF m(1) \<open>suffix (c # n) m\<close>] by (simp add: K)
    ultimately show ?thesis by blast
  qed
  then have sub: "m \<in> below (nodes_of P) (K @ st)" if "m \<in> nodes_of P" "suffix n m" "m \<noteq> n" for m
    using that unfolding below_def by auto
  have "suffix n m" if "k \<in> set K" "suffix k m" for k m
  proof -
    have "suffix n k" using that(1) by (auto simp: K suffix_tl)
    then show ?thesis using that(2) suffix_order.trans by blast
  qed
  then have "below (nodes_of P) (K @ st) \<subseteq> below (nodes_of P) (n # st)" unfolding below_def by auto
  moreover have "below (nodes_of P) (n # st) \<subseteq> insert n (below (nodes_of P) (K @ st))"
  proof
    fix m
    assume m: "m \<in> below (nodes_of P) (n # st)"
    show "m \<in> insert n (below (nodes_of P) (K @ st))"
    proof (cases "suffix n m")
      case True
      then show ?thesis using m sub [of m] by (auto simp: below_def)
    qed (use m in \<open>auto simp: below_def\<close>)
  qed
  moreover have "n \<in> below (nodes_of P) (n # st)" using n by (auto simp: below_def)
  ultimately show "below (nodes_of P) (n # st) = insert n (below (nodes_of P) (K @ st))" by blast
  show "n \<notin> below (nodes_of P) (K @ st)"
  proof
    assume "n \<in> below (nodes_of P) (K @ st)"
    then obtain k where k: "k \<in> set K \<or> k \<in> set st" "suffix k n" by (auto simp: below_def)
    then show False
    proof (elim disjE)
      assume "k \<in> set K"
      then have "tl k = n" "k \<noteq> []" by (auto simp: K nodes_of_def)
      then show False using suffix_length_le [OF k(2)] by (cases k) auto
    next
      assume "k \<in> set st"
      with right have "left_of n k" by blast
      from left_of_below [OF this suffix_order.refl k(2)] show False by (simp add: node_before_def chain_before_irrefl)
    qed
  qed
qed

lemma tree_walk_ok:
  assumes P: "coherent P" "finite P" and g: "graph_ok (nodes_of P) g"
    and live: "\<And>n x. n \<in> nodes_of P \<Longrightarrow> map_of (g_live g) (path_id n) = Some x \<longleftrightarrow> x \<in> X \<and> f x = n"
  shows "set st \<subseteq> nodes_of P \<Longrightarrow> sorted_wrt left_of st \<Longrightarrow> card (below (nodes_of P) st) \<le> k \<Longrightarrow>
    set (tree_walk k g st) = {x \<in> X. f x \<in> below (nodes_of P) st} \<and>
    sorted_wrt (\<lambda>x y. node_before (f x) (f y)) (tree_walk k g st)"
proof (induction k arbitrary: st)
  case 0
  have "finite (below (nodes_of P) st)" using finite_nodes_of [OF P(2)] by (simp add: below_def)
  then have "below (nodes_of P) st = {}" using 0 by simp
  then have "st = []" using 0(1) by (cases st) (auto simp: below_def)
  then show ?case by (simp add: below_def)
next
  case (Suc k)
  show ?case
  proof (cases st)
    case Nil
    then show ?thesis by (simp add: below_def)
  next
    case (Cons n st')
    let ?N = "nodes_of P" and ?K = "ordered (children_of (g_children g) (path_id n))"
    have n: "n \<in> ?N" and right: "\<forall>m \<in> set st'. left_of n m" using Suc.prems Cons by simp_all
    have kids: "kids_at ?N (path_id n) = {m \<in> ?N. tl m = n}"
    proof -
      have "tl m \<noteq> [] \<and> path_id (tl m) = path_id n \<longleftrightarrow> tl m = n" if "m \<in> ?N" for m
        using coherentD(3) [OF P(1) nodes_of_tl [OF that] n] n by (auto simp: nodes_of_def)
      then show ?thesis by (auto simp: kids_at_def)
    qed
    have fam: "family_ok (children_of (g_children g) (path_id n)) {m \<in> ?N. tl m = n}"
      using g unfolding graph_ok_def kids [symmetric] by blast
    have sub: "{m \<in> ?N. tl m = n} \<subseteq> ?N" "\<forall>m \<in> {m \<in> ?N. tl m = n}. tl m = n" by blast+
    have K: "set ?K = {m \<in> ?N. tl m = n}" "sorted_wrt (\<lambda>a b. nd_delta (hd b) < nd_delta (hd a)) ?K"
      using ordered_ok [OF P(1) fam sub] by blast+
    have child: "\<exists>c. m = c # n" if "m \<in> set ?K" for m
    proof -
      have "m \<noteq> []" "tl m = n" using that unfolding K(1) nodes_of_def by blast+
      then show ?thesis by (cases m) simp_all
    qed
    note step = below_step [OF P(1) n K(1) right]
    have "set (?K @ st') \<subseteq> ?N" using K(1) Suc.prems(1) Cons by auto
    moreover have "sorted_wrt left_of (?K @ st')"
      unfolding sorted_wrt_append
    proof (intro conjI ballI)
      show "sorted_wrt left_of ?K"
      proof (rule sorted_wrt_mono_rel [OF _ K(2)])
        fix a b
        assume "a \<in> set ?K" "b \<in> set ?K" and lt: "nd_delta (hd b) < nd_delta (hd a)"
        then obtain c d where "a = c # n" "b = d # n" using child by meson
        then show "left_of a b" using lt siblings_left_of by simp
      qed
      show "sorted_wrt left_of st'" using Suc.prems(2) Cons by simp
      fix a b
      assume "a \<in> set ?K" "b \<in> set st'"
      then show "left_of a b" using child right left_of_child by metis
    qed
    moreover have "card (below ?N (?K @ st')) \<le> k"
    proof -
      have "finite (below ?N (?K @ st'))" using finite_nodes_of [OF P(2)] by (simp add: below_def)
      then show ?thesis using Suc.prems(3) step by (simp add: Cons)
    qed
    ultimately have IH: "set (tree_walk k g (?K @ st')) = {x \<in> X. f x \<in> below ?N (?K @ st')}"
      "sorted_wrt (\<lambda>x y. node_before (f x) (f y)) (tree_walk k g (?K @ st'))" using Suc.IH by blast+
    let ?item = "case map_of (g_live g) (path_id n) of None \<Rightarrow> [] | Some item \<Rightarrow> [item]"
    have item: "set ?item = {x \<in> X. f x = n}"
    proof (cases "map_of (g_live g) (path_id n)")
      case None
      then show ?thesis using live [OF n] by simp
    next
      case (Some y)
      then have "x \<in> X \<and> f x = n \<longleftrightarrow> x = y" for x unfolding live [OF n, symmetric] by auto
      then show ?thesis using Some by auto
    qed
    have "node_before n (f y)" if "y \<in> set (tree_walk k g (?K @ st'))" for y
    proof -
      have "f y \<in> below ?N (?K @ st')" using that IH(1) by blast
      then obtain m where m: "m \<in> set ?K \<or> m \<in> set st'" "suffix m (f y)" by (auto simp: below_def)
      then show ?thesis
      proof (elim disjE)
        assume "m \<in> set ?K"
        then obtain c where "m = c # n" using child by blast
        then have "suffix n (f y)" "n \<noteq> f y" using m(2) suffix_length_le [OF m(2)] by (auto simp: suffix_def)
        then show ?thesis by (rule node_before_below)
      next
        assume "m \<in> set st'"
        then show ?thesis using right left_of_below [OF _ suffix_order.refl m(2)] by blast
      qed
    qed
    then have "sorted_wrt (\<lambda>x y. node_before (f x) (f y)) (?item @ tree_walk k g (?K @ st'))"
      unfolding sorted_wrt_append
    proof (intro conjI ballI)
      fix a y
      assume "a \<in> set ?item" and y: "y \<in> set (tree_walk k g (?K @ st'))"
      then have "f a = n" unfolding item by blast
      then show "node_before (f a) (f y)" using \<open>\<And>y. y \<in> set (tree_walk k g (?K @ st')) \<Longrightarrow> node_before n (f y)\<close> y by blast
    qed (simp_all add: IH(2) split: option.split)
    moreover have "set (?item @ tree_walk k g (?K @ st')) = {x \<in> X. f x \<in> below ?N st}"
      unfolding set_append item IH(1) Cons step(1) by auto
    ultimately show ?thesis by (simp add: Cons)
  qed
qed

section \<open>Reading\<close>

abbreviation paths_of :: "'e shared \<Rightarrow> path set" where
  "paths_of s \<equiv> entry_path ` set (fm_entries s)"

lemma paths_of_eq: "paths_of s = {sr_path r | i r. fmlookup s i = Some r}"
proof (intro equalityI subsetI)
  fix p
  assume "p \<in> paths_of s"
  then obtain x where "x \<in> set (fm_entries s)" "p = entry_path x" by blast
  then show "p \<in> {sr_path r | i r. fmlookup s i = Some r}" using fm_entries_iff [of "fst x" "snd x" s] by auto
next
  fix p
  assume "p \<in> {sr_path r | i r. fmlookup s i = Some r}"
  then obtain i r where "p = sr_path r" "fmlookup s i = Some r" by blast
  then show "p \<in> paths_of s" using fm_entries_iff [of i r s] by force
qed

lemma coherent_entries:
  assumes "coherent_state s"
  shows "coherent (paths_of s)" and "x \<in> set (fm_entries s) \<Longrightarrow> path_id (entry_path x) = fst x"
    and "x \<in> set (fm_entries s) \<Longrightarrow> entry_path x \<in> nodes_of (paths_of s)"
proof -
  show c: "coherent (paths_of s)" using assms unfolding coherent_state_def paths_of_eq by blast
  show "path_id (entry_path x) = fst x" if "x \<in> set (fm_entries s)"
    using assms that fm_entries_iff [of "fst x" "snd x" s] unfolding coherent_state_def by simp
  show "entry_path x \<in> nodes_of (paths_of s)" if "x \<in> set (fm_entries s)"
    by (rule nodes_of_self [OF coherentD(1) [OF c]]) (use that in blast)
qed

text \<open>The walk lists the entries by their nodes.\<close>

lemma readEntries_walk:
  assumes s: "coherent_state s"
  shows "set (shared_readEntries s) = set (fm_entries s)"
    and "sorted_wrt (\<lambda>x y. node_before (entry_path x) (entry_path y)) (shared_readEntries s)"
proof -
  let ?es = "fm_entries s" and ?P = "paths_of s" and ?g = "insertion_tree (fm_entries s)"
  note P = coherent_entries(1) [OF s]
  have "map (path_id \<circ> entry_path) ?es = map fst ?es" by (rule map_cong [OF refl]) (simp add: coherent_entries(2) [OF s])
  then have d: "distinct (map (path_id \<circ> entry_path) ?es)" by simp
  let ?init = "\<lparr>g_seen = [], g_roots = [], g_children = [], g_live = []\<rparr> :: (int \<times> 'a srec) graph"
  have g0: "graph_ok {} ?init" "up_closed {}"
    by (simp_all add: graph_ok_def up_closed_def family_ok_def tops_def kids_at_def children_of_def)
  have "entry_path ` set ?es \<subseteq> nodes_of ?P" using coherent_entries(3) [OF s] by blast
  from fold_see_ok [OF P g0 empty_subsetI this] have g: "graph_ok (nodes_of ?P) ?g" unfolding insertion_tree_def Un_empty_left .
  have lv: "g_live ?g = map (\<lambda>x. (path_id (entry_path x), x)) ?es"
    using fold_see_live [OF d, of "\<lparr>g_seen = [], g_roots = [], g_children = [], g_live = []\<rparr>"] by (simp add: insertion_tree_def)
  have live: "map_of (g_live ?g) (path_id n) = Some x \<longleftrightarrow> x \<in> set ?es \<and> entry_path x = n" if n: "n \<in> nodes_of ?P" for n x
  proof -
    have "distinct (map fst (map (\<lambda>x. (path_id (entry_path x), x)) ?es))" using d by (simp add: comp_def)
    then have "map_of (g_live ?g) (path_id n) = Some x \<longleftrightarrow> x \<in> set ?es \<and> path_id (entry_path x) = path_id n"
      unfolding lv by (subst map_of_eq_Some_iff) (auto simp: image_iff)
    moreover have "entry_path x = n" if "x \<in> set ?es" "path_id (entry_path x) = path_id n"
      by (rule coherentD(3) [OF P coherent_entries(3) [OF s that(1)] n that(2)])
    ultimately show ?thesis by blast
  qed
  have tops: "tops (nodes_of ?P) \<subseteq> nodes_of ?P" "\<forall>n \<in> tops (nodes_of ?P). tl n = []" by (auto simp: tops_def)
  have "family_ok (g_roots ?g) (tops (nodes_of ?P))" using g by (simp add: graph_ok_def)
  note roots = ordered_ok [OF P this tops]
  have single: "\<exists>c. n = [c]" if "n \<in> set (ordered (g_roots ?g))" for n
  proof -
    have "n \<noteq> []" "tl n = []" using that roots unfolding tops_def nodes_of_def by blast+
    then show ?thesis by (cases n) simp_all
  qed
  have stack: "sorted_wrt left_of (ordered (g_roots ?g))"
  proof (rule sorted_wrt_mono_rel [OF _ conjunct2 [OF roots]])
    fix a b
    assume "a \<in> set (ordered (g_roots ?g))" "b \<in> set (ordered (g_roots ?g))" and lt: "nd_delta (hd b) < nd_delta (hd a)"
    then obtain c d where "a = [c]" "b = [d]" using single by meson
    then show "left_of a b" using lt siblings_left_of [of d c "[]"] by simp
  qed
  have all: "below (nodes_of ?P) (ordered (g_roots ?g)) = nodes_of ?P"
  proof -
    have "\<exists>r \<in> set (ordered (g_roots ?g)). suffix r n" if n: "n \<in> nodes_of ?P" for n
    proof -
      have ne: "n \<noteq> []" using n by (simp add: nodes_of_def)
      then have sx: "suffix [last n] n" by (metis append_butlast_last_id suffixI)
      then have "[last n] \<in> nodes_of ?P" by (rule nodes_of_suffix [OF n]) simp
      then show ?thesis using roots sx by (auto simp: tops_def)
    qed
    then show ?thesis by (auto simp: below_def)
  qed
  have "inj_on path_id (nodes_of ?P)" using coherentD(3) [OF P] by (auto intro: inj_onI)
  moreover have "length (g_seen ?g) = card (path_id ` nodes_of ?P)" using g distinct_card [of "g_seen ?g"] by (simp add: graph_ok_def)
  ultimately have "card (nodes_of ?P) = length (g_seen ?g)" by (simp add: card_image)
  then have card: "card (below (nodes_of ?P) (ordered (g_roots ?g))) \<le> length (g_seen ?g)" unfolding all by simp
  have sub: "set (ordered (g_roots ?g)) \<subseteq> nodes_of ?P" using roots tops by blast
  have fin: "finite ?P" by simp
  note w = tree_walk_ok [OF P fin g live sub stack card]
  then show "set (shared_readEntries s) = set ?es"
    using coherent_entries(3) [OF s] unfolding all by (auto simp: shared_readEntries_def shared_entries_def Let_def)
  show "sorted_wrt (\<lambda>x y. node_before (entry_path x) (entry_path y)) (shared_readEntries s)"
    using w by (simp add: shared_readEntries_def shared_entries_def Let_def)
qed

lemma coordOf_cat: "coordOf p = elias.cat (deltas p)"
  by (simp add: coordOf_def elias.cat_def)

text \<open>The comparator of the embedded sequence on the abstractions.\<close>

lemma absolute_before:
  assumes s: "coherent_state s" and x: "x \<in> set (fm_entries s)" and y: "y \<in> set (fm_entries s)"
  shows "emb_before (fst x, absolute_record (snd x)) (fst y, absolute_record (snd y)) \<longleftrightarrow> node_before (entry_path x) (entry_path y)"
proof -
  let ?ds = "deltas (entry_path x)" and ?es = "deltas (entry_path y)"
  note P = coherent_entries(1) [OF s] and nx = coherent_entries(3) [OF s x] and ny = coherent_entries(3) [OF s y]
  have p: "positive ?ds" "positive ?es" by (rule nodes_positive [OF P nx], rule nodes_positive [OF P ny])
  show ?thesis
  proof (cases "?ds = ?es")
    case True
    then have "entry_path x = entry_path y" by (rule nodes_chain [OF P nx ny])
    then have "fst x = fst y" using coherent_entries(2) [OF s x] coherent_entries(2) [OF s y] by simp
    then show ?thesis using True by (simp add: emb_before_def absolute_record_def node_before_def coordOf_cat chain_before_irrefl)
  next
    case False
    then have "dkey (elias.cat ?ds) \<noteq> dkey (elias.cat ?es)" using elias.cat_inj [OF p] by (auto simp: dkey_def)
    then show ?thesis using elias.dkey_order [OF p] by (simp add: emb_before_def absolute_record_def node_before_def coordOf_cat)
  qed
qed

lemma readEntries_refines:
  assumes s: "coherent_state s"
  shows "emb_readEntries (sharedToAbsolute s) = map (\<lambda>x. (fst x, absolute_record (snd x))) (shared_readEntries s)"
  unfolding emb_readEntries_def
proof (rule sort_by_unique)
  let ?f = "\<lambda>x. (fst x, absolute_record (snd x))"
  note w = readEntries_walk [OF s]
  have S: "set (fm_entries (sharedToAbsolute s)) = ?f ` set (fm_entries s)"
  proof (intro equalityI subsetI)
    fix y
    assume "y \<in> set (fm_entries (sharedToAbsolute s))"
    then have "fmlookup (sharedToAbsolute s) (fst y) = Some (snd y)" using fm_entries_iff [of "fst y" "snd y"] by simp
    then obtain r where "fmlookup s (fst y) = Some r" "snd y = absolute_record r" by (auto simp: sharedToAbsolute_def)
    then show "y \<in> ?f ` set (fm_entries s)" using fm_entries_iff [of "fst y" r s]
      by (intro image_eqI [of _ _ "(fst y, r)"]) (simp_all add: prod_eq_iff)
  next
    fix y
    assume "y \<in> ?f ` set (fm_entries s)"
    then obtain x where x: "x \<in> set (fm_entries s)" "y = ?f x" by blast
    then have "fmlookup (sharedToAbsolute s) (fst y) = Some (snd y)"
      using fm_entries_iff [of "fst x" "snd x" s] by (simp add: sharedToAbsolute_def)
    then show "y \<in> set (fm_entries (sharedToAbsolute s))" using fm_entries_iff [of "fst y" "snd y"] by simp
  qed
  show "distinct (fm_entries (sharedToAbsolute s))" using distinct_map [of fst "fm_entries (sharedToAbsolute s)"] by simp
  show "set (map ?f (shared_readEntries s)) = set (fm_entries (sharedToAbsolute s))" unfolding S set_map w(1) ..
  have "sorted_wrt (\<lambda>x y. emb_before (?f x) (?f y)) (shared_readEntries s)"
    by (rule sorted_wrt_mono_rel [OF _ w(2)]) (use absolute_before [OF s] w(1) in simp)
  then show "sorted_wrt emb_before (map ?f (shared_readEntries s))" by (simp add: sorted_wrt_map)
  have irr: "\<not> node_before n n" for n by (simp add: node_before_def chain_before_irrefl)
  have "distinct xs" if "sorted_wrt (\<lambda>x y. node_before (entry_path x) (entry_path y)) xs" for xs :: "(int \<times> 'a srec) list"
    using that irr by (induction xs) auto
  then have d: "distinct (shared_readEntries s)" using w(2) by blast
  have "inj_on fst (set (fm_entries s))" using distinct_map [of fst "fm_entries s"] by simp
  then have "inj_on ?f (set (shared_readEntries s))" unfolding w(1) by (auto simp: inj_on_def)
  then show "distinct (map ?f (shared_readEntries s))" using d by (simp add: distinct_map)
  show "total_on emb_before (set (fm_entries (sharedToAbsolute s)))"
    unfolding total_on_def S
  proof (intro conjI ballI impI)
    fix a b
    assume a: "a \<in> ?f ` set (fm_entries s)" and b: "b \<in> ?f ` set (fm_entries s)"
    then obtain x y where x: "x \<in> set (fm_entries s)" "a = ?f x" and y: "y \<in> set (fm_entries s)" "b = ?f y" by blast
    note o = absolute_before [OF s x(1) y(1)] absolute_before [OF s y(1) x(1)]
    show "a \<noteq> b \<Longrightarrow> emb_before a b \<or> emb_before b a"
    proof -
      assume "a \<noteq> b"
      then have "x \<noteq> y" using x y by auto
      then have "deltas (entry_path x) \<noteq> deltas (entry_path y)"
        using nodes_chain [OF coherent_entries(1) [OF s] coherent_entries(3) [OF s x(1)] coherent_entries(3) [OF s y(1)]]
          coherent_entries(2) [OF s x(1)] coherent_entries(2) [OF s y(1)] \<open>inj_on fst (set (fm_entries s))\<close> x(1) y(1)
        by (metis inj_onD)
      then show ?thesis using o chain_before_total by (auto simp: x y node_before_def)
    qed
    show "emb_before a b \<Longrightarrow> \<not> emb_before b a" using o chain_before_asym by (simp add: x y node_before_def)
    fix c
    assume "c \<in> ?f ` set (fm_entries s)"
    then obtain z where z: "z \<in> set (fm_entries s)" "c = ?f z" by blast
    show "emb_before a b \<Longrightarrow> emb_before b c \<Longrightarrow> emb_before a c"
      using o absolute_before [OF s x(1) z(1)] absolute_before [OF s y(1) z(1)] chain_before_trans
      by (simp add: x y z node_before_def) blast
  qed
qed

lemma reads_refine:
  assumes "coherent_state s"
  shows "shared_readIds s = emb_readIds (sharedToAbsolute s)" and "shared_read s = emb_read (sharedToAbsolute s)"
  unfolding shared_readIds_def emb_readIds_def shared_read_def emb_read_def readEntries_refines [OF assms]
  by (simp_all add: comp_def split_def absolute_record_def)

end
