(* ===== verification/SharedSound.thy ===== *)
theory SharedSound
  imports SharedTree
begin

text \<open>
  The prefix-sharing sequence refines the embedded one: \<^const>\<open>sharedToAbsolute\<close> is the abstraction, each operation
  commutes with it, and in every run its states represent the delivered operations.
\<close>

section \<open>Paths of honest operations\<close>

definition trail_cell :: "path \<Rightarrow> nat \<Rightarrow> cell" where
  "trail_cell p d = \<lparr>nd_delta = d, nd_id = path_id p + int d, nd_birthId = Some (path_id p + int d), nd_birthParentId = Some (path_id p)\<rparr>"

definition trail :: "nat list \<Rightarrow> path" where
  "trail ds = foldl (\<lambda>p d. trail_cell p d # p) [] ds"

lemma trail_simps [simp]: "trail [] = []" "trail (ds @ [d]) = trail_cell (trail ds) d # trail ds"
  by (simp_all add: trail_def)

lemma trail_id: "path_id (trail ds) = int (sum_list ds)"
  by (induction ds rule: rev_induct) (simp_all add: trail_cell_def path_id_def)

lemma trail_deltas [simp]: "deltas (trail ds) = ds"
  by (induction ds rule: rev_induct) (simp_all add: trail_cell_def)

lemma trail_Nil [simp]: "trail ds = [] \<longleftrightarrow> ds = []"
  by (cases ds rule: rev_cases) simp_all

lemma trail_birth: "ds \<noteq> [] \<Longrightarrow> nd_birthId (hd (trail ds)) = Some (int (sum_list ds))"
  by (cases ds rule: rev_cases) (simp_all add: trail_cell_def trail_id)

lemma trail_suffix: "suffix n (trail ds) \<Longrightarrow> \<exists>es. prefix es ds \<and> n = trail es"
proof (induction ds rule: rev_induct)
  case (snoc d ds)
  from snoc.prems consider "n = trail (ds @ [d])" | "suffix n (trail ds)" by (auto simp: suffix_Cons)
  then show ?case
  proof cases
    case 2
    then obtain es where "prefix es ds" "n = trail es" using snoc.IH by blast
    then show ?thesis by (intro exI [of _ es]) simp
  next
    case 1
    then show ?thesis by (intro exI [of _ "ds @ [d]"]) simp
  qed
qed (auto intro: exI [of _ "[]"])

lemma chain_prefix: "chain U i ds \<Longrightarrow> prefix es ds \<Longrightarrow> es \<noteq> [] \<Longrightarrow> \<exists>j. chain U j es"
proof (induction rule: chain.induct)
  case (root k i el)
  then have "es = [nat i]" by (cases es) auto
  with chain.root [OF root.hyps] have "chain U i es" by simp
  then show ?case ..
next
  case (child k i el a ds)
  from child.prems(1) consider "es = ds @ [nat (i - a)]" | "prefix es ds" unfolding prefix_snoc by blast
  then show ?case
  proof cases
    case 1
    with chain.child [OF child.hyps(1,2)] have "chain U i es" by simp
    then show ?thesis ..
  next
    case 2
    with child.IH child.prems(2) show ?thesis by simp
  qed
qed

definition honest_paths :: "'e emb_op event set \<Rightarrow> path set" where
  "honest_paths U = {trail ds | i ds. chain U i ds}"

lemma honest_node:
  assumes "P \<subseteq> honest_paths U" and "n \<in> nodes_of P"
  obtains j es where "chain U j es" "n = trail es" "es \<noteq> []"
proof -
  obtain p where p: "p \<in> P" "suffix n p" "n \<noteq> []" using assms(2) by (auto simp: nodes_of_def)
  then obtain i ds where d: "chain U i ds" "p = trail ds" using assms(1) by (auto simp: honest_paths_def)
  then obtain es where es: "prefix es ds" "n = trail es" using trail_suffix p(2) by blast
  then have "es \<noteq> []" using p(3) by auto
  with chain_prefix [OF d(1) es(1)] es(2) show ?thesis using that by blast
qed

lemma honest_same:
  assumes good: "emb_good U" and P: "P \<subseteq> honest_paths U" and n: "n \<in> nodes_of P" and m: "m \<in> nodes_of P"
  shows "path_id n = path_id m \<Longrightarrow> n = m" and "nd_birthId (hd n) = nd_birthId (hd m) \<Longrightarrow> n = m"
    and "\<exists>b. nd_birthId (hd n) = Some b"
proof -
  obtain i ds where n: "chain U i ds" "n = trail ds" "ds \<noteq> []" by (rule honest_node [OF P n])
  obtain j es where m: "chain U j es" "m = trail es" "es \<noteq> []" by (rule honest_node [OF P m])
  note sh = chain_shape [OF good n(1)] chain_shape [OF good m(1)]
  have same: "n = m" if "i = j" using that chain_fun [OF good n(1)] m(1) by (simp add: n(2) m(2))
  show "path_id n = path_id m \<Longrightarrow> n = m" using same sh by (simp add: n(2) m(2) trail_id)
  show "nd_birthId (hd n) = nd_birthId (hd m) \<Longrightarrow> n = m" using same sh n(3) m(3) by (simp add: n(2) m(2) trail_birth)
  show "\<exists>b. nd_birthId (hd n) = Some b" using n(3) by (simp add: n(2) trail_birth)
qed

lemma honest_coherent:
  assumes good: "emb_good U" and P: "P \<subseteq> honest_paths U"
  shows "coherent P"
  unfolding coherent_def
proof (intro conjI ballI impI)
  show "[] \<notin> P"
  proof
    assume "[] \<in> P"
    then have "[] \<in> honest_paths U" using P by blast
    then obtain i ds where "chain U i ds" "[] = trail ds" unfolding honest_paths_def by blast
    then show False using chain_shape [OF good, of i ds] by (metis trail_Nil)
  qed
next
  fix n
  assume n: "n \<in> nodes_of P"
  obtain i ds where c: "chain U i ds" "n = trail ds" "ds \<noteq> []" by (rule honest_node [OF P n])
  then obtain es d where ds: "ds = es @ [d]" by (cases ds rule: rev_cases) auto
  have "positive ds" using chain_shape [OF good c(1)] by blast
  then show "1 \<le> nd_delta (hd n)" by (simp add: c(2) ds trail_cell_def positive_def)
next
  fix n m
  assume nm: "n \<in> nodes_of P" "m \<in> nodes_of P"
  show "path_id n = path_id m \<Longrightarrow> n = m" by (rule honest_same(1) [OF good P nm])
  assume e: "tl n = tl m" "nd_delta (hd n) = nd_delta (hd m)"
  obtain i ds where c: "chain U i ds" "n = trail ds" "ds \<noteq> []" by (rule honest_node [OF P nm(1)])
  obtain j es where c': "chain U j es" "m = trail es" "es \<noteq> []" by (rule honest_node [OF P nm(2)])
  have "deltas n = deltas m" using e c(3) c'(3) by (cases n; cases m) (simp_all add: c(2) c'(2))
  then show "n = m" by (simp add: c(2) c'(2))
qed

section \<open>Merging\<close>

text \<open>Nodes that a birth determines: rebasing gives back the same node.\<close>

definition births_ok :: "path set \<Rightarrow> bool" where
  "births_ok N \<longleftrightarrow> (\<forall>n \<in> N. n \<noteq> [] \<and> (tl n = [] \<or> tl n \<in> N) \<and> (\<exists>b. nd_birthId (hd n) = Some b)) \<and>
     (\<forall>n \<in> N. \<forall>m \<in> N. nd_birthId (hd n) = nd_birthId (hd m) \<longrightarrow> n = m)"

definition index_births :: "path set \<Rightarrow> (int \<times> path) list \<Rightarrow> bool" where
  "index_births N nodes \<longleftrightarrow> (\<forall>b n. map_of nodes b = Some n \<longrightarrow> n \<in> N \<and> nd_birthId (hd n) = Some b)"

lemma canonical_same:
  assumes N: "births_ok N"
  shows "index_births N nodes \<Longrightarrow> p = [] \<or> p \<in> N \<Longrightarrow>
    \<exists>nodes'. canonical p nodes = Inr (p, nodes') \<and> index_births N nodes'"
proof (induction p arbitrary: nodes)
  case (Cons c p)
  have cp: "c # p \<in> N" using Cons.prems(2) by simp
  then obtain b where b: "nd_birthId c = Some b" and p: "p = [] \<or> p \<in> N" using N unfolding births_ok_def by force
  show ?case
  proof (cases "map_of nodes b")
    case (Some n)
    then have "n \<in> N" "nd_birthId (hd n) = Some b" using Cons.prems(1) unfolding index_births_def by blast+
    then have "n = c # p" using N cp b unfolding births_ok_def by (metis list.sel(1))
    then show ?thesis using Some b Cons.prems(1) by simp
  next
    case None
    from Cons.IH [OF Cons.prems(1) p] obtain nodes' where n': "canonical p nodes = Inr (p, nodes')" "index_births N nodes'" by blast
    have "index_births N (AList.update b (c # p) nodes')" using n'(2) b cp by (simp add: index_births_def update_conv')
    then show ?thesis using None b n'(1) by simp
  qed
qed simp

lemma birth_nodes_index: "births_ok N \<Longrightarrow> index_births N nodes \<Longrightarrow> p = [] \<or> p \<in> N \<Longrightarrow> index_births N (birth_nodes p nodes)"
proof (induction p arbitrary: nodes)
  case (Cons c p)
  have cp: "c # p \<in> N" using Cons.prems(3) by simp
  then obtain b where b: "nd_birthId c = Some b" and p: "p = [] \<or> p \<in> N" using Cons.prems(1) unfolding births_ok_def by force
  have "index_births N (nodes @ [(b, c # p)])" if "map_of nodes b = None"
    using Cons.prems(2) b cp unfolding index_births_def by (auto simp: map_add_def split: option.splits if_splits)
  then show ?case using Cons.IH [OF Cons.prems(1) _ p] Cons.prems(2) b by simp
qed simp

lemma births_fold:
  "births_ok N \<Longrightarrow> index_births N nodes \<Longrightarrow> entry_path ` set es \<subseteq> N \<Longrightarrow>
   index_births N (fold (\<lambda>x. birth_nodes (entry_path x)) es nodes)"
  by (induction es arbitrary: nodes) (simp_all add: birth_nodes_index)

lemma srec_eta [simp]: "\<lparr>sr_path = sr_path r, sr_el = sr_el r\<rparr> = r"
  by (cases r) simp

lemma merge_fold:
  assumes N: "births_ok N" and same: "\<forall>i ra rb. fmlookup a i = Some ra \<longrightarrow> fmlookup b i = Some rb \<longrightarrow> sr_path ra = sr_path rb"
  shows "set xs \<subseteq> set (fm_entries b) \<Longrightarrow> entry_path ` set xs \<subseteq> N \<Longrightarrow> index_births N nodes \<Longrightarrow>
    \<exists>nodes'. foldM (shared_merge_step l a) xs (t, nodes) = Inr (foldl (fm.add_step l a) t xs, nodes')"
proof (induction xs arbitrary: t nodes)
  case (Cons x xs)
  have b: "fmlookup b (fst x) = Some (snd x)" using Cons.prems(1) fm_entries_iff [of "fst x" "snd x" b] by simp
  have "entry_path x \<in> N" using Cons.prems(2) by simp
  then obtain nodes' where c: "canonical (entry_path x) nodes = Inr (entry_path x, nodes')" "index_births N nodes'"
    using canonical_same [OF N Cons.prems(3)] by blast
  have "\<exists>nodes'. shared_merge_step l a x (t, nodes) = Inr (fm.add_step l a t x, nodes') \<and> index_births N nodes'"
  proof (cases "fmlookup a (fst x)")
    case None
    show ?thesis using None c Cons.prems(3)
      by (cases "fmlookup l (fst x)") (simp_all add: shared_merge_step_def fm.add_step_def)
  next
    case (Some ra)
    then show ?thesis using same [rule_format, OF Some b] Cons.prems(3) by (simp add: shared_merge_step_def fm.add_step_def)
  qed
  then show ?case using Cons.IH Cons.prems(1,2) by (fastforce simp: rbind_eq_Inr)
qed simp

lemma shared_merge_eq:
  assumes N: "births_ok N" "paths_of a \<subseteq> N" "paths_of b \<subseteq> N"
    and same: "\<forall>i ra rb. fmlookup a i = Some ra \<longrightarrow> fmlookup b i = Some rb \<longrightarrow> sr_path ra = sr_path rb"
  shows "shared_merge3 l a b = Inr (fm.delta_merge l a b (fm_keys l) (fm_entries b))"
proof -
  have d: "(\<lambda>t i. if fmlookup b i = None then fmdrop i t else t) = fm.drop_step b" by (simp add: fun_eq_iff fm.drop_step_def)
  have "index_births N (fold (\<lambda>x. birth_nodes (entry_path x)) (fm_entries a) [])"
    by (rule births_fold [OF N(1)]) (use N(2) in \<open>simp_all add: index_births_def\<close>)
  from merge_fold [OF N(1) same order_refl N(3) this, where l = l and t = "foldl (fm.drop_step b) a (fm_keys l)"]
  show ?thesis unfolding shared_merge3_def Let_def d fm.delta_merge_def by auto
qed

lemma absolute_lookup [simp]: "fmlookup (sharedToAbsolute s) i = map_option absolute_record (fmlookup s i)"
  by (simp add: sharedToAbsolute_def)

lemma absolute_updates [simp]: "sharedToAbsolute (fmupd i r s) = fmupd i (absolute_record r) (sharedToAbsolute s)"
  "sharedToAbsolute (fmdrop i s) = fmdrop i (sharedToAbsolute s)"
  by (rule fmap_ext, simp)+

lemma absolute_merge:
  "sharedToAbsolute (fm.delta_merge l a b (fm_keys l) (fm_entries b)) =
   fm.delta_merge (sharedToAbsolute l) (sharedToAbsolute a) (sharedToAbsolute b)
     (fm_keys (sharedToAbsolute l)) (fm_entries (sharedToAbsolute b))"
proof (rule fmap_ext)
  fix i
  show "fmlookup (sharedToAbsolute (fm.delta_merge l a b (fm_keys l) (fm_entries b))) i =
    fmlookup (fm.delta_merge (sharedToAbsolute l) (sharedToAbsolute a) (sharedToAbsolute b)
     (fm_keys (sharedToAbsolute l)) (fm_entries (sharedToAbsolute b))) i"
    unfolding absolute_lookup delta_merge_lookup merged_lookup_def
    by (cases "fmlookup a i"; cases "fmlookup b i"; cases "fmlookup l i") simp_all
qed

text \<open>Every operation commutes with the abstraction, its exceptions included.\<close>

lemma apply_refines:
  "case shared_apply s x of Inl e \<Rightarrow> \<exists>e'. emb_apply dEnc (sharedToAbsolute s) x = Inl e'
   | Inr s' \<Rightarrow> emb_apply dEnc (sharedToAbsolute s) x = Inr (sharedToAbsolute s')"
proof (cases x)
  case (EIns i el anc)
  have c: "coordOf (snode p d j b bp) = coordOf p @ dEnc d" for p d j b bp by (simp add: coordOf_def snode_def)
  show ?thesis
  proof (cases anc)
    case None
    then show ?thesis using EIns c by (simp add: shared_record_def insRecord_def emb_enc_def absolute_record_def coordOf_def snode_def)
  next
    case (Some a)
    then show ?thesis using EIns
      by (cases "fmlookup s a") (simp_all add: shared_record_def insRecord_def emb_enc_def absolute_record_def c)
  qed
qed simp_all

section \<open>Runs\<close>

definition shared_rep :: "'e emb_op event set \<Rightarrow> 'e shared \<Rightarrow> bool" where
  "shared_rep E s \<longleftrightarrow> emb_good E \<and> emb_rep dEnc E (sharedToAbsolute s) \<and>
     (\<forall>i r. fmlookup s i = Some r \<longrightarrow> (\<exists>ds. chain E i ds \<and> sr_path r = trail ds))"

lemma shared_rep_trail: "shared_rep E s \<Longrightarrow> fmlookup s i = Some r \<Longrightarrow> \<exists>ds. chain E i ds \<and> sr_path r = trail ds"
  by (simp add: shared_rep_def)

lemma shared_rep_paths: "shared_rep E s \<Longrightarrow> paths_of s \<subseteq> honest_paths E"
  unfolding shared_rep_def paths_of_eq honest_paths_def by blast

lemma honest_paths_mono: "A \<subseteq> B \<Longrightarrow> honest_paths A \<subseteq> honest_paths B"
  unfolding honest_paths_def using chain_mono by blast

lemma shared_rep_coherent: "shared_rep E s \<Longrightarrow> coherent_state s"
proof -
  assume s: "shared_rep E s"
  then have good: "emb_good E" by (simp add: shared_rep_def)
  have "path_id (sr_path r) = i" if r: "fmlookup s i = Some r" for i r
  proof -
    obtain ds where "chain E i ds" "sr_path r = trail ds" using shared_rep_trail [OF s r] by blast
    then show ?thesis using chain_shape [OF good] by (simp add: trail_id)
  qed
  then show ?thesis using honest_coherent [OF good shared_rep_paths [OF s]] unfolding coherent_state_def paths_of_eq by blast
qed

lemma shared_rep_apply:
  assumes U: "emb_good U" "E \<subseteq> U" and s: "shared_rep E s" and h: "emb_honest U E x" and k: "k \<notin> fst ` U"
  shows "\<exists>s'. shared_apply s x = Inr s' \<and> shared_rep (insert (k, x) E) s' \<and> emb_good (insert (k, x) U)"
proof -
  have rep: "emb_rep dEnc E (sharedToAbsolute s)" using s by (simp add: shared_rep_def)
  note tr = shared_rep_trail [OF s]
  from emb_apply_rep [OF U rep h k] obtain t where t: "emb_apply dEnc (sharedToAbsolute s) x = Inr t"
    "emb_rep dEnc (insert (k, x) E) t" "emb_good (insert (k, x) U)" by blast
  then obtain s' where s': "shared_apply s x = Inr s'" "t = sharedToAbsolute s'"
    using apply_refines [of s x] by (cases "shared_apply s x") auto
  have g: "emb_good (insert (k, x) E)" by (rule good_subset [OF t(3)]) (use U(2) in blast)
  have m: "\<exists>ds. chain (insert (k, x) E) i ds \<and> sr_path r = trail ds" if "fmlookup s i = Some r" for i r
    using tr [OF that] chain_mono [OF _ subset_insertI] by blast
  have "\<exists>ds. chain (insert (k, x) E) i ds \<and> sr_path r = trail ds" if r: "fmlookup s' i = Some r" for i r
  proof (cases x)
    case (EIns j el anc)
    show ?thesis
    proof (cases "i = j")
      case False
      then have "fmlookup s i = Some r" using r s'(1) EIns by (auto simp: rbind_eq_Inr split: if_splits)
      then show ?thesis by (rule m)
    next
      case True
      show ?thesis
      proof (cases anc)
        case None
        then have "chain (insert (k, x) E) i [nat i]" using chain.root [of k i el] EIns True by simp
        moreover have "sr_path r = trail [nat i]"
          using r s'(1) EIns True None by (auto simp: shared_record_def snode_def trail_def trail_cell_def path_id_def rbind_eq_Inr split: if_splits)
        ultimately show ?thesis by auto
      next
        case (Some a)
        then obtain ra where ra: "fmlookup s a = Some ra" using s'(1) EIns by (cases "fmlookup s a") (auto simp: shared_record_def split: if_splits)
        then obtain ds where ds: "chain E a ds" "sr_path ra = trail ds" using tr by blast
        have "int (sum_list ds) = a" using chain_shape [of E a ds] ds(1) s by (simp add: shared_rep_def)
        then have "sr_path r = trail (ds @ [nat (i - a)])" using r s'(1) EIns True Some ra ds(2)
          by (auto simp: shared_record_def snode_def trail_cell_def trail_id rbind_eq_Inr split: if_splits)
        moreover have "chain (insert (k, x) E) i (ds @ [nat (i - a)])"
          using chain.child [of k i el a "insert (k, x) E" ds] chain_mono [OF ds(1) subset_insertI] EIns True Some by simp
        ultimately show ?thesis by blast
      qed
    qed
  next
    case (EDel j)
    then have "fmlookup s i = Some r" using r s'(1) by (auto split: if_splits)
    then show ?thesis by (rule m)
  qed (use s'(1) in simp)
  then show ?thesis using s' t g unfolding shared_rep_def by blast
qed

lemma shared_rep_merge:
  assumes U: "emb_good U" "A \<subseteq> U" "B \<subseteq> U" and a: "shared_rep A a" and b: "shared_rep B b" and l: "shared_rep (A \<inter> B) l"
  shows "\<exists>m. shared_merge3 l a b = Inr m \<and> shared_rep (A \<union> B) m"
proof -
  let ?P = "paths_of a \<union> paths_of b" and ?m = "fm.delta_merge l a b (fm_keys l) (fm_entries b)"
  have P: "?P \<subseteq> honest_paths U"
    using shared_rep_paths [OF a] shared_rep_paths [OF b] honest_paths_mono [OF U(2)] honest_paths_mono [OF U(3)] by blast
  have co: "coherent ?P" by (rule honest_coherent [OF U(1) P])
  have "births_ok (nodes_of ?P)"
    unfolding births_ok_def
  proof (intro conjI ballI impI)
    fix n m
    assume n: "n \<in> nodes_of ?P"
    show "n \<noteq> []" using n by (simp add: nodes_of_def)
    show "tl n = [] \<or> tl n \<in> nodes_of ?P" using nodes_of_tl [OF n] by blast
    show "\<exists>b. nd_birthId (hd n) = Some b" by (rule honest_same(3) [OF U(1) P n n])
    assume "m \<in> nodes_of ?P" "nd_birthId (hd n) = nd_birthId (hd m)"
    then show "n = m" by (rule honest_same(2) [OF U(1) P n])
  qed
  moreover have "paths_of a \<subseteq> nodes_of ?P" "paths_of b \<subseteq> nodes_of ?P" using nodes_of_self [OF coherentD(1) [OF co]] by blast+
  moreover have same: "sr_path ra = sr_path rb" if ra: "fmlookup a i = Some ra" and rb: "fmlookup b i = Some rb" for i ra rb
  proof -
    obtain ds es where "chain A i ds" "sr_path ra = trail ds" "chain B i es" "sr_path rb = trail es"
      using shared_rep_trail [OF a ra] shared_rep_trail [OF b rb] by blast
    then show ?thesis using chain_common [OF U] by metis
  qed
  ultimately have m: "shared_merge3 l a b = Inr ?m" by (intro shared_merge_eq) blast+
  have "emb_good (A \<union> B)" by (rule good_subset [OF U(1)]) (use U(2,3) in blast)
  moreover have "emb_rep dEnc (A \<union> B) (sharedToAbsolute ?m)"
  proof -
    have "emb_rep dEnc A (sharedToAbsolute a)" "emb_rep dEnc B (sharedToAbsolute b)" "emb_rep dEnc (A \<inter> B) (sharedToAbsolute l)"
      using a b l by (simp_all add: shared_rep_def)
    from emb_rep_merge [OF U this] show ?thesis by (auto simp: emb_merge3_eq absolute_merge split: if_splits)
  qed
  moreover have "\<exists>ds. chain (A \<union> B) i ds \<and> sr_path r = trail ds" if "fmlookup ?m i = Some r" for i r
  proof -
    have "fmlookup a i = Some r \<or> fmlookup b i = Some r"
      using that by (auto simp: delta_merge_lookup merged_lookup_def split: option.splits if_splits)
    then have "\<exists>ds. (chain A i ds \<or> chain B i ds) \<and> sr_path r = trail ds"
      using shared_rep_trail [OF a, of i r] shared_rep_trail [OF b, of i r] by blast
    then show ?thesis using chain_mono [OF _ Un_upper1 [of A B]] chain_mono [OF _ Un_upper2 [of B A]] by blast
  qed
  ultimately show ?thesis using m by (auto simp: shared_rep_def)
qed

lemma shared_rep_unique:
  assumes a: "shared_rep E a" and b: "shared_rep E b"
  shows "a = b"
proof (rule fmap_ext)
  fix i
  have abs: "sharedToAbsolute a = sharedToAbsolute b" using a b emb_rep_read unfolding shared_rep_def by blast
  then have l: "map_option absolute_record (fmlookup a i) = map_option absolute_record (fmlookup b i)"
    using absolute_lookup [of a i] absolute_lookup [of b i] by simp
  show "fmlookup a i = fmlookup b i"
  proof (cases "fmlookup a i")
    case None
    then show ?thesis using l by simp
  next
    case (Some ra)
    then obtain rb where rb: "fmlookup b i = Some rb" "absolute_record ra = absolute_record rb" using l by (cases "fmlookup b i") auto
    obtain ds es where "chain E i ds" "sr_path ra = trail ds" "chain E i es" "sr_path rb = trail es"
      using shared_rep_trail [OF a Some] shared_rep_trail [OF b rb(1)] by blast
    moreover have "emb_good E" using a by (simp add: shared_rep_def)
    ultimately have "sr_path ra = sr_path rb" using chain_fun by metis
    then have "ra = rb" using rb(2) by (cases ra, cases rb) (simp add: absolute_record_def)
    then show ?thesis using Some rb(1) by simp
  qed
qed

interpretation shared: mrdt shared_dt shared_rep emb_honest emb_good
proof unfold_locales
  show "emb_good {}" by (simp add: emb_good_def)
  show "shared_rep {} (dt_init shared_dt)"
    using emb_init_rep [of dEnc] by (simp add: shared_dt_def shared_rep_def sharedToAbsolute_def emb_init_def)
next
  fix U E :: "'a emb_op event set" and s x k
  assume "emb_good U" "E \<subseteq> U" "shared_rep E s" "emb_honest U E x" "k \<notin> fst ` U"
  from shared_rep_apply [OF this] show "\<exists>y s'. dt_prepared shared_dt s x = Inr y \<and> dt_apply shared_dt s y = Inr s' \<and>
      shared_rep (insert (k, y) E) s' \<and> emb_good (insert (k, y) U)"
    by (auto simp: shared_dt_def dt_prepared_def)
next
  fix U A B :: "'a emb_op event set" and a b l
  assume "emb_good U" "A \<subseteq> U" "B \<subseteq> U" "shared_rep A a" "shared_rep B b" "shared_rep (A \<inter> B) l"
  from shared_rep_merge [OF this] show "\<exists>m. dt_merge3 shared_dt l a b = Inr m \<and> shared_rep (A \<union> B) m"
    by (auto simp: shared_dt_def)
next
  fix E :: "'a emb_op event set" and s s'
  assume "shared_rep E s" "shared_rep E s'"
  then show "dt_read shared_dt s = dt_read shared_dt s'" using shared_rep_unique by metis
qed

text \<open>C22: sharing prefixes changes no reading. In every run of registrations, honest commits, synchronisations and
collections, a replica of the prefix-sharing sequence reads, in the order of the anchor chains, the delivered and not
deleted elements; its state, with every path written out as a coordinate, is the state the embedded sequence has in
any run of its own that delivers the same operations.\<close>

theorem shared_refines_embedded:
  assumes run: "delivery_run shared_dt emb_honest rt U Es" and i: "i < length Es"
  shows "rt_read shared_dt i rt = Inr (emb_read (sharedToAbsolute (head_state rt i))) \<and>
    shared_readIds (head_state rt i) = emb_readIds (sharedToAbsolute (head_state rt i)) \<and>
    set (shared_readIds (head_state rt i)) = {j. inserted (Es ! i) j \<and> \<not> deleted (Es ! i) j} \<and>
    sorted_wrt (id_before U) (shared_readIds (head_state rt i)) \<and>
    (\<forall>rt' U' Es' j. delivery_run (emb_dt dEnc) emb_honest rt' U' Es' \<longrightarrow> j < length Es' \<longrightarrow> Es' ! j = Es ! i \<longrightarrow>
       head_state rt' j = sharedToAbsolute (head_state rt i))"
proof -
  let ?s = "head_state rt i"
  note hd = shared.head_represents [OF run i]
  then have s: "shared_rep (Es ! i) ?s" and good: "emb_good U" "Es ! i \<subseteq> U" by blast+
  then have rep: "emb_rep dEnc (Es ! i) (sharedToAbsolute ?s)" by (simp add: shared_rep_def)
  note rd = reads_refine [OF shared_rep_coherent [OF s]]
  have r: "rt_read shared_dt i rt = Inr (emb_read (sharedToAbsolute ?s))"
    using hd rd(2) by (simp add: rt_read_def get_replica_def shared_dt_def)
  have "head_state rt' j = sharedToAbsolute ?s"
    if run': "delivery_run (emb_dt dEnc) emb_honest rt' U' Es'" and j: "j < length Es'" and e: "Es' ! j = Es ! i" for rt' U' Es' j
  proof -
    have "emb_rep dEnc (Es ! i) (head_state rt' j)" using emb.head_represents [OF run' j] e by simp
    then show ?thesis using rep by (rule emb_rep_read)
  qed
  moreover note elias.readIds_order [OF good rep]
  ultimately show ?thesis using r rd(1) by simp
qed

lemma shared_demo_run:
  "\<exists>rt. delivery_run shared_dt emb_honest rt {(1, EIns 1 True None)}
     [{(1, EIns 1 True None)}, {(1, EIns 1 True None)}]"
proof -
  have "emb_honest {} {} (EIns 1 True None)" by (simp add: inserted_def)
  from shared.demo_run [OF this] show ?thesis by (auto simp: dt_prepared_def shared_dt_def)
qed

theorem shared_refines_embedded_witness:
  "\<exists>rt U Es. delivery_run shared_dt emb_honest rt U Es \<and> inserted (Es ! 1) 1 \<and>
    rt_read shared_dt 1 rt = Inr (emb_read (sharedToAbsolute (head_state rt 1))) \<and>
    set (shared_readIds (head_state rt 1)) = {j. inserted (Es ! 1) j \<and> \<not> deleted (Es ! 1) j} \<and>
    sorted_wrt (id_before (U :: bool emb_op event set)) (shared_readIds (head_state rt 1))"
proof -
  obtain rt where run: "delivery_run shared_dt emb_honest rt {(1, EIns 1 True None)}
     [{(1, EIns 1 True None)}, {(1, EIns 1 True None)}]" using shared_demo_run by blast
  have "1 < length [{(1, EIns 1 True None :: bool emb_op)}, {(1, EIns 1 True None)}]" by simp
  note reads = shared_refines_embedded [OF run this]
  have "inserted ([{(1, EIns 1 True None)}, {(1, EIns 1 True None)}] ! 1) 1"
    unfolding inserted_def by force
  then show ?thesis
    by (intro exI [of _ rt] exI [of _ "{(1, EIns 1 True None)}"]
        exI [of _ "[{(1, EIns 1 True None)}, {(1, EIns 1 True None)}]"] conjI run)
      (use reads in blast)+
qed

end
