(* ===== verification/SharedGaps.thy ===== *)
theory SharedGaps
  imports SharedSound
begin

text \<open>
  Dead nodes without a birth. \<open>absoluteToShared\<close> numbers them -1, -2, ... in every state anew, and reading
  goes by these numbers: two states that were written out and read back separately, as in a lift across epochs, are
  merged as if their first dead nodes were one. The merge of the absolute states reads in the order of the chains.
\<close>

definition gap_emb :: "int \<Rightarrow> nat list \<Rightarrow> nat \<Rightarrow> nat emb" where
  "gap_emb i ds el = fmupd i \<lparr>er_coord = concat (map dEnc ds), er_el = el\<rparr> fmempty"

definition gap_a :: "nat emb" where
  "gap_a = gap_emb 8 [5, 3] 65"

definition gap_b :: "nat emb" where
  "gap_b = gap_emb 10 [9, 1] 66"

definition gap_merge :: "int list res" where
  "gap_merge = rbind (absoluteToShared gap_a fmempty) (\<lambda>a. rbind (absoluteToShared gap_b fmempty) (\<lambda>b.
     rbind (shared_merge3 fmempty a b) (\<lambda>m. Inr (shared_readIds m))))"

lemma clashing_dead_nodes:
  "gap_merge = Inr [8, 10]"
  "rbind (emb_merge3 fmempty gap_a gap_b) (\<lambda>m. Inr (emb_readIds m)) = Inr [10, 8]"
  by code_simp+

end
