(* ===== verification/Spec2Isabelle.thy ===== *)
theory Spec2Isabelle
  imports CommitDag Lca CommitGc Frontier Mint PopCount PersistentMap RuntimeCore Mrdt Orset EmbedRGA RgaSnapshot PeritextRuns ContentId EpochSound ReplicaGaps PeerGaps SnapshotSound PeritextGc CompactRgaPeritext EditBindSound SharedGaps
begin

text \<open>
  A development for the JavaScript runtime of replicated data types under \<^verbatim>\<open>runtime/src\<close>.

  THE PROGRAM. A replica keeps a store of commits, a graph in which a commit has parents, an operation or
  none, and a state. It commits operations on its head, ships the commits another replica lacks, ingests
  such deltas by recomputing every state and every content id, and merges heads by the three-way merge of
  its datatype over their maximal common ancestor. Every member leaves evidence of what it has seen; below
  the meet of the evidence, history is stable, so coordinates can be compacted (which opens an epoch) and
  commits collected. Datatypes are a set, two sequences and a rich text over either of them.

  THE THEORIES, in the order of the code they model (all files under \<^verbatim>\<open>runtime/src\<close>).

  \<^bold>\<open>Store and merge bases\<close>: \<open>Prelude\<close> (errors, results, insertion-ordered maps, the worklist loop),
  \<open>CommitDag\<close> (\<^verbatim>\<open>dag.js\<close>), \<open>Lca\<close> (\<^verbatim>\<open>lca.js\<close>), \<open>CommitGc\<close> (\<^verbatim>\<open>gc.js\<close>), \<open>Frontier\<close> (\<^verbatim>\<open>frontier.js\<close>), \<open>Mint\<close>
  (\<^verbatim>\<open>mint.js\<close>). A store is an association list of commits with its next id; the local id \<^verbatim>\<open>c7\<close> is the
  number 7. The lemmas: traversals end and compute reachability, \<open>lca\<close> is the greatest common ancestor or an
  error, a collection keeps ancestry and merge bases of what it keeps, the certificate is exact, minted
  times never repeat.

  \<^bold>\<open>Persistent map\<close>: \<open>PopCount\<close>, \<open>HashTrie\<close>, \<open>PersistentMap\<close>, with the lemmas of \<open>HashMap\<close> (\<^verbatim>\<open>pmap.js\<close>). The
  trie is refined to a finite map, and the datatypes are then modelled over \<open>fmap\<close>, whose entries in key
  order (\<open>fm_entries\<close>) are what \<^verbatim>\<open>entries()\<close> returns.

  \<^bold>\<open>Runtime in one process\<close>: \<open>RuntimeCore\<close> (\<^verbatim>\<open>runtime.js\<close>); \<open>RuntimeGc\<close> has the lemmas on runs with
  collections and \<open>Mrdt\<close> the locale of datatypes whose states represent sets of events, proved once for
  every run and interpreted on every datatype.

  \<^bold>\<open>Datatypes\<close> (\<^verbatim>\<open>datatypes/\<close>): \<open>Orset\<close> (\<^verbatim>\<open>orset.js\<close>), \<open>DeltaCode\<close> and \<open>EmbedRGA\<close> (\<^verbatim>\<open>embedRGA.js\<close>; coordinates are
  lists of bits, the delta code is the argument \<open>code\<close>), \<open>Rga\<close> and \<open>RgaSnapshot\<close> (\<^verbatim>\<open>rga.js\<close>), \<open>Peritext\<close>
  (\<^verbatim>\<open>peritext.js\<close>) with the lemmas of \<open>PeritextRender\<close>, \<open>PeritextKernels\<close> and \<open>PeritextRuns\<close>; \<open>LiveMap\<close> has the shared
  argument about maps of live records. For each: what every replica reads in every run, as a function of
  the delivered operations alone.

  \<^bold>\<open>Content ids and the wire\<close>: \<open>Json\<close>, \<open>ContentHash\<close> (\<^verbatim>\<open>hash.js\<close>), \<open>Wire\<close> (\<^verbatim>\<open>wire.js\<close>), with \<open>WireRoundtrip\<close>
  (what the encoder accepts the decoder reads back, up to key order and elided ids; every input is decoded
  or refused) and \<open>ContentId\<close> (under a hash without collisions, ids identify commits).

  \<^bold>\<open>Compaction and epochs\<close>: \<open>Compact\<close> (\<^verbatim>\<open>compact.js\<close>) with \<open>CompactSound\<close>, \<open>Epoch\<close> (\<^verbatim>\<open>epoch.js\<close>) with
  \<open>EpochSound\<close>. A node of the coordinate tree carries its flags and its children in the order of creation;
  where the code follows references and mutates nodes, the model rebuilds the path.

  \<^bold>\<open>Compaction of rich text\<close>: \<open>CompactPeritext\<close> (\<^verbatim>\<open>compact-peritext.js\<close>: cuts, cancelled pairs of marks, retention,
  re-coding, the snapshot of version 2), \<open>CompactRgaPeritext\<close> (\<^verbatim>\<open>compact-rga-peritext.js\<close>). \<open>PeritextMarks\<close> shows for any
  kernel that dropping dead births which bound no mark, and guarded pairs of marks, changes no reading;
  \<open>PeritextGc\<close> has the properties of the compaction, \<open>SnapshotSound\<close> the round trip of the snapshot.

  \<^bold>\<open>Replica\<close>: \<open>Effects\<close> (methods that change an object and may throw, and triples for them), \<open>Replica\<close>
  (construction, commits, minting, deltas), \<open>ReplicaMerge\<close> (epochs of a merge, ingestion, roster), \<open>ReplicaGc\<close>
  (compaction, collection, pruning, a sync of two replicas), all of \<^verbatim>\<open>replica.js\<close>. \<open>ReplicaInv\<close> is the
  invariant every method keeps, also when it throws; \<open>ReplicaFuel\<close> shows the bounds of the loops to be enough;
  \<open>ReplicaSound\<close> has the properties; \<open>ReplicaGaps\<close> evaluates three runs where the code does not do what its
  comments say.

  \<^bold>\<open>Serializer and peers\<close>: \<open>Serialize\<close> (\<^verbatim>\<open>serialize.js\<close>; the kept tree, the run table, bits, texts, encoder
  and decoder), with \<open>SerializeBits\<close> (what is written bit by bit is read back), \<open>SerializeTree\<close> (the table has
  the records of the tree and every run hangs off the tail of an earlier one), \<open>SerializeText\<close> (variable length
  integers and UTF-8), \<open>SerializeTable\<close> (the decoder reads the table and its texts) and \<open>SerializeSound\<close>
  (losslessness and the accounting of bits); \<open>PeerSync\<close> (\<^verbatim>\<open>sync.js\<close>) and \<open>PeerGaps\<close>, two more such runs.

  \<^bold>\<open>Prefix sharing\<close>: \<open>SharedEmbed\<close> (\<^verbatim>\<open>datatypes/sharedEmbedRGA.js\<close>: records point to nodes of a shared tree instead of
  carrying a coordinate; a node is its list of cells up to the root) and \<open>SharedCompact\<close> (\<^verbatim>\<open>shared-compact.js\<close>).
  \<open>SharedTree\<close> shows that the walk of the tree gives the order of the coordinates, \<open>SharedSound\<close> that every operation
  commutes with writing the paths out as coordinates, so that in every run the states are those of \<open>EmbedRGA\<close>;
  \<open>SharedGaps\<close> evaluates a merge of two states read back separately, which reads in another order.

  \<^bold>\<open>Editor bindings\<close>: \<open>EditBind\<close> (\<^verbatim>\<open>peritextbind.js\<close> and \<^verbatim>\<open>editbind.js\<close> of \<^verbatim>\<open>p2p-demo/src\<close>) and \<open>EditBindSound\<close>: a text
  edit makes the document read as the new text; past characters of two code units it does not.

  CONVENTIONS. A method that throws is \<open>Inl\<close> of a \<open>js_error\<close>, whose constructor is the kind of exception; where
  later code could see what was changed before the exception, the model is an action of \<open>Effects\<close>, which
  keeps it. Reading an absent field of a \<open>Map\<close> that the code goes on to use is a \<open>TypeError\<close>. A \<open>Map\<close> or \<open>Set\<close>
  whose order shows is an association list or a list without duplicates, in insertion order. Identifiers are
  integers, with \<open>is_safe\<close> where the code tests for it; hashes, masks and the bit reader are 32 bit words.
  Strings on the wire and in content ids are lists of 8 bit characters; texts in the serializer are lists of
  code points. A floating point number is its eight bytes, and its text an argument. Functions of a datatype
  that are optional in the code are options.

  BOUNDS. Every loop is structural or has a termination proof, but for these, whose fuel is shown to
  be enough: the walk of the tombstone sequence (the number of ids; \<open>orderedIds_total\<close>), variable length
  integers (eight bytes, as in the code), nested values on the wire (the number of bytes; \<open>decodeWire_total\<close>),
  chains of epochs (the number of epochs and one; \<open>liftChain_total\<close>, \<open>rp_toEpoch_enough\<close>), virtual merge bases (the
  commit and one; \<open>baseState_enough\<close>). The walk of a run table takes as many steps as there are entries.

  NOT MODELLED. The two-sided variants of the embedded sequence (\<^verbatim>\<open>datatypes/*Sided*\<close>), the binary snapshots of
  the prefix-sharing one and its count of physical nodes, which needs object identity, and the wrappers of
  \<^verbatim>\<open>compact-peritext.js\<close> for all of them; the size probe \<^verbatim>\<open>saveBytes\<close>, which measures JSON text;
  the demo around the replica (\<^verbatim>\<open>p2p-demo\<close>: transport, stores, presence, web pages), which is input and
  output; relay, benchmarks, scripts and tests.
\<close>

end
